(* ===== verification/Prelude.thy ===== *)
theory Prelude
  imports Main "HOL-Library.Word"
begin

unbundle bit_operations_syntax

text \<open>
  What every component shares: the exceptions of the Python code, the state-and-exception
  monad in which its methods are written (an exception keeps the state changes made before
  it, as Python does), the notion \<open>keeps I m\<close> of an invariant that a method preserves
  whether it returns or raises, and the facts on Python integers (unbounded, two's
  complement under bit operations) and on lists that the components use.
\<close>

named_theorems run_simps "running a monadic operation on a state"
named_theorems keeps_intros "operations that preserve an invariant"
named_theorems ends_intros "operations that preserve an invariant and end"
named_theorems regs "values of the register constants"

section \<open>Exceptions and the monad\<close>

text \<open>
  \<open>NoFuel\<close> is no exception of the program: it is the result of a loop of the model whose
  fuel ran out, that is, of a loop that is still running. The components prove that the
  fuel they give is enough.
\<close>

datatype exn =
    Exn string
  | AssertionError string
  | IndexError
  | KeyError
  | TypeError
  | AttributeError
  | StructError
  | ValueError string
  | OverflowError
  | ZeroDivisionError
  | SimTimeoutError
  | PoolError
  | NoFuel

type_synonym ('s, 'a) M = "'s \<Rightarrow> (exn + 'a) \<times> 's"

definition ret :: "'a \<Rightarrow> ('s, 'a) M" where
  "ret x = (\<lambda>s. (Inr x, s))"

definition throw :: "exn \<Rightarrow> ('s, 'a) M" where
  "throw e = (\<lambda>s. (Inl e, s))"

definition bnd :: "('s, 'a) M \<Rightarrow> ('a \<Rightarrow> ('s, 'b) M) \<Rightarrow> ('s, 'b) M" where
  "bnd m f = (\<lambda>s. case m s of (Inl e, s') \<Rightarrow> (Inl e, s') | (Inr x, s') \<Rightarrow> f x s')"

definition sq :: "('s, 'a) M \<Rightarrow> ('s, 'b) M \<Rightarrow> ('s, 'b) M" where
  "sq m n = bnd m (\<lambda>_. n)"

primrec seqm :: "('s, unit) M list \<Rightarrow> ('s, unit) M" where
  "seqm [] = ret ()"
| "seqm (m # ms) = sq m (seqm ms)"

definition gets :: "('s \<Rightarrow> 'a) \<Rightarrow> ('s, 'a) M" where
  "gets f = (\<lambda>s. (Inr (f s), s))"

definition modifies :: "('s \<Rightarrow> 's) \<Rightarrow> ('s, unit) M" where
  "modifies f = (\<lambda>s. (Inr (), f s))"

definition assertM :: "bool \<Rightarrow> string \<Rightarrow> ('s, unit) M" where
  "assertM b msg = (if b then ret () else throw (AssertionError msg))"

text \<open>An attribute access or call on \<open>None\<close> raises \<open>AttributeError\<close>.\<close>

definition attr :: "'a option \<Rightarrow> ('s, 'a) M" where
  "attr v = (case v of None \<Rightarrow> throw AttributeError | Some x \<Rightarrow> ret x)"

text \<open>\<open>for x in xs: f x\<close>.\<close>

primrec forM :: "'a list \<Rightarrow> ('a \<Rightarrow> ('s, unit) M) \<Rightarrow> ('s, unit) M" where
  "forM [] f = ret ()"
| "forM (x # xs) f = sq (f x) (forM xs f)"

text \<open>A pure step that may fail, lifted.\<close>

definition lift_res :: "exn + 'a \<Rightarrow> ('s, 'a) M" where
  "lift_res r = (case r of Inl e \<Rightarrow> throw e | Inr x \<Rightarrow> ret x)"

lemma run_ret [run_simps, simp]: "ret x s = (Inr x, s)"
  by (simp add: ret_def)

lemma run_throw [run_simps, simp]: "throw e s = (Inl e, s)"
  by (simp add: throw_def)

lemma run_gets [run_simps, simp]: "gets f s = (Inr (f s), s)"
  by (simp add: gets_def)

lemma run_modifies [run_simps, simp]: "modifies f s = (Inr (), f s)"
  by (simp add: modifies_def)

lemma run_assertM [run_simps]:
  "assertM b msg s = (if b then Inr () else Inl (AssertionError msg), s)"
  by (simp add: assertM_def)

lemma run_attr [run_simps]:
  "attr v s = ((case v of None \<Rightarrow> Inl AttributeError | Some x \<Rightarrow> Inr x), s)"
  by (simp add: attr_def split: option.split)

lemma run_lift_res [run_simps]: "lift_res r s = (r, s)"
  by (simp add: lift_res_def split: sum.split)

lemma run_bnd [run_simps]:
  "bnd m f s = (case m s of (Inl e, s') \<Rightarrow> (Inl e, s') | (Inr x, s') \<Rightarrow> f x s')"
  by (simp add: bnd_def)

lemma run_sq [run_simps]:
  "sq m n s = (case m s of (Inl e, s') \<Rightarrow> (Inl e, s') | (Inr x, s') \<Rightarrow> n s')"
  by (simp add: sq_def bnd_def)

lemma bnd_Inr: "m s = (Inr x, s') \<Longrightarrow> bnd m f s = f x s'"
  by (simp add: bnd_def)

lemma bnd_Inl: "m s = (Inl e, s') \<Longrightarrow> bnd m f s = (Inl e, s')"
  by (simp add: bnd_def)

lemma sq_Inr: "m s = (Inr x, s') \<Longrightarrow> sq m n s = n s'"
  by (simp add: sq_def bnd_def)

lemma sq_Inl: "m s = (Inl e, s') \<Longrightarrow> sq m n s = (Inl e, s')"
  by (simp add: sq_def bnd_def)

lemma bnd_ret [simp]: "bnd (ret x) f = f x"
  by (simp add: bnd_def fun_eq_iff)

lemma bnd_assoc: "bnd (bnd m f) g = bnd m (\<lambda>x. bnd (f x) g)"
  by (auto simp: bnd_def fun_eq_iff split: prod.splits sum.splits)

lemma run_seqm_append:
  "seqm (ms @ ns) s = (case seqm ms s of (Inl e, s') \<Rightarrow> (Inl e, s') | (Inr _, s') \<Rightarrow> seqm ns s')"
  by (induction ms arbitrary: s) (auto simp: run_simps split: prod.splits sum.splits)

lemma run_forM_append:
  "forM (xs @ ys) f s =
     (case forM xs f s of (Inl e, s') \<Rightarrow> (Inl e, s') | (Inr _, s') \<Rightarrow> forM ys f s')"
  by (induction xs arbitrary: s) (auto simp: run_simps split: prod.splits sum.splits)

section \<open>Preservation, on the normal and on the exceptional way out\<close>

definition keeps :: "('s \<Rightarrow> bool) \<Rightarrow> ('s, 'a) M \<Rightarrow> bool" where
  "keeps I m \<longleftrightarrow> (\<forall>s. I s \<longrightarrow> I (snd (m s)))"

lemma keepsI: "(\<And>s. I s \<Longrightarrow> I (snd (m s))) \<Longrightarrow> keeps I m"
  by (simp add: keeps_def)

lemma keepsD: "keeps I m \<Longrightarrow> I s \<Longrightarrow> I (snd (m s))"
  by (simp add: keeps_def)

lemma keeps_run: "keeps I m \<Longrightarrow> I s \<Longrightarrow> m s = (r, s') \<Longrightarrow> I s'"
  using keepsD by fastforce

lemma keeps_ret [keeps_intros]: "keeps I (ret x)"
  by (simp add: keeps_def)

lemma keeps_throw [keeps_intros]: "keeps I (throw e)"
  by (simp add: keeps_def)

lemma keeps_gets [keeps_intros]: "keeps I (gets f)"
  by (simp add: keeps_def)

lemma keeps_assertM [keeps_intros]: "keeps I (assertM b msg)"
  by (simp add: keeps_def run_assertM)

lemma keeps_attr [keeps_intros]: "keeps I (attr v)"
  by (simp add: keeps_def run_attr)

lemma keeps_lift_res [keeps_intros]: "keeps I (lift_res r)"
  by (simp add: keeps_def run_lift_res)

lemma keeps_bnd [keeps_intros]:
  assumes "keeps I m" and "\<And>x. keeps I (f x)"
  shows "keeps I (bnd m f)"
proof (rule keepsI)
  fix s assume "I s"
  with assms(1) have "I (snd (m s))" by (rule keepsD)
  with assms(2) show "I (snd (bnd m f s))"
    by (auto simp: keeps_def run_bnd split: prod.splits sum.splits)
qed

lemma keeps_sq [keeps_intros]: "keeps I m \<Longrightarrow> keeps I n \<Longrightarrow> keeps I (sq m n)"
  by (simp add: sq_def keeps_bnd)

lemma keeps_seqm [keeps_intros]: "\<forall>m \<in> set ms. keeps I m \<Longrightarrow> keeps I (seqm ms)"
  by (induction ms) (auto intro: keeps_intros)

lemma keeps_forM [keeps_intros]: "(\<And>x. x \<in> set xs \<Longrightarrow> keeps I (f x)) \<Longrightarrow> keeps I (forM xs f)"
  by (induction xs) (auto intro: keeps_intros)

lemma keeps_if [keeps_intros]: "(b \<Longrightarrow> keeps I m) \<Longrightarrow> (\<not> b \<Longrightarrow> keeps I n) \<Longrightarrow> keeps I (if b then m else n)"
  by simp

lemma keeps_modifies: "(\<And>s. I s \<Longrightarrow> I (f s)) \<Longrightarrow> keeps I (modifies f)"
  by (simp add: keeps_def)

text \<open>\<open>ends I m\<close>: in addition no loop of the method runs out of fuel.\<close>

definition ends :: "('s \<Rightarrow> bool) \<Rightarrow> ('s, 'a) M \<Rightarrow> bool" where
  "ends I m \<longleftrightarrow> (\<forall>s. I s \<longrightarrow> I (snd (m s)) \<and> fst (m s) \<noteq> Inl NoFuel)"

lemma endsI: "(\<And>s r s'. I s \<Longrightarrow> m s = (r, s') \<Longrightarrow> I s' \<and> r \<noteq> Inl NoFuel) \<Longrightarrow> ends I m"
  unfolding ends_def by (metis prod.collapse)

lemma endsD: "ends I m \<Longrightarrow> I s \<Longrightarrow> m s = (r, s') \<Longrightarrow> I s' \<and> r \<noteq> Inl NoFuel"
  unfolding ends_def by fastforce

lemma ends_keeps: "ends I m \<Longrightarrow> keeps I m"
  by (simp add: ends_def keeps_def)

lemma ends_basic [ends_intros]:
  "ends I (ret x)" "ends I (gets f)" "ends I (assertM b msg)" "ends I (attr v)"
  "e \<noteq> NoFuel \<Longrightarrow> ends I (throw e)"
  by (auto simp: ends_def run_assertM run_attr split: option.split)

lemma ends_bnd [ends_intros]:
  assumes m: "ends I m" and f: "\<And>x. ends I (f x)"
  shows "ends I (bnd m f)"
proof (rule endsI)
  fix s r s' assume s: "I s" and run: "bnd m f s = (r, s')"
  obtain q s1 where q: "m s = (q, s1)" by (cases "m s")
  with m s have "I s1" "q \<noteq> Inl NoFuel" by (auto dest: endsD)
  with q run f show "I s' \<and> r \<noteq> Inl NoFuel"
    by (cases q) (auto simp: run_bnd dest: endsD)
qed

lemma ends_sq [ends_intros]: "ends I m \<Longrightarrow> ends I n \<Longrightarrow> ends I (sq m n)"
  by (simp add: sq_def ends_bnd)

lemma ends_if [ends_intros]: "(b \<Longrightarrow> ends I m) \<Longrightarrow> (\<not> b \<Longrightarrow> ends I n) \<Longrightarrow> ends I (if b then m else n)"
  by simp

lemma ends_option [ends_intros]:
  "(v = None \<Longrightarrow> ends I m) \<Longrightarrow> (\<And>x. v = Some x \<Longrightarrow> ends I (n x)) \<Longrightarrow>
   ends I (case v of None \<Rightarrow> m | Some x \<Rightarrow> n x)"
  by (cases v) auto

lemma ends_seqm [ends_intros]: "\<forall>m \<in> set ms. ends I m \<Longrightarrow> ends I (seqm ms)"
  by (induction ms) (auto intro: ends_intros)

lemma ends_forM [ends_intros]: "(\<And>x. x \<in> set xs \<Longrightarrow> ends I (f x)) \<Longrightarrow> ends I (forM xs f)"
  by (induction xs) (auto intro: ends_intros)

lemma ends_Inr: "(\<And>s. I s \<Longrightarrow> \<exists>x s'. m s = (Inr x, s') \<and> I s') \<Longrightarrow> ends I m"
  by (rule endsI) fastforce

section \<open>Python integers\<close>

text \<open>\<open>int.bit_length\<close>: the length of the binary representation of the absolute value.\<close>

fun bitlen :: "nat \<Rightarrow> nat" where
  "bitlen n = (if n = 0 then 0 else Suc (bitlen (n div 2)))"

declare bitlen.simps [simp del]

definition bit_length :: "int \<Rightarrow> int" where
  "bit_length n = int (bitlen (nat \<bar>n\<bar>))"

lemma bitlen_0 [simp]: "bitlen 0 = 0"
  by (simp add: bitlen.simps)

lemma bitlen_pos: "0 < n \<Longrightarrow> bitlen n = Suc (bitlen (n div 2))"
  by (simp add: bitlen.simps [of n])

lemma bitlen_bounds: "0 < n \<Longrightarrow> 2 ^ (bitlen n - 1) \<le> n \<and> n < 2 ^ bitlen n"
proof (induction n rule: bitlen.induct)
  case (1 n)
  show ?case
  proof (cases "n div 2 = 0")
    case True
    with 1(2) have "n = 1" by auto
    then show ?thesis by (simp add: bitlen_pos)
  next
    case False
    then have IH: "2 ^ (bitlen (n div 2) - 1) \<le> n div 2" "n div 2 < 2 ^ bitlen (n div 2)"
      using 1 by auto
    have "0 < bitlen (n div 2)" using False by (simp add: bitlen_pos)
    then have "2 ^ bitlen (n div 2) = 2 * (2 ^ (bitlen (n div 2) - 1) :: nat)"
      by (simp add: power_eq_if)
    with IH have "2 ^ bitlen (n div 2) \<le> n" by linarith
    moreover have "n < 2 * 2 ^ bitlen (n div 2)" using IH(2) by linarith
    ultimately show ?thesis using 1(2) by (simp add: bitlen_pos)
  qed
qed

lemma bitlen_le: "n < 2 ^ k \<Longrightarrow> bitlen n \<le> k"
proof (induction n arbitrary: k rule: bitlen.induct)
  case (1 n)
  show ?case
  proof (cases "n = 0")
    case False
    with 1(2) obtain k' where k: "k = Suc k'" by (cases k) auto
    with 1(2) have "n div 2 < 2 ^ k'" by simp
    with 1(1) False k show ?thesis by (simp add: bitlen_pos)
  qed simp
qed

lemma bitlen_exp: "bitlen (2 ^ k) = Suc k"
proof (induction k)
  case 0 show ?case by (simp add: bitlen_pos)
next
  case (Suc k)
  moreover have "bitlen (2 ^ Suc k) = Suc (bitlen (2 ^ Suc k div 2))" by (rule bitlen_pos) simp
  ultimately show ?case by simp
qed

text \<open>The size a ring is opened with is rounded down to a power of two.\<close>

definition floor_log2 :: "int \<Rightarrow> nat" where
  "floor_log2 n = bitlen (nat \<bar>n\<bar>) - 1"

lemma bit_length_floor_log2: "n \<noteq> 0 \<Longrightarrow> bit_length n - 1 = int (floor_log2 n)"
  by (simp add: bit_length_def floor_log2_def bitlen_pos)

lemma floor_log2_exp [simp]: "floor_log2 (2 ^ k) = k"
  by (simp add: floor_log2_def bitlen_exp nat_power_eq)

lemma floor_log2_bounds:
  assumes n: "0 < n"
  shows "2 ^ floor_log2 n \<le> n \<and> n < 2 * 2 ^ floor_log2 n"
proof -
  have b: "2 ^ (bitlen (nat n) - 1) \<le> nat n" "nat n < 2 ^ bitlen (nat n)"
    using bitlen_bounds [of "nat n"] n by auto
  have s: "bitlen (nat n) = Suc (floor_log2 n)"
    using n by (simp add: floor_log2_def bitlen_pos)
  have "int (2 ^ floor_log2 n) \<le> int (nat n)"
    using b(1) s by (simp only: of_nat_le_iff) simp
  moreover have "int (nat n) < int (2 * 2 ^ floor_log2 n)"
    using b(2) s by (simp only: of_nat_less_iff) simp
  ultimately show ?thesis using n by simp
qed

lemma and_mask_mod: "x AND (2 ^ k - 1) = x mod 2 ^ k" for x :: int
  by (simp add: take_bit_eq_mod [symmetric] take_bit_eq_mask mask_eq_exp_minus_1)

lemma and_exp_nonzero: "x AND 2 ^ k \<noteq> 0 \<longleftrightarrow> odd (x div 2 ^ k)" for x :: int
  by (metis and_exp_eq_0_iff_not_bit bit_iff_odd)

text \<open>One lap further round a ring of \<open>2 ^ k\<close> slots the phase bit has flipped.\<close>

lemma phase_next_lap: "odd ((x + 2 ^ k) div 2 ^ k) \<longleftrightarrow> even (x div 2 ^ k)" for x :: int
proof -
  have "(x + 2 ^ k) div 2 ^ k = x div 2 ^ k + 1" by (simp add: div_add_self2)
  then show ?thesis by simp
qed

lemma mod_add_pow_self [simp]: "(x + 2 ^ k) mod 2 ^ k = x mod 2 ^ k" for x :: int
  by simp

text \<open>Two pointers less than one lap apart fall on different slots.\<close>

lemma mod_eq_close: "a mod m = b mod m \<Longrightarrow> \<bar>a - b\<bar> < m \<Longrightarrow> a = b" for a b m :: int
proof -
  assume m: "a mod m = b mod m" "\<bar>a - b\<bar> < m"
  then have "m dvd a - b" by (simp add: mod_eq_dvd_iff)
  with m(2) have "a - b = 0" using zdvd_not_zless [of "\<bar>a - b\<bar>" m] by auto
  then show ?thesis by simp
qed

text \<open>Or-ing disjoint bit ranges adds them.\<close>

lemma or_disjoint_add:
  fixes a b :: int
  assumes "0 \<le> b" "b < 2 ^ n" "a mod 2 ^ n = 0"
  shows "a OR b = a + b"
proof -
  have b: "take_bit n b = b" using assms(1,2) by (simp add: take_bit_int_eq_self_iff)
  have a: "a = push_bit n (drop_bit n a)"
    using assms(3) div_mult_mod_eq [of a "2 ^ n"] by (simp add: push_bit_eq_mult drop_bit_eq_div)
  have "\<not> bit a m \<or> \<not> bit b m" for m
  proof (cases "m < n")
    case True
    then have "\<not> bit (push_bit n (drop_bit n a)) m" by (simp add: bit_push_bit_iff)
    then show ?thesis using a by simp
  next
    case False
    then have "\<not> bit (take_bit n b) m" by (simp add: bit_take_bit_iff)
    then show ?thesis using b by simp
  qed
  then show ?thesis by (simp add: disjunctive_add)
qed

section \<open>Lists\<close>

text \<open>\<open>xs[i]\<close> and \<open>xs[i] = v\<close> with a non-negative index; out of range they raise \<open>IndexError\<close>.\<close>

definition py_nth :: "'a list \<Rightarrow> int \<Rightarrow> exn + 'a" where
  "py_nth xs i = (if 0 \<le> i \<and> i < int (length xs) then Inr (xs ! nat i)
     else if - int (length xs) \<le> i \<and> i < 0 then Inr (xs ! nat (int (length xs) + i))
     else Inl IndexError)"

definition py_upd :: "'a list \<Rightarrow> int \<Rightarrow> 'a \<Rightarrow> exn + 'a list" where
  "py_upd xs i v = (if 0 \<le> i \<and> i < int (length xs) then Inr (xs[nat i := v])
     else if - int (length xs) \<le> i \<and> i < 0 then Inr (xs[nat (int (length xs) + i) := v])
     else Inl IndexError)"

lemma py_nth_in [simp]: "0 \<le> i \<Longrightarrow> i < int (length xs) \<Longrightarrow> py_nth xs i = Inr (xs ! nat i)"
  by (simp add: py_nth_def)

lemma py_upd_in [simp]: "0 \<le> i \<Longrightarrow> i < int (length xs) \<Longrightarrow> py_upd xs i v = Inr (xs[nat i := v])"
  by (simp add: py_upd_def)

text \<open>\<open>range(n)\<close> for a Python integer.\<close>

definition py_range :: "int \<Rightarrow> int list" where
  "py_range n = map int [0..<nat n]"

lemma set_py_range [simp]: "set (py_range n) = {0..<n}"
proof -
  have "x \<in> int ` {0..<nat n}" if "0 \<le> x" "x < n" for x
    using that by (intro image_eqI [of _ _ "nat x"]) auto
  then show ?thesis by (auto simp: py_range_def)
qed

lemma length_py_range [simp]: "length (py_range n) = nat n"
  by (simp add: py_range_def)

text \<open>Overwriting the bytes of a buffer from a position on.\<close>

definition splice :: "'a list \<Rightarrow> nat \<Rightarrow> 'a list \<Rightarrow> 'a list" where
  "splice buf off bs = take off buf @ bs @ drop (off + length bs) buf"

lemma length_splice [simp]: "off + length bs \<le> length buf \<Longrightarrow> length (splice buf off bs) = length buf"
  by (simp add: splice_def)

lemma nth_splice:
  assumes "off + length bs \<le> length buf" and "i < length buf"
  shows "splice buf off bs ! i = (if off \<le> i \<and> i < off + length bs then bs ! (i - off) else buf ! i)"
  using assms by (auto simp: splice_def nth_append min_def)

lemma take_drop_splice_same:
  "off + length bs \<le> length buf \<Longrightarrow> take (length bs) (drop off (splice buf off bs)) = bs"
  by (simp add: splice_def)

lemma take_drop_splice_other:
  assumes "off + length bs \<le> length buf" and "pos + n \<le> length buf"
    and "pos + n \<le> off \<or> off + length bs \<le> pos"
  shows "take n (drop pos (splice buf off bs)) = take n (drop pos buf)"
  using assms by (intro nth_equalityI) (auto simp: nth_splice)

end
