(* ===== verification/Py_Struct.thy ===== *)
theory Py_Struct
  imports Prelude
begin

text \<open>
  The part of Python's \<open>struct\<close> module and of \<open>int.to_bytes\<close> / \<open>int.from_bytes\<close> that the
  driver and the bus models use: little-endian standard-size fields (\<open>B H L Q\<close> and the
  padding \<open>x\<close>), packing into and unpacking from a buffer at an offset. A value that does not
  fit its field, a wrong number of values or a buffer that is too short is \<open>struct.error\<close>
  (\<open>StructError\<close>). The lemmas show that unpacking what was packed gives the values back and
  that packing leaves the rest of the buffer alone.
\<close>

type_synonym byte = "8 word"

section \<open>Little-endian integers\<close>

fun le_bytes :: "nat \<Rightarrow> int \<Rightarrow> byte list" where
  "le_bytes 0 v = []"
| "le_bytes (Suc n) v = word_of_int v # le_bytes n (v div 256)"

fun le_val :: "byte list \<Rightarrow> int" where
  "le_val [] = 0"
| "le_val (b # bs) = uint b + 256 * le_val bs"

lemma length_le_bytes [simp]: "length (le_bytes n v) = n"
  by (induction n arbitrary: v) auto

lemma uint_byte_bounds [simp]: "0 \<le> uint (b :: byte)" "uint (b :: byte) < 256" "uint (b :: byte) \<le> 255"
  using uint_lt2p [of b] by auto

lemma le_val_nonneg [simp]: "0 \<le> le_val bs"
  by (induction bs) auto

lemma le_val_bound: "le_val bs < 256 ^ length bs"
proof (induction bs)
  case (Cons b bs)
  have "uint b + 256 * le_val bs < 256 * p" if "le_val bs < p" for p
    using that uint_byte_bounds(2) [of b] by arith
  from this [OF Cons] show ?case by simp
qed simp

lemma le_val_le_bytes: "0 \<le> v \<Longrightarrow> v < 256 ^ n \<Longrightarrow> le_val (le_bytes n v) = v"
proof (induction n arbitrary: v)
  case (Suc n)
  then have "v div 256 < 256 ^ n" by (simp add: div_less_iff_less_mult)
  with Suc have "le_val (le_bytes n (v div 256)) = v div 256" by simp
  moreover have "uint (word_of_int v :: byte) = v mod 256"
    by (simp add: uint_word_of_int)
  ultimately show ?case by simp
qed simp

lemma le_bytes_le_val: "le_bytes (length bs) (le_val bs) = bs"
proof (induction bs)
  case (Cons b bs)
  have "(uint b + 256 * le_val bs) div 256 = le_val bs"
    by simp
  moreover have "word_of_int (uint b + 256 * le_val bs) = b"
  proof -
    have "word_of_int (uint b + 256 * le_val bs) = (b + word_of_int 256 * word_of_int (le_val bs) :: byte)"
      by simp
    also have "word_of_int 256 = (0 :: byte)" by (rule word_uint_eqI) (simp add: uint_word_of_int)
    finally show ?thesis by simp
  qed
  ultimately show ?case using Cons by simp
qed simp

lemma le_val_append: "le_val (xs @ ys) = le_val xs + 256 ^ length xs * le_val ys"
  by (induction xs) (auto simp: algebra_simps)

section \<open>Formats\<close>

datatype fld = FB | FH | FL | FQ | FX nat

fun fld_size :: "fld \<Rightarrow> nat" where
  "fld_size FB = 1"
| "fld_size FH = 2"
| "fld_size FL = 4"
| "fld_size FQ = 8"
| "fld_size (FX n) = n"

definition calcsize :: "fld list \<Rightarrow> nat" where
  "calcsize fs = sum_list (map fld_size fs)"

fun pack :: "fld list \<Rightarrow> int list \<Rightarrow> exn + byte list" where
  "pack [] [] = Inr []"
| "pack [] (v # vs) = Inl StructError"
| "pack (FX n # fs) vs =
     (case pack fs vs of Inl e \<Rightarrow> Inl e | Inr bs \<Rightarrow> Inr (replicate n 0 @ bs))"
| "pack (f # fs) [] = Inl StructError"
| "pack (f # fs) (v # vs) =
     (if 0 \<le> v \<and> v < 256 ^ fld_size f
      then (case pack fs vs of Inl e \<Rightarrow> Inl e | Inr bs \<Rightarrow> Inr (le_bytes (fld_size f) v @ bs))
      else Inl StructError)"

fun unpack :: "fld list \<Rightarrow> byte list \<Rightarrow> int list" where
  "unpack [] bs = []"
| "unpack (FX n # fs) bs = unpack fs (drop n bs)"
| "unpack (f # fs) bs = le_val (take (fld_size f) bs) # unpack fs (drop (fld_size f) bs)"

definition pack_into :: "fld list \<Rightarrow> byte list \<Rightarrow> int \<Rightarrow> int list \<Rightarrow> exn + byte list" where
  "pack_into fs buf off vs =
     (case pack fs vs of
        Inl e \<Rightarrow> Inl e
      | Inr bs \<Rightarrow>
          (if 0 \<le> off \<and> nat off + calcsize fs \<le> length buf
           then Inr (splice buf (nat off) bs) else Inl StructError))"

definition unpack_from :: "fld list \<Rightarrow> byte list \<Rightarrow> int \<Rightarrow> exn + int list" where
  "unpack_from fs buf off =
     (if 0 \<le> off \<and> nat off + calcsize fs \<le> length buf
      then Inr (unpack fs (drop (nat off) buf)) else Inl StructError)"

lemma calcsize_simps [simp]: "calcsize [] = 0" "calcsize (f # fs) = fld_size f + calcsize fs"
  by (simp_all add: calcsize_def)

lemma length_pack: "pack fs vs = Inr bs \<Longrightarrow> length bs = calcsize fs"
  by (induction fs vs arbitrary: bs rule: pack.induct) (auto split: sum.splits if_splits)

lemma unpack_pack: "pack fs vs = Inr bs \<Longrightarrow> unpack fs (bs @ rest) = vs"
  by (induction fs vs arbitrary: bs rule: pack.induct)
     (auto split: sum.splits if_splits simp: le_val_le_bytes simp del: fld_size.simps(1-4))

lemma pack_into_Inr:
  "pack_into fs buf off vs = Inr buf' \<Longrightarrow>
   \<exists>bs. pack fs vs = Inr bs \<and> length bs = calcsize fs \<and> 0 \<le> off \<and>
        nat off + calcsize fs \<le> length buf \<and> buf' = splice buf (nat off) bs"
  by (auto simp: pack_into_def length_pack split: sum.splits if_splits)

lemma length_pack_into: "pack_into fs buf off vs = Inr buf' \<Longrightarrow> length buf' = length buf"
  by (auto dest!: pack_into_Inr)

lemma unpack_from_pack_into:
  assumes "pack_into fs buf off vs = Inr buf'"
  shows "unpack_from fs buf' off = Inr vs"
proof -
  from assms obtain bs where bs: "pack fs vs = Inr bs" "length bs = calcsize fs" "0 \<le> off"
      "nat off + calcsize fs \<le> length buf" "buf' = splice buf (nat off) bs"
    by (blast dest: pack_into_Inr)
  then have "drop (nat off) buf' = bs @ drop (nat off + length bs) buf"
    by (simp add: splice_def)
  with bs show ?thesis by (simp add: unpack_from_def unpack_pack)
qed

lemma unpack_cong: "take (calcsize fs) bs = take (calcsize fs) bs' \<Longrightarrow> unpack fs bs = unpack fs bs'"
proof (induction fs arbitrary: bs bs')
  case (Cons f fs)
  have t: "take (fld_size f) bs = take (fld_size f) bs'"
    using arg_cong [OF Cons.prems, of "take (fld_size f)"] by simp
  have "take (calcsize fs) (drop (fld_size f) bs) = take (calcsize fs) (drop (fld_size f) bs')"
    using arg_cong [OF Cons.prems, of "drop (fld_size f)"] by (simp add: drop_take)
  then have "unpack fs (drop (fld_size f) bs) = unpack fs (drop (fld_size f) bs')"
    by (rule Cons.IH)
  with t show ?case by (cases f) simp_all
qed simp

text \<open>Packing at one place does not change what is read at another.\<close>

lemma unpack_from_pack_into_other:
  assumes p: "pack_into fs buf off vs = Inr buf'" and "0 \<le> pos"
    and disj: "pos + int (calcsize gs) \<le> off \<or> off + int (calcsize fs) \<le> pos"
  shows "unpack_from gs buf' pos = unpack_from gs buf pos"
proof -
  from p obtain bs where bs: "length bs = calcsize fs" "0 \<le> off"
      "nat off + calcsize fs \<le> length buf" "buf' = splice buf (nat off) bs"
    by (blast dest: pack_into_Inr)
  show ?thesis
  proof (cases "nat pos + calcsize gs \<le> length buf")
    case True
    have "take (calcsize gs) (drop (nat pos) buf') = take (calcsize gs) (drop (nat pos) buf)"
      unfolding bs(4)
    proof (rule take_drop_splice_other)
      show "nat off + length bs \<le> length buf" using bs by simp
      show "nat pos + calcsize gs \<le> length buf" by fact
      show "nat pos + calcsize gs \<le> nat off \<or> nat off + length bs \<le> nat pos"
        using disj bs \<open>0 \<le> pos\<close> by (auto simp: nat_le_iff le_nat_iff)
    qed
    then show ?thesis
      using bs by (simp add: unpack_from_def) (auto intro: unpack_cong)
  next
    case False
    then show ?thesis using bs by (simp add: unpack_from_def)
  qed
qed

end
