(* ===== verification/Device.thy ===== *)
theory Device
  imports Py_Struct
begin

text \<open>
  The code that the driver calls and that is not part of the repository, as a parameter: the
  register windows and the PCIe function of cocotbext, the simulated NIC behind them, and the
  host memory pool. Nothing is assumed of the NIC but what a bus transaction is: a read
  returns a value, and any transaction may change the NIC's own state (of any type \<open>'h\<close>) and
  the host memory (DMA). \<open>device_ok\<close> is the documented behaviour that some theorems use: a
  dword read returns a 32-bit value, DMA does not resize a buffer, and the pool hands out a
  region of the size asked for, inside the 64-bit address space.
\<close>

section \<open>Register windows and memory regions\<close>

text \<open>
  A window is named by how it was made: a BAR of the device, or \<open>create_window\<close> of a parent
  at an offset with an optional size.
\<close>

datatype window = Bar nat | SubWin window int "int option"

definition create_window :: "window \<Rightarrow> int \<Rightarrow> int option \<Rightarrow> window" where
  "create_window parent offset sz = SubWin parent offset sz"

text \<open>
  A region of host memory: its identity, the bus address of its first byte
  (\<open>get_absolute_address(0)\<close>) and its size. The bytes (\<open>region.mem\<close>) are in the memory,
  under the region's identity.
\<close>

record region =
  rg_id :: nat
  rg_addr :: int
  rg_size :: int

type_synonym memory = "nat \<Rightarrow> byte list"

text \<open>The calls on the PCIe function that are not register accesses.\<close>

datatype dev_call =
    EnableDevice
  | SetMaster
  | AllocIrqVectors int int
  | RequestIrq int

record 'h env =
  dev_read :: "'h \<Rightarrow> memory \<Rightarrow> window \<Rightarrow> int \<Rightarrow> int \<times> 'h \<times> memory"
  dev_write :: "'h \<Rightarrow> memory \<Rightarrow> window \<Rightarrow> int \<Rightarrow> int \<Rightarrow> 'h \<times> memory"
  dev_control :: "'h \<Rightarrow> memory \<Rightarrow> dev_call \<Rightarrow> 'h \<times> memory"
  pool_alloc :: "'h \<Rightarrow> int \<Rightarrow> (int \<times> byte list \<times> 'h) option"

definition same_sizes :: "memory \<Rightarrow> memory \<Rightarrow> bool" where
  "same_sizes m m' \<longleftrightarrow> (\<forall>r. length (m' r) = length (m r))"

definition device_ok :: "'h env \<Rightarrow> bool" where
  "device_ok E \<longleftrightarrow>
     (\<forall>h m w a. case dev_read E h m w a of (v, h', m') \<Rightarrow> 0 \<le> v \<and> v < 2 ^ 32 \<and> same_sizes m m') \<and>
     (\<forall>h m w a v. same_sizes m (snd (dev_write E h m w a v))) \<and>
     (\<forall>h m c. same_sizes m (snd (dev_control E h m c))) \<and>
     (\<forall>h n a bs h'. pool_alloc E h n = Some (a, bs, h') \<longrightarrow>
        length bs = nat n \<and> 0 \<le> a \<and> a + n < 2 ^ 64)"

text \<open>
  Transactions are recorded in the order in which they are issued.
\<close>

datatype mmio =
    RD window int int
  | WR window int int
  | CTL dev_call

lemma same_sizes_refl [simp]: "same_sizes m m"
  by (simp add: same_sizes_def)

lemma same_sizes_trans: "same_sizes m m' \<Longrightarrow> same_sizes m' m'' \<Longrightarrow> same_sizes m m''"
  by (simp add: same_sizes_def)

text \<open>A device for witnesses: registers hold zero, nothing is written to memory.\<close>

definition null_env :: "nat env" where
  "null_env = \<lparr>
     dev_read = \<lambda>h m w a. (0, h, m),
     dev_write = \<lambda>h m w a v. (h, m),
     dev_control = \<lambda>h m c. (h, m),
     pool_alloc = \<lambda>h n. if h + nat n \<le> 2 ^ 40 then Some (int h, replicate (nat n) 0, h + nat n) else None\<rparr>"

lemma null_env_ok: "device_ok null_env"
  by (auto simp: device_ok_def null_env_def split: if_splits)

end
