(* ===== verification/Resource.thy ===== *)
theory Resource
  imports Device
begin

text \<open>
  Class \<open>Resource\<close> of \<open>mqnic.py\<close>: the free list of queue indices of one kind and the cache
  of their register windows. The contract of an index allocator is the locale
  \<open>index_allocator\<close> (and \<open>least_allocator\<close>, where the index handed out is the smallest free
  one); \<open>Resource\<close> is an interpretation of both.
\<close>

section \<open>The class\<close>

record resource =
  res_count :: int
  res_parent :: window
  res_stride :: int
  res_windows :: "int \<rightharpoonup> window"
  res_free_list :: "int list"

definition Resource_init :: "int \<Rightarrow> window \<Rightarrow> int \<Rightarrow> resource" where
  "Resource_init count parent stride =
     \<lparr>res_count = count, res_parent = parent, res_stride = stride,
      res_windows = Map.empty, res_free_list = py_range count\<rparr>"

definition res_alloc :: "resource \<Rightarrow> exn + (int \<times> resource)" where
  "res_alloc r =
     (case res_free_list r of
        [] \<Rightarrow> Inl IndexError
      | i # rest \<Rightarrow> Inr (i, r\<lparr>res_free_list := rest\<rparr>))"

definition res_free :: "resource \<Rightarrow> int \<Rightarrow> resource" where
  "res_free r index = r\<lparr>res_free_list := sort (res_free_list r @ [index])\<rparr>"

definition res_get_count :: "resource \<Rightarrow> int" where
  "res_get_count r = res_count r"

definition res_get_window :: "resource \<Rightarrow> int \<Rightarrow> window \<times> resource" where
  "res_get_window r index =
     (case res_windows r index of
        Some w \<Rightarrow> (w, r)
      | None \<Rightarrow>
          let w = create_window (res_parent r) (index * res_stride r) (Some (res_stride r))
          in (w, r\<lparr>res_windows := (res_windows r)(index \<mapsto> w)\<rparr>))"

section \<open>The contract\<close>

locale index_allocator =
  fixes alloc :: "'r \<Rightarrow> exn + (int \<times> 'r)"
    and free :: "'r \<Rightarrow> int \<Rightarrow> 'r"
    and avail :: "'r \<Rightarrow> int set"
    and universe :: "'r \<Rightarrow> int set"
    and inv :: "'r \<Rightarrow> bool"
  assumes alloc_empty: "inv r \<Longrightarrow> avail r = {} \<Longrightarrow> alloc r = Inl IndexError"
    and alloc_some: "inv r \<Longrightarrow> avail r \<noteq> {} \<Longrightarrow> \<exists>i r'. alloc r = Inr (i, r')"
    and alloc_avail: "inv r \<Longrightarrow> alloc r = Inr (i, r') \<Longrightarrow>
          i \<in> avail r \<and> avail r' = avail r - {i} \<and> universe r' = universe r \<and> inv r'"
    and free_avail: "inv r \<Longrightarrow> i \<in> universe r \<Longrightarrow> i \<notin> avail r \<Longrightarrow>
          avail (free r i) = insert i (avail r) \<and> universe (free r i) = universe r \<and> inv (free r i)"
    and avail_universe: "inv r \<Longrightarrow> avail r \<subseteq> universe r"
begin

fun alloc_many :: "nat \<Rightarrow> 'r \<Rightarrow> exn + (int list \<times> 'r)" where
  "alloc_many 0 r = Inr ([], r)"
| "alloc_many (Suc n) r =
     (case alloc r of
        Inl e \<Rightarrow> Inl e
      | Inr (i, r') \<Rightarrow>
          (case alloc_many n r' of Inl e \<Rightarrow> Inl e | Inr (is, r'') \<Rightarrow> Inr (i # is, r'')))"

text \<open>Indices handed out without a free in between are distinct and were free.\<close>

lemma alloc_many_distinct:
  "inv r \<Longrightarrow> alloc_many n r = Inr (is, r') \<Longrightarrow>
   length is = n \<and> distinct is \<and> set is \<subseteq> avail r \<and> avail r' = avail r - set is \<and> inv r'"
proof (induction n arbitrary: r "is")
  case 0
  then show ?case by simp
next
  case (Suc n)
  from Suc.prems(2) obtain i r1 js where a: "alloc r = Inr (i, r1)"
      and m: "alloc_many n r1 = Inr (js, r')" and "is": "is = i # js"
    by (auto split: sum.splits)
  from alloc_avail [OF Suc.prems(1) a] have r1: "i \<in> avail r" "avail r1 = avail r - {i}" "inv r1"
    by auto
  from Suc.IH [OF r1(3) m] r1 "is" show ?case by auto
qed

text \<open>The allocator fails exactly when nothing is free.\<close>

lemma alloc_fails_iff: "inv r \<Longrightarrow> alloc r = Inl e \<longleftrightarrow> avail r = {} \<and> e = IndexError"
  using alloc_empty [of r] alloc_some [of r] by (cases "avail r = {}") auto

text \<open>Giving an index back restores the set of free indices.\<close>

lemma alloc_free_avail:
  assumes "inv r" and "alloc r = Inr (i, r')"
  shows "avail (free r' i) = avail r" and "inv (free r' i)"
proof -
  from alloc_avail [OF assms] have r': "i \<in> avail r" "avail r' = avail r - {i}"
      "universe r' = universe r" "inv r'" by auto
  moreover have "i \<in> universe r'" using r' avail_universe [OF assms(1)] by auto
  ultimately have "avail (free r' i) = insert i (avail r')" "inv (free r' i)"
    using free_avail [of r' i] by auto
  with r' show "avail (free r' i) = avail r" "inv (free r' i)" by auto
qed

end

locale least_allocator = index_allocator +
  assumes alloc_least: "inv r \<Longrightarrow> alloc r = Inr (i, r') \<Longrightarrow> \<forall>j \<in> avail r. i \<le> j"
begin

text \<open>The index given back last is handed out again only if it is the smallest free one.\<close>

lemma realloc_least:
  assumes "inv r" "i \<in> universe r" "i \<notin> avail r" "alloc (free r i) = Inr (j, r')"
  shows "j \<le> i \<and> (\<forall>k \<in> avail r. j \<le> k)"
proof -
  from free_avail [OF assms(1-3)] have "avail (free r i) = insert i (avail r)" "inv (free r i)"
    by auto
  with alloc_least [OF _ assms(4)] show ?thesis by auto
qed

end

section \<open>The class meets the contract\<close>

definition res_inv :: "resource \<Rightarrow> bool" where
  "res_inv r \<longleftrightarrow>
     sorted_wrt (<) (res_free_list r) \<and> set (res_free_list r) \<subseteq> {0..<res_count r} \<and>
     (\<forall>i w. res_windows r i = Some w \<longrightarrow>
        w = create_window (res_parent r) (i * res_stride r) (Some (res_stride r)))"

lemma sort_snoc_strict:
  assumes "sorted_wrt (<) xs" and "i \<notin> set xs"
  shows "sorted_wrt (<) (sort (xs @ [i :: int]))"
proof -
  have "distinct (sort (xs @ [i]))" using assms strict_sorted_iff by auto
  then show ?thesis by (simp add: strict_sorted_iff)
qed

lemma res_inv_init: "res_inv (Resource_init count parent stride)"
proof -
  have "sorted_wrt (<) (map int [0..<nat count])"
    by (simp add: sorted_wrt_map)
  then show ?thesis by (auto simp: res_inv_def Resource_init_def py_range_def)
qed

interpretation res: least_allocator res_alloc res_free "\<lambda>r. set (res_free_list r)"
    "\<lambda>r. {0..<res_count r}" res_inv
proof unfold_locales
  fix r i r'
  assume inv: "res_inv r" and a: "res_alloc r = Inr (i, r')"
  then obtain rest where fl: "res_free_list r = i # rest" and r': "r' = r\<lparr>res_free_list := rest\<rparr>"
    by (auto simp: res_alloc_def split: list.splits)
  have lt: "\<forall>j \<in> set rest. i < j" using inv fl by (simp add: res_inv_def)
  then show "i \<in> set (res_free_list r) \<and> set (res_free_list r') = set (res_free_list r) - {i} \<and>
      {0..<res_count r'} = {0..<res_count r} \<and> res_inv r'"
    using inv fl r' by (auto simp: res_inv_def)
  show "\<forall>j \<in> set (res_free_list r). i \<le> j" using lt fl by auto
next
  fix r i
  assume "res_inv r" "i \<in> {0..<res_count r}" "i \<notin> set (res_free_list r)"
  then show "set (res_free_list (res_free r i)) = insert i (set (res_free_list r)) \<and>
      {0..<res_count (res_free r i)} = {0..<res_count r} \<and> res_inv (res_free r i)"
    by (auto simp: res_inv_def res_free_def sort_snoc_strict)
qed (auto simp: res_alloc_def res_inv_def split: list.splits)

lemma res_get_window_inv:
  assumes "res_inv r"
  shows "res_inv (snd (res_get_window r i))"
    and "fst (res_get_window r i) = create_window (res_parent r) (i * res_stride r) (Some (res_stride r))"
  using assms by (auto simp: res_get_window_def res_inv_def Let_def split: option.splits)

lemma res_get_window_again:
  "res_get_window (snd (res_get_window r i)) i = (fst (res_get_window r i), snd (res_get_window r i))"
  by (auto simp: res_get_window_def Let_def split: option.splits)

lemma res_get_window_frame [simp]:
  "res_free_list (snd (res_get_window r i)) = res_free_list r"
  "res_count (snd (res_get_window r i)) = res_count r"
  "res_stride (snd (res_get_window r i)) = res_stride r"
  "res_parent (snd (res_get_window r i)) = res_parent r"
  by (auto simp: res_get_window_def Let_def split: option.splits)

end
