(* ===== verification/Regs.thy ===== *)
theory Regs
  imports Prelude
begin

text \<open>
  The constants of \<open>mqnic.py\<close> (lines 19 to 364): queue counts, the type, version and
  register offsets of every register block, the bits of the feature and control registers,
  and the command words of the queue managers. Each constant keeps its name and its value.
  The layout lists group the register offsets of a block as the file does; the lemmas say
  which blocks address distinct words and how the command words are put together.
\<close>

section \<open>Constants\<close>

definition MQNIC_MAX_EQ :: int where [regs]: "MQNIC_MAX_EQ = 1"
definition MQNIC_MAX_TXQ :: int where [regs]: "MQNIC_MAX_TXQ = 32"
definition MQNIC_MAX_RXQ :: int where [regs]: "MQNIC_MAX_RXQ = 4"
definition MQNIC_MAX_CQ :: int where [regs]: "MQNIC_MAX_CQ = MQNIC_MAX_TXQ*2"
definition MQNIC_RB_REG_TYPE :: int where [regs]: "MQNIC_RB_REG_TYPE = 0x00"
definition MQNIC_RB_REG_VER :: int where [regs]: "MQNIC_RB_REG_VER = 0x04"
definition MQNIC_RB_REG_NEXT_PTR :: int where [regs]: "MQNIC_RB_REG_NEXT_PTR = 0x08"
definition MQNIC_RB_FW_ID_TYPE :: int where [regs]: "MQNIC_RB_FW_ID_TYPE = 0xFFFFFFFF"
definition MQNIC_RB_FW_ID_VER :: int where [regs]: "MQNIC_RB_FW_ID_VER = 0x00000100"
definition MQNIC_RB_FW_ID_REG_FPGA_ID :: int where [regs]: "MQNIC_RB_FW_ID_REG_FPGA_ID = 0x0C"
definition MQNIC_RB_FW_ID_REG_FW_ID :: int where [regs]: "MQNIC_RB_FW_ID_REG_FW_ID = 0x10"
definition MQNIC_RB_FW_ID_REG_FW_VER :: int where [regs]: "MQNIC_RB_FW_ID_REG_FW_VER = 0x14"
definition MQNIC_RB_FW_ID_REG_BOARD_ID :: int where [regs]: "MQNIC_RB_FW_ID_REG_BOARD_ID = 0x18"
definition MQNIC_RB_FW_ID_REG_BOARD_VER :: int where [regs]: "MQNIC_RB_FW_ID_REG_BOARD_VER = 0x1C"
definition MQNIC_RB_FW_ID_REG_BUILD_DATE :: int where [regs]: "MQNIC_RB_FW_ID_REG_BUILD_DATE = 0x20"
definition MQNIC_RB_FW_ID_REG_GIT_HASH :: int where [regs]: "MQNIC_RB_FW_ID_REG_GIT_HASH = 0x24"
definition MQNIC_RB_FW_ID_REG_REL_INFO :: int where [regs]: "MQNIC_RB_FW_ID_REG_REL_INFO = 0x28"
definition MQNIC_RB_GPIO_TYPE :: int where [regs]: "MQNIC_RB_GPIO_TYPE = 0x0000C100"
definition MQNIC_RB_GPIO_VER :: int where [regs]: "MQNIC_RB_GPIO_VER = 0x00000100"
definition MQNIC_RB_GPIO_REG_GPIO_IN :: int where [regs]: "MQNIC_RB_GPIO_REG_GPIO_IN = 0x0C"
definition MQNIC_RB_GPIO_REG_GPIO_OUT :: int where [regs]: "MQNIC_RB_GPIO_REG_GPIO_OUT = 0x10"
definition MQNIC_RB_I2C_TYPE :: int where [regs]: "MQNIC_RB_I2C_TYPE = 0x0000C110"
definition MQNIC_RB_I2C_VER :: int where [regs]: "MQNIC_RB_I2C_VER = 0x00000100"
definition MQNIC_RB_I2C_REG_CTRL :: int where [regs]: "MQNIC_RB_I2C_REG_CTRL = 0x0C"
definition MQNIC_RB_SPI_FLASH_TYPE :: int where [regs]: "MQNIC_RB_SPI_FLASH_TYPE = 0x0000C120"
definition MQNIC_RB_SPI_FLASH_VER :: int where [regs]: "MQNIC_RB_SPI_FLASH_VER = 0x00000100"
definition MQNIC_RB_SPI_FLASH_REG_FORMAT :: int where [regs]: "MQNIC_RB_SPI_FLASH_REG_FORMAT = 0x0C"
definition MQNIC_RB_SPI_FLASH_REG_CTRL_0 :: int where [regs]: "MQNIC_RB_SPI_FLASH_REG_CTRL_0 = 0x10"
definition MQNIC_RB_SPI_FLASH_REG_CTRL_1 :: int where [regs]: "MQNIC_RB_SPI_FLASH_REG_CTRL_1 = 0x14"
definition MQNIC_RB_BPI_FLASH_TYPE :: int where [regs]: "MQNIC_RB_BPI_FLASH_TYPE = 0x0000C121"
definition MQNIC_RB_BPI_FLASH_VER :: int where [regs]: "MQNIC_RB_BPI_FLASH_VER = 0x00000100"
definition MQNIC_RB_BPI_FLASH_REG_FORMAT :: int where [regs]: "MQNIC_RB_BPI_FLASH_REG_FORMAT = 0x0C"
definition MQNIC_RB_BPI_FLASH_REG_ADDR :: int where [regs]: "MQNIC_RB_BPI_FLASH_REG_ADDR = 0x10"
definition MQNIC_RB_BPI_FLASH_REG_DATA :: int where [regs]: "MQNIC_RB_BPI_FLASH_REG_DATA = 0x14"
definition MQNIC_RB_BPI_FLASH_REG_CTRL :: int where [regs]: "MQNIC_RB_BPI_FLASH_REG_CTRL = 0x18"
definition MQNIC_RB_ALVEO_BMC_TYPE :: int where [regs]: "MQNIC_RB_ALVEO_BMC_TYPE = 0x0000C140"
definition MQNIC_RB_ALVEO_BMC_VER :: int where [regs]: "MQNIC_RB_ALVEO_BMC_VER = 0x00000100"
definition MQNIC_RB_ALVEO_BMC_REG_ADDR :: int where [regs]: "MQNIC_RB_ALVEO_BMC_REG_ADDR = 0x0C"
definition MQNIC_RB_ALVEO_BMC_REG_DATA :: int where [regs]: "MQNIC_RB_ALVEO_BMC_REG_DATA = 0x10"
definition MQNIC_RB_GECKO_BMC_TYPE :: int where [regs]: "MQNIC_RB_GECKO_BMC_TYPE = 0x0000C141"
definition MQNIC_RB_GECKO_BMC_VER :: int where [regs]: "MQNIC_RB_GECKO_BMC_VER = 0x00000100"
definition MQNIC_RB_GECKO_BMC_REG_STATUS :: int where [regs]: "MQNIC_RB_GECKO_BMC_REG_STATUS = 0x0C"
definition MQNIC_RB_GECKO_BMC_REG_DATA :: int where [regs]: "MQNIC_RB_GECKO_BMC_REG_DATA = 0x10"
definition MQNIC_RB_GECKO_BMC_REG_CMD :: int where [regs]: "MQNIC_RB_GECKO_BMC_REG_CMD = 0x14"
definition MQNIC_RB_STATS_TYPE :: int where [regs]: "MQNIC_RB_STATS_TYPE = 0x0000C006"
definition MQNIC_RB_STATS_VER :: int where [regs]: "MQNIC_RB_STATS_VER = 0x00000100"
definition MQNIC_RB_STATS_REG_OFFSET :: int where [regs]: "MQNIC_RB_STATS_REG_OFFSET = 0x0C"
definition MQNIC_RB_STATS_REG_COUNT :: int where [regs]: "MQNIC_RB_STATS_REG_COUNT = 0x10"
definition MQNIC_RB_STATS_REG_STRIDE :: int where [regs]: "MQNIC_RB_STATS_REG_STRIDE = 0x14"
definition MQNIC_RB_STATS_REG_FLAGS :: int where [regs]: "MQNIC_RB_STATS_REG_FLAGS = 0x18"
definition MQNIC_RB_IRQ_TYPE :: int where [regs]: "MQNIC_RB_IRQ_TYPE = 0x0000C007"
definition MQNIC_RB_IRQ_VER :: int where [regs]: "MQNIC_RB_IRQ_VER = 0x00000100"
definition MQNIC_RB_CLK_INFO_TYPE :: int where [regs]: "MQNIC_RB_CLK_INFO_TYPE = 0x0000C008"
definition MQNIC_RB_CLK_INFO_VER :: int where [regs]: "MQNIC_RB_CLK_INFO_VER = 0x00000100"
definition MQNIC_RB_CLK_INFO_COUNT :: int where [regs]: "MQNIC_RB_CLK_INFO_COUNT = 0x0C"
definition MQNIC_RB_CLK_INFO_REF_NOM_PER :: int where [regs]: "MQNIC_RB_CLK_INFO_REF_NOM_PER = 0x10"
definition MQNIC_RB_CLK_INFO_CLK_NOM_PER :: int where [regs]: "MQNIC_RB_CLK_INFO_CLK_NOM_PER = 0x18"
definition MQNIC_RB_CLK_INFO_CLK_FREQ :: int where [regs]: "MQNIC_RB_CLK_INFO_CLK_FREQ = 0x1C"
definition MQNIC_RB_CLK_INFO_FREQ_BASE :: int where [regs]: "MQNIC_RB_CLK_INFO_FREQ_BASE = 0x20"
definition MQNIC_RB_PHC_TYPE :: int where [regs]: "MQNIC_RB_PHC_TYPE = 0x0000C080"
definition MQNIC_RB_PHC_VER :: int where [regs]: "MQNIC_RB_PHC_VER = 0x00000200"
definition MQNIC_RB_PHC_REG_CTRL :: int where [regs]: "MQNIC_RB_PHC_REG_CTRL = 0x0C"
definition MQNIC_RB_PHC_REG_CUR_FNS :: int where [regs]: "MQNIC_RB_PHC_REG_CUR_FNS = 0x10"
definition MQNIC_RB_PHC_REG_CUR_TOD_NS :: int where [regs]: "MQNIC_RB_PHC_REG_CUR_TOD_NS = 0x14"
definition MQNIC_RB_PHC_REG_CUR_TOD_SEC_L :: int where [regs]: "MQNIC_RB_PHC_REG_CUR_TOD_SEC_L = 0x18"
definition MQNIC_RB_PHC_REG_CUR_TOD_SEC_H :: int where [regs]: "MQNIC_RB_PHC_REG_CUR_TOD_SEC_H = 0x1C"
definition MQNIC_RB_PHC_REG_CUR_REL_NS_L :: int where [regs]: "MQNIC_RB_PHC_REG_CUR_REL_NS_L = 0x20"
definition MQNIC_RB_PHC_REG_CUR_REL_NS_H :: int where [regs]: "MQNIC_RB_PHC_REG_CUR_REL_NS_H = 0x24"
definition MQNIC_RB_PHC_REG_CUR_PTM_NS_L :: int where [regs]: "MQNIC_RB_PHC_REG_CUR_PTM_NS_L = 0x28"
definition MQNIC_RB_PHC_REG_CUR_PTM_NS_H :: int where [regs]: "MQNIC_RB_PHC_REG_CUR_PTM_NS_H = 0x2C"
definition MQNIC_RB_PHC_REG_SNAP_FNS :: int where [regs]: "MQNIC_RB_PHC_REG_SNAP_FNS = 0x30"
definition MQNIC_RB_PHC_REG_SNAP_TOD_NS :: int where [regs]: "MQNIC_RB_PHC_REG_SNAP_TOD_NS = 0x34"
definition MQNIC_RB_PHC_REG_SNAP_TOD_SEC_L :: int where [regs]: "MQNIC_RB_PHC_REG_SNAP_TOD_SEC_L = 0x38"
definition MQNIC_RB_PHC_REG_SNAP_TOD_SEC_H :: int where [regs]: "MQNIC_RB_PHC_REG_SNAP_TOD_SEC_H = 0x3C"
definition MQNIC_RB_PHC_REG_SNAP_REL_NS_L :: int where [regs]: "MQNIC_RB_PHC_REG_SNAP_REL_NS_L = 0x40"
definition MQNIC_RB_PHC_REG_SNAP_REL_NS_H :: int where [regs]: "MQNIC_RB_PHC_REG_SNAP_REL_NS_H = 0x44"
definition MQNIC_RB_PHC_REG_SNAP_PTM_NS_L :: int where [regs]: "MQNIC_RB_PHC_REG_SNAP_PTM_NS_L = 0x48"
definition MQNIC_RB_PHC_REG_SNAP_PTM_NS_H :: int where [regs]: "MQNIC_RB_PHC_REG_SNAP_PTM_NS_H = 0x4C"
definition MQNIC_RB_PHC_REG_OFFSET_TOD_NS :: int where [regs]: "MQNIC_RB_PHC_REG_OFFSET_TOD_NS = 0x50"
definition MQNIC_RB_PHC_REG_SET_TOD_NS :: int where [regs]: "MQNIC_RB_PHC_REG_SET_TOD_NS = 0x54"
definition MQNIC_RB_PHC_REG_SET_TOD_SEC_L :: int where [regs]: "MQNIC_RB_PHC_REG_SET_TOD_SEC_L = 0x58"
definition MQNIC_RB_PHC_REG_SET_TOD_SEC_H :: int where [regs]: "MQNIC_RB_PHC_REG_SET_TOD_SEC_H = 0x5C"
definition MQNIC_RB_PHC_REG_SET_REL_NS_L :: int where [regs]: "MQNIC_RB_PHC_REG_SET_REL_NS_L = 0x60"
definition MQNIC_RB_PHC_REG_SET_REL_NS_H :: int where [regs]: "MQNIC_RB_PHC_REG_SET_REL_NS_H = 0x64"
definition MQNIC_RB_PHC_REG_OFFSET_REL_NS :: int where [regs]: "MQNIC_RB_PHC_REG_OFFSET_REL_NS = 0x68"
definition MQNIC_RB_PHC_REG_OFFSET_FNS :: int where [regs]: "MQNIC_RB_PHC_REG_OFFSET_FNS = 0x6C"
definition MQNIC_RB_PHC_REG_NOM_PERIOD_FNS :: int where [regs]: "MQNIC_RB_PHC_REG_NOM_PERIOD_FNS = 0x70"
definition MQNIC_RB_PHC_REG_NOM_PERIOD_NS :: int where [regs]: "MQNIC_RB_PHC_REG_NOM_PERIOD_NS = 0x74"
definition MQNIC_RB_PHC_REG_PERIOD_FNS :: int where [regs]: "MQNIC_RB_PHC_REG_PERIOD_FNS = 0x78"
definition MQNIC_RB_PHC_REG_PERIOD_NS :: int where [regs]: "MQNIC_RB_PHC_REG_PERIOD_NS = 0x7C"
definition MQNIC_RB_PHC_PEROUT_TYPE :: int where [regs]: "MQNIC_RB_PHC_PEROUT_TYPE = 0x0000C081"
definition MQNIC_RB_PHC_PEROUT_VER :: int where [regs]: "MQNIC_RB_PHC_PEROUT_VER = 0x00000100"
definition MQNIC_RB_PHC_PEROUT_REG_CTRL :: int where [regs]: "MQNIC_RB_PHC_PEROUT_REG_CTRL = 0x0C"
definition MQNIC_RB_PHC_PEROUT_REG_START_FNS :: int where [regs]: "MQNIC_RB_PHC_PEROUT_REG_START_FNS = 0x10"
definition MQNIC_RB_PHC_PEROUT_REG_START_NS :: int where [regs]: "MQNIC_RB_PHC_PEROUT_REG_START_NS = 0x14"
definition MQNIC_RB_PHC_PEROUT_REG_START_SEC_L :: int where [regs]: "MQNIC_RB_PHC_PEROUT_REG_START_SEC_L = 0x18"
definition MQNIC_RB_PHC_PEROUT_REG_START_SEC_H :: int where [regs]: "MQNIC_RB_PHC_PEROUT_REG_START_SEC_H = 0x1C"
definition MQNIC_RB_PHC_PEROUT_REG_PERIOD_FNS :: int where [regs]: "MQNIC_RB_PHC_PEROUT_REG_PERIOD_FNS = 0x20"
definition MQNIC_RB_PHC_PEROUT_REG_PERIOD_NS :: int where [regs]: "MQNIC_RB_PHC_PEROUT_REG_PERIOD_NS = 0x24"
definition MQNIC_RB_PHC_PEROUT_REG_PERIOD_SEC_L :: int where [regs]: "MQNIC_RB_PHC_PEROUT_REG_PERIOD_SEC_L = 0x28"
definition MQNIC_RB_PHC_PEROUT_REG_PERIOD_SEC_H :: int where [regs]: "MQNIC_RB_PHC_PEROUT_REG_PERIOD_SEC_H = 0x2C"
definition MQNIC_RB_PHC_PEROUT_REG_WIDTH_FNS :: int where [regs]: "MQNIC_RB_PHC_PEROUT_REG_WIDTH_FNS = 0x30"
definition MQNIC_RB_PHC_PEROUT_REG_WIDTH_NS :: int where [regs]: "MQNIC_RB_PHC_PEROUT_REG_WIDTH_NS = 0x34"
definition MQNIC_RB_PHC_PEROUT_REG_WIDTH_SEC_L :: int where [regs]: "MQNIC_RB_PHC_PEROUT_REG_WIDTH_SEC_L = 0x38"
definition MQNIC_RB_PHC_PEROUT_REG_WIDTH_SEC_H :: int where [regs]: "MQNIC_RB_PHC_PEROUT_REG_WIDTH_SEC_H = 0x3C"
definition MQNIC_RB_IF_TYPE :: int where [regs]: "MQNIC_RB_IF_TYPE = 0x0000C000"
definition MQNIC_RB_IF_VER :: int where [regs]: "MQNIC_RB_IF_VER = 0x00000100"
definition MQNIC_RB_IF_REG_OFFSET :: int where [regs]: "MQNIC_RB_IF_REG_OFFSET = 0x0C"
definition MQNIC_RB_IF_REG_COUNT :: int where [regs]: "MQNIC_RB_IF_REG_COUNT = 0x10"
definition MQNIC_RB_IF_REG_STRIDE :: int where [regs]: "MQNIC_RB_IF_REG_STRIDE = 0x14"
definition MQNIC_RB_IF_REG_CSR_OFFSET :: int where [regs]: "MQNIC_RB_IF_REG_CSR_OFFSET = 0x18"
definition MQNIC_RB_IF_CTRL_TYPE :: int where [regs]: "MQNIC_RB_IF_CTRL_TYPE = 0x0000C001"
definition MQNIC_RB_IF_CTRL_VER :: int where [regs]: "MQNIC_RB_IF_CTRL_VER = 0x00000400"
definition MQNIC_RB_IF_CTRL_REG_FEATURES :: int where [regs]: "MQNIC_RB_IF_CTRL_REG_FEATURES = 0x0C"
definition MQNIC_RB_IF_CTRL_REG_PORT_COUNT :: int where [regs]: "MQNIC_RB_IF_CTRL_REG_PORT_COUNT = 0x10"
definition MQNIC_RB_IF_CTRL_REG_SCHED_COUNT :: int where [regs]: "MQNIC_RB_IF_CTRL_REG_SCHED_COUNT = 0x14"
definition MQNIC_RB_IF_CTRL_REG_MAX_TX_MTU :: int where [regs]: "MQNIC_RB_IF_CTRL_REG_MAX_TX_MTU = 0x20"
definition MQNIC_RB_IF_CTRL_REG_MAX_RX_MTU :: int where [regs]: "MQNIC_RB_IF_CTRL_REG_MAX_RX_MTU = 0x24"
definition MQNIC_RB_IF_CTRL_REG_TX_MTU :: int where [regs]: "MQNIC_RB_IF_CTRL_REG_TX_MTU = 0x28"
definition MQNIC_RB_IF_CTRL_REG_RX_MTU :: int where [regs]: "MQNIC_RB_IF_CTRL_REG_RX_MTU = 0x2C"
definition MQNIC_RB_IF_CTRL_REG_TX_FIFO_DEPTH :: int where [regs]: "MQNIC_RB_IF_CTRL_REG_TX_FIFO_DEPTH = 0x20"
definition MQNIC_RB_IF_CTRL_REG_RX_FIFO_DEPTH :: int where [regs]: "MQNIC_RB_IF_CTRL_REG_RX_FIFO_DEPTH = 0x24"
definition MQNIC_IF_FEATURE_RSS :: int where [regs]: "MQNIC_IF_FEATURE_RSS = push_bit 0 1"
definition MQNIC_IF_FEATURE_PTP_TS :: int where [regs]: "MQNIC_IF_FEATURE_PTP_TS = push_bit 4 1"
definition MQNIC_IF_FEATURE_TX_CSUM :: int where [regs]: "MQNIC_IF_FEATURE_TX_CSUM = push_bit 8 1"
definition MQNIC_IF_FEATURE_RX_CSUM :: int where [regs]: "MQNIC_IF_FEATURE_RX_CSUM = push_bit 9 1"
definition MQNIC_IF_FEATURE_RX_HASH :: int where [regs]: "MQNIC_IF_FEATURE_RX_HASH = push_bit 10 1"
definition MQNIC_IF_FEATURE_LFC :: int where [regs]: "MQNIC_IF_FEATURE_LFC = push_bit 11 1"
definition MQNIC_IF_FEATURE_PFC :: int where [regs]: "MQNIC_IF_FEATURE_PFC = push_bit 12 1"
definition MQNIC_RB_RX_QUEUE_MAP_TYPE :: int where [regs]: "MQNIC_RB_RX_QUEUE_MAP_TYPE = 0x0000C090"
definition MQNIC_RB_RX_QUEUE_MAP_VER :: int where [regs]: "MQNIC_RB_RX_QUEUE_MAP_VER = 0x00000200"
definition MQNIC_RB_RX_QUEUE_MAP_REG_CFG :: int where [regs]: "MQNIC_RB_RX_QUEUE_MAP_REG_CFG = 0x0C"
definition MQNIC_RB_RX_QUEUE_MAP_CH_OFFSET :: int where [regs]: "MQNIC_RB_RX_QUEUE_MAP_CH_OFFSET = 0x10"
definition MQNIC_RB_RX_QUEUE_MAP_CH_STRIDE :: int where [regs]: "MQNIC_RB_RX_QUEUE_MAP_CH_STRIDE = 0x10"
definition MQNIC_RB_RX_QUEUE_MAP_CH_REG_OFFSET :: int where [regs]: "MQNIC_RB_RX_QUEUE_MAP_CH_REG_OFFSET = 0x00"
definition MQNIC_RB_RX_QUEUE_MAP_CH_REG_RSS_MASK :: int where [regs]: "MQNIC_RB_RX_QUEUE_MAP_CH_REG_RSS_MASK = 0x04"
definition MQNIC_RB_RX_QUEUE_MAP_CH_REG_APP_MASK :: int where [regs]: "MQNIC_RB_RX_QUEUE_MAP_CH_REG_APP_MASK = 0x08"
definition MQNIC_RB_EQM_TYPE :: int where [regs]: "MQNIC_RB_EQM_TYPE = 0x0000C010"
definition MQNIC_RB_EQM_VER :: int where [regs]: "MQNIC_RB_EQM_VER = 0x00000400"
definition MQNIC_RB_EQM_REG_OFFSET :: int where [regs]: "MQNIC_RB_EQM_REG_OFFSET = 0x0C"
definition MQNIC_RB_EQM_REG_COUNT :: int where [regs]: "MQNIC_RB_EQM_REG_COUNT = 0x10"
definition MQNIC_RB_EQM_REG_STRIDE :: int where [regs]: "MQNIC_RB_EQM_REG_STRIDE = 0x14"
definition MQNIC_RB_CQM_TYPE :: int where [regs]: "MQNIC_RB_CQM_TYPE = 0x0000C020"
definition MQNIC_RB_CQM_VER :: int where [regs]: "MQNIC_RB_CQM_VER = 0x00000400"
definition MQNIC_RB_CQM_REG_OFFSET :: int where [regs]: "MQNIC_RB_CQM_REG_OFFSET = 0x0C"
definition MQNIC_RB_CQM_REG_COUNT :: int where [regs]: "MQNIC_RB_CQM_REG_COUNT = 0x10"
definition MQNIC_RB_CQM_REG_STRIDE :: int where [regs]: "MQNIC_RB_CQM_REG_STRIDE = 0x14"
definition MQNIC_RB_TX_QM_TYPE :: int where [regs]: "MQNIC_RB_TX_QM_TYPE = 0x0000C030"
definition MQNIC_RB_TX_QM_VER :: int where [regs]: "MQNIC_RB_TX_QM_VER = 0x00000400"
definition MQNIC_RB_TX_QM_REG_OFFSET :: int where [regs]: "MQNIC_RB_TX_QM_REG_OFFSET = 0x0C"
definition MQNIC_RB_TX_QM_REG_COUNT :: int where [regs]: "MQNIC_RB_TX_QM_REG_COUNT = 0x10"
definition MQNIC_RB_TX_QM_REG_STRIDE :: int where [regs]: "MQNIC_RB_TX_QM_REG_STRIDE = 0x14"
definition MQNIC_RB_RX_QM_TYPE :: int where [regs]: "MQNIC_RB_RX_QM_TYPE = 0x0000C031"
definition MQNIC_RB_RX_QM_VER :: int where [regs]: "MQNIC_RB_RX_QM_VER = 0x00000400"
definition MQNIC_RB_RX_QM_REG_OFFSET :: int where [regs]: "MQNIC_RB_RX_QM_REG_OFFSET = 0x0C"
definition MQNIC_RB_RX_QM_REG_COUNT :: int where [regs]: "MQNIC_RB_RX_QM_REG_COUNT = 0x10"
definition MQNIC_RB_RX_QM_REG_STRIDE :: int where [regs]: "MQNIC_RB_RX_QM_REG_STRIDE = 0x14"
definition MQNIC_RB_PORT_TYPE :: int where [regs]: "MQNIC_RB_PORT_TYPE = 0x0000C002"
definition MQNIC_RB_PORT_VER :: int where [regs]: "MQNIC_RB_PORT_VER = 0x00000200"
definition MQNIC_RB_PORT_REG_OFFSET :: int where [regs]: "MQNIC_RB_PORT_REG_OFFSET = 0x0C"
definition MQNIC_RB_PORT_CTRL_TYPE :: int where [regs]: "MQNIC_RB_PORT_CTRL_TYPE = 0x0000C003"
definition MQNIC_RB_PORT_CTRL_VER :: int where [regs]: "MQNIC_RB_PORT_CTRL_VER = 0x00000300"
definition MQNIC_RB_PORT_CTRL_REG_FEATURES :: int where [regs]: "MQNIC_RB_PORT_CTRL_REG_FEATURES = 0x0C"
definition MQNIC_RB_PORT_CTRL_REG_TX_CTRL :: int where [regs]: "MQNIC_RB_PORT_CTRL_REG_TX_CTRL = 0x10"
definition MQNIC_RB_PORT_CTRL_REG_RX_CTRL :: int where [regs]: "MQNIC_RB_PORT_CTRL_REG_RX_CTRL = 0x14"
definition MQNIC_RB_PORT_CTRL_REG_LFC_CTRL :: int where [regs]: "MQNIC_RB_PORT_CTRL_REG_LFC_CTRL = 0x1C"
definition MQNIC_RB_PORT_CTRL_REG_PFC_CTRL0 :: int where [regs]: "MQNIC_RB_PORT_CTRL_REG_PFC_CTRL0 = 0x20"
definition MQNIC_RB_PORT_CTRL_REG_PFC_CTRL1 :: int where [regs]: "MQNIC_RB_PORT_CTRL_REG_PFC_CTRL1 = 0x24"
definition MQNIC_RB_PORT_CTRL_REG_PFC_CTRL2 :: int where [regs]: "MQNIC_RB_PORT_CTRL_REG_PFC_CTRL2 = 0x28"
definition MQNIC_RB_PORT_CTRL_REG_PFC_CTRL3 :: int where [regs]: "MQNIC_RB_PORT_CTRL_REG_PFC_CTRL3 = 0x2C"
definition MQNIC_RB_PORT_CTRL_REG_PFC_CTRL4 :: int where [regs]: "MQNIC_RB_PORT_CTRL_REG_PFC_CTRL4 = 0x30"
definition MQNIC_RB_PORT_CTRL_REG_PFC_CTRL5 :: int where [regs]: "MQNIC_RB_PORT_CTRL_REG_PFC_CTRL5 = 0x34"
definition MQNIC_RB_PORT_CTRL_REG_PFC_CTRL6 :: int where [regs]: "MQNIC_RB_PORT_CTRL_REG_PFC_CTRL6 = 0x38"
definition MQNIC_RB_PORT_CTRL_REG_PFC_CTRL7 :: int where [regs]: "MQNIC_RB_PORT_CTRL_REG_PFC_CTRL7 = 0x3C"
definition MQNIC_PORT_FEATURE_LFC :: int where [regs]: "MQNIC_PORT_FEATURE_LFC = push_bit 0 1"
definition MQNIC_PORT_FEATURE_PFC :: int where [regs]: "MQNIC_PORT_FEATURE_PFC = push_bit 1 1"
definition MQNIC_PORT_FEATURE_INT_MAC_CTRL :: int where [regs]: "MQNIC_PORT_FEATURE_INT_MAC_CTRL = push_bit 2 1"
definition MQNIC_PORT_TX_CTRL_EN :: int where [regs]: "MQNIC_PORT_TX_CTRL_EN = push_bit 0 1"
definition MQNIC_PORT_TX_CTRL_PAUSE :: int where [regs]: "MQNIC_PORT_TX_CTRL_PAUSE = push_bit 8 1"
definition MQNIC_PORT_TX_CTRL_STATUS :: int where [regs]: "MQNIC_PORT_TX_CTRL_STATUS = push_bit 16 1"
definition MQNIC_PORT_TX_CTRL_RESET :: int where [regs]: "MQNIC_PORT_TX_CTRL_RESET = push_bit 17 1"
definition MQNIC_PORT_TX_CTRL_PAUSE_REQ :: int where [regs]: "MQNIC_PORT_TX_CTRL_PAUSE_REQ = push_bit 24 1"
definition MQNIC_PORT_TX_CTRL_PAUSE_ACK :: int where [regs]: "MQNIC_PORT_TX_CTRL_PAUSE_ACK = push_bit 25 1"
definition MQNIC_PORT_RX_CTRL_EN :: int where [regs]: "MQNIC_PORT_RX_CTRL_EN = push_bit 0 1"
definition MQNIC_PORT_RX_CTRL_PAUSE :: int where [regs]: "MQNIC_PORT_RX_CTRL_PAUSE = push_bit 8 1"
definition MQNIC_PORT_RX_CTRL_STATUS :: int where [regs]: "MQNIC_PORT_RX_CTRL_STATUS = push_bit 16 1"
definition MQNIC_PORT_RX_CTRL_RESET :: int where [regs]: "MQNIC_PORT_RX_CTRL_RESET = push_bit 17 1"
definition MQNIC_PORT_RX_CTRL_PAUSE_REQ :: int where [regs]: "MQNIC_PORT_RX_CTRL_PAUSE_REQ = push_bit 24 1"
definition MQNIC_PORT_RX_CTRL_PAUSE_ACK :: int where [regs]: "MQNIC_PORT_RX_CTRL_PAUSE_ACK = push_bit 25 1"
definition MQNIC_PORT_LFC_CTRL_TX_LFC_EN :: int where [regs]: "MQNIC_PORT_LFC_CTRL_TX_LFC_EN = push_bit 24 1"
definition MQNIC_PORT_LFC_CTRL_RX_LFC_EN :: int where [regs]: "MQNIC_PORT_LFC_CTRL_RX_LFC_EN = push_bit 25 1"
definition MQNIC_PORT_LFC_CTRL_TX_LFC_REQ :: int where [regs]: "MQNIC_PORT_LFC_CTRL_TX_LFC_REQ = push_bit 28 1"
definition MQNIC_PORT_LFC_CTRL_RX_LFC_REQ :: int where [regs]: "MQNIC_PORT_LFC_CTRL_RX_LFC_REQ = push_bit 29 1"
definition MQNIC_PORT_PFC_CTRL_TX_PFC_EN :: int where [regs]: "MQNIC_PORT_PFC_CTRL_TX_PFC_EN = push_bit 24 1"
definition MQNIC_PORT_PFC_CTRL_RX_PFC_EN :: int where [regs]: "MQNIC_PORT_PFC_CTRL_RX_PFC_EN = push_bit 25 1"
definition MQNIC_PORT_PFC_CTRL_TX_PFC_REQ :: int where [regs]: "MQNIC_PORT_PFC_CTRL_TX_PFC_REQ = push_bit 28 1"
definition MQNIC_PORT_PFC_CTRL_RX_PFC_REQ :: int where [regs]: "MQNIC_PORT_PFC_CTRL_RX_PFC_REQ = push_bit 29 1"
definition MQNIC_RB_SCHED_BLOCK_TYPE :: int where [regs]: "MQNIC_RB_SCHED_BLOCK_TYPE = 0x0000C004"
definition MQNIC_RB_SCHED_BLOCK_VER :: int where [regs]: "MQNIC_RB_SCHED_BLOCK_VER = 0x00000300"
definition MQNIC_RB_SCHED_BLOCK_REG_OFFSET :: int where [regs]: "MQNIC_RB_SCHED_BLOCK_REG_OFFSET = 0x0C"
definition MQNIC_RB_SCHED_RR_TYPE :: int where [regs]: "MQNIC_RB_SCHED_RR_TYPE = 0x0000C040"
definition MQNIC_RB_SCHED_RR_VER :: int where [regs]: "MQNIC_RB_SCHED_RR_VER = 0x00000100"
definition MQNIC_RB_SCHED_RR_REG_OFFSET :: int where [regs]: "MQNIC_RB_SCHED_RR_REG_OFFSET = 0x0C"
definition MQNIC_RB_SCHED_RR_REG_CH_COUNT :: int where [regs]: "MQNIC_RB_SCHED_RR_REG_CH_COUNT = 0x10"
definition MQNIC_RB_SCHED_RR_REG_CH_STRIDE :: int where [regs]: "MQNIC_RB_SCHED_RR_REG_CH_STRIDE = 0x14"
definition MQNIC_RB_SCHED_RR_REG_CTRL :: int where [regs]: "MQNIC_RB_SCHED_RR_REG_CTRL = 0x18"
definition MQNIC_RB_SCHED_RR_REG_DEST :: int where [regs]: "MQNIC_RB_SCHED_RR_REG_DEST = 0x1C"
definition MQNIC_RB_SCHED_CTRL_TDMA_TYPE :: int where [regs]: "MQNIC_RB_SCHED_CTRL_TDMA_TYPE = 0x0000C050"
definition MQNIC_RB_SCHED_CTRL_TDMA_VER :: int where [regs]: "MQNIC_RB_SCHED_CTRL_TDMA_VER = 0x00000100"
definition MQNIC_RB_SCHED_CTRL_TDMA_REG_OFFSET :: int where [regs]: "MQNIC_RB_SCHED_CTRL_TDMA_REG_OFFSET = 0x0C"
definition MQNIC_RB_SCHED_CTRL_TDMA_REG_CH_COUNT :: int where [regs]: "MQNIC_RB_SCHED_CTRL_TDMA_REG_CH_COUNT = 0x10"
definition MQNIC_RB_SCHED_CTRL_TDMA_REG_CH_STRIDE :: int where [regs]: "MQNIC_RB_SCHED_CTRL_TDMA_REG_CH_STRIDE = 0x14"
definition MQNIC_RB_SCHED_CTRL_TDMA_REG_CTRL :: int where [regs]: "MQNIC_RB_SCHED_CTRL_TDMA_REG_CTRL = 0x18"
definition MQNIC_RB_SCHED_CTRL_TDMA_REG_TS_COUNT :: int where [regs]: "MQNIC_RB_SCHED_CTRL_TDMA_REG_TS_COUNT = 0x1C"
definition MQNIC_RB_TDMA_SCH_TYPE :: int where [regs]: "MQNIC_RB_TDMA_SCH_TYPE = 0x0000C060"
definition MQNIC_RB_TDMA_SCH_VER :: int where [regs]: "MQNIC_RB_TDMA_SCH_VER = 0x00000100"
definition MQNIC_RB_TDMA_SCH_REG_TS_COUNT :: int where [regs]: "MQNIC_RB_TDMA_SCH_REG_TS_COUNT = 0x0C"
definition MQNIC_RB_TDMA_SCH_REG_CTRL :: int where [regs]: "MQNIC_RB_TDMA_SCH_REG_CTRL = 0x10"
definition MQNIC_RB_TDMA_SCH_REG_STATUS :: int where [regs]: "MQNIC_RB_TDMA_SCH_REG_STATUS = 0x14"
definition MQNIC_RB_TDMA_SCH_REG_SCH_START_FNS :: int where [regs]: "MQNIC_RB_TDMA_SCH_REG_SCH_START_FNS = 0x20"
definition MQNIC_RB_TDMA_SCH_REG_SCH_START_NS :: int where [regs]: "MQNIC_RB_TDMA_SCH_REG_SCH_START_NS = 0x24"
definition MQNIC_RB_TDMA_SCH_REG_SCH_START_SEC_L :: int where [regs]: "MQNIC_RB_TDMA_SCH_REG_SCH_START_SEC_L = 0x28"
definition MQNIC_RB_TDMA_SCH_REG_SCH_START_SEC_H :: int where [regs]: "MQNIC_RB_TDMA_SCH_REG_SCH_START_SEC_H = 0x2C"
definition MQNIC_RB_TDMA_SCH_REG_SCH_PERIOD_FNS :: int where [regs]: "MQNIC_RB_TDMA_SCH_REG_SCH_PERIOD_FNS = 0x30"
definition MQNIC_RB_TDMA_SCH_REG_SCH_PERIOD_NS :: int where [regs]: "MQNIC_RB_TDMA_SCH_REG_SCH_PERIOD_NS = 0x34"
definition MQNIC_RB_TDMA_SCH_REG_SCH_PERIOD_SEC_L :: int where [regs]: "MQNIC_RB_TDMA_SCH_REG_SCH_PERIOD_SEC_L = 0x38"
definition MQNIC_RB_TDMA_SCH_REG_SCH_PERIOD_SEC_H :: int where [regs]: "MQNIC_RB_TDMA_SCH_REG_SCH_PERIOD_SEC_H = 0x3C"
definition MQNIC_RB_TDMA_SCH_REG_TS_PERIOD_FNS :: int where [regs]: "MQNIC_RB_TDMA_SCH_REG_TS_PERIOD_FNS = 0x40"
definition MQNIC_RB_TDMA_SCH_REG_TS_PERIOD_NS :: int where [regs]: "MQNIC_RB_TDMA_SCH_REG_TS_PERIOD_NS = 0x44"
definition MQNIC_RB_TDMA_SCH_REG_TS_PERIOD_SEC_L :: int where [regs]: "MQNIC_RB_TDMA_SCH_REG_TS_PERIOD_SEC_L = 0x48"
definition MQNIC_RB_TDMA_SCH_REG_TS_PERIOD_SEC_H :: int where [regs]: "MQNIC_RB_TDMA_SCH_REG_TS_PERIOD_SEC_H = 0x4C"
definition MQNIC_RB_TDMA_SCH_REG_ACTIVE_PERIOD_FNS :: int where [regs]: "MQNIC_RB_TDMA_SCH_REG_ACTIVE_PERIOD_FNS = 0x50"
definition MQNIC_RB_TDMA_SCH_REG_ACTIVE_PERIOD_NS :: int where [regs]: "MQNIC_RB_TDMA_SCH_REG_ACTIVE_PERIOD_NS = 0x54"
definition MQNIC_RB_TDMA_SCH_REG_ACTIVE_PERIOD_SEC_L :: int where [regs]: "MQNIC_RB_TDMA_SCH_REG_ACTIVE_PERIOD_SEC_L = 0x58"
definition MQNIC_RB_TDMA_SCH_REG_ACTIVE_PERIOD_SEC_H :: int where [regs]: "MQNIC_RB_TDMA_SCH_REG_ACTIVE_PERIOD_SEC_H = 0x5C"
definition MQNIC_RB_APP_INFO_TYPE :: int where [regs]: "MQNIC_RB_APP_INFO_TYPE = 0x0000C005"
definition MQNIC_RB_APP_INFO_VER :: int where [regs]: "MQNIC_RB_APP_INFO_VER = 0x00000200"
definition MQNIC_RB_APP_INFO_REG_ID :: int where [regs]: "MQNIC_RB_APP_INFO_REG_ID = 0x0C"
definition MQNIC_QUEUE_BASE_ADDR_VF_REG :: int where [regs]: "MQNIC_QUEUE_BASE_ADDR_VF_REG = 0x00"
definition MQNIC_QUEUE_CTRL_STATUS_REG :: int where [regs]: "MQNIC_QUEUE_CTRL_STATUS_REG = 0x08"
definition MQNIC_QUEUE_SIZE_CQN_REG :: int where [regs]: "MQNIC_QUEUE_SIZE_CQN_REG = 0x0C"
definition MQNIC_QUEUE_PTR_REG :: int where [regs]: "MQNIC_QUEUE_PTR_REG = 0x10"
definition MQNIC_QUEUE_RANK_WQE :: int where [regs]: "MQNIC_QUEUE_RANK_WQE = 0x14"
definition MQNIC_QUEUE_PROD_PTR_REG :: int where [regs]: "MQNIC_QUEUE_PROD_PTR_REG = 0x10"
definition MQNIC_QUEUE_CONS_PTR_REG :: int where [regs]: "MQNIC_QUEUE_CONS_PTR_REG = 0x12"
definition MQNIC_QUEUE_ENABLE_MASK :: int where [regs]: "MQNIC_QUEUE_ENABLE_MASK = 0x00000001"
definition MQNIC_QUEUE_ACTIVE_MASK :: int where [regs]: "MQNIC_QUEUE_ACTIVE_MASK = 0x00000008"
definition MQNIC_QUEUE_PTR_MASK :: int where [regs]: "MQNIC_QUEUE_PTR_MASK = 0xFFFF"
definition MQNIC_QUEUE_CMD_SET_VF_ID :: int where [regs]: "MQNIC_QUEUE_CMD_SET_VF_ID = 0x80010000"
definition MQNIC_QUEUE_CMD_SET_SIZE :: int where [regs]: "MQNIC_QUEUE_CMD_SET_SIZE = 0x80020000"
definition MQNIC_QUEUE_CMD_SET_CQN :: int where [regs]: "MQNIC_QUEUE_CMD_SET_CQN = 0xC0000000"
definition MQNIC_QUEUE_CMD_SET_PROD_PTR :: int where [regs]: "MQNIC_QUEUE_CMD_SET_PROD_PTR = 0x80800000"
definition MQNIC_QUEUE_CMD_SET_CONS_PTR :: int where [regs]: "MQNIC_QUEUE_CMD_SET_CONS_PTR = 0x80900000"
definition MQNIC_QUEUE_CMD_SET_ENABLE :: int where [regs]: "MQNIC_QUEUE_CMD_SET_ENABLE = 0x40000100"
definition MQNIC_CQ_BASE_ADDR_VF_REG :: int where [regs]: "MQNIC_CQ_BASE_ADDR_VF_REG = 0x00"
definition MQNIC_CQ_CTRL_STATUS_REG :: int where [regs]: "MQNIC_CQ_CTRL_STATUS_REG = 0x08"
definition MQNIC_CQ_PTR_REG :: int where [regs]: "MQNIC_CQ_PTR_REG = 0x0C"
definition MQNIC_CQ_PROD_PTR_REG :: int where [regs]: "MQNIC_CQ_PROD_PTR_REG = 0x0C"
definition MQNIC_CQ_CONS_PTR_REG :: int where [regs]: "MQNIC_CQ_CONS_PTR_REG = 0x0E"
definition MQNIC_CQ_ENABLE_MASK :: int where [regs]: "MQNIC_CQ_ENABLE_MASK = 0x00010000"
definition MQNIC_CQ_ARM_MASK :: int where [regs]: "MQNIC_CQ_ARM_MASK = 0x00020000"
definition MQNIC_CQ_ACTIVE_MASK :: int where [regs]: "MQNIC_CQ_ACTIVE_MASK = 0x00080000"
definition MQNIC_CQ_PTR_MASK :: int where [regs]: "MQNIC_CQ_PTR_MASK = 0xFFFF"
definition MQNIC_CQ_CMD_SET_VF_ID :: int where [regs]: "MQNIC_CQ_CMD_SET_VF_ID = 0x80010000"
definition MQNIC_CQ_CMD_SET_SIZE :: int where [regs]: "MQNIC_CQ_CMD_SET_SIZE = 0x80020000"
definition MQNIC_CQ_CMD_SET_EQN :: int where [regs]: "MQNIC_CQ_CMD_SET_EQN = 0xC0000000"
definition MQNIC_CQ_CMD_SET_PROD_PTR :: int where [regs]: "MQNIC_CQ_CMD_SET_PROD_PTR = 0x80800000"
definition MQNIC_CQ_CMD_SET_CONS_PTR :: int where [regs]: "MQNIC_CQ_CMD_SET_CONS_PTR = 0x80900000"
definition MQNIC_CQ_CMD_SET_CONS_PTR_ARM :: int where [regs]: "MQNIC_CQ_CMD_SET_CONS_PTR_ARM = 0x80910000"
definition MQNIC_CQ_CMD_SET_ENABLE :: int where [regs]: "MQNIC_CQ_CMD_SET_ENABLE = 0x40000100"
definition MQNIC_CQ_CMD_SET_ARM :: int where [regs]: "MQNIC_CQ_CMD_SET_ARM = 0x40000200"
definition MQNIC_EQ_BASE_ADDR_VF_REG :: int where [regs]: "MQNIC_EQ_BASE_ADDR_VF_REG = 0x00"
definition MQNIC_EQ_CTRL_STATUS_REG :: int where [regs]: "MQNIC_EQ_CTRL_STATUS_REG = 0x08"
definition MQNIC_EQ_PTR_REG :: int where [regs]: "MQNIC_EQ_PTR_REG = 0x0C"
definition MQNIC_EQ_PROD_PTR_REG :: int where [regs]: "MQNIC_EQ_PROD_PTR_REG = 0x0C"
definition MQNIC_EQ_CONS_PTR_REG :: int where [regs]: "MQNIC_EQ_CONS_PTR_REG = 0x0E"
definition MQNIC_EQ_ENABLE_MASK :: int where [regs]: "MQNIC_EQ_ENABLE_MASK = 0x00010000"
definition MQNIC_EQ_ARM_MASK :: int where [regs]: "MQNIC_EQ_ARM_MASK = 0x00020000"
definition MQNIC_EQ_ACTIVE_MASK :: int where [regs]: "MQNIC_EQ_ACTIVE_MASK = 0x00080000"
definition MQNIC_EQ_PTR_MASK :: int where [regs]: "MQNIC_EQ_PTR_MASK = 0xFFFF"
definition MQNIC_EQ_CMD_SET_VF_ID :: int where [regs]: "MQNIC_EQ_CMD_SET_VF_ID = 0x80010000"
definition MQNIC_EQ_CMD_SET_SIZE :: int where [regs]: "MQNIC_EQ_CMD_SET_SIZE = 0x80020000"
definition MQNIC_EQ_CMD_SET_IRQN :: int where [regs]: "MQNIC_EQ_CMD_SET_IRQN = 0xC0000000"
definition MQNIC_EQ_CMD_SET_PROD_PTR :: int where [regs]: "MQNIC_EQ_CMD_SET_PROD_PTR = 0x80800000"
definition MQNIC_EQ_CMD_SET_CONS_PTR :: int where [regs]: "MQNIC_EQ_CMD_SET_CONS_PTR = 0x80900000"
definition MQNIC_EQ_CMD_SET_CONS_PTR_ARM :: int where [regs]: "MQNIC_EQ_CMD_SET_CONS_PTR_ARM = 0x80910000"
definition MQNIC_EQ_CMD_SET_ENABLE :: int where [regs]: "MQNIC_EQ_CMD_SET_ENABLE = 0x40000100"
definition MQNIC_EQ_CMD_SET_ARM :: int where [regs]: "MQNIC_EQ_CMD_SET_ARM = 0x40000200"
definition MQNIC_EVENT_TYPE_CPL :: int where [regs]: "MQNIC_EVENT_TYPE_CPL = 0x0000"
definition MQNIC_DESC_SIZE :: int where [regs]: "MQNIC_DESC_SIZE = 16"
definition MQNIC_CPL_SIZE :: int where [regs]: "MQNIC_CPL_SIZE = 32"
definition MQNIC_EVENT_SIZE :: int where [regs]: "MQNIC_EVENT_SIZE = 32"

section \<open>Register layout\<close>

text \<open>The registers of each block that has a header (type, version, next pointer).\<close>

definition fw_id_regs :: "int list" where
  "fw_id_regs =
    [MQNIC_RB_FW_ID_REG_FPGA_ID,
     MQNIC_RB_FW_ID_REG_FW_ID,
     MQNIC_RB_FW_ID_REG_FW_VER,
     MQNIC_RB_FW_ID_REG_BOARD_ID,
     MQNIC_RB_FW_ID_REG_BOARD_VER,
     MQNIC_RB_FW_ID_REG_BUILD_DATE,
     MQNIC_RB_FW_ID_REG_GIT_HASH,
     MQNIC_RB_FW_ID_REG_REL_INFO]"

definition gpio_regs :: "int list" where
  "gpio_regs =
    [MQNIC_RB_GPIO_REG_GPIO_IN,
     MQNIC_RB_GPIO_REG_GPIO_OUT]"

definition i2c_regs :: "int list" where
  "i2c_regs =
    [MQNIC_RB_I2C_REG_CTRL]"

definition spi_flash_regs :: "int list" where
  "spi_flash_regs =
    [MQNIC_RB_SPI_FLASH_REG_FORMAT,
     MQNIC_RB_SPI_FLASH_REG_CTRL_0,
     MQNIC_RB_SPI_FLASH_REG_CTRL_1]"

definition bpi_flash_regs :: "int list" where
  "bpi_flash_regs =
    [MQNIC_RB_BPI_FLASH_REG_FORMAT,
     MQNIC_RB_BPI_FLASH_REG_ADDR,
     MQNIC_RB_BPI_FLASH_REG_DATA,
     MQNIC_RB_BPI_FLASH_REG_CTRL]"

definition alveo_bmc_regs :: "int list" where
  "alveo_bmc_regs =
    [MQNIC_RB_ALVEO_BMC_REG_ADDR,
     MQNIC_RB_ALVEO_BMC_REG_DATA]"

definition gecko_bmc_regs :: "int list" where
  "gecko_bmc_regs =
    [MQNIC_RB_GECKO_BMC_REG_STATUS,
     MQNIC_RB_GECKO_BMC_REG_DATA,
     MQNIC_RB_GECKO_BMC_REG_CMD]"

definition stats_regs :: "int list" where
  "stats_regs =
    [MQNIC_RB_STATS_REG_OFFSET,
     MQNIC_RB_STATS_REG_COUNT,
     MQNIC_RB_STATS_REG_STRIDE,
     MQNIC_RB_STATS_REG_FLAGS]"

definition phc_regs :: "int list" where
  "phc_regs =
    [MQNIC_RB_PHC_REG_CTRL,
     MQNIC_RB_PHC_REG_CUR_FNS,
     MQNIC_RB_PHC_REG_CUR_TOD_NS,
     MQNIC_RB_PHC_REG_CUR_TOD_SEC_L,
     MQNIC_RB_PHC_REG_CUR_TOD_SEC_H,
     MQNIC_RB_PHC_REG_CUR_REL_NS_L,
     MQNIC_RB_PHC_REG_CUR_REL_NS_H,
     MQNIC_RB_PHC_REG_CUR_PTM_NS_L,
     MQNIC_RB_PHC_REG_CUR_PTM_NS_H,
     MQNIC_RB_PHC_REG_SNAP_FNS,
     MQNIC_RB_PHC_REG_SNAP_TOD_NS,
     MQNIC_RB_PHC_REG_SNAP_TOD_SEC_L,
     MQNIC_RB_PHC_REG_SNAP_TOD_SEC_H,
     MQNIC_RB_PHC_REG_SNAP_REL_NS_L,
     MQNIC_RB_PHC_REG_SNAP_REL_NS_H,
     MQNIC_RB_PHC_REG_SNAP_PTM_NS_L,
     MQNIC_RB_PHC_REG_SNAP_PTM_NS_H,
     MQNIC_RB_PHC_REG_OFFSET_TOD_NS,
     MQNIC_RB_PHC_REG_SET_TOD_NS,
     MQNIC_RB_PHC_REG_SET_TOD_SEC_L,
     MQNIC_RB_PHC_REG_SET_TOD_SEC_H,
     MQNIC_RB_PHC_REG_SET_REL_NS_L,
     MQNIC_RB_PHC_REG_SET_REL_NS_H,
     MQNIC_RB_PHC_REG_OFFSET_REL_NS,
     MQNIC_RB_PHC_REG_OFFSET_FNS,
     MQNIC_RB_PHC_REG_NOM_PERIOD_FNS,
     MQNIC_RB_PHC_REG_NOM_PERIOD_NS,
     MQNIC_RB_PHC_REG_PERIOD_FNS,
     MQNIC_RB_PHC_REG_PERIOD_NS]"

definition phc_perout_regs :: "int list" where
  "phc_perout_regs =
    [MQNIC_RB_PHC_PEROUT_REG_CTRL,
     MQNIC_RB_PHC_PEROUT_REG_START_FNS,
     MQNIC_RB_PHC_PEROUT_REG_START_NS,
     MQNIC_RB_PHC_PEROUT_REG_START_SEC_L,
     MQNIC_RB_PHC_PEROUT_REG_START_SEC_H,
     MQNIC_RB_PHC_PEROUT_REG_PERIOD_FNS,
     MQNIC_RB_PHC_PEROUT_REG_PERIOD_NS,
     MQNIC_RB_PHC_PEROUT_REG_PERIOD_SEC_L,
     MQNIC_RB_PHC_PEROUT_REG_PERIOD_SEC_H,
     MQNIC_RB_PHC_PEROUT_REG_WIDTH_FNS,
     MQNIC_RB_PHC_PEROUT_REG_WIDTH_NS,
     MQNIC_RB_PHC_PEROUT_REG_WIDTH_SEC_L,
     MQNIC_RB_PHC_PEROUT_REG_WIDTH_SEC_H]"

definition if_regs :: "int list" where
  "if_regs =
    [MQNIC_RB_IF_REG_OFFSET,
     MQNIC_RB_IF_REG_COUNT,
     MQNIC_RB_IF_REG_STRIDE,
     MQNIC_RB_IF_REG_CSR_OFFSET]"

definition if_ctrl_regs :: "int list" where
  "if_ctrl_regs =
    [MQNIC_RB_IF_CTRL_REG_FEATURES,
     MQNIC_RB_IF_CTRL_REG_PORT_COUNT,
     MQNIC_RB_IF_CTRL_REG_SCHED_COUNT,
     MQNIC_RB_IF_CTRL_REG_MAX_TX_MTU,
     MQNIC_RB_IF_CTRL_REG_MAX_RX_MTU,
     MQNIC_RB_IF_CTRL_REG_TX_MTU,
     MQNIC_RB_IF_CTRL_REG_RX_MTU,
     MQNIC_RB_IF_CTRL_REG_TX_FIFO_DEPTH,
     MQNIC_RB_IF_CTRL_REG_RX_FIFO_DEPTH]"

definition eqm_regs :: "int list" where
  "eqm_regs =
    [MQNIC_RB_EQM_REG_OFFSET,
     MQNIC_RB_EQM_REG_COUNT,
     MQNIC_RB_EQM_REG_STRIDE]"

definition cqm_regs :: "int list" where
  "cqm_regs =
    [MQNIC_RB_CQM_REG_OFFSET,
     MQNIC_RB_CQM_REG_COUNT,
     MQNIC_RB_CQM_REG_STRIDE]"

definition tx_qm_regs :: "int list" where
  "tx_qm_regs =
    [MQNIC_RB_TX_QM_REG_OFFSET,
     MQNIC_RB_TX_QM_REG_COUNT,
     MQNIC_RB_TX_QM_REG_STRIDE]"

definition rx_qm_regs :: "int list" where
  "rx_qm_regs =
    [MQNIC_RB_RX_QM_REG_OFFSET,
     MQNIC_RB_RX_QM_REG_COUNT,
     MQNIC_RB_RX_QM_REG_STRIDE]"

definition port_regs :: "int list" where
  "port_regs =
    [MQNIC_RB_PORT_REG_OFFSET]"

definition port_ctrl_regs :: "int list" where
  "port_ctrl_regs =
    [MQNIC_RB_PORT_CTRL_REG_FEATURES,
     MQNIC_RB_PORT_CTRL_REG_TX_CTRL,
     MQNIC_RB_PORT_CTRL_REG_RX_CTRL,
     MQNIC_RB_PORT_CTRL_REG_LFC_CTRL,
     MQNIC_RB_PORT_CTRL_REG_PFC_CTRL0,
     MQNIC_RB_PORT_CTRL_REG_PFC_CTRL1,
     MQNIC_RB_PORT_CTRL_REG_PFC_CTRL2,
     MQNIC_RB_PORT_CTRL_REG_PFC_CTRL3,
     MQNIC_RB_PORT_CTRL_REG_PFC_CTRL4,
     MQNIC_RB_PORT_CTRL_REG_PFC_CTRL5,
     MQNIC_RB_PORT_CTRL_REG_PFC_CTRL6,
     MQNIC_RB_PORT_CTRL_REG_PFC_CTRL7]"

definition sched_block_regs :: "int list" where
  "sched_block_regs =
    [MQNIC_RB_SCHED_BLOCK_REG_OFFSET]"

definition sched_rr_regs :: "int list" where
  "sched_rr_regs =
    [MQNIC_RB_SCHED_RR_REG_OFFSET,
     MQNIC_RB_SCHED_RR_REG_CH_COUNT,
     MQNIC_RB_SCHED_RR_REG_CH_STRIDE,
     MQNIC_RB_SCHED_RR_REG_CTRL,
     MQNIC_RB_SCHED_RR_REG_DEST]"

definition sched_ctrl_tdma_regs :: "int list" where
  "sched_ctrl_tdma_regs =
    [MQNIC_RB_SCHED_CTRL_TDMA_REG_OFFSET,
     MQNIC_RB_SCHED_CTRL_TDMA_REG_CH_COUNT,
     MQNIC_RB_SCHED_CTRL_TDMA_REG_CH_STRIDE,
     MQNIC_RB_SCHED_CTRL_TDMA_REG_CTRL,
     MQNIC_RB_SCHED_CTRL_TDMA_REG_TS_COUNT]"

definition tdma_sch_regs :: "int list" where
  "tdma_sch_regs =
    [MQNIC_RB_TDMA_SCH_REG_TS_COUNT,
     MQNIC_RB_TDMA_SCH_REG_CTRL,
     MQNIC_RB_TDMA_SCH_REG_STATUS,
     MQNIC_RB_TDMA_SCH_REG_SCH_START_FNS,
     MQNIC_RB_TDMA_SCH_REG_SCH_START_NS,
     MQNIC_RB_TDMA_SCH_REG_SCH_START_SEC_L,
     MQNIC_RB_TDMA_SCH_REG_SCH_START_SEC_H,
     MQNIC_RB_TDMA_SCH_REG_SCH_PERIOD_FNS,
     MQNIC_RB_TDMA_SCH_REG_SCH_PERIOD_NS,
     MQNIC_RB_TDMA_SCH_REG_SCH_PERIOD_SEC_L,
     MQNIC_RB_TDMA_SCH_REG_SCH_PERIOD_SEC_H,
     MQNIC_RB_TDMA_SCH_REG_TS_PERIOD_FNS,
     MQNIC_RB_TDMA_SCH_REG_TS_PERIOD_NS,
     MQNIC_RB_TDMA_SCH_REG_TS_PERIOD_SEC_L,
     MQNIC_RB_TDMA_SCH_REG_TS_PERIOD_SEC_H,
     MQNIC_RB_TDMA_SCH_REG_ACTIVE_PERIOD_FNS,
     MQNIC_RB_TDMA_SCH_REG_ACTIVE_PERIOD_NS,
     MQNIC_RB_TDMA_SCH_REG_ACTIVE_PERIOD_SEC_L,
     MQNIC_RB_TDMA_SCH_REG_ACTIVE_PERIOD_SEC_H]"

definition app_info_regs :: "int list" where
  "app_info_regs =
    [MQNIC_RB_APP_INFO_REG_ID]"

definition layout_ok :: "int list \<Rightarrow> bool" where
  "layout_ok rs \<longleftrightarrow> distinct rs \<and> (\<forall>r \<in> set rs. r mod 4 = 0 \<and> MQNIC_RB_REG_NEXT_PTR < r)"

definition header_blocks :: "int list list" where
  "header_blocks =
    [fw_id_regs,
     gpio_regs,
     i2c_regs,
     spi_flash_regs,
     bpi_flash_regs,
     alveo_bmc_regs,
     gecko_bmc_regs,
     stats_regs,
     phc_regs,
     phc_perout_regs,
     if_regs,
     eqm_regs,
     cqm_regs,
     tx_qm_regs,
     rx_qm_regs,
     port_regs,
     port_ctrl_regs,
     sched_block_regs,
     sched_rr_regs,
     sched_ctrl_tdma_regs,
     tdma_sch_regs,
     app_info_regs]"

lemmas block_defs = if_ctrl_regs_def fw_id_regs_def gpio_regs_def i2c_regs_def spi_flash_regs_def bpi_flash_regs_def 
  alveo_bmc_regs_def gecko_bmc_regs_def stats_regs_def phc_regs_def phc_perout_regs_def 
  if_regs_def eqm_regs_def cqm_regs_def tx_qm_regs_def rx_qm_regs_def port_regs_def 
  port_ctrl_regs_def sched_block_regs_def sched_rr_regs_def sched_ctrl_tdma_regs_def 
  tdma_sch_regs_def app_info_regs_def

text \<open>
  In every block but the interface control block the registers are word-aligned, follow the
  three header words and do not overlap.
\<close>

lemma header_blocks_layout_ok: "list_all layout_ok header_blocks"
  by (simp add: header_blocks_def layout_ok_def block_defs regs)

text \<open>The interface control block names two words twice.\<close>

lemma if_ctrl_alias:
  "MQNIC_RB_IF_CTRL_REG_TX_FIFO_DEPTH = MQNIC_RB_IF_CTRL_REG_MAX_TX_MTU"
  "MQNIC_RB_IF_CTRL_REG_RX_FIFO_DEPTH = MQNIC_RB_IF_CTRL_REG_MAX_RX_MTU"
  "\<not> layout_ok if_ctrl_regs"
  by (simp_all add: if_ctrl_regs_def layout_ok_def regs)

section \<open>Command words\<close>

text \<open>
  A queue is driven through one control register: the upper half of the word is the command,
  the lower half its argument. The commands with a 16-bit argument, and what the three queue
  managers call them:
\<close>

definition queue_cmds :: "int list" where
  "queue_cmds =
    [MQNIC_QUEUE_CMD_SET_VF_ID,
     MQNIC_QUEUE_CMD_SET_SIZE,
     MQNIC_QUEUE_CMD_SET_PROD_PTR,
     MQNIC_QUEUE_CMD_SET_CONS_PTR]"

definition cq_cmds :: "int list" where
  "cq_cmds =
    [MQNIC_CQ_CMD_SET_VF_ID,
     MQNIC_CQ_CMD_SET_SIZE,
     MQNIC_CQ_CMD_SET_PROD_PTR,
     MQNIC_CQ_CMD_SET_CONS_PTR,
     MQNIC_CQ_CMD_SET_CONS_PTR_ARM]"

definition eq_cmds :: "int list" where
  "eq_cmds =
    [MQNIC_EQ_CMD_SET_VF_ID,
     MQNIC_EQ_CMD_SET_SIZE,
     MQNIC_EQ_CMD_SET_PROD_PTR,
     MQNIC_EQ_CMD_SET_CONS_PTR,
     MQNIC_EQ_CMD_SET_CONS_PTR_ARM]"

lemma low_half_or:
  fixes a c :: int
  assumes "0 \<le> a" "a < 65536" "c mod 65536 = 0"
  shows "(c OR a) AND 0xFFFF = a" and "(c OR a) div 65536 = c div 65536"
proof -
  have 16: "take_bit 16 c = 0" "take_bit 16 a = a"
    using assms by (simp_all add: take_bit_eq_mod)
  have "take_bit 16 (c OR a) = a" by (simp add: 16)
  then show "(c OR a) AND 0xFFFF = a"
    using and_mask_mod [of "c OR a" 16] by (simp add: take_bit_eq_mod)
  have "drop_bit 16 (c OR a) = drop_bit 16 c OR drop_bit 16 a" by simp
  also have "drop_bit 16 a = 0" using assms by (simp add: drop_bit_eq_div)
  finally show "(c OR a) div 65536 = c div 65536" by (simp add: drop_bit_eq_div)
qed

lemma cmd_word_inj:
  fixes a c :: int
  assumes "c \<in> set cs" "c' \<in> set cs" "\<forall>c \<in> set cs. c mod 65536 = 0"
    and "0 \<le> a" "a < 65536" "0 \<le> a'" "a' < 65536"
    and "c OR a = c' OR a'"
  shows "c = c' \<and> a = a'"
proof -
  have "c div 65536 = c' div 65536" "a = a'"
    using low_half_or [of a c] low_half_or [of a' c'] assms by auto
  moreover have "c = 65536 * (c div 65536)" "c' = 65536 * (c' div 65536)"
    using assms(1-3) by (auto simp: mod_eq_0_iff_dvd)
  ultimately show ?thesis by metis
qed

lemma ptr_mask_mod: "p AND MQNIC_QUEUE_PTR_MASK = p mod 65536"
    "p AND MQNIC_CQ_PTR_MASK = p mod 65536" "p AND MQNIC_EQ_PTR_MASK = p mod 65536"
  using and_mask_mod [of p 16] by (simp_all add: regs)

end
