(* ===== verification/World.thy ===== *)
theory World
  imports Resource Regs
begin

text \<open>
  The objects of the driver model (\<open>mqnic.py\<close>): one record per class, with the class's
  attributes under its own prefix and the value its \<open>__init__\<close> gives (\<open>Eq_init\<close> for
  \<open>Eq.__init__\<close> and so on; the attributes \<open>log\<close> and \<open>driver\<close> are dropped, there is one
  driver and logging has no effect on the model). Python objects refer to each other, so
  they live in stores of the \<open>world\<close> record, indexed by the order of their creation; a
  reference is an index. The world also holds the device's state, the host memory and the
  bus transactions issued so far. The second half gives the operations on the world that
  the methods are built from: register reads and writes, buffer accesses, attribute access.
\<close>

section \<open>Classes\<close>

record reg_block =
  rb_window :: window
  rb_parent :: window
  rb_offset :: int
  rb_type :: int
  rb_version :: int

record packet =
  pk_data :: "byte list"
  pk_queue :: "int option"
  pk_timestamp_s :: "int option"
  pk_timestamp_ns :: "int option"
  pk_rx_checksum :: "int option"

definition Packet_init :: "byte list \<Rightarrow> packet" where
  "Packet_init data =
     \<lparr>pk_data = data, pk_queue = None, pk_timestamp_s = None, pk_timestamp_ns = None,
      pk_rx_checksum = None\<rparr>"

record eq =
  eq_interface :: nat
  eq_log_size :: int
  eq_size :: int
  eq_size_mask :: int
  eq_stride :: int
  eq_eqn :: "int option"
  eq_enabled :: bool
  eq_buf_size :: int
  eq_buf_region :: "region option"
  eq_buf_dma :: int
  eq_buf :: "nat option"
  eq_irq :: "int option"
  eq_cq_table :: "int \<rightharpoonup> nat"
  eq_prod_ptr :: int
  eq_cons_ptr :: int
  eq_hw_regs :: "window option"

definition Eq_init :: "nat \<Rightarrow> eq" where
  "Eq_init interface =
     \<lparr>eq_interface = interface, eq_log_size = 0, eq_size = 0, eq_size_mask = 0, eq_stride = 0,
      eq_eqn = None, eq_enabled = False, eq_buf_size = 0, eq_buf_region = None, eq_buf_dma = 0,
      eq_buf = None, eq_irq = None, eq_cq_table = Map.empty, eq_prod_ptr = 0, eq_cons_ptr = 0,
      eq_hw_regs = None\<rparr>"

text \<open>
  A completion queue holds the ring it serves and the method that handles it; both are set
  together, by \<open>Txq.open\<close> or \<open>Rxq.open\<close>.
\<close>

datatype ring_ref = TxRing nat | RxRing nat

datatype cq_handler = ProcessTxCq | ProcessRxCq

record cq =
  cq_interface :: nat
  cq_log_size :: int
  cq_size :: int
  cq_size_mask :: int
  cq_stride :: int
  cq_cqn :: "int option"
  cq_enabled :: bool
  cq_buf_size :: int
  cq_buf_region :: "region option"
  cq_buf_dma :: int
  cq_buf :: "nat option"
  cq_eq :: "nat option"
  cq_src_ring :: "ring_ref option"
  cq_handler :: "cq_handler option"
  cq_prod_ptr :: int
  cq_cons_ptr :: int
  cq_hw_regs :: "window option"

definition Cq_init :: "nat \<Rightarrow> cq" where
  "Cq_init interface =
     \<lparr>cq_interface = interface, cq_log_size = 0, cq_size = 0, cq_size_mask = 0, cq_stride = 0,
      cq_cqn = None, cq_enabled = False, cq_buf_size = 0, cq_buf_region = None, cq_buf_dma = 0,
      cq_buf = None, cq_eq = None, cq_src_ring = None, cq_handler = None, cq_prod_ptr = 0,
      cq_cons_ptr = 0, cq_hw_regs = None\<rparr>"

text \<open>
  \<open>tx_info\<close> and \<open>rx_info\<close> do not exist before \<open>open\<close>; here they are empty lists then.
\<close>

record txq =
  txq_interface :: nat
  txq_log_queue_size :: int
  txq_log_desc_block_size :: int
  txq_desc_block_size :: int
  txq_size :: int
  txq_size_mask :: int
  txq_full_size :: int
  txq_stride :: int
  txq_index :: "int option"
  txq_enabled :: bool
  txq_buf_size :: int
  txq_buf_region :: "region option"
  txq_buf_dma :: int
  txq_buf :: "nat option"
  txq_cq :: "nat option"
  txq_prod_ptr :: int
  txq_cons_ptr :: int
  txq_clean_event :: bool
  txq_packets :: int
  txq_bytes :: int
  txq_hw_regs :: "window option"
  txq_tx_info :: "region option list"

definition Txq_init :: "nat \<Rightarrow> txq" where
  "Txq_init interface =
     \<lparr>txq_interface = interface, txq_log_queue_size = 0, txq_log_desc_block_size = 0,
      txq_desc_block_size = 0, txq_size = 0, txq_size_mask = 0, txq_full_size = 0,
      txq_stride = 0, txq_index = None, txq_enabled = False, txq_buf_size = 0,
      txq_buf_region = None, txq_buf_dma = 0, txq_buf = None, txq_cq = None, txq_prod_ptr = 0,
      txq_cons_ptr = 0, txq_clean_event = False, txq_packets = 0, txq_bytes = 0,
      txq_hw_regs = None, txq_tx_info = []\<rparr>"

record rxq =
  rxq_interface :: nat
  rxq_log_queue_size :: int
  rxq_log_desc_block_size :: int
  rxq_desc_block_size :: int
  rxq_size :: int
  rxq_size_mask :: int
  rxq_full_size :: int
  rxq_stride :: int
  rxq_index :: "int option"
  rxq_enabled :: bool
  rxq_buf_size :: int
  rxq_buf_region :: "region option"
  rxq_buf_dma :: int
  rxq_buf :: "nat option"
  rxq_cq :: "nat option"
  rxq_prod_ptr :: int
  rxq_cons_ptr :: int
  rxq_packets :: int
  rxq_bytes :: int
  rxq_hw_regs :: "window option"
  rxq_rx_info :: "region option list"

definition Rxq_init :: "nat \<Rightarrow> rxq" where
  "Rxq_init interface =
     \<lparr>rxq_interface = interface, rxq_log_queue_size = 0, rxq_log_desc_block_size = 0,
      rxq_desc_block_size = 0, rxq_size = 0, rxq_size_mask = 0, rxq_full_size = 0,
      rxq_stride = 0, rxq_index = None, rxq_enabled = False, rxq_buf_size = 0,
      rxq_buf_region = None, rxq_buf_dma = 0, rxq_buf = None, rxq_cq = None, rxq_prod_ptr = 0,
      rxq_cons_ptr = 0, rxq_packets = 0, rxq_bytes = 0, rxq_hw_regs = None, rxq_rx_info = []\<rparr>"

record port =
  port_interface :: nat
  port_index :: int
  port_rb :: "reg_block option"
  port_reg_blocks :: "reg_block list"
  port_ctrl_rb :: "reg_block option"
  port_features :: "int option"
  port_feature_lfc :: "bool option"
  port_feature_pfc :: "bool option"
  port_feature_int_mac_ctrl :: "bool option"

definition Port_init :: "nat \<Rightarrow> int \<Rightarrow> reg_block option \<Rightarrow> port" where
  "Port_init interface index rb =
     \<lparr>port_interface = interface, port_index = index, port_rb = rb, port_reg_blocks = [],
      port_ctrl_rb = None, port_features = None, port_feature_lfc = None,
      port_feature_pfc = None, port_feature_int_mac_ctrl = None\<rparr>"

record iface =
  ifc_index :: int
  ifc_hw_regs :: window
  ifc_csr_hw_regs :: window
  ifc_port_up :: bool
  ifc_reg_blocks :: "reg_block list"
  ifc_if_ctrl_rb :: "reg_block option"
  ifc_eq_rb :: "reg_block option"
  ifc_cq_rb :: "reg_block option"
  ifc_txq_rb :: "reg_block option"
  ifc_rxq_rb :: "reg_block option"
  ifc_rx_queue_map_rb :: "reg_block option"
  ifc_if_features :: "int option"
  ifc_feature_rss :: "bool option"
  ifc_feature_ptp_ts :: "bool option"
  ifc_feature_tx_csum :: "bool option"
  ifc_feature_rx_csum :: "bool option"
  ifc_feature_rx_hash :: "bool option"
  ifc_feature_lfc :: "bool option"
  ifc_feature_pfc :: "bool option"
  ifc_max_tx_mtu :: int
  ifc_max_rx_mtu :: int
  ifc_tx_fifo_depth :: int
  ifc_rx_fifo_depth :: int
  ifc_eq_res :: "resource option"
  ifc_cq_res :: "resource option"
  ifc_txq_res :: "resource option"
  ifc_rxq_res :: "resource option"
  ifc_port_count :: "int option"
  ifc_indir_table_size :: "int option"
  ifc_indir_table :: "window list"
  ifc_eq :: "nat list"
  ifc_txq :: "nat list"
  ifc_rxq :: "nat list"
  ifc_ports :: "port list"
  ifc_pkt_rx_queue :: "packet list"
  ifc_pkt_rx_sync :: bool

definition Interface_init :: "int \<Rightarrow> window \<Rightarrow> int \<Rightarrow> iface" where
  "Interface_init index hw_regs csr_offset =
     \<lparr>ifc_index = index, ifc_hw_regs = hw_regs,
      ifc_csr_hw_regs = create_window hw_regs csr_offset None, ifc_port_up = False,
      ifc_reg_blocks = [], ifc_if_ctrl_rb = None, ifc_eq_rb = None, ifc_cq_rb = None,
      ifc_txq_rb = None, ifc_rxq_rb = None, ifc_rx_queue_map_rb = None, ifc_if_features = None,
      ifc_feature_rss = None, ifc_feature_ptp_ts = None, ifc_feature_tx_csum = None,
      ifc_feature_rx_csum = None, ifc_feature_rx_hash = None, ifc_feature_lfc = None,
      ifc_feature_pfc = None, ifc_max_tx_mtu = 0, ifc_max_rx_mtu = 0, ifc_tx_fifo_depth = 0,
      ifc_rx_fifo_depth = 0, ifc_eq_res = None, ifc_cq_res = None, ifc_txq_res = None,
      ifc_rxq_res = None, ifc_port_count = None, ifc_indir_table_size = None,
      ifc_indir_table = [], ifc_eq = [], ifc_txq = [], ifc_rxq = [], ifc_ports = [],
      ifc_pkt_rx_queue = [], ifc_pkt_rx_sync = False\<rparr>"

text \<open>
  An interrupt object: its index, the number of pending entries of its queue and whether it
  has a handler (in the driver it always has, \<open>Driver.interrupt_handler\<close>).
\<close>

record interrupt =
  irq_index :: int
  irq_queue :: nat
  irq_handler :: bool

record driver =
  drv_initialized :: bool
  drv_hw_regs :: "window option"
  drv_app_hw_regs :: "window option"
  drv_ram_hw_regs :: "window option"
  drv_irq_list :: "interrupt list"
  drv_reg_blocks :: "reg_block list"
  drv_fw_id_rb :: "reg_block option"
  drv_if_rb :: "reg_block option"
  drv_phc_rb :: "reg_block option"
  drv_fpga_id :: "int option"
  drv_fw_id :: "int option"
  drv_fw_ver :: "int option"
  drv_board_id :: "int option"
  drv_board_ver :: "int option"
  drv_build_date :: "int option"
  drv_git_hash :: "int option"
  drv_rel_info :: "int option"
  drv_app_id :: "int option"
  drv_if_offset :: "int option"
  drv_if_count :: int
  drv_if_stride :: "int option"
  drv_if_csr_offset :: "int option"
  drv_interfaces :: "nat list"
  drv_pkt_buf_size :: int
  drv_allocated_packets :: "region list"
  drv_free_packets :: "region list"

definition Driver_init :: driver where
  "Driver_init =
     \<lparr>drv_initialized = False, drv_hw_regs = None, drv_app_hw_regs = None,
      drv_ram_hw_regs = None, drv_irq_list = [], drv_reg_blocks = [], drv_fw_id_rb = None,
      drv_if_rb = None, drv_phc_rb = None, drv_fpga_id = None, drv_fw_id = None,
      drv_fw_ver = None, drv_board_id = None, drv_board_ver = None, drv_build_date = None,
      drv_git_hash = None, drv_rel_info = None, drv_app_id = None, drv_if_offset = None,
      drv_if_count = 1, drv_if_stride = None, drv_if_csr_offset = None, drv_interfaces = [],
      drv_pkt_buf_size = 16384, drv_allocated_packets = [], drv_free_packets = []\<rparr>"

section \<open>The world\<close>

record 'h world =
  w_hw :: 'h
  w_mem :: memory
  w_mmio :: "mmio list"
  w_next_region :: nat
  w_eqs :: "nat \<Rightarrow> eq"
  w_next_eq :: nat
  w_cqs :: "nat \<Rightarrow> cq"
  w_next_cq :: nat
  w_txqs :: "nat \<Rightarrow> txq"
  w_next_txq :: nat
  w_rxqs :: "nat \<Rightarrow> rxq"
  w_next_rxq :: nat
  w_ifs :: "nat \<Rightarrow> iface"
  w_next_if :: nat
  w_drv :: driver

type_synonym ('h, 'a) drv = "('h world, 'a) M"

definition init_world :: "'h \<Rightarrow> 'h world" where
  "init_world h =
     \<lparr>w_hw = h, w_mem = (\<lambda>_. []), w_mmio = [], w_next_region = 0,
      w_eqs = (\<lambda>_. Eq_init 0), w_next_eq = 0, w_cqs = (\<lambda>_. Cq_init 0), w_next_cq = 0,
      w_txqs = (\<lambda>_. Txq_init 0), w_next_txq = 0, w_rxqs = (\<lambda>_. Rxq_init 0), w_next_rxq = 0,
      w_ifs = (\<lambda>_. Interface_init 0 (Bar 0) 0), w_next_if = 0, w_drv = Driver_init\<rparr>"

section \<open>Register access\<close>

definition rd_state :: "'h env \<Rightarrow> window \<Rightarrow> int \<Rightarrow> 'h world \<Rightarrow> 'h world" where
  "rd_state E win a s =
     (case dev_read E (w_hw s) (w_mem s) win a of
        (v, h, m) \<Rightarrow> s\<lparr>w_hw := h, w_mem := m, w_mmio := w_mmio s @ [RD win a v]\<rparr>)"

definition rd_val :: "'h env \<Rightarrow> window \<Rightarrow> int \<Rightarrow> 'h world \<Rightarrow> int" where
  "rd_val E win a s = fst (dev_read E (w_hw s) (w_mem s) win a)"

definition read_dword :: "'h env \<Rightarrow> window \<Rightarrow> int \<Rightarrow> ('h, int) drv" where
  "read_dword E win a = (\<lambda>s. (Inr (rd_val E win a s), rd_state E win a s))"

definition wr_state :: "'h env \<Rightarrow> window \<Rightarrow> int \<Rightarrow> int \<Rightarrow> 'h world \<Rightarrow> 'h world" where
  "wr_state E win a v s =
     (case dev_write E (w_hw s) (w_mem s) win a v of
        (h, m) \<Rightarrow> s\<lparr>w_hw := h, w_mem := m, w_mmio := w_mmio s @ [WR win a v]\<rparr>)"

definition write_dword :: "'h env \<Rightarrow> window \<Rightarrow> int \<Rightarrow> int \<Rightarrow> ('h, unit) drv" where
  "write_dword E win a v = modifies (wr_state E win a v)"

definition ctl_state :: "'h env \<Rightarrow> dev_call \<Rightarrow> 'h world \<Rightarrow> 'h world" where
  "ctl_state E c s =
     (case dev_control E (w_hw s) (w_mem s) c of
        (h, m) \<Rightarrow> s\<lparr>w_hw := h, w_mem := m, w_mmio := w_mmio s @ [CTL c]\<rparr>)"

definition control :: "'h env \<Rightarrow> dev_call \<Rightarrow> ('h, unit) drv" where
  "control E c = modifies (ctl_state E c)"

text \<open>A transaction changes the device, the memory and the record of transactions only.\<close>

definition bus_frame :: "'h world \<Rightarrow> 'h world \<Rightarrow> bool" where
  "bus_frame s s' \<longleftrightarrow>
     s' = s\<lparr>w_hw := w_hw s', w_mem := w_mem s', w_mmio := w_mmio s'\<rparr>"

lemma bus_frame_refl [simp]: "bus_frame s s"
  by (simp add: bus_frame_def)

lemma bus_frame_trans: "bus_frame s s' \<Longrightarrow> bus_frame s' s'' \<Longrightarrow> bus_frame s s''"
  by (cases s; cases s'; cases s'') (simp add: bus_frame_def)

lemma bus_frame_rd [simp]: "bus_frame s (rd_state E win a s)"
  by (simp add: bus_frame_def rd_state_def split: prod.split)

lemma bus_frame_wr [simp]: "bus_frame s (wr_state E win a v s)"
  by (simp add: bus_frame_def wr_state_def split: prod.split)

lemma bus_frame_ctl [simp]: "bus_frame s (ctl_state E c s)"
  by (simp add: bus_frame_def ctl_state_def split: prod.split)

lemma bus_frame_fields:
  assumes "bus_frame s s'"
  shows "w_next_region s' = w_next_region s" "w_eqs s' = w_eqs s" "w_next_eq s' = w_next_eq s"
    "w_cqs s' = w_cqs s" "w_next_cq s' = w_next_cq s" "w_txqs s' = w_txqs s"
    "w_next_txq s' = w_next_txq s" "w_rxqs s' = w_rxqs s" "w_next_rxq s' = w_next_rxq s"
    "w_ifs s' = w_ifs s" "w_next_if s' = w_next_if s" "w_drv s' = w_drv s"
  using assms by (metis bus_frame_def world.select_convs world.surjective world.update_convs(1-3))+

lemmas rd_state_fields [simp] = bus_frame_fields [OF bus_frame_rd]
lemmas wr_state_fields [simp] = bus_frame_fields [OF bus_frame_wr]
lemmas ctl_state_fields [simp] = bus_frame_fields [OF bus_frame_ctl]

lemma mmio_rd [simp]: "w_mmio (rd_state E win a s) = w_mmio s @ [RD win a (rd_val E win a s)]"
  by (simp add: rd_state_def rd_val_def split: prod.split)

lemma mmio_wr [simp]: "w_mmio (wr_state E win a v s) = w_mmio s @ [WR win a v]"
  by (simp add: wr_state_def split: prod.split)

lemma mmio_ctl [simp]: "w_mmio (ctl_state E c s) = w_mmio s @ [CTL c]"
  by (simp add: ctl_state_def split: prod.split)

lemma run_read_dword [run_simps, simp]:
  "read_dword E win a s = (Inr (rd_val E win a s), rd_state E win a s)"
  by (simp add: read_dword_def)

lemma run_write_dword [run_simps, simp]: "write_dword E win a v s = (Inr (), wr_state E win a v s)"
  by (simp add: write_dword_def)

lemma run_control [run_simps, simp]: "control E c s = (Inr (), ctl_state E c s)"
  by (simp add: control_def)

lemma rd_val_range: "device_ok E \<Longrightarrow> 0 \<le> rd_val E win a s \<and> rd_val E win a s < 2 ^ 32"
  unfolding device_ok_def rd_val_def by (metis (mono_tags, lifting) case_prod_beta)

lemma rd_state_sizes: "device_ok E \<Longrightarrow> same_sizes (w_mem s) (w_mem (rd_state E win a s))"
  unfolding device_ok_def rd_state_def
  by (auto split: prod.splits)

lemma wr_state_sizes: "device_ok E \<Longrightarrow> same_sizes (w_mem s) (w_mem (wr_state E win a v s))"
  unfolding device_ok_def wr_state_def
  by (auto split: prod.splits) (metis snd_conv)

section \<open>Host memory\<close>

definition alloc_region :: "'h env \<Rightarrow> int \<Rightarrow> ('h, region) drv" where
  "alloc_region E n = (\<lambda>s.
     case pool_alloc E (w_hw s) n of
       None \<Rightarrow> (Inl PoolError, s)
     | Some (a, bs, h) \<Rightarrow>
         (Inr \<lparr>rg_id = w_next_region s, rg_addr = a, rg_size = n\<rparr>,
          s\<lparr>w_hw := h, w_mem := (w_mem s)(w_next_region s := bs),
            w_next_region := Suc (w_next_region s)\<rparr>))"

text \<open>\<open>region.get_absolute_address(off)\<close>.\<close>

definition get_absolute_address :: "region \<Rightarrow> int \<Rightarrow> int" where
  "get_absolute_address rg off = rg_addr rg + off"

text \<open>\<open>buf[off:off+len(bs)] = bs\<close> on a region's memory, which has a fixed size.\<close>

definition mem_store :: "nat \<Rightarrow> int \<Rightarrow> byte list \<Rightarrow> ('h, unit) drv" where
  "mem_store b off bs = (\<lambda>s.
     if 0 \<le> off \<and> nat off + length bs \<le> length (w_mem s b)
     then (Inr (), s\<lparr>w_mem := (w_mem s)(b := splice (w_mem s b) (nat off) bs)\<rparr>)
     else (Inl IndexError, s))"

text \<open>\<open>buf[:n]\<close> of a region.\<close>

definition mem_prefix :: "nat \<Rightarrow> int \<Rightarrow> ('h, byte list) drv" where
  "mem_prefix b n = gets (\<lambda>s. take (nat n) (w_mem s b))"

text \<open>\<open>struct.pack_into(fmt, buf, off, ...)\<close> and \<open>struct.unpack_from(fmt, buf, off)\<close>.\<close>

definition mem_pack :: "fld list \<Rightarrow> nat \<Rightarrow> int \<Rightarrow> int list \<Rightarrow> ('h, unit) drv" where
  "mem_pack fs b off vs = (\<lambda>s.
     case pack_into fs (w_mem s b) off vs of
       Inl e \<Rightarrow> (Inl e, s)
     | Inr bs \<Rightarrow> (Inr (), s\<lparr>w_mem := (w_mem s)(b := bs)\<rparr>))"

definition mem_unpack :: "fld list \<Rightarrow> nat \<Rightarrow> int \<Rightarrow> ('h, int list) drv" where
  "mem_unpack fs b off = (\<lambda>s. (unpack_from fs (w_mem s b) off, s))"

section \<open>Attribute access\<close>

definition upd_eq :: "nat \<Rightarrow> (eq \<Rightarrow> eq) \<Rightarrow> ('h, unit) drv" where
  "upd_eq i f = modifies (\<lambda>s. s\<lparr>w_eqs := (w_eqs s)(i := f (w_eqs s i))\<rparr>)"

definition upd_cq :: "nat \<Rightarrow> (cq \<Rightarrow> cq) \<Rightarrow> ('h, unit) drv" where
  "upd_cq i f = modifies (\<lambda>s. s\<lparr>w_cqs := (w_cqs s)(i := f (w_cqs s i))\<rparr>)"

definition upd_txq :: "nat \<Rightarrow> (txq \<Rightarrow> txq) \<Rightarrow> ('h, unit) drv" where
  "upd_txq i f = modifies (\<lambda>s. s\<lparr>w_txqs := (w_txqs s)(i := f (w_txqs s i))\<rparr>)"

definition upd_rxq :: "nat \<Rightarrow> (rxq \<Rightarrow> rxq) \<Rightarrow> ('h, unit) drv" where
  "upd_rxq i f = modifies (\<lambda>s. s\<lparr>w_rxqs := (w_rxqs s)(i := f (w_rxqs s i))\<rparr>)"

definition upd_if :: "nat \<Rightarrow> (iface \<Rightarrow> iface) \<Rightarrow> ('h, unit) drv" where
  "upd_if i f = modifies (\<lambda>s. s\<lparr>w_ifs := (w_ifs s)(i := f (w_ifs s i))\<rparr>)"

definition upd_drv :: "(driver \<Rightarrow> driver) \<Rightarrow> ('h, unit) drv" where
  "upd_drv f = modifies (\<lambda>s. s\<lparr>w_drv := f (w_drv s)\<rparr>)"

definition get_eq :: "nat \<Rightarrow> ('h, eq) drv" where
  "get_eq i = gets (\<lambda>s. w_eqs s i)"

definition get_cq :: "nat \<Rightarrow> ('h, cq) drv" where
  "get_cq i = gets (\<lambda>s. w_cqs s i)"

definition get_txq :: "nat \<Rightarrow> ('h, txq) drv" where
  "get_txq i = gets (\<lambda>s. w_txqs s i)"

definition get_rxq :: "nat \<Rightarrow> ('h, rxq) drv" where
  "get_rxq i = gets (\<lambda>s. w_rxqs s i)"

definition get_if :: "nat \<Rightarrow> ('h, iface) drv" where
  "get_if i = gets (\<lambda>s. w_ifs s i)"

definition get_drv :: "('h, driver) drv" where
  "get_drv = gets w_drv"

text \<open>Object creation: the next index of the store.\<close>

definition new_eq :: "nat \<Rightarrow> ('h, nat) drv" where
  "new_eq ifc = (\<lambda>s. (Inr (w_next_eq s),
     s\<lparr>w_eqs := (w_eqs s)(w_next_eq s := Eq_init ifc), w_next_eq := Suc (w_next_eq s)\<rparr>))"

definition new_cq :: "nat \<Rightarrow> ('h, nat) drv" where
  "new_cq ifc = (\<lambda>s. (Inr (w_next_cq s),
     s\<lparr>w_cqs := (w_cqs s)(w_next_cq s := Cq_init ifc), w_next_cq := Suc (w_next_cq s)\<rparr>))"

definition new_txq :: "nat \<Rightarrow> ('h, nat) drv" where
  "new_txq ifc = (\<lambda>s. (Inr (w_next_txq s),
     s\<lparr>w_txqs := (w_txqs s)(w_next_txq s := Txq_init ifc), w_next_txq := Suc (w_next_txq s)\<rparr>))"

definition new_rxq :: "nat \<Rightarrow> ('h, nat) drv" where
  "new_rxq ifc = (\<lambda>s. (Inr (w_next_rxq s),
     s\<lparr>w_rxqs := (w_rxqs s)(w_next_rxq s := Rxq_init ifc), w_next_rxq := Suc (w_next_rxq s)\<rparr>))"

definition new_if :: "int \<Rightarrow> window \<Rightarrow> int \<Rightarrow> ('h, nat) drv" where
  "new_if index hw_regs csr_offset = (\<lambda>s. (Inr (w_next_if s),
     s\<lparr>w_ifs := (w_ifs s)(w_next_if s := Interface_init index hw_regs csr_offset),
       w_next_if := Suc (w_next_if s)\<rparr>))"

lemmas access_defs [run_simps] =
  upd_eq_def upd_cq_def upd_txq_def upd_rxq_def upd_if_def upd_drv_def
  get_eq_def get_cq_def get_txq_def get_rxq_def get_if_def get_drv_def
  new_eq_def new_cq_def new_txq_def new_rxq_def new_if_def

text \<open>The four resources of an interface.\<close>

datatype res_kind = EqRes | CqRes | TxqRes | RxqRes

fun if_res :: "res_kind \<Rightarrow> iface \<Rightarrow> resource option" where
  "if_res EqRes i = ifc_eq_res i"
| "if_res CqRes i = ifc_cq_res i"
| "if_res TxqRes i = ifc_txq_res i"
| "if_res RxqRes i = ifc_rxq_res i"

fun set_res :: "res_kind \<Rightarrow> resource \<Rightarrow> iface \<Rightarrow> iface" where
  "set_res EqRes r i = i\<lparr>ifc_eq_res := Some r\<rparr>"
| "set_res CqRes r i = i\<lparr>ifc_cq_res := Some r\<rparr>"
| "set_res TxqRes r i = i\<lparr>ifc_txq_res := Some r\<rparr>"
| "set_res RxqRes r i = i\<lparr>ifc_rxq_res := Some r\<rparr>"

lemma if_res_set_res [simp]: "if_res k (set_res k' r i) = (if k = k' then Some r else if_res k i)"
  by (cases k; cases k') simp_all

text \<open>\<open>interface.xx_res.alloc()\<close>, \<open>.free(i)\<close>, \<open>.get_window(i)\<close>.\<close>

definition if_alloc :: "res_kind \<Rightarrow> nat \<Rightarrow> ('h, int) drv" where
  "if_alloc k i =
     bnd (get_if i) (\<lambda>ifc. bnd (attr (if_res k ifc)) (\<lambda>r.
     bnd (lift_res (res_alloc r)) (\<lambda>(n, r'). sq (upd_if i (set_res k r')) (ret n))))"

definition if_free :: "res_kind \<Rightarrow> nat \<Rightarrow> int \<Rightarrow> ('h, unit) drv" where
  "if_free k i n =
     bnd (get_if i) (\<lambda>ifc. bnd (attr (if_res k ifc)) (\<lambda>r. upd_if i (set_res k (res_free r n))))"

definition if_get_window :: "res_kind \<Rightarrow> nat \<Rightarrow> int \<Rightarrow> ('h, window) drv" where
  "if_get_window k i n =
     bnd (get_if i) (\<lambda>ifc. bnd (attr (if_res k ifc)) (\<lambda>r.
     (case res_get_window r n of (w, r') \<Rightarrow> sq (upd_if i (set_res k r')) (ret w))))"

end
