(* ===== verification/Packet_Pool.thy ===== *)
theory Packet_Pool
  imports World
begin

text \<open>
  \<open>Driver.alloc_pkt\<close> and \<open>Driver.free_pkt\<close>: packet buffers are regions of the host memory
  pool that are kept and reused. The contract a ring relies on is the locale \<open>buffer_pool\<close>:
  a buffer that is handed out is not held by anyone, and giving back a held buffer succeeds.
  The driver's two methods are its interpretation, with the buffers held outside the pool
  being those allocated and not in the free queue.
\<close>

section \<open>The methods\<close>

definition alloc_pkt :: "'h env \<Rightarrow> ('h, region) drv" where
  "alloc_pkt E =
     bnd get_drv (\<lambda>d.
       case drv_free_packets d of
         p # rest \<Rightarrow> sq (upd_drv (\<lambda>d. d\<lparr>drv_free_packets := rest\<rparr>)) (ret p)
       | [] \<Rightarrow>
           bnd (alloc_region E (drv_pkt_buf_size d)) (\<lambda>pkt.
           sq (upd_drv (\<lambda>d. d\<lparr>drv_allocated_packets := drv_allocated_packets d @ [pkt]\<rparr>))
           (ret pkt)))"

definition free_pkt :: "region option \<Rightarrow> ('h, unit) drv" where
  "free_pkt pkt =
     (case pkt of
        None \<Rightarrow> throw (AssertionError ''pkt is not None'')
      | Some p \<Rightarrow>
          bnd get_drv (\<lambda>d.
          sq (assertM (p \<in> set (drv_allocated_packets d)) ''pkt in self.allocated_packets'')
          (upd_drv (\<lambda>d. d\<lparr>drv_free_packets := drv_free_packets d @ [p]\<rparr>))))"

section \<open>The contract\<close>

locale buffer_pool =
  fixes alloc :: "('s, 'b) M"
    and free :: "'b option \<Rightarrow> ('s, unit) M"
    and held :: "'s \<Rightarrow> 'b set"
    and inv :: "'s \<Rightarrow> bool"
  assumes alloc_fresh: "inv s \<Longrightarrow> alloc s = (Inr b, s') \<Longrightarrow>
            b \<notin> held s \<and> held s' = insert b (held s) \<and> inv s'"
    and alloc_fail: "alloc s = (Inl e, s') \<Longrightarrow> s' = s"
    and free_held: "inv s \<Longrightarrow> b \<in> held s \<Longrightarrow>
            \<exists>s'. free (Some b) s = (Inr (), s') \<and> held s' = held s - {b} \<and> inv s'"
    and free_none: "\<exists>msg. free None s = (Inl (AssertionError msg), s)"
begin

text \<open>Every distinct held buffer of a list can be given back.\<close>

lemma free_all:
  "inv s \<Longrightarrow> distinct bs \<Longrightarrow> set bs \<subseteq> held s \<Longrightarrow>
   \<exists>s'. forM bs (\<lambda>b. free (Some b)) s = (Inr (), s') \<and> held s' = held s - set bs \<and> inv s'"
proof (induction bs arbitrary: s)
  case (Cons b bs)
  then obtain s1 where s1: "free (Some b) s = (Inr (), s1)" "held s1 = held s - {b}" "inv s1"
    using free_held [of s b] by auto
  with Cons.prems have "distinct bs" "set bs \<subseteq> held s1" by auto
  with Cons.IH s1 obtain s2 where "forM bs (\<lambda>b. free (Some b)) s1 = (Inr (), s2)"
      "held s2 = held s1 - set bs" "inv s2"
    by blast
  with s1 show ?case by (auto simp: run_sq)
qed simp

lemma alloc_then_free:
  assumes "inv s" and "alloc s = (Inr b, s')"
  shows "\<exists>s''. free (Some b) s' = (Inr (), s'') \<and> held s'' = held s \<and> inv s''"
proof -
  from alloc_fresh [OF assms] have s': "b \<notin> held s" "held s' = insert b (held s)" "inv s'" by auto
  with free_held [of s' b] show ?thesis by auto
qed

lemma alloc_keeps: "keeps inv alloc"
proof (rule keepsI)
  fix s assume "inv s"
  then show "inv (snd (alloc s))"
    using alloc_fresh [of s] alloc_fail [of s] by (cases "alloc s"; cases "fst (alloc s)") auto
qed

end

section \<open>The driver meets the contract\<close>

definition outstanding :: "'h world \<Rightarrow> region set" where
  "outstanding s = set (drv_allocated_packets (w_drv s)) - set (drv_free_packets (w_drv s))"

definition pool_inv :: "'h world \<Rightarrow> bool" where
  "pool_inv s \<longleftrightarrow>
     distinct (map rg_id (drv_allocated_packets (w_drv s))) \<and>
     (\<forall>p \<in> set (drv_allocated_packets (w_drv s)). rg_id p < w_next_region s) \<and>
     distinct (drv_free_packets (w_drv s)) \<and>
     set (drv_free_packets (w_drv s)) \<subseteq> set (drv_allocated_packets (w_drv s))"

lemma pool_inv_init: "pool_inv (init_world h)"
  by (simp add: pool_inv_def init_world_def Driver_init_def)

text \<open>The four ways \<open>alloc_pkt\<close> and \<open>free_pkt\<close> can go.\<close>

lemma alloc_pkt_reuse:
  "drv_free_packets (w_drv s) = p # rest \<Longrightarrow>
   alloc_pkt E s = (Inr p, s\<lparr>w_drv := (w_drv s)\<lparr>drv_free_packets := rest\<rparr>\<rparr>)"
  by (simp add: alloc_pkt_def run_simps)

lemma alloc_pkt_new:
  "drv_free_packets (w_drv s) = [] \<Longrightarrow> pool_alloc E (w_hw s) (drv_pkt_buf_size (w_drv s)) = Some (a, bs, h) \<Longrightarrow>
   alloc_pkt E s =
     (let p = \<lparr>rg_id = w_next_region s, rg_addr = a, rg_size = drv_pkt_buf_size (w_drv s)\<rparr> in
      (Inr p, s\<lparr>w_hw := h, w_mem := (w_mem s)(w_next_region s := bs),
        w_next_region := Suc (w_next_region s),
        w_drv := (w_drv s)\<lparr>drv_allocated_packets := drv_allocated_packets (w_drv s) @ [p]\<rparr>\<rparr>))"
  by (simp add: alloc_pkt_def run_simps alloc_region_def Let_def)

lemma alloc_pkt_fail:
  "drv_free_packets (w_drv s) = [] \<Longrightarrow> pool_alloc E (w_hw s) (drv_pkt_buf_size (w_drv s)) = None \<Longrightarrow>
   alloc_pkt E s = (Inl PoolError, s)"
  by (simp add: alloc_pkt_def run_simps alloc_region_def)

lemma free_pkt_Some:
  "p \<in> set (drv_allocated_packets (w_drv s)) \<Longrightarrow>
   free_pkt (Some p) s = (Inr (), s\<lparr>w_drv := (w_drv s)\<lparr>drv_free_packets := drv_free_packets (w_drv s) @ [p]\<rparr>\<rparr>)"
  by (simp add: free_pkt_def run_simps)

lemma alloc_pkt_cases:
  obtains (reuse) p rest where "drv_free_packets (w_drv s) = p # rest"
      "alloc_pkt E s = (Inr p, s\<lparr>w_drv := (w_drv s)\<lparr>drv_free_packets := rest\<rparr>\<rparr>)"
  | (fresh) a bs h p where "drv_free_packets (w_drv s) = []"
      "pool_alloc E (w_hw s) (drv_pkt_buf_size (w_drv s)) = Some (a, bs, h)"
      "p = \<lparr>rg_id = w_next_region s, rg_addr = a, rg_size = drv_pkt_buf_size (w_drv s)\<rparr>"
      "alloc_pkt E s = (Inr p, s\<lparr>w_hw := h, w_mem := (w_mem s)(w_next_region s := bs),
        w_next_region := Suc (w_next_region s),
        w_drv := (w_drv s)\<lparr>drv_allocated_packets := drv_allocated_packets (w_drv s) @ [p]\<rparr>\<rparr>)"
  | (fail) "alloc_pkt E s = (Inl PoolError, s)"
proof (cases "drv_free_packets (w_drv s)")
  case (Cons p rest)
  with that(1) show thesis by (simp add: alloc_pkt_reuse)
next
  case Nil
  show thesis
  proof (cases "pool_alloc E (w_hw s) (drv_pkt_buf_size (w_drv s))")
    case None
    with Nil that(3) show thesis by (simp add: alloc_pkt_fail)
  next
    case (Some x)
    obtain a bs h where "x = (a, bs, h)" by (cases x)
    with Some Nil that(2) show thesis by (simp add: alloc_pkt_new Let_def)
  qed
qed

interpretation pkt: buffer_pool "alloc_pkt E" free_pkt outstanding pool_inv for E :: "'h env"
proof unfold_locales
  fix s s' :: "'h world" and b
  assume inv: "pool_inv s" and a: "alloc_pkt E s = (Inr b, s')"
  show "b \<notin> outstanding s \<and> outstanding s' = insert b (outstanding s) \<and> pool_inv s'"
  proof (cases rule: alloc_pkt_cases [of s E])
    case (reuse p rest)
    with inv a show ?thesis by (auto simp: pool_inv_def outstanding_def)
  next
    case (fresh ad bs h p)
    with a have bp: "b = p" and s': "w_drv s' = (w_drv s)\<lparr>drv_allocated_packets := drv_allocated_packets (w_drv s) @ [p]\<rparr>"
        "w_next_region s' = Suc (w_next_region s)"
      by auto
    have id: "rg_id p = w_next_region s" using fresh(3) by simp
    with inv have "p \<notin> set (drv_allocated_packets (w_drv s))"
        "rg_id p \<notin> rg_id ` set (drv_allocated_packets (w_drv s))"
      by (auto simp: pool_inv_def)
    with inv bp s' id fresh(1) show ?thesis
      by (auto simp: pool_inv_def outstanding_def)
  next
    case fail
    with a show ?thesis by simp
  qed
next
  fix s s' :: "'h world" and e
  assume "alloc_pkt E s = (Inl e, s')"
  then show "s' = s" by (cases rule: alloc_pkt_cases [of s E]) auto
next
  fix s :: "'h world" and b
  assume "pool_inv s" "b \<in> outstanding s"
  then show "\<exists>s'. free_pkt (Some b) s = (Inr (), s') \<and> outstanding s' = outstanding s - {b} \<and> pool_inv s'"
    by (auto simp: pool_inv_def outstanding_def free_pkt_Some)
qed (simp add: free_pkt_def)

section \<open>What \<open>alloc_pkt\<close> leaves alone\<close>


lemma alloc_pkt_txqs:
  "alloc_pkt E (s\<lparr>w_txqs := f\<rparr>) = (case alloc_pkt E s of (r, s') \<Rightarrow> (r, s'\<lparr>w_txqs := f\<rparr>))"
  by (simp add: alloc_pkt_def run_simps alloc_region_def split: list.split option.split)

lemma alloc_pkt_rxqs:
  "alloc_pkt E (s\<lparr>w_rxqs := f\<rparr>) = (case alloc_pkt E s of (r, s') \<Rightarrow> (r, s'\<lparr>w_rxqs := f\<rparr>))"
  by (simp add: alloc_pkt_def run_simps alloc_region_def split: list.split option.split)

lemma alloc_pkt_frame:
  assumes a: "alloc_pkt E s = (Inr p, s')" and inv: "pool_inv s"
  shows "w_txqs s' = w_txqs s" "w_rxqs s' = w_rxqs s" "w_cqs s' = w_cqs s" "w_eqs s' = w_eqs s"
    "w_ifs s' = w_ifs s" "w_mmio s' = w_mmio s" "w_next_region s \<le> w_next_region s'"
    "set (drv_allocated_packets (w_drv s')) = insert p (set (drv_allocated_packets (w_drv s)))"
    "b < w_next_region s \<Longrightarrow> w_mem s' b = w_mem s b"
    "rg_id p < w_next_region s'"
    "p \<in> set (drv_allocated_packets (w_drv s)) \<or> rg_id p = w_next_region s"
proof -
  have "w_txqs s' = w_txqs s \<and> w_rxqs s' = w_rxqs s \<and> w_cqs s' = w_cqs s \<and> w_eqs s' = w_eqs s \<and>
    w_ifs s' = w_ifs s \<and> w_mmio s' = w_mmio s \<and> w_next_region s \<le> w_next_region s' \<and>
    set (drv_allocated_packets (w_drv s')) = insert p (set (drv_allocated_packets (w_drv s))) \<and>
    (b < w_next_region s \<longrightarrow> w_mem s' b = w_mem s b) \<and> rg_id p < w_next_region s' \<and>
    (p \<in> set (drv_allocated_packets (w_drv s)) \<or> rg_id p = w_next_region s)"
  proof (cases rule: alloc_pkt_cases [of s E])
    case (reuse q rest)
    with inv have q: "q \<in> set (drv_allocated_packets (w_drv s))" by (simp add: pool_inv_def)
    with inv have "rg_id q < w_next_region s" by (simp add: pool_inv_def)
    with q show ?thesis using a reuse by auto
  qed (use a in auto)
  then show "w_txqs s' = w_txqs s" "w_rxqs s' = w_rxqs s" "w_cqs s' = w_cqs s" "w_eqs s' = w_eqs s"
    "w_ifs s' = w_ifs s" "w_mmio s' = w_mmio s" "w_next_region s \<le> w_next_region s'"
    "set (drv_allocated_packets (w_drv s')) = insert p (set (drv_allocated_packets (w_drv s)))"
    "b < w_next_region s \<Longrightarrow> w_mem s' b = w_mem s b"
    "rg_id p < w_next_region s'"
    "p \<in> set (drv_allocated_packets (w_drv s)) \<or> rg_id p = w_next_region s"
    by blast+
qed

end
