(* ===== verification/Event_Queue.thy ===== *)
theory Event_Queue
  imports Packet_Pool
begin

text \<open>
  Class \<open>Eq\<close> of \<open>mqnic.py\<close> but for \<open>process_eq\<close> (theory \<open>Events\<close>): opening an event queue
  allocates its index and ring buffer and programs the queue manager; closing disables it and
  gives the index back. The hardware pointers are 16 bits wide, the driver's are unbounded;
  \<open>sync_ptr\<close> is the update that all queue classes use to follow a hardware pointer.
\<close>

section \<open>Following a 16-bit hardware pointer\<close>

text \<open>\<open>p += ((val & 0xFFFF) - p) & 0xFFFF\<close>.\<close>

definition sync_ptr :: "int \<Rightarrow> int \<Rightarrow> int" where
  "sync_ptr p v = p + ((v - p) AND 0xFFFF)"

lemma sync_ptr_mod: "sync_ptr p v mod 65536 = v mod 65536"
proof -
  have "(v - p) AND 0xFFFF = (v - p) mod 65536" using and_mask_mod [of "v - p" 16] by simp
  then show ?thesis by (simp add: sync_ptr_def mod_simps)
qed

lemma sync_ptr_bounds: "p \<le> sync_ptr p v" "sync_ptr p v < p + 65536"
proof -
  have "(v - p) AND 0xFFFF = (v - p) mod 65536" using and_mask_mod [of "v - p" 16] by simp
  then show "p \<le> sync_ptr p v" "sync_ptr p v < p + 65536" by (simp_all add: sync_ptr_def)
qed

text \<open>
  If the hardware pointer \<open>q\<close> is ahead of the driver's by less than \<open>2 ^ 16\<close>, its low
  16 bits are enough to recover it.
\<close>

lemma sync_ptr_exact:
  assumes "p \<le> q" "q < p + 65536"
  shows "sync_ptr p (q mod 65536) = q"
proof (rule mod_eq_close [of _ 65536])
  show "sync_ptr p (q mod 65536) mod 65536 = q mod 65536" by (simp add: sync_ptr_mod)
  show "\<bar>sync_ptr p (q mod 65536) - q\<bar> < 65536"
    using sync_ptr_bounds [of p "q mod 65536"] assms by linarith
qed

section \<open>The class\<close>

definition Eq_open :: "'h env \<Rightarrow> nat \<Rightarrow> int \<Rightarrow> int \<Rightarrow> ('h, unit) drv" where
  "Eq_open E self irq sz =
     bnd (get_eq self) (\<lambda>q.
     if eq_hw_regs q \<noteq> None then throw (Exn ''Already open'') else
     bnd (if_alloc EqRes (eq_interface q)) (\<lambda>eqn.
     sq (upd_eq self (\<lambda>q. q\<lparr>eq_eqn := Some eqn\<rparr>)) (
     if sz = 0 then throw TypeError else
     let log_size = bit_length sz - 1; size = 2 ^ nat log_size;
         buf_size = size * MQNIC_EVENT_SIZE in
     sq (upd_eq self (\<lambda>q. q\<lparr>eq_log_size := log_size, eq_size := size, eq_size_mask := size - 1,
           eq_stride := MQNIC_EVENT_SIZE, eq_buf_size := buf_size\<rparr>)) (
     bnd (alloc_region E buf_size) (\<lambda>rg.
     let dma = get_absolute_address rg 0; buf = rg_id rg in
     sq (seqm [
       upd_eq self (\<lambda>q. q\<lparr>eq_buf_region := Some rg, eq_buf_dma := dma, eq_buf := Some buf\<rparr>),
       mem_store buf 0 (replicate (nat buf_size) 0),
       upd_eq self (\<lambda>q. q\<lparr>eq_prod_ptr := 0, eq_cons_ptr := 0, eq_irq := Some irq,
         eq_cq_table := Map.empty\<rparr>)]) (
     bnd (if_get_window EqRes (eq_interface q) eqn) (\<lambda>w. seqm [
       upd_eq self (\<lambda>q. q\<lparr>eq_hw_regs := Some w\<rparr>),
       write_dword E w MQNIC_EQ_CTRL_STATUS_REG (MQNIC_EQ_CMD_SET_ENABLE OR 0),
       write_dword E w MQNIC_EQ_BASE_ADDR_VF_REG (dma AND 0xFFFFF000),
       write_dword E w (MQNIC_EQ_BASE_ADDR_VF_REG + 4) (drop_bit 32 dma),
       write_dword E w MQNIC_EQ_CTRL_STATUS_REG (MQNIC_EQ_CMD_SET_SIZE OR log_size),
       write_dword E w MQNIC_EQ_CTRL_STATUS_REG (MQNIC_EQ_CMD_SET_IRQN OR irq),
       write_dword E w MQNIC_EQ_CTRL_STATUS_REG (MQNIC_EQ_CMD_SET_PROD_PTR OR (0 AND MQNIC_EQ_PTR_MASK)),
       write_dword E w MQNIC_EQ_CTRL_STATUS_REG (MQNIC_EQ_CMD_SET_CONS_PTR OR (0 AND MQNIC_EQ_PTR_MASK)),
       write_dword E w MQNIC_EQ_CTRL_STATUS_REG (MQNIC_EQ_CMD_SET_ENABLE OR 1),
       upd_eq self (\<lambda>q. q\<lparr>eq_enabled := True\<rparr>)])))))))"

definition Eq_close :: "'h env \<Rightarrow> nat \<Rightarrow> ('h, unit) drv" where
  "Eq_close E self =
     bnd (get_eq self) (\<lambda>q.
     case eq_hw_regs q of
       None \<Rightarrow> ret ()
     | Some w \<Rightarrow>
         sq (write_dword E w MQNIC_EQ_CTRL_STATUS_REG (MQNIC_EQ_CMD_SET_ENABLE OR 0)) (
         sq (upd_eq self (\<lambda>q. q\<lparr>eq_irq := None, eq_enabled := False, eq_hw_regs := None\<rparr>)) (
         bnd (get_eq self) (\<lambda>q.
         bnd (attr (eq_eqn q)) (\<lambda>eqn.
         sq (if_free EqRes (eq_interface q) eqn)
         (upd_eq self (\<lambda>q. q\<lparr>eq_eqn := None\<rparr>)))))))"

text \<open>
  \<open>self.cq_table[cq.cqn] = cq\<close> and \<open>del self.cq_table[cq.cqn]\<close>. The first is called on a
  completion queue that has its number (\<open>Cq.open\<close>).
\<close>

definition Eq_attach_cq :: "nat \<Rightarrow> nat \<Rightarrow> ('h, unit) drv" where
  "Eq_attach_cq self cqi =
     bnd (get_cq cqi) (\<lambda>c.
     bnd (attr (cq_cqn c)) (\<lambda>cqn.
     upd_eq self (\<lambda>q. q\<lparr>eq_cq_table := (eq_cq_table q)(cqn \<mapsto> cqi)\<rparr>)))"

definition Eq_detach_cq :: "nat \<Rightarrow> nat \<Rightarrow> ('h, unit) drv" where
  "Eq_detach_cq self cqi =
     bnd (get_cq cqi) (\<lambda>c.
     bnd (get_eq self) (\<lambda>q.
     case cq_cqn c of
       None \<Rightarrow> throw KeyError
     | Some cqn \<Rightarrow>
         (if eq_cq_table q cqn = None then throw KeyError
          else upd_eq self (\<lambda>q. q\<lparr>eq_cq_table := (eq_cq_table q)(cqn := None)\<rparr>))))"

definition Eq_read_prod_ptr :: "'h env \<Rightarrow> nat \<Rightarrow> ('h, unit) drv" where
  "Eq_read_prod_ptr E self =
     bnd (get_eq self) (\<lambda>q.
     bnd (attr (eq_hw_regs q)) (\<lambda>w.
     bnd (read_dword E w MQNIC_EQ_PTR_REG) (\<lambda>val.
     upd_eq self (\<lambda>q. q\<lparr>eq_prod_ptr :=
       eq_prod_ptr q + (((val AND MQNIC_EQ_PTR_MASK) - eq_prod_ptr q) AND MQNIC_EQ_PTR_MASK)\<rparr>))))"

definition Eq_write_cons_ptr :: "'h env \<Rightarrow> nat \<Rightarrow> ('h, unit) drv" where
  "Eq_write_cons_ptr E self =
     bnd (get_eq self) (\<lambda>q.
     bnd (attr (eq_hw_regs q)) (\<lambda>w.
     write_dword E w MQNIC_EQ_CTRL_STATUS_REG
       (MQNIC_EQ_CMD_SET_CONS_PTR OR (eq_cons_ptr q AND MQNIC_EQ_PTR_MASK))))"

definition Eq_arm :: "'h env \<Rightarrow> nat \<Rightarrow> ('h, unit) drv" where
  "Eq_arm E self =
     bnd (get_eq self) (\<lambda>q.
     case eq_hw_regs q of
       None \<Rightarrow> ret ()
     | Some w \<Rightarrow> write_dword E w MQNIC_EQ_CTRL_STATUS_REG (MQNIC_EQ_CMD_SET_ARM OR 1))"

section \<open>Opening\<close>

text \<open>
  What opening a queue has to tell the queue manager, in this order: disable, the two halves of
  the ring's bus address, the logarithm of its size, where its notifications go, both pointers
  zero, enable. It is stated with numbers, not with the driver's constants.
\<close>

definition program_queue :: "window \<Rightarrow> int \<Rightarrow> int \<Rightarrow> int \<Rightarrow> mmio list" where
  "program_queue w dma log_size target =
     [WR w 8 0x40000100,
      WR w 0 (dma AND 0xFFFFF000),
      WR w 4 (dma div 2 ^ 32),
      WR w 8 (0x80020000 OR log_size),
      WR w 8 (0xC0000000 OR target),
      WR w 8 0x80800000,
      WR w 8 0x80900000,
      WR w 8 0x40000101]"

text \<open>A page-aligned bus address is what the two address words say.\<close>

lemma base_address_split:
  fixes a :: int
  assumes "0 \<le> a" "a mod 4096 = 0"
  shows "(a AND 0xFFFFF000) + 2 ^ 32 * (a div 2 ^ 32) = a"
proof -
  have "a AND 0xFFFFF000 = push_bit 12 (take_bit 20 (drop_bit 12 a))"
  proof (rule bit_eqI)
    fix n
    have "bit (0xFFFFF000 :: int) n \<longleftrightarrow> 12 \<le> n \<and> n < 32"
    proof -
      have "(0xFFFFF000 :: int) = push_bit 12 (mask 20)"
        by (simp add: push_bit_eq_mult mask_eq_exp_minus_1)
      then have "bit (0xFFFFF000 :: int) n \<longleftrightarrow> bit (push_bit 12 (mask 20 :: int)) n" by (rule arg_cong)
      also have "\<dots> \<longleftrightarrow> 12 \<le> n \<and> n < 32" by (auto simp: bit_push_bit_iff bit_mask_iff)
      finally show ?thesis .
    qed
    then show "bit (a AND 0xFFFFF000) n \<longleftrightarrow> bit (push_bit 12 (take_bit 20 (drop_bit 12 a))) n"
      by (auto simp: bit_and_iff bit_push_bit_iff bit_take_bit_iff bit_drop_bit_eq)
  qed
  also have "\<dots> = 4096 * ((a div 4096) mod 2 ^ 20)"
    by (simp add: push_bit_eq_mult take_bit_eq_mod drop_bit_eq_div)
  also have "\<dots> = a mod 2 ^ 32"
  proof -
    have "a = 4096 * (a div 4096)" using assms(2) by (simp add: mod_eq_0_iff_dvd)
    then have "a mod (4096 * 2 ^ 20) = 4096 * ((a div 4096) mod 2 ^ 20)"
      by (metis mult_mod_right)
    then show ?thesis by simp
  qed
  finally show ?thesis by simp
qed


lemma if_alloc_run:
  "if_res k (w_ifs s i) = Some r \<Longrightarrow> res_alloc r = Inr (n, r') \<Longrightarrow>
   if_alloc k i s = (Inr n, s\<lparr>w_ifs := (w_ifs s)(i := set_res k r' (w_ifs s i))\<rparr>)"
  by (simp add: if_alloc_def run_simps)

lemma if_get_window_run:
  "if_res k (w_ifs s i) = Some r \<Longrightarrow>
   if_get_window k i n s =
     (Inr (fst (res_get_window r n)),
      s\<lparr>w_ifs := (w_ifs s)(i := set_res k (snd (res_get_window r n)) (w_ifs s i))\<rparr>)"
  by (cases "res_get_window r n") (simp add: if_get_window_def run_simps)

lemma if_free_run:
  "if_res k (w_ifs s i) = Some r \<Longrightarrow>
   if_free k i n s = (Inr (), s\<lparr>w_ifs := (w_ifs s)(i := set_res k (res_free r n) (w_ifs s i))\<rparr>)"
  by (simp add: if_free_def run_simps)

lemma splice_all [simp]: "length bs = length buf \<Longrightarrow> splice buf 0 bs = bs"
  by (simp add: splice_def)

lemma Eq_open_run:
  assumes closed: "eq_hw_regs (w_eqs s self) = None"
    and i: "i = eq_interface (w_eqs s self)"
    and r: "ifc_eq_res (w_ifs s i) = Some r" "res_alloc r = Inr (n, r')"
    and sz: "0 < sz"
    and pool: "pool_alloc E (w_hw s) (2 ^ floor_log2 sz * 32) = Some (a, bs, h)"
      "length bs = 2 ^ floor_log2 sz * 32"
  shows "\<exists>s'. Eq_open E self irq sz s = (Inr (), s') \<and>
    w_mmio s' = w_mmio s @ program_queue (fst (res_get_window r' n)) a (int (floor_log2 sz)) irq \<and>
    (let q = w_eqs s' self in
       eq_size q = 2 ^ floor_log2 sz \<and> eq_size_mask q = eq_size q - 1 \<and> eq_stride q = 32 \<and>
       eq_eqn q = Some n \<and> eq_irq q = Some irq \<and> eq_enabled q \<and> eq_cq_table q = Map.empty \<and>
       eq_prod_ptr q = 0 \<and> eq_cons_ptr q = 0 \<and> eq_buf q = Some (w_next_region s) \<and>
       eq_hw_regs q = Some (fst (res_get_window r' n)))"
proof -
  have log: "bit_length sz - 1 = int (floor_log2 sz)" using sz by (intro bit_length_floor_log2) simp
  have ev: "MQNIC_EVENT_SIZE = 32" by (simp add: regs)
  have nat: "nat (2 ^ floor_log2 sz * 32) = 2 ^ floor_log2 sz * 32" by (simp add: nat_mult_distrib nat_power_eq)
  show ?thesis
    unfolding Eq_open_def
    using assms
    by (simp add: run_simps if_alloc_run if_get_window_run log ev alloc_region_def mem_store_def
        get_absolute_address_def nat program_queue_def Let_def drop_bit_eq_div regs)
qed

text \<open>The size is the largest power of two that is not above the request.\<close>

lemma eq_open_programs:
  assumes "eq_hw_regs (w_eqs s self) = None" "i = eq_interface (w_eqs s self)"
    and "ifc_eq_res (w_ifs s i) = Some r" "res_alloc r = Inr (n, r')" "0 < sz"
    and "pool_alloc E (w_hw s) (2 ^ floor_log2 sz * 32) = Some (a, bs, h)"
    and "length bs = 2 ^ floor_log2 sz * 32"
  shows "\<exists>s'. Eq_open E self irq sz s = (Inr (), s') \<and>
    w_mmio s' = w_mmio s @ program_queue (fst (res_get_window r' n)) a (int (floor_log2 sz)) irq \<and>
    eq_size (w_eqs s' self) \<le> sz \<and> sz < 2 * eq_size (w_eqs s' self) \<and>
    eq_irq (w_eqs s' self) = Some irq \<and> eq_cq_table (w_eqs s' self) = Map.empty \<and>
    eq_cons_ptr (w_eqs s' self) = 0"
proof -
  from Eq_open_run [OF assms] obtain s' where s': "Eq_open E self irq sz s = (Inr (), s')"
      "w_mmio s' = w_mmio s @ program_queue (fst (res_get_window r' n)) a (int (floor_log2 sz)) irq"
      "eq_size (w_eqs s' self) = 2 ^ floor_log2 sz" "eq_irq (w_eqs s' self) = Some irq"
      "eq_cq_table (w_eqs s' self) = Map.empty" "eq_cons_ptr (w_eqs s' self) = 0"
    unfolding Let_def by blast
  with floor_log2_bounds [OF assms(5)] show ?thesis by (intro exI [of _ s']) simp
qed

end
