(* ===== verification/Cpl_Queue.thy ===== *)
theory Cpl_Queue
  imports Event_Queue
begin

text \<open>
  Class \<open>Cq\<close> of \<open>mqnic.py\<close>: a completion queue is opened like an event queue and attached to
  one. The last section is the contract by which the driver finds out, without reading a
  register, which entries of a completion or event ring are new: the phase bit of the entry
  differs from the lap parity of the consumer pointer (locale \<open>lap_scan\<close>).
\<close>

section \<open>The class\<close>

definition Cq_open :: "'h env \<Rightarrow> nat \<Rightarrow> nat \<Rightarrow> int \<Rightarrow> ('h, unit) drv" where
  "Cq_open E self eqi sz =
     bnd (get_cq self) (\<lambda>q.
     if cq_hw_regs q \<noteq> None then throw (Exn ''Already open'') else
     bnd (if_alloc CqRes (cq_interface q)) (\<lambda>cqn.
     sq (upd_cq self (\<lambda>q. q\<lparr>cq_cqn := Some cqn\<rparr>)) (
     if sz = 0 then throw TypeError else
     let log_size = bit_length sz - 1; size = 2 ^ nat log_size;
         buf_size = size * MQNIC_EVENT_SIZE in
     sq (upd_cq self (\<lambda>q. q\<lparr>cq_log_size := log_size, cq_size := size, cq_size_mask := size - 1,
           cq_stride := MQNIC_EVENT_SIZE, cq_buf_size := buf_size\<rparr>)) (
     bnd (alloc_region E buf_size) (\<lambda>rg.
     let dma = get_absolute_address rg 0; buf = rg_id rg in
     sq (seqm [
       upd_cq self (\<lambda>q. q\<lparr>cq_buf_region := Some rg, cq_buf_dma := dma, cq_buf := Some buf\<rparr>),
       mem_store buf 0 (replicate (nat buf_size) 0),
       upd_cq self (\<lambda>q. q\<lparr>cq_prod_ptr := 0, cq_cons_ptr := 0\<rparr>),
       Eq_attach_cq eqi self,
       upd_cq self (\<lambda>q. q\<lparr>cq_eq := Some eqi\<rparr>)]) (
     bnd (if_get_window CqRes (cq_interface q) cqn) (\<lambda>w.
     sq (seqm [
       upd_cq self (\<lambda>q. q\<lparr>cq_hw_regs := Some w\<rparr>),
       write_dword E w MQNIC_CQ_CTRL_STATUS_REG (MQNIC_CQ_CMD_SET_ENABLE OR 0),
       write_dword E w MQNIC_CQ_BASE_ADDR_VF_REG (dma AND 0xFFFFF000),
       write_dword E w (MQNIC_CQ_BASE_ADDR_VF_REG + 4) (drop_bit 32 dma),
       write_dword E w MQNIC_CQ_CTRL_STATUS_REG (MQNIC_CQ_CMD_SET_SIZE OR log_size)]) (
     bnd (get_eq eqi) (\<lambda>e.
     bnd (case eq_eqn e of None \<Rightarrow> throw TypeError | Some n \<Rightarrow> ret n) (\<lambda>eqn. seqm [
       write_dword E w MQNIC_CQ_CTRL_STATUS_REG (MQNIC_CQ_CMD_SET_EQN OR eqn),
       write_dword E w MQNIC_CQ_CTRL_STATUS_REG (MQNIC_CQ_CMD_SET_PROD_PTR OR (0 AND MQNIC_CQ_PTR_MASK)),
       write_dword E w MQNIC_CQ_CTRL_STATUS_REG (MQNIC_CQ_CMD_SET_CONS_PTR OR (0 AND MQNIC_CQ_PTR_MASK)),
       write_dword E w MQNIC_CQ_CTRL_STATUS_REG (MQNIC_CQ_CMD_SET_ENABLE OR 1),
       upd_cq self (\<lambda>q. q\<lparr>cq_enabled := True\<rparr>)]))))))))))"

definition Cq_close :: "'h env \<Rightarrow> nat \<Rightarrow> ('h, unit) drv" where
  "Cq_close E self =
     bnd (get_cq self) (\<lambda>q.
     case cq_hw_regs q of
       None \<Rightarrow> ret ()
     | Some w \<Rightarrow>
         sq (write_dword E w MQNIC_CQ_CTRL_STATUS_REG (MQNIC_CQ_CMD_SET_ENABLE OR 0)) (
         bnd (attr (cq_eq q)) (\<lambda>e.
         sq (Eq_detach_cq e self) (
         sq (upd_cq self (\<lambda>q. q\<lparr>cq_eq := None, cq_enabled := False, cq_hw_regs := None\<rparr>)) (
         bnd (get_cq self) (\<lambda>q.
         bnd (attr (cq_cqn q)) (\<lambda>cqn.
         sq (if_free CqRes (cq_interface q) cqn)
         (upd_cq self (\<lambda>q. q\<lparr>cq_cqn := None\<rparr>)))))))))"

definition Cq_read_prod_ptr :: "'h env \<Rightarrow> nat \<Rightarrow> ('h, unit) drv" where
  "Cq_read_prod_ptr E self =
     bnd (get_cq self) (\<lambda>q.
     bnd (attr (cq_hw_regs q)) (\<lambda>w.
     bnd (read_dword E w MQNIC_CQ_PTR_REG) (\<lambda>val.
     upd_cq self (\<lambda>q. q\<lparr>cq_prod_ptr :=
       cq_prod_ptr q + (((val AND MQNIC_CQ_PTR_MASK) - cq_prod_ptr q) AND MQNIC_CQ_PTR_MASK)\<rparr>))))"

definition Cq_write_cons_ptr :: "'h env \<Rightarrow> nat \<Rightarrow> ('h, unit) drv" where
  "Cq_write_cons_ptr E self =
     bnd (get_cq self) (\<lambda>q.
     bnd (attr (cq_hw_regs q)) (\<lambda>w.
     write_dword E w MQNIC_CQ_CTRL_STATUS_REG
       (MQNIC_CQ_CMD_SET_CONS_PTR OR (cq_cons_ptr q AND MQNIC_CQ_PTR_MASK))))"

definition Cq_arm :: "'h env \<Rightarrow> nat \<Rightarrow> ('h, unit) drv" where
  "Cq_arm E self =
     bnd (get_cq self) (\<lambda>q.
     case cq_hw_regs q of
       None \<Rightarrow> ret ()
     | Some w \<Rightarrow> write_dword E w MQNIC_CQ_CTRL_STATUS_REG (MQNIC_CQ_CMD_SET_ARM OR 1))"

section \<open>Opening\<close>

lemma Eq_attach_cq_run:
  "cq_cqn (w_cqs s c) = Some n \<Longrightarrow>
   Eq_attach_cq e c s = (Inr (), s\<lparr>w_eqs := (w_eqs s)(e := (w_eqs s e)
     \<lparr>eq_cq_table := (eq_cq_table (w_eqs s e))(n \<mapsto> c)\<rparr>)\<rparr>)"
  by (simp add: Eq_attach_cq_def run_simps)

lemma Cq_open_run:
  assumes closed: "cq_hw_regs (w_cqs s self) = None"
    and i: "i = cq_interface (w_cqs s self)"
    and r: "ifc_cq_res (w_ifs s i) = Some r" "res_alloc r = Inr (n, r')"
    and sz: "0 < sz"
    and e: "eq_eqn (w_eqs s e) = Some eqn"
    and pool: "pool_alloc E (w_hw s) (2 ^ floor_log2 sz * 32) = Some (a, bs, h)"
      "length bs = 2 ^ floor_log2 sz * 32"
  shows "\<exists>s'. Cq_open E self e sz s = (Inr (), s') \<and>
    w_mmio s' = w_mmio s @ program_queue (fst (res_get_window r' n)) a (int (floor_log2 sz)) eqn \<and>
    eq_cq_table (w_eqs s' e) n = Some self \<and>
    (let q = w_cqs s' self in
       cq_size q = 2 ^ floor_log2 sz \<and> cq_size_mask q = cq_size q - 1 \<and> cq_stride q = 32 \<and>
       cq_cqn q = Some n \<and> cq_eq q = Some e \<and> cq_enabled q \<and>
       cq_prod_ptr q = 0 \<and> cq_cons_ptr q = 0 \<and> cq_buf q = Some (w_next_region s) \<and>
       cq_hw_regs q = Some (fst (res_get_window r' n)))"
proof -
  have log: "bit_length sz - 1 = int (floor_log2 sz)" using sz by (intro bit_length_floor_log2) simp
  have ev: "MQNIC_EVENT_SIZE = 32" by (simp add: regs)
  have nat: "nat (2 ^ floor_log2 sz * 32) = 2 ^ floor_log2 sz * 32" by (simp add: nat_mult_distrib nat_power_eq)
  show ?thesis
    unfolding Cq_open_def
    using assms
    by (simp add: run_simps if_alloc_run if_get_window_run log ev alloc_region_def mem_store_def
        get_absolute_address_def nat program_queue_def Let_def drop_bit_eq_div Eq_attach_cq_run regs)
qed

section \<open>Which entries of a ring are new\<close>

text \<open>
  \<open>new c\<close> says that the slot of pointer \<open>c\<close> holds an entry that the consumer at \<open>c\<close> takes.
  One lap of \<open>N\<close> slots further the same slot is looked at with the opposite parity, so an
  unchanging ring never has more than \<open>N\<close> new entries in a row.
\<close>

locale lap_scan =
  fixes new :: "int \<Rightarrow> bool" and N :: int
  assumes lap_pos: "0 < N"
    and lap_flip: "new c \<Longrightarrow> \<not> new (c + N)"
begin

lemma stops_within_lap: "\<exists>k. int k \<le> N \<and> \<not> new (c + int k)"
proof (cases "new c")
  case True
  then have "\<not> new (c + int (nat N))" using lap_flip lap_pos by simp
  then show ?thesis using lap_pos by (intro exI [of _ "nat N"]) simp
next
  case False
  then show ?thesis using lap_pos by (intro exI [of _ 0]) simp
qed

text \<open>The number of entries the consumer takes.\<close>

definition run_length :: "int \<Rightarrow> nat" where
  "run_length c = (LEAST k. \<not> new (c + int k))"

lemma run_length_stop: "\<not> new (c + int (run_length c))"
  unfolding run_length_def
proof (rule LeastI_ex)
  show "\<exists>k. \<not> new (c + int k)" using stops_within_lap by blast
qed

lemma run_length_new: "k < run_length c \<Longrightarrow> new (c + int k)"
  unfolding run_length_def using not_less_Least by blast

lemma run_length_le: "int (run_length c) \<le> N"
proof -
  from stops_within_lap [of c] obtain k where "int k \<le> N" "\<not> new (c + int k)" by blast
  then have "run_length c \<le> k" unfolding run_length_def by (intro Least_le)
  with \<open>int k \<le> N\<close> show ?thesis by linarith
qed

lemma run_length_0: "\<not> new c \<Longrightarrow> run_length c = 0"
  using run_length_new [of 0 c] by (cases "run_length c = 0") simp_all

lemma run_length_Suc: "new c \<Longrightarrow> run_length c = Suc (run_length (c + 1))"
proof -
  assume n: "new c"
  have "run_length c \<noteq> 0"
  proof
    assume "run_length c = 0"
    with run_length_stop [of c] n show False by simp
  qed
  then obtain m where m: "run_length c = Suc m" by (cases "run_length c") auto
  have "\<not> new (c + 1 + int m)" using run_length_stop [of c] m by (simp add: algebra_simps)
  then have "run_length (c + 1) \<le> m" unfolding run_length_def by (intro Least_le)
  moreover have "m \<le> run_length (c + 1)"
  proof (rule ccontr)
    assume "\<not> m \<le> run_length (c + 1)"
    then have "new (c + int (Suc (run_length (c + 1))))" using m by (intro run_length_new) simp
    moreover have "c + int (Suc (run_length (c + 1))) = c + 1 + int (run_length (c + 1))" by simp
    ultimately show False using run_length_stop [of "c + 1"] by (simp only: simp_thms)
  qed
  ultimately show ?thesis using m by simp
qed

text \<open>
  If the producer has written exactly the entries from the consumer's pointer up to its own,
  the consumer takes exactly these.
\<close>

lemma run_length_produced:
  assumes "c \<le> p" and "\<And>x. c \<le> x \<Longrightarrow> x < p \<Longrightarrow> new x" and "\<not> new p"
  shows "c + int (run_length c) = p"
proof -
  have "run_length c \<le> nat (p - c)" unfolding run_length_def using assms by (intro Least_le) simp
  moreover have "\<not> c + int (run_length c) < p"
    using assms(2) [of "c + int (run_length c)"] run_length_stop [of c] by auto
  ultimately show ?thesis using assms(1) by linarith
qed

end

text \<open>
  An entry of 32 bytes whose last dword (at byte 28) carries the phase in its top bit.
\<close>

definition entry_phase :: "byte list \<Rightarrow> int \<Rightarrow> bool" where
  "entry_phase buf i = (le_val (take 4 (drop (nat (i * 32 + 28)) buf)) AND 0x80000000 \<noteq> 0)"

definition entry_new :: "byte list \<Rightarrow> nat \<Rightarrow> int \<Rightarrow> bool" where
  "entry_new buf k c \<longleftrightarrow> entry_phase buf (c mod 2 ^ k) \<noteq> odd (c div 2 ^ k)"

interpretation ring: lap_scan "entry_new buf k" "2 ^ k" for buf k
proof unfold_locales
  fix c
  assume "entry_new buf k c"
  then show "\<not> entry_new buf k (c + 2 ^ k)"
    using phase_next_lap [of c k] by (simp add: entry_new_def)
qed simp

text \<open>
  The NIC's side of the contract: the entry produced at pointer \<open>x\<close> carries the phase of
  \<open>x\<close>'s lap; \<open>produced buf k lo p\<close> says that the ring's slots of the lap that starts at the
  consumer pointer \<open>lo\<close> hold the entries below \<open>p\<close> and, from \<open>p\<close> on, those of the lap before.
\<close>

definition produced :: "byte list \<Rightarrow> nat \<Rightarrow> int \<Rightarrow> int \<Rightarrow> bool" where
  "produced buf k lo p \<longleftrightarrow> lo \<le> p \<and> p \<le> lo + 2 ^ k \<and>
     (\<forall>x. lo \<le> x \<and> x < p \<longrightarrow> entry_phase buf (x mod 2 ^ k) = even (x div 2 ^ k)) \<and>
     (\<forall>x. p \<le> x \<and> x < lo + 2 ^ k \<longrightarrow> entry_phase buf (x mod 2 ^ k) = odd (x div 2 ^ k))"

lemma produced_run_length:
  assumes "produced buf k lo p"
  shows "lo + int (ring.run_length buf k lo) = p"
proof (rule ring.run_length_produced)
  show "lo \<le> p" using assms by (simp add: produced_def)
  show "entry_new buf k x" if "lo \<le> x" "x < p" for x
    using assms that by (simp add: produced_def entry_new_def)
  show "\<not> entry_new buf k p"
  proof (cases "p = lo + 2 ^ k")
    case True
    have "entry_new buf k lo"
      using assms True by (simp add: produced_def entry_new_def)
    then show ?thesis using True ring.lap_flip by simp
  next
    case False
    then show ?thesis using assms by (simp add: produced_def entry_new_def)
  qed
qed

end
