(* ===== verification/Ring.thy ===== *)
theory Ring
  imports Cpl_Queue
begin

text \<open>
  What the transmit and the receive ring share. Both keep a table with one slot per ring
  entry (\<open>tx_info\<close>, \<open>rx_info\<close>), a producer and a consumer pointer that never wrap, and use
  \<open>pointer & size_mask\<close> as the slot of a pointer. \<open>slots_ok\<close> is the invariant of such a
  table; \<open>reclaim_ptr\<close> is the loop with which both move the consumer pointer over released
  slots. The second part is the ownership invariant of all packet buffers that are in rings:
  no buffer is in two slots and none is in the pool's free queue.
\<close>

section \<open>The table of a ring\<close>

definition slot_of :: "nat \<Rightarrow> int \<Rightarrow> nat" where
  "slot_of k p = nat (p mod 2 ^ k)"

definition slots_ok :: "nat \<Rightarrow> int \<Rightarrow> int \<Rightarrow> 'a option list \<Rightarrow> bool" where
  "slots_ok k pp cp info \<longleftrightarrow>
     length info = 2 ^ k \<and> cp \<le> pp \<and> pp \<le> cp + 2 ^ k \<and>
     (\<forall>i < 2 ^ k. info ! i \<noteq> None \<longrightarrow> (\<exists>p. cp \<le> p \<and> p < pp \<and> slot_of k p = i))"

lemma slot_of_less [simp]: "slot_of k p < 2 ^ k"
  by (simp add: slot_of_def nat_less_iff)

lemma int_slot_of: "int (slot_of k p) = p mod 2 ^ k"
  by (simp add: slot_of_def)

lemma slot_of_eq: "slot_of k p = slot_of k q \<Longrightarrow> \<bar>p - q\<bar> < 2 ^ k \<Longrightarrow> p = q"
  by (metis int_slot_of mod_eq_close)

lemma slot_of_lap [simp]: "slot_of k (p + 2 ^ k) = slot_of k p"
  by (simp add: slot_of_def)

lemma slots_ok_window:
  "slots_ok k pp cp info \<Longrightarrow> i < 2 ^ k \<Longrightarrow> info ! i \<noteq> None \<Longrightarrow>
   \<exists>p. cp \<le> p \<and> p < pp \<and> slot_of k p = i"
  unfolding slots_ok_def by blast

lemma slots_ok_init: "slots_ok k 0 0 (replicate (2 ^ k) None)"
  by (simp add: slots_ok_def)

lemma slots_ok_free:
  assumes "slots_ok k pp cp info" and "pp < cp + 2 ^ k"
  shows "info ! slot_of k pp = None"
proof (rule ccontr)
  assume "info ! slot_of k pp \<noteq> None"
  with slots_ok_window [OF assms(1) slot_of_less] obtain p
    where p: "cp \<le> p" "p < pp" "slot_of k p = slot_of k pp"
    by blast
  with assms(2) have "p = pp" by (intro slot_of_eq) auto
  with p show False by simp
qed

lemma slots_ok_put:
  assumes ok: "slots_ok k pp cp info" and room: "pp < cp + 2 ^ k"
  shows "slots_ok k (pp + 1) cp (info[slot_of k pp := v])"
proof -
  have "\<exists>p. cp \<le> p \<and> p < pp + 1 \<and> slot_of k p = i"
    if "i < 2 ^ k" "info[slot_of k pp := v] ! i \<noteq> None" for i
  proof (cases "i = slot_of k pp")
    case True
    with ok show ?thesis by (intro exI [of _ pp]) (simp add: slots_ok_def)
  next
    case False
    with that slots_ok_window [OF ok] obtain p where "cp \<le> p" "p < pp" "slot_of k p = i"
      by fastforce
    then show ?thesis by (intro exI [of _ p]) simp
  qed
  with ok room show ?thesis by (auto simp: slots_ok_def)
qed

lemma slots_ok_clear:
  assumes ok: "slots_ok k pp cp info"
  shows "slots_ok k pp cp (info[i := None])"
proof -
  have "info ! j \<noteq> None" if "j < 2 ^ k" "info[i := None] ! j \<noteq> None" for j
    using that ok by (cases "j = i") (simp_all add: slots_ok_def)
  with ok slots_ok_window [OF ok] show ?thesis
    unfolding slots_ok_def by (metis length_list_update)
qed

lemma slots_ok_advance:
  assumes ok: "slots_ok k pp cp info" and "cp < pp" and "info ! slot_of k cp = None"
  shows "slots_ok k pp (cp + 1) info"
proof -
  have "\<exists>p. cp + 1 \<le> p \<and> p < pp \<and> slot_of k p = i" if "i < 2 ^ k" "info ! i \<noteq> None" for i
  proof -
    from slots_ok_window [OF ok that] obtain p where p: "cp \<le> p" "p < pp" "slot_of k p = i"
      by blast
    with assms(3) that(2) have "p \<noteq> cp" by auto
    with p show ?thesis by (intro exI [of _ p]) simp
  qed
  with ok assms(2) show ?thesis by (auto simp: slots_ok_def)
qed

section \<open>Reclaiming released slots\<close>

text \<open>
  \<open>while c != pp: if info[c & mask]: break; c += 1\<close>, with the number of iterations bounded
  by the fuel; \<open>None\<close> when the loop is still running.
\<close>

fun reclaim_ptr :: "nat \<Rightarrow> int \<Rightarrow> int \<Rightarrow> 'a option list \<Rightarrow> int \<Rightarrow> exn + int" where
  "reclaim_ptr fuel msk pp info c =
     (if c = pp then Inr c else
      case fuel of 0 \<Rightarrow> Inl NoFuel | Suc n \<Rightarrow>
      (case py_nth info (c AND msk) of
         Inl e \<Rightarrow> Inl e
       | Inr (Some x) \<Rightarrow> Inr c
       | Inr None \<Rightarrow> reclaim_ptr n msk pp info (c + 1)))"

declare reclaim_ptr.simps [simp del]

lemma py_nth_slot: "length info = 2 ^ k \<Longrightarrow> py_nth info (c AND (2 ^ k - 1)) = Inr (info ! slot_of k c)"
  by (simp add: and_mask_mod slot_of_def)

text \<open>
  With a table in order and fuel for the ring's outstanding entries the loop ends at the
  oldest entry that is still occupied, or at the producer pointer.
\<close>

lemma reclaim_ptr_spec:
  assumes "slots_ok k pp cp info" and "pp \<le> cp + int fuel"
  shows "\<exists>c. reclaim_ptr fuel (2 ^ k - 1) pp info cp = Inr c \<and>
    slots_ok k pp c info \<and> cp \<le> c \<and>
    (\<forall>p. cp \<le> p \<and> p < c \<longrightarrow> info ! slot_of k p = None) \<and>
    (c = pp \<or> c < pp \<and> info ! slot_of k c \<noteq> None)"
  using assms
proof (induction fuel arbitrary: cp)
  case 0
  then have "cp = pp" by (simp add: slots_ok_def)
  with 0 show ?case by (intro exI [of _ cp]) (auto simp: reclaim_ptr.simps)
next
  case (Suc n)
  show ?case
  proof (cases "cp = pp \<or> info ! slot_of k cp \<noteq> None")
    case True
    with Suc.prems have "reclaim_ptr (Suc n) (2 ^ k - 1) pp info cp = Inr cp"
      by (subst reclaim_ptr.simps) (auto simp: slots_ok_def py_nth_slot simp del: py_nth_in)
    with True Suc.prems show ?thesis
      by (intro exI [of _ cp]) (auto simp: slots_ok_def)
  next
    case False
    with Suc.prems have lt: "cp < pp" and none: "info ! slot_of k cp = None"
        and len: "length info = 2 ^ k"
      by (auto simp: slots_ok_def)
    with Suc.prems have "slots_ok k pp (cp + 1) info" by (intro slots_ok_advance)
    with Suc.IH [of "cp + 1"] Suc.prems obtain c where c:
        "reclaim_ptr n (2 ^ k - 1) pp info (cp + 1) = Inr c" "slots_ok k pp c info"
        "cp + 1 \<le> c" "\<forall>p. cp + 1 \<le> p \<and> p < c \<longrightarrow> info ! slot_of k p = None"
        "c = pp \<or> c < pp \<and> info ! slot_of k c \<noteq> None"
      by auto
    have "reclaim_ptr (Suc n) (2 ^ k - 1) pp info cp = Inr c"
      using lt none len c(1) by (subst reclaim_ptr.simps) (simp add: py_nth_slot del: py_nth_in)
    moreover have "info ! slot_of k p = None" if "cp \<le> p" "p < c" for p
      using that none c(4) by (cases "p = cp") auto
    ultimately show ?thesis using c by (intro exI [of _ c]) simp
  qed
qed

section \<open>Who owns a packet buffer\<close>

fun ring_info :: "'h world \<Rightarrow> ring_ref \<Rightarrow> region option list" where
  "ring_info s (TxRing i) = txq_tx_info (w_txqs s i)"
| "ring_info s (RxRing i) = rxq_rx_info (w_rxqs s i)"

definition slot :: "'h world \<Rightarrow> ring_ref \<Rightarrow> nat \<Rightarrow> region option" where
  "slot s r n = (if n < length (ring_info s r) then ring_info s r ! n else None)"

definition bufs_inv :: "'h world \<Rightarrow> bool" where
  "bufs_inv s \<longleftrightarrow> pool_inv s \<and>
     (\<forall>r n p. slot s r n = Some p \<longrightarrow> p \<in> outstanding s) \<and>
     (\<forall>r n r' n' p. slot s r n = Some p \<and> slot s r' n' = Some p \<longrightarrow> r = r' \<and> n = n')"

lemma bufs_inv_unique:
  "bufs_inv s \<Longrightarrow> slot s r n = Some p \<Longrightarrow> slot s r' n' = Some p \<Longrightarrow> r = r' \<and> n = n'"
  unfolding bufs_inv_def by blast

lemma bufs_inv_outstanding: "bufs_inv s \<Longrightarrow> slot s r n = Some p \<Longrightarrow> p \<in> outstanding s"
  unfolding bufs_inv_def by blast

lemma bufs_inv_pool: "bufs_inv s \<Longrightarrow> pool_inv s"
  by (simp add: bufs_inv_def)

lemma bufs_inv_init: "bufs_inv (init_world h)"
proof -
  have "ring_info (init_world h) r = []" for r
    by (cases r) (simp_all add: init_world_def Txq_init_def Rxq_init_def)
  then show ?thesis by (simp add: bufs_inv_def slot_def pool_inv_init)
qed

lemma bufs_inv_cong:
  assumes "bufs_inv s" "w_drv s' = w_drv s" "w_next_region s \<le> w_next_region s'"
    "\<And>r n. slot s' r n = slot s r n"
  shows "bufs_inv s'"
  using assms by (auto simp: bufs_inv_def pool_inv_def outstanding_def intro: less_le_trans)

text \<open>The three moves of a buffer: out of the pool into a slot, out of a slot, and into the pool.\<close>

lemma bufs_inv_fill:
  assumes inv: "bufs_inv s" and pool: "pool_inv s'"
    and fresh: "p \<notin> outstanding s" and out: "outstanding s' = insert p (outstanding s)"
    and slots: "\<And>r' n'. slot s' r' n' = (if r' = r \<and> n' = n then Some p else slot s r' n')"
  shows "bufs_inv s'"
proof -
  have no: "slot s r' n' \<noteq> Some p" for r' n'
    using bufs_inv_outstanding [OF inv] fresh by blast
  have "r1 = r2 \<and> n1 = n2" if "slot s' r1 n1 = Some q" "slot s' r2 n2 = Some q" for r1 n1 r2 n2 q
  proof (cases "q = p")
    case True
    with that no show ?thesis unfolding slots by (auto split: if_splits)
  next
    case False
    with that have "slot s r1 n1 = Some q" "slot s r2 n2 = Some q"
      unfolding slots by (auto split: if_splits)
    with inv show ?thesis by (rule bufs_inv_unique)
  qed
  moreover have "q \<in> outstanding s'" if "slot s' r1 n1 = Some q" for r1 n1 q
    using that bufs_inv_outstanding [OF inv] unfolding slots out by (auto split: if_splits)
  ultimately show ?thesis using pool unfolding bufs_inv_def by blast
qed

lemma bufs_inv_release:
  assumes inv: "bufs_inv s" and pool: "pool_inv s'"
    and held: "slot s r n = Some p" and out: "outstanding s' = outstanding s - {p}"
    and slots: "\<And>r' n'. slot s' r' n' = (if r' = r \<and> n' = n then None else slot s r' n')"
  shows "bufs_inv s'"
proof -
  have old: "slot s r1 n1 = Some q \<and> \<not> (r1 = r \<and> n1 = n)" if "slot s' r1 n1 = Some q" for r1 n1 q
    using that unfolding slots by (metis option.distinct(1))
  have "q \<in> outstanding s'" if "slot s' r1 n1 = Some q" for r1 n1 q
    using old [OF that] bufs_inv_outstanding [OF inv] bufs_inv_unique [OF inv held]
    unfolding out by (metis DiffI singletonD)
  moreover have "r1 = r2 \<and> n1 = n2" if "slot s' r1 n1 = Some q" "slot s' r2 n2 = Some q"
    for r1 n1 r2 n2 q
    using old that bufs_inv_unique [OF inv] by blast
  ultimately show ?thesis using pool unfolding bufs_inv_def by blast
qed

end
