(* ===== verification/Tx_Queue.thy ===== *)
theory Tx_Queue
  imports Ring
begin

text \<open>
  Class \<open>Txq\<close> of \<open>mqnic.py\<close>: opening and closing a transmit queue, posting a packet
  (\<open>tx_transmit\<close>: buffer, descriptor block, doorbells), processing its completions and
  releasing it. \<open>Txq_post\<close> is \<open>tx_transmit\<close> up to its first \<open>await\<close>, which no other
  coroutine can interrupt; the doorbells follow. The last sections prove what a posted
  descriptor block says, that the completion loop ends and takes exactly the new entries, and
  the ring's invariant.
\<close>

section \<open>Opening and closing\<close>

text \<open>
  \<open>size = 0\<close> makes \<open>2 ** -1\<close> a float and \<open>self.size >> 1\<close> a \<open>TypeError\<close>, and so does
  \<open>desc_block_size = 0\<close> when the region is allocated; \<open>tx_info\<close> is one slot per entry.
\<close>

definition Txq_open :: "'h env \<Rightarrow> nat \<Rightarrow> nat \<Rightarrow> int \<Rightarrow> int \<Rightarrow> ('h, unit) drv" where
  "Txq_open E self cqi sz dbs =
     bnd (get_txq self) (\<lambda>q.
     if txq_hw_regs q \<noteq> None then throw (Exn ''Already open'') else
     bnd (if_alloc TxqRes (txq_interface q)) (\<lambda>index.
     sq (upd_txq self (\<lambda>q. q\<lparr>txq_index := Some index\<rparr>)) (
     if sz = 0 \<or> dbs = 0 then throw TypeError else
     let log_queue_size = bit_length sz - 1; log_desc_block_size = bit_length dbs - 1;
         desc_block_size = 2 ^ nat log_desc_block_size; size = 2 ^ nat log_queue_size;
         stride = MQNIC_DESC_SIZE * desc_block_size; buf_size = size * stride in
     sq (upd_txq self (\<lambda>q. q\<lparr>txq_log_queue_size := log_queue_size,
           txq_log_desc_block_size := log_desc_block_size,
           txq_desc_block_size := desc_block_size, txq_size := size, txq_size_mask := size - 1,
           txq_full_size := drop_bit 1 size, txq_stride := stride,
           txq_tx_info := replicate (nat size) None, txq_buf_size := buf_size\<rparr>)) (
     bnd (alloc_region E buf_size) (\<lambda>rg.
     let dma = get_absolute_address rg 0 in
     sq (seqm [
       upd_txq self (\<lambda>q. q\<lparr>txq_buf_region := Some rg, txq_buf_dma := dma,
         txq_buf := Some (rg_id rg), txq_prod_ptr := 0, txq_cons_ptr := 0, txq_cq := Some cqi\<rparr>),
       upd_cq cqi (\<lambda>c. c\<lparr>cq_src_ring := Some (TxRing self), cq_handler := Some ProcessTxCq\<rparr>)]) (
     bnd (if_get_window TxqRes (txq_interface q) index) (\<lambda>w.
     sq (seqm [
       upd_txq self (\<lambda>q. q\<lparr>txq_hw_regs := Some w\<rparr>),
       write_dword E w MQNIC_QUEUE_CTRL_STATUS_REG (MQNIC_QUEUE_CMD_SET_ENABLE OR 0),
       write_dword E w MQNIC_QUEUE_BASE_ADDR_VF_REG (dma AND 0xFFFFF000),
       write_dword E w (MQNIC_QUEUE_BASE_ADDR_VF_REG + 4) (drop_bit 32 dma),
       write_dword E w MQNIC_QUEUE_CTRL_STATUS_REG
         (MQNIC_QUEUE_CMD_SET_SIZE OR push_bit 8 log_desc_block_size OR log_queue_size)]) (
     bnd (get_cq cqi) (\<lambda>c.
     bnd (case cq_cqn c of None \<Rightarrow> throw TypeError | Some n \<Rightarrow> ret n) (\<lambda>cqn. seqm [
       write_dword E w MQNIC_QUEUE_CTRL_STATUS_REG (MQNIC_QUEUE_CMD_SET_CQN OR cqn),
       write_dword E w MQNIC_QUEUE_CTRL_STATUS_REG
         (MQNIC_QUEUE_CMD_SET_PROD_PTR OR (0 AND MQNIC_QUEUE_PTR_MASK)),
       write_dword E w MQNIC_QUEUE_CTRL_STATUS_REG
         (MQNIC_QUEUE_CMD_SET_CONS_PTR OR (0 AND MQNIC_QUEUE_PTR_MASK))]))))))))))"

definition Txq_enable :: "'h env \<Rightarrow> nat \<Rightarrow> ('h, unit) drv" where
  "Txq_enable E self =
     bnd (get_txq self) (\<lambda>q.
     case txq_hw_regs q of
       None \<Rightarrow> throw (Exn ''Not open'')
     | Some w \<Rightarrow> seqm [
         write_dword E w MQNIC_QUEUE_CTRL_STATUS_REG (MQNIC_QUEUE_CMD_SET_ENABLE OR 1),
         upd_txq self (\<lambda>q. q\<lparr>txq_enabled := True\<rparr>)])"

definition Txq_disable :: "'h env \<Rightarrow> nat \<Rightarrow> ('h, unit) drv" where
  "Txq_disable E self =
     bnd (get_txq self) (\<lambda>q.
     case txq_hw_regs q of
       None \<Rightarrow> ret ()
     | Some w \<Rightarrow> seqm [
         write_dword E w MQNIC_QUEUE_CTRL_STATUS_REG (MQNIC_QUEUE_CMD_SET_ENABLE OR 0),
         upd_txq self (\<lambda>q. q\<lparr>txq_enabled := False\<rparr>)])"

definition Txq_close :: "'h env \<Rightarrow> nat \<Rightarrow> ('h, unit) drv" where
  "Txq_close E self =
     bnd (get_txq self) (\<lambda>q.
     if txq_hw_regs q = None then ret () else
     sq (Txq_disable E self) (
     sq (case txq_cq q of
           None \<Rightarrow> ret ()
         | Some c \<Rightarrow> upd_cq c (\<lambda>c. c\<lparr>cq_src_ring := None, cq_handler := None\<rparr>)) (
     sq (upd_txq self (\<lambda>q. q\<lparr>txq_cq := None, txq_hw_regs := None\<rparr>)) (
     bnd (attr (txq_index q)) (\<lambda>index.
     sq (if_free TxqRes (txq_interface q) index)
     (upd_txq self (\<lambda>q. q\<lparr>txq_index := None\<rparr>)))))))"

section \<open>Posting a packet\<close>

definition Txq_empty :: "txq \<Rightarrow> bool" where
  "Txq_empty q \<longleftrightarrow> txq_prod_ptr q = txq_cons_ptr q"

definition Txq_full :: "txq \<Rightarrow> bool" where
  "Txq_full q \<longleftrightarrow> txq_prod_ptr q - txq_cons_ptr q \<ge> txq_full_size q"

definition Txq_read_cons_ptr :: "'h env \<Rightarrow> nat \<Rightarrow> ('h, unit) drv" where
  "Txq_read_cons_ptr E self =
     bnd (get_txq self) (\<lambda>q.
     bnd (attr (txq_hw_regs q)) (\<lambda>w.
     bnd (read_dword E w MQNIC_QUEUE_PTR_REG) (\<lambda>val.
     upd_txq self (\<lambda>q. q\<lparr>txq_cons_ptr :=
       txq_cons_ptr q + ((drop_bit 16 val - txq_cons_ptr q) AND MQNIC_QUEUE_PTR_MASK)\<rparr>))))"

definition Txq_write_prod_ptr :: "'h env \<Rightarrow> nat \<Rightarrow> int \<Rightarrow> int \<Rightarrow> ('h, unit) drv" where
  "Txq_write_prod_ptr E self rank wqe =
     bnd (get_txq self) (\<lambda>q.
     bnd (attr (txq_hw_regs q)) (\<lambda>w. seqm [
       write_dword E w MQNIC_QUEUE_CTRL_STATUS_REG
         (MQNIC_QUEUE_CMD_SET_PROD_PTR OR (txq_prod_ptr q AND MQNIC_QUEUE_PTR_MASK)),
       write_dword E w MQNIC_QUEUE_RANK_WQE (push_bit 3 rank OR wqe)]))"

text \<open>The copy of the driver under \<open>tb/mqnic_core_pcie_us_change\<close> has the two the other way round.\<close>

definition Txq_write_prod_ptr_change :: "'h env \<Rightarrow> nat \<Rightarrow> int \<Rightarrow> int \<Rightarrow> ('h, unit) drv" where
  "Txq_write_prod_ptr_change E self rank wqe =
     bnd (get_txq self) (\<lambda>q.
     bnd (attr (txq_hw_regs q)) (\<lambda>w. seqm [
       write_dword E w MQNIC_QUEUE_RANK_WQE (push_bit 3 rank OR wqe),
       write_dword E w MQNIC_QUEUE_CTRL_STATUS_REG
         (MQNIC_QUEUE_CMD_SET_PROD_PTR OR (txq_prod_ptr q AND MQNIC_QUEUE_PTR_MASK))]))"

text \<open>\<open>struct\<close> on \<open>None\<close> as the buffer raises \<open>TypeError\<close>.\<close>

definition the_buf :: "nat option \<Rightarrow> ('h, nat) drv" where
  "the_buf b = (case b of None \<Rightarrow> throw TypeError | Some b \<Rightarrow> ret b)"

text \<open>
  The loop over the descriptors \<open>ks\<close> of a block; \<open>offset\<close> is what has been described so far.
  \<open>tx_transmit\<close> runs it after the head with the format \<open>"<4xLQ"\<close>, \<open>Rxq.prepare_desc\<close> on
  the whole block with \<open>"<LLQ"\<close> and a leading zero.
\<close>

primrec desc_loop ::
    "fld list \<Rightarrow> int list \<Rightarrow> int \<Rightarrow> nat \<Rightarrow> int \<Rightarrow> int \<Rightarrow> int \<Rightarrow> int \<Rightarrow> int list \<Rightarrow> ('h, unit) drv" where
  "desc_loop fmt pre dbs b base ptr len offset [] = ret ()"
| "desc_loop fmt pre dbs b base ptr len offset (k # ks) =
     (let seg = if k < dbs - 1 then min (len - offset) 4096 else len - offset in
      sq (mem_pack fmt b (base + k * MQNIC_DESC_SIZE)
           (pre @ [seg, if seg \<noteq> 0 then ptr + offset else 0]))
      (desc_loop fmt pre dbs b base ptr len (offset + seg) ks))"

definition Txq_post :: "'h env \<Rightarrow> nat \<Rightarrow> byte list \<Rightarrow> int \<Rightarrow> ('h, unit) drv" where
  "Txq_post E self data csum_cmd =
     bnd (get_txq self) (\<lambda>q.
     let index = txq_prod_ptr q AND txq_size_mask q in
     sq (upd_txq self (\<lambda>q. q\<lparr>txq_packets := txq_packets q + 1,
           txq_bytes := txq_bytes q + int (length data)\<rparr>)) (
     bnd (alloc_pkt E) (\<lambda>pkt.
     bnd (lift_res (py_nth (txq_tx_info q) index)) (\<lambda>occupied.
     sq (assertM (occupied = None) ''not self.tx_info[index]'') (
     bnd (lift_res (py_upd (txq_tx_info q) index (Some pkt))) (\<lambda>info.
     sq (upd_txq self (\<lambda>q. q\<lparr>txq_tx_info := info\<rparr>)) (
     sq (mem_store (rg_id pkt) 10 data) (
     bnd (the_buf (txq_buf q)) (\<lambda>b.
     let len = int (length data); ptr = get_absolute_address pkt 0 + 10;
         seg = if txq_desc_block_size q > 1 then min len 42 else len in
     sq (mem_pack [FH, FH, FL, FQ] b (index * txq_stride q)
           [0, csum_cmd, seg, if seg \<noteq> 0 then ptr else 0]) (
     sq (desc_loop [FX 4, FL, FQ] [] (txq_desc_block_size q) b (index * txq_stride q) ptr len seg
           (map int [1..<nat (txq_desc_block_size q)]))
     (upd_txq self (\<lambda>q. q\<lparr>txq_prod_ptr := txq_prod_ptr q + 1\<rparr>))))))))))))"

definition Txq_tx_transmit :: "'h env \<Rightarrow> nat \<Rightarrow> byte list \<Rightarrow> int \<Rightarrow> int \<Rightarrow> ('h, unit) drv" where
  "Txq_tx_transmit E self data rank csum_cmd =
     sq (Txq_post E self data csum_cmd) (Txq_write_prod_ptr E self rank 1)"

section \<open>Releasing and completing\<close>

definition Txq_free_desc :: "nat \<Rightarrow> int \<Rightarrow> ('h, unit) drv" where
  "Txq_free_desc self index =
     bnd (get_txq self) (\<lambda>q.
     bnd (lift_res (py_nth (txq_tx_info q) index)) (\<lambda>pkt.
     sq (free_pkt pkt) (
     bnd (lift_res (py_upd (txq_tx_info q) index None)) (\<lambda>info.
     upd_txq self (\<lambda>q. q\<lparr>txq_tx_info := info\<rparr>)))))"

primrec txq_free_buf_loop :: "nat \<Rightarrow> nat \<Rightarrow> ('h, unit) drv" where
  "txq_free_buf_loop 0 self = bnd (get_txq self) (\<lambda>q. if Txq_empty q then ret () else throw NoFuel)"
| "txq_free_buf_loop (Suc n) self =
     bnd (get_txq self) (\<lambda>q.
     if Txq_empty q then ret () else
     sq (Txq_free_desc self (txq_cons_ptr q AND txq_size_mask q)) (
     sq (upd_txq self (\<lambda>q. q\<lparr>txq_cons_ptr := txq_cons_ptr q + 1\<rparr>))
     (txq_free_buf_loop n self)))"

definition Txq_free_buf :: "nat \<Rightarrow> ('h, unit) drv" where
  "Txq_free_buf self =
     bnd (get_txq self) (\<lambda>q. txq_free_buf_loop (nat (txq_prod_ptr q - txq_cons_ptr q)) self)"

text \<open>
  \<open>cq.src_ring\<close> used as a \<open>Txq\<close>: on \<open>None\<close>, or on an object that is no \<open>Txq\<close>, the
  attribute accesses that follow fail.
\<close>

definition src_txq :: "ring_ref option \<Rightarrow> ('h, nat) drv" where
  "src_txq r = (case r of Some (TxRing i) \<Rightarrow> ret i | _ \<Rightarrow> throw AttributeError)"

text \<open>The fields of \<open>"<HHHxxLHHLBBHLL"\<close>.\<close>

definition cpl_fmt :: "fld list" where
  "cpl_fmt = [FH, FH, FH, FX 2, FL, FH, FH, FL, FB, FB, FH, FL, FL]"

primrec tx_cpl_loop :: "nat \<Rightarrow> nat \<Rightarrow> nat \<Rightarrow> int \<Rightarrow> ('h, int) drv" where
  "tx_cpl_loop 0 cqi r c = throw NoFuel"
| "tx_cpl_loop (Suc n) cqi r c =
     bnd (get_cq cqi) (\<lambda>cq.
     bnd (get_txq r) (\<lambda>ring.
     bnd (the_buf (cq_buf cq)) (\<lambda>b.
     bnd (mem_unpack cpl_fmt b ((c AND cq_size_mask cq) * cq_stride cq)) (\<lambda>cpl_data.
     let ring_index = cpl_data ! 1 AND txq_size_mask ring in
     if (last cpl_data AND 0x80000000 \<noteq> 0) = (c AND cq_size cq \<noteq> 0) then ret c
     else sq (Txq_free_desc r ring_index) (tx_cpl_loop n cqi r (c + 1))))))"

text \<open>The part headed \<open>process ring\<close>: move the consumer pointer on and wake up waiting senders.\<close>

definition Txq_reclaim :: "nat \<Rightarrow> ('h, unit) drv" where
  "Txq_reclaim r =
     bnd (get_txq r) (\<lambda>ring.
     bnd (lift_res (reclaim_ptr (nat (txq_prod_ptr ring - txq_cons_ptr ring)) (txq_size_mask ring)
       (txq_prod_ptr ring) (txq_tx_info ring) (txq_cons_ptr ring))) (\<lambda>rc.
     seqm [
       upd_txq r (\<lambda>q. q\<lparr>txq_cons_ptr := rc\<rparr>),
       upd_txq r (\<lambda>q. q\<lparr>txq_clean_event := True\<rparr>)]))"

definition Txq_process_tx_cq :: "'h env \<Rightarrow> nat \<Rightarrow> ('h, unit) drv" where
  "Txq_process_tx_cq E cqi =
     bnd (get_cq cqi) (\<lambda>cq.
     bnd (get_if (cq_interface cq)) (\<lambda>ifc.
     bnd (src_txq (cq_src_ring cq)) (\<lambda>r.
     if \<not> ifc_port_up ifc then ret () else
     bnd (tx_cpl_loop (Suc (nat (cq_size cq))) cqi r (cq_cons_ptr cq)) (\<lambda>c.
     sq (upd_cq cqi (\<lambda>q. q\<lparr>cq_cons_ptr := c\<rparr>)) (
     sq (Cq_write_cons_ptr E cqi) (Txq_reclaim r))))))"

section \<open>What a descriptor block says\<close>

text \<open>
  The piece of the packet that each descriptor of a block describes, as (offset, length): the
  head takes at most 42 bytes when there are others, those in between at most a page, the last
  one takes the rest.
\<close>

primrec rest_segs :: "int \<Rightarrow> int \<Rightarrow> int \<Rightarrow> int list \<Rightarrow> (int \<times> int) list" where
  "rest_segs dbs len off [] = []"
| "rest_segs dbs len off (k # ks) =
     (let seg = if k < dbs - 1 then min (len - off) 4096 else len - off in
      (off, seg) # rest_segs dbs len (off + seg) ks)"

definition head_seg :: "int \<Rightarrow> int \<Rightarrow> int" where
  "head_seg dbs len = (if dbs > 1 then min len 42 else len)"

definition tx_segs :: "int \<Rightarrow> int \<Rightarrow> (int \<times> int) list" where
  "tx_segs dbs len = (0, head_seg dbs len) # rest_segs dbs len (head_seg dbs len) (map int [1..<nat dbs])"

definition read_segs :: "'a list \<Rightarrow> (int \<times> int) list \<Rightarrow> 'a list" where
  "read_segs data segs = concat (map (\<lambda>(off, n). take (nat n) (drop (nat off) data)) segs)"

lemma read_segs_simps [simp]:
  "read_segs data [] = []"
  "read_segs data ((off, n) # segs) = take (nat n) (drop (nat off) data) @ read_segs data segs"
  by (simp_all add: read_segs_def)

lemma length_rest_segs [simp]: "length (rest_segs dbs len off ks) = length ks"
  by (induction ks arbitrary: off) (simp_all add: Let_def)

lemma length_tx_segs [simp]: "0 < dbs \<Longrightarrow> length (tx_segs dbs len) = nat dbs"
  by (simp add: tx_segs_def)

lemma rest_segs_bounds:
  "0 \<le> off \<Longrightarrow> off \<le> len \<Longrightarrow> (o', n) \<in> set (rest_segs dbs len off ks) \<Longrightarrow>
   off \<le> o' \<and> 0 \<le> n \<and> o' + n \<le> len"
proof (induction ks arbitrary: off)
  case (Cons k ks)
  let ?seg = "if k < dbs - 1 then min (len - off) 4096 else len - off"
  have seg: "0 \<le> ?seg" "off + ?seg \<le> len" using Cons.prems(2) by auto
  from Cons.prems(3) consider "(o', n) = (off, ?seg)" | "(o', n) \<in> set (rest_segs dbs len (off + ?seg) ks)"
    by (auto simp: Let_def)
  then show ?case
  proof cases
    case 1
    with seg show ?thesis by simp
  next
    case 2
    from Cons.IH [OF _ seg(2) 2] Cons.prems(1) seg(1) show ?thesis by linarith
  qed
qed simp

lemma read_rest_segs:
  assumes "j < n" and "0 \<le> off" and "off \<le> int (length data)"
  shows "read_segs data (rest_segs (int n) (int (length data)) off (map int [j..<n])) =
         drop (nat off) data"
  using assms
proof (induction "n - j" arbitrary: j off)
  case (Suc m)
  let ?len = "int (length data)"
  let ?seg = "if int j < int n - 1 then min (?len - off) 4096 else ?len - off"
  have upt: "[j..<n] = j # [Suc j..<n]" using Suc.prems(1) by (rule upt_conv_Cons)
  have seg: "0 \<le> ?seg" "off + ?seg \<le> ?len" using Suc.prems(3) by auto
  have split: "take (nat ?seg) (drop (nat off) data) @ drop (nat (off + ?seg)) data = drop (nat off) data"
  proof -
    have "nat (off + ?seg) = nat ?seg + nat off" using seg(1) Suc.prems(2) by (subst nat_add_distrib) auto
    then have "drop (nat (off + ?seg)) data = drop (nat ?seg) (drop (nat off) data)"
      by (simp only: drop_drop)
    then show ?thesis by (simp only: append_take_drop_id)
  qed
  show ?case
  proof (cases "Suc j < n")
    case True
    have "m = n - Suc j" using Suc.hyps(2) by simp
    from Suc.hyps(1) [OF this True _ seg(2)] Suc.prems(2) seg(1)
    have "read_segs data (rest_segs (int n) ?len (off + ?seg) (map int [Suc j..<n])) = drop (nat (off + ?seg)) data"
      by simp
    with split show ?thesis by (simp add: upt Let_def del: min_diff)
  next
    case False
    with Suc.prems(1) have "n = Suc j" by simp
    with Suc.prems show ?thesis by (simp add: upt Let_def nat_diff_distrib)
  qed
qed simp

lemma read_tx_segs: "0 < n \<Longrightarrow> read_segs data (tx_segs (int n) (int (length data))) = data"
proof (cases "n = 1")
  case False
  assume "0 < n"
  with False have n: "1 < n" by simp
  let ?len = "int (length data)"
  have h: "0 \<le> head_seg (int n) ?len" "head_seg (int n) ?len \<le> ?len" by (auto simp: head_seg_def)
  from read_rest_segs [OF n h] show ?thesis by (simp add: tx_segs_def)
qed (simp add: tx_segs_def head_seg_def)

lemma tx_segs_bounds:
  assumes "0 \<le> len" "(off, n) \<in> set (tx_segs dbs len)"
  shows "0 \<le> off \<and> 0 \<le> n \<and> off + n \<le> len"
proof -
  have h: "0 \<le> head_seg dbs len" "head_seg dbs len \<le> len" using assms(1) by (auto simp: head_seg_def)
  with rest_segs_bounds [OF h] assms(2) show ?thesis by (fastforce simp: tx_segs_def)
qed

text \<open>
  What the NIC finds at a descriptor: length and bus address. Heads and other descriptors
  have these two in the same place.
\<close>

definition desc_words :: "int \<Rightarrow> (int \<times> int) \<Rightarrow> int list" where
  "desc_words ptr seg = (case seg of (off, n) \<Rightarrow> [n, if n \<noteq> 0 then ptr + off else 0])"

definition read_desc :: "byte list \<Rightarrow> int \<Rightarrow> exn + int list" where
  "read_desc buf pos = unpack_from [FX 4, FL, FQ] buf pos"

lemma pack_head_desc:
  assumes "0 \<le> pos" "pos + 16 \<le> int (length buf)" "0 \<le> n" "n < 2 ^ 32" "0 \<le> a" "a < 2 ^ 64"
    "0 \<le> c" "c < 2 ^ 16"
  shows "\<exists>buf'. pack_into [FH, FH, FL, FQ] buf pos [0, c, n, a] = Inr buf' \<and>
    read_desc buf' pos = Inr [n, a]"
proof -
  have "\<exists>buf'. pack_into [FH, FH, FL, FQ] buf pos [0, c, n, a] = Inr buf'"
    using assms by (simp add: pack_into_def)
  then obtain buf' where b: "pack_into [FH, FH, FL, FQ] buf pos [0, c, n, a] = Inr buf'" by blast
  have "unpack [FX 4, FL, FQ] bs = drop 2 (unpack [FH, FH, FL, FQ] bs)" for bs by simp
  then have "read_desc buf' pos = (case unpack_from [FH, FH, FL, FQ] buf' pos of
      Inl e \<Rightarrow> Inl e | Inr vs \<Rightarrow> Inr (drop 2 vs))"
    by (simp add: read_desc_def unpack_from_def del: unpack.simps)
  with b unpack_from_pack_into [OF b] show ?thesis by simp
qed

text \<open>The two formats of the loop: 16 bytes, with length and address where the NIC reads them.\<close>

definition desc_fmts :: "(fld list \<times> int list) set" where
  "desc_fmts = {([FX 4, FL, FQ], []), ([FL, FL, FQ], [0])}"

lemma pack_desc:
  assumes "(fmt, pre) \<in> desc_fmts"
    and "0 \<le> pos" "pos + 16 \<le> int (length buf)" "0 \<le> n" "n < 2 ^ 32" "0 \<le> a" "a < 2 ^ 64"
  shows "\<exists>buf'. pack_into fmt buf pos (pre @ [n, a]) = Inr buf' \<and> read_desc buf' pos = Inr [n, a]"
proof -
  have "\<exists>buf'. pack_into fmt buf pos (pre @ [n, a]) = Inr buf'"
    using assms by (auto simp: pack_into_def desc_fmts_def)
  then obtain buf' where b: "pack_into fmt buf pos (pre @ [n, a]) = Inr buf'" by blast
  have "read_desc buf' pos = (case unpack_from fmt buf' pos of
      Inl e \<Rightarrow> Inl e | Inr vs \<Rightarrow> Inr (drop (length pre) vs))"
    using assms(1) by (auto simp: read_desc_def unpack_from_def desc_fmts_def)
  with unpack_from_pack_into [OF b] b show ?thesis by simp
qed

lemma desc_fmts_size: "(fmt, pre) \<in> desc_fmts \<Longrightarrow> calcsize fmt = 16"
  by (auto simp: desc_fmts_def)

lemma desc_loop_run:
  assumes fmt: "(fmt, pre) \<in> desc_fmts"
    and "j \<le> n" "0 \<le> base" "base + 16 * int n \<le> int (length (w_mem s b))"
    "0 \<le> off" "off \<le> len" "len < 2 ^ 32" "0 \<le> ptr" "ptr + len < 2 ^ 64"
  shows "\<exists>buf'. desc_loop fmt pre (int n) b base ptr len off (map int [j..<n]) s =
      (Inr (), s\<lparr>w_mem := (w_mem s)(b := buf')\<rparr>) \<and> length buf' = length (w_mem s b) \<and>
    (\<forall>pos. 0 \<le> pos \<and> (pos + 16 \<le> base + 16 * int j \<or> base + 16 * int n \<le> pos) \<longrightarrow>
       read_desc buf' pos = read_desc (w_mem s b) pos) \<and>
    map (\<lambda>i. read_desc buf' (base + 16 * int i)) [j..<n] =
      map (\<lambda>sg. Inr (desc_words ptr sg)) (rest_segs (int n) len off (map int [j..<n]))"
  using assms(2-)
proof (induction "n - j" arbitrary: j off s)
  case 0
  then have "j = n" by simp
  then show ?case by (intro exI [of _ "w_mem s b"]) simp
next
  case (Suc m)
  let ?seg = "if int j < int n - 1 then min (len - off) 4096 else len - off"
  let ?a = "if ?seg \<noteq> 0 then ptr + off else 0"
  have j: "j < n" "m = n - Suc j" "Suc j \<le> n" using Suc.hyps(2) by auto
  have upt: "[j..<n] = j # [Suc j..<n]" using j(1) by (rule upt_conv_Cons)
  have seg: "0 \<le> ?seg" "off + ?seg \<le> len" using Suc.prems by auto
  have pos: "0 \<le> base + int j * 16" "base + int j * 16 + 16 \<le> int (length (w_mem s b))"
    using Suc.prems j(1) by auto
  have a: "0 \<le> ?a" "?a < 2 ^ 64" using Suc.prems seg by auto
  have n32: "?seg < 2 ^ 32" using seg Suc.prems by linarith
  from pack_desc [OF fmt pos seg(1) n32 a] obtain b1
    where b1: "pack_into fmt (w_mem s b) (base + int j * 16) (pre @ [?seg, ?a]) = Inr b1"
      "read_desc b1 (base + int j * 16) = Inr [?seg, ?a]" by blast
  then have len1: "length b1 = length (w_mem s b)" by (intro length_pack_into)
  let ?s1 = "s\<lparr>w_mem := (w_mem s)(b := b1)\<rparr>"
  have "base + 16 * int n \<le> int (length (w_mem ?s1 b))" using Suc.prems(3) len1 by simp
  from Suc.hyps(1) [OF j(2) j(3) Suc.prems(2) this _ seg(2) Suc.prems(6-8)] Suc.prems(4) seg(1)
  obtain buf' where r: "desc_loop fmt pre (int n) b base ptr len (off + ?seg) (map int [Suc j..<n]) ?s1 =
      (Inr (), ?s1\<lparr>w_mem := (w_mem ?s1)(b := buf')\<rparr>)" "length buf' = length b1"
    "\<forall>pos. 0 \<le> pos \<and> (pos + 16 \<le> base + 16 * int (Suc j) \<or> base + 16 * int n \<le> pos) \<longrightarrow>
       read_desc buf' pos = read_desc b1 pos"
    "map (\<lambda>i. read_desc buf' (base + 16 * int i)) [Suc j..<n] =
      map (\<lambda>sg. Inr (desc_words ptr sg)) (rest_segs (int n) len (off + ?seg) (map int [Suc j..<n]))"
    by auto
  have run: "desc_loop fmt pre (int n) b base ptr len off (map int [j..<n]) s =
      (Inr (), s\<lparr>w_mem := (w_mem s)(b := buf')\<rparr>)"
    using b1(1) r(1) by (simp add: upt Let_def run_sq mem_pack_def MQNIC_DESC_SIZE_def del: min_diff)
  have here: "read_desc buf' (base + 16 * int j) = Inr [?seg, ?a]"
    using r(3) [rule_format, of "base + 16 * int j"] b1(2) pos
    by (simp add: mult.commute)
  have other: "read_desc buf' pos = read_desc (w_mem s b) pos"
    if p: "0 \<le> pos" "pos + 16 \<le> base + 16 * int j \<or> base + 16 * int n \<le> pos" for pos
  proof -
    have "read_desc buf' pos = read_desc b1 pos" using r(3) p by auto
    also have "\<dots> = read_desc (w_mem s b) pos"
      unfolding read_desc_def
      using p j(1) desc_fmts_size [OF fmt] by (intro unpack_from_pack_into_other [OF b1(1)]) auto
    finally show ?thesis .
  qed
  have "map (\<lambda>i. read_desc buf' (base + 16 * int i)) [j..<n] =
      map (\<lambda>sg. Inr (desc_words ptr sg)) (rest_segs (int n) len off (map int [j..<n]))"
    using here r(4) by (simp add: upt Let_def desc_words_def del: min_diff)
  with run other r(2) len1 show ?case by (intro exI [of _ buf']) simp
qed

section \<open>The ring's invariant and the effect of posting\<close>

text \<open>
  An open transmit ring of \<open>2 ^ k\<close> blocks of \<open>n\<close> descriptors whose memory is region \<open>b\<close>: the
  derived attributes agree, the memory has the right size and is no packet buffer, and the
  table's occupied slots belong to posted packets.
\<close>

definition txq_ring :: "nat \<Rightarrow> nat \<Rightarrow> nat \<Rightarrow> nat \<Rightarrow> 'h world \<Rightarrow> bool" where
  "txq_ring i k n b s \<longleftrightarrow> (let q = w_txqs s i in
     0 < n \<and> txq_size q = 2 ^ k \<and> txq_size_mask q = 2 ^ k - 1 \<and> txq_full_size q = 2 ^ k div 2 \<and>
     txq_desc_block_size q = int n \<and> txq_stride q = 16 * int n \<and> txq_buf q = Some b \<and>
     b < w_next_region s \<and> b \<notin> rg_id ` set (drv_allocated_packets (w_drv s)) \<and>
     int (length (w_mem s b)) = 2 ^ k * (16 * int n) \<and>
     slots_ok k (txq_prod_ptr q) (txq_cons_ptr q) (txq_tx_info q))"

lemma txq_ring_room:
  assumes "txq_ring i k n b s" and "\<not> Txq_full (w_txqs s i)"
  shows "txq_prod_ptr (w_txqs s i) < txq_cons_ptr (w_txqs s i) + 2 ^ k"
proof -
  have "(0 :: int) < 2 ^ k" by simp
  then have "(2 ^ k :: int) div 2 \<le> 2 ^ k" by linarith
  with assms show ?thesis unfolding txq_ring_def Txq_full_def Let_def by linarith
qed

text \<open>The position of the descriptor block of a pointer.\<close>

definition block_pos :: "nat \<Rightarrow> nat \<Rightarrow> int \<Rightarrow> int" where
  "block_pos k n p = int (slot_of k p) * (16 * int n)"

lemma block_pos_fits:
  "block_pos k n p + 16 * int n \<le> 2 ^ k * (16 * int n)"
proof -
  have "int (slot_of k p) + 1 \<le> 2 ^ k" by (simp add: int_slot_of add1_zle_eq)
  then have "(int (slot_of k p) + 1) * (16 * int n) \<le> 2 ^ k * (16 * int n)"
    by (rule mult_right_mono) simp
  then show ?thesis by (simp add: block_pos_def algebra_simps)
qed

lemma block_pos_other:
  assumes "slot_of k p \<noteq> slot_of k q"
  shows "block_pos k n p + 16 * int n \<le> block_pos k n q \<or> block_pos k n q + 16 * int n \<le> block_pos k n p"
proof -
  have *: "int a * (16 * int n) + 16 * int n \<le> int c * (16 * int n)" if "a < c" for a c
  proof -
    have "(int a + 1) * (16 * int n) \<le> int c * (16 * int n)" using that by (intro mult_right_mono) auto
    then show ?thesis by (simp add: algebra_simps)
  qed
  from assms consider "slot_of k p < slot_of k q" | "slot_of k q < slot_of k p" by linarith
  then show ?thesis by cases (simp_all add: block_pos_def *)
qed

text \<open>
  Posting to a ring with room: the state afterwards, written out. \<open>buf'\<close> is the ring's memory
  with the block of the producer pointer filled in.
\<close>

lemma Txq_post_run:
  fixes s :: "'h world" and i k n :: nat
  defines "q \<equiv> w_txqs s i"
  defines "base \<equiv> block_pos k n (txq_prod_ptr q)"
  assumes ring: "txq_ring i k n b s" and inv: "bufs_inv s"
    and room: "txq_prod_ptr q < txq_cons_ptr q + 2 ^ k"
    and alloc: "alloc_pkt E s = (Inr p, s2)"
    and fits: "10 + length data \<le> length (w_mem s2 (rg_id p))" "length data < 2 ^ 32"
    and addr: "0 \<le> rg_addr p" "rg_addr p + 10 + int (length data) < 2 ^ 64"
    and csum: "0 \<le> csum" "csum < 2 ^ 16"
  shows "\<exists>buf'. Txq_post E i data csum s = (Inr (), s2\<lparr>
        w_txqs := (w_txqs s)(i := q\<lparr>txq_packets := txq_packets q + 1,
          txq_bytes := txq_bytes q + int (length data),
          txq_tx_info := (txq_tx_info q)[slot_of k (txq_prod_ptr q) := Some p],
          txq_prod_ptr := txq_prod_ptr q + 1\<rparr>),
        w_mem := (w_mem s2)(rg_id p := splice (w_mem s2 (rg_id p)) 10 data, b := buf')\<rparr>) \<and>
      rg_id p \<noteq> b \<and> length buf' = length (w_mem s b) \<and>
      map (\<lambda>d. read_desc buf' (base + 16 * int d)) [0..<n] =
        map (\<lambda>sg. Inr (desc_words (rg_addr p + 10) sg)) (tx_segs (int n) (int (length data))) \<and>
      (\<forall>pos. 0 \<le> pos \<and> (pos + 16 \<le> base \<or> base + 16 * int n \<le> pos) \<longrightarrow>
         read_desc buf' pos = read_desc (w_mem s b) pos)"
proof -
  let ?len = "int (length data)" let ?ptr = "rg_addr p + 10"
  let ?seg = "head_seg (int n) ?len" let ?a = "if ?seg \<noteq> 0 then ?ptr else 0"
  let ?q1 = "q\<lparr>txq_packets := txq_packets q + 1, txq_bytes := txq_bytes q + ?len\<rparr>"
  let ?ix = "slot_of k (txq_prod_ptr q)"
  let ?q2 = "?q1\<lparr>txq_tx_info := (txq_tx_info q)[?ix := Some p]\<rparr>"
  from ring have r: "0 < n" "txq_size_mask q = 2 ^ k - 1" "txq_desc_block_size q = int n"
      "txq_stride q = 16 * int n" "txq_buf q = Some b" "b < w_next_region s"
      "b \<notin> rg_id ` set (drv_allocated_packets (w_drv s))"
      "int (length (w_mem s b)) = 2 ^ k * (16 * int n)"
      "slots_ok k (txq_prod_ptr q) (txq_cons_ptr q) (txq_tx_info q)"
    by (simp_all add: txq_ring_def q_def Let_def)
  have pool: "pool_inv s" using inv by (rule bufs_inv_pool)
  note fr = alloc_pkt_frame [OF alloc pool]
  have pb: "rg_id p \<noteq> b" using fr(11) r(6,7) by auto
  have mb: "w_mem s2 b = w_mem s b" using r(6) by (rule fr(9))
  have len: "length (txq_tx_info q) = 2 ^ k" using r(9) by (simp add: slots_ok_def)
  have free: "txq_tx_info q ! ?ix = None" using slots_ok_free r(9) room by blast
  have ix: "txq_prod_ptr q AND (2 ^ k - 1) = int ?ix" by (simp add: int_slot_of and_mask_mod)
  have ixl: "int ?ix < int (length (txq_tx_info q))" using len by simp
  have base: "0 \<le> base" "base + 16 \<le> int (length (w_mem s b))" "base + 16 * int n \<le> int (length (w_mem s b))"
    using block_pos_fits [of k n "txq_prod_ptr q"] r(1,8) by (auto simp: base_def block_pos_def)
  have seg: "0 \<le> ?seg" "?seg \<le> ?len" "?seg < 2 ^ 32" "?len < 2 ^ 32"
    using fits(2) by (auto simp: head_seg_def)
  have a: "0 \<le> ?a" "?a < 2 ^ 64" using addr by auto
  from pack_head_desc [OF base(1,2) seg(1,3) a csum] obtain b1
    where b1: "pack_into [FH, FH, FL, FQ] (w_mem s b) base [0, csum, ?seg, ?a] = Inr b1"
      "read_desc b1 base = Inr [?seg, ?a]"
    by blast
  then have len1: "length b1 = length (w_mem s b)" by (intro length_pack_into)
  let ?s3 = "s2\<lparr>w_txqs := (w_txqs s)(i := ?q2),
    w_mem := (w_mem s2)(rg_id p := splice (w_mem s2 (rg_id p)) 10 data)\<rparr>"
  let ?s4 = "?s3\<lparr>w_mem := (w_mem ?s3)(b := b1)\<rparr>"
  from desc_loop_run [of "[FX 4, FL, FQ]" "[]" 1 n base ?s4 b ?seg ?len ?ptr] obtain buf'
    where b': "desc_loop [FX 4, FL, FQ] [] (int n) b base ?ptr ?len ?seg (map int [1..<n]) ?s4 =
        (Inr (), ?s4\<lparr>w_mem := (w_mem ?s4)(b := buf')\<rparr>)" "length buf' = length b1"
      "\<forall>pos. 0 \<le> pos \<and> (pos + 16 \<le> base + 16 \<or> base + 16 * int n \<le> pos) \<longrightarrow>
         read_desc buf' pos = read_desc b1 pos"
      "map (\<lambda>d. read_desc buf' (base + 16 * int d)) [1..<n] =
         map (\<lambda>sg. Inr (desc_words ?ptr sg)) (rest_segs (int n) ?len ?seg (map int [1..<n]))"
    using r(1) base len1 seg addr by (auto simp: desc_fmts_def)
  let ?Q = "\<lambda>f. (w_txqs s)(i := f)"
  have run: "Txq_post E i data csum s = (Inr (), s2\<lparr>
        w_txqs := ?Q (?q2\<lparr>txq_prod_ptr := txq_prod_ptr q + 1\<rparr>),
        w_mem := (w_mem s2)(rg_id p := splice (w_mem s2 (rg_id p)) 10 data, b := buf')\<rparr>)"
  proof -
    have 1: "alloc_pkt E (s\<lparr>w_txqs := ?Q ?q1\<rparr>) = (Inr p, s2\<lparr>w_txqs := ?Q ?q1\<rparr>)"
      by (simp add: alloc_pkt_txqs alloc)
    have 2: "mem_store (rg_id p) 10 data (s2\<lparr>w_txqs := ?Q ?q2\<rparr>) = (Inr (), ?s3)"
      using fits(1) by (simp add: mem_store_def)
    have 3: "mem_pack [FH, FH, FL, FQ] b base [0, csum, ?seg, ?a] ?s3 = (Inr (), ?s4)"
      using b1(1) pb mb by (simp add: mem_pack_def)
    have bs: "int ?ix * txq_stride q = base" by (simp add: base_def block_pos_def r(4))
    define seg where "seg = ?seg"
    define adr where "adr = ?a"
    have hs: "(if Suc 0 < n then min ?len 42 else ?len) = seg"
      by (simp add: head_seg_def seg_def)
    have as: "(if seg \<noteq> 0 then ?ptr else 0) = adr" by (simp add: adr_def seg_def)
    note 3 = 3 [folded adr_def, folded seg_def, simplified]
    note 4 = b'(1) [folded seg_def, simplified]
    show ?thesis
      unfolding Txq_post_def
      by (simp add: run_simps Let_def q_def [symmetric] r(2,3,5) ix ixl free len bs hs as the_buf_def
          get_absolute_address_def 1 2 3 4 split del: if_split)
  qed
  have "map (\<lambda>d. read_desc buf' (base + 16 * int d)) [0..<n] =
        map (\<lambda>sg. Inr (desc_words ?ptr sg)) (tx_segs (int n) ?len)"
    using b'(3) [rule_format, of base] b'(4) b1(2) base(1) r(1)
    by (simp add: upt_conv_Cons tx_segs_def desc_words_def)
  moreover have "read_desc buf' pos = read_desc (w_mem s b) pos"
    if p: "0 \<le> pos" "pos + 16 \<le> base \<or> base + 16 * int n \<le> pos" for pos
  proof -
    have "read_desc buf' pos = read_desc b1 pos" using b'(3) p by auto
    also have "\<dots> = read_desc (w_mem s b) pos"
      unfolding read_desc_def using p r(1)
      by (intro unpack_from_pack_into_other [OF b1(1)]) auto
    finally show ?thesis .
  qed
  ultimately show ?thesis using run pb b'(2) len1 by (intro exI [of _ buf']) auto
qed

lemma slot_txq_update:
  assumes "w_txqs s' = (w_txqs s)(i := q')" "w_rxqs s' = w_rxqs s"
    "txq_tx_info q' = (txq_tx_info (w_txqs s i))[m := v]" "m < length (txq_tx_info (w_txqs s i))"
  shows "slot s' r n = (if r = TxRing i \<and> n = m then v else slot s r n)"
  using assms by (cases r) (auto simp: slot_def)

text \<open>Other rings are not concerned by what happens to one.\<close>

lemma txq_ring_other:
  assumes "txq_ring i k n b s" "w_txqs s' i = w_txqs s i" "w_next_region s \<le> w_next_region s'"
    "length (w_mem s' b) = length (w_mem s b)"
    "\<And>p. p \<in> set (drv_allocated_packets (w_drv s')) \<Longrightarrow>
       p \<in> set (drv_allocated_packets (w_drv s)) \<or> rg_id p = w_next_region s"
  shows "txq_ring i k n b s'"
  using assms by (fastforce simp: txq_ring_def Let_def)

lemma Txq_post_keeps:
  assumes ring: "txq_ring i k n b s" and inv: "bufs_inv s"
    and room: "txq_prod_ptr (w_txqs s i) < txq_cons_ptr (w_txqs s i) + 2 ^ k"
    and alloc: "alloc_pkt E s = (Inr p, s2)"
    and fits: "10 + length data \<le> length (w_mem s2 (rg_id p))" "length data < 2 ^ 32"
    and addr: "0 \<le> rg_addr p" "rg_addr p + 10 + int (length data) < 2 ^ 64"
    and csum: "0 \<le> csum" "csum < 2 ^ 16"
  shows "\<exists>s'. Txq_post E i data csum s = (Inr (), s') \<and> txq_ring i k n b s' \<and> bufs_inv s'"
proof -
  let ?q = "w_txqs s i" let ?ix = "slot_of k (txq_prod_ptr ?q)"
  from Txq_post_run [OF ring inv room alloc fits addr csum] obtain buf' s'
    where run: "Txq_post E i data csum s = (Inr (), s')"
      and s': "s' = s2\<lparr>
        w_txqs := (w_txqs s)(i := ?q\<lparr>txq_packets := txq_packets ?q + 1,
          txq_bytes := txq_bytes ?q + int (length data),
          txq_tx_info := (txq_tx_info ?q)[?ix := Some p], txq_prod_ptr := txq_prod_ptr ?q + 1\<rparr>),
        w_mem := (w_mem s2)(rg_id p := splice (w_mem s2 (rg_id p)) 10 data, b := buf')\<rparr>"
      and len: "length buf' = length (w_mem s b)"
    by blast
  have pool: "pool_inv s" using inv by (rule bufs_inv_pool)
  note fr = alloc_pkt_frame [OF alloc pool]
  have ok: "slots_ok k (txq_prod_ptr ?q) (txq_cons_ptr ?q) (txq_tx_info ?q)"
    using ring by (simp add: txq_ring_def Let_def)
  have "txq_ring i k n b s'"
    using ring slots_ok_put [OF ok room, of "Some p"] fr(7,8,11) len
    unfolding txq_ring_def s' Let_def by auto
  moreover have "bufs_inv s'"
  proof (rule bufs_inv_fill [OF inv, where r = "TxRing i" and n = ?ix])
    from pkt.alloc_fresh [OF pool alloc]
    have f: "p \<notin> outstanding s" "outstanding s2 = insert p (outstanding s)" "pool_inv s2" by auto
    then show "pool_inv s'" "p \<notin> outstanding s" "outstanding s' = insert p (outstanding s)"
      by (simp_all add: s' pool_inv_def outstanding_def)
    have "?ix < length (txq_tx_info ?q)" using ok by (simp add: slots_ok_def)
    then show "slot s' r' n' = (if r' = TxRing i \<and> n' = ?ix then Some p else slot s r' n')" for r' n'
      by (intro slot_txq_update [where q' = "w_txqs s' i"]) (simp_all add: s' fr(2))
  qed
  ultimately show ?thesis using run by blast
qed

text \<open>
  The bytes the NIC fetches through a block: for each descriptor, as many bytes as it says from
  the bus address it says, in the packet's region.
\<close>

definition fetch_desc :: "memory \<Rightarrow> region \<Rightarrow> exn + int list \<Rightarrow> byte list" where
  "fetch_desc m p d =
     (case d of Inr [n, a] \<Rightarrow> take (nat n) (drop (nat (a - rg_addr p)) (m (rg_id p))) | _ \<Rightarrow> [])"

definition fetch_block :: "memory \<Rightarrow> nat \<Rightarrow> region \<Rightarrow> int \<Rightarrow> nat \<Rightarrow> byte list" where
  "fetch_block m b p base n =
     concat (map (\<lambda>d. fetch_desc m p (read_desc (m b) (base + 16 * int d))) [0..<n])"

lemma fetch_desc_words:
  assumes "take (length data) (drop 10 (m (rg_id p))) = data"
    and "0 \<le> off" "0 \<le> l" "off + l \<le> int (length data)"
  shows "fetch_desc m p (Inr (desc_words (rg_addr p + 10) (off, l))) = take (nat l) (drop (nat off) data)"
proof (cases "l = 0")
  case False
  have "nat (10 + off) = 10 + nat off" using assms(2) by (simp add: nat_add_distrib)
  then have "fetch_desc m p (Inr (desc_words (rg_addr p + 10) (off, l))) =
      take (nat l) (drop (nat off) (drop 10 (m (rg_id p))))"
    using False by (simp add: fetch_desc_def desc_words_def add.commute)
  also have "\<dots> = take (nat l) (drop (nat off) (take (length data) (drop 10 (m (rg_id p)))))"
    using assms(2-4) by (simp add: drop_take min_def)
  finally show ?thesis using assms(1) by simp
qed (simp add: fetch_desc_def desc_words_def)

lemma Txq_post_fetch:
  assumes ring: "txq_ring i k n b s" and inv: "bufs_inv s"
    and room: "txq_prod_ptr (w_txqs s i) < txq_cons_ptr (w_txqs s i) + 2 ^ k"
    and alloc: "alloc_pkt E s = (Inr p, s2)"
    and fits: "10 + length data \<le> length (w_mem s2 (rg_id p))" "length data < 2 ^ 32"
    and addr: "0 \<le> rg_addr p" "rg_addr p + 10 + int (length data) < 2 ^ 64"
    and csum: "0 \<le> csum" "csum < 2 ^ 16"
    and run: "Txq_post E i data csum s = (Inr (), s')"
  shows "fetch_block (w_mem s') b p (block_pos k n (txq_prod_ptr (w_txqs s i))) n = data"
proof -
  let ?base = "block_pos k n (txq_prod_ptr (w_txqs s i))"
  let ?segs = "tx_segs (int n) (int (length data))"
  from Txq_post_run [OF ring inv room alloc fits addr csum] run obtain buf'
    where b': "w_mem s' = (w_mem s2)(rg_id p := splice (w_mem s2 (rg_id p)) 10 data, b := buf')"
      "rg_id p \<noteq> b"
      "map (\<lambda>d. read_desc buf' (?base + 16 * int d)) [0..<n] =
        map (\<lambda>sg. Inr (desc_words (rg_addr p + 10) sg)) ?segs"
    by auto
  have data: "take (length data) (drop 10 (w_mem s' (rg_id p))) = data"
    using b'(1,2) fits(1) by (simp add: take_drop_splice_same)
  have "fetch_block (w_mem s') b p ?base n =
      concat (map (fetch_desc (w_mem s') p) (map (\<lambda>d. read_desc buf' (?base + 16 * int d)) [0..<n]))"
    using b'(1) by (simp add: fetch_block_def comp_def)
  also have "\<dots> = concat (map (\<lambda>sg. fetch_desc (w_mem s') p (Inr (desc_words (rg_addr p + 10) sg))) ?segs)"
    unfolding b'(3) by (simp add: comp_def)
  also have "\<dots> = read_segs data ?segs"
    unfolding read_segs_def
    by (intro arg_cong [of _ _ concat] map_cong refl)
       (auto simp: fetch_desc_words [where data = data and m = "w_mem s'" and p = p, OF data] dest!: tx_segs_bounds [rotated])
  also have "\<dots> = data" using ring by (intro read_tx_segs) (simp add: txq_ring_def Let_def)
  finally show ?thesis .
qed

section \<open>Completions\<close>

text \<open>
  What releasing descriptors of ring \<open>r\<close> may change: the ring's table and the pool's queue of
  free packet buffers.
\<close>

definition tx_released :: "nat \<Rightarrow> 'h world \<Rightarrow> 'h world \<Rightarrow> bool" where
  "tx_released r s s' \<longleftrightarrow> (\<exists>F info. length info = length (txq_tx_info (w_txqs s r)) \<and>
     s' = s\<lparr>w_drv := (w_drv s)\<lparr>drv_free_packets := F\<rparr>,
            w_txqs := (w_txqs s)(r := (w_txqs s r)\<lparr>txq_tx_info := info\<rparr>)\<rparr>)"

lemma tx_released_refl [simp]: "tx_released r s s"
  unfolding tx_released_def
  by (intro exI [of _ "drv_free_packets (w_drv s)"] exI [of _ "txq_tx_info (w_txqs s r)"]) simp

lemma tx_released_trans: "tx_released r s s' \<Longrightarrow> tx_released r s' s'' \<Longrightarrow> tx_released r s s''"
  unfolding tx_released_def
proof (elim exE conjE, goal_cases)
  case (1 F G info info')
  then show ?case by (intro exI [of _ G] exI [of _ info']) simp
qed

lemma tx_released_fields:
  assumes "tx_released r s s'"
  shows "w_mem s' = w_mem s" "w_mmio s' = w_mmio s" "w_cqs s' = w_cqs s" "w_rxqs s' = w_rxqs s"
    "w_ifs s' = w_ifs s" "w_next_region s' = w_next_region s"
    "drv_allocated_packets (w_drv s') = drv_allocated_packets (w_drv s)"
    "txq_prod_ptr (w_txqs s' j) = txq_prod_ptr (w_txqs s j)"
    "txq_cons_ptr (w_txqs s' j) = txq_cons_ptr (w_txqs s j)"
    "txq_size_mask (w_txqs s' j) = txq_size_mask (w_txqs s j)"
    "j \<noteq> r \<Longrightarrow> w_txqs s' j = w_txqs s j"
  using assms by (auto simp: tx_released_def)

lemma Txq_free_desc_Some:
  assumes "bufs_inv s" "slot s (TxRing r) m = Some p"
  shows "\<exists>s'. Txq_free_desc r (int m) s = (Inr (), s') \<and> tx_released r s s' \<and> bufs_inv s' \<and>
    txq_tx_info (w_txqs s' r) = (txq_tx_info (w_txqs s r))[m := None] \<and>
    outstanding s' = outstanding s - {p}"
proof -
  let ?q = "w_txqs s r"
  from assms(2) have m: "m < length (txq_tx_info ?q)" "txq_tx_info ?q ! m = Some p"
    by (auto simp: slot_def split: if_splits)
  have out: "p \<in> outstanding s" using assms by (rule bufs_inv_outstanding)
  then have al: "p \<in> set (drv_allocated_packets (w_drv s))" by (simp add: outstanding_def)
  let ?s' = "s\<lparr>w_drv := (w_drv s)\<lparr>drv_free_packets := drv_free_packets (w_drv s) @ [p]\<rparr>,
    w_txqs := (w_txqs s)(r := ?q\<lparr>txq_tx_info := (txq_tx_info ?q)[m := None]\<rparr>)\<rparr>"
  have run: "Txq_free_desc r (int m) s = (Inr (), ?s')"
    using m al by (simp add: Txq_free_desc_def run_simps free_pkt_Some)
  have o: "outstanding ?s' = outstanding s - {p}" by (auto simp: outstanding_def)
  have "pool_inv ?s'"
    using bufs_inv_pool [OF assms(1)] out by (auto simp: pool_inv_def outstanding_def)
  moreover have "slot ?s' r' n' = (if r' = TxRing r \<and> n' = m then None else slot s r' n')" for r' n'
    using m by (intro slot_txq_update [where q' = "w_txqs ?s' r"]) simp_all
  ultimately have "bufs_inv ?s'" using o by (intro bufs_inv_release [OF assms(1) _ assms(2)]) auto
  moreover have "tx_released r s ?s'" unfolding tx_released_def
    by (intro exI [of _ "drv_free_packets (w_drv ?s')"] exI [of _ "txq_tx_info (w_txqs ?s' r)"]) simp
  ultimately show ?thesis using run o by (intro exI [of _ ?s']) simp
qed

text \<open>Completing a slot twice raises, and changes nothing.\<close>

lemma Txq_free_desc_None:
  assumes "m < length (txq_tx_info (w_txqs s r))" "slot s (TxRing r) m = None"
  shows "Txq_free_desc r (int m) s = (Inl (AssertionError ''pkt is not None''), s)"
  using assms by (simp add: Txq_free_desc_def run_simps slot_def free_pkt_def)

lemma Txq_free_desc_mask:
  assumes "txq_ring r k n b s"
  shows "Txq_free_desc r (x AND txq_size_mask (w_txqs s r)) = Txq_free_desc r (int (slot_of k x))"
  using assms by (simp add: txq_ring_def Let_def and_mask_mod int_slot_of)

lemma txq_ring_released:
  assumes ring: "txq_ring r k n b s" and rel: "tx_released r s s'"
    and sl: "\<And>m. txq_tx_info (w_txqs s' r) ! m \<noteq> None \<Longrightarrow> txq_tx_info (w_txqs s r) ! m \<noteq> None"
  shows "txq_ring r k n b s'"
proof -
  from rel obtain F info where l: "length info = length (txq_tx_info (w_txqs s r))"
    and s': "s' = s\<lparr>w_drv := (w_drv s)\<lparr>drv_free_packets := F\<rparr>,
            w_txqs := (w_txqs s)(r := (w_txqs s r)\<lparr>txq_tx_info := info\<rparr>)\<rparr>"
    by (auto simp: tx_released_def)
  let ?q = "w_txqs s r"
  have "slots_ok k (txq_prod_ptr ?q) (txq_cons_ptr ?q) (txq_tx_info ?q)"
    using ring by (simp add: txq_ring_def Let_def)
  then have "slots_ok k (txq_prod_ptr ?q) (txq_cons_ptr ?q) info"
    using l sl unfolding slots_ok_def s' by simp
  with ring show ?thesis by (simp add: txq_ring_def s' Let_def)
qed

text \<open>A completion queue in order: \<open>2 ^ k\<close> entries of 32 bytes in region \<open>b\<close>.\<close>

definition cq_ring :: "nat \<Rightarrow> nat \<Rightarrow> nat \<Rightarrow> 'h world \<Rightarrow> bool" where
  "cq_ring c k b s \<longleftrightarrow> (let q = w_cqs s c in
     cq_size q = 2 ^ k \<and> cq_size_mask q = 2 ^ k - 1 \<and> cq_stride q = 32 \<and> cq_buf q = Some b \<and>
     int (length (w_mem s b)) = 2 ^ k * 32)"

definition cpl_at :: "byte list \<Rightarrow> nat \<Rightarrow> int \<Rightarrow> int list" where
  "cpl_at buf k c = unpack cpl_fmt (drop (slot_of k c * 32) buf)"

definition cpl_index :: "byte list \<Rightarrow> nat \<Rightarrow> int \<Rightarrow> int" where
  "cpl_index buf k c = cpl_at buf k c ! 1"

lemma cpl_phase: "last (cpl_at buf k c) AND 0x80000000 \<noteq> 0 \<longleftrightarrow> entry_phase buf (c mod 2 ^ k)"
proof -
  have "nat (c mod 2 ^ k * 32 + 28) = slot_of k c * 32 + 28"
    by (simp add: slot_of_def nat_add_distrib nat_mult_distrib)
  then show ?thesis
    by (simp add: cpl_at_def cpl_fmt_def entry_phase_def add.commute)
qed

lemma mem_unpack_cpl:
  assumes "cq_ring cqi k b s"
  shows "mem_unpack cpl_fmt b ((c AND (2 ^ k - 1)) * 32) s = (Inr (cpl_at (w_mem s b) k c), s)"
proof -
  have "int (slot_of k c) + 1 \<le> 2 ^ k" by (simp add: int_slot_of add1_zle_eq)
  then have "int (slot_of k c * 32 + 32) \<le> int (length (w_mem s b))"
    using assms by (simp add: cq_ring_def Let_def)
  then have "slot_of k c * 32 + 32 \<le> length (w_mem s b)" by (simp only: of_nat_le_iff)
  moreover have "(c AND (2 ^ k - 1)) * 32 = int (slot_of k c * 32)" by (simp add: int_slot_of and_mask_mod)
  moreover have "calcsize cpl_fmt = 32" by (simp add: cpl_fmt_def)
  ultimately show ?thesis
    unfolding mem_unpack_def unpack_from_def cpl_at_def by (simp only: nat_int) simp
qed

lemma tx_cpl_loop_step:
  assumes "cq_ring cqi k b s"
  shows "tx_cpl_loop (Suc n) cqi r c s =
    (if entry_new (w_mem s b) k c
     then sq (Txq_free_desc r (cpl_index (w_mem s b) k c AND txq_size_mask (w_txqs s r)))
            (tx_cpl_loop n cqi r (c + 1)) s
     else (Inr c, s))"
proof -
  have q: "cq_size (w_cqs s cqi) = 2 ^ k" "cq_size_mask (w_cqs s cqi) = 2 ^ k - 1"
      "cq_stride (w_cqs s cqi) = 32" "cq_buf (w_cqs s cqi) = Some b"
    using assms by (simp_all add: cq_ring_def Let_def)
  have new: "((last (cpl_at (w_mem s b) k c) AND 0x80000000 = 0) = (c AND 2 ^ k = 0)) = (\<not> entry_new (w_mem s b) k c)"
    using cpl_phase [of "w_mem s b" k c] and_exp_nonzero [of c k] by (auto simp: entry_new_def)
  show ?thesis
    by (cases "entry_new (w_mem s b) k c")
       (simp_all add: run_bnd get_cq_def get_txq_def the_buf_def q mem_unpack_cpl [OF assms] new
        cpl_index_def Let_def)
qed

lemma cq_ring_released: "cq_ring cqi k b s \<Longrightarrow> tx_released r s s' \<Longrightarrow> cq_ring cqi k b s'"
  by (simp add: cq_ring_def tx_released_fields)

lemma Txq_free_desc_cases:
  assumes ring: "txq_ring r kr n br s" and inv: "bufs_inv s" and "m < 2 ^ kr"
  obtains (freed) p s' where "slot s (TxRing r) m = Some p"
      "Txq_free_desc r (int m) s = (Inr (), s')" "tx_released r s s'" "bufs_inv s'"
      "txq_ring r kr n br s'" "txq_tx_info (w_txqs s' r) = (txq_tx_info (w_txqs s r))[m := None]"
      "outstanding s' = outstanding s - {p}"
  | (twice) "slot s (TxRing r) m = None"
      "Txq_free_desc r (int m) s = (Inl (AssertionError ''pkt is not None''), s)"
proof (cases "slot s (TxRing r) m")
  case None
  have "length (txq_tx_info (w_txqs s r)) = 2 ^ kr"
    using ring by (simp add: txq_ring_def Let_def slots_ok_def)
  with None assms(3) show ?thesis by (intro twice Txq_free_desc_None) simp_all
next
  case (Some p)
  from Txq_free_desc_Some [OF inv Some] obtain s'
    where s': "Txq_free_desc r (int m) s = (Inr (), s')" "tx_released r s s'" "bufs_inv s'"
      "txq_tx_info (w_txqs s' r) = (txq_tx_info (w_txqs s r))[m := None]"
      "outstanding s' = outstanding s - {p}"
    by blast
  have "txq_ring r kr n br s'"
  proof (rule txq_ring_released [OF ring s'(2)])
    fix x assume x: "txq_tx_info (w_txqs s' r) ! x \<noteq> None"
    have l: "m < length (txq_tx_info (w_txqs s r))" using Some by (simp add: slot_def split: if_splits)
    show "txq_tx_info (w_txqs s r) ! x \<noteq> None"
      using x l unfolding s'(4) by (cases "x = m") auto
  qed
  with Some s' show ?thesis by (intro freed)
qed

text \<open>
  The loop over the completion queue ends with fuel for the new entries and one more; it takes
  them all, unless one names a slot that is not occupied, when it stops with the driver's
  assertion. Nothing but the ring's table and the pool is touched.
\<close>

lemma tx_cpl_loop_spec:
  assumes "cq_ring cqi k b s" "txq_ring r kr n br s" "bufs_inv s"
    and "ring.run_length (w_mem s b) k c < fuel"
  shows "\<exists>res s'. tx_cpl_loop fuel cqi r c s = (res, s') \<and> tx_released r s s' \<and>
    txq_ring r kr n br s' \<and> bufs_inv s' \<and>
    (res = Inr (c + int (ring.run_length (w_mem s b) k c)) \<or>
     res = Inl (AssertionError ''pkt is not None''))"
  using assms
proof (induction fuel arbitrary: c s)
  case (Suc fuel)
  note st = tx_cpl_loop_step [OF Suc.prems(1), of fuel r c]
  show ?case
  proof (cases "entry_new (w_mem s b) k c")
    case False
    with st Suc.prems show ?thesis by (simp add: ring.run_length_0)
  next
    case True
    let ?m = "slot_of kr (cpl_index (w_mem s b) k c)"
    have step: "tx_cpl_loop (Suc fuel) cqi r c s =
        sq (Txq_free_desc r (int ?m)) (tx_cpl_loop fuel cqi r (c + 1)) s"
      using st by (simp only: True if_True Txq_free_desc_mask [OF Suc.prems(2)])
    have len: "ring.run_length (w_mem s b) k c = Suc (ring.run_length (w_mem s b) k (c + 1))"
      using True by (rule ring.run_length_Suc)
    from Suc.prems(2,3) slot_of_less [of kr "cpl_index (w_mem s b) k c"] show ?thesis
    proof (cases rule: Txq_free_desc_cases)
      case (freed p s1)
      have cq1: "cq_ring cqi k b s1" using Suc.prems(1) freed(3) by (rule cq_ring_released)
      have mem: "w_mem s1 b = w_mem s b" using freed(3) by (simp add: tx_released_fields)
      have "ring.run_length (w_mem s1 b) k (c + 1) < fuel" using Suc.prems(4) len mem by simp
      from Suc.IH [OF cq1 freed(5,4) this] obtain res s' where IH:
          "tx_cpl_loop fuel cqi r (c + 1) s1 = (res, s')" "tx_released r s1 s'"
          "txq_ring r kr n br s'" "bufs_inv s'"
          "res = Inr (c + 1 + int (ring.run_length (w_mem s1 b) k (c + 1))) \<or>
           res = Inl (AssertionError ''pkt is not None'')"
        by blast
      have run: "tx_cpl_loop (Suc fuel) cqi r c s = (res, s')" using step freed(2) IH(1) by (simp add: sq_Inr)
      have "tx_released r s s'" using freed(3) IH(2) by (rule tx_released_trans)
      moreover have "res = Inr (c + int (ring.run_length (w_mem s b) k c)) \<or>
          res = Inl (AssertionError ''pkt is not None'')"
        using IH(5) len mem by (simp add: algebra_simps)
      ultimately show ?thesis using run IH(3,4) by blast
    next
      case twice
      then have "tx_cpl_loop (Suc fuel) cqi r c s = (Inl (AssertionError ''pkt is not None''), s)"
        using step by (simp add: sq_Inl)
      with Suc.prems(2,3) show ?thesis by simp
    qed
  qed
qed simp

text \<open>
  The slots that the new entries name. If they are occupied and pairwise different, which is
  what a NIC that completes each descriptor once gives, the loop returns and has released
  exactly these.
\<close>

definition cpl_slots :: "byte list \<Rightarrow> nat \<Rightarrow> nat \<Rightarrow> int \<Rightarrow> nat \<Rightarrow> nat list" where
  "cpl_slots buf k kr c n = map (\<lambda>i. slot_of kr (cpl_index buf k (c + int i))) [0..<n]"

lemma cpl_slots_Suc:
  "cpl_slots buf k kr c (Suc n) = slot_of kr (cpl_index buf k c) # cpl_slots buf k kr (c + 1) n"
proof -
  have "[0..<Suc n] = 0 # map Suc [0..<n]" by (simp add: upt_conv_Cons map_Suc_upt del: upt_Suc)
  then show ?thesis
    by (simp add: cpl_slots_def comp_def add.assoc del: upt_Suc)
qed

lemma tx_cpl_loop_ok:
  assumes "cq_ring cqi k b s" "txq_ring r kr n br s" "bufs_inv s"
    and "ring.run_length (w_mem s b) k c = l" "l < fuel"
    and "distinct (cpl_slots (w_mem s b) k kr c l)"
    and "\<forall>m \<in> set (cpl_slots (w_mem s b) k kr c l). slot s (TxRing r) m \<noteq> None"
  shows "\<exists>s'. tx_cpl_loop fuel cqi r c s = (Inr (c + int l), s') \<and> tx_released r s s' \<and>
    txq_ring r kr n br s' \<and> bufs_inv s' \<and>
    (\<forall>m. slot s' (TxRing r) m =
       (if m \<in> set (cpl_slots (w_mem s b) k kr c l) then None else slot s (TxRing r) m))"
  using assms
proof (induction fuel arbitrary: c s l)
  case (Suc fuel)
  note st = tx_cpl_loop_step [OF Suc.prems(1), of fuel r c]
  show ?case
  proof (cases "entry_new (w_mem s b) k c")
    case False
    with Suc.prems(4) have "l = 0" by (simp add: ring.run_length_0)
    with False st Suc.prems(2,3) show ?thesis by (simp add: cpl_slots_def)
  next
    case True
    let ?m = "slot_of kr (cpl_index (w_mem s b) k c)"
    have step: "tx_cpl_loop (Suc fuel) cqi r c s =
        sq (Txq_free_desc r (int ?m)) (tx_cpl_loop fuel cqi r (c + 1)) s"
      using st by (simp only: True if_True Txq_free_desc_mask [OF Suc.prems(2)])
    define l' where "l' = ring.run_length (w_mem s b) k (c + 1)"
    have l: "l = Suc l'" using ring.run_length_Suc [OF True] Suc.prems(4) by (simp add: l'_def)
    note sl = cpl_slots_Suc [of "w_mem s b" k kr c l', folded l]
    from Suc.prems(7) sl have "slot s (TxRing r) ?m \<noteq> None" by simp
    then obtain p where "slot s (TxRing r) ?m = Some p" by blast
    from Txq_free_desc_cases [OF Suc.prems(2,3) slot_of_less [of kr "cpl_index (w_mem s b) k c"]] this
    obtain s1 where freed: "Txq_free_desc r (int ?m) s = (Inr (), s1)" "tx_released r s s1" "bufs_inv s1"
        "txq_ring r kr n br s1" "txq_tx_info (w_txqs s1 r) = (txq_tx_info (w_txqs s r))[?m := None]"
      by (metis option.distinct(1))
    have cq1: "cq_ring cqi k b s1" using Suc.prems(1) freed(2) by (rule cq_ring_released)
    have mem: "w_mem s1 b = w_mem s b" using freed(2) by (simp add: tx_released_fields)
    have sl1: "slot s1 (TxRing r) m = (if m = ?m then None else slot s (TxRing r) m)" for m
      using freed(5) by (simp add: slot_def)
    have "\<forall>m \<in> set (cpl_slots (w_mem s1 b) k kr (c + 1) l'). slot s1 (TxRing r) m \<noteq> None"
      using Suc.prems(6,7) unfolding mem sl sl1 by auto
    with Suc.IH [OF cq1 freed(4,3), of "c + 1" l'] Suc.prems(5,6) obtain s' where IH:
        "tx_cpl_loop fuel cqi r (c + 1) s1 = (Inr (c + 1 + int l'), s')" "tx_released r s1 s'"
        "txq_ring r kr n br s'" "bufs_inv s'"
        "\<forall>m. slot s' (TxRing r) m =
          (if m \<in> set (cpl_slots (w_mem s b) k kr (c + 1) l') then None else slot s1 (TxRing r) m)"
      unfolding mem l'_def [symmetric] sl by (auto simp: l)
    have "tx_cpl_loop (Suc fuel) cqi r c s = (Inr (c + int l), s')"
      using step freed(1) IH(1) l by (simp add: sq_Inr algebra_simps)
    moreover have "tx_released r s s'" using freed(2) IH(2) by (rule tx_released_trans)
    moreover have "slot s' (TxRing r) m =
        (if m \<in> set (cpl_slots (w_mem s b) k kr c l) then None else slot s (TxRing r) m)" for m
      using IH(5) sl1 by (auto simp: sl)
    ultimately show ?thesis using IH(3,4) by blast
  qed
qed simp

lemma bufs_inv_bus:
  assumes "bufs_inv s" "bus_frame s s'"
  shows "bufs_inv s'"
proof (rule bufs_inv_cong [OF assms(1)])
  have "ring_info s' r = ring_info s r" for r
    by (cases r) (simp_all add: bus_frame_fields [OF assms(2)])
  then show "slot s' r n = slot s r n" for r n by (simp add: slot_def)
qed (simp_all add: bus_frame_fields [OF assms(2)])

lemma txq_ring_bus:
  "txq_ring i k n b s \<Longrightarrow> bus_frame s s' \<Longrightarrow> same_sizes (w_mem s) (w_mem s') \<Longrightarrow> txq_ring i k n b s'"
  by (simp add: txq_ring_def Let_def bus_frame_fields same_sizes_def)

text \<open>Only a consumer pointer of the completion queue has moved.\<close>

lemma txq_ring_cqs [simp]: "txq_ring i k n b (s\<lparr>w_cqs := f\<rparr>) = txq_ring i k n b s"
  by (simp add: txq_ring_def)

lemma slot_cqs [simp]: "slot (s\<lparr>w_cqs := f\<rparr>) r m = slot s r m"
  by (cases r) (simp_all add: slot_def)

lemma slot_bus: "bus_frame s s' \<Longrightarrow> slot s' r m = slot s r m"
  by (cases r) (simp_all add: slot_def bus_frame_fields)

lemma bufs_inv_cqs [simp]: "bufs_inv (s\<lparr>w_cqs := f\<rparr>) = bufs_inv s"
  by (simp add: bufs_inv_def pool_inv_def outstanding_def)

definition tx_cons_set :: "nat \<Rightarrow> int \<Rightarrow> 'h world \<Rightarrow> 'h world" where
  "tx_cons_set r c s = s\<lparr>w_txqs := (w_txqs s)(r := (w_txqs s r)
     \<lparr>txq_cons_ptr := c, txq_clean_event := True\<rparr>)\<rparr>"

lemma slot_tx_cons_set [simp]: "slot (tx_cons_set r c s) x m = slot s x m"
  by (cases x) (simp_all add: slot_def tx_cons_set_def)

lemma bufs_inv_tx_cons_set [simp]: "bufs_inv (tx_cons_set r c s) = bufs_inv s"
proof -
  have "w_drv (tx_cons_set r c s) = w_drv s" "w_next_region (tx_cons_set r c s) = w_next_region s"
    by (simp_all add: tx_cons_set_def)
  then show ?thesis by (simp add: bufs_inv_def pool_inv_def outstanding_def)
qed

text \<open>The second half of \<open>process_tx_cq\<close>: the consumer pointer passes over released slots.\<close>

lemma txq_reclaim:
  assumes ring: "txq_ring r k n b s"
  shows "\<exists>c. Txq_reclaim r s = (Inr (), tx_cons_set r c s) \<and>
    txq_ring r k n b (tx_cons_set r c s) \<and> txq_cons_ptr (w_txqs s r) \<le> c \<and>
    (\<forall>p. txq_cons_ptr (w_txqs s r) \<le> p \<and> p < c \<longrightarrow> slot s (TxRing r) (slot_of k p) = None) \<and>
    (c = txq_prod_ptr (w_txqs s r) \<or>
     c < txq_prod_ptr (w_txqs s r) \<and> slot s (TxRing r) (slot_of k c) \<noteq> None)"
proof -
  let ?q = "w_txqs s r"
  from ring have ok: "slots_ok k (txq_prod_ptr ?q) (txq_cons_ptr ?q) (txq_tx_info ?q)"
    and msk: "txq_size_mask ?q = 2 ^ k - 1"
    by (simp_all add: txq_ring_def Let_def)
  then have len: "length (txq_tx_info ?q) = 2 ^ k"
    and le: "txq_prod_ptr ?q \<le> txq_cons_ptr ?q + int (nat (txq_prod_ptr ?q - txq_cons_ptr ?q))"
    by (simp_all add: slots_ok_def)
  have sl: "slot s (TxRing r) (slot_of k p) = txq_tx_info ?q ! slot_of k p" for p
    using len by (simp add: slot_def)
  from reclaim_ptr_spec [OF ok le] obtain c where c:
      "reclaim_ptr (nat (txq_prod_ptr ?q - txq_cons_ptr ?q)) (2 ^ k - 1) (txq_prod_ptr ?q)
        (txq_tx_info ?q) (txq_cons_ptr ?q) = Inr c"
      "slots_ok k (txq_prod_ptr ?q) c (txq_tx_info ?q)" "txq_cons_ptr ?q \<le> c"
      "\<forall>p. txq_cons_ptr ?q \<le> p \<and> p < c \<longrightarrow> txq_tx_info ?q ! slot_of k p = None"
      "c = txq_prod_ptr ?q \<or> c < txq_prod_ptr ?q \<and> txq_tx_info ?q ! slot_of k c \<noteq> None"
    by blast
  have "txq_ring r k n b (tx_cons_set r c s)"
    using ring c(2) by (simp add: txq_ring_def tx_cons_set_def Let_def)
  moreover have "Txq_reclaim r s = (Inr (), tx_cons_set r c s)"
    using c(1) by (simp add: Txq_reclaim_def run_simps msk tx_cons_set_def)
  ultimately show ?thesis using c(3-5) unfolding sl by blast
qed

lemma Txq_process_tx_cq_ok:
  fixes s :: "'h world" and cqi :: nat
  defines "buf \<equiv> \<lambda>b. w_mem s b" and "c0 \<equiv> cq_cons_ptr (w_cqs s cqi)"
  assumes dev: "device_ok E"
    and cq: "cq_ring cqi k b s" "cq_src_ring (w_cqs s cqi) = Some (TxRing r)"
      "cq_hw_regs (w_cqs s cqi) = Some w"
    and up: "ifc_port_up (w_ifs s (cq_interface (w_cqs s cqi)))"
    and ring: "txq_ring r kr n br s" and inv: "bufs_inv s"
    and l: "l = ring.run_length (buf b) k c0"
    and named: "distinct (cpl_slots (buf b) k kr c0 l)"
      "\<forall>m \<in> set (cpl_slots (buf b) k kr c0 l). slot s (TxRing r) m \<noteq> None"
  shows "\<exists>s'. Txq_process_tx_cq E cqi s = (Inr (), s') \<and>
    txq_ring r kr n br s' \<and> bufs_inv s' \<and>
    cq_cons_ptr (w_cqs s' cqi) = c0 + int l \<and>
    w_mmio s' = w_mmio s @ [WR w 8 (0x80900000 OR ((c0 + int l) mod 65536))] \<and>
    (\<forall>m. slot s' (TxRing r) m =
       (if m \<in> set (cpl_slots (buf b) k kr c0 l) then None else slot s (TxRing r) m)) \<and>
    txq_prod_ptr (w_txqs s' r) = txq_prod_ptr (w_txqs s r) \<and>
    txq_cons_ptr (w_txqs s r) \<le> txq_cons_ptr (w_txqs s' r) \<and>
    (\<forall>p. txq_cons_ptr (w_txqs s r) \<le> p \<and> p < txq_cons_ptr (w_txqs s' r) \<longrightarrow>
       slot s' (TxRing r) (slot_of kr p) = None) \<and>
    (Txq_empty (w_txqs s' r) \<or>
     slot s' (TxRing r) (slot_of kr (txq_cons_ptr (w_txqs s' r))) \<noteq> None)"
proof -
  have size: "cq_size (w_cqs s cqi) = 2 ^ k" using cq(1) by (simp add: cq_ring_def Let_def)
  have "int l \<le> 2 ^ k" using l ring.run_length_le by simp
  then have fuel: "l < Suc (nat (2 ^ k))" by linarith
  from tx_cpl_loop_ok [OF cq(1) ring inv l [symmetric, unfolded buf_def] fuel named [unfolded buf_def]]
  obtain s1 where s1: "tx_cpl_loop (Suc (nat (2 ^ k))) cqi r c0 s = (Inr (c0 + int l), s1)"
      "tx_released r s s1" "txq_ring r kr n br s1" "bufs_inv s1"
      "\<forall>m. slot s1 (TxRing r) m =
       (if m \<in> set (cpl_slots (buf b) k kr c0 l) then None else slot s (TxRing r) m)"
    unfolding buf_def by blast
  note f1 = tx_released_fields [OF s1(2)]
  let ?v = "0x80900000 OR ((c0 + int l) mod 65536)"
  let ?s2 = "s1\<lparr>w_cqs := (w_cqs s)(cqi := (w_cqs s cqi)\<lparr>cq_cons_ptr := c0 + int l\<rparr>)\<rparr>"
  let ?s3 = "wr_state E w 8 ?v ?s2"
  have wr: "Cq_write_cons_ptr E cqi ?s2 = (Inr (), ?s3)"
    using cq(3) by (simp add: Cq_write_cons_ptr_def run_simps regs and_mask_mod [of _ 16, simplified])
  have r3: "txq_ring r kr n br ?s3"
    by (rule txq_ring_bus [OF _ bus_frame_wr wr_state_sizes [OF dev]]) (simp add: s1(3))
  have i3: "bufs_inv ?s3"
    by (rule bufs_inv_bus [OF _ bus_frame_wr]) (simp add: s1(4))
  from txq_reclaim [OF r3] obtain c where c: "Txq_reclaim r ?s3 = (Inr (), tx_cons_set r c ?s3)"
      "txq_ring r kr n br (tx_cons_set r c ?s3)" "txq_cons_ptr (w_txqs ?s3 r) \<le> c"
      "\<forall>p. txq_cons_ptr (w_txqs ?s3 r) \<le> p \<and> p < c \<longrightarrow> slot ?s3 (TxRing r) (slot_of kr p) = None"
      "c = txq_prod_ptr (w_txqs ?s3 r) \<or>
       c < txq_prod_ptr (w_txqs ?s3 r) \<and> slot ?s3 (TxRing r) (slot_of kr c) \<noteq> None"
    by blast
  let ?s' = "tx_cons_set r c ?s3"
  have run: "Txq_process_tx_cq E cqi s = (Inr (), ?s')"
    using s1(1) wr c(1) cq(2) up size f1(3)
    by (simp add: Txq_process_tx_cq_def run_bnd run_sq get_cq_def get_if_def src_txq_def c0_def
        upd_cq_def del: tx_cpl_loop.simps)
  have sl3: "slot ?s3 x m = slot s1 x m" for x m
    by (simp add: slot_bus [OF bus_frame_wr])
  have "w_cqs ?s' cqi = (w_cqs s cqi)\<lparr>cq_cons_ptr := c0 + int l\<rparr>"
    "w_mmio ?s' = w_mmio s @ [WR w 8 ?v]"
    "txq_prod_ptr (w_txqs ?s' r) = txq_prod_ptr (w_txqs s r)" "txq_cons_ptr (w_txqs ?s' r) = c"
    "txq_cons_ptr (w_txqs ?s3 r) = txq_cons_ptr (w_txqs s r)"
    "txq_prod_ptr (w_txqs ?s3 r) = txq_prod_ptr (w_txqs s r)"
    by (simp_all add: tx_cons_set_def f1)
  with run c i3 s1(5) sl3 show ?thesis
    by (intro exI [of _ ?s']) (auto simp: Txq_empty_def)
qed

section \<open>Releasing everything\<close>

definition tx_cons_inc :: "nat \<Rightarrow> 'h world \<Rightarrow> 'h world" where
  "tx_cons_inc r s = s\<lparr>w_txqs := (w_txqs s)(r := (w_txqs s r)\<lparr>txq_cons_ptr := txq_cons_ptr (w_txqs s r) + 1\<rparr>)\<rparr>"

lemma slot_tx_cons_inc [simp]: "slot (tx_cons_inc r s) x m = slot s x m"
  by (cases x) (simp_all add: slot_def tx_cons_inc_def)

lemma bufs_inv_tx_cons_inc [simp]: "bufs_inv (tx_cons_inc r s) = bufs_inv s"
proof -
  have "w_drv (tx_cons_inc r s) = w_drv s" "w_next_region (tx_cons_inc r s) = w_next_region s"
    by (simp_all add: tx_cons_inc_def)
  then show ?thesis by (simp add: bufs_inv_def pool_inv_def outstanding_def)
qed

text \<open>
  \<open>free_buf\<close> releases the outstanding slots in order; it stops with an assertion at the first
  one that has already been completed.
\<close>

lemma txq_free_buf_loop_spec:
  assumes "txq_ring r k n b s" "bufs_inv s"
    and "txq_prod_ptr (w_txqs s r) = txq_cons_ptr (w_txqs s r) + int fuel"
  shows "\<exists>c s'. txq_free_buf_loop fuel r s =
      (if c = txq_prod_ptr (w_txqs s r) then Inr () else Inl (AssertionError ''pkt is not None''), s') \<and>
    txq_ring r k n b s' \<and> bufs_inv s' \<and> txq_cons_ptr (w_txqs s' r) = c \<and>
    txq_prod_ptr (w_txqs s' r) = txq_prod_ptr (w_txqs s r) \<and>
    txq_cons_ptr (w_txqs s r) \<le> c \<and> c \<le> txq_prod_ptr (w_txqs s r) \<and>
    (\<forall>p. txq_cons_ptr (w_txqs s r) \<le> p \<and> p < c \<longrightarrow>
       slot s (TxRing r) (slot_of k p) \<noteq> None \<and> slot s' (TxRing r) (slot_of k p) = None) \<and>
    (c < txq_prod_ptr (w_txqs s r) \<longrightarrow> slot s (TxRing r) (slot_of k c) = None)"
  using assms
proof (induction fuel arbitrary: s)
  case 0
  then show ?case
    by (intro exI [of _ "txq_cons_ptr (w_txqs s r)"] exI [of _ s]) (auto simp: run_simps Txq_empty_def)
next
  case (Suc fuel)
  let ?q = "w_txqs s r"
  have ok: "slots_ok k (txq_prod_ptr ?q) (txq_cons_ptr ?q) (txq_tx_info ?q)"
    using Suc.prems(1) by (simp add: txq_ring_def Let_def)
  let ?m = "slot_of k (txq_cons_ptr ?q)"
  have ne: "\<not> Txq_empty ?q" using Suc.prems(3) by (simp add: Txq_empty_def)
  have step: "txq_free_buf_loop (Suc fuel) r s =
      sq (Txq_free_desc r (int ?m)) (sq (upd_txq r (\<lambda>q. q\<lparr>txq_cons_ptr := txq_cons_ptr q + 1\<rparr>))
        (txq_free_buf_loop fuel r)) s"
    using ne by (simp add: run_bnd get_txq_def Txq_free_desc_mask [OF Suc.prems(1)])
  from Suc.prems(1,2) slot_of_less [of k "txq_cons_ptr ?q"] show ?case
  proof (cases rule: Txq_free_desc_cases)
    case (freed p s1)
    let ?s2 = "tx_cons_inc r s1"
    note f1 = tx_released_fields [OF freed(3)]
    have info: "txq_tx_info (w_txqs s1 r) ! ?m = None"
      using freed(6) ok by (simp add: slots_ok_def)
    have "slots_ok k (txq_prod_ptr (w_txqs s1 r)) (txq_cons_ptr (w_txqs s1 r)) (txq_tx_info (w_txqs s1 r))"
      using freed(5) by (simp add: txq_ring_def Let_def)
    then have "slots_ok k (txq_prod_ptr (w_txqs s1 r)) (txq_cons_ptr (w_txqs s1 r) + 1) (txq_tx_info (w_txqs s1 r))"
      using info Suc.prems(3) by (intro slots_ok_advance) (simp_all add: f1)
    then have r2: "txq_ring r k n b ?s2"
      using freed(5) by (simp add: txq_ring_def tx_cons_inc_def Let_def)
    have ptr: "txq_prod_ptr (w_txqs ?s2 r) = txq_prod_ptr ?q"
        "txq_cons_ptr (w_txqs ?s2 r) = txq_cons_ptr ?q + 1"
      by (simp_all add: tx_cons_inc_def f1)
    from Suc.IH [OF r2] freed(4) Suc.prems(3) ptr obtain c s' where IH:
        "txq_free_buf_loop fuel r ?s2 =
          (if c = txq_prod_ptr ?q then Inr () else Inl (AssertionError ''pkt is not None''), s')"
        "txq_ring r k n b s'" "bufs_inv s'" "txq_cons_ptr (w_txqs s' r) = c"
        "txq_prod_ptr (w_txqs s' r) = txq_prod_ptr ?q" "txq_cons_ptr ?q + 1 \<le> c" "c \<le> txq_prod_ptr ?q"
        "\<forall>p. txq_cons_ptr ?q + 1 \<le> p \<and> p < c \<longrightarrow>
          slot s1 (TxRing r) (slot_of k p) \<noteq> None \<and> slot s' (TxRing r) (slot_of k p) = None"
        "c < txq_prod_ptr ?q \<longrightarrow> slot s1 (TxRing r) (slot_of k c) = None"
      by auto
    have run: "txq_free_buf_loop (Suc fuel) r s = txq_free_buf_loop fuel r ?s2"
      unfolding step using freed(2) by (simp add: run_sq upd_txq_def tx_cons_inc_def)
    have sl1: "slot s1 (TxRing r) m = (if m = ?m then None else slot s (TxRing r) m)" for m
      using freed(6) by (simp add: slot_def)
    have far: "slot_of k x \<noteq> ?m" if "txq_cons_ptr ?q + 1 \<le> x" "x < txq_prod_ptr ?q" for x
      using slot_of_eq [of k x "txq_cons_ptr ?q"] that ok by (auto simp: slots_ok_def)
    have last: "slot s' (TxRing r) ?m = None"
    proof (rule ccontr)
      assume "slot s' (TxRing r) ?m \<noteq> None"
      then have "txq_tx_info (w_txqs s' r) ! ?m \<noteq> None" by (auto simp: slot_def split: if_splits)
      moreover have "slots_ok k (txq_prod_ptr ?q) c (txq_tx_info (w_txqs s' r))"
        using IH(2,4,5) by (simp add: txq_ring_def Let_def)
      ultimately obtain x where "c \<le> x" "x < txq_prod_ptr ?q" "slot_of k x = ?m"
        using slots_ok_window slot_of_less by blast
      with far [of x] IH(6) show False by simp
    qed
    have "slot s (TxRing r) (slot_of k p) \<noteq> None \<and> slot s' (TxRing r) (slot_of k p) = None"
      if p: "txq_cons_ptr ?q \<le> p" "p < c" for p
    proof (cases "p = txq_cons_ptr ?q")
      case True
      with last freed(1) show ?thesis by simp
    next
      case False
      then have "slot_of k p \<noteq> ?m" using p IH(7) by (intro far) auto
      moreover have "slot s1 (TxRing r) (slot_of k p) \<noteq> None \<and> slot s' (TxRing r) (slot_of k p) = None"
        using IH(8) p False by simp
      ultimately show ?thesis by (simp add: sl1)
    qed
    moreover have "c < txq_prod_ptr ?q \<longrightarrow> slot s (TxRing r) (slot_of k c) = None"
      using IH(6,9) far [of c] by (auto simp: sl1)
    ultimately show ?thesis unfolding run
      using IH by (intro exI [of _ c] exI [of _ s']) auto
  next
    case twice
    have "txq_free_buf_loop (Suc fuel) r s = (Inl (AssertionError ''pkt is not None''), s)"
      unfolding step using twice(2) by (simp add: sq_Inl)
    with twice(1) Suc.prems show ?thesis
      by (intro exI [of _ "txq_cons_ptr ?q"] exI [of _ s]) (auto simp del: txq_free_buf_loop.simps)
  qed
qed

section \<open>Opening a ring\<close>

definition program_ring :: "window \<Rightarrow> int \<Rightarrow> int \<Rightarrow> int \<Rightarrow> int \<Rightarrow> mmio list" where
  "program_ring w dma log_blocks log_size cqn =
     [WR w 8 0x40000100,
      WR w 0 (dma AND 0xFFFFF000),
      WR w 4 (dma div 2 ^ 32),
      WR w 8 (0x80020000 OR (256 * log_blocks) OR log_size),
      WR w 8 (0xC0000000 OR cqn),
      WR w 8 0x80800000,
      WR w 8 0x80900000]"

lemma Txq_open_run:
  assumes closed: "txq_hw_regs (w_txqs s self) = None"
    and i: "i = txq_interface (w_txqs s self)"
    and r: "ifc_txq_res (w_ifs s i) = Some r" "res_alloc r = Inr (ix, r')"
    and sz: "0 < sz" "0 < dbs"
    and c: "cq_cqn (w_cqs s c) = Some cqn"
    and pool: "pool_alloc E (w_hw s) (2 ^ floor_log2 sz * (16 * 2 ^ floor_log2 dbs)) = Some (a, bs, h)"
      "int (length bs) = 2 ^ floor_log2 sz * (16 * 2 ^ floor_log2 dbs)"
    and dev: "device_ok E" and inv: "bufs_inv s"
  shows "\<exists>s'. Txq_open E self c sz dbs s = (Inr (), s') \<and>
    w_mmio s' = w_mmio s @ program_ring (fst (res_get_window r' ix)) a
      (int (floor_log2 dbs)) (int (floor_log2 sz)) cqn \<and>
    txq_hw_regs (w_txqs s' self) = Some (fst (res_get_window r' ix)) \<and>
    txq_index (w_txqs s' self) = Some ix \<and> Txq_empty (w_txqs s' self) \<and>
    cq_src_ring (w_cqs s' c) = Some (TxRing self) \<and> cq_handler (w_cqs s' c) = Some ProcessTxCq \<and>
    txq_ring self (floor_log2 sz) (2 ^ floor_log2 dbs) (w_next_region s) s'"
proof -
  have log: "bit_length sz - 1 = int (floor_log2 sz)" "bit_length dbs - 1 = int (floor_log2 dbs)"
    using sz by (simp_all add: bit_length_floor_log2)
  have b: "w_next_region s \<notin> rg_id ` set (drv_allocated_packets (w_drv s))"
    using bufs_inv_pool [OF inv] by (auto simp: pool_inv_def)
  have nat: "nat (2 ^ floor_log2 sz) = 2 ^ floor_log2 sz" by (simp add: nat_power_eq)
  have sl: "slots_ok (floor_log2 sz) 0 0 (replicate (2 ^ floor_log2 sz) None)" by (rule slots_ok_init)
  have sizes: "length (w_mem (wr_state E w x v t) b) = length (w_mem t b)" for w x v t b
    using wr_state_sizes [OF dev, of t w x v] by (simp add: same_sizes_def)
  show ?thesis
    unfolding Txq_open_def
    using assms(1-9) b
    by (simp add: run_simps if_alloc_run if_get_window_run log alloc_region_def nat sl sizes
        get_absolute_address_def program_ring_def Let_def drop_bit_eq_div push_bit_eq_mult
        txq_ring_def Txq_empty_def mult.commute [of 256] regs)
qed

end
