(* ===== verification/Rx_Queue.thy ===== *)
theory Rx_Queue
  imports Tx_Queue
begin

text \<open>
  Class \<open>Rxq\<close> of \<open>mqnic.py\<close>: a receive queue is opened like a transmit queue and then filled
  with empty buffers (\<open>refill_buffers\<close>); processing a completion delivers the packet to the
  interface, gives the buffer back and refills the ring. \<open>Rxq_program\<close> is \<open>open\<close> without its
  last step, the refill.
\<close>

section \<open>Opening and closing\<close>

definition Rxq_program :: "'h env \<Rightarrow> nat \<Rightarrow> nat \<Rightarrow> int \<Rightarrow> int \<Rightarrow> ('h, unit) drv" where
  "Rxq_program E self cqi sz dbs =
     bnd (get_rxq self) (\<lambda>q.
     if rxq_hw_regs q \<noteq> None then throw (Exn ''Already open'') else
     bnd (if_alloc RxqRes (rxq_interface q)) (\<lambda>index.
     sq (upd_rxq self (\<lambda>q. q\<lparr>rxq_index := Some index\<rparr>)) (
     if sz = 0 \<or> dbs = 0 then throw TypeError else
     let log_queue_size = bit_length sz - 1; log_desc_block_size = bit_length dbs - 1;
         desc_block_size = 2 ^ nat log_desc_block_size; size = 2 ^ nat log_queue_size;
         stride = MQNIC_DESC_SIZE * desc_block_size; buf_size = size * stride in
     sq (upd_rxq self (\<lambda>q. q\<lparr>rxq_log_queue_size := log_queue_size,
           rxq_log_desc_block_size := log_desc_block_size,
           rxq_desc_block_size := desc_block_size, rxq_size := size, rxq_size_mask := size - 1,
           rxq_full_size := drop_bit 1 size, rxq_stride := stride,
           rxq_rx_info := replicate (nat size) None, rxq_buf_size := buf_size\<rparr>)) (
     bnd (alloc_region E buf_size) (\<lambda>rg.
     let dma = get_absolute_address rg 0 in
     sq (seqm [
       upd_rxq self (\<lambda>q. q\<lparr>rxq_buf_region := Some rg, rxq_buf_dma := dma,
         rxq_buf := Some (rg_id rg), rxq_prod_ptr := 0, rxq_cons_ptr := 0, rxq_cq := Some cqi\<rparr>),
       upd_cq cqi (\<lambda>c. c\<lparr>cq_src_ring := Some (RxRing self), cq_handler := Some ProcessRxCq\<rparr>)]) (
     bnd (if_get_window RxqRes (rxq_interface q) index) (\<lambda>w.
     sq (seqm [
       upd_rxq self (\<lambda>q. q\<lparr>rxq_hw_regs := Some w\<rparr>),
       write_dword E w MQNIC_QUEUE_CTRL_STATUS_REG (MQNIC_QUEUE_CMD_SET_ENABLE OR 0),
       write_dword E w MQNIC_QUEUE_BASE_ADDR_VF_REG (dma AND 0xFFFFF000),
       write_dword E w (MQNIC_QUEUE_BASE_ADDR_VF_REG + 4) (drop_bit 32 dma),
       write_dword E w MQNIC_QUEUE_CTRL_STATUS_REG
         (MQNIC_QUEUE_CMD_SET_SIZE OR push_bit 8 log_desc_block_size OR log_queue_size)]) (
     bnd (get_cq cqi) (\<lambda>c.
     bnd (case cq_cqn c of None \<Rightarrow> throw TypeError | Some n \<Rightarrow> ret n) (\<lambda>cqn. seqm [
       write_dword E w MQNIC_QUEUE_CTRL_STATUS_REG (MQNIC_QUEUE_CMD_SET_CQN OR cqn),
       write_dword E w MQNIC_QUEUE_CTRL_STATUS_REG
         (MQNIC_QUEUE_CMD_SET_PROD_PTR OR (0 AND MQNIC_QUEUE_PTR_MASK)),
       write_dword E w MQNIC_QUEUE_CTRL_STATUS_REG
         (MQNIC_QUEUE_CMD_SET_CONS_PTR OR (0 AND MQNIC_QUEUE_PTR_MASK))]))))))))))"

definition Rxq_enable :: "'h env \<Rightarrow> nat \<Rightarrow> ('h, unit) drv" where
  "Rxq_enable E self =
     bnd (get_rxq self) (\<lambda>q.
     case rxq_hw_regs q of
       None \<Rightarrow> throw (Exn ''Not open'')
     | Some w \<Rightarrow> seqm [
         write_dword E w MQNIC_QUEUE_CTRL_STATUS_REG (MQNIC_QUEUE_CMD_SET_ENABLE OR 1),
         upd_rxq self (\<lambda>q. q\<lparr>rxq_enabled := True\<rparr>)])"

definition Rxq_disable :: "'h env \<Rightarrow> nat \<Rightarrow> ('h, unit) drv" where
  "Rxq_disable E self =
     bnd (get_rxq self) (\<lambda>q.
     case rxq_hw_regs q of
       None \<Rightarrow> ret ()
     | Some w \<Rightarrow> seqm [
         write_dword E w MQNIC_QUEUE_CTRL_STATUS_REG (MQNIC_QUEUE_CMD_SET_ENABLE OR 0),
         upd_rxq self (\<lambda>q. q\<lparr>rxq_enabled := False\<rparr>)])"

definition Rxq_close :: "'h env \<Rightarrow> nat \<Rightarrow> ('h, unit) drv" where
  "Rxq_close E self =
     bnd (get_rxq self) (\<lambda>q.
     if rxq_hw_regs q = None then ret () else
     sq (Rxq_disable E self) (
     sq (case rxq_cq q of
           None \<Rightarrow> ret ()
         | Some c \<Rightarrow> upd_cq c (\<lambda>c. c\<lparr>cq_src_ring := None, cq_handler := None\<rparr>)) (
     sq (upd_rxq self (\<lambda>q. q\<lparr>rxq_cq := None, rxq_hw_regs := None\<rparr>)) (
     bnd (attr (rxq_index q)) (\<lambda>index.
     sq (if_free RxqRes (rxq_interface q) index)
     (upd_rxq self (\<lambda>q. q\<lparr>rxq_index := None\<rparr>)))))))"

section \<open>Pointers, buffers and descriptors\<close>

definition Rxq_empty :: "rxq \<Rightarrow> bool" where
  "Rxq_empty q \<longleftrightarrow> rxq_prod_ptr q = rxq_cons_ptr q"

definition Rxq_full :: "rxq \<Rightarrow> bool" where
  "Rxq_full q \<longleftrightarrow> rxq_prod_ptr q - rxq_cons_ptr q \<ge> rxq_full_size q"

definition Rxq_read_cons_ptr :: "'h env \<Rightarrow> nat \<Rightarrow> ('h, unit) drv" where
  "Rxq_read_cons_ptr E self =
     bnd (get_rxq self) (\<lambda>q.
     bnd (attr (rxq_hw_regs q)) (\<lambda>w.
     bnd (read_dword E w MQNIC_QUEUE_PTR_REG) (\<lambda>val.
     upd_rxq self (\<lambda>q. q\<lparr>rxq_cons_ptr :=
       rxq_cons_ptr q + ((drop_bit 16 val - rxq_cons_ptr q) AND MQNIC_QUEUE_PTR_MASK)\<rparr>))))"

definition Rxq_write_prod_ptr :: "'h env \<Rightarrow> nat \<Rightarrow> ('h, unit) drv" where
  "Rxq_write_prod_ptr E self =
     bnd (get_rxq self) (\<lambda>q.
     bnd (attr (rxq_hw_regs q)) (\<lambda>w.
     write_dword E w MQNIC_QUEUE_CTRL_STATUS_REG
       (MQNIC_QUEUE_CMD_SET_PROD_PTR OR (rxq_prod_ptr q AND MQNIC_QUEUE_PTR_MASK))))"

definition Rxq_free_desc :: "nat \<Rightarrow> int \<Rightarrow> ('h, unit) drv" where
  "Rxq_free_desc self index =
     bnd (get_rxq self) (\<lambda>q.
     bnd (lift_res (py_nth (rxq_rx_info q) index)) (\<lambda>pkt.
     sq (free_pkt pkt) (
     bnd (lift_res (py_upd (rxq_rx_info q) index None)) (\<lambda>info.
     upd_rxq self (\<lambda>q. q\<lparr>rxq_rx_info := info\<rparr>)))))"

primrec rxq_free_buf_loop :: "nat \<Rightarrow> nat \<Rightarrow> ('h, unit) drv" where
  "rxq_free_buf_loop 0 self = bnd (get_rxq self) (\<lambda>q. if Rxq_empty q then ret () else throw NoFuel)"
| "rxq_free_buf_loop (Suc n) self =
     bnd (get_rxq self) (\<lambda>q.
     if Rxq_empty q then ret () else
     sq (Rxq_free_desc self (rxq_cons_ptr q AND rxq_size_mask q)) (
     sq (upd_rxq self (\<lambda>q. q\<lparr>rxq_cons_ptr := rxq_cons_ptr q + 1\<rparr>))
     (rxq_free_buf_loop n self)))"

definition Rxq_free_buf :: "nat \<Rightarrow> ('h, unit) drv" where
  "Rxq_free_buf self =
     bnd (get_rxq self) (\<lambda>q. rxq_free_buf_loop (nat (rxq_prod_ptr q - rxq_cons_ptr q)) self)"

definition Rxq_prepare_desc :: "'h env \<Rightarrow> nat \<Rightarrow> int \<Rightarrow> ('h, unit) drv" where
  "Rxq_prepare_desc E self index =
     bnd (alloc_pkt E) (\<lambda>pkt.
     bnd (get_rxq self) (\<lambda>q.
     bnd (lift_res (py_upd (rxq_rx_info q) index (Some pkt))) (\<lambda>info.
     sq (upd_rxq self (\<lambda>q. q\<lparr>rxq_rx_info := info\<rparr>)) (
     bnd (the_buf (rxq_buf q)) (\<lambda>b.
     desc_loop [FL, FL, FQ] [0] (rxq_desc_block_size q) b (index * rxq_stride q)
       (get_absolute_address pkt 0) (rg_size pkt) 0 (map int [0..<nat (rxq_desc_block_size q)]))))))"

text \<open>\<open>for k in range(missing)\<close>: prepare the descriptor of the producer pointer, move it on.\<close>

primrec rx_refill_loop :: "'h env \<Rightarrow> nat \<Rightarrow> nat \<Rightarrow> ('h, unit) drv" where
  "rx_refill_loop E 0 self = ret ()"
| "rx_refill_loop E (Suc n) self =
     bnd (get_rxq self) (\<lambda>q.
     sq (Rxq_prepare_desc E self (rxq_prod_ptr q AND rxq_size_mask q)) (
     sq (upd_rxq self (\<lambda>q. q\<lparr>rxq_prod_ptr := rxq_prod_ptr q + 1\<rparr>))
     (rx_refill_loop E n self)))"

definition Rxq_refill_buffers :: "'h env \<Rightarrow> nat \<Rightarrow> ('h, unit) drv" where
  "Rxq_refill_buffers E self =
     bnd (get_rxq self) (\<lambda>q.
     let missing = rxq_size q - (rxq_prod_ptr q - rxq_cons_ptr q) in
     if missing < 8 then ret ()
     else sq (rx_refill_loop E (nat missing) self) (Rxq_write_prod_ptr E self))"

definition Rxq_open :: "'h env \<Rightarrow> nat \<Rightarrow> nat \<Rightarrow> int \<Rightarrow> int \<Rightarrow> ('h, unit) drv" where
  "Rxq_open E self cqi sz dbs = sq (Rxq_program E self cqi sz dbs) (Rxq_refill_buffers E self)"

section \<open>Completions\<close>

definition src_rxq :: "ring_ref option \<Rightarrow> ('h, nat) drv" where
  "src_rxq r = (case r of Some (RxRing i) \<Rightarrow> ret i | _ \<Rightarrow> throw AttributeError)"

text \<open>
  The packet object of one completion; \<open>pkt[:length]\<close> of an empty slot (\<open>None\<close>) raises
  \<open>TypeError\<close>.
\<close>

definition rx_packet :: "memory \<Rightarrow> region \<Rightarrow> rxq \<Rightarrow> int list \<Rightarrow> packet" where
  "rx_packet m pkt ring cpl =
     (Packet_init [])\<lparr>pk_data := take (nat (cpl ! 2)) (m (rg_id pkt)), pk_queue := rxq_index ring,
        pk_timestamp_ns := Some (cpl ! 3), pk_timestamp_s := Some (cpl ! 4),
        pk_rx_checksum := Some (cpl ! 5)\<rparr>"

primrec rx_cpl_loop :: "nat \<Rightarrow> nat \<Rightarrow> nat \<Rightarrow> int \<Rightarrow> ('h, int) drv" where
  "rx_cpl_loop 0 cqi r c = throw NoFuel"
| "rx_cpl_loop (Suc n) cqi r c =
     bnd (get_cq cqi) (\<lambda>cq.
     bnd (get_rxq r) (\<lambda>ring.
     bnd (the_buf (cq_buf cq)) (\<lambda>b.
     bnd (mem_unpack cpl_fmt b ((c AND cq_size_mask cq) * cq_stride cq)) (\<lambda>cpl_data.
     let ring_index = cpl_data ! 1 AND rxq_size_mask ring in
     if (last cpl_data AND 0x80000000 \<noteq> 0) = (c AND cq_size cq \<noteq> 0) then ret c
     else
       bnd (lift_res (py_nth (rxq_rx_info ring) ring_index)) (\<lambda>slt.
       bnd (case slt of None \<Rightarrow> throw TypeError | Some pkt \<Rightarrow> ret pkt) (\<lambda>pkt.
       bnd (gets w_mem) (\<lambda>m.
       sq (upd_if (cq_interface cq) (\<lambda>i. i\<lparr>ifc_pkt_rx_queue :=
             ifc_pkt_rx_queue i @ [rx_packet m pkt ring cpl_data], ifc_pkt_rx_sync := True\<rparr>)) (
       sq (Rxq_free_desc r ring_index) (rx_cpl_loop n cqi r (c + 1))))))))))"

text \<open>The part headed \<open>process ring\<close>.\<close>

definition Rxq_reclaim :: "nat \<Rightarrow> ('h, unit) drv" where
  "Rxq_reclaim r =
     bnd (get_rxq r) (\<lambda>ring.
     bnd (lift_res (reclaim_ptr (nat (rxq_prod_ptr ring - rxq_cons_ptr ring)) (rxq_size_mask ring)
       (rxq_prod_ptr ring) (rxq_rx_info ring) (rxq_cons_ptr ring))) (\<lambda>rc.
     upd_rxq r (\<lambda>q. q\<lparr>rxq_cons_ptr := rc\<rparr>)))"

definition Rxq_process_rx_cq :: "'h env \<Rightarrow> nat \<Rightarrow> ('h, unit) drv" where
  "Rxq_process_rx_cq E cqi =
     bnd (get_cq cqi) (\<lambda>cq.
     bnd (get_if (cq_interface cq)) (\<lambda>ifc.
     bnd (src_rxq (cq_src_ring cq)) (\<lambda>r.
     if \<not> ifc_port_up ifc then ret () else
     bnd (rx_cpl_loop (Suc (nat (cq_size cq))) cqi r (cq_cons_ptr cq)) (\<lambda>c.
     sq (upd_cq cqi (\<lambda>q. q\<lparr>cq_cons_ptr := c\<rparr>)) (
     sq (Cq_write_cons_ptr E cqi) (
     sq (Rxq_reclaim r) (Rxq_refill_buffers E r)))))))"

section \<open>The ring's invariant\<close>

definition rxq_ring :: "nat \<Rightarrow> nat \<Rightarrow> nat \<Rightarrow> nat \<Rightarrow> 'h world \<Rightarrow> bool" where
  "rxq_ring i k n b s \<longleftrightarrow> (let q = w_rxqs s i in
     0 < n \<and> rxq_size q = 2 ^ k \<and> rxq_size_mask q = 2 ^ k - 1 \<and> rxq_full_size q = 2 ^ k div 2 \<and>
     rxq_desc_block_size q = int n \<and> rxq_stride q = 16 * int n \<and> rxq_buf q = Some b \<and>
     b < w_next_region s \<and> b \<notin> rg_id ` set (drv_allocated_packets (w_drv s)) \<and>
     int (length (w_mem s b)) = 2 ^ k * (16 * int n) \<and>
     slots_ok k (rxq_prod_ptr q) (rxq_cons_ptr q) (rxq_rx_info q))"

lemma slot_rxq_update:
  assumes "w_rxqs s' = (w_rxqs s)(i := q')" "w_txqs s' = w_txqs s"
    "rxq_rx_info q' = (rxq_rx_info (w_rxqs s i))[m := v]" "m < length (rxq_rx_info (w_rxqs s i))"
  shows "slot s' r n = (if r = RxRing i \<and> n = m then v else slot s r n)"
  using assms by (cases r) (auto simp: slot_def)

text \<open>Other rings are not concerned by what happens to one.\<close>

lemma rxq_ring_other:
  assumes "rxq_ring i k n b s" "w_rxqs s' i = w_rxqs s i" "w_next_region s \<le> w_next_region s'"
    "length (w_mem s' b) = length (w_mem s b)"
    "\<And>p. p \<in> set (drv_allocated_packets (w_drv s')) \<Longrightarrow>
       p \<in> set (drv_allocated_packets (w_drv s)) \<or> rg_id p = w_next_region s"
  shows "rxq_ring i k n b s'"
  using assms by (fastforce simp: rxq_ring_def Let_def)

lemma rxq_ring_bus:
  "rxq_ring i k n b s \<Longrightarrow> bus_frame s s' \<Longrightarrow> same_sizes (w_mem s) (w_mem s') \<Longrightarrow> rxq_ring i k n b s'"
  by (simp add: rxq_ring_def Let_def bus_frame_fields same_sizes_def)

section \<open>Releasing descriptors\<close>

definition rx_released :: "nat \<Rightarrow> 'h world \<Rightarrow> 'h world \<Rightarrow> bool" where
  "rx_released r s s' \<longleftrightarrow> (\<exists>F info. length info = length (rxq_rx_info (w_rxqs s r)) \<and>
     s' = s\<lparr>w_drv := (w_drv s)\<lparr>drv_free_packets := F\<rparr>,
            w_rxqs := (w_rxqs s)(r := (w_rxqs s r)\<lparr>rxq_rx_info := info\<rparr>)\<rparr>)"

lemma rx_released_refl [simp]: "rx_released r s s"
  unfolding rx_released_def
  by (intro exI [of _ "drv_free_packets (w_drv s)"] exI [of _ "rxq_rx_info (w_rxqs s r)"]) simp

lemma rx_released_trans: "rx_released r s s' \<Longrightarrow> rx_released r s' s'' \<Longrightarrow> rx_released r s s''"
  unfolding rx_released_def
proof (elim exE conjE, goal_cases)
  case (1 F G info info')
  then show ?case by (intro exI [of _ G] exI [of _ info']) simp
qed

lemma rx_released_fields:
  assumes "rx_released r s s'"
  shows "w_mem s' = w_mem s" "w_mmio s' = w_mmio s" "w_cqs s' = w_cqs s" "w_txqs s' = w_txqs s"
    "w_ifs s' = w_ifs s" "w_next_region s' = w_next_region s"
    "drv_allocated_packets (w_drv s') = drv_allocated_packets (w_drv s)"
    "rxq_prod_ptr (w_rxqs s' j) = rxq_prod_ptr (w_rxqs s j)"
    "rxq_cons_ptr (w_rxqs s' j) = rxq_cons_ptr (w_rxqs s j)"
    "rxq_size_mask (w_rxqs s' j) = rxq_size_mask (w_rxqs s j)"
    "j \<noteq> r \<Longrightarrow> w_rxqs s' j = w_rxqs s j"
  using assms by (auto simp: rx_released_def)

lemma Rxq_free_desc_Some:
  assumes "bufs_inv s" "slot s (RxRing r) m = Some p"
  shows "\<exists>s'. Rxq_free_desc r (int m) s = (Inr (), s') \<and> rx_released r s s' \<and> bufs_inv s' \<and>
    rxq_rx_info (w_rxqs s' r) = (rxq_rx_info (w_rxqs s r))[m := None] \<and>
    outstanding s' = outstanding s - {p}"
proof -
  let ?q = "w_rxqs s r"
  from assms(2) have m: "m < length (rxq_rx_info ?q)" "rxq_rx_info ?q ! m = Some p"
    by (auto simp: slot_def split: if_splits)
  have out: "p \<in> outstanding s" using assms by (rule bufs_inv_outstanding)
  then have al: "p \<in> set (drv_allocated_packets (w_drv s))" by (simp add: outstanding_def)
  let ?s' = "s\<lparr>w_drv := (w_drv s)\<lparr>drv_free_packets := drv_free_packets (w_drv s) @ [p]\<rparr>,
    w_rxqs := (w_rxqs s)(r := ?q\<lparr>rxq_rx_info := (rxq_rx_info ?q)[m := None]\<rparr>)\<rparr>"
  have run: "Rxq_free_desc r (int m) s = (Inr (), ?s')"
    using m al by (simp add: Rxq_free_desc_def run_simps free_pkt_Some)
  have o: "outstanding ?s' = outstanding s - {p}" by (auto simp: outstanding_def)
  have "pool_inv ?s'"
    using bufs_inv_pool [OF assms(1)] out by (auto simp: pool_inv_def outstanding_def)
  moreover have "slot ?s' r' n' = (if r' = RxRing r \<and> n' = m then None else slot s r' n')" for r' n'
    using m by (intro slot_rxq_update [where q' = "w_rxqs ?s' r"]) simp_all
  ultimately have "bufs_inv ?s'" using o by (intro bufs_inv_release [OF assms(1) _ assms(2)]) auto
  moreover have "rx_released r s ?s'" unfolding rx_released_def
    by (intro exI [of _ "drv_free_packets (w_drv ?s')"] exI [of _ "rxq_rx_info (w_rxqs ?s' r)"]) simp
  ultimately show ?thesis using run o by (intro exI [of _ ?s']) simp
qed

text \<open>Completing a slot twice raises, and changes nothing.\<close>

lemma Rxq_free_desc_None:
  assumes "m < length (rxq_rx_info (w_rxqs s r))" "slot s (RxRing r) m = None"
  shows "Rxq_free_desc r (int m) s = (Inl (AssertionError ''pkt is not None''), s)"
  using assms by (simp add: Rxq_free_desc_def run_simps slot_def free_pkt_def)

lemma Rxq_free_desc_mask:
  assumes "rxq_ring r k n b s"
  shows "Rxq_free_desc r (x AND rxq_size_mask (w_rxqs s r)) = Rxq_free_desc r (int (slot_of k x))"
  using assms by (simp add: rxq_ring_def Let_def and_mask_mod int_slot_of)

lemma rxq_ring_released:
  assumes ring: "rxq_ring r k n b s" and rel: "rx_released r s s'"
    and sl: "\<And>m. rxq_rx_info (w_rxqs s' r) ! m \<noteq> None \<Longrightarrow> rxq_rx_info (w_rxqs s r) ! m \<noteq> None"
  shows "rxq_ring r k n b s'"
proof -
  from rel obtain F info where l: "length info = length (rxq_rx_info (w_rxqs s r))"
    and s': "s' = s\<lparr>w_drv := (w_drv s)\<lparr>drv_free_packets := F\<rparr>,
            w_rxqs := (w_rxqs s)(r := (w_rxqs s r)\<lparr>rxq_rx_info := info\<rparr>)\<rparr>"
    by (auto simp: rx_released_def)
  let ?q = "w_rxqs s r"
  have "slots_ok k (rxq_prod_ptr ?q) (rxq_cons_ptr ?q) (rxq_rx_info ?q)"
    using ring by (simp add: rxq_ring_def Let_def)
  then have "slots_ok k (rxq_prod_ptr ?q) (rxq_cons_ptr ?q) info"
    using l sl unfolding slots_ok_def s' by simp
  with ring show ?thesis by (simp add: rxq_ring_def s' Let_def)
qed

lemma Rxq_free_desc_cases:
  assumes ring: "rxq_ring r kr n br s" and inv: "bufs_inv s" and "m < 2 ^ kr"
  obtains (freed) p s' where "slot s (RxRing r) m = Some p"
      "Rxq_free_desc r (int m) s = (Inr (), s')" "rx_released r s s'" "bufs_inv s'"
      "rxq_ring r kr n br s'" "rxq_rx_info (w_rxqs s' r) = (rxq_rx_info (w_rxqs s r))[m := None]"
      "outstanding s' = outstanding s - {p}"
  | (twice) "slot s (RxRing r) m = None"
      "Rxq_free_desc r (int m) s = (Inl (AssertionError ''pkt is not None''), s)"
proof (cases "slot s (RxRing r) m")
  case None
  have "length (rxq_rx_info (w_rxqs s r)) = 2 ^ kr"
    using ring by (simp add: rxq_ring_def Let_def slots_ok_def)
  with None assms(3) show ?thesis by (intro twice Rxq_free_desc_None) simp_all
next
  case (Some p)
  from Rxq_free_desc_Some [OF inv Some] obtain s'
    where s': "Rxq_free_desc r (int m) s = (Inr (), s')" "rx_released r s s'" "bufs_inv s'"
      "rxq_rx_info (w_rxqs s' r) = (rxq_rx_info (w_rxqs s r))[m := None]"
      "outstanding s' = outstanding s - {p}"
    by blast
  have "rxq_ring r kr n br s'"
  proof (rule rxq_ring_released [OF ring s'(2)])
    fix x assume x: "rxq_rx_info (w_rxqs s' r) ! x \<noteq> None"
    have l: "m < length (rxq_rx_info (w_rxqs s r))" using Some by (simp add: slot_def split: if_splits)
    show "rxq_rx_info (w_rxqs s r) ! x \<noteq> None"
      using x l unfolding s'(4) by (cases "x = m") auto
  qed
  with Some s' show ?thesis by (intro freed)
qed

section \<open>Filling the ring\<close>

text \<open>All packet buffers have the driver's buffer size, in memory and on the bus.\<close>

definition packets_ok :: "'h world \<Rightarrow> bool" where
  "packets_ok s \<longleftrightarrow> drv_pkt_buf_size (w_drv s) = 16384 \<and>
     (\<forall>p \<in> set (drv_allocated_packets (w_drv s)).
        rg_size p = 16384 \<and> 0 \<le> rg_addr p \<and> rg_addr p + 16384 < 2 ^ 64 \<and>
        length (w_mem s (rg_id p)) = 16384)"

lemma alloc_pkt_packets_ok:
  assumes dev: "device_ok E" and inv: "pool_inv s" and ok: "packets_ok s"
    and a: "alloc_pkt E s = (Inr p, s')"
  shows "packets_ok s'" "p \<in> set (drv_allocated_packets (w_drv s'))"
proof -
  have "packets_ok s' \<and> p \<in> set (drv_allocated_packets (w_drv s'))"
  proof (cases rule: alloc_pkt_cases [of s E])
    case (reuse q rest)
    with a ok inv show ?thesis by (auto simp: packets_ok_def pool_inv_def)
  next
    case (fresh ad bs h q)
    with dev ok have "length bs = 16384" "0 \<le> ad" "ad + 16384 < 2 ^ 64"
      by (fastforce simp: device_ok_def packets_ok_def)+
    moreover have "rg_id x \<noteq> w_next_region s" if "x \<in> set (drv_allocated_packets (w_drv s))" for x
      using that inv by (auto simp: pool_inv_def)
    ultimately show ?thesis using fresh a ok by (auto simp: packets_ok_def)
  next
    case fail
    with a show ?thesis by simp
  qed
  then show "packets_ok s'" "p \<in> set (drv_allocated_packets (w_drv s'))" by auto
qed

text \<open>The block of pointer \<open>p\<close> describes the whole buffer in its slot.\<close>

definition rx_segs :: "nat \<Rightarrow> (int \<times> int) list" where
  "rx_segs n = rest_segs (int n) 16384 0 (map int [0..<n])"

definition rx_armed :: "nat \<Rightarrow> nat \<Rightarrow> nat \<Rightarrow> nat \<Rightarrow> 'h world \<Rightarrow> int \<Rightarrow> bool" where
  "rx_armed i k n b s p \<longleftrightarrow> (\<exists>pkt. slot s (RxRing i) (slot_of k p) = Some pkt \<and>
     map (\<lambda>d. read_desc (w_mem s b) (block_pos k n p + 16 * int d)) [0..<n] =
       map (\<lambda>sg. Inr (desc_words (rg_addr pkt) sg)) (rx_segs n))"

text \<open>The segments of a block cover the buffer, in order and without overlap.\<close>

lemma read_rx_segs:
  assumes "0 < n" "length buf = 16384"
  shows "read_segs buf (rx_segs n) = buf"
  using read_rest_segs [of 0 n 0 buf] assms by (simp add: rx_segs_def)

lemma Rxq_prepare_desc_run:
  fixes s :: "'h world" and i k n :: nat and p :: int
  defines "q \<equiv> w_rxqs s i"
  defines "base \<equiv> block_pos k n p"
  assumes ring: "rxq_ring i k n b s" and inv: "bufs_inv s" and dev: "device_ok E"
    and ok: "packets_ok s" and alloc: "alloc_pkt E s = (Inr pkt, s2)"
  shows "\<exists>buf'. Rxq_prepare_desc E i (int (slot_of k p)) s = (Inr (), s2\<lparr>
        w_rxqs := (w_rxqs s)(i := q\<lparr>rxq_rx_info := (rxq_rx_info q)[slot_of k p := Some pkt]\<rparr>),
        w_mem := (w_mem s2)(b := buf')\<rparr>) \<and>
      rg_id pkt \<noteq> b \<and> length buf' = length (w_mem s b) \<and>
      map (\<lambda>d. read_desc buf' (base + 16 * int d)) [0..<n] =
        map (\<lambda>sg. Inr (desc_words (rg_addr pkt) sg)) (rx_segs n) \<and>
      (\<forall>pos. 0 \<le> pos \<and> (pos + 16 \<le> base \<or> base + 16 * int n \<le> pos) \<longrightarrow>
         read_desc buf' pos = read_desc (w_mem s b) pos)"
proof -
  let ?ix = "slot_of k p"
  let ?q1 = "q\<lparr>rxq_rx_info := (rxq_rx_info q)[?ix := Some pkt]\<rparr>"
  from ring have r: "0 < n" "rxq_desc_block_size q = int n"
      "rxq_stride q = 16 * int n" "rxq_buf q = Some b" "b < w_next_region s"
      "b \<notin> rg_id ` set (drv_allocated_packets (w_drv s))"
      "int (length (w_mem s b)) = 2 ^ k * (16 * int n)"
      "slots_ok k (rxq_prod_ptr q) (rxq_cons_ptr q) (rxq_rx_info q)"
    by (simp_all add: rxq_ring_def q_def Let_def)
  have pool: "pool_inv s" using inv by (rule bufs_inv_pool)
  note fr = alloc_pkt_frame [OF alloc pool]
  from alloc_pkt_packets_ok [OF dev pool ok alloc]
  have pk: "rg_size pkt = 16384" "0 \<le> rg_addr pkt" "rg_addr pkt + 16384 < 2 ^ 64"
    by (auto simp: packets_ok_def)
  have pb: "rg_id pkt \<noteq> b" using fr(11) r(5,6) by auto
  have mb: "w_mem s2 b = w_mem s b" using r(5) by (rule fr(9))
  have len: "length (rxq_rx_info q) = 2 ^ k" using r(8) by (simp add: slots_ok_def)
  have base: "0 \<le> base" "base + 16 * int n \<le> int (length (w_mem s b))"
    using block_pos_fits [of k n p] r(7) by (auto simp: base_def block_pos_def)
  let ?s3 = "s2\<lparr>w_rxqs := (w_rxqs s)(i := ?q1)\<rparr>"
  have "([FL, FL, FQ], [0]) \<in> desc_fmts" by (simp add: desc_fmts_def)
  from desc_loop_run [OF this, of 0 n base ?s3 b 0 16384 "rg_addr pkt"] obtain buf'
    where b': "desc_loop [FL, FL, FQ] [0] (int n) b base (rg_addr pkt) 16384 0 (map int [0..<n]) ?s3 =
        (Inr (), ?s3\<lparr>w_mem := (w_mem ?s3)(b := buf')\<rparr>)" "length buf' = length (w_mem s b)"
      "\<forall>pos. 0 \<le> pos \<and> (pos + 16 \<le> base \<or> base + 16 * int n \<le> pos) \<longrightarrow>
         read_desc buf' pos = read_desc (w_mem s b) pos"
      "map (\<lambda>d. read_desc buf' (base + 16 * int d)) [0..<n] =
         map (\<lambda>sg. Inr (desc_words (rg_addr pkt) sg)) (rx_segs n)"
    using base pk mb by (auto simp: rx_segs_def)
  have bs: "int ?ix * rxq_stride q = base" by (simp add: base_def block_pos_def r(3))
  have "Rxq_prepare_desc E i (int ?ix) s = (Inr (), s2\<lparr>w_rxqs := (w_rxqs s)(i := ?q1),
        w_mem := (w_mem s2)(b := buf')\<rparr>)"
    using b'(1)
    by (simp add: Rxq_prepare_desc_def run_simps alloc fr(2) q_def [symmetric] len r(2,4) bs
        the_buf_def get_absolute_address_def pk(1))
  with pb b'(2-4) show ?thesis by blast
qed

text \<open>What filling ring \<open>i\<close> leaves alone.\<close>

definition rx_frame :: "nat \<Rightarrow> 'h world \<Rightarrow> 'h world \<Rightarrow> bool" where
  "rx_frame i s s' \<longleftrightarrow> w_cqs s' = w_cqs s \<and> w_ifs s' = w_ifs s \<and>
     w_txqs s' = w_txqs s \<and> (\<forall>j. j \<noteq> i \<longrightarrow> w_rxqs s' j = w_rxqs s j) \<and>
     rxq_cons_ptr (w_rxqs s' i) = rxq_cons_ptr (w_rxqs s i) \<and>
     rxq_hw_regs (w_rxqs s' i) = rxq_hw_regs (w_rxqs s i) \<and>
     w_next_region s \<le> w_next_region s' \<and>
     (\<forall>b < w_next_region s. length (w_mem s' b) = length (w_mem s b)) \<and>
     (\<forall>p \<in> set (drv_allocated_packets (w_drv s')).
        p \<in> set (drv_allocated_packets (w_drv s)) \<or> w_next_region s \<le> rg_id p)"

definition rx_fill_frame :: "nat \<Rightarrow> 'h world \<Rightarrow> 'h world \<Rightarrow> bool" where
  "rx_fill_frame i s s' \<longleftrightarrow> rx_frame i s s' \<and> w_mmio s' = w_mmio s"

lemma rx_frame_refl [simp]: "rx_frame i s s"
  by (simp add: rx_frame_def)

lemma rx_fill_frame_refl [simp]: "rx_fill_frame i s s"
  by (simp add: rx_fill_frame_def rx_frame_def)

lemma rx_frame_trans:
  assumes "rx_frame i s s'" "rx_frame i s' s''"
  shows "rx_frame i s s''"
proof -
  have "p \<in> set (drv_allocated_packets (w_drv s)) \<or> w_next_region s \<le> rg_id p"
    if "p \<in> set (drv_allocated_packets (w_drv s''))" for p
    using that assms unfolding rx_frame_def by (meson le_trans)
  with assms show ?thesis by (simp add: rx_frame_def)
qed

lemma rx_fill_frame_trans: "rx_fill_frame i s s' \<Longrightarrow> rx_fill_frame i s' s'' \<Longrightarrow> rx_fill_frame i s s''"
  by (auto simp: rx_fill_frame_def intro: rx_frame_trans)

lemma rx_frame_wr: "device_ok E \<Longrightarrow> rx_frame i s s' \<Longrightarrow> rx_frame i s (wr_state E w a v s')"
  using wr_state_sizes [of E s' w a v] by (simp add: rx_frame_def same_sizes_def)

text \<open>One round of the loop.\<close>

definition rx_fill_one :: "'h env \<Rightarrow> nat \<Rightarrow> ('h, unit) drv" where
  "rx_fill_one E self = bnd (get_rxq self) (\<lambda>q.
     sq (Rxq_prepare_desc E self (rxq_prod_ptr q AND rxq_size_mask q))
     (upd_rxq self (\<lambda>q. q\<lparr>rxq_prod_ptr := rxq_prod_ptr q + 1\<rparr>)))"

lemma rx_refill_loop_Suc:
  "rx_refill_loop E (Suc n) self = sq (rx_fill_one E self) (rx_refill_loop E n self)"
  by (simp add: rx_fill_one_def sq_def bnd_assoc)

lemma rx_fill_one_ok:
  assumes ring: "rxq_ring i k n b s" and inv: "bufs_inv s" and dev: "device_ok E"
    and ok: "packets_ok s" and alloc: "alloc_pkt E s = (Inr pkt, s2)"
    and room: "rxq_prod_ptr (w_rxqs s i) < rxq_cons_ptr (w_rxqs s i) + 2 ^ k"
  shows "\<exists>s'. rx_fill_one E i s = (Inr (), s') \<and> rx_fill_frame i s s' \<and>
    rxq_ring i k n b s' \<and> bufs_inv s' \<and> packets_ok s' \<and>
    rxq_prod_ptr (w_rxqs s' i) = rxq_prod_ptr (w_rxqs s i) + 1 \<and>
    (\<forall>p. rxq_cons_ptr (w_rxqs s i) \<le> p \<and> p < rxq_prod_ptr (w_rxqs s i) \<and> rx_armed i k n b s p \<longrightarrow>
      rx_armed i k n b s' p) \<and>
    rx_armed i k n b s' (rxq_prod_ptr (w_rxqs s i))"
proof -
  let ?q = "w_rxqs s i" let ?p = "rxq_prod_ptr ?q" let ?ix = "slot_of k ?p"
  from Rxq_prepare_desc_run [OF ring inv dev ok alloc, of ?p] obtain buf'
    where prep: "Rxq_prepare_desc E i (int ?ix) s = (Inr (), s2\<lparr>
        w_rxqs := (w_rxqs s)(i := ?q\<lparr>rxq_rx_info := (rxq_rx_info ?q)[?ix := Some pkt]\<rparr>),
        w_mem := (w_mem s2)(b := buf')\<rparr>)"
      and pb: "rg_id pkt \<noteq> b" and len: "length buf' = length (w_mem s b)"
      and desc: "map (\<lambda>d. read_desc buf' (block_pos k n ?p + 16 * int d)) [0..<n] =
        map (\<lambda>sg. Inr (desc_words (rg_addr pkt) sg)) (rx_segs n)"
      and oth: "\<forall>pos. 0 \<le> pos \<and> (pos + 16 \<le> block_pos k n ?p \<or> block_pos k n ?p + 16 * int n \<le> pos) \<longrightarrow>
         read_desc buf' pos = read_desc (w_mem s b) pos"
    by blast
  have pool: "pool_inv s" using inv by (rule bufs_inv_pool)
  note fr = alloc_pkt_frame [OF alloc pool]
  note ok2 = alloc_pkt_packets_ok [OF dev pool ok alloc]
  from ring have sl: "slots_ok k ?p (rxq_cons_ptr ?q) (rxq_rx_info ?q)"
    and msk: "rxq_size_mask ?q = 2 ^ k - 1" and b: "b < w_next_region s"
      "b \<notin> rg_id ` set (drv_allocated_packets (w_drv s))"
    by (simp_all add: rxq_ring_def Let_def)
  have len_info: "?ix < length (rxq_rx_info ?q)" using sl by (simp add: slots_ok_def)
  let ?q' = "?q\<lparr>rxq_rx_info := (rxq_rx_info ?q)[?ix := Some pkt], rxq_prod_ptr := ?p + 1\<rparr>"
  define s' where "s' = s2\<lparr>w_rxqs := (w_rxqs s)(i := ?q'), w_mem := (w_mem s2)(b := buf')\<rparr>"
  have ix: "?p AND rxq_size_mask ?q = int ?ix" by (simp add: msk int_slot_of and_mask_mod)
  have run: "rx_fill_one E i s = (Inr (), s')"
    by (simp add: rx_fill_one_def run_bnd run_sq get_rxq_def ix prep upd_rxq_def s'_def)
  have "length (w_mem s' x) = length (w_mem s x)" if "x < w_next_region s" for x
    using that len by (cases "x = b") (simp_all add: s'_def fr(9) alloc_pkt_frame(9) [OF alloc pool])
  moreover have "x \<in> set (drv_allocated_packets (w_drv s)) \<or> w_next_region s \<le> rg_id x"
    if "x \<in> set (drv_allocated_packets (w_drv s'))" for x
    using that fr(8,11) by (auto simp: s'_def)
  ultimately have frame: "rx_fill_frame i s s'"
    by (simp add: rx_fill_frame_def rx_frame_def s'_def fr(1-7))
  have slots: "slot s' r' n' = (if r' = RxRing i \<and> n' = ?ix then Some pkt else slot s r' n')" for r' n'
    using len_info by (intro slot_rxq_update [where q' = ?q']) (simp_all add: s'_def fr(1))
  have ring': "rxq_ring i k n b s'"
    using ring slots_ok_put [OF sl room, of "Some pkt"] fr(7,8,11) len
    unfolding rxq_ring_def s'_def Let_def by auto
  have inv': "bufs_inv s'"
  proof (rule bufs_inv_fill [OF inv])
    from pkt.alloc_fresh [OF pool alloc]
    show "pool_inv s'" "pkt \<notin> outstanding s" "outstanding s' = insert pkt (outstanding s)"
      by (simp_all add: s'_def pool_inv_def outstanding_def)
  qed (rule slots)
  have ok': "packets_ok s'"
    using ok2 b fr(8) pb by (auto simp: packets_ok_def s'_def)
  have mem: "w_mem s' b = buf'" by (simp add: s'_def)
  have old: "rx_armed i k n b s' p"
    if p: "rxq_cons_ptr ?q \<le> p" "p < ?p" "rx_armed i k n b s p" for p
  proof -
    have ne: "slot_of k p \<noteq> ?ix" using slot_of_eq [of k p ?p] p room by auto
    have same: "read_desc buf' (block_pos k n p + 16 * int d) =
        read_desc (w_mem s b) (block_pos k n p + 16 * int d)" if "d < n" for d
      using oth block_pos_other [OF ne, of n] that by (auto simp: block_pos_def)
    from p(3) obtain pk where "slot s (RxRing i) (slot_of k p) = Some pk"
      "map (\<lambda>d. read_desc (w_mem s b) (block_pos k n p + 16 * int d)) [0..<n] =
       map (\<lambda>sg. Inr (desc_words (rg_addr pk) sg)) (rx_segs n)"
      by (auto simp: rx_armed_def)
    moreover have "map (\<lambda>d. read_desc buf' (block_pos k n p + 16 * int d)) [0..<n] =
        map (\<lambda>d. read_desc (w_mem s b) (block_pos k n p + 16 * int d)) [0..<n]"
      using same by simp
    ultimately show ?thesis using ne by (auto simp: rx_armed_def slots mem)
  qed
  have "rx_armed i k n b s' ?p" using desc by (simp add: rx_armed_def slots mem)
  with run frame ring' inv' ok' old show ?thesis
    by (intro exI [of _ s']) (simp add: s'_def)
qed

lemma rx_fill_one_fail:
  "alloc_pkt E s = (Inl e, s') \<Longrightarrow> rx_fill_one E i s = (Inl e, s')"
  by (simp add: rx_fill_one_def run_simps Rxq_prepare_desc_def)

lemma alloc_pkt_error: "alloc_pkt E s = (Inl e, s') \<Longrightarrow> e = PoolError \<and> s' = s"
  by (cases rule: alloc_pkt_cases [of s E]) auto

text \<open>
  The loop arms every slot from the producer pointer on, or stops when the host memory pool is
  exhausted; either way the ring and the pool stay in order.
\<close>

lemma rx_refill_loop_ok:
  assumes "rxq_ring i k n b s" "bufs_inv s" "device_ok E" "packets_ok s"
    and "rxq_prod_ptr (w_rxqs s i) + int m \<le> rxq_cons_ptr (w_rxqs s i) + 2 ^ k"
  shows "\<exists>res s'. rx_refill_loop E m i s = (res, s') \<and> rx_fill_frame i s s' \<and>
    rxq_ring i k n b s' \<and> bufs_inv s' \<and> packets_ok s' \<and>
    rxq_prod_ptr (w_rxqs s i) \<le> rxq_prod_ptr (w_rxqs s' i) \<and>
    (\<forall>p. rxq_cons_ptr (w_rxqs s i) \<le> p \<and> p < rxq_prod_ptr (w_rxqs s i) \<and> rx_armed i k n b s p \<longrightarrow>
      rx_armed i k n b s' p) \<and>
    (\<forall>p. rxq_prod_ptr (w_rxqs s i) \<le> p \<and> p < rxq_prod_ptr (w_rxqs s' i) \<longrightarrow> rx_armed i k n b s' p) \<and>
    (res = Inr () \<and> rxq_prod_ptr (w_rxqs s' i) = rxq_prod_ptr (w_rxqs s i) + int m \<or> res = Inl PoolError)"
  using assms
proof (induction m arbitrary: s)
  case 0
  then show ?case by (intro exI [of _ "Inr ()"] exI [of _ s]) auto
next
  case (Suc m)
  show ?case
  proof (cases "alloc_pkt E s")
    case (Pair r s2)
    show ?thesis
    proof (cases r)
      case (Inl e)
      with Pair have e: "alloc_pkt E s = (Inl e, s2)" by simp
      with alloc_pkt_error have "e = PoolError" "s2 = s" by blast+
      with rx_fill_one_fail [OF e] have "rx_refill_loop E (Suc m) i s = (Inl PoolError, s)"
        by (simp only: rx_refill_loop_Suc sq_Inl)
      with Suc.prems show ?thesis by (intro exI [of _ "Inl PoolError"] exI [of _ s]) auto
    next
      case (Inr pkt)
      with Pair have a: "alloc_pkt E s = (Inr pkt, s2)" by simp
      have "rxq_prod_ptr (w_rxqs s i) < rxq_cons_ptr (w_rxqs s i) + 2 ^ k" using Suc.prems(5) by simp
      from rx_fill_one_ok [OF Suc.prems(1-4) a this] obtain s1 where s1:
          "rx_fill_one E i s = (Inr (), s1)" "rx_fill_frame i s s1" "rxq_ring i k n b s1"
          "bufs_inv s1" "packets_ok s1"
          "rxq_prod_ptr (w_rxqs s1 i) = rxq_prod_ptr (w_rxqs s i) + 1"
          "\<forall>p. rxq_cons_ptr (w_rxqs s i) \<le> p \<and> p < rxq_prod_ptr (w_rxqs s i) \<and> rx_armed i k n b s p \<longrightarrow>
            rx_armed i k n b s1 p"
          "rx_armed i k n b s1 (rxq_prod_ptr (w_rxqs s i))"
        by blast
      have cons: "rxq_cons_ptr (w_rxqs s1 i) = rxq_cons_ptr (w_rxqs s i)"
        using s1(2) by (simp add: rx_fill_frame_def rx_frame_def)
      have le: "rxq_cons_ptr (w_rxqs s i) \<le> rxq_prod_ptr (w_rxqs s i)"
        using Suc.prems(1) by (simp add: rxq_ring_def slots_ok_def Let_def)
      from Suc.IH [OF s1(3,4) Suc.prems(3) s1(5)] Suc.prems(5) s1(6) cons obtain res s' where IH:
          "rx_refill_loop E m i s1 = (res, s')" "rx_fill_frame i s1 s'" "rxq_ring i k n b s'"
          "bufs_inv s'" "packets_ok s'" "rxq_prod_ptr (w_rxqs s1 i) \<le> rxq_prod_ptr (w_rxqs s' i)"
          "\<forall>p. rxq_cons_ptr (w_rxqs s1 i) \<le> p \<and> p < rxq_prod_ptr (w_rxqs s1 i) \<and> rx_armed i k n b s1 p \<longrightarrow>
            rx_armed i k n b s' p"
          "\<forall>p. rxq_prod_ptr (w_rxqs s1 i) \<le> p \<and> p < rxq_prod_ptr (w_rxqs s' i) \<longrightarrow> rx_armed i k n b s' p"
          "res = Inr () \<and> rxq_prod_ptr (w_rxqs s' i) = rxq_prod_ptr (w_rxqs s1 i) + int m \<or> res = Inl PoolError"
        by auto
      have run: "rx_refill_loop E (Suc m) i s = (res, s')"
        using s1(1) IH(1) by (simp only: rx_refill_loop_Suc sq_Inr)
      have fr: "rx_fill_frame i s s'" using s1(2) IH(2) by (rule rx_fill_frame_trans)
      have old: "rx_armed i k n b s' p"
        if "rxq_cons_ptr (w_rxqs s i) \<le> p" "p < rxq_prod_ptr (w_rxqs s i)" "rx_armed i k n b s p" for p
        using that s1(6,7) IH(7) cons by simp
      have new: "rx_armed i k n b s' p"
        if "rxq_prod_ptr (w_rxqs s i) \<le> p" "p < rxq_prod_ptr (w_rxqs s' i)" for p
      proof (cases "p = rxq_prod_ptr (w_rxqs s i)")
        case True
        with s1(6,8) IH(7) cons le show ?thesis by simp
      next
        case False
        with that s1(6) IH(8) show ?thesis by simp
      qed
      show ?thesis
        using run fr IH(3-6,9) old new s1(6) by (intro exI [of _ res] exI [of _ s']) auto
    qed
  qed
qed

lemma packets_ok_bus:
  "packets_ok s \<Longrightarrow> bus_frame s s' \<Longrightarrow> same_sizes (w_mem s) (w_mem s') \<Longrightarrow> packets_ok s'"
  by (simp add: packets_ok_def bus_frame_fields same_sizes_def)

text \<open>
  \<open>refill_buffers\<close> does nothing while fewer than eight entries are missing. Otherwise the ring
  is full when the doorbell is rung, \<open>s1\<close> being the state at that moment: every entry that was
  missing has its own buffer and a descriptor block that covers it.
\<close>

lemma Rxq_refill_buffers_ok:
  assumes ring: "rxq_ring i k n b s" and inv: "bufs_inv s" and dev: "device_ok E" and ok: "packets_ok s"
    and w: "rxq_hw_regs (w_rxqs s i) = Some w"
  defines "missing \<equiv> 2 ^ k - (rxq_prod_ptr (w_rxqs s i) - rxq_cons_ptr (w_rxqs s i))"
  shows "missing < 8 \<Longrightarrow> Rxq_refill_buffers E i s = (Inr (), s)"
    and "8 \<le> missing \<Longrightarrow> \<exists>res s1. rx_refill_loop E (nat missing) i s = (res, s1) \<and>
      rx_fill_frame i s s1 \<and> rxq_ring i k n b s1 \<and> bufs_inv s1 \<and> packets_ok s1 \<and>
      (\<forall>p. rxq_cons_ptr (w_rxqs s i) \<le> p \<and> p < rxq_prod_ptr (w_rxqs s i) \<and> rx_armed i k n b s p \<longrightarrow>
        rx_armed i k n b s1 p) \<and>
      (res = Inr () \<and> rxq_prod_ptr (w_rxqs s1 i) = rxq_cons_ptr (w_rxqs s i) + 2 ^ k \<and>
         (\<forall>p. rxq_prod_ptr (w_rxqs s i) \<le> p \<and> p < rxq_cons_ptr (w_rxqs s i) + 2 ^ k \<longrightarrow>
            rx_armed i k n b s1 p) \<and>
         Rxq_refill_buffers E i s =
           (Inr (), wr_state E w 8 (0x80800000 OR (rxq_prod_ptr (w_rxqs s1 i) mod 65536)) s1) \<or>
       res = Inl PoolError \<and> Rxq_refill_buffers E i s = (Inl PoolError, s1))"
proof -
  have size: "rxq_size (w_rxqs s i) = 2 ^ k" using ring by (simp add: rxq_ring_def Let_def)
  {
    assume "missing < 8"
    then show "Rxq_refill_buffers E i s = (Inr (), s)"
      by (simp add: Rxq_refill_buffers_def run_bnd get_rxq_def Let_def size missing_def)
  }
  assume m: "8 \<le> missing"
  let ?p = "rxq_prod_ptr (w_rxqs s i)" let ?c = "rxq_cons_ptr (w_rxqs s i)"
  have room: "?p + int (nat missing) \<le> ?c + 2 ^ k" using m by (simp add: missing_def)
  from rx_refill_loop_ok [OF ring inv dev ok room] obtain res s1 where s1:
      "rx_refill_loop E (nat missing) i s = (res, s1)" "rx_fill_frame i s s1" "rxq_ring i k n b s1"
      "bufs_inv s1" "packets_ok s1"
      "\<forall>p. ?c \<le> p \<and> p < ?p \<and> rx_armed i k n b s p \<longrightarrow> rx_armed i k n b s1 p"
      "\<forall>p. ?p \<le> p \<and> p < rxq_prod_ptr (w_rxqs s1 i) \<longrightarrow> rx_armed i k n b s1 p"
      "res = Inr () \<and> rxq_prod_ptr (w_rxqs s1 i) = ?p + int (nat missing) \<or> res = Inl PoolError"
    by blast
  have step: "Rxq_refill_buffers E i s =
      sq (rx_refill_loop E (nat missing) i) (Rxq_write_prod_ptr E i) s"
    using m by (simp add: Rxq_refill_buffers_def run_bnd get_rxq_def Let_def size missing_def)
  from s1(8) show "\<exists>res s1. rx_refill_loop E (nat missing) i s = (res, s1) \<and>
      rx_fill_frame i s s1 \<and> rxq_ring i k n b s1 \<and> bufs_inv s1 \<and> packets_ok s1 \<and>
      (\<forall>p. ?c \<le> p \<and> p < ?p \<and> rx_armed i k n b s p \<longrightarrow> rx_armed i k n b s1 p) \<and>
      (res = Inr () \<and> rxq_prod_ptr (w_rxqs s1 i) = ?c + 2 ^ k \<and>
         (\<forall>p. ?p \<le> p \<and> p < ?c + 2 ^ k \<longrightarrow> rx_armed i k n b s1 p) \<and>
         Rxq_refill_buffers E i s =
           (Inr (), wr_state E w 8 (0x80800000 OR (rxq_prod_ptr (w_rxqs s1 i) mod 65536)) s1) \<or>
       res = Inl PoolError \<and> Rxq_refill_buffers E i s = (Inl PoolError, s1))"
  proof
    assume "res = Inl PoolError"
    with s1 step show ?thesis
      by (intro exI [of _ res] exI [of _ s1]) (simp add: sq_Inl)
  next
    assume r: "res = Inr () \<and> rxq_prod_ptr (w_rxqs s1 i) = ?p + int (nat missing)"
    then have p: "rxq_prod_ptr (w_rxqs s1 i) = ?c + 2 ^ k" using m by (simp add: missing_def)
    have "Rxq_refill_buffers E i s = Rxq_write_prod_ptr E i s1"
      using step s1(1) r by (simp add: sq_Inr)
    also have "\<dots> = (Inr (), wr_state E w 8 (0x80800000 OR (rxq_prod_ptr (w_rxqs s1 i) mod 65536)) s1)"
      using w s1(2)
      by (simp add: Rxq_write_prod_ptr_def run_simps regs and_mask_mod [of _ 16, simplified] rx_fill_frame_def rx_frame_def)
    finally show ?thesis
      using s1 r p by (intro exI [of _ res] exI [of _ s1]) simp
  qed
qed

section \<open>Receiving\<close>

text \<open>Delivering a packet to interface \<open>f\<close>.\<close>

definition deliver :: "nat \<Rightarrow> packet \<Rightarrow> 'h world \<Rightarrow> 'h world" where
  "deliver f pk s = s\<lparr>w_ifs := (w_ifs s)(f := (w_ifs s f)
     \<lparr>ifc_pkt_rx_queue := ifc_pkt_rx_queue (w_ifs s f) @ [pk], ifc_pkt_rx_sync := True\<rparr>)\<rparr>"

lemma deliver_fields [simp]:
  "w_mem (deliver f pk s) = w_mem s" "w_mmio (deliver f pk s) = w_mmio s"
  "w_cqs (deliver f pk s) = w_cqs s" "w_txqs (deliver f pk s) = w_txqs s"
  "w_rxqs (deliver f pk s) = w_rxqs s" "w_drv (deliver f pk s) = w_drv s"
  "w_next_region (deliver f pk s) = w_next_region s"
  by (simp_all add: deliver_def)

lemma slot_deliver [simp]: "slot (deliver f pk s) r m = slot s r m"
  by (cases r) (simp_all add: slot_def)

lemma deliver_invs [simp]:
  "bufs_inv (deliver f pk s) = bufs_inv s" "rxq_ring i k n b (deliver f pk s) = rxq_ring i k n b s"
  "cq_ring c k b (deliver f pk s) = cq_ring c k b s" "packets_ok (deliver f pk s) = packets_ok s"
  by (simp_all add: bufs_inv_def pool_inv_def outstanding_def rxq_ring_def cq_ring_def packets_ok_def)

text \<open>The packet of one entry of the completion ring.\<close>

definition rx_taken :: "'h world \<Rightarrow> nat \<Rightarrow> byte list \<Rightarrow> nat \<Rightarrow> nat \<Rightarrow> int \<Rightarrow> packet" where
  "rx_taken s r buf k kr c =
     rx_packet (w_mem s) (the (slot s (RxRing r) (slot_of kr (cpl_index buf k c)))) (w_rxqs s r)
       (cpl_at buf k c)"

lemma rx_cpl_loop_step:
  fixes c :: int and k kr r b :: nat and s :: "'h world"
  assumes cq: "cq_ring cqi k b s" and ring: "rxq_ring r kr n br s"
  defines "m \<equiv> slot_of kr (cpl_index (w_mem s b) k c)"
  shows "rx_cpl_loop (Suc fuel) cqi r c s =
    (if \<not> entry_new (w_mem s b) k c then (Inr c, s)
     else if slot s (RxRing r) m = None then (Inl TypeError, s)
     else sq (Rxq_free_desc r (int m)) (rx_cpl_loop fuel cqi r (c + 1))
            (deliver (cq_interface (w_cqs s cqi)) (rx_taken s r (w_mem s b) k kr c) s))"
proof -
  have q: "cq_size (w_cqs s cqi) = 2 ^ k" "cq_size_mask (w_cqs s cqi) = 2 ^ k - 1"
      "cq_stride (w_cqs s cqi) = 32" "cq_buf (w_cqs s cqi) = Some b"
    using cq by (simp_all add: cq_ring_def Let_def)
  have len: "length (rxq_rx_info (w_rxqs s r)) = 2 ^ kr"
    and msk: "rxq_size_mask (w_rxqs s r) = 2 ^ kr - 1"
    using ring by (simp_all add: rxq_ring_def slots_ok_def Let_def)
  have ix: "cpl_at (w_mem s b) k c ! 1 AND rxq_size_mask (w_rxqs s r) = int m"
    by (simp add: m_def msk and_mask_mod int_slot_of cpl_index_def)
  have sl: "slot s (RxRing r) m = rxq_rx_info (w_rxqs s r) ! m" and ml: "m < 2 ^ kr"
    using len by (simp_all add: slot_def m_def)
  have new: "((last (cpl_at (w_mem s b) k c) AND 0x80000000 = 0) = (c AND 2 ^ k = 0)) = (\<not> entry_new (w_mem s b) k c)"
    using cpl_phase [of "w_mem s b" k c] and_exp_nonzero [of c k] by (auto simp: entry_new_def)
  show ?thesis
  proof (cases "entry_new (w_mem s b) k c")
    case False
    with new show ?thesis
      by (simp add: run_bnd get_cq_def get_rxq_def the_buf_def q mem_unpack_cpl [OF cq] Let_def)
  next
    case True
    with new show ?thesis
      using ix ml
      by (cases "rxq_rx_info (w_rxqs s r) ! m")
         (simp_all add: run_bnd run_sq get_cq_def get_rxq_def the_buf_def q mem_unpack_cpl [OF cq] Let_def
           run_lift_res len sl upd_if_def deliver_def rx_taken_def flip: m_def)
  qed
qed

lemma cq_ring_rx_released: "cq_ring cqi k b s \<Longrightarrow> rx_released r s s' \<Longrightarrow> cq_ring cqi k b s'"
  by (simp add: cq_ring_def rx_released_fields)

text \<open>What taking completions of ring \<open>r\<close> may change: as for a transmit ring, and the interface.\<close>

definition rx_progress :: "nat \<Rightarrow> nat \<Rightarrow> 'h world \<Rightarrow> 'h world \<Rightarrow> bool" where
  "rx_progress r f s s' \<longleftrightarrow> w_mem s' = w_mem s \<and> w_mmio s' = w_mmio s \<and> w_cqs s' = w_cqs s \<and>
     w_txqs s' = w_txqs s \<and> w_next_region s' = w_next_region s \<and>
     drv_allocated_packets (w_drv s') = drv_allocated_packets (w_drv s) \<and>
     drv_pkt_buf_size (w_drv s') = drv_pkt_buf_size (w_drv s) \<and>
     (\<forall>j. j \<noteq> r \<longrightarrow> w_rxqs s' j = w_rxqs s j) \<and> (\<forall>j. j \<noteq> f \<longrightarrow> w_ifs s' j = w_ifs s j) \<and>
     (\<exists>info. w_rxqs s' r = (w_rxqs s r)\<lparr>rxq_rx_info := info\<rparr>) \<and>
     (\<exists>Q y. w_ifs s' f = (w_ifs s f)\<lparr>ifc_pkt_rx_queue := Q, ifc_pkt_rx_sync := y\<rparr>)"

lemma rx_progress_refl [simp]: "rx_progress r f s s"
proof -
  have "\<exists>info. w_rxqs s r = (w_rxqs s r)\<lparr>rxq_rx_info := info\<rparr>"
    by (intro exI [of _ "rxq_rx_info (w_rxqs s r)"]) simp
  moreover have "\<exists>Q y. w_ifs s f = (w_ifs s f)\<lparr>ifc_pkt_rx_queue := Q, ifc_pkt_rx_sync := y\<rparr>"
    by (intro exI [of _ "ifc_pkt_rx_queue (w_ifs s f)"] exI [of _ "ifc_pkt_rx_sync (w_ifs s f)"]) simp
  ultimately show ?thesis by (simp add: rx_progress_def)
qed

lemma rx_progress_trans:
  assumes "rx_progress r f s s'" "rx_progress r f s' s''"
  shows "rx_progress r f s s''"
proof -
  obtain info info' Q y Q' y' where
      "w_rxqs s' r = (w_rxqs s r)\<lparr>rxq_rx_info := info\<rparr>" "w_rxqs s'' r = (w_rxqs s' r)\<lparr>rxq_rx_info := info'\<rparr>"
      "w_ifs s' f = (w_ifs s f)\<lparr>ifc_pkt_rx_queue := Q, ifc_pkt_rx_sync := y\<rparr>"
      "w_ifs s'' f = (w_ifs s' f)\<lparr>ifc_pkt_rx_queue := Q', ifc_pkt_rx_sync := y'\<rparr>"
    using assms unfolding rx_progress_def by blast
  then have "w_rxqs s'' r = (w_rxqs s r)\<lparr>rxq_rx_info := info'\<rparr>"
      "w_ifs s'' f = (w_ifs s f)\<lparr>ifc_pkt_rx_queue := Q', ifc_pkt_rx_sync := y'\<rparr>"
    by simp_all
  then show ?thesis using assms unfolding rx_progress_def by auto
qed

lemma rx_progress_step:
  assumes "rx_released r (deliver f pk s) s'"
  shows "rx_progress r f s s'"
proof -
  from assms obtain F info where s': "s' = (deliver f pk s)\<lparr>w_drv := (w_drv s)\<lparr>drv_free_packets := F\<rparr>,
      w_rxqs := (w_rxqs s)(r := (w_rxqs s r)\<lparr>rxq_rx_info := info\<rparr>)\<rparr>"
    by (auto simp: rx_released_def)
  have "\<exists>i. w_rxqs s' r = (w_rxqs s r)\<lparr>rxq_rx_info := i\<rparr>"
    by (intro exI [of _ info]) (simp add: s')
  moreover have "\<exists>Q y. w_ifs s' f = (w_ifs s f)\<lparr>ifc_pkt_rx_queue := Q, ifc_pkt_rx_sync := y\<rparr>"
    by (intro exI [of _ "ifc_pkt_rx_queue (w_ifs s f) @ [pk]"] exI [of _ True]) (simp add: s' deliver_def)
  ultimately show ?thesis by (simp add: rx_progress_def s' deliver_def)
qed

text \<open>
  The loop ends with fuel for the new entries and one more. It takes them all unless one names
  a slot without a buffer, when it stops with Python's \<open>TypeError\<close>.
\<close>

lemma rx_cpl_loop_spec:
  assumes "cq_ring cqi k b s" "rxq_ring r kr n br s" "bufs_inv s"
    and "ring.run_length (w_mem s b) k c < fuel"
  shows "\<exists>res s'. rx_cpl_loop fuel cqi r c s = (res, s') \<and>
    rx_progress r (cq_interface (w_cqs s cqi)) s s' \<and> rxq_ring r kr n br s' \<and> bufs_inv s' \<and>
    (res = Inr (c + int (ring.run_length (w_mem s b) k c)) \<or> res = Inl TypeError)"
  using assms
proof (induction fuel arbitrary: c s)
  case (Suc fuel)
  note st = rx_cpl_loop_step [OF Suc.prems(1,2), of fuel c]
  let ?f = "cq_interface (w_cqs s cqi)"
  show ?case
  proof (cases "entry_new (w_mem s b) k c")
    case False
    with st Suc.prems show ?thesis by (simp add: ring.run_length_0 del: rx_cpl_loop.simps)
  next
    case True
    let ?m = "slot_of kr (cpl_index (w_mem s b) k c)"
    have len: "ring.run_length (w_mem s b) k c = Suc (ring.run_length (w_mem s b) k (c + 1))"
      using True by (rule ring.run_length_Suc)
    show ?thesis
    proof (cases "slot s (RxRing r) ?m = None")
      case None: True
      have "rx_cpl_loop (Suc fuel) cqi r c s = (Inl TypeError, s)"
        using st by (simp only: True None simp_thms if_True if_False)
      with Suc.prems(2,3) show ?thesis by (simp del: rx_cpl_loop.simps)
    next
      case occ: False
      let ?s0 = "deliver ?f (rx_taken s r (w_mem s b) k kr c) s"
      from occ obtain p where p: "slot ?s0 (RxRing r) ?m = Some p" by auto
      have r0: "rxq_ring r kr n br ?s0" "bufs_inv ?s0" using Suc.prems by simp_all
      from Rxq_free_desc_cases [OF r0 slot_of_less [of kr "cpl_index (w_mem s b) k c"]] p
      obtain s1 where freed: "Rxq_free_desc r (int ?m) ?s0 = (Inr (), s1)" "rx_released r ?s0 s1"
          "bufs_inv s1" "rxq_ring r kr n br s1"
        by (metis option.distinct(1))
      have run: "rx_cpl_loop (Suc fuel) cqi r c s = rx_cpl_loop fuel cqi r (c + 1) s1"
        using st occ True freed(1) by (simp add: sq_Inr del: rx_cpl_loop.simps)
      have cq1: "cq_ring cqi k b s1" 
        using Suc.prems(1) by (intro cq_ring_rx_released [OF _ freed(2)]) simp
      have mem: "w_mem s1 b = w_mem s b" "w_cqs s1 = w_cqs s"
        using freed(2) by (simp_all add: rx_released_fields)
      have "ring.run_length (w_mem s1 b) k (c + 1) < fuel" using Suc.prems(4) len mem by simp
      from Suc.IH [OF cq1 freed(4,3) this] obtain res s' where IH:
          "rx_cpl_loop fuel cqi r (c + 1) s1 = (res, s')"
          "rx_progress r (cq_interface (w_cqs s1 cqi)) s1 s'" "rxq_ring r kr n br s'" "bufs_inv s'"
          "res = Inr (c + 1 + int (ring.run_length (w_mem s1 b) k (c + 1))) \<or> res = Inl TypeError"
        by blast
      have "rx_progress r ?f s s'"
        using rx_progress_trans [OF rx_progress_step [OF freed(2)]] IH(2) mem(2) by simp
      moreover have "res = Inr (c + int (ring.run_length (w_mem s b) k c)) \<or> res = Inl TypeError"
        using IH(5) len mem(1) by (simp add: algebra_simps)
      ultimately show ?thesis using run IH(1,3,4) by (simp del: rx_cpl_loop.simps)
    qed
  qed
qed simp

lemma rx_taken_cong:
  assumes "w_mem s' = w_mem s" "rxq_index (w_rxqs s' r) = rxq_index (w_rxqs s r)"
    and "slot s' (RxRing r) (slot_of kr (cpl_index buf k c)) = slot s (RxRing r) (slot_of kr (cpl_index buf k c))"
  shows "rx_taken s' r buf k kr c = rx_taken s r buf k kr c"
  using assms by (simp add: rx_taken_def rx_packet_def)

text \<open>
  A NIC that names distinct slots that hold buffers: every new entry gives one packet, in the
  order of the ring, and its buffer goes back.
\<close>

lemma rx_cpl_loop_ok:
  assumes "cq_ring cqi k b s" "rxq_ring r kr n br s" "bufs_inv s"
    and "ring.run_length (w_mem s b) k c = l" "l < fuel"
    and "distinct (cpl_slots (w_mem s b) k kr c l)"
    and "\<forall>m \<in> set (cpl_slots (w_mem s b) k kr c l). slot s (RxRing r) m \<noteq> None"
  shows "\<exists>s'. rx_cpl_loop fuel cqi r c s = (Inr (c + int l), s') \<and>
    rx_progress r (cq_interface (w_cqs s cqi)) s s' \<and> rxq_ring r kr n br s' \<and> bufs_inv s' \<and>
    (\<forall>m. slot s' (RxRing r) m =
       (if m \<in> set (cpl_slots (w_mem s b) k kr c l) then None else slot s (RxRing r) m)) \<and>
    ifc_pkt_rx_queue (w_ifs s' (cq_interface (w_cqs s cqi))) =
      ifc_pkt_rx_queue (w_ifs s (cq_interface (w_cqs s cqi))) @
      map (\<lambda>j. rx_taken s r (w_mem s b) k kr (c + int j)) [0..<l]"
  using assms
proof (induction fuel arbitrary: c s l)
  case (Suc fuel)
  note st = rx_cpl_loop_step [OF Suc.prems(1,2), of fuel c]
  let ?f = "cq_interface (w_cqs s cqi)"
  show ?case
  proof (cases "entry_new (w_mem s b) k c")
    case False
    with Suc.prems(4) have "l = 0" by (simp add: ring.run_length_0)
    with False st Suc.prems(2,3) show ?thesis by (simp add: cpl_slots_def del: rx_cpl_loop.simps)
  next
    case True
    let ?m = "slot_of kr (cpl_index (w_mem s b) k c)"
    let ?t = "rx_taken s r (w_mem s b) k kr"
    let ?s0 = "deliver ?f (?t c) s"
    define l' where "l' = ring.run_length (w_mem s b) k (c + 1)"
    have l: "l = Suc l'" using ring.run_length_Suc [OF True] Suc.prems(4) by (simp add: l'_def)
    note sl = cpl_slots_Suc [of "w_mem s b" k kr c l', folded l]
    from Suc.prems(7) sl have occ: "slot s (RxRing r) ?m \<noteq> None" by simp
    then obtain p where p: "slot ?s0 (RxRing r) ?m = Some p" by auto
    have r0: "rxq_ring r kr n br ?s0" "bufs_inv ?s0" using Suc.prems by simp_all
    from Rxq_free_desc_cases [OF r0 slot_of_less [of kr "cpl_index (w_mem s b) k c"]] p
    obtain s1 where freed: "Rxq_free_desc r (int ?m) ?s0 = (Inr (), s1)" "rx_released r ?s0 s1"
        "bufs_inv s1" "rxq_ring r kr n br s1"
        "rxq_rx_info (w_rxqs s1 r) = (rxq_rx_info (w_rxqs ?s0 r))[?m := None]"
      by (metis option.distinct(1))
    have run: "rx_cpl_loop (Suc fuel) cqi r c s = rx_cpl_loop fuel cqi r (c + 1) s1"
      using st occ True freed(1) by (simp add: sq_Inr del: rx_cpl_loop.simps)
    have cq1: "cq_ring cqi k b s1" 
        using Suc.prems(1) by (intro cq_ring_rx_released [OF _ freed(2)]) simp
    have mem: "w_mem s1 = w_mem s" "w_cqs s1 = w_cqs s"
      using freed(2) by (simp_all add: rx_released_fields)
    have sl1: "slot s1 (RxRing r) m = (if m = ?m then None else slot s (RxRing r) m)" for m
      using freed(5) by (simp add: slot_def)
    have "\<forall>m \<in> set (cpl_slots (w_mem s1 b) k kr (c + 1) l'). slot s1 (RxRing r) m \<noteq> None"
      using Suc.prems(6,7) unfolding mem sl sl1 by auto
    with Suc.IH [OF cq1 freed(4,3), of "c + 1" l'] Suc.prems(5,6) obtain s' where IH:
        "rx_cpl_loop fuel cqi r (c + 1) s1 = (Inr (c + 1 + int l'), s')" "rx_progress r ?f s1 s'"
        "rxq_ring r kr n br s'" "bufs_inv s'"
        "\<forall>m. slot s' (RxRing r) m =
          (if m \<in> set (cpl_slots (w_mem s b) k kr (c + 1) l') then None else slot s1 (RxRing r) m)"
        "ifc_pkt_rx_queue (w_ifs s' ?f) = ifc_pkt_rx_queue (w_ifs s1 ?f) @
          map (\<lambda>j. rx_taken s1 r (w_mem s b) k kr (c + 1 + int j)) [0..<l']"
      unfolding mem l'_def [symmetric] sl by (auto simp: l)
    have run': "rx_cpl_loop (Suc fuel) cqi r c s = (Inr (c + int l), s')"
      using run IH(1) l by (simp add: algebra_simps del: rx_cpl_loop.simps)
    have prog: "rx_progress r ?f s s'"
      using rx_progress_trans [OF rx_progress_step [OF freed(2)] IH(2)] .
    have slots: "slot s' (RxRing r) m =
        (if m \<in> set (cpl_slots (w_mem s b) k kr c l) then None else slot s (RxRing r) m)" for m
      using IH(5) sl1 by (auto simp: sl)
    have later: "rx_taken s1 r (w_mem s b) k kr (c + 1 + int j) = ?t (c + int (Suc j))" if "j < l'" for j
    proof -
      have "slot_of kr (cpl_index (w_mem s b) k (c + 1 + int j)) \<in> set (cpl_slots (w_mem s b) k kr (c + 1) l')"
        using that by (simp add: cpl_slots_def)
      then have "slot_of kr (cpl_index (w_mem s b) k (c + 1 + int j)) \<noteq> ?m"
        using Suc.prems(6) unfolding sl by auto
      then have "rx_taken s1 r (w_mem s b) k kr (c + 1 + int j) = ?t (c + 1 + int j)"
        using freed(2) by (intro rx_taken_cong) (auto simp: mem sl1 rx_released_def)
      then show ?thesis by (simp add: algebra_simps)
    qed
    have "w_ifs s1 ?f = w_ifs ?s0 ?f" using freed(2) by (simp add: rx_released_fields)
    then have "ifc_pkt_rx_queue (w_ifs s1 ?f) = ifc_pkt_rx_queue (w_ifs s ?f) @ [?t c]"
      by (simp add: deliver_def)
    moreover have "[0..<l] = 0 # map Suc [0..<l']" using l by (simp add: upt_conv_Cons map_Suc_upt del: upt_Suc)
    moreover have "map (\<lambda>j. rx_taken s1 r (w_mem s b) k kr (c + 1 + int j)) [0..<l'] =
        map (\<lambda>j. ?t (c + int (Suc j))) [0..<l']"
      using later by (intro map_cong) auto
    ultimately have queue: "ifc_pkt_rx_queue (w_ifs s' ?f) = ifc_pkt_rx_queue (w_ifs s ?f) @
        map (\<lambda>j. ?t (c + int j)) [0..<l]"
      using IH(6) by (simp add: comp_def del: of_nat_Suc)
    from run' prog IH(3,4) slots queue show ?thesis by blast
  qed
qed simp

lemma rxq_ring_cqs [simp]: "rxq_ring i k n b (s\<lparr>w_cqs := f\<rparr>) = rxq_ring i k n b s"
  by (simp add: rxq_ring_def)

lemma packets_ok_cqs [simp]: "packets_ok (s\<lparr>w_cqs := f\<rparr>) = packets_ok s"
  by (simp add: packets_ok_def)

lemma packets_ok_progress: "packets_ok s \<Longrightarrow> rx_progress r f s s' \<Longrightarrow> packets_ok s'"
  by (simp add: packets_ok_def rx_progress_def)

definition rx_cons_set :: "nat \<Rightarrow> int \<Rightarrow> 'h world \<Rightarrow> 'h world" where
  "rx_cons_set r c s = s\<lparr>w_rxqs := (w_rxqs s)(r := (w_rxqs s r)\<lparr>rxq_cons_ptr := c\<rparr>)\<rparr>"

lemma rx_cons_set_fields [simp]:
  "w_mem (rx_cons_set r c s) = w_mem s" "w_mmio (rx_cons_set r c s) = w_mmio s"
  "w_cqs (rx_cons_set r c s) = w_cqs s" "w_ifs (rx_cons_set r c s) = w_ifs s"
  "w_drv (rx_cons_set r c s) = w_drv s" "w_next_region (rx_cons_set r c s) = w_next_region s"
  "w_txqs (rx_cons_set r c s) = w_txqs s" "rxq_cons_ptr (w_rxqs (rx_cons_set r c s) r) = c"
  "rxq_prod_ptr (w_rxqs (rx_cons_set r c s) r) = rxq_prod_ptr (w_rxqs s r)"
  "rxq_hw_regs (w_rxqs (rx_cons_set r c s) r) = rxq_hw_regs (w_rxqs s r)"
  by (simp_all add: rx_cons_set_def)

lemma slot_rx_cons_set [simp]: "slot (rx_cons_set r c s) x m = slot s x m"
  by (cases x) (simp_all add: slot_def rx_cons_set_def)

lemma rx_cons_set_invs [simp]:
  "bufs_inv (rx_cons_set r c s) = bufs_inv s" "packets_ok (rx_cons_set r c s) = packets_ok s"
  by (simp_all add: bufs_inv_def pool_inv_def outstanding_def packets_ok_def)

lemma rxq_reclaim:
  assumes ring: "rxq_ring r k n b s"
  shows "\<exists>c. Rxq_reclaim r s = (Inr (), rx_cons_set r c s) \<and>
    rxq_ring r k n b (rx_cons_set r c s) \<and> rxq_cons_ptr (w_rxqs s r) \<le> c"
proof -
  let ?q = "w_rxqs s r"
  from ring have ok: "slots_ok k (rxq_prod_ptr ?q) (rxq_cons_ptr ?q) (rxq_rx_info ?q)"
    and msk: "rxq_size_mask ?q = 2 ^ k - 1"
    by (simp_all add: rxq_ring_def Let_def)
  then have le: "rxq_prod_ptr ?q \<le> rxq_cons_ptr ?q + int (nat (rxq_prod_ptr ?q - rxq_cons_ptr ?q))"
    by (simp add: slots_ok_def)
  from reclaim_ptr_spec [OF ok le] obtain c where c:
      "reclaim_ptr (nat (rxq_prod_ptr ?q - rxq_cons_ptr ?q)) (2 ^ k - 1) (rxq_prod_ptr ?q)
        (rxq_rx_info ?q) (rxq_cons_ptr ?q) = Inr c"
      "slots_ok k (rxq_prod_ptr ?q) c (rxq_rx_info ?q)" "rxq_cons_ptr ?q \<le> c"
    by blast
  have "rxq_ring r k n b (rx_cons_set r c s)"
    using ring c(2) by (simp add: rxq_ring_def rx_cons_set_def Let_def)
  moreover have "Rxq_reclaim r s = (Inr (), rx_cons_set r c s)"
    using c(1) by (simp add: Rxq_reclaim_def run_simps msk rx_cons_set_def)
  ultimately show ?thesis using c(3) by blast
qed

text \<open>Refilling, seen from outside: in order afterwards, and nearly full if the pool had buffers.\<close>

lemma Rxq_refill_buffers_post:
  assumes "rxq_ring i k n b s" "bufs_inv s" and dev: "device_ok E" and "packets_ok s"
    and w: "rxq_hw_regs (w_rxqs s i) = Some w"
  shows "\<exists>res s'. Rxq_refill_buffers E i s = (res, s') \<and> (res = Inr () \<or> res = Inl PoolError) \<and>
    rxq_ring i k n b s' \<and> bufs_inv s' \<and> packets_ok s' \<and> rx_frame i s s' \<and>
    (res = Inr () \<longrightarrow> 2 ^ k - (rxq_prod_ptr (w_rxqs s' i) - rxq_cons_ptr (w_rxqs s' i)) < 8)"
proof (cases "2 ^ k - (rxq_prod_ptr (w_rxqs s i) - rxq_cons_ptr (w_rxqs s i)) < 8")
  case True
  with Rxq_refill_buffers_ok(1) [OF assms] assms show ?thesis by auto
next
  case False
  with Rxq_refill_buffers_ok(2) [OF assms] obtain res s1 where s1:
      "rx_fill_frame i s s1" "rxq_ring i k n b s1" "bufs_inv s1" "packets_ok s1"
      "res = Inr () \<and> rxq_prod_ptr (w_rxqs s1 i) = rxq_cons_ptr (w_rxqs s i) + 2 ^ k \<and>
         Rxq_refill_buffers E i s =
           (Inr (), wr_state E w 8 (0x80800000 OR (rxq_prod_ptr (w_rxqs s1 i) mod 65536)) s1) \<or>
       res = Inl PoolError \<and> Rxq_refill_buffers E i s = (Inl PoolError, s1)"
    by auto
  let ?s' = "wr_state E w 8 (0x80800000 OR (rxq_prod_ptr (w_rxqs s1 i) mod 65536)) s1"
  have "rxq_ring i k n b ?s'" "bufs_inv ?s'" "packets_ok ?s'"
    using rxq_ring_bus [OF s1(2) bus_frame_wr wr_state_sizes [OF dev]] bufs_inv_bus [OF s1(3) bus_frame_wr]
      packets_ok_bus [OF s1(4) bus_frame_wr wr_state_sizes [OF dev]] by auto
  moreover have "rx_frame i s s1" "rx_frame i s ?s'"
    using s1(1) dev by (simp_all add: rx_fill_frame_def rx_frame_wr)
  ultimately show ?thesis using s1(2-5) \<open>rx_frame i s s1\<close> by (auto simp: rx_frame_def)
qed

lemma Rxq_process_rx_cq_ok:
  fixes s :: "'h world" and cqi :: nat
  defines "buf \<equiv> \<lambda>b. w_mem s b" and "c0 \<equiv> cq_cons_ptr (w_cqs s cqi)"
    and "f \<equiv> cq_interface (w_cqs s cqi)"
  assumes dev: "device_ok E"
    and cq: "cq_ring cqi k b s" "cq_src_ring (w_cqs s cqi) = Some (RxRing r)"
      "cq_hw_regs (w_cqs s cqi) = Some w"
    and up: "ifc_port_up (w_ifs s f)"
    and ring: "rxq_ring r kr n br s" "rxq_hw_regs (w_rxqs s r) = Some wr" and inv: "bufs_inv s"
    and pok: "packets_ok s"
    and l: "l = ring.run_length (buf b) k c0"
    and named: "distinct (cpl_slots (buf b) k kr c0 l)"
      "\<forall>m \<in> set (cpl_slots (buf b) k kr c0 l). slot s (RxRing r) m \<noteq> None"
  shows "\<exists>res s'. Rxq_process_rx_cq E cqi s = (res, s') \<and> (res = Inr () \<or> res = Inl PoolError) \<and>
    rxq_ring r kr n br s' \<and> bufs_inv s' \<and> packets_ok s' \<and>
    cq_cons_ptr (w_cqs s' cqi) = c0 + int l \<and>
    ifc_pkt_rx_queue (w_ifs s' f) = ifc_pkt_rx_queue (w_ifs s f) @
      map (\<lambda>j. rx_taken s r (buf b) k kr (c0 + int j)) [0..<l] \<and>
    (res = Inr () \<longrightarrow> 2 ^ kr - (rxq_prod_ptr (w_rxqs s' r) - rxq_cons_ptr (w_rxqs s' r)) < 8)"
proof -
  have size: "cq_size (w_cqs s cqi) = 2 ^ k" using cq(1) by (simp add: cq_ring_def Let_def)
  have "int l \<le> 2 ^ k" using l ring.run_length_le by simp
  then have fuel: "l < Suc (nat (2 ^ k))" by linarith
  from rx_cpl_loop_ok [OF cq(1) ring(1) inv l [symmetric, unfolded buf_def] fuel named [unfolded buf_def]]
  obtain s1 where s1: "rx_cpl_loop (Suc (nat (2 ^ k))) cqi r c0 s = (Inr (c0 + int l), s1)"
      "rx_progress r f s s1" "rxq_ring r kr n br s1" "bufs_inv s1"
      "ifc_pkt_rx_queue (w_ifs s1 f) = ifc_pkt_rx_queue (w_ifs s f) @
        map (\<lambda>j. rx_taken s r (buf b) k kr (c0 + int j)) [0..<l]"
    unfolding buf_def f_def by blast
  from s1(2) obtain info where info: "w_rxqs s1 r = (w_rxqs s r)\<lparr>rxq_rx_info := info\<rparr>"
    and cqs: "w_cqs s1 = w_cqs s"
    by (auto simp: rx_progress_def)
  let ?v = "0x80900000 OR ((c0 + int l) mod 65536)"
  let ?s2 = "s1\<lparr>w_cqs := (w_cqs s)(cqi := (w_cqs s cqi)\<lparr>cq_cons_ptr := c0 + int l\<rparr>)\<rparr>"
  let ?s3 = "wr_state E w 8 ?v ?s2"
  have wr: "Cq_write_cons_ptr E cqi ?s2 = (Inr (), ?s3)"
    using cq(3) by (simp add: Cq_write_cons_ptr_def run_simps regs and_mask_mod [of _ 16, simplified])
  have r3: "rxq_ring r kr n br ?s3"
    by (rule rxq_ring_bus [OF _ bus_frame_wr wr_state_sizes [OF dev]]) (simp add: s1(3))
  have i3: "bufs_inv ?s3" by (rule bufs_inv_bus [OF _ bus_frame_wr]) (simp add: s1(4))
  have p3: "packets_ok ?s3"
    by (rule packets_ok_bus [OF _ bus_frame_wr wr_state_sizes [OF dev]])
       (simp add: packets_ok_progress [OF pok s1(2)])
  from rxq_reclaim [OF r3] obtain c where c: "Rxq_reclaim r ?s3 = (Inr (), rx_cons_set r c ?s3)"
      "rxq_ring r kr n br (rx_cons_set r c ?s3)"
    by blast
  let ?s4 = "rx_cons_set r c ?s3"
  have "rxq_hw_regs (w_rxqs ?s4 r) = Some wr" using ring(2) info by simp
  moreover have "bufs_inv ?s4" "packets_ok ?s4" using i3 p3 by simp_all
  ultimately obtain res s' where s': "Rxq_refill_buffers E r ?s4 = (res, s')"
      "res = Inr () \<or> res = Inl PoolError" "rxq_ring r kr n br s'" "bufs_inv s'" "packets_ok s'"
      "rx_frame r ?s4 s'"
      "res = Inr () \<longrightarrow> 2 ^ kr - (rxq_prod_ptr (w_rxqs s' r) - rxq_cons_ptr (w_rxqs s' r)) < 8"
    using Rxq_refill_buffers_post [OF c(2) _ dev] by blast
  have "Rxq_process_rx_cq E cqi s = Rxq_refill_buffers E r ?s4"
    using s1(1) wr c(1) cq(2) up size cqs
    by (simp add: Rxq_process_rx_cq_def run_bnd run_sq get_cq_def get_if_def src_rxq_def c0_def f_def
        upd_cq_def del: rx_cpl_loop.simps)
  moreover have "w_ifs ?s4 = w_ifs s1" "cq_cons_ptr (w_cqs ?s4 cqi) = c0 + int l" by simp_all
  ultimately show ?thesis using s' s1(5)
    by (intro exI [of _ res] exI [of _ s']) (simp add: rx_frame_def)
qed

section \<open>Opening a ring\<close>

lemma Rxq_program_run:
  assumes closed: "rxq_hw_regs (w_rxqs s self) = None"
    and i: "i = rxq_interface (w_rxqs s self)"
    and r: "ifc_rxq_res (w_ifs s i) = Some r" "res_alloc r = Inr (ix, r')"
    and sz: "0 < sz" "0 < dbs"
    and c: "cq_cqn (w_cqs s c) = Some cqn"
    and pool: "pool_alloc E (w_hw s) (2 ^ floor_log2 sz * (16 * 2 ^ floor_log2 dbs)) = Some (a, bs, h)"
      "int (length bs) = 2 ^ floor_log2 sz * (16 * 2 ^ floor_log2 dbs)"
    and dev: "device_ok E" and inv: "bufs_inv s"
  shows "\<exists>s'. Rxq_program E self c sz dbs s = (Inr (), s') \<and>
    w_mmio s' = w_mmio s @ program_ring (fst (res_get_window r' ix)) a
      (int (floor_log2 dbs)) (int (floor_log2 sz)) cqn \<and>
    rxq_hw_regs (w_rxqs s' self) = Some (fst (res_get_window r' ix)) \<and>
    rxq_index (w_rxqs s' self) = Some ix \<and> Rxq_empty (w_rxqs s' self) \<and>
    cq_src_ring (w_cqs s' c) = Some (RxRing self) \<and> cq_handler (w_cqs s' c) = Some ProcessRxCq \<and>
    rxq_ring self (floor_log2 sz) (2 ^ floor_log2 dbs) (w_next_region s) s'"
proof -
  have log: "bit_length sz - 1 = int (floor_log2 sz)" "bit_length dbs - 1 = int (floor_log2 dbs)"
    using sz by (simp_all add: bit_length_floor_log2)
  have b: "w_next_region s \<notin> rg_id ` set (drv_allocated_packets (w_drv s))"
    using bufs_inv_pool [OF inv] by (auto simp: pool_inv_def)
  have nat: "nat (2 ^ floor_log2 sz) = 2 ^ floor_log2 sz" by (simp add: nat_power_eq)
  have sl: "slots_ok (floor_log2 sz) 0 0 (replicate (2 ^ floor_log2 sz) None)" by (rule slots_ok_init)
  have sizes: "length (w_mem (wr_state E w x v t) b) = length (w_mem t b)" for w x v t b
    using wr_state_sizes [OF dev, of t w x v] by (simp add: same_sizes_def)
  show ?thesis
    unfolding Rxq_program_def
    using assms(1-9) b
    by (simp add: run_simps if_alloc_run if_get_window_run log alloc_region_def nat sl sizes
        get_absolute_address_def program_ring_def Let_def drop_bit_eq_div push_bit_eq_mult
        rxq_ring_def Rxq_empty_def mult.commute [of 256] regs)
qed

end
