(* ===== verification/Events.thy ===== *)
theory Events
  imports Rx_Queue
begin

text \<open>
  \<open>Eq.process_eq\<close> of \<open>mqnic.py\<close> and \<open>Driver.interrupt_handler\<close>: walking an event ring and
  calling the handler of each completion queue an event names. The invariant \<open>run_inv\<close>
  collects what holds of all queues between two coroutine steps while an interface is up;
  every handler keeps it, on normal and on exceptional exits. A handler issues bus
  transactions, during which the NIC may write further events, so the number of rounds is not
  bounded by the ring's size in general: \<open>process_eq\<close> takes its fuel as an argument, and
  \<open>eq_loop_quiet\<close> shows that one lap and one round are enough for a NIC that writes no event
  meanwhile.
\<close>

section \<open>The methods\<close>

text \<open>\<open>await cq.handler(cq)\<close>; calling \<open>None\<close> raises \<open>TypeError\<close>.\<close>

definition cq_handle :: "'h env \<Rightarrow> nat \<Rightarrow> ('h, unit) drv" where
  "cq_handle E cqi =
     bnd (get_cq cqi) (\<lambda>c.
     case cq_handler c of
       None \<Rightarrow> throw TypeError
     | Some ProcessTxCq \<Rightarrow> Txq_process_tx_cq E cqi
     | Some ProcessRxCq \<Rightarrow> Rxq_process_rx_cq E cqi)"

text \<open>The fields of \<open>"<HHLLLLLLL"\<close>.\<close>

definition ev_fmt :: "fld list" where
  "ev_fmt = [FH, FH, FL, FL, FL, FL, FL, FL, FL]"

definition eq_dispatch :: "'h env \<Rightarrow> nat \<Rightarrow> int list \<Rightarrow> ('h, unit) drv" where
  "eq_dispatch E self ev =
     (if ev ! 0 = MQNIC_EVENT_TYPE_CPL then
        bnd (get_eq self) (\<lambda>q.
        case eq_cq_table q (ev ! 1) of
          None \<Rightarrow> throw KeyError
        | Some cqi \<Rightarrow> sq (cq_handle E cqi) (Cq_arm E cqi))
      else ret ())"

primrec eq_loop :: "'h env \<Rightarrow> nat \<Rightarrow> nat \<Rightarrow> int \<Rightarrow> ('h, int) drv" where
  "eq_loop E 0 self c = throw NoFuel"
| "eq_loop E (Suc n) self c =
     bnd (get_eq self) (\<lambda>q.
     bnd (the_buf (eq_buf q)) (\<lambda>b.
     bnd (mem_unpack ev_fmt b ((c AND eq_size_mask q) * eq_stride q)) (\<lambda>event_data.
     if (last event_data AND 0x80000000 \<noteq> 0) = (c AND eq_size q \<noteq> 0) then ret c
     else sq (eq_dispatch E self event_data) (eq_loop E n self (c + 1)))))"

definition Eq_process_eq :: "'h env \<Rightarrow> nat \<Rightarrow> nat \<Rightarrow> ('h, unit) drv" where
  "Eq_process_eq E fuel self =
     bnd (get_eq self) (\<lambda>q.
     bnd (get_if (eq_interface q)) (\<lambda>ifc.
     if \<not> ifc_port_up ifc then ret () else
     bnd (eq_loop E fuel self (eq_cons_ptr q)) (\<lambda>c.
     sq (upd_eq self (\<lambda>q. q\<lparr>eq_cons_ptr := c\<rparr>)) (Eq_write_cons_ptr E self))))"

definition Driver_interrupt_handler :: "'h env \<Rightarrow> nat \<Rightarrow> int \<Rightarrow> ('h, unit) drv" where
  "Driver_interrupt_handler E fuel index =
     bnd get_drv (\<lambda>d.
     forM (drv_interfaces d) (\<lambda>i.
       bnd (get_if i) (\<lambda>ifc.
       forM (ifc_eq ifc) (\<lambda>e.
         bnd (get_eq e) (\<lambda>q.
         if eq_irq q = Some index then sq (Eq_process_eq E fuel e) (Eq_arm E e) else ret ())))))"

section \<open>The invariant of a running driver\<close>

definition cq_attached :: "'h world \<Rightarrow> nat \<Rightarrow> ring_ref \<Rightarrow> bool" where
  "cq_attached s c r \<longleftrightarrow>
     (\<exists>k b. cq_ring c k b s \<and> b < w_next_region s) \<and> cq_hw_regs (w_cqs s c) \<noteq> None \<and>
     (case r of
        TxRing i \<Rightarrow> cq_handler (w_cqs s c) = Some ProcessTxCq \<and> txq_hw_regs (w_txqs s i) \<noteq> None
      | RxRing i \<Rightarrow> cq_handler (w_cqs s c) = Some ProcessRxCq \<and> rxq_hw_regs (w_rxqs s i) \<noteq> None)"

definition run_inv :: "'h world \<Rightarrow> bool" where
  "run_inv s \<longleftrightarrow> bufs_inv s \<and> packets_ok s \<and>
     (\<forall>i. txq_hw_regs (w_txqs s i) \<noteq> None \<longrightarrow> (\<exists>k n b. txq_ring i k n b s)) \<and>
     (\<forall>i. rxq_hw_regs (w_rxqs s i) \<noteq> None \<longrightarrow> (\<exists>k n b. rxq_ring i k n b s)) \<and>
     (\<forall>c r. cq_src_ring (w_cqs s c) = Some r \<longrightarrow> cq_attached s c r)"

lemma run_inv_init: "run_inv (init_world h)"
  by (simp add: run_inv_def bufs_inv_init)
     (simp add: init_world_def packets_ok_def Driver_init_def Txq_init_def Rxq_init_def Cq_init_def)

text \<open>
  Steps that leave the queues' bookkeeping alone, that only move memory contents, device state
  and consumer pointers of completion and event queues.
\<close>

definition run_frame :: "'h world \<Rightarrow> 'h world \<Rightarrow> bool" where
  "run_frame s s' \<longleftrightarrow> w_txqs s' = w_txqs s \<and> w_rxqs s' = w_rxqs s \<and> w_drv s' = w_drv s \<and>
     w_next_region s' = w_next_region s \<and> same_sizes (w_mem s) (w_mem s') \<and>
     (\<forall>c. cq_size (w_cqs s' c) = cq_size (w_cqs s c) \<and> cq_size_mask (w_cqs s' c) = cq_size_mask (w_cqs s c) \<and>
       cq_stride (w_cqs s' c) = cq_stride (w_cqs s c) \<and> cq_buf (w_cqs s' c) = cq_buf (w_cqs s c) \<and>
       cq_src_ring (w_cqs s' c) = cq_src_ring (w_cqs s c) \<and> cq_handler (w_cqs s' c) = cq_handler (w_cqs s c) \<and>
       cq_hw_regs (w_cqs s' c) = cq_hw_regs (w_cqs s c))"

lemma run_inv_frame:
  assumes inv: "run_inv s" and fr: "run_frame s s'"
  shows "run_inv s'"
proof -
  have eqs: "w_txqs s' = w_txqs s" "w_rxqs s' = w_rxqs s" "w_drv s' = w_drv s"
      "w_next_region s' = w_next_region s" "\<And>b. length (w_mem s' b) = length (w_mem s b)"
    using fr by (auto simp: run_frame_def same_sizes_def)
  have "bufs_inv s'"
  proof (rule bufs_inv_cong [of s])
    show "slot s' r n = slot s r n" for r n by (cases r) (simp_all add: slot_def eqs)
  qed (use inv eqs in \<open>simp_all add: run_inv_def\<close>)
  moreover have "txq_ring i k n b s' = txq_ring i k n b s" "rxq_ring i k n b s' = rxq_ring i k n b s"
      "cq_ring i k b s' = cq_ring i k b s" for i k n b
    using fr by (simp_all add: txq_ring_def rxq_ring_def cq_ring_def eqs run_frame_def Let_def)
  moreover have "cq_attached s' c r = cq_attached s c r" for c r
    using fr by (simp add: cq_attached_def cq_ring_def eqs run_frame_def Let_def split: ring_ref.split)
  ultimately show ?thesis
    using inv fr by (simp add: run_inv_def packets_ok_def eqs run_frame_def)
qed

lemma run_frame_wr: "device_ok E \<Longrightarrow> run_frame s (wr_state E w a v s)"
  by (simp add: run_frame_def wr_state_sizes)

lemma ends_run_write [ends_intros]: "device_ok E \<Longrightarrow> ends run_inv (write_dword E w a v)"
  by (auto intro!: ends_Inr run_inv_frame [OF _ run_frame_wr])

lemma ends_run_upd_cq [ends_intros]: "ends run_inv (upd_cq c (\<lambda>q. q\<lparr>cq_cons_ptr := x\<rparr>))"
  by (rule ends_Inr) (auto simp: upd_cq_def run_frame_def elim!: run_inv_frame)

lemma ends_run_upd_eq [ends_intros]: "ends run_inv (upd_eq e f)"
  by (rule ends_Inr) (auto simp: upd_eq_def run_frame_def elim!: run_inv_frame)

lemma ends_run_cq_write [ends_intros]: "device_ok E \<Longrightarrow> ends run_inv (Cq_write_cons_ptr E c)"
  unfolding Cq_write_cons_ptr_def get_cq_def by (intro ends_intros)

lemma ends_run_cq_arm [ends_intros]: "device_ok E \<Longrightarrow> ends run_inv (Cq_arm E c)"
  unfolding Cq_arm_def get_cq_def by (intro ends_intros)

lemma ends_run_eq_write [ends_intros]: "device_ok E \<Longrightarrow> ends run_inv (Eq_write_cons_ptr E c)"
  unfolding Eq_write_cons_ptr_def get_eq_def by (intro ends_intros)

lemma ends_run_eq_arm [ends_intros]: "device_ok E \<Longrightarrow> ends run_inv (Eq_arm E c)"
  unfolding Eq_arm_def get_eq_def by (intro ends_intros)

text \<open>Steps of one transmit ring.\<close>

lemma run_inv_tx:
  assumes inv: "run_inv s" and ring: "txq_ring r k n b s'" and bufs: "bufs_inv s'"
    and oth: "\<And>j. j \<noteq> r \<Longrightarrow> w_txqs s' j = w_txqs s j" and hw: "txq_hw_regs (w_txqs s' r) = txq_hw_regs (w_txqs s r)"
    and fr: "w_rxqs s' = w_rxqs s" "w_cqs s' = w_cqs s" "w_mem s' = w_mem s"
      "w_next_region s' = w_next_region s" "drv_pkt_buf_size (w_drv s') = drv_pkt_buf_size (w_drv s)"
      "drv_allocated_packets (w_drv s') = drv_allocated_packets (w_drv s)"
  shows "run_inv s'"
proof -
  have hw': "txq_hw_regs (w_txqs s' j) = txq_hw_regs (w_txqs s j)" for j
    using oth hw by (cases "j = r") auto
  have "\<exists>k n b. txq_ring i k n b s'" if "txq_hw_regs (w_txqs s' i) \<noteq> None" for i
  proof (cases "i = r")
    case False
    with inv that obtain k n b where "txq_ring i k n b s" by (auto simp: run_inv_def hw')
    with oth [OF False] have "txq_ring i k n b s'" by (simp add: txq_ring_def fr)
    then show ?thesis by blast
  qed (use ring in blast)
  moreover have "rxq_ring i k n b s' = rxq_ring i k n b s" "cq_ring i k b s' = cq_ring i k b s" for i k n b
    by (simp_all add: rxq_ring_def cq_ring_def fr)
  moreover have "cq_attached s' c x = cq_attached s c x" for c x
    by (simp add: cq_attached_def cq_ring_def fr hw' split: ring_ref.split)
  ultimately show ?thesis
    using inv bufs unfolding run_inv_def packets_ok_def by (simp only: fr simp_thms) blast
qed

lemma run_inv_released:
  "run_inv s \<Longrightarrow> tx_released r s s' \<Longrightarrow> txq_ring r k n b s' \<Longrightarrow> bufs_inv s' \<Longrightarrow> run_inv s'"
  by (erule run_inv_tx) (auto simp: tx_released_def)

lemma run_inv_tx_cons:
  assumes "run_inv s" and ring: "txq_ring r k n b (tx_cons_set r c s)"
  shows "run_inv (tx_cons_set r c s)"
proof (rule run_inv_tx [OF assms])
  show "bufs_inv (tx_cons_set r c s)" using assms(1) by (simp add: run_inv_def)
qed (simp_all add: tx_cons_set_def)

lemma run_invD:
  assumes "run_inv s"
  shows "bufs_inv s" "packets_ok s"
    "txq_hw_regs (w_txqs s i) \<noteq> None \<Longrightarrow> \<exists>k n b. txq_ring i k n b s"
    "rxq_hw_regs (w_rxqs s i) \<noteq> None \<Longrightarrow> \<exists>k n b. rxq_ring i k n b s"
    "cq_src_ring (w_cqs s c) = Some r \<Longrightarrow> cq_attached s c r"
  using assms unfolding run_inv_def by blast+

lemma run_inv_attached:
  assumes inv: "run_inv s" and src: "cq_src_ring (w_cqs s c) = Some (TxRing i)"
  shows "\<exists>k b kr n br. cq_ring c k b s \<and> txq_ring i kr n br s"
proof -
  from run_invD(5) [OF assms] have "(\<exists>k b. cq_ring c k b s) \<and> txq_hw_regs (w_txqs s i) \<noteq> None"
    by (auto simp: cq_attached_def)
  with run_invD(3) [OF inv] show ?thesis by blast
qed

lemma run_inv_attached_rx:
  assumes inv: "run_inv s" and src: "cq_src_ring (w_cqs s c) = Some (RxRing i)"
  shows "\<exists>k b kr n br w. cq_ring c k b s \<and> rxq_ring i kr n br s \<and> rxq_hw_regs (w_rxqs s i) = Some w"
proof -
  from run_invD(5) [OF assms] have "(\<exists>k b. cq_ring c k b s) \<and> rxq_hw_regs (w_rxqs s i) \<noteq> None"
    by (auto simp: cq_attached_def)
  with run_invD(4) [OF inv] show ?thesis by blast
qed

text \<open>The two handlers keep the invariant, and their loops end.\<close>

lemma run_inv_cqs_cons:
  "run_inv s \<Longrightarrow> w_cqs s c = q \<Longrightarrow> run_inv (s\<lparr>w_cqs := (w_cqs s)(c := q\<lparr>cq_cons_ptr := x\<rparr>)\<rparr>)"
  by (erule run_inv_frame) (simp add: run_frame_def)

lemma cq_fuel: "cq_ring c k b s \<Longrightarrow> ring.run_length buf k p < Suc (nat (cq_size (w_cqs s c)))"
  using ring.run_length_le [of buf k p] by (simp add: cq_ring_def Let_def less_Suc_eq_le le_nat_iff)

lemma Txq_process_tail:
  assumes dev: "device_ok E" and inv: "run_inv s" and open': "txq_hw_regs (w_txqs s r) \<noteq> None"
    and run: "sq (upd_cq cqi (\<lambda>q. q\<lparr>cq_cons_ptr := c\<rparr>)) (sq (Cq_write_cons_ptr E cqi) (Txq_reclaim r)) s = (res, s')"
  shows "run_inv s' \<and> res \<noteq> Inl NoFuel"
proof -
  let ?s1 = "s\<lparr>w_cqs := (w_cqs s)(cqi := (w_cqs s cqi)\<lparr>cq_cons_ptr := c\<rparr>)\<rparr>"
  have i1: "run_inv ?s1" using inv by (rule run_inv_cqs_cons) simp
  obtain q s2 where s2: "Cq_write_cons_ptr E cqi ?s1 = (q, s2)" by (cases "Cq_write_cons_ptr E cqi ?s1")
  from endsD [OF ends_run_cq_write [OF dev] i1 s2] have i2: "run_inv s2" "q \<noteq> Inl NoFuel" by auto
  have "w_txqs s2 = w_txqs s"
    using s2 by (auto simp: Cq_write_cons_ptr_def run_simps split: option.splits)
  then obtain k n b where "txq_ring r k n b s2" using run_invD(3) [OF i2(1), of r] open' by auto
  from txq_reclaim [OF this] obtain x where
      x: "Txq_reclaim r s2 = (Inr (), tx_cons_set r x s2)" "txq_ring r k n b (tx_cons_set r x s2)"
    by blast
  have "run_inv (tx_cons_set r x s2)" using i2(1) x(2) by (rule run_inv_tx_cons)
  with run s2 x(1) i2 show ?thesis
    by (cases q) (auto simp: run_sq upd_cq_def)
qed

lemma ends_run_tx [ends_intros]:
  assumes dev: "device_ok E"
  shows "ends run_inv (Txq_process_tx_cq E cqi)"
proof (rule endsI)
  fix s :: "'a world" and res s'
  assume inv: "run_inv s" and run: "Txq_process_tx_cq E cqi s = (res, s')"
  show "run_inv s' \<and> res \<noteq> Inl NoFuel"
  proof (cases "\<exists>r. cq_src_ring (w_cqs s cqi) = Some (TxRing r) \<and> ifc_port_up (w_ifs s (cq_interface (w_cqs s cqi)))")
    case False
    then have "s' = s \<and> res \<noteq> Inl NoFuel"
      using run by (auto simp: Txq_process_tx_cq_def run_simps src_txq_def split: option.splits ring_ref.splits if_splits)
    with inv show ?thesis by simp
  next
    case True
    then obtain r where src: "cq_src_ring (w_cqs s cqi) = Some (TxRing r)"
      and up: "ifc_port_up (w_ifs s (cq_interface (w_cqs s cqi)))" by blast
    from run_inv_attached [OF inv src] obtain k b kr n br where
        cq: "cq_ring cqi k b s" and ring: "txq_ring r kr n br s" by blast
    have hw: "txq_hw_regs (w_txqs s r) \<noteq> None"
      using run_invD(5) [OF inv src] by (simp add: cq_attached_def)
    from tx_cpl_loop_spec [OF cq ring run_invD(1) [OF inv] cq_fuel [OF cq]] obtain q s1 where s1:
        "tx_cpl_loop (Suc (nat (cq_size (w_cqs s cqi)))) cqi r (cq_cons_ptr (w_cqs s cqi)) s = (q, s1)"
        "tx_released r s s1" "txq_ring r kr n br s1" "bufs_inv s1" "q \<noteq> Inl NoFuel"
      by blast
    have i1: "run_inv s1" using inv s1(2-4) by (rule run_inv_released)
    have hw1: "txq_hw_regs (w_txqs s1 r) \<noteq> None" using s1(2) hw by (auto simp: tx_released_def)
    have eq: "Txq_process_tx_cq E cqi s = bnd (\<lambda>_. (q, s1)) (\<lambda>c. sq (upd_cq cqi (\<lambda>q. q\<lparr>cq_cons_ptr := c\<rparr>))
        (sq (Cq_write_cons_ptr E cqi) (Txq_reclaim r))) s"
      using s1(1) src up
      by (simp add: Txq_process_tx_cq_def run_bnd get_cq_def get_if_def src_txq_def del: tx_cpl_loop.simps)
    show ?thesis
    proof (cases q)
      case (Inl e)
      with eq run s1(5) i1 show ?thesis by (simp add: run_bnd)
    next
      case (Inr c)
      with eq run have "sq (upd_cq cqi (\<lambda>q. q\<lparr>cq_cons_ptr := c\<rparr>))
          (sq (Cq_write_cons_ptr E cqi) (Txq_reclaim r)) s1 = (res, s')"
        by (simp add: run_bnd)
      with dev i1 hw1 show ?thesis by (rule Txq_process_tail)
    qed
  qed
qed

text \<open>Steps of one receive ring.\<close>

lemma run_inv_rx:
  assumes inv: "run_inv s" and ring: "rxq_ring r k n b s'" and bufs: "bufs_inv s'" and pok: "packets_ok s'"
    and oth: "\<And>j. j \<noteq> r \<Longrightarrow> w_rxqs s' j = w_rxqs s j" and hw: "rxq_hw_regs (w_rxqs s' r) = rxq_hw_regs (w_rxqs s r)"
    and fr: "w_txqs s' = w_txqs s" "w_cqs s' = w_cqs s" "w_next_region s \<le> w_next_region s'"
      "\<And>b. b < w_next_region s \<Longrightarrow> length (w_mem s' b) = length (w_mem s b)"
      "\<And>p. p \<in> set (drv_allocated_packets (w_drv s')) \<Longrightarrow>
         p \<in> set (drv_allocated_packets (w_drv s)) \<or> w_next_region s \<le> rg_id p"
  shows "run_inv s'"
proof -
  have hw': "rxq_hw_regs (w_rxqs s' j) = rxq_hw_regs (w_rxqs s j)" for j
    using oth hw by (cases "j = r") auto
  have tx: "txq_ring i k n b s'" if "txq_ring i k n b s" for i k n b
    using that fr by (fastforce simp: txq_ring_def Let_def)
  have rx: "\<exists>k n b. rxq_ring i k n b s'" if "rxq_hw_regs (w_rxqs s' i) \<noteq> None" for i
  proof (cases "i = r")
    case False
    with that obtain k n b where "rxq_ring i k n b s" using run_invD(4) [OF inv, of i] by (auto simp: hw')
    then have "rxq_ring i k n b s'" using oth [OF False] fr by (fastforce simp: rxq_ring_def Let_def)
    then show ?thesis by blast
  qed (use ring in blast)
  have cqb: "cq_ring c k b s' \<and> b < w_next_region s'" if "cq_ring c k b s" "b < w_next_region s" for c k b
    using that fr(3,4) by (simp add: cq_ring_def Let_def fr(2))
  have att: "cq_attached s' c x" if "cq_attached s c x" for c x
  proof -
    from that cqb have "\<exists>k b. cq_ring c k b s' \<and> b < w_next_region s'" unfolding cq_attached_def by blast
    with that show ?thesis by (simp add: cq_attached_def fr(1,2) hw' split: ring_ref.splits)
  qed
  show ?thesis
    unfolding run_inv_def
  proof (intro conjI allI impI)
    fix i assume "txq_hw_regs (w_txqs s' i) \<noteq> None"
    with run_invD(3) [OF inv, of i] tx show "\<exists>k n b. txq_ring i k n b s'" unfolding fr(1) by blast
  next
    fix c x assume "cq_src_ring (w_cqs s' c) = Some x"
    with run_invD(5) [OF inv] att show "cq_attached s' c x" by (simp add: fr(2))
  qed (use bufs pok rx in auto)
qed

lemma run_inv_progress:
  assumes inv: "run_inv s" and pr: "rx_progress r f s s'" and "rxq_ring r k n b s'" "bufs_inv s'"
  shows "run_inv s'"
proof (rule run_inv_rx [OF inv assms(3,4)])
  show "packets_ok s'" using run_invD(2) [OF inv] pr by (rule packets_ok_progress)
qed (use pr in \<open>auto simp: rx_progress_def\<close>)

lemma run_inv_rx_cons:
  "run_inv s \<Longrightarrow> rxq_ring r k n b (rx_cons_set r c s) \<Longrightarrow> run_inv (rx_cons_set r c s)"
  by (rule run_inv_rx [where s = s and r = r]) (auto dest: run_invD(1,2), simp_all add: rx_cons_set_def)

lemma Rxq_refill_run:
  assumes dev: "device_ok E" and inv: "run_inv s" and open': "rxq_hw_regs (w_rxqs s r) \<noteq> None"
    and run: "Rxq_refill_buffers E r s = (res, s')"
  shows "run_inv s' \<and> res \<noteq> Inl NoFuel"
proof -
  from run_invD(4) [OF inv open'] obtain k n b where ring: "rxq_ring r k n b s" by blast
  from open' obtain w where "rxq_hw_regs (w_rxqs s r) = Some w" by blast
  from Rxq_refill_buffers_post [OF ring run_invD(1) [OF inv] dev run_invD(2) [OF inv] this] run
  have p: "res = Inr () \<or> res = Inl PoolError" "rxq_ring r k n b s'" "bufs_inv s'" "packets_ok s'"
      "rx_frame r s s'"
    by auto
  have "run_inv s'"
    by (rule run_inv_rx [OF inv p(2-4)]) (use p(5) in \<open>simp_all add: rx_frame_def\<close>)
  with p(1) show ?thesis by auto
qed

lemma Rxq_process_tail:
  assumes dev: "device_ok E" and inv: "run_inv s" and open': "rxq_hw_regs (w_rxqs s r) \<noteq> None"
    and run: "sq (upd_cq cqi (\<lambda>q. q\<lparr>cq_cons_ptr := c\<rparr>)) (sq (Cq_write_cons_ptr E cqi)
      (sq (Rxq_reclaim r) (Rxq_refill_buffers E r))) s = (res, s')"
  shows "run_inv s' \<and> res \<noteq> Inl NoFuel"
proof -
  let ?s1 = "s\<lparr>w_cqs := (w_cqs s)(cqi := (w_cqs s cqi)\<lparr>cq_cons_ptr := c\<rparr>)\<rparr>"
  have i1: "run_inv ?s1" using inv by (rule run_inv_cqs_cons) simp
  obtain q s2 where s2: "Cq_write_cons_ptr E cqi ?s1 = (q, s2)" by (cases "Cq_write_cons_ptr E cqi ?s1")
  from endsD [OF ends_run_cq_write [OF dev] i1 s2] have i2: "run_inv s2" "q \<noteq> Inl NoFuel" by auto
  have rx: "w_rxqs s2 = w_rxqs s"
    using s2 by (auto simp: Cq_write_cons_ptr_def run_simps split: option.splits)
  then obtain k n b where "rxq_ring r k n b s2" using run_invD(4) [OF i2(1), of r] open' by auto
  from rxq_reclaim [OF this] obtain x where
      x: "Rxq_reclaim r s2 = (Inr (), rx_cons_set r x s2)" "rxq_ring r k n b (rx_cons_set r x s2)"
    by blast
  have i3: "run_inv (rx_cons_set r x s2)" using i2(1) x(2) by (rule run_inv_rx_cons)
  have o3: "rxq_hw_regs (w_rxqs (rx_cons_set r x s2) r) \<noteq> None" using open' rx by simp
  show ?thesis
  proof (cases q)
    case (Inl e)
    with run s2 i2 show ?thesis by (auto simp: run_sq upd_cq_def)
  next
    case (Inr u)
    with run s2 x(1) have "Rxq_refill_buffers E r (rx_cons_set r x s2) = (res, s')"
      by (simp add: run_sq upd_cq_def)
    with dev i3 o3 show ?thesis by (rule Rxq_refill_run)
  qed
qed

lemma ends_run_rx [ends_intros]:
  assumes dev: "device_ok E"
  shows "ends run_inv (Rxq_process_rx_cq E cqi)"
proof (rule endsI)
  fix s :: "'a world" and res s'
  assume inv: "run_inv s" and run: "Rxq_process_rx_cq E cqi s = (res, s')"
  show "run_inv s' \<and> res \<noteq> Inl NoFuel"
  proof (cases "\<exists>r. cq_src_ring (w_cqs s cqi) = Some (RxRing r) \<and> ifc_port_up (w_ifs s (cq_interface (w_cqs s cqi)))")
    case False
    then have "s' = s \<and> res \<noteq> Inl NoFuel"
      using run by (auto simp: Rxq_process_rx_cq_def run_simps src_rxq_def split: option.splits ring_ref.splits if_splits)
    with inv show ?thesis by simp
  next
    case True
    then obtain r where src: "cq_src_ring (w_cqs s cqi) = Some (RxRing r)"
      and up: "ifc_port_up (w_ifs s (cq_interface (w_cqs s cqi)))" by blast
    from run_inv_attached_rx [OF inv src] obtain k b kr n br w where
        cq: "cq_ring cqi k b s" and ring: "rxq_ring r kr n br s" and hw: "rxq_hw_regs (w_rxqs s r) = Some w"
      by blast
    let ?f = "cq_interface (w_cqs s cqi)"
    from rx_cpl_loop_spec [OF cq ring run_invD(1) [OF inv] cq_fuel [OF cq]] obtain q s1 where s1:
        "rx_cpl_loop (Suc (nat (cq_size (w_cqs s cqi)))) cqi r (cq_cons_ptr (w_cqs s cqi)) s = (q, s1)"
        "rx_progress r ?f s s1" "rxq_ring r kr n br s1" "bufs_inv s1" "q \<noteq> Inl NoFuel"
      by blast
    have i1: "run_inv s1" using inv s1(2-4) by (rule run_inv_progress)
    have hw1: "rxq_hw_regs (w_rxqs s1 r) \<noteq> None" using s1(2) hw by (auto simp: rx_progress_def)
    have eq: "Rxq_process_rx_cq E cqi s = bnd (\<lambda>_. (q, s1)) (\<lambda>c. sq (upd_cq cqi (\<lambda>q. q\<lparr>cq_cons_ptr := c\<rparr>))
        (sq (Cq_write_cons_ptr E cqi) (sq (Rxq_reclaim r) (Rxq_refill_buffers E r)))) s"
      using s1(1) src up
      by (simp add: Rxq_process_rx_cq_def run_bnd get_cq_def get_if_def src_rxq_def del: rx_cpl_loop.simps)
    show ?thesis
    proof (cases q)
      case (Inl e)
      with eq run s1(5) i1 show ?thesis by (simp add: run_bnd)
    next
      case (Inr c)
      with eq run have "sq (upd_cq cqi (\<lambda>q. q\<lparr>cq_cons_ptr := c\<rparr>))
          (sq (Cq_write_cons_ptr E cqi) (sq (Rxq_reclaim r) (Rxq_refill_buffers E r))) s1 = (res, s')"
        by (simp add: run_bnd)
      with dev i1 hw1 show ?thesis by (rule Rxq_process_tail)
    qed
  qed
qed

lemma ends_run_handle [ends_intros]: "device_ok E \<Longrightarrow> ends run_inv (cq_handle E c)"
  unfolding cq_handle_def get_cq_def
  by (intro ends_intros) (auto intro!: ends_intros split: cq_handler.split)

lemma ends_run_dispatch [ends_intros]: "device_ok E \<Longrightarrow> ends run_inv (eq_dispatch E e ev)"
  unfolding eq_dispatch_def get_eq_def by (intro ends_intros) auto

section \<open>The event loop\<close>

lemma keeps_the_buf [keeps_intros]: "keeps I (the_buf b)"
  by (auto simp: the_buf_def intro: keeps_intros split: option.split)

lemma keeps_mem_unpack [keeps_intros]: "keeps I (mem_unpack fs b off)"
  by (simp add: keeps_def mem_unpack_def)

lemma keeps_run_eq_loop: "device_ok E \<Longrightarrow> keeps run_inv (eq_loop E n e c)"
proof (induction n arbitrary: c)
  case (Suc n)
  show ?case
    unfolding eq_loop.simps get_eq_def
    by (intro keeps_intros Suc.IH Suc.prems ends_keeps [OF ends_run_dispatch])
qed (simp add: keeps_throw)

lemma keeps_run_process_eq: "device_ok E \<Longrightarrow> keeps run_inv (Eq_process_eq E fuel e)"
  unfolding Eq_process_eq_def get_eq_def get_if_def
  by (intro keeps_intros keeps_run_eq_loop ends_keeps [OF ends_run_upd_eq] ends_keeps [OF ends_run_eq_write])

lemma keeps_run_interrupt: "device_ok E \<Longrightarrow> keeps run_inv (Driver_interrupt_handler E fuel index)"
  unfolding Driver_interrupt_handler_def get_eq_def get_if_def get_drv_def
  by (intro keeps_intros keeps_run_process_eq ends_keeps [OF ends_run_eq_arm])

section \<open>The event loop ends when the NIC writes no event meanwhile\<close>

text \<open>A NIC whose side of a transaction does not touch region \<open>b\<close>.\<close>

definition spares :: "'h env \<Rightarrow> nat \<Rightarrow> bool" where
  "spares E b \<longleftrightarrow> (\<forall>h m w a v. snd (dev_write E h m w a v) b = m b)"

definition ev_still :: "nat \<Rightarrow> byte list \<Rightarrow> nat \<Rightarrow> eq \<Rightarrow> 'h world \<Rightarrow> bool" where
  "ev_still b X e q s \<longleftrightarrow> w_mem s b = X \<and> b < w_next_region s \<and> w_eqs s e = q \<and>
     (\<forall>r. rxq_buf (w_rxqs s r) \<noteq> Some b)"

named_theorems still_intros "operations that leave the event ring alone"

lemmas still_basic [still_intros] =
  keeps_ret keeps_throw keeps_gets keeps_attr keeps_assertM keeps_lift_res keeps_the_buf keeps_mem_unpack
  keeps_bnd keeps_sq keeps_if

lemma still_write [still_intros]: "spares E b \<Longrightarrow> keeps (ev_still b X e q) (write_dword E w a v)"
  by (rule keepsI) (simp add: ev_still_def wr_state_def spares_def split: prod.split, metis snd_conv)

lemma still_upd [still_intros]:
  "keeps (ev_still b X e q) (upd_cq c f)" "keeps (ev_still b X e q) (upd_txq t g)"
  "keeps (ev_still b X e q) (upd_if i h)" "keeps (ev_still b X e q) (upd_drv d)"
  by (auto intro!: keepsI simp: ev_still_def upd_cq_def upd_txq_def upd_if_def upd_drv_def)

lemma still_upd_rxq [still_intros]:
  "keeps (ev_still b X e q) (upd_rxq r (\<lambda>q. q\<lparr>rxq_rx_info := v\<rparr>))"
  "keeps (ev_still b X e q) (upd_rxq r (\<lambda>q. q\<lparr>rxq_cons_ptr := c\<rparr>))"
  "keeps (ev_still b X e q) (upd_rxq r (\<lambda>q. q\<lparr>rxq_prod_ptr := rxq_prod_ptr q + 1\<rparr>))"
  by (auto intro!: keepsI simp: ev_still_def upd_rxq_def)

lemma still_option [still_intros]:
  "keeps I m \<Longrightarrow> (\<And>x. keeps I (n x)) \<Longrightarrow> keeps I (case v of None \<Rightarrow> m | Some x \<Rightarrow> n x)"
  by (cases v) auto

lemma still_seqm [still_intros]: "keeps I (seqm [])" "keeps I m \<Longrightarrow> keeps I (seqm ms) \<Longrightarrow> keeps I (seqm (m # ms))"
  by (auto intro: keeps_intros)

lemma still_free [still_intros]: "keeps (ev_still b X e q) (free_pkt p)"
  unfolding free_pkt_def get_drv_def by (intro still_intros)

lemma still_alloc [still_intros]: "keeps (ev_still b X e q) (alloc_pkt E)"
proof (rule keepsI)
  fix s :: "'a world" assume "ev_still b X e q s"
  then show "ev_still b X e q (snd (alloc_pkt E s))"
    by (cases rule: alloc_pkt_cases [of s E]) (auto simp: ev_still_def)
qed

lemma still_desc_loop: "b' \<noteq> b \<Longrightarrow> keeps (ev_still b X e q) (desc_loop fmt pre dbs b' base ptr len off ks)"
proof (induction ks arbitrary: off)
  case (Cons k ks)
  have "keeps (ev_still b X e q) (mem_pack fmt b' pos vs)" for pos vs
    using Cons.prems by (auto intro!: keepsI simp: mem_pack_def ev_still_def split: sum.split)
  then show ?case unfolding desc_loop.simps Let_def by (intro keeps_sq Cons)
qed (simp add: keeps_ret)

lemma still_prepare [still_intros]: "keeps (ev_still b X e q) (Rxq_prepare_desc (E :: 'h env) r ix)"
proof -
  have "keeps (ev_still b X e q) (bnd (get_rxq r :: ('h, rxq) drv) (\<lambda>q'.
     bnd (lift_res (py_upd (rxq_rx_info q') ix (Some pkt))) (\<lambda>info.
     sq (upd_rxq r (\<lambda>q. q\<lparr>rxq_rx_info := info\<rparr>)) (
     bnd (the_buf (rxq_buf q')) (\<lambda>b.
     desc_loop [FL, FL, FQ] [0] (rxq_desc_block_size q') b (ix * rxq_stride q')
       (get_absolute_address pkt 0) (rg_size pkt) 0 (map int [0..<nat (rxq_desc_block_size q')]))))))" for pkt
  proof (rule keepsI)
    fix s :: "'h world" assume s: "ev_still b X e q s"
    show "ev_still b X e q (snd (bnd (get_rxq r) (\<lambda>q'.
       bnd (lift_res (py_upd (rxq_rx_info q') ix (Some pkt))) (\<lambda>info.
       sq (upd_rxq r (\<lambda>q. q\<lparr>rxq_rx_info := info\<rparr>)) (
       bnd (the_buf (rxq_buf q')) (\<lambda>b.
       desc_loop [FL, FL, FQ] [0] (rxq_desc_block_size q') b (ix * rxq_stride q')
         (get_absolute_address pkt 0) (rg_size pkt) 0 (map int [0..<nat (rxq_desc_block_size q')]))))) s))"
    proof (cases "rxq_buf (w_rxqs s r)")
      case None
      then show ?thesis
        using s keepsD [OF still_upd_rxq(1) s] by (simp add: run_bnd run_sq get_rxq_def the_buf_def run_lift_res upd_rxq_def split: sum.split)
    next
      case (Some b')
      with s have "b' \<noteq> b" by (auto simp: ev_still_def)
      then have d: "keeps (ev_still b X e q) (desc_loop fmt pre dbs b' base ptr len off ks)"
        for fmt pre dbs base ptr len off ks
        by (rule still_desc_loop)
      have "keeps (ev_still b X e q) (
         bnd (lift_res (py_upd (rxq_rx_info (w_rxqs s r)) ix (Some pkt))) (\<lambda>info.
         sq (upd_rxq r (\<lambda>q. q\<lparr>rxq_rx_info := info\<rparr>)) (
         desc_loop [FL, FL, FQ] [0] (rxq_desc_block_size (w_rxqs s r)) b' (ix * rxq_stride (w_rxqs s r))
           (get_absolute_address pkt 0) (rg_size pkt) 0 (map int [0..<nat (rxq_desc_block_size (w_rxqs s r))]))))"
        by (intro still_intros d)
      from keepsD [OF this s] show ?thesis
        by (simp add: run_bnd [of "gets _"] get_rxq_def the_buf_def Some)
    qed
  qed
  then show ?thesis unfolding Rxq_prepare_desc_def by (intro keeps_bnd [OF still_alloc])
qed

lemma still_refill_loop [still_intros]: "keeps (ev_still b X e q) (rx_refill_loop E n r)"
proof (induction n)
  case (Suc n)
  show ?case unfolding rx_refill_loop.simps get_rxq_def by (intro still_intros Suc)
qed (unfold rx_refill_loop.simps, intro still_intros)

lemma still_cq_write [still_intros]: "spares E b \<Longrightarrow> keeps (ev_still b X e q) (Cq_write_cons_ptr E c)"
  unfolding Cq_write_cons_ptr_def get_cq_def by (intro still_intros)

lemma still_cq_arm [still_intros]: "spares E b \<Longrightarrow> keeps (ev_still b X e q) (Cq_arm E c)"
  unfolding Cq_arm_def get_cq_def by (intro still_intros)

lemma still_refill [still_intros]: "spares E b \<Longrightarrow> keeps (ev_still b X e q) (Rxq_refill_buffers E r)"
  unfolding Rxq_refill_buffers_def Rxq_write_prod_ptr_def get_rxq_def Let_def by (intro still_intros)

lemma still_free_desc [still_intros]:
  "keeps (ev_still b X e q) (Txq_free_desc r ix)" "keeps (ev_still b X e q) (Rxq_free_desc r ix)"
  unfolding Txq_free_desc_def Rxq_free_desc_def get_txq_def get_rxq_def by (intro still_intros)+

lemma still_tx_loop [still_intros]: "keeps (ev_still b X e q) (tx_cpl_loop n c r x)"
proof (induction n arbitrary: x)
  case (Suc n)
  show ?case unfolding tx_cpl_loop.simps get_cq_def get_txq_def Let_def by (intro still_intros Suc)
qed (unfold tx_cpl_loop.simps, intro still_intros)

lemma still_rx_loop [still_intros]: "keeps (ev_still b X e q) (rx_cpl_loop n c r x)"
proof (induction n arbitrary: x)
  case (Suc n)
  show ?case unfolding rx_cpl_loop.simps get_cq_def get_rxq_def Let_def by (intro still_intros Suc)
qed (unfold rx_cpl_loop.simps, intro still_intros)

lemma still_src [still_intros]: "keeps I (src_txq x)" "keeps I (src_rxq x)"
  by (auto simp: src_txq_def src_rxq_def intro: keeps_intros split: option.split ring_ref.split)

lemma still_dispatch:
  assumes sp: "spares E b"
  shows "keeps (ev_still b X e q) (eq_dispatch E x ev)"
proof -
  have "keeps (ev_still b X e q) (Txq_process_tx_cq E c)" "keeps (ev_still b X e q) (Rxq_process_rx_cq E c)" for c
    unfolding Txq_process_tx_cq_def Rxq_process_rx_cq_def Txq_reclaim_def Rxq_reclaim_def
      get_cq_def get_if_def get_txq_def get_rxq_def
    using sp by (intro still_intros; assumption)+
  then have "keeps (ev_still b X e q) (cq_handle E c)" for c
    unfolding cq_handle_def get_cq_def by (intro still_intros) (simp split: cq_handler.split)
  with sp show ?thesis
    unfolding eq_dispatch_def get_eq_def by (intro still_intros)
qed

text \<open>An event queue in order, and its \<open>k\<close>-th entry.\<close>

definition eq_ring :: "eq \<Rightarrow> nat \<Rightarrow> nat \<Rightarrow> byte list \<Rightarrow> bool" where
  "eq_ring q k b buf \<longleftrightarrow> eq_size q = 2 ^ k \<and> eq_size_mask q = 2 ^ k - 1 \<and> eq_stride q = 32 \<and>
     eq_buf q = Some b \<and> int (length buf) = 2 ^ k * 32"

definition ev_at :: "byte list \<Rightarrow> nat \<Rightarrow> int \<Rightarrow> int list" where
  "ev_at buf k c = unpack ev_fmt (drop (slot_of k c * 32) buf)"

lemma ev_phase: "last (ev_at buf k c) AND 0x80000000 \<noteq> 0 \<longleftrightarrow> entry_phase buf (c mod 2 ^ k)"
proof -
  have "nat (c mod 2 ^ k * 32 + 28) = slot_of k c * 32 + 28"
    by (simp add: slot_of_def nat_add_distrib nat_mult_distrib)
  then show ?thesis
    by (simp add: ev_at_def ev_fmt_def entry_phase_def add.commute)
qed

lemma eq_loop_step:
  assumes q: "eq_ring (w_eqs s e) k b (w_mem s b)"
  shows "eq_loop E (Suc n) e c s =
    (if entry_new (w_mem s b) k c
     then sq (eq_dispatch E e (ev_at (w_mem s b) k c)) (eq_loop E n e (c + 1)) s
     else (Inr c, s))"
proof -
  have f: "eq_size (w_eqs s e) = 2 ^ k" "eq_size_mask (w_eqs s e) = 2 ^ k - 1"
      "eq_stride (w_eqs s e) = 32" "eq_buf (w_eqs s e) = Some b"
    using q by (simp_all add: eq_ring_def)
  have "int (slot_of k c) + 1 \<le> 2 ^ k" by (simp add: int_slot_of add1_zle_eq)
  then have "int (slot_of k c * 32 + 32) \<le> int (length (w_mem s b))"
    using q by (simp add: eq_ring_def)
  then have "slot_of k c * 32 + 32 \<le> length (w_mem s b)" by (simp only: of_nat_le_iff)
  moreover have "(c AND (2 ^ k - 1)) * 32 = int (slot_of k c * 32)" by (simp add: int_slot_of and_mask_mod)
  moreover have "calcsize ev_fmt = 32" by (simp add: ev_fmt_def)
  ultimately have u: "mem_unpack ev_fmt b ((c AND (2 ^ k - 1)) * 32) s = (Inr (ev_at (w_mem s b) k c), s)"
    unfolding mem_unpack_def unpack_from_def ev_at_def by (simp only: nat_int) simp
  have new: "((last (ev_at (w_mem s b) k c) AND 0x80000000 = 0) = (c AND 2 ^ k = 0)) = (\<not> entry_new (w_mem s b) k c)"
    using ev_phase [of "w_mem s b" k c] and_exp_nonzero [of c k] by (auto simp: entry_new_def)
  show ?thesis
    by (cases "entry_new (w_mem s b) k c")
       (simp_all add: run_bnd get_eq_def the_buf_def f u new)
qed

lemma eq_loop_quiet:
  assumes dev: "device_ok E" "spares E b" and q: "eq_ring q k b X"
  shows "run_inv s \<Longrightarrow> ev_still b X e q s \<Longrightarrow> ring.run_length X k c < fuel \<Longrightarrow>
    \<exists>res s'. eq_loop E fuel e c s = (res, s') \<and> run_inv s' \<and> ev_still b X e q s' \<and>
      res \<noteq> Inl NoFuel \<and> (\<forall>c'. res = Inr c' \<longrightarrow> c' = c + int (ring.run_length X k c))"
proof (induction fuel arbitrary: c s)
  case (Suc n)
  have mem: "w_mem s b = X" "w_eqs s e = q" using Suc.prems(2) by (simp_all add: ev_still_def)
  note st = eq_loop_step [of s e k b E n c, unfolded mem, OF q]
  show ?case
  proof (cases "entry_new X k c")
    case False
    with st Suc.prems show ?thesis by (simp add: ring.run_length_0 del: eq_loop.simps)
  next
    case True
    have len: "ring.run_length X k c = Suc (ring.run_length X k (c + 1))"
      using True by (rule ring.run_length_Suc)
    obtain r s1 where d: "eq_dispatch E e (ev_at X k c) s = (r, s1)" by (cases "eq_dispatch E e (ev_at X k c) s")
    from endsD [OF ends_run_dispatch [OF dev(1)] Suc.prems(1) d] have s1: "run_inv s1" "r \<noteq> Inl NoFuel" by auto
    from keeps_run [OF still_dispatch [OF dev(2)] Suc.prems(2) d] have still: "ev_still b X e q s1" .
    show ?thesis
    proof (cases r)
      case (Inl x)
      with st True d s1 still show ?thesis by (simp add: sq_Inl del: eq_loop.simps)
    next
      case (Inr u)
      have "ring.run_length X k (c + 1) < n" using Suc.prems(3) len by simp
      from Suc.IH [OF s1(1) still this] obtain res s' where IH:
          "eq_loop E n e (c + 1) s1 = (res, s')" "run_inv s'" "ev_still b X e q s'" "res \<noteq> Inl NoFuel"
          "\<forall>c'. res = Inr c' \<longrightarrow> c' = c + 1 + int (ring.run_length X k (c + 1))"
        by blast
      have "eq_loop E (Suc n) e c s = (res, s')"
        using st True d Inr IH(1) by (simp add: sq_Inr del: eq_loop.simps)
      with IH(2-5) len show ?thesis by (intro exI [of _ res] exI [of _ s']) auto
    qed
  qed
qed simp

end
