(* ===== verification/Reg_Blocks.thy ===== *)
theory Reg_Blocks
  imports World
begin

text \<open>
  Class \<open>RegBlockList\<close> of \<open>mqnic.py\<close>: walking the linked list of register blocks of a window,
  and looking a block up by type, version and position. The walk follows next pointers read
  from the device; it ends because a pointer that repeats an offset or is not word-aligned is
  an assertion failure, and there are fewer than \<open>2 ^ 30\<close> aligned 32-bit offsets
  (\<open>enumerate_terminates\<close>). A raised assertion leaves the blocks found so far in the list,
  so the walk returns them together with the exception, if any.
\<close>

definition block_at :: "window \<Rightarrow> int \<Rightarrow> int \<Rightarrow> int \<Rightarrow> reg_block" where
  "block_at win offset t v =
     \<lparr>rb_window = create_window win offset None, rb_parent = win, rb_offset = offset,
      rb_type = t, rb_version = v\<rparr>"

primrec enumerate_reg_blocks ::
  "nat \<Rightarrow> 'h env \<Rightarrow> window \<Rightarrow> int \<Rightarrow> reg_block list \<Rightarrow> ('h, reg_block list \<times> exn option) drv" where
  "enumerate_reg_blocks 0 E win offset blocks = throw NoFuel"
| "enumerate_reg_blocks (Suc fuel) E win offset blocks =
     bnd (read_dword E win (offset + MQNIC_RB_REG_TYPE)) (\<lambda>t.
     bnd (read_dword E win (offset + MQNIC_RB_REG_VER)) (\<lambda>v.
     let blocks' = blocks @ [block_at win offset t v] in
     bnd (read_dword E win (offset + MQNIC_RB_REG_NEXT_PTR)) (\<lambda>next.
       if next = 0 then ret (blocks', None)
       else if next AND 3 \<noteq> 0 then
         ret (blocks', Some (AssertionError ''Register block not aligned''))
       else if \<exists>b \<in> set blocks'. rb_offset b = next then
         ret (blocks', Some (AssertionError ''Register blocks form a loop''))
       else enumerate_reg_blocks fuel E win next blocks')))"

text \<open>The number of iterations that is always enough, as \<open>enumerate_terminates\<close> shows.\<close>

definition enum_fuel :: nat where
  "enum_fuel = 2 ^ 30"

fun rb_find :: "reg_block list \<Rightarrow> int \<Rightarrow> int option \<Rightarrow> int \<Rightarrow> reg_block option" where
  "rb_find [] t version index = None"
| "rb_find (b # bs) t version index =
     (if rb_type b = t \<and> (version = None \<or> version = Some 0 \<or> version = Some (rb_version b))
      then (if index \<le> 0 then Some b else rb_find bs t version (index - 1))
      else rb_find bs t version index)"

definition rb_getitem :: "reg_block list \<Rightarrow> int \<Rightarrow> exn + reg_block" where
  "rb_getitem blocks key = py_nth blocks key"

definition rb_len :: "reg_block list \<Rightarrow> int" where
  "rb_len blocks = int (length blocks)"

section \<open>Lookup\<close>

definition rb_matches :: "int \<Rightarrow> int option \<Rightarrow> reg_block \<Rightarrow> bool" where
  "rb_matches t version b \<longleftrightarrow>
     rb_type b = t \<and> (version = None \<or> version = Some 0 \<or> version = Some (rb_version b))"

text \<open>\<open>find\<close> returns the \<open>index\<close>-th matching block, in list order.\<close>

lemma rb_find_filter:
  "rb_find bs t version index =
     (let ms = filter (rb_matches t version) bs
      in if nat index < length ms then Some (ms ! nat index) else None)"
proof (induction bs t version index rule: rb_find.induct)
  case (2 b bs t version index)
  show ?case
  proof (cases "rb_matches t version b \<and> 0 < index")
    case True
    then have "nat index = Suc (nat (index - 1))" by linarith
    with True 2(1) show ?thesis
      by (auto simp: rb_matches_def Let_def split: if_splits)
  next
    case False
    then show ?thesis
      using 2 by (auto simp: rb_matches_def Let_def split: if_splits)
  qed
qed simp

lemma rb_find_Some:
  assumes "rb_find bs t version index = Some b"
  shows "b \<in> set bs" and "rb_type b = t" and "version = Some v \<Longrightarrow> v \<noteq> 0 \<Longrightarrow> rb_version b = v"
proof -
  let ?ms = "filter (rb_matches t version) bs"
  from assms have "nat index < length ?ms" "b = ?ms ! nat index"
    by (auto simp: rb_find_filter Let_def split: if_splits)
  then have "b \<in> set ?ms" by (metis nth_mem)
  then show "b \<in> set bs" "rb_type b = t" "version = Some v \<Longrightarrow> v \<noteq> 0 \<Longrightarrow> rb_version b = v"
    by (auto simp: rb_matches_def)
qed

section \<open>The walk\<close>

definition aligned_offsets :: "int set" where
  "aligned_offsets = {n. 0 < n \<and> n < 2 ^ 32 \<and> n mod 4 = 0}"

lemma card_aligned_offsets: "finite aligned_offsets" "card aligned_offsets < 2 ^ 30"
proof -
  have eq: "aligned_offsets = (\<lambda>n. 4 * int n) ` {1..<2 ^ 30}"
  proof (rule set_eqI)
    fix n
    have "n \<in> (\<lambda>n. 4 * int n) ` {1..<2 ^ 30}" if "n \<in> aligned_offsets"
      using that by (intro image_eqI [of _ _ "nat (n div 4)"])
        (auto simp: aligned_offsets_def nat_less_iff)
    moreover have "n \<in> aligned_offsets" if "n \<in> (\<lambda>n. 4 * int n) ` {1..<2 ^ 30}"
      using that by (auto simp: aligned_offsets_def)
    ultimately show "n \<in> aligned_offsets \<longleftrightarrow> n \<in> (\<lambda>n. 4 * int n) ` {1..<2 ^ 30}" by blast
  qed
  show "finite aligned_offsets" unfolding eq by simp
  have "card aligned_offsets = card {1..<2 ^ 30 :: nat}"
    unfolding eq by (rule card_image) (auto simp: inj_on_def)
  then show "card aligned_offsets < 2 ^ 30" by simp
qed

lemma and_3_mod_4: "n AND 3 = n mod 4" for n :: int
  using and_mask_mod [of n 2] by simp

lemma enumerate_measure:
  assumes "device_ok E"
  shows "card (aligned_offsets - (rb_offset ` set blocks \<union> {offset})) < fuel \<Longrightarrow>
    fst (enumerate_reg_blocks fuel E win offset blocks s) \<noteq> Inl NoFuel"
proof (induction fuel arbitrary: offset blocks s)
  case (Suc fuel)
  let ?s1 = "rd_state E win (offset + MQNIC_RB_REG_TYPE) s"
  let ?s2 = "rd_state E win (offset + MQNIC_RB_REG_VER) ?s1"
  define nxt where "nxt = rd_val E win (offset + MQNIC_RB_REG_NEXT_PTR) ?s2"
  let ?t = "rd_val E win (offset + MQNIC_RB_REG_TYPE) s"
  let ?v = "rd_val E win (offset + MQNIC_RB_REG_VER) ?s1"
  let ?bs = "blocks @ [block_at win offset ?t ?v]"
  have range: "0 \<le> nxt" "nxt < 2 ^ 32"
    unfolding nxt_def using rd_val_range [OF assms] by blast+
  show ?case
  proof (cases "nxt = 0 \<or> nxt AND 3 \<noteq> 0 \<or> (\<exists>b \<in> set ?bs. rb_offset b = nxt)")
    case True
    then show ?thesis by (auto simp: run_bnd Let_def nxt_def)
  next
    case False
    let ?A = "aligned_offsets - (rb_offset ` set blocks \<union> {offset})"
    have "nxt \<in> ?A"
      using False range by (auto simp: aligned_offsets_def and_3_mod_4 block_at_def)
    moreover have "aligned_offsets - (rb_offset ` set ?bs \<union> {nxt}) = ?A - {nxt}"
      by (auto simp: block_at_def)
    moreover have "finite ?A" using card_aligned_offsets(1) by simp
    ultimately have "card (aligned_offsets - (rb_offset ` set ?bs \<union> {nxt})) < card ?A"
      using card_Diff1_less by metis
    with Suc.prems have "card (aligned_offsets - (rb_offset ` set ?bs \<union> {nxt})) < fuel"
      by simp
    from Suc.IH [OF this] False show ?thesis
      by (auto simp: run_bnd Let_def nxt_def)
  qed
qed simp

text \<open>Every walk ends: it returns the blocks, or one of the two assertions fails.\<close>

lemma enumerate_terminates:
  assumes "device_ok E"
  shows "\<exists>blocks' e s'. enumerate_reg_blocks enum_fuel E win offset blocks s = (Inr (blocks', e), s')"
proof -
  have "card (aligned_offsets - (rb_offset ` set blocks \<union> {offset})) \<le> card aligned_offsets"
    by (rule card_mono) (auto simp: card_aligned_offsets)
  also have "\<dots> < enum_fuel" using card_aligned_offsets(2) by (simp add: enum_fuel_def)
  finally have nf: "fst (enumerate_reg_blocks enum_fuel E win offset blocks s) \<noteq> Inl NoFuel"
    by (rule enumerate_measure [OF assms])
  have "enumerate_reg_blocks n E win offset blocks s = (Inl e, s') \<Longrightarrow> e = NoFuel" for n e s'
    by (induction n arbitrary: offset blocks s) (auto simp: run_bnd Let_def split: if_splits)
  with nf show ?thesis
    by (cases "enumerate_reg_blocks enum_fuel E win offset blocks s"; cases "fst (enumerate_reg_blocks enum_fuel E win offset blocks s)") force+
qed

text \<open>
  What the walk leaves in the list: the old blocks, then at least one new block, all of this
  window, with distinct offsets, the first at the offset where the walk started.
\<close>

lemma enumerate_blocks:
  assumes "enumerate_reg_blocks fuel E win offset blocks s = (Inr (blocks', e), s')"
    and "distinct (map rb_offset blocks)" "offset \<notin> rb_offset ` set blocks"
  shows "\<exists>new. blocks' = blocks @ new \<and> new \<noteq> [] \<and> rb_offset (hd new) = offset \<and>
    distinct (map rb_offset blocks') \<and> (\<forall>b \<in> set new. rb_parent b = win) \<and>
    (\<forall>b \<in> set (tl new). rb_offset b mod 4 = 0 \<and> rb_offset b \<noteq> 0)"
  using assms
proof (induction fuel arbitrary: offset blocks s)
  case (Suc fuel)
  let ?s1 = "rd_state E win (offset + MQNIC_RB_REG_TYPE) s"
  let ?s2 = "rd_state E win (offset + MQNIC_RB_REG_VER) ?s1"
  let ?s3 = "rd_state E win (offset + MQNIC_RB_REG_NEXT_PTR) ?s2"
  define nxt where "nxt = rd_val E win (offset + MQNIC_RB_REG_NEXT_PTR) ?s2"
  define b where "b = block_at win offset (rd_val E win (offset + MQNIC_RB_REG_TYPE) s)
    (rd_val E win (offset + MQNIC_RB_REG_VER) ?s1)"
  have b: "rb_offset b = offset" "rb_parent b = win" by (simp_all add: b_def block_at_def)
  have d: "distinct (map rb_offset (blocks @ [b]))" using Suc.prems b by simp
  show ?case
  proof (cases "nxt = 0 \<or> nxt AND 3 \<noteq> 0 \<or> (\<exists>c \<in> set (blocks @ [b]). rb_offset c = nxt)")
    case True
    then have "blocks' = blocks @ [b]"
      using Suc.prems(1) by (auto simp: run_bnd Let_def nxt_def b_def split: if_splits)
    with b d show ?thesis by (intro exI [of _ "[b]"]) simp
  next
    case False
    then have "enumerate_reg_blocks fuel E win nxt (blocks @ [b]) ?s3 = (Inr (blocks', e), s')"
      using Suc.prems(1) by (auto simp: run_bnd Let_def nxt_def b_def)
    moreover have "nxt \<notin> rb_offset ` set (blocks @ [b])" using False by auto
    ultimately have "\<exists>new. blocks' = (blocks @ [b]) @ new \<and> new \<noteq> [] \<and> rb_offset (hd new) = nxt \<and>
        distinct (map rb_offset blocks') \<and> (\<forall>b \<in> set new. rb_parent b = win) \<and>
        (\<forall>b \<in> set (tl new). rb_offset b mod 4 = 0 \<and> rb_offset b \<noteq> 0)"
      using Suc.IH d by blast
    then obtain new where new: "blocks' = blocks @ b # new" "new \<noteq> []"
        "rb_offset (hd new) = nxt" "distinct (map rb_offset blocks')"
        "\<forall>c \<in> set new. rb_parent c = win"
        "\<forall>c \<in> set (tl new). rb_offset c mod 4 = 0 \<and> rb_offset c \<noteq> 0"
      by (metis append_Cons append_Nil append_assoc)
    have "\<forall>c \<in> set new. rb_offset c mod 4 = 0 \<and> rb_offset c \<noteq> 0"
      using new(2,3,6) False by (cases new) (auto simp: and_3_mod_4)
    with new b show ?thesis by (intro exI [of _ "b # new"]) auto
  qed
qed simp

lemma enumerate_keeps:
  assumes "\<And>a. keeps I (read_dword E win a)"
  shows "keeps I (enumerate_reg_blocks fuel E win offset blocks)"
  by (induction fuel arbitrary: offset blocks)
     (auto intro!: keeps_intros assms simp: Let_def)

end
