(* ===== verification/Ports.thy ===== *)
theory Ports
  imports Reg_Blocks
begin

text \<open>
  Class \<open>Port\<close> and the scheduler classes of \<open>mqnic.py\<close>. A port is a value of the record
  \<open>port\<close>; its \<open>init\<close> returns the port it has filled in, since nothing else refers to the
  object before its interface appends it. The scheduler objects are not created by this
  driver (the code that would is commented out in \<open>SchedulerBlock.init\<close> and
  \<open>Interface.init\<close>); their classes are modelled as they stand.
\<close>

section \<open>Access through a register block\<close>

definition rb_read :: "'h env \<Rightarrow> reg_block \<Rightarrow> int \<Rightarrow> ('h, int) drv" where
  "rb_read E rb a = read_dword E (rb_window rb) a"

definition rb_write :: "'h env \<Rightarrow> reg_block \<Rightarrow> int \<Rightarrow> int \<Rightarrow> ('h, unit) drv" where
  "rb_write E rb a v = write_dword E (rb_window rb) a v"

lemma run_rb_read [run_simps, simp]: "rb_read E rb a s = (Inr (rd_val E (rb_window rb) a s), rd_state E (rb_window rb) a s)"
  by (simp add: rb_read_def)

lemma run_rb_write [run_simps, simp]: "rb_write E rb a v s = (Inr (), wr_state E (rb_window rb) a v s)"
  by (simp add: rb_write_def)

text \<open>Walking the list; a failed assertion is raised after the blocks have been collected.\<close>

definition enumerate_or_raise :: "'h env \<Rightarrow> window \<Rightarrow> int \<Rightarrow> ('h, reg_block list) drv" where
  "enumerate_or_raise E win offset =
     bnd (enumerate_reg_blocks enum_fuel E win offset []) (\<lambda>(blocks, err).
       case err of None \<Rightarrow> ret blocks | Some e \<Rightarrow> throw e)"

section \<open>Schedulers\<close>

record scheduler =
  sch_port :: int
  sch_index :: int
  sch_rb :: reg_block
  sch_hw_regs :: "window option"

definition BaseScheduler_init :: "int \<Rightarrow> int \<Rightarrow> reg_block \<Rightarrow> scheduler" where
  "BaseScheduler_init p index rb = \<lparr>sch_port = p, sch_index = index, sch_rb = rb, sch_hw_regs = None\<rparr>"

definition SchedulerRoundRobin_init :: "'h env \<Rightarrow> scheduler \<Rightarrow> ('h, scheduler) drv" where
  "SchedulerRoundRobin_init E s =
     bnd (rb_read E (sch_rb s) MQNIC_RB_SCHED_RR_REG_OFFSET) (\<lambda>offset.
     ret (s\<lparr>sch_hw_regs := Some (create_window (rb_parent (sch_rb s)) offset None)\<rparr>))"

definition SchedulerControlTdma_init :: "'h env \<Rightarrow> scheduler \<Rightarrow> ('h, scheduler) drv" where
  "SchedulerControlTdma_init E s =
     bnd (rb_read E (sch_rb s) MQNIC_RB_SCHED_CTRL_TDMA_REG_OFFSET) (\<lambda>offset.
     ret (s\<lparr>sch_hw_regs := Some (create_window (rb_parent (sch_rb s)) offset None)\<rparr>))"

record scheduler_block =
  sb_interface :: nat
  sb_index :: int
  sb_block_rb :: reg_block
  sb_reg_blocks :: "reg_block list"
  sb_sched_count :: "int option"
  sb_schedulers :: "scheduler list"

definition SchedulerBlock_new :: "nat \<Rightarrow> int \<Rightarrow> reg_block \<Rightarrow> scheduler_block" where
  "SchedulerBlock_new ifc index rb =
     \<lparr>sb_interface = ifc, sb_index = index, sb_block_rb = rb, sb_reg_blocks = [],
      sb_sched_count = None, sb_schedulers = []\<rparr>"

text \<open>Only a log message is left of it.\<close>

definition SchedulerBlock_init :: "scheduler_block \<Rightarrow> ('h, scheduler_block) drv" where
  "SchedulerBlock_init b = ret b"

section \<open>Ports\<close>

definition port_read :: "'h env \<Rightarrow> port \<Rightarrow> int \<Rightarrow> ('h, int) drv" where
  "port_read E p a = bnd (attr (port_ctrl_rb p)) (\<lambda>rb. rb_read E rb a)"

definition port_write :: "'h env \<Rightarrow> port \<Rightarrow> int \<Rightarrow> int \<Rightarrow> ('h, unit) drv" where
  "port_write E p a v = bnd (attr (port_ctrl_rb p)) (\<lambda>rb. rb_write E rb a v)"

definition Port_get_tx_ctrl :: "'h env \<Rightarrow> port \<Rightarrow> ('h, int) drv" where
  "Port_get_tx_ctrl E p = port_read E p MQNIC_RB_PORT_CTRL_REG_TX_CTRL"

definition Port_set_tx_ctrl :: "'h env \<Rightarrow> port \<Rightarrow> int \<Rightarrow> ('h, unit) drv" where
  "Port_set_tx_ctrl E p val = port_write E p MQNIC_RB_PORT_CTRL_REG_TX_CTRL val"

definition Port_get_rx_ctrl :: "'h env \<Rightarrow> port \<Rightarrow> ('h, int) drv" where
  "Port_get_rx_ctrl E p = port_read E p MQNIC_RB_PORT_CTRL_REG_RX_CTRL"

definition Port_set_rx_ctrl :: "'h env \<Rightarrow> port \<Rightarrow> int \<Rightarrow> ('h, unit) drv" where
  "Port_set_rx_ctrl E p val = port_write E p MQNIC_RB_PORT_CTRL_REG_RX_CTRL val"

definition Port_get_lfc_ctrl :: "'h env \<Rightarrow> port \<Rightarrow> ('h, int) drv" where
  "Port_get_lfc_ctrl E p = port_read E p MQNIC_RB_PORT_CTRL_REG_LFC_CTRL"

definition Port_set_lfc_ctrl :: "'h env \<Rightarrow> port \<Rightarrow> int \<Rightarrow> ('h, unit) drv" where
  "Port_set_lfc_ctrl E p val = port_write E p MQNIC_RB_PORT_CTRL_REG_LFC_CTRL val"

definition Port_get_pfc_ctrl :: "'h env \<Rightarrow> port \<Rightarrow> int \<Rightarrow> ('h, int) drv" where
  "Port_get_pfc_ctrl E p index = port_read E p (MQNIC_RB_PORT_CTRL_REG_PFC_CTRL0 + 4 * index)"

definition Port_set_pfc_ctrl :: "'h env \<Rightarrow> port \<Rightarrow> int \<Rightarrow> int \<Rightarrow> ('h, unit) drv" where
  "Port_set_pfc_ctrl E p index val = port_write E p (MQNIC_RB_PORT_CTRL_REG_PFC_CTRL0 + 4 * index) val"

definition has_feature :: "int \<Rightarrow> int \<Rightarrow> bool" where
  "has_feature features f = (features AND f \<noteq> 0)"

definition Port_init_hw :: "'h env \<Rightarrow> port \<Rightarrow> ('h, port) drv" where
  "Port_init_hw E p =
     bnd (attr (port_rb p)) (\<lambda>rb.
     bnd (rb_read E rb MQNIC_RB_PORT_REG_OFFSET) (\<lambda>offset.
     bnd (enumerate_or_raise E (rb_parent rb) offset) (\<lambda>blocks.
     let ctrl = rb_find blocks MQNIC_RB_PORT_CTRL_TYPE (Some MQNIC_RB_PORT_CTRL_VER) 0 in
     bnd (attr ctrl) (\<lambda>c.
     bnd (rb_read E c MQNIC_RB_PORT_CTRL_REG_FEATURES) (\<lambda>features.
     let p' = p\<lparr>port_reg_blocks := blocks, port_ctrl_rb := ctrl, port_features := Some features,
           port_feature_lfc := Some (has_feature features MQNIC_PORT_FEATURE_LFC),
           port_feature_pfc := Some (has_feature features MQNIC_PORT_FEATURE_PFC),
           port_feature_int_mac_ctrl := Some (has_feature features MQNIC_PORT_FEATURE_INT_MAC_CTRL)\<rparr> in
     sq (seqm [
       Port_set_tx_ctrl E p' 0,
       Port_set_rx_ctrl E p' 0,
       Port_set_lfc_ctrl E p' 0,
       forM (py_range 8) (\<lambda>k. Port_set_pfc_ctrl E p' k 0)])
     (ret p'))))))"

lemma port_write_run:
  "port_ctrl_rb p = Some c \<Longrightarrow> port_write E p a v s = (Inr (), wr_state E (rb_window c) a v s)"
  by (simp add: port_write_def run_simps)

text \<open>
  A port that has been initialised has both directions disabled and all flow control off:
  these are the last eleven writes, to the port's control block.
\<close>

lemma py_range_8: "py_range 8 = [0, 1, 2, 3, 4, 5, 6, 7]"
  by (simp add: py_range_def upt_rec)

lemma Port_init_hw_writes:
  assumes "Port_init_hw E p s = (Inr p', s')"
  shows "\<exists>c l. port_ctrl_rb p' = Some c \<and> rb_type c = 0xC003 \<and> rb_version c = 0x300 \<and>
    w_mmio s' = l @ map (\<lambda>a. WR (rb_window c) a 0)
      [0x10, 0x14, 0x1C, 0x20, 0x24, 0x28, 0x2C, 0x30, 0x34, 0x38, 0x3C]"
proof -
  from assms obtain rb where rb: "port_rb p = Some rb"
    by (auto simp: Port_init_hw_def run_bnd run_attr split: option.splits)
  let ?off = "rd_val E (rb_window rb) MQNIC_RB_PORT_REG_OFFSET s"
  let ?s1 = "rd_state E (rb_window rb) MQNIC_RB_PORT_REG_OFFSET s"
  obtain r s2 where en: "enumerate_or_raise E (rb_parent rb) ?off ?s1 = (r, s2)"
    by (cases "enumerate_or_raise E (rb_parent rb) ?off ?s1")
  with assms rb obtain blocks where r: "r = Inr blocks"
    by (cases r) (simp_all add: Port_init_hw_def run_bnd run_attr)
  let ?c = "rb_find blocks MQNIC_RB_PORT_CTRL_TYPE (Some MQNIC_RB_PORT_CTRL_VER) 0"
  from assms rb en r obtain c where c: "?c = Some c"
    by (cases ?c) (simp_all add: Port_init_hw_def run_bnd run_attr)
  note f = rb_find_Some [OF c]
  have "rb_type c = 0xC003" "rb_version c = 0x300" using f(2,3) by (simp_all add: regs)
  moreover have "port_ctrl_rb p' = Some c \<and> w_mmio s' = w_mmio s2 @
      [RD (rb_window c) 0xC (rd_val E (rb_window c) 0xC s2)] @ map (\<lambda>a. WR (rb_window c) a 0)
      [0x10, 0x14, 0x1C, 0x20, 0x24, 0x28, 0x2C, 0x30, 0x34, 0x38, 0x3C]"
    using assms rb en r c
    by (auto simp: Port_init_hw_def run_simps Let_def Port_set_tx_ctrl_def Port_set_rx_ctrl_def
        Port_set_lfc_ctrl_def Port_set_pfc_ctrl_def port_write_def py_range_8 regs)
  ultimately show ?thesis by auto
qed

end
