(* ===== verification/Iface.thy ===== *)
theory Iface
  imports Events Ports
begin

text \<open>
  Class \<open>Interface\<close> of \<open>mqnic.py\<close>: discovery of the interface's blocks and resources
  (\<open>init\<close>), creation of its queues (\<open>open\<close>), closing, transmission with back-pressure
  (\<open>start_xmit\<close>), the receive queue map and the packet receive queue. \<open>init\<close> is one Python
  method; it is written here in the parts that its comments mark.
\<close>

section \<open>Discovery\<close>

definition Interface_set_mtu :: "'h env \<Rightarrow> nat \<Rightarrow> int \<Rightarrow> ('h, unit) drv" where
  "Interface_set_mtu E self mtu =
     bnd (get_if self) (\<lambda>i. bnd (attr (ifc_if_ctrl_rb i)) (\<lambda>rb.
     sq (rb_write E rb MQNIC_RB_IF_CTRL_REG_TX_MTU mtu) (rb_write E rb MQNIC_RB_IF_CTRL_REG_RX_MTU mtu)))"

definition Interface_init_ctrl :: "'h env \<Rightarrow> nat \<Rightarrow> ('h, unit) drv" where
  "Interface_init_ctrl E self =
     bnd get_drv (\<lambda>d. bnd (get_if self) (\<lambda>i.
     bnd (case drv_if_csr_offset d of None \<Rightarrow> throw TypeError | Some x \<Rightarrow> ret x) (\<lambda>csr.
     bnd (enumerate_reg_blocks enum_fuel E (ifc_hw_regs i) csr []) (\<lambda>(blocks, err).
     sq (upd_if self (\<lambda>i. i\<lparr>ifc_reg_blocks := blocks\<rparr>)) (
     sq (case err of None \<Rightarrow> ret () | Some e \<Rightarrow> throw e) (
     let ctrl = rb_find blocks MQNIC_RB_IF_CTRL_TYPE (Some MQNIC_RB_IF_CTRL_VER) 0 in
     sq (upd_if self (\<lambda>i. i\<lparr>ifc_if_ctrl_rb := ctrl\<rparr>)) (
     bnd (attr ctrl) (\<lambda>rb.
     bnd (rb_read E rb MQNIC_RB_IF_CTRL_REG_FEATURES) (\<lambda>features.
     bnd (rb_read E rb MQNIC_RB_IF_CTRL_REG_PORT_COUNT) (\<lambda>port_count.
     bnd (rb_read E rb MQNIC_RB_IF_CTRL_REG_MAX_TX_MTU) (\<lambda>max_tx_mtu.
     bnd (rb_read E rb MQNIC_RB_IF_CTRL_REG_MAX_RX_MTU) (\<lambda>max_rx_mtu.
     bnd (rb_read E rb MQNIC_RB_IF_CTRL_REG_TX_FIFO_DEPTH) (\<lambda>tx_fifo.
     bnd (rb_read E rb MQNIC_RB_IF_CTRL_REG_RX_FIFO_DEPTH) (\<lambda>rx_fifo.
     sq (upd_if self (\<lambda>i. i\<lparr>ifc_if_features := Some features, ifc_port_count := Some port_count,
           ifc_max_tx_mtu := max_tx_mtu, ifc_max_rx_mtu := max_rx_mtu,
           ifc_tx_fifo_depth := tx_fifo, ifc_rx_fifo_depth := rx_fifo,
           ifc_feature_rss := Some (has_feature features MQNIC_IF_FEATURE_RSS),
           ifc_feature_ptp_ts := Some (has_feature features MQNIC_IF_FEATURE_PTP_TS),
           ifc_feature_tx_csum := Some (has_feature features MQNIC_IF_FEATURE_TX_CSUM),
           ifc_feature_rx_csum := Some (has_feature features MQNIC_IF_FEATURE_RX_CSUM),
           ifc_feature_rx_hash := Some (has_feature features MQNIC_IF_FEATURE_RX_HASH),
           ifc_feature_lfc := Some (has_feature features MQNIC_IF_FEATURE_LFC),
           ifc_feature_pfc := Some (has_feature features MQNIC_IF_FEATURE_PFC)\<rparr>))
     (Interface_set_mtu E self (min (min max_tx_mtu max_rx_mtu) 9214))))))))))))))))"

text \<open>
  \<open>rb = find(...)\<close>, the three reads of its offset, count and stride registers, and the
  resource made of them: the same sequence for event, completion, transmit and receive queues.
\<close>

definition find_resource ::
    "'h env \<Rightarrow> nat \<Rightarrow> reg_block option \<Rightarrow> int \<Rightarrow> int \<Rightarrow> int \<Rightarrow> int \<Rightarrow> ('h, resource) drv" where
  "find_resource E self rb r_offset r_count r_stride max_count =
     bnd (attr rb) (\<lambda>b.
     bnd (rb_read E b r_offset) (\<lambda>offset.
     bnd (rb_read E b r_count) (\<lambda>count.
     bnd (rb_read E b r_stride) (\<lambda>stride.
     bnd (get_if self) (\<lambda>i.
     ret (Resource_init (min count max_count) (create_window (ifc_hw_regs i) offset None) stride))))))"

definition Interface_find_block :: "nat \<Rightarrow> int \<Rightarrow> int \<Rightarrow> int \<Rightarrow> ('h, reg_block option) drv" where
  "Interface_find_block self t v index =
     bnd (get_if self) (\<lambda>i. ret (rb_find (ifc_reg_blocks i) t (Some v) index))"

definition Interface_init_eq_res :: "'h env \<Rightarrow> nat \<Rightarrow> ('h, unit) drv" where
  "Interface_init_eq_res E self =
     bnd (Interface_find_block self MQNIC_RB_EQM_TYPE MQNIC_RB_EQM_VER 0) (\<lambda>rb.
     sq (upd_if self (\<lambda>i. i\<lparr>ifc_eq_rb := rb\<rparr>)) (
     bnd (find_resource E self rb MQNIC_RB_EQM_REG_OFFSET MQNIC_RB_EQM_REG_COUNT
           MQNIC_RB_EQM_REG_STRIDE MQNIC_MAX_EQ) (\<lambda>r.
     upd_if self (set_res EqRes r))))"

definition Interface_init_cq_res :: "'h env \<Rightarrow> nat \<Rightarrow> ('h, unit) drv" where
  "Interface_init_cq_res E self =
     bnd (Interface_find_block self MQNIC_RB_CQM_TYPE MQNIC_RB_CQM_VER 0) (\<lambda>rb.
     sq (upd_if self (\<lambda>i. i\<lparr>ifc_cq_rb := rb\<rparr>)) (
     bnd (find_resource E self rb MQNIC_RB_CQM_REG_OFFSET MQNIC_RB_CQM_REG_COUNT
           MQNIC_RB_CQM_REG_STRIDE MQNIC_MAX_CQ) (\<lambda>r.
     upd_if self (set_res CqRes r))))"

definition Interface_init_txq_res :: "'h env \<Rightarrow> nat \<Rightarrow> ('h, unit) drv" where
  "Interface_init_txq_res E self =
     bnd (Interface_find_block self MQNIC_RB_TX_QM_TYPE MQNIC_RB_TX_QM_VER 0) (\<lambda>rb.
     sq (upd_if self (\<lambda>i. i\<lparr>ifc_txq_rb := rb\<rparr>)) (
     bnd (find_resource E self rb MQNIC_RB_TX_QM_REG_OFFSET MQNIC_RB_TX_QM_REG_COUNT
           MQNIC_RB_TX_QM_REG_STRIDE MQNIC_MAX_TXQ) (\<lambda>r.
     upd_if self (set_res TxqRes r))))"

definition Interface_init_rxq_res :: "'h env \<Rightarrow> nat \<Rightarrow> ('h, unit) drv" where
  "Interface_init_rxq_res E self =
     bnd (Interface_find_block self MQNIC_RB_RX_QM_TYPE MQNIC_RB_RX_QM_VER 0) (\<lambda>rb.
     sq (upd_if self (\<lambda>i. i\<lparr>ifc_rxq_rb := rb\<rparr>)) (
     bnd (find_resource E self rb MQNIC_RB_RX_QM_REG_OFFSET MQNIC_RB_RX_QM_REG_COUNT
           MQNIC_RB_RX_QM_REG_STRIDE MQNIC_MAX_RXQ) (\<lambda>r.
     upd_if self (set_res RxqRes r))))"

section \<open>The receive queue map\<close>

definition map_ch_reg :: "int \<Rightarrow> int \<Rightarrow> int" where
  "map_ch_reg p reg = MQNIC_RB_RX_QUEUE_MAP_CH_OFFSET + MQNIC_RB_RX_QUEUE_MAP_CH_STRIDE * p + reg"

definition get_rx_queue_map_rss_mask :: "'h env \<Rightarrow> nat \<Rightarrow> int \<Rightarrow> ('h, int) drv" where
  "get_rx_queue_map_rss_mask E self p =
     bnd (get_if self) (\<lambda>i. bnd (attr (ifc_rx_queue_map_rb i)) (\<lambda>rb.
     rb_read E rb (map_ch_reg p MQNIC_RB_RX_QUEUE_MAP_CH_REG_RSS_MASK)))"

definition set_rx_queue_map_rss_mask :: "'h env \<Rightarrow> nat \<Rightarrow> int \<Rightarrow> int \<Rightarrow> ('h, unit) drv" where
  "set_rx_queue_map_rss_mask E self p val =
     bnd (get_if self) (\<lambda>i. bnd (attr (ifc_rx_queue_map_rb i)) (\<lambda>rb.
     rb_write E rb (map_ch_reg p MQNIC_RB_RX_QUEUE_MAP_CH_REG_RSS_MASK) val))"

definition get_rx_queue_map_app_mask :: "'h env \<Rightarrow> nat \<Rightarrow> int \<Rightarrow> ('h, int) drv" where
  "get_rx_queue_map_app_mask E self p =
     bnd (get_if self) (\<lambda>i. bnd (attr (ifc_rx_queue_map_rb i)) (\<lambda>rb.
     rb_read E rb (map_ch_reg p MQNIC_RB_RX_QUEUE_MAP_CH_REG_APP_MASK)))"

definition set_rx_queue_map_app_mask :: "'h env \<Rightarrow> nat \<Rightarrow> int \<Rightarrow> int \<Rightarrow> ('h, unit) drv" where
  "set_rx_queue_map_app_mask E self p val =
     bnd (get_if self) (\<lambda>i. bnd (attr (ifc_rx_queue_map_rb i)) (\<lambda>rb.
     rb_write E rb (map_ch_reg p MQNIC_RB_RX_QUEUE_MAP_CH_REG_APP_MASK) val))"

definition get_rx_queue_map_indir_table :: "'h env \<Rightarrow> nat \<Rightarrow> int \<Rightarrow> int \<Rightarrow> ('h, int) drv" where
  "get_rx_queue_map_indir_table E self p index =
     bnd (get_if self) (\<lambda>i. bnd (lift_res (py_nth (ifc_indir_table i) p)) (\<lambda>w.
     read_dword E w (index * 4)))"

definition set_rx_queue_map_indir_table :: "'h env \<Rightarrow> nat \<Rightarrow> int \<Rightarrow> int \<Rightarrow> int \<Rightarrow> ('h, unit) drv" where
  "set_rx_queue_map_indir_table E self p index val =
     bnd (get_if self) (\<lambda>i. bnd (lift_res (py_nth (ifc_indir_table i) p)) (\<lambda>w.
     write_dword E w (index * 4) val))"

definition Interface_init_map :: "'h env \<Rightarrow> nat \<Rightarrow> ('h, unit) drv" where
  "Interface_init_map E self =
     bnd (Interface_find_block self MQNIC_RB_RX_QUEUE_MAP_TYPE MQNIC_RB_RX_QUEUE_MAP_VER 0) (\<lambda>mrb.
     sq (upd_if self (\<lambda>i. i\<lparr>ifc_rx_queue_map_rb := mrb\<rparr>)) (
     bnd (attr mrb) (\<lambda>rb.
     bnd (rb_read E rb MQNIC_RB_RX_QUEUE_MAP_REG_CFG) (\<lambda>val.
     sq (upd_if self (\<lambda>i. i\<lparr>ifc_indir_table_size := Some (2 ^ nat (drop_bit 8 val AND 0xFF)),
           ifc_indir_table := []\<rparr>)) (
     bnd (get_if self) (\<lambda>i.
     bnd (attr (ifc_port_count i)) (\<lambda>count.
     forM (py_range count) (\<lambda>k.
       bnd (rb_read E rb (map_ch_reg k MQNIC_RB_RX_QUEUE_MAP_CH_REG_OFFSET)) (\<lambda>offset. seqm [
         upd_if self (\<lambda>i. i\<lparr>ifc_indir_table := ifc_indir_table i @ [create_window (rb_parent rb) offset None]\<rparr>),
         set_rx_queue_map_rss_mask E self k 0,
         set_rx_queue_map_app_mask E self k 0,
         set_rx_queue_map_indir_table E self k 0 0])))))))))"

section \<open>Queues and ports\<close>

definition res_count_of :: "res_kind \<Rightarrow> nat \<Rightarrow> ('h, int) drv" where
  "res_count_of k self = bnd (get_if self) (\<lambda>i. bnd (attr (if_res k i)) (\<lambda>r. ret (res_get_count r)))"

text \<open>\<open>ensure all queues are disabled\<close>.\<close>

definition disable_all :: "'h env \<Rightarrow> nat \<Rightarrow> res_kind \<Rightarrow> int \<Rightarrow> ('h, unit) drv" where
  "disable_all E self k ctrl =
     bnd (res_count_of k self) (\<lambda>n. forM (py_range n) (\<lambda>j.
       bnd (if_get_window k self j) (\<lambda>w. write_dword E w ctrl (MQNIC_QUEUE_CMD_SET_ENABLE OR 0))))"

definition Interface_init_disable :: "'h env \<Rightarrow> nat \<Rightarrow> ('h, unit) drv" where
  "Interface_init_disable E self = seqm [
     disable_all E self EqRes MQNIC_EQ_CTRL_STATUS_REG,
     disable_all E self CqRes MQNIC_CQ_CTRL_STATUS_REG,
     disable_all E self TxqRes MQNIC_QUEUE_CTRL_STATUS_REG,
     disable_all E self RxqRes MQNIC_QUEUE_CTRL_STATUS_REG]"

definition Interface_init_ports :: "'h env \<Rightarrow> nat \<Rightarrow> ('h, unit) drv" where
  "Interface_init_ports E self =
     sq (upd_if self (\<lambda>i. i\<lparr>ifc_ports := []\<rparr>)) (
     bnd (get_if self) (\<lambda>i. bnd (attr (ifc_port_count i)) (\<lambda>count.
     forM (py_range count) (\<lambda>k.
       bnd (Interface_find_block self MQNIC_RB_PORT_TYPE MQNIC_RB_PORT_VER k) (\<lambda>rb.
       bnd (Port_init_hw E (Port_init self k rb)) (\<lambda>p.
       upd_if self (\<lambda>i. i\<lparr>ifc_ports := ifc_ports i @ [p]\<rparr>)))))))"

definition Interface_init_eqs :: "'h env \<Rightarrow> nat \<Rightarrow> ('h, unit) drv" where
  "Interface_init_eqs E self =
     sq (upd_if self (\<lambda>i. i\<lparr>ifc_eq := []\<rparr>)) (
     bnd (res_count_of EqRes self) (\<lambda>n.
     forM (py_range n) (\<lambda>k.
       bnd (get_if self) (\<lambda>i.
       bnd (new_eq self) (\<lambda>e. seqm [
         Eq_open E e (ifc_index i) 1024,
         upd_if self (\<lambda>i. i\<lparr>ifc_eq := ifc_eq i @ [e]\<rparr>),
         Eq_arm E e])))))"

definition Interface_init_hw :: "'h env \<Rightarrow> nat \<Rightarrow> ('h, unit) drv" where
  "Interface_init_hw E self = sq (seqm [
     Interface_init_ctrl E self,
     Interface_init_eq_res E self,
     Interface_init_cq_res E self,
     Interface_init_txq_res E self,
     Interface_init_rxq_res E self,
     Interface_init_map E self,
     Interface_init_disable E self,
     Interface_init_ports E self,
     Interface_init_eqs E self,
     upd_if self (\<lambda>i. i\<lparr>ifc_txq := [], ifc_rxq := []\<rparr>)]) (
     bnd (get_if self) (\<lambda>i. bnd (read_dword E (ifc_hw_regs i) 0) (\<lambda>_. ret ())))"

text \<open>\<open>self.eq[k % len(self.eq)]\<close>.\<close>

definition eq_of_index :: "nat \<Rightarrow> int \<Rightarrow> ('h, nat) drv" where
  "eq_of_index self k =
     bnd (get_if self) (\<lambda>i.
     if ifc_eq i = [] then throw (Exn ''ZeroDivisionError'')
     else lift_res (py_nth (ifc_eq i) (k mod int (length (ifc_eq i)))))"

definition open_rx :: "'h env \<Rightarrow> nat \<Rightarrow> int \<Rightarrow> ('h, unit) drv" where
  "open_rx E self k =
     bnd (new_cq self) (\<lambda>c. bnd (eq_of_index self k) (\<lambda>e.
     sq (sq (Cq_open E c e 1024) (Cq_arm E c)) (
     bnd (new_rxq self) (\<lambda>q. seqm [
       Rxq_open E q c 8192 4,
       Rxq_enable E q,
       upd_if self (\<lambda>i. i\<lparr>ifc_rxq := ifc_rxq i @ [q]\<rparr>)]))))"

definition open_tx :: "'h env \<Rightarrow> nat \<Rightarrow> int \<Rightarrow> ('h, unit) drv" where
  "open_tx E self k =
     bnd (new_cq self) (\<lambda>c. bnd (eq_of_index self k) (\<lambda>e.
     sq (sq (Cq_open E c e 1024) (Cq_arm E c)) (
     bnd (new_txq self) (\<lambda>q. seqm [
       Txq_open E q c 512 4,
       Txq_enable E q,
       upd_if self (\<lambda>i. i\<lparr>ifc_txq := ifc_txq i @ [q]\<rparr>)]))))"

text \<open>\<open>self.ports[0]\<close>.\<close>

definition port0 :: "nat \<Rightarrow> ('h, port) drv" where
  "port0 self = bnd (get_if self) (\<lambda>i. lift_res (py_nth (ifc_ports i) 0))"

definition read_sync :: "'h env \<Rightarrow> nat \<Rightarrow> ('h, unit) drv" where
  "read_sync E self = bnd (get_if self) (\<lambda>i. bnd (read_dword E (ifc_hw_regs i) 0) (\<lambda>_. ret ()))"

definition Interface_open :: "'h env \<Rightarrow> nat \<Rightarrow> ('h, unit) drv" where
  "Interface_open E self = seqm [
     bnd (res_count_of RxqRes self) (\<lambda>n. forM (py_range n) (open_rx E self)),
     bnd (res_count_of TxqRes self) (\<lambda>n. forM (py_range n) (open_tx E self)),
     read_sync E self,
     bnd (port0 self) (\<lambda>p. Port_set_tx_ctrl E p MQNIC_PORT_TX_CTRL_EN),
     bnd (port0 self) (\<lambda>p. Port_set_rx_ctrl E p MQNIC_PORT_RX_CTRL_EN),
     upd_if self (\<lambda>i. i\<lparr>ifc_port_up := True\<rparr>)]"

text \<open>
  Closing. \<open>q.disable()\<close> without \<open>await\<close> only makes a coroutine object, and
  \<open>await q.free_buf()\<close> awaits the \<open>None\<close> that the plain method \<open>free_buf\<close> returns, which is a
  \<open>TypeError\<close>; what follows it in the loops is never reached.
\<close>

definition close_tx :: "'h env \<Rightarrow> nat \<Rightarrow> ('h, unit) drv" where
  "close_tx E q =
     bnd (get_txq q) (\<lambda>t.
     sq (Txq_free_buf q) (sq (throw TypeError :: ('h, unit) drv) (
     sq (Txq_close E q) (bnd (attr (txq_cq t)) (Cq_close E)))))"

definition close_rx :: "'h env \<Rightarrow> nat \<Rightarrow> ('h, unit) drv" where
  "close_rx E q =
     bnd (get_rxq q) (\<lambda>t.
     sq (Rxq_free_buf q) (sq (throw TypeError :: ('h, unit) drv) (
     sq (Rxq_close E q) (bnd (attr (rxq_cq t)) (Cq_close E)))))"

definition Interface_close :: "'h env \<Rightarrow> nat \<Rightarrow> ('h, unit) drv" where
  "Interface_close E self =
     sq (seqm [
       upd_if self (\<lambda>i. i\<lparr>ifc_port_up := False\<rparr>),
       bnd (port0 self) (\<lambda>p. Port_set_rx_ctrl E p 0),
       read_sync E self]) (
     bnd (get_if self) (\<lambda>i. seqm [
       forM (ifc_txq i) (close_tx E),
       forM (ifc_rxq i) (close_rx E),
       upd_if self (\<lambda>i. i\<lparr>ifc_txq := [], ifc_rxq := []\<rparr>),
       bnd (port0 self) (\<lambda>p. Port_set_tx_ctrl E p 0)]))"

section \<open>Transmission\<close>

text \<open>
  How a \<open>start_xmit\<close> ends or where it stands: dropped because the port is down, handed to the
  ring, or suspended in \<open>clean_event.wait()\<close> on a full ring. A suspended sender runs
  \<open>xmit_attempt\<close> again when the event is set.
\<close>

datatype xmit = Dropped | Sent | Parked nat

definition xmit_csum :: "int option \<Rightarrow> int option \<Rightarrow> int" where
  "xmit_csum csum_start csum_offset =
     (case (csum_start, csum_offset) of
        (Some st, Some off) \<Rightarrow> 0x8000 OR push_bit 8 off OR st
      | _ \<Rightarrow> 0)"

text \<open>From the test of the wait loop on.\<close>

definition xmit_attempt :: "'h env \<Rightarrow> nat \<Rightarrow> byte list \<Rightarrow> int \<Rightarrow> int \<Rightarrow> ('h, xmit) drv" where
  "xmit_attempt E r data csum_cmd rank =
     bnd (get_txq r) (\<lambda>ring.
     if txq_prod_ptr ring - txq_cons_ptr ring < txq_full_size ring
     then sq (Txq_tx_transmit E r data rank csum_cmd) (ret Sent)
     else sq (upd_txq r (\<lambda>q. q\<lparr>txq_clean_event := False\<rparr>)) (ret (Parked r)))"

definition Interface_start_xmit ::
    "'h env \<Rightarrow> nat \<Rightarrow> byte list \<Rightarrow> int option \<Rightarrow> int option \<Rightarrow> int option \<Rightarrow> int \<Rightarrow> ('h, xmit) drv" where
  "Interface_start_xmit E self data tx_ring csum_start csum_offset rank =
     bnd (get_if self) (\<lambda>i.
     if \<not> ifc_port_up i then ret Dropped else
     sq (assertM (int (length data) < ifc_max_tx_mtu i) ''len(data) < self.max_tx_mtu'') (
     bnd (lift_res (py_nth (ifc_txq i) (case tx_ring of None \<Rightarrow> 0 | Some r \<Rightarrow> r))) (\<lambda>r.
     xmit_attempt E r data (xmit_csum csum_start csum_offset) rank)))"

section \<open>Reception\<close>

text \<open>\<open>None\<close>: suspended in \<open>pkt_rx_sync.wait()\<close>.\<close>

definition Interface_recv_nowait :: "nat \<Rightarrow> ('h, packet option) drv" where
  "Interface_recv_nowait self =
     bnd (get_if self) (\<lambda>i.
     case ifc_pkt_rx_queue i of
       [] \<Rightarrow> ret None
     | p # rest \<Rightarrow> sq (upd_if self (\<lambda>i. i\<lparr>ifc_pkt_rx_queue := rest\<rparr>)) (ret (Some p)))"

definition Interface_wait :: "nat \<Rightarrow> ('h, bool) drv" where
  "Interface_wait self =
     bnd (get_if self) (\<lambda>i.
     if ifc_pkt_rx_queue i = []
     then sq (upd_if self (\<lambda>i. i\<lparr>ifc_pkt_rx_sync := False\<rparr>)) (ret False)
     else ret True)"

definition Interface_recv :: "nat \<Rightarrow> ('h, packet option) drv" where
  "Interface_recv self =
     bnd (Interface_wait self) (\<lambda>ready. if ready then Interface_recv_nowait self else ret None)"

section \<open>Sending keeps the invariant\<close>

lemma run_inv_tx_grow:
  assumes inv: "run_inv s" and ring: "txq_ring r k n b s'" and bufs: "bufs_inv s'" and pok: "packets_ok s'"
    and oth: "\<And>j. j \<noteq> r \<Longrightarrow> w_txqs s' j = w_txqs s j" and hw: "txq_hw_regs (w_txqs s' r) = txq_hw_regs (w_txqs s r)"
    and fr: "w_rxqs s' = w_rxqs s" "w_cqs s' = w_cqs s" "w_next_region s \<le> w_next_region s'"
      "\<And>b. b < w_next_region s \<Longrightarrow> length (w_mem s' b) = length (w_mem s b)"
      "\<And>p. p \<in> set (drv_allocated_packets (w_drv s')) \<Longrightarrow>
         p \<in> set (drv_allocated_packets (w_drv s)) \<or> w_next_region s \<le> rg_id p"
  shows "run_inv s'"
proof -
  have hw': "txq_hw_regs (w_txqs s' j) = txq_hw_regs (w_txqs s j)" for j
    using oth hw by (cases "j = r") auto
  have rx: "rxq_ring i k n b s'" if "rxq_ring i k n b s" for i k n b
    using that fr by (fastforce simp: rxq_ring_def Let_def)
  have tx: "\<exists>k n b. txq_ring i k n b s'" if "txq_hw_regs (w_txqs s' i) \<noteq> None" for i
  proof (cases "i = r")
    case False
    with that obtain k n b where "txq_ring i k n b s" using run_invD(3) [OF inv, of i] by (auto simp: hw')
    then have "txq_ring i k n b s'" using oth [OF False] fr by (fastforce simp: txq_ring_def Let_def)
    then show ?thesis by blast
  qed (use ring in blast)
  have cqb: "cq_ring c k b s' \<and> b < w_next_region s'" if "cq_ring c k b s" "b < w_next_region s" for c k b
    using that fr(3,4) by (simp add: cq_ring_def Let_def fr(2))
  have att: "cq_attached s' c x" if "cq_attached s c x" for c x
  proof -
    from that cqb have "\<exists>k b. cq_ring c k b s' \<and> b < w_next_region s'" unfolding cq_attached_def by blast
    with that show ?thesis by (simp add: cq_attached_def fr(1,2) hw' split: ring_ref.splits)
  qed
  show ?thesis
    unfolding run_inv_def
  proof (intro conjI allI impI)
    fix i assume "rxq_hw_regs (w_rxqs s' i) \<noteq> None"
    with run_invD(4) [OF inv, of i] rx show "\<exists>k n b. rxq_ring i k n b s'" unfolding fr(1) by blast
  next
    fix c x assume "cq_src_ring (w_cqs s' c) = Some x"
    with run_invD(5) [OF inv] att show "cq_attached s' c x" by (simp add: fr(2))
  qed (use bufs pok tx in auto)
qed

text \<open>Attributes of a ring that the invariant does not speak of.\<close>

lemma run_inv_txq_attr:
  assumes inv: "run_inv s" and f: "txq_hw_regs (f q) = txq_hw_regs q" "txq_tx_info (f q) = txq_tx_info q"
      "txq_size (f q) = txq_size q" "txq_size_mask (f q) = txq_size_mask q" "txq_full_size (f q) = txq_full_size q"
      "txq_desc_block_size (f q) = txq_desc_block_size q" "txq_stride (f q) = txq_stride q"
      "txq_buf (f q) = txq_buf q" "txq_prod_ptr (f q) = txq_prod_ptr q" "txq_cons_ptr (f q) = txq_cons_ptr q"
    and q: "q = w_txqs s r"
  shows "run_inv (s\<lparr>w_txqs := (w_txqs s)(r := f q)\<rparr>)"
proof -
  let ?s = "s\<lparr>w_txqs := (w_txqs s)(r := f q)\<rparr>"
  have sl: "slot ?s x m = slot s x m" for x m by (cases x) (simp_all add: slot_def f q [symmetric])
  have "bufs_inv ?s" by (rule bufs_inv_cong [OF run_invD(1) [OF inv]]) (simp_all add: sl)
  have ring: "txq_ring i k n b ?s = txq_ring i k n b s" for i k n b
    by (cases "i = r") (simp_all add: txq_ring_def f q [symmetric] Let_def)
  have hw: "txq_hw_regs (w_txqs ?s i) = txq_hw_regs (w_txqs s i)" for i
    by (simp add: f(1) q [symmetric])
  have cq: "rxq_ring i k n b ?s = rxq_ring i k n b s" "cq_ring i k b ?s = cq_ring i k b s" for i k n b
    by (simp_all add: rxq_ring_def cq_ring_def)
  have att: "cq_attached ?s c x = cq_attached s c x" for c x
    unfolding cq_attached_def cq hw by (simp split: ring_ref.split)
  show ?thesis
    using inv \<open>bufs_inv ?s\<close> unfolding run_inv_def hw ring cq att by (simp add: packets_ok_def)
qed

definition tx_request_ok :: "byte list \<Rightarrow> int \<Rightarrow> bool" where
  "tx_request_ok data csum \<longleftrightarrow> length data + 10 \<le> 16384 \<and> 0 \<le> csum \<and> csum < 2 ^ 16"

text \<open>
  With room in the ring \<open>tx_transmit\<close> posts the packet, or the memory pool is exhausted; the
  driver's assertion that the slot is free never fails.
\<close>

lemma Txq_post_run_inv:
  assumes dev: "device_ok E" and inv: "run_inv s" and open': "txq_hw_regs (w_txqs s r) \<noteq> None"
    and room: "\<not> Txq_full (w_txqs s r)" and req: "tx_request_ok data csum"
  shows "\<exists>res s'. Txq_post E r data csum s = (res, s') \<and> run_inv s' \<and>
    txq_hw_regs (w_txqs s' r) = txq_hw_regs (w_txqs s r) \<and>
    (res = Inr () \<and> txq_prod_ptr (w_txqs s' r) = txq_prod_ptr (w_txqs s r) + 1 \<or> res = Inl PoolError)"
proof -
  from run_invD(3) [OF inv open'] obtain k n b where ring: "txq_ring r k n b s" by blast
  note bufs = run_invD(1) [OF inv] and pok = run_invD(2) [OF inv]
  note pool = bufs_inv_pool [OF bufs]
  let ?q = "w_txqs s r"
  let ?q1 = "?q\<lparr>txq_packets := txq_packets ?q + 1, txq_bytes := txq_bytes ?q + int (length data)\<rparr>"
  show ?thesis
  proof (cases "alloc_pkt E s")
    case (Pair a s2)
    show ?thesis
    proof (cases a)
      case (Inl e)
      with Pair have e: "alloc_pkt E s = (Inl e, s2)" by simp
      then have es: "e = PoolError" "s2 = s" by (simp_all add: alloc_pkt_error)
      let ?s' = "s\<lparr>w_txqs := (w_txqs s)(r := ?q1)\<rparr>"
      have "alloc_pkt E ?s' = (Inl PoolError, ?s')" using e es by (simp add: alloc_pkt_txqs)
      then have "Txq_post E r data csum s = (Inl PoolError, ?s')"
        by (simp add: Txq_post_def run_simps Let_def)
      moreover have "run_inv ?s'" by (rule run_inv_txq_attr [OF inv]) simp_all
      ultimately show ?thesis by (intro exI [of _ "Inl PoolError"] exI [of _ ?s']) simp
    next
      case (Inr p)
      with Pair have al: "alloc_pkt E s = (Inr p, s2)" by simp
      note ok2 = alloc_pkt_packets_ok [OF dev pool pok al]
      then have pk: "0 \<le> rg_addr p" "rg_addr p + 16384 < 2 ^ 64" "length (w_mem s2 (rg_id p)) = 16384"
        by (auto simp: packets_ok_def)
      have len: "10 + length data \<le> length (w_mem s2 (rg_id p))" "length data < 2 ^ 32"
          "rg_addr p + 10 + int (length data) < 2 ^ 64" "0 \<le> csum" "csum < 2 ^ 16"
        using req pk by (auto simp: tx_request_ok_def)
      have rm: "txq_prod_ptr ?q < txq_cons_ptr ?q + 2 ^ k" using txq_ring_room [OF ring room] .
      from Txq_post_run [OF ring bufs rm al len(1,2) pk(1) len(3-5)] obtain buf' s'
        where run: "Txq_post E r data csum s = (Inr (), s')"
          and s': "s' = s2\<lparr>w_txqs := (w_txqs s)(r := ?q1\<lparr>
              txq_tx_info := (txq_tx_info ?q)[slot_of k (txq_prod_ptr ?q) := Some p],
              txq_prod_ptr := txq_prod_ptr ?q + 1\<rparr>),
            w_mem := (w_mem s2)(rg_id p := splice (w_mem s2 (rg_id p)) 10 data, b := buf')\<rparr>"
          and pb: "rg_id p \<noteq> b" and lb: "length buf' = length (w_mem s b)"
        by blast
      from Txq_post_keeps [OF ring bufs rm al len(1,2) pk(1) len(3-5)] run
      have keep: "txq_ring r k n b s'" "bufs_inv s'" by simp_all
      note fr = alloc_pkt_frame [OF al pool]
      have bn: "b < w_next_region s" "b \<notin> rg_id ` set (drv_allocated_packets (w_drv s))"
        using ring by (simp_all add: txq_ring_def Let_def)
      have "packets_ok s'"
        using ok2 bn fr(8) pb len(1) by (auto simp: packets_ok_def s')
      moreover have "length (w_mem s' x) = length (w_mem s x)" if "x < w_next_region s" for x
        using that lb len(1) fr(9) [of x] alloc_pkt_frame(9) [OF al pool, of "rg_id p"]
        by (cases "x = b"; cases "x = rg_id p") (auto simp: s' alloc_pkt_frame(9) [OF al pool])
      ultimately have "run_inv s'"
        using keep fr(8,11)
        by (intro run_inv_tx_grow [OF inv keep]) (auto simp: s' fr(2,3,7))
      with run show ?thesis by (intro exI [of _ "Inr ()"] exI [of _ s']) (simp add: s')
    qed
  qed
qed

lemma ends_run_txq_write: "device_ok E \<Longrightarrow> ends run_inv (Txq_write_prod_ptr E r rank wqe)"
  unfolding Txq_write_prod_ptr_def get_txq_def by (intro ends_intros) (auto intro: ends_run_write)

lemma xmit_attempt_ok:
  assumes dev: "device_ok E" and inv: "run_inv s" and open': "txq_hw_regs (w_txqs s r) \<noteq> None"
    and req: "tx_request_ok data csum"
  shows "\<exists>res s'. xmit_attempt E r data csum rank s = (res, s') \<and> run_inv s' \<and>
    (res = Inr Sent \<and> \<not> Txq_full (w_txqs s r) \<and> txq_prod_ptr (w_txqs s' r) = txq_prod_ptr (w_txqs s r) + 1 \<or>
     res = Inr (Parked r) \<and> Txq_full (w_txqs s r) \<and> \<not> txq_clean_event (w_txqs s' r) \<and>
       txq_prod_ptr (w_txqs s' r) = txq_prod_ptr (w_txqs s r) \<or>
     res = Inl PoolError)"
proof (cases "Txq_full (w_txqs s r)")
  case True
  let ?s' = "s\<lparr>w_txqs := (w_txqs s)(r := (w_txqs s r)\<lparr>txq_clean_event := False\<rparr>)\<rparr>"
  have "xmit_attempt E r data csum rank s = (Inr (Parked r), ?s')"
    using True by (simp add: xmit_attempt_def run_simps Txq_full_def)
  moreover have "run_inv ?s'" by (rule run_inv_txq_attr [OF inv]) simp_all
  ultimately show ?thesis using True by (intro exI [of _ "Inr (Parked r)"] exI [of _ ?s']) simp
next
  case False
  from Txq_post_run_inv [OF dev inv open' False req] obtain res s1 where s1:
      "Txq_post E r data csum s = (res, s1)" "run_inv s1"
      "txq_hw_regs (w_txqs s1 r) = txq_hw_regs (w_txqs s r)"
      "res = Inr () \<and> txq_prod_ptr (w_txqs s1 r) = txq_prod_ptr (w_txqs s r) + 1 \<or> res = Inl PoolError"
    by blast
  have step: "xmit_attempt E r data csum rank s =
      sq (sq (Txq_post E r data csum) (Txq_write_prod_ptr E r rank 1)) (ret Sent) s"
    using False by (simp add: xmit_attempt_def Txq_tx_transmit_def run_bnd get_txq_def Txq_full_def)
  from open' s1(3) obtain w where w: "txq_hw_regs (w_txqs s1 r) = Some w" by auto
  let ?v = "MQNIC_QUEUE_CMD_SET_PROD_PTR OR (txq_prod_ptr (w_txqs s1 r) AND MQNIC_QUEUE_PTR_MASK)"
  let ?s2 = "wr_state E w MQNIC_QUEUE_RANK_WQE (push_bit 3 rank OR 1)
      (wr_state E w MQNIC_QUEUE_CTRL_STATUS_REG ?v s1)"
  have wr: "Txq_write_prod_ptr E r rank 1 s1 = (Inr (), ?s2)"
    by (simp add: Txq_write_prod_ptr_def run_simps w)
  from s1(4) show ?thesis
  proof
    assume "res = Inl PoolError"
    with step s1 have "xmit_attempt E r data csum rank s = (Inl PoolError, s1)" by (simp add: run_sq)
    with s1(2) show ?thesis by (intro exI [of _ "Inl PoolError"] exI [of _ s1]) simp
  next
    assume r: "res = Inr () \<and> txq_prod_ptr (w_txqs s1 r) = txq_prod_ptr (w_txqs s r) + 1"
    with step s1 wr have "xmit_attempt E r data csum rank s = (Inr Sent, ?s2)" by (simp add: run_sq)
    moreover from endsD [OF ends_run_txq_write [OF dev] s1(2) wr] have "run_inv ?s2" by simp
    ultimately show ?thesis using False r by (intro exI [of _ "Inr Sent"] exI [of _ ?s2]) simp
  qed
qed

text \<open>\<open>start_xmit\<close> on an interface whose rings are open and whose limits fit the packet buffers.\<close>

lemma start_xmit_ok:
  assumes dev: "device_ok E" and inv: "run_inv s" and up: "ifc_port_up (w_ifs s self)"
    and rings: "\<And>r. r \<in> set (ifc_txq (w_ifs s self)) \<Longrightarrow> txq_hw_regs (w_txqs s r) \<noteq> None"
    and mtu: "ifc_max_tx_mtu (w_ifs s self) \<le> 16374" "int (length data) < ifc_max_tx_mtu (w_ifs s self)"
    and ix: "0 \<le> ix" "ix < int (length (ifc_txq (w_ifs s self)))"
    and csum: "0 \<le> xmit_csum st off" "xmit_csum st off < 2 ^ 16"
  shows "\<exists>res s'. Interface_start_xmit E self data (Some ix) st off rank s = (res, s') \<and> run_inv s' \<and>
    (res = Inr Sent \<or> res = Inr (Parked (ifc_txq (w_ifs s self) ! nat ix)) \<or> res = Inl PoolError)"
proof -
  let ?r = "ifc_txq (w_ifs s self) ! nat ix"
  have "?r \<in> set (ifc_txq (w_ifs s self))" using ix by (intro nth_mem) linarith
  then have op: "txq_hw_regs (w_txqs s ?r) \<noteq> None" by (rule rings)
  have req: "tx_request_ok data (xmit_csum st off)" using mtu csum by (auto simp: tx_request_ok_def)
  have "Interface_start_xmit E self data (Some ix) st off rank s =
      xmit_attempt E ?r data (xmit_csum st off) rank s"
    using up mtu ix by (simp add: Interface_start_xmit_def run_simps)
  with xmit_attempt_ok [OF dev inv op req, of rank] show ?thesis by fastforce
qed

lemma start_xmit_down:
  "\<not> ifc_port_up (w_ifs s self) \<Longrightarrow> Interface_start_xmit E self data tr st off rank s = (Inr Dropped, s)"
  by (simp add: Interface_start_xmit_def run_simps)

section \<open>The checksum command\<close>

lemma xmit_csum_value:
  assumes "0 \<le> st" "st < 2 ^ 8" "0 \<le> off" "off < 2 ^ 7"
  shows "xmit_csum (Some st) (Some off) = 2 ^ 15 + 2 ^ 8 * off + st"
proof -
  have "push_bit 8 off OR st = 2 ^ 8 * off + st"
    using assms by (subst or_disjoint_add [where n = 8]) (simp_all add: push_bit_eq_mult)
  moreover have "0x8000 OR (2 ^ 8 * off + st) = 0x8000 + (2 ^ 8 * off + st)"
    using assms by (subst or_disjoint_add [where n = 15]) simp_all
  ultimately show ?thesis by (simp add: xmit_csum_def)
qed

section \<open>Closing raises\<close>

text \<open>
  With a queue open \<open>close\<close> cannot return: awaiting the result of \<open>free_buf\<close> raises, unless
  something before it does.
\<close>

lemma close_tx_raises: "fst (close_tx E q s) \<noteq> Inr ()"
  by (auto simp: close_tx_def run_bnd run_sq get_txq_def split: prod.splits sum.splits)

lemma close_rx_raises: "fst (close_rx E q s) \<noteq> Inr ()"
  by (auto simp: close_rx_def run_bnd run_sq get_rxq_def split: prod.splits sum.splits)

lemma forM_raises: "xs \<noteq> [] \<Longrightarrow> (\<And>x s. fst (f x s) \<noteq> Inr ()) \<Longrightarrow> fst (forM xs f s) \<noteq> Inr ()"
  by (cases xs) (auto simp: run_sq split: prod.splits sum.splits, metis fst_conv)

lemma Interface_close_raises:
  assumes "ifc_txq (w_ifs s self) \<noteq> [] \<or> ifc_rxq (w_ifs s self) \<noteq> []"
  shows "fst (Interface_close E self s) \<noteq> Inr ()"
proof
  assume r: "fst (Interface_close E self s) = Inr ()"
  let ?pre = "seqm [
       upd_if self (\<lambda>i. i\<lparr>ifc_port_up := False\<rparr>),
       bnd (port0 self) (\<lambda>p. Port_set_rx_ctrl E p 0),
       read_sync E self] :: ('a, unit) drv"
  obtain x s1 where pre: "?pre s = (x, s1)" by (cases "?pre s")
  with r obtain u where x: "x = Inr u" by (cases x) (auto simp: Interface_close_def run_sq)
  have q: "ifc_txq (w_ifs s1 self) = ifc_txq (w_ifs s self)" "ifc_rxq (w_ifs s1 self) = ifc_rxq (w_ifs s self)"
    using pre x by (auto simp: run_simps port0_def Port_set_rx_ctrl_def port_write_def read_sync_def
        split: sum.splits option.splits)
  have cl: "Interface_close E self s = seqm [
       forM (ifc_txq (w_ifs s self)) (close_tx E),
       forM (ifc_rxq (w_ifs s self)) (close_rx E),
       upd_if self (\<lambda>i. i\<lparr>ifc_txq := [], ifc_rxq := []\<rparr>),
       bnd (port0 self) (\<lambda>p. Port_set_tx_ctrl E p 0)] s1"
    unfolding Interface_close_def using pre x q by (simp only: sq_Inr run_bnd get_if_def run_gets) simp
  from r have tx: "fst (forM (ifc_txq (w_ifs s self)) (close_tx E) s1) = Inr ()"
    unfolding cl by (auto simp: run_sq split: prod.splits sum.splits)
  then have "ifc_txq (w_ifs s self) = []"
    using forM_raises [of _ "close_tx E" s1] close_tx_raises by metis
  moreover from this r have "fst (forM (ifc_rxq (w_ifs s self)) (close_rx E) s1) = Inr ()"
    unfolding cl by (auto simp: run_sq split: prod.splits sum.splits)
  then have "ifc_rxq (w_ifs s self) = []"
    using forM_raises [of _ "close_rx E" s1] close_rx_raises by metis
  ultimately show False using assms by simp
qed

section \<open>Receiving in order\<close>

text \<open>Taking packets until none is left gives the queue, oldest first.\<close>

primrec recv_all :: "nat \<Rightarrow> nat \<Rightarrow> ('h, packet option list) drv" where
  "recv_all 0 self = ret []"
| "recv_all (Suc n) self =
     bnd (Interface_recv_nowait self) (\<lambda>p. bnd (recv_all n self) (\<lambda>ps. ret (p # ps)))"

lemma recv_all_fifo:
  "\<exists>s'. recv_all (length (ifc_pkt_rx_queue (w_ifs s self))) self s =
      (Inr (map Some (ifc_pkt_rx_queue (w_ifs s self))), s') \<and> ifc_pkt_rx_queue (w_ifs s' self) = []"
proof (induction "ifc_pkt_rx_queue (w_ifs s self)" arbitrary: s)
  case Nil
  then show ?case using Nil [symmetric] by simp
next
  case (Cons p ps)
  let ?s1 = "s\<lparr>w_ifs := (w_ifs s)(self := (w_ifs s self)\<lparr>ifc_pkt_rx_queue := ps\<rparr>)\<rparr>"
  have r: "Interface_recv_nowait self s = (Inr (Some p), ?s1)"
    by (simp add: Interface_recv_nowait_def run_simps Cons.hyps(2) [symmetric])
  have "ps = ifc_pkt_rx_queue (w_ifs ?s1 self)" by simp
  from Cons.hyps(1) [OF this] obtain s' where
      "recv_all (length ps) self ?s1 = (Inr (map Some ps), s')" "ifc_pkt_rx_queue (w_ifs s' self) = []"
    by auto
  with r show ?case by (simp add: Cons.hyps(2) [symmetric] run_bnd)
qed

end
