(* ===== verification/Doorbell.thy ===== *)
theory Doorbell
  imports Tx_Queue "HOL-Library.Multiset"
begin

text \<open>
  The order of \<open>Txq.write_prod_ptr\<close>'s two register writes, with several senders on one ring.
  \<open>tx_transmit\<close> gives up control at each register access, so that between its steps other
  coroutines run. The steps of a sender are a relation on configurations: post a packet,
  publish the producer pointer (\<open>SET_PROD_PTR\<close>), ring the scheduler's doorbell
  (\<open>RANK_WQE\<close>). What the NIC has seen is read off the bus transactions.
\<close>

section \<open>The two halves of \<open>write_prod_ptr\<close>\<close>

definition Txq_publish :: "'h env \<Rightarrow> nat \<Rightarrow> ('h, unit) drv" where
  "Txq_publish E self =
     bnd (get_txq self) (\<lambda>q.
     bnd (attr (txq_hw_regs q)) (\<lambda>w.
       write_dword E w MQNIC_QUEUE_CTRL_STATUS_REG
         (MQNIC_QUEUE_CMD_SET_PROD_PTR OR (txq_prod_ptr q AND MQNIC_QUEUE_PTR_MASK))))"

definition Txq_announce :: "'h env \<Rightarrow> nat \<Rightarrow> int \<Rightarrow> int \<Rightarrow> ('h, unit) drv" where
  "Txq_announce E self rank wqe =
     bnd (get_txq self) (\<lambda>q.
     bnd (attr (txq_hw_regs q)) (\<lambda>w.
       write_dword E w MQNIC_QUEUE_RANK_WQE (push_bit 3 rank OR wqe)))"

lemma Txq_write_prod_ptr_halves:
  "Txq_write_prod_ptr E r rank wqe = sq (Txq_publish E r) (Txq_announce E r rank wqe)"
  by (rule ext) (simp add: Txq_write_prod_ptr_def Txq_publish_def Txq_announce_def run_simps split: option.split)

lemma Txq_write_prod_ptr_change_halves:
  "Txq_write_prod_ptr_change E r rank wqe = sq (Txq_announce E r rank wqe) (Txq_publish E r)"
  by (rule ext)
    (simp add: Txq_write_prod_ptr_change_def Txq_publish_def Txq_announce_def run_simps split: option.split)

section \<open>What the NIC sees\<close>

text \<open>The producer pointer last published, and the ranks of the entries announced, in order.\<close>

fun publication :: "window \<Rightarrow> mmio \<Rightarrow> int option" where
  "publication w (WR w' a v) =
     (if w' = w \<and> a = MQNIC_QUEUE_CTRL_STATUS_REG \<and> v - v mod 65536 = MQNIC_QUEUE_CMD_SET_PROD_PTR
      then Some (v mod 65536) else None)"
| "publication w _ = None"

fun doorbell :: "window \<Rightarrow> mmio \<Rightarrow> int list" where
  "doorbell w (WR w' a v) =
     (if w' = w \<and> a = MQNIC_QUEUE_RANK_WQE then replicate (nat (v AND 7)) (drop_bit 3 v) else [])"
| "doorbell w _ = []"

definition published :: "window \<Rightarrow> int \<Rightarrow> mmio list \<Rightarrow> int" where
  "published w p tr = foldl (\<lambda>p m. case publication w m of None \<Rightarrow> p | Some v \<Rightarrow> v) p tr"

definition announced :: "window \<Rightarrow> mmio list \<Rightarrow> int list" where
  "announced w tr = concat (map (doorbell w) tr)"

text \<open>At every moment no more entries are announced than the published pointer covers.\<close>

definition covered :: "window \<Rightarrow> int \<Rightarrow> mmio list \<Rightarrow> bool" where
  "covered w p tr \<longleftrightarrow>
     (\<forall>n \<le> length tr. int (length (announced w (take n tr))) \<le> (published w p (take n tr) - p) mod 65536)"

definition silent :: "window \<Rightarrow> mmio \<Rightarrow> bool" where
  "silent w m \<longleftrightarrow> publication w m = None \<and> doorbell w m = []"

lemma published_simps [simp]:
  "published w p [] = p"
  "published w p (tr @ [m]) = (case publication w m of None \<Rightarrow> published w p tr | Some v \<Rightarrow> v)"
  by (simp_all add: published_def split: option.split)

lemma announced_simps [simp]:
  "announced w [] = []" "announced w (tr @ [m]) = announced w tr @ doorbell w m"
  by (simp_all add: announced_def)

lemma covered_Nil [simp]: "covered w p []"
  by (simp add: covered_def)

lemma covered_snoc:
  "covered w p (tr @ [m]) \<longleftrightarrow> covered w p tr \<and>
     int (length (announced w (tr @ [m]))) \<le> (published w p (tr @ [m]) - p) mod 65536"
  by (auto simp: covered_def le_Suc_eq)

lemma silent_trace:
  "\<forall>m \<in> set ms. silent w m \<Longrightarrow>
     published w p (tr @ ms) = published w p tr \<and> announced w (tr @ ms) = announced w tr \<and>
     (covered w p tr \<longrightarrow> covered w p (tr @ ms))"
proof (induction ms rule: rev_induct)
  case (snoc m ms)
  then have IH: "published w p (tr @ ms) = published w p tr" "announced w (tr @ ms) = announced w tr"
      "covered w p tr \<longrightarrow> covered w p (tr @ ms)" and m: "silent w m"
    by simp_all
  have "int (length (announced w tr)) \<le> (published w p tr - p) mod 65536" if "covered w p tr"
    using that by (auto simp: covered_def dest: spec [of _ "length tr"])
  with IH m show ?case
    by (simp add: covered_snoc silent_def flip: append_assoc)
qed simp

lemma set_prod_value:
  "MQNIC_QUEUE_CMD_SET_PROD_PTR OR (p AND MQNIC_QUEUE_PTR_MASK) = 0x80800000 + p mod 65536"
proof -
  have "(0x80800000 :: int) OR p mod 65536 = 0x80800000 + p mod 65536"
    by (rule or_disjoint_add [where n = 16]) simp_all
  then show ?thesis by (simp add: ptr_mask_mod MQNIC_QUEUE_CMD_SET_PROD_PTR_def)
qed

lemma publication_set_prod:
  "publication w (WR w MQNIC_QUEUE_CTRL_STATUS_REG
     (MQNIC_QUEUE_CMD_SET_PROD_PTR OR (p AND MQNIC_QUEUE_PTR_MASK))) = Some (p mod 65536)"
proof -
  have "(0x80800000 + p mod 65536) mod 65536 = (65536 * 0x8080 + p mod 65536) mod 65536" by simp
  also have "\<dots> = p mod 65536" by (simp only: mod_mult_self4 mod_mod_trivial)
  finally have "(0x80800000 + p mod 65536) mod 65536 = p mod 65536" .
  then show ?thesis
    by (simp only: publication.simps set_prod_value) (simp add: MQNIC_QUEUE_CMD_SET_PROD_PTR_def)
qed

lemma doorbell_set_prod: "doorbell w (WR w' MQNIC_QUEUE_CTRL_STATUS_REG v) = []"
  by (simp add: regs)

lemma rank_wqe_fields: "drop_bit 3 (push_bit 3 rank OR 1) = rank" "(push_bit 3 rank OR 1) AND 7 = 1"
  for rank :: int
proof -
  have v: "push_bit 3 rank OR 1 = rank * 8 + 1"
    using or_disjoint_add [of 1 3 "push_bit 3 rank"] by (simp add: push_bit_eq_mult)
  show "drop_bit 3 (push_bit 3 rank OR 1) = rank" by (simp only: v drop_bit_eq_div) simp
  show "(push_bit 3 rank OR 1) AND 7 = 1" using and_mask_mod [of "rank * 8 + 1" 3] by (simp only: v) simp
qed

lemma doorbell_rank: "doorbell w (WR w MQNIC_QUEUE_RANK_WQE (push_bit 3 rank OR 1)) = [rank]"
  using rank_wqe_fields [of rank] by (simp del: drop_bit_or)

lemma publication_rank: "publication w (WR w' MQNIC_QUEUE_RANK_WQE v) = None"
  by (simp add: regs)

section \<open>A post leaves the bus alone\<close>

lemma bnd_InrE:
  assumes "bnd m f s = (Inr y, s')"
  obtains x s1 where "m s = (Inr x, s1)" "f x s1 = (Inr y, s')"
  using assms by (auto simp: run_bnd split: prod.splits sum.splits)

lemma sq_InrE:
  assumes "sq m n s = (Inr y, s')"
  obtains x s1 where "m s = (Inr x, s1)" "n s1 = (Inr y, s')"
  using assms by (auto simp: run_sq split: prod.splits sum.splits)

text \<open>Neither the transactions nor the rings change.\<close>

definition off_bus :: "'h world \<Rightarrow> 'h world \<Rightarrow> bool" where
  "off_bus s s' \<longleftrightarrow> w_mmio s' = w_mmio s \<and> w_txqs s' = w_txqs s"

lemma mem_pack_off_bus: "mem_pack fs b off vs s = (res, s') \<Longrightarrow> off_bus s s'"
  by (auto simp: mem_pack_def off_bus_def split: sum.splits)

lemma mem_store_off_bus: "mem_store b off bs s = (res, s') \<Longrightarrow> off_bus s s'"
  by (auto simp: mem_store_def off_bus_def split: if_splits)

lemma alloc_pkt_off_bus: "alloc_pkt E s = (res, s') \<Longrightarrow> off_bus s s'"
  by (auto simp: alloc_pkt_def alloc_region_def run_simps off_bus_def split: list.splits option.splits)

lemma desc_loop_off_bus: "desc_loop fmt pre dbs b base ptr len off ks s = (Inr x, s') \<Longrightarrow> off_bus s s'"
proof (induction ks arbitrary: off s)
  case Nil then show ?case by (simp add: off_bus_def)
next
  case (Cons k ks)
  then show ?case
    by (fastforce simp: Let_def off_bus_def elim!: sq_InrE dest: mem_pack_off_bus)
qed

lemma Txq_post_off_bus:
  assumes "Txq_post E r data csum s = (Inr (), s')"
  shows "w_mmio s' = w_mmio s \<and> txq_hw_regs (w_txqs s' r) = txq_hw_regs (w_txqs s r) \<and>
    txq_prod_ptr (w_txqs s' r) = txq_prod_ptr (w_txqs s r) + 1"
  using assms unfolding Txq_post_def Let_def
  by (auto simp: run_attr run_lift_res run_assertM access_defs the_buf_def off_bus_def
      elim!: bnd_InrE sq_InrE split: sum.splits if_splits option.splits
      dest!: alloc_pkt_off_bus mem_store_off_bus mem_pack_off_bus desc_loop_off_bus)

section \<open>Senders\<close>

text \<open>
  A configuration: the world, the ranks of the packets posted and not yet published, of those
  published and not yet announced, and of all packets posted so far. \<open>quiet\<close> is any other
  step of the driver: one that neither moves this ring's producer pointer nor writes one of the
  two registers.
\<close>

record 'h senders =
  sd_w :: "'h world"
  sd_posted :: "int list"
  sd_published :: "int list"
  sd_sent :: "int list"

definition no_senders :: "'h world \<Rightarrow> 'h senders" where
  "no_senders s = \<lparr>sd_w = s, sd_posted = [], sd_published = [], sd_sent = []\<rparr>"

definition quiet :: "nat \<Rightarrow> window \<Rightarrow> 'h world \<Rightarrow> 'h world \<Rightarrow> bool" where
  "quiet r w s s' \<longleftrightarrow> txq_prod_ptr (w_txqs s' r) = txq_prod_ptr (w_txqs s r) \<and>
     txq_hw_regs (w_txqs s' r) = txq_hw_regs (w_txqs s r) \<and>
     (\<exists>ms. w_mmio s' = w_mmio s @ ms \<and> (\<forall>m \<in> set ms. silent w m))"

text \<open>The handling of completions is such a step, for any ring and whether it returns or raises.\<close>

lemma quiet_refl: "quiet r w s s"
  by (simp add: quiet_def)

lemma quiet_same:
  assumes "quiet r w s0 s" "w_mmio s' = w_mmio s" "txq_prod_ptr (w_txqs s' r) = txq_prod_ptr (w_txqs s r)"
    "txq_hw_regs (w_txqs s' r) = txq_hw_regs (w_txqs s r)"
  shows "quiet r w s0 s'"
  using assms by (simp add: quiet_def)

lemma quiet_write:
  assumes "quiet r w s0 s" "silent w (WR w' a v)"
  shows "quiet r w s0 (wr_state E w' a v s)"
proof -
  from assms(1) obtain ms where "w_mmio s = w_mmio s0 @ ms" "\<forall>m \<in> set ms. silent w m"
    by (auto simp: quiet_def)
  then show ?thesis
    using assms by (auto simp: quiet_def intro!: exI [of _ "ms @ [WR w' a v]"])
qed

lemma silent_cons_ptr: "silent w (WR w' 8 (0x80900000 OR x mod 65536))"
proof -
  have v: "(0x80900000 :: int) OR x mod 65536 = 65536 * 0x8090 + x mod 65536"
    using or_disjoint_add [of "x mod 65536" 16 "0x80900000"] by simp
  have "(65536 * 0x8090 + x mod 65536) mod 65536 = x mod 65536"
    by (simp only: mod_mult_self4 mod_mod_trivial)
  then show ?thesis unfolding v by (simp add: silent_def regs)
qed

lemma keeps_quiet [keeps_intros]:
  "keeps (quiet r w s0) (Cq_write_cons_ptr E c)"
  "keeps (quiet r w s0) (upd_cq c f)"
  "keeps (quiet r w s0) (free_pkt pk)"
  "keeps (quiet r w s0) (upd_txq i (\<lambda>q. q\<lparr>txq_tx_info := x\<rparr>))"
  "keeps (quiet r w s0) (upd_txq i (\<lambda>q. q\<lparr>txq_cons_ptr := y\<rparr>))"
  "keeps (quiet r w s0) (upd_txq i (\<lambda>q. q\<lparr>txq_clean_event := z\<rparr>))"
proof -
  show "keeps (quiet r w s0) (Cq_write_cons_ptr E c)"
    by (auto simp: keeps_def Cq_write_cons_ptr_def run_simps regs ptr_mask_mod [simplified regs]
        intro!: quiet_write silent_cons_ptr split: option.split)
qed (auto simp: keeps_def run_simps free_pkt_def elim!: quiet_same split: option.split)

lemma keeps_quiet_free_desc [keeps_intros]: "keeps (quiet r w s0) (Txq_free_desc i m)"
  unfolding Txq_free_desc_def get_txq_def by (intro keeps_intros)

lemma keeps_reads [keeps_intros]: "keeps I (the_buf x)" "keeps I (mem_unpack fs b off)"
  by (simp_all add: keeps_def the_buf_def mem_unpack_def split: option.split)

lemma keeps_quiet_cpl_loop [keeps_intros]: "keeps (quiet r w s0) (tx_cpl_loop n c i p)"
proof (induction n arbitrary: p)
  case (Suc n)
  show ?case unfolding tx_cpl_loop.simps Let_def get_txq_def get_cq_def by (intro keeps_intros Suc.IH)
qed (simp add: keeps_throw)

lemma keeps_quiet_process: "keeps (quiet r w s0) (Txq_process_tx_cq E c)"
  unfolding Txq_process_tx_cq_def Txq_reclaim_def get_cq_def get_if_def get_txq_def src_txq_def
  by (intro keeps_intros) (auto intro!: keeps_intros split: option.split ring_ref.split)

inductive send_step :: "'h env \<Rightarrow> nat \<Rightarrow> window \<Rightarrow> 'h senders \<Rightarrow> 'h senders \<Rightarrow> bool"
  for E r w where
  post: "Txq_post E r data csum (sd_w c) = (Inr (), s') \<Longrightarrow>
    send_step E r w c (c\<lparr>sd_w := s', sd_posted := rank # sd_posted c, sd_sent := rank # sd_sent c\<rparr>)"
| publish: "sd_posted c = xs @ rank # ys \<Longrightarrow> Txq_publish E r (sd_w c) = (Inr (), s') \<Longrightarrow>
    send_step E r w c (c\<lparr>sd_w := s', sd_posted := xs @ ys, sd_published := rank # sd_published c\<rparr>)"
| announce: "sd_published c = xs @ rank # ys \<Longrightarrow> Txq_announce E r rank 1 (sd_w c) = (Inr (), s') \<Longrightarrow>
    send_step E r w c (c\<lparr>sd_w := s', sd_published := xs @ ys\<rparr>)"
| other: "quiet r w (sd_w c) s' \<Longrightarrow> send_step E r w c (c\<lparr>sd_w := s'\<rparr>)"

inductive sends :: "'h env \<Rightarrow> nat \<Rightarrow> window \<Rightarrow> 'h senders \<Rightarrow> 'h senders \<Rightarrow> bool"
  for E r w where
  none: "sends E r w c c"
| step: "sends E r w c c' \<Longrightarrow> send_step E r w c' c'' \<Longrightarrow> sends E r w c c''"

inductive_cases send_stepE: "send_step E r w c c'"

lemma process_tx_cq_step:
  "Txq_process_tx_cq E' i (sd_w c) = (res, s') \<Longrightarrow> send_step E r w c (c\<lparr>sd_w := s'\<rparr>)"
  using keeps_run [OF keeps_quiet_process quiet_refl] by (intro send_step.other)

text \<open>A \<open>tx_transmit\<close> that is not interrupted is three of these steps.\<close>

lemma tx_transmit_sends:
  assumes "Txq_tx_transmit E r data rank csum (sd_w c) = (Inr (), s')"
  shows "sends E r w c (c\<lparr>sd_w := s', sd_sent := rank # sd_sent c\<rparr>)"
proof -
  from assms obtain s1 s2 where s: "Txq_post E r data csum (sd_w c) = (Inr (), s1)"
      "Txq_publish E r s1 = (Inr (), s2)" "Txq_announce E r rank 1 s2 = (Inr (), s')"
    by (auto simp: Txq_tx_transmit_def Txq_write_prod_ptr_halves elim!: sq_InrE)
  let ?c1 = "c\<lparr>sd_w := s1, sd_posted := rank # sd_posted c, sd_sent := rank # sd_sent c\<rparr>"
  let ?c2 = "?c1\<lparr>sd_w := s2, sd_posted := sd_posted c, sd_published := rank # sd_published c\<rparr>"
  have "send_step E r w c ?c1" using s(1) by (rule send_step.post)
  moreover have "send_step E r w ?c1 ?c2"
    using send_step.publish [of ?c1 "[]" rank "sd_posted c" E r s2 w] s(2) by simp
  moreover have "send_step E r w ?c2 (?c2\<lparr>sd_w := s', sd_published := sd_published c\<rparr>)"
    using send_step.announce [of ?c2 "[]" rank "sd_published c" E r s' w] s(3) by simp
  ultimately have "sends E r w c (?c2\<lparr>sd_w := s', sd_published := sd_published c\<rparr>)"
    by (blast intro: sends.intros)
  then show ?thesis by (cases c) simp
qed

lemma sends_trans: "sends E r w c c' \<Longrightarrow> sends E r w c' c'' \<Longrightarrow> sends E r w c c''"
  by (rotate_tac, induction rule: sends.induct) (auto intro: sends.intros)

section \<open>The invariant\<close>

definition sends_inv :: "nat \<Rightarrow> window \<Rightarrow> 'h world \<Rightarrow> mmio list \<Rightarrow> 'h senders \<Rightarrow> bool" where
  "sends_inv r w s0 tr c \<longleftrightarrow> (let P = txq_prod_ptr (w_txqs s0 r); q = w_txqs (sd_w c) r in
     w_mmio (sd_w c) = w_mmio s0 @ tr \<and> txq_hw_regs q = Some w \<and>
     txq_prod_ptr q = P + int (length (sd_sent c)) \<and>
     mset (announced w tr) + mset (sd_published c) + mset (sd_posted c) = mset (sd_sent c) \<and>
     (\<exists>n \<le> length (sd_sent c). length (announced w tr) + length (sd_published c) \<le> n \<and>
        published w P tr mod 65536 = (P + int n) mod 65536) \<and>
     covered w P tr)"

lemma sends_inv_start: "txq_hw_regs (w_txqs s r) = Some w \<Longrightarrow> sends_inv r w s [] (no_senders s)"
  by (simp add: sends_inv_def no_senders_def Let_def)

lemma dist_mod: "a mod m = (p + n) mod m \<Longrightarrow> 0 \<le> n \<Longrightarrow> n < m \<Longrightarrow> (a - p) mod m = n" for a m n p :: int
  by (metis add_diff_cancel_left' mod_diff_left_eq mod_pos_pos_trivial)

lemma sends_inv_post:
  assumes inv: "sends_inv r w s0 tr c" and run: "Txq_post E r data csum (sd_w c) = (Inr (), s')"
  shows "sends_inv r w s0 tr (c\<lparr>sd_w := s', sd_posted := rank # sd_posted c, sd_sent := rank # sd_sent c\<rparr>)"
  using inv Txq_post_off_bus [OF run] by (auto simp: sends_inv_def Let_def intro: le_SucI)

lemma sends_inv_other:
  assumes inv: "sends_inv r w s0 tr c" and quiet: "quiet r w (sd_w c) s'"
  shows "\<exists>tr'. sends_inv r w s0 tr' (c\<lparr>sd_w := s'\<rparr>)"
proof -
  from quiet obtain ms where ms: "w_mmio s' = w_mmio (sd_w c) @ ms" "\<forall>m \<in> set ms. silent w m"
    by (auto simp: quiet_def)
  have "sends_inv r w s0 (tr @ ms) (c\<lparr>sd_w := s'\<rparr>)"
    using inv quiet ms(1) silent_trace [OF ms(2)] by (auto simp: sends_inv_def quiet_def Let_def)
  then show ?thesis ..
qed

lemma sends_inv_publish:
  assumes inv: "sends_inv r w s0 tr c" and bound: "length (sd_sent c) < 65536"
    and split: "sd_posted c = xs @ rank # ys" and run: "Txq_publish E r (sd_w c) = (Inr (), s')"
  shows "\<exists>tr'. sends_inv r w s0 tr' (c\<lparr>sd_w := s', sd_posted := xs @ ys, sd_published := rank # sd_published c\<rparr>)"
proof -
  let ?P = "txq_prod_ptr (w_txqs s0 r)" and ?q = "w_txqs (sd_w c) r"
  let ?m = "WR w MQNIC_QUEUE_CTRL_STATUS_REG (MQNIC_QUEUE_CMD_SET_PROD_PTR OR (txq_prod_ptr ?q AND MQNIC_QUEUE_PTR_MASK))"
  from inv have i: "w_mmio (sd_w c) = w_mmio s0 @ tr" "txq_hw_regs ?q = Some w"
      "txq_prod_ptr ?q = ?P + int (length (sd_sent c))"
      "mset (announced w tr) + mset (sd_published c) + mset (sd_posted c) = mset (sd_sent c)"
      "covered w ?P tr"
    by (simp_all add: sends_inv_def Let_def)
  from run i(2) have s': "w_mmio s' = w_mmio (sd_w c) @ [?m]" "w_txqs s' = w_txqs (sd_w c)"
    by (auto simp: Txq_publish_def run_simps)
  have pub: "published w ?P (tr @ [?m]) = txq_prod_ptr ?q mod 65536" "announced w (tr @ [?m]) = announced w tr"
    by (simp_all only: published_simps announced_simps publication_set_prod doorbell_set_prod option.case append_Nil2)
  have "length (announced w tr) + length (sd_published c) + length (sd_posted c) = length (sd_sent c)"
    using arg_cong [OF i(4), of size] by simp
  then have len: "length (announced w tr) + Suc (length (sd_published c)) \<le> length (sd_sent c)" using split by simp
  have "(txq_prod_ptr ?q mod 65536 - ?P) mod 65536 = int (length (sd_sent c))"
    using bound i(3) by (intro dist_mod) simp_all
  then have "covered w ?P (tr @ [?m])"
    using len i(5) unfolding covered_snoc pub by simp
  then have "sends_inv r w s0 (tr @ [?m])
      (c\<lparr>sd_w := s', sd_posted := xs @ ys, sd_published := rank # sd_published c\<rparr>)"
    using i len s' split unfolding sends_inv_def Let_def pub by (auto intro!: exI [of _ "length (sd_sent c)"])
  then show ?thesis ..
qed

lemma sends_inv_announce:
  assumes inv: "sends_inv r w s0 tr c" and bound: "length (sd_sent c) < 65536"
    and split: "sd_published c = xs @ rank # ys" and run: "Txq_announce E r rank 1 (sd_w c) = (Inr (), s')"
  shows "\<exists>tr'. sends_inv r w s0 tr' (c\<lparr>sd_w := s', sd_published := xs @ ys\<rparr>)"
proof -
  let ?P = "txq_prod_ptr (w_txqs s0 r)" and ?q = "w_txqs (sd_w c) r"
  let ?m = "WR w MQNIC_QUEUE_RANK_WQE (push_bit 3 rank OR 1)"
  from inv obtain n where i: "w_mmio (sd_w c) = w_mmio s0 @ tr" "txq_hw_regs ?q = Some w"
      "txq_prod_ptr ?q = ?P + int (length (sd_sent c))"
      "mset (announced w tr) + mset (sd_published c) + mset (sd_posted c) = mset (sd_sent c)"
      "covered w ?P tr" "n \<le> length (sd_sent c)" "length (announced w tr) + length (sd_published c) \<le> n"
      "published w ?P tr mod 65536 = (?P + int n) mod 65536"
    by (auto simp: sends_inv_def Let_def)
  from run i(2) have s': "w_mmio s' = w_mmio (sd_w c) @ [?m]" "w_txqs s' = w_txqs (sd_w c)"
    by (auto simp: Txq_announce_def run_simps)
  have pub: "published w ?P (tr @ [?m]) = published w ?P tr" "announced w (tr @ [?m]) = announced w tr @ [rank]"
    by (simp_all only: published_simps announced_simps publication_rank doorbell_rank option.case)
  have "(published w ?P tr - ?P) mod 65536 = int n"
    using bound i(6,8) by (intro dist_mod) simp_all
  then have "covered w ?P (tr @ [?m])"
    using i(5,7) split unfolding covered_snoc pub by simp
  then have "sends_inv r w s0 (tr @ [?m]) (c\<lparr>sd_w := s', sd_published := xs @ ys\<rparr>)"
    using i s' split unfolding sends_inv_def Let_def pub by auto
  then show ?thesis ..
qed

lemma sends_inv_step:
  assumes "sends_inv r w s0 tr c" "send_step E r w c c'" "length (sd_sent c) < 65536"
  shows "\<exists>tr'. sends_inv r w s0 tr' c'"
  using assms(2)
proof (cases rule: send_step.cases)
  case post then show ?thesis using sends_inv_post assms(1) by blast
next
  case publish then show ?thesis using sends_inv_publish assms(1,3) by blast
next
  case announce then show ?thesis using sends_inv_announce assms(1,3) by blast
next
  case other then show ?thesis using sends_inv_other assms(1) by blast
qed

lemma send_step_sent: "send_step E r w c c' \<Longrightarrow> length (sd_sent c) \<le> length (sd_sent c')"
  by (erule send_stepE) simp_all

lemma sends_sends_inv:
  assumes "sends E r w c0 c" "c0 = no_senders s0" "txq_hw_regs (w_txqs s0 r) = Some w"
    "length (sd_sent c) < 65536"
  shows "\<exists>tr. sends_inv r w s0 tr c"
  using assms
proof (induction rule: sends.induct)
  case none then show ?case using sends_inv_start by blast
next
  case (step c c' c'')
  from send_step_sent [OF step.hyps(2)] step.prems(3) have "length (sd_sent c') < 65536" by linarith
  with step.IH step.prems sends_inv_step [OF _ step.hyps(2)] show ?case by blast
qed

lemma sends_inv_done:
  assumes "sends_inv r w s0 tr c" "sd_posted c = []" "sd_published c = []"
  shows "mset (announced w tr) = mset (sd_sent c)"
    "published w (txq_prod_ptr (w_txqs s0 r)) tr mod 65536 = txq_prod_ptr (w_txqs (sd_w c) r) mod 65536"
proof -
  show m: "mset (announced w tr) = mset (sd_sent c)" using assms by (simp add: sends_inv_def Let_def)
  then have "length (announced w tr) = length (sd_sent c)" by (rule mset_eq_length)
  then show "published w (txq_prod_ptr (w_txqs s0 r)) tr mod 65536 = txq_prod_ptr (w_txqs (sd_w c) r) mod 65536"
    using assms by (auto simp: sends_inv_def Let_def)
qed

section \<open>The other order\<close>

text \<open>\<open>tx_transmit\<close> of the copy under \<open>tb/mqnic_core_pcie_us_change\<close>.\<close>

definition Txq_tx_transmit_change :: "'h env \<Rightarrow> nat \<Rightarrow> byte list \<Rightarrow> int \<Rightarrow> int \<Rightarrow> ('h, unit) drv" where
  "Txq_tx_transmit_change E self data rank csum_cmd =
     sq (Txq_post E self data csum_cmd) (Txq_write_prod_ptr_change E self rank 1)"

lemma Txq_tx_transmit_change_run:
  assumes open': "txq_hw_regs (w_txqs s r) = Some w"
    and run: "Txq_tx_transmit_change E r data rank csum s = (Inr (), s')"
  shows "\<exists>tr. w_mmio s' = w_mmio s @ tr \<and> announced w tr = [rank] \<and>
    published w (txq_prod_ptr (w_txqs s r)) tr = (txq_prod_ptr (w_txqs s r) + 1) mod 65536 \<and>
    \<not> covered w (txq_prod_ptr (w_txqs s r)) tr"
proof -
  let ?p = "txq_prod_ptr (w_txqs s r)"
  let ?a = "WR w MQNIC_QUEUE_RANK_WQE (push_bit 3 rank OR 1)"
  let ?b = "WR w MQNIC_QUEUE_CTRL_STATUS_REG (MQNIC_QUEUE_CMD_SET_PROD_PTR OR (?p + 1 AND MQNIC_QUEUE_PTR_MASK))"
  from run obtain s1 where post: "Txq_post E r data csum s = (Inr (), s1)"
      and wr: "Txq_write_prod_ptr_change E r rank 1 s1 = (Inr (), s')"
    by (auto simp: Txq_tx_transmit_change_def elim!: sq_InrE)
  note off = Txq_post_off_bus [OF post]
  have mmio: "w_mmio s' = w_mmio s @ [?a, ?b]"
    using wr off open' by (auto simp: Txq_write_prod_ptr_change_def run_simps)
  note tr_simps = announced_def published_def list.map concat.simps foldl.simps doorbell_rank doorbell_set_prod
    publication_rank publication_set_prod option.case append_Nil append_Nil2
  have "announced w [?a] = [rank]" "published w ?p [?a] = ?p" by (simp_all only: tr_simps)
  then have "\<not> covered w ?p [?a, ?b]"
    unfolding covered_def by (auto intro!: exI [of _ "Suc 0"] simp del: append.simps)
  moreover have "announced w [?a, ?b] = [rank]" "published w ?p [?a, ?b] = (?p + 1) mod 65536"
    by (simp_all only: tr_simps)
  ultimately show ?thesis using mmio by blast
qed

end
