(* ===== verification/Coroutines.thy ===== *)
theory Coroutines
  imports Iface Doorbell
begin

text \<open>
  The driver as it runs: coroutines that take turns. A coroutine is the list of the pieces of
  code it still has to run (\<open>frame\<close>s), each from one possible suspension to the next. Running a
  frame gives the frames that replace it, or an exception, which ends the coroutine. A frame
  may be followed by another coroutine's, by new coroutines (senders and interrupts) and by the
  NIC's own accesses to host memory. Some frames follow each other in the program without a
  suspension in between; interleavings are allowed there too, so that the model has at least the
  program's behaviours. Theorems: the invariant of the running driver holds at every moment, and
  a coroutine that is left alone does what its method does.
\<close>

section \<open>Frames\<close>

text \<open>
  \<open>Xmit\<close> is \<open>start_xmit\<close> from the test of its loop on, \<open>XmitWait\<close> the wait for the ring's event;
  \<open>Publish\<close> and \<open>Announce\<close> are the halves of \<open>write_prod_ptr\<close>; \<open>Handle\<close> is a completion handler up
  to its first \<open>await\<close>, \<open>CqReport\<close> its \<open>await cq.write_cons_ptr()\<close>, \<open>TxReclaim\<close> and \<open>RxReclaim\<close> what
  comes after, \<open>RxPublish\<close> the end of \<open>refill_buffers\<close>; \<open>EqEnter\<close>, \<open>EqScan\<close> and \<open>EqReport\<close> are the parts
  of \<open>process_eq\<close>; \<open>Irq\<close>, \<open>IrqIface\<close> and \<open>IrqEq\<close> are \<open>interrupt_handler\<close> and its two loops.
\<close>

datatype frame =
    Xmit nat "byte list" int int
  | XmitWait nat "byte list" int int
  | Publish nat
  | Announce nat int
  | Handle nat
  | CqReport nat
  | CqArm nat
  | TxReclaim nat
  | RxReclaim nat
  | RxPublish nat
  | EqEnter nat
  | EqScan nat int
  | EqReport nat
  | EqArm nat
  | Irq int
  | IrqIface nat int
  | IrqEq nat int

definition xmit_step :: "'h env \<Rightarrow> nat \<Rightarrow> byte list \<Rightarrow> int \<Rightarrow> int \<Rightarrow> ('h, frame list) drv" where
  "xmit_step E r data csum rank =
     bnd (get_txq r) (\<lambda>ring.
     if txq_prod_ptr ring - txq_cons_ptr ring < txq_full_size ring
     then sq (Txq_post E r data csum) (ret [Publish r, Announce r rank])
     else sq (upd_txq r (\<lambda>q. q\<lparr>txq_clean_event := False\<rparr>)) (ret [XmitWait r data csum rank]))"

definition cq_start :: "nat \<Rightarrow> ('h, frame list) drv" where
  "cq_start cqi =
     bnd (get_cq cqi) (\<lambda>cq.
     case cq_handler cq of
       None \<Rightarrow> throw TypeError
     | Some ProcessTxCq \<Rightarrow>
         bnd (get_if (cq_interface cq)) (\<lambda>ifc.
         bnd (src_txq (cq_src_ring cq)) (\<lambda>r.
         if \<not> ifc_port_up ifc then ret [] else
         bnd (tx_cpl_loop (Suc (nat (cq_size cq))) cqi r (cq_cons_ptr cq)) (\<lambda>c.
         sq (upd_cq cqi (\<lambda>q. q\<lparr>cq_cons_ptr := c\<rparr>)) (ret [CqReport cqi, TxReclaim r]))))
     | Some ProcessRxCq \<Rightarrow>
         bnd (get_if (cq_interface cq)) (\<lambda>ifc.
         bnd (src_rxq (cq_src_ring cq)) (\<lambda>r.
         if \<not> ifc_port_up ifc then ret [] else
         bnd (rx_cpl_loop (Suc (nat (cq_size cq))) cqi r (cq_cons_ptr cq)) (\<lambda>c.
         sq (upd_cq cqi (\<lambda>q. q\<lparr>cq_cons_ptr := c\<rparr>)) (ret [CqReport cqi, RxReclaim r])))))"

definition rx_refill_start :: "'h env \<Rightarrow> nat \<Rightarrow> ('h, frame list) drv" where
  "rx_refill_start E r =
     bnd (get_rxq r) (\<lambda>q.
     let missing = rxq_size q - (rxq_prod_ptr q - rxq_cons_ptr q) in
     if missing < 8 then ret [] else sq (rx_refill_loop E (nat missing) r) (ret [RxPublish r]))"

definition eq_scan :: "nat \<Rightarrow> int \<Rightarrow> ('h, frame list) drv" where
  "eq_scan e c =
     bnd (get_eq e) (\<lambda>q.
     bnd (the_buf (eq_buf q)) (\<lambda>b.
     bnd (mem_unpack ev_fmt b ((c AND eq_size_mask q) * eq_stride q)) (\<lambda>ev.
     if (last ev AND 0x80000000 \<noteq> 0) = (c AND eq_size q \<noteq> 0)
     then sq (upd_eq e (\<lambda>q. q\<lparr>eq_cons_ptr := c\<rparr>)) (ret [EqReport e])
     else if ev ! 0 = MQNIC_EVENT_TYPE_CPL then
       (case eq_cq_table q (ev ! 1) of
          None \<Rightarrow> throw KeyError
        | Some cqi \<Rightarrow> ret [Handle cqi, CqArm cqi, EqScan e (c + 1)])
     else ret [EqScan e (c + 1)])))"

fun frame_run :: "'h env \<Rightarrow> frame \<Rightarrow> ('h, frame list) drv" where
  "frame_run E (Xmit r data csum rank) = xmit_step E r data csum rank"
| "frame_run E (XmitWait r data csum rank) = ret [Xmit r data csum rank]"
| "frame_run E (Publish r) = sq (Txq_publish E r) (ret [])"
| "frame_run E (Announce r rank) = sq (Txq_announce E r rank 1) (ret [])"
| "frame_run E (Handle c) = cq_start c"
| "frame_run E (CqReport c) = sq (Cq_write_cons_ptr E c) (ret [])"
| "frame_run E (CqArm c) = sq (Cq_arm E c) (ret [])"
| "frame_run E (TxReclaim r) = sq (Txq_reclaim r) (ret [])"
| "frame_run E (RxReclaim r) = sq (Rxq_reclaim r) (rx_refill_start E r)"
| "frame_run E (RxPublish r) = sq (Rxq_write_prod_ptr E r) (ret [])"
| "frame_run E (EqEnter e) =
     bnd (get_eq e) (\<lambda>q.
     bnd (get_if (eq_interface q)) (\<lambda>ifc.
     ret (if ifc_port_up ifc then [EqScan e (eq_cons_ptr q)] else [])))"
| "frame_run E (EqScan e c) = eq_scan e c"
| "frame_run E (EqReport e) = sq (Eq_write_cons_ptr E e) (ret [])"
| "frame_run E (EqArm e) = sq (Eq_arm E e) (ret [])"
| "frame_run E (Irq index) = bnd get_drv (\<lambda>d. ret (map (\<lambda>i. IrqIface i index) (drv_interfaces d)))"
| "frame_run E (IrqIface i index) = bnd (get_if i) (\<lambda>ifc. ret (map (\<lambda>e. IrqEq e index) (ifc_eq ifc)))"
| "frame_run E (IrqEq e index) =
     bnd (get_eq e) (\<lambda>q. ret (if eq_irq q = Some index then [EqEnter e, EqArm e] else []))"

text \<open>A sender waits until the ring's event is set.\<close>

fun suspended :: "'h world \<Rightarrow> frame \<Rightarrow> bool" where
  "suspended s (XmitWait r data csum rank) = (\<not> txq_clean_event (w_txqs s r))"
| "suspended s _ = False"

section \<open>Running together\<close>

text \<open>What a frame relies on: the rings it names are open, the request fits a packet buffer.\<close>

fun frame_ok :: "'h world \<Rightarrow> frame \<Rightarrow> bool" where
  "frame_ok s (Xmit r data csum rank) = (txq_hw_regs (w_txqs s r) \<noteq> None \<and> tx_request_ok data csum)"
| "frame_ok s (XmitWait r data csum rank) = (txq_hw_regs (w_txqs s r) \<noteq> None \<and> tx_request_ok data csum)"
| "frame_ok s (Publish r) = (txq_hw_regs (w_txqs s r) \<noteq> None)"
| "frame_ok s (Announce r rank) = (txq_hw_regs (w_txqs s r) \<noteq> None)"
| "frame_ok s (TxReclaim r) = (txq_hw_regs (w_txqs s r) \<noteq> None)"
| "frame_ok s (RxReclaim r) = (rxq_hw_regs (w_rxqs s r) \<noteq> None)"
| "frame_ok s (RxPublish r) = (rxq_hw_regs (w_rxqs s r) \<noteq> None)"
| "frame_ok s _ = True"

record 'h tasks =
  tk_w :: "'h world"
  tk_run :: "frame list list"

definition nic_moves :: "'h world \<Rightarrow> 'h world \<Rightarrow> bool" where
  "nic_moves s s' \<longleftrightarrow> (\<exists>h m. s' = s\<lparr>w_hw := h, w_mem := m\<rparr> \<and> same_sizes (w_mem s) m)"

inductive task_step :: "'h env \<Rightarrow> 'h tasks \<Rightarrow> 'h tasks \<Rightarrow> bool" for E where
  send: "frame_ok (tk_w c) (Xmit r data csum rank) \<Longrightarrow>
    task_step E c (c\<lparr>tk_run := [Xmit r data csum rank] # tk_run c\<rparr>)"
| irq: "task_step E c (c\<lparr>tk_run := [Irq index] # tk_run c\<rparr>)"
| run: "tk_run c = xs @ (f # fs) # ys \<Longrightarrow> \<not> suspended (tk_w c) f \<Longrightarrow> frame_run E f (tk_w c) = (Inr gs, s') \<Longrightarrow>
    task_step E c \<lparr>tk_w = s', tk_run = xs @ (gs @ fs) # ys\<rparr>"
| fail: "tk_run c = xs @ (f # fs) # ys \<Longrightarrow> \<not> suspended (tk_w c) f \<Longrightarrow> frame_run E f (tk_w c) = (Inl e, s') \<Longrightarrow>
    task_step E c \<lparr>tk_w = s', tk_run = xs @ ys\<rparr>"
| nic: "nic_moves (tk_w c) s' \<Longrightarrow> task_step E c (c\<lparr>tk_w := s'\<rparr>)"

inductive_cases task_stepE: "task_step E c c'"

inductive task_reach :: "'h env \<Rightarrow> 'h world \<Rightarrow> 'h tasks \<Rightarrow> bool" for E s0 where
  idle: "task_reach E s0 \<lparr>tk_w = s0, tk_run = []\<rparr>"
| more: "task_reach E s0 c \<Longrightarrow> task_step E c c' \<Longrightarrow> task_reach E s0 c'"

section \<open>The rings stay open\<close>

definition regs_are :: "(nat \<Rightarrow> window option) \<Rightarrow> (nat \<Rightarrow> window option) \<Rightarrow> 'h world \<Rightarrow> bool" where
  "regs_are T R s \<longleftrightarrow> (\<forall>r. txq_hw_regs (w_txqs s r) = T r) \<and> (\<forall>r. rxq_hw_regs (w_rxqs s r) = R r)"

lemma regs_are_self: "regs_are (\<lambda>r. txq_hw_regs (w_txqs s r)) (\<lambda>r. rxq_hw_regs (w_rxqs s r)) s"
  by (simp add: regs_are_def)

lemma keeps_regs_basic [keeps_intros]:
  "keeps (regs_are T R) (write_dword E w a v)" "keeps (regs_are T R) (free_pkt pk)"
  "keeps (regs_are T R) (alloc_pkt E)" "keeps (regs_are T R) (mem_pack fs b off vs)"
  "keeps (regs_are T R) (mem_store b off bs)" "keeps (regs_are T R) (upd_cq c f)"
  "keeps (regs_are T R) (upd_eq e g)" "keeps (regs_are T R) (upd_if i h)"
  by (auto simp: keeps_def regs_are_def run_simps free_pkt_def alloc_pkt_def alloc_region_def mem_pack_def
      mem_store_def split: option.split list.split sum.split)

lemma keeps_regs_tx:
  "(\<And>q. txq_hw_regs (f q) = txq_hw_regs q) \<Longrightarrow> keeps (regs_are T R) (upd_txq r f)"
  "(\<And>q. rxq_hw_regs (g q) = rxq_hw_regs q) \<Longrightarrow> keeps (regs_are T R) (upd_rxq r g)"
  by (auto simp: keeps_def regs_are_def run_simps)

lemma keeps_regs_loops [keeps_intros]:
  "keeps (regs_are T R) (desc_loop fmt pre dbs b base ptr len off ks)"
  "keeps (regs_are T R) (Txq_free_desc r ix)" "keeps (regs_are T R) (Rxq_free_desc r ix)"
proof -
  show "keeps (regs_are T R) (desc_loop fmt pre dbs b base ptr len off ks)"
  proof (induction ks arbitrary: off)
    case (Cons k ks)
    show ?case unfolding desc_loop.simps Let_def by (intro keeps_intros Cons.IH)
  qed (unfold desc_loop.simps, rule keeps_ret)
qed (unfold Txq_free_desc_def Rxq_free_desc_def get_txq_def get_rxq_def,
    (intro keeps_intros keeps_regs_tx; simp)+)

lemma keeps_regs_cpl [keeps_intros]:
  "keeps (regs_are T R) (tx_cpl_loop n c r p)" "keeps (regs_are T R) (rx_cpl_loop n c r p)"
proof -
  show "keeps (regs_are T R) (tx_cpl_loop n c r p)"
  proof (induction n arbitrary: p)
    case (Suc n)
    show ?case unfolding tx_cpl_loop.simps Let_def get_txq_def get_cq_def by (intro keeps_intros Suc.IH)
  qed (simp add: keeps_throw)
  show "keeps (regs_are T R) (rx_cpl_loop n c r p)"
  proof (induction n arbitrary: p)
    case (Suc n)
    show ?case unfolding rx_cpl_loop.simps Let_def get_rxq_def get_cq_def by (intro keeps_intros still_option Suc.IH)
  qed (simp add: keeps_throw)
qed

lemma keeps_regs_post [keeps_intros]: "keeps (regs_are T R) (Txq_post E r data csum)"
  unfolding Txq_post_def Let_def get_txq_def by (intro keeps_intros keeps_regs_tx; simp)

lemma keeps_regs_refill [keeps_intros]: "keeps (regs_are T R) (rx_refill_loop E n r)"
proof (induction n)
  case (Suc n)
  show ?case unfolding rx_refill_loop.simps Rxq_prepare_desc_def get_rxq_def
    by (intro keeps_intros keeps_regs_tx Suc.IH; simp)
qed (unfold rx_refill_loop.simps, rule keeps_ret)

lemma keeps_regs_src [keeps_intros]: "keeps I (src_txq x)" "keeps I (src_rxq x)"
  by (rule still_src)+

lemma keeps_regs_start [keeps_intros]:
  "keeps (regs_are T R) (cq_start c)" "keeps (regs_are T R) (rx_refill_start E r)"
  "keeps (regs_are T R) (eq_scan e p)"
proof -
  show "keeps (regs_are T R) (cq_start c)"
    unfolding cq_start_def get_cq_def get_if_def
    by (intro keeps_intros still_option) (auto intro!: keeps_intros split: cq_handler.split)
  show "keeps (regs_are T R) (rx_refill_start E r)"
    unfolding rx_refill_start_def get_rxq_def Let_def by (intro keeps_intros)
  show "keeps (regs_are T R) (eq_scan e p)"
    unfolding eq_scan_def get_eq_def by (intro keeps_intros still_option)
qed

lemma frame_run_regs: "keeps (regs_are T R) (frame_run E f)"
proof (cases f)
  case (Xmit r data csum rank)
  show ?thesis unfolding Xmit frame_run.simps xmit_step_def get_txq_def by (intro keeps_intros keeps_regs_tx; simp)
qed (simp_all add: get_txq_def get_rxq_def get_eq_def get_if_def get_cq_def get_drv_def Txq_publish_def Txq_announce_def
    Cq_write_cons_ptr_def Cq_arm_def Txq_reclaim_def Rxq_reclaim_def Rxq_write_prod_ptr_def
    Eq_write_cons_ptr_def Eq_arm_def, (intro keeps_intros still_option keeps_regs_tx; simp)+)

section \<open>Every frame keeps the invariant\<close>

lemma tx_cpl_run_inv:
  assumes inv: "run_inv s" and src: "cq_src_ring (w_cqs s c) = Some (TxRing r)"
    and run: "tx_cpl_loop (Suc (nat (cq_size (w_cqs s c)))) c r (cq_cons_ptr (w_cqs s c)) s = (q, s')"
  shows "run_inv s' \<and> q \<noteq> Inl NoFuel"
proof -
  from run_inv_attached [OF inv src] obtain k b kr n br where
      cq: "cq_ring c k b s" and ring: "txq_ring r kr n br s" by blast
  from tx_cpl_loop_spec [where c = "cq_cons_ptr (w_cqs s c)", OF cq ring run_invD(1) [OF inv] cq_fuel [OF cq]] run
  have "tx_released r s s'" "txq_ring r kr n br s'" "bufs_inv s'" "q \<noteq> Inl NoFuel"
    by (auto simp del: tx_cpl_loop.simps)
  with run_inv_released [OF inv] show ?thesis by blast
qed

lemma rx_cpl_run_inv:
  assumes inv: "run_inv s" and src: "cq_src_ring (w_cqs s c) = Some (RxRing r)"
    and run: "rx_cpl_loop (Suc (nat (cq_size (w_cqs s c)))) c r (cq_cons_ptr (w_cqs s c)) s = (q, s')"
  shows "run_inv s' \<and> q \<noteq> Inl NoFuel"
proof -
  from run_inv_attached_rx [OF inv src] obtain k b kr n br w where
      cq: "cq_ring c k b s" and ring: "rxq_ring r kr n br s" by blast
  from rx_cpl_loop_spec [where c = "cq_cons_ptr (w_cqs s c)", OF cq ring run_invD(1) [OF inv] cq_fuel [OF cq]] run
  have "rx_progress r (cq_interface (w_cqs s c)) s s'" "rxq_ring r kr n br s'" "bufs_inv s'" "q \<noteq> Inl NoFuel"
    by (auto simp del: rx_cpl_loop.simps)
  with run_inv_progress [OF inv] show ?thesis by blast
qed

text \<open>What a completion handler has left to do after its first part.\<close>

lemma cq_start_inv:
  assumes inv: "run_inv s" and run: "cq_start c s = (res, s')"
  shows "run_inv s' \<and> res \<noteq> Inl NoFuel \<and>
    (\<forall>gs. res = Inr gs \<longrightarrow> gs = [] \<or> (\<exists>r. gs = [CqReport c, TxReclaim r] \<and> txq_hw_regs (w_txqs s r) \<noteq> None) \<or>
       (\<exists>r. gs = [CqReport c, RxReclaim r] \<and> rxq_hw_regs (w_rxqs s r) \<noteq> None))"
proof -
  note att = run_invD(5) [OF inv, of c]
  consider (none) "s' = s" "res \<noteq> Inl NoFuel" "\<forall>gs. res = Inr gs \<longrightarrow> gs = []"
    | (tx) r q s1 where "cq_src_ring (w_cqs s c) = Some (TxRing r)"
        "tx_cpl_loop (Suc (nat (cq_size (w_cqs s c)))) c r (cq_cons_ptr (w_cqs s c)) s = (q, s1)"
        "(case q of Inl e \<Rightarrow> (Inl e, s1)
          | Inr p \<Rightarrow> (Inr [CqReport c, TxReclaim r],
              s1\<lparr>w_cqs := (w_cqs s1)(c := (w_cqs s1 c)\<lparr>cq_cons_ptr := p\<rparr>)\<rparr>)) = (res, s')"
    | (rx) r q s1 where "cq_src_ring (w_cqs s c) = Some (RxRing r)"
        "rx_cpl_loop (Suc (nat (cq_size (w_cqs s c)))) c r (cq_cons_ptr (w_cqs s c)) s = (q, s1)"
        "(case q of Inl e \<Rightarrow> (Inl e, s1)
          | Inr p \<Rightarrow> (Inr [CqReport c, RxReclaim r],
              s1\<lparr>w_cqs := (w_cqs s1)(c := (w_cqs s1 c)\<lparr>cq_cons_ptr := p\<rparr>)\<rparr>)) = (res, s')"
    using run
    by (fastforce simp: cq_start_def run_bnd run_sq get_cq_def get_if_def src_txq_def src_rxq_def upd_cq_def
        simp del: tx_cpl_loop.simps rx_cpl_loop.simps
        split: option.splits cq_handler.splits ring_ref.splits if_splits prod.splits sum.splits)
  then show ?thesis
  proof cases
    case none with inv show ?thesis by auto
  next
    case tx
    with tx_cpl_run_inv [OF inv tx(1,2)] att show ?thesis
      by (auto simp: cq_attached_def intro: run_inv_cqs_cons split: sum.splits)
  next
    case rx
    with rx_cpl_run_inv [OF inv rx(1,2)] att show ?thesis
      by (auto simp: cq_attached_def intro: run_inv_cqs_cons split: sum.splits)
  qed
qed

lemma rx_refill_start_inv:
  assumes dev: "device_ok E" and inv: "run_inv s" and open': "rxq_hw_regs (w_rxqs s r) \<noteq> None"
    and run: "rx_refill_start E r s = (res, s')"
  shows "run_inv s' \<and> (res = Inr [] \<or> res = Inr [RxPublish r] \<or> res = Inl PoolError)"
proof -
  from run_invD(4) [OF inv open'] obtain k n b where ring: "rxq_ring r k n b s" by blast
  let ?q = "w_rxqs s r" let ?m = "rxq_size ?q - (rxq_prod_ptr ?q - rxq_cons_ptr ?q)"
  show ?thesis
  proof (cases "?m < 8")
    case True
    with run inv show ?thesis by (simp add: rx_refill_start_def run_bnd get_rxq_def)
  next
    case False
    then have "rxq_prod_ptr ?q + int (nat ?m) \<le> rxq_cons_ptr ?q + 2 ^ k"
      using ring by (simp add: rxq_ring_def Let_def)
    from rx_refill_loop_ok [OF ring run_invD(1) [OF inv] dev run_invD(2) [OF inv] this] obtain q s1 where
        s1: "rx_refill_loop E (nat ?m) r s = (q, s1)" "rx_fill_frame r s s1" "rxq_ring r k n b s1" "bufs_inv s1"
        "packets_ok s1" "q = Inr () \<or> q = Inl PoolError"
      by blast
    have "run_inv s1"
      by (rule run_inv_rx [OF inv s1(3-5)]) (use s1(2) in \<open>simp_all add: rx_fill_frame_def rx_frame_def\<close>)
    moreover have "rx_refill_start E r s = sq (\<lambda>_. (q, s1)) (ret [RxPublish r]) s"
      using False s1(1) by (simp add: rx_refill_start_def run_bnd run_sq get_rxq_def Let_def)
    ultimately show ?thesis using run s1(6) by (auto simp: run_sq)
  qed
qed

lemma ends_eq_scan: "ends run_inv (eq_scan e c)"
proof (rule endsI)
  fix s :: "'a world" and res s' assume "run_inv s" "eq_scan e c s = (res, s')"
  then show "run_inv s' \<and> res \<noteq> Inl NoFuel"
    by (auto simp: eq_scan_def run_simps the_buf_def mem_unpack_def unpack_from_def run_frame_def
        elim!: run_inv_frame split: option.splits if_splits sum.splits)
qed

text \<open>The frames in which the driver works on its own rings; the others follow entries the NIC wrote.\<close>

fun own_frame :: "frame \<Rightarrow> bool" where
  "own_frame (Handle c) = False"
| "own_frame (CqReport c) = False"
| "own_frame (EqScan e c) = False"
| "own_frame (EqReport e) = False"
| "own_frame _ = True"

definition frame_good :: "'h world \<Rightarrow> frame \<Rightarrow> exn + frame list \<Rightarrow> 'h world \<Rightarrow> bool" where
  "frame_good s f res s' \<longleftrightarrow> run_inv s' \<and> res \<noteq> Inl NoFuel \<and>
     (\<forall>gs. res = Inr gs \<longrightarrow> list_all (frame_ok s) gs) \<and>
     (own_frame f \<longrightarrow> (\<exists>gs. res = Inr gs) \<or> res = Inl PoolError)"

lemma frame_good_ret: "run_inv s' \<Longrightarrow> list_all (frame_ok s) gs \<Longrightarrow> frame_good s f (Inr gs) s'"
  by (simp add: frame_good_def)

lemma ends_last:
  assumes "ends run_inv m" "run_inv s" "sq m (ret []) s = (res, s')"
  shows "run_inv s' \<and> res \<noteq> Inl NoFuel \<and> (\<forall>gs. res = Inr gs \<longrightarrow> gs = [])"
  using assms by (auto simp: run_sq dest: endsD split: prod.splits sum.splits)

lemma frame_good_xmit:
  assumes dev: "device_ok E" and inv: "run_inv s" and ok: "frame_ok s (Xmit r data csum rank)"
    and run: "frame_run E (Xmit r data csum rank) s = (res, s')"
  shows "frame_good s (Xmit r data csum rank) res s'"
proof (cases "Txq_full (w_txqs s r)")
  case True
  then have "res = Inr [XmitWait r data csum rank]"
      "s' = s\<lparr>w_txqs := (w_txqs s)(r := (w_txqs s r)\<lparr>txq_clean_event := False\<rparr>)\<rparr>"
    using run by (auto simp: xmit_step_def run_simps Txq_full_def)
  moreover have "run_inv (s\<lparr>w_txqs := (w_txqs s)(r := (w_txqs s r)\<lparr>txq_clean_event := False\<rparr>)\<rparr>)"
    by (rule run_inv_txq_attr [OF inv]) simp_all
  ultimately show ?thesis using ok by (simp add: frame_good_def)
next
  case False
  from ok have "txq_hw_regs (w_txqs s r) \<noteq> None" "tx_request_ok data csum" by simp_all
  from Txq_post_run_inv [OF dev inv this(1) False this(2)] obtain q s1 where
      "Txq_post E r data csum s = (q, s1)" "run_inv s1" "q = Inr () \<or> q = Inl PoolError" by blast
  moreover from this have "frame_run E (Xmit r data csum rank) s = sq (\<lambda>_. (q, s1)) (ret [Publish r, Announce r rank]) s"
    using False by (simp add: xmit_step_def run_bnd run_sq get_txq_def Txq_full_def)
  ultimately show ?thesis using run ok by (auto simp: frame_good_def run_sq)
qed

lemma frame_good_tx_reclaim:
  assumes inv: "run_inv s" and ok: "frame_ok s (TxReclaim r)" and run: "frame_run E (TxReclaim r) s = (res, s')"
  shows "frame_good s (TxReclaim r) res s'"
proof -
  from ok run_invD(3) [OF inv, of r] obtain k n b where "txq_ring r k n b s" by auto
  from txq_reclaim [OF this] obtain c where
      c: "Txq_reclaim r s = (Inr (), tx_cons_set r c s)" "txq_ring r k n b (tx_cons_set r c s)" by blast
  have "run_inv (tx_cons_set r c s)" using inv c(2) by (rule run_inv_tx_cons)
  with c(1) run show ?thesis by (auto simp: frame_good_def run_sq)
qed

lemma frame_good_rx_reclaim:
  assumes dev: "device_ok E" and inv: "run_inv s" and ok: "frame_ok s (RxReclaim r)"
    and run: "frame_run E (RxReclaim r) s = (res, s')"
  shows "frame_good s (RxReclaim r) res s'"
proof -
  from ok run_invD(4) [OF inv, of r] obtain k n b where "rxq_ring r k n b s" by auto
  from rxq_reclaim [OF this] obtain c where
      c: "Rxq_reclaim r s = (Inr (), rx_cons_set r c s)" "rxq_ring r k n b (rx_cons_set r c s)" by blast
  have i1: "run_inv (rx_cons_set r c s)" using inv c(2) by (rule run_inv_rx_cons)
  have "rxq_hw_regs (w_rxqs (rx_cons_set r c s) r) \<noteq> None" using ok by simp
  moreover have "rx_refill_start E r (rx_cons_set r c s) = (res, s')" using run c(1) by (simp add: run_sq)
  ultimately show ?thesis
    using rx_refill_start_inv [OF dev i1] ok by (fastforce simp: frame_good_def)
qed

lemma frame_run_good:
  assumes dev: "device_ok E" and inv: "run_inv s" and ok: "frame_ok s f" and run: "frame_run E f s = (res, s')"
  shows "frame_good s f res s'"
proof (cases f)
  case (Xmit r data csum rank)
  with frame_good_xmit dev inv ok run show ?thesis by blast
next
  case (Handle c)
  with cq_start_inv [OF inv, of c res s'] run show ?thesis by (auto simp: frame_good_def)
next
  case (TxReclaim r)
  with frame_good_tx_reclaim inv ok run show ?thesis by blast
next
  case (RxReclaim r)
  with frame_good_rx_reclaim dev inv ok run show ?thesis by blast
next
  case (EqScan e c)
  with run have r: "eq_scan e c s = (res, s')" by simp
  then have "\<forall>gs. res = Inr gs \<longrightarrow> list_all (frame_ok s) gs"
    by (auto simp: eq_scan_def run_simps split: sum.splits prod.splits if_splits option.splits)
  with EqScan endsD [OF ends_eq_scan inv r] show ?thesis by (simp add: frame_good_def)
next
  case (Publish r)
  have "ends run_inv (Txq_publish E r)"
    unfolding Txq_publish_def get_txq_def using dev by (intro ends_intros)
  from ends_last [OF this inv] Publish run ok show ?thesis
    by (auto simp: frame_good_def Txq_publish_def run_simps)
next
  case (Announce r rank)
  have "ends run_inv (Txq_announce E r rank 1)"
    unfolding Txq_announce_def get_txq_def using dev by (intro ends_intros)
  from ends_last [OF this inv] Announce run ok show ?thesis
    by (auto simp: frame_good_def Txq_announce_def run_simps)
next
  case (RxPublish r)
  have "ends run_inv (Rxq_write_prod_ptr E r)"
    unfolding Rxq_write_prod_ptr_def get_rxq_def using dev by (intro ends_intros)
  from ends_last [OF this inv] RxPublish run ok show ?thesis
    by (auto simp: frame_good_def Rxq_write_prod_ptr_def run_simps)
next
  case (CqReport c)
  with ends_last [OF ends_run_cq_write [OF dev] inv, of c res s'] run show ?thesis
    by (auto simp: frame_good_def)
next
  case (EqReport e)
  with ends_last [OF ends_run_eq_write [OF dev] inv, of e res s'] run show ?thesis
    by (auto simp: frame_good_def)
next
  case (CqArm c)
  with run have r: "sq (Cq_arm E c) (ret []) s = (res, s')" by simp
  then have "res = Inr []" by (auto simp: Cq_arm_def run_simps split: option.splits)
  moreover from ends_last [OF ends_run_cq_arm [OF dev] inv r] have "run_inv s'" by blast
  ultimately show ?thesis by (simp add: frame_good_ret)
next
  case (EqArm e)
  with run have r: "sq (Eq_arm E e) (ret []) s = (res, s')" by simp
  then have "res = Inr []" by (auto simp: Eq_arm_def run_simps split: option.splits)
  moreover from ends_last [OF ends_run_eq_arm [OF dev] inv r] have "run_inv s'" by blast
  ultimately show ?thesis by (simp add: frame_good_ret)
next
  case (XmitWait r data csum rank)
  with run have "res = Inr [Xmit r data csum rank]" "s' = s" by simp_all
  with inv ok XmitWait show ?thesis by (simp add: frame_good_ret)
next
  case (EqEnter e)
  with run have "s' = s" "res = Inr [] \<or> res = Inr [EqScan e (eq_cons_ptr (w_eqs s e))]"
    by (auto simp: run_bnd get_eq_def get_if_def split: if_splits)
  with inv show ?thesis by (auto intro!: frame_good_ret)
next
  case (Irq index)
  with run have "s' = s" "\<exists>is. res = Inr (map (\<lambda>i. IrqIface i index) is)" by (auto simp: run_bnd get_drv_def)
  with inv show ?thesis by (auto simp: list_all_iff intro!: frame_good_ret)
next
  case (IrqIface i index)
  with run have "s' = s" "\<exists>es. res = Inr (map (\<lambda>e. IrqEq e index) es)" by (auto simp: run_bnd get_if_def)
  with inv show ?thesis by (auto simp: list_all_iff intro!: frame_good_ret)
next
  case (IrqEq e index)
  with run have "s' = s" "res = Inr [] \<or> res = Inr [EqEnter e, EqArm e]"
    by (auto simp: run_bnd get_eq_def split: if_splits)
  with inv show ?thesis by (auto intro!: frame_good_ret)
qed

text \<open>So at every moment the invariant holds and every frame has what it relies on.\<close>

definition tasks_ok :: "'h tasks \<Rightarrow> bool" where
  "tasks_ok c \<longleftrightarrow> run_inv (tk_w c) \<and> (\<forall>fs \<in> set (tk_run c). list_all (frame_ok (tk_w c)) fs)"

lemma frame_ok_cong:
  assumes "\<And>r. txq_hw_regs (w_txqs s' r) = txq_hw_regs (w_txqs s r)"
    and "\<And>r. rxq_hw_regs (w_rxqs s' r) = rxq_hw_regs (w_rxqs s r)"
  shows "frame_ok s' f = frame_ok s f"
  using assms by (cases f) simp_all

lemma frame_run_ok: "frame_run E f s = (res, s') \<Longrightarrow> frame_ok s' g = frame_ok s g"
  using keeps_run [OF frame_run_regs regs_are_self, of E f s res s'] unfolding regs_are_def
  by (intro frame_ok_cong) simp_all

lemma tasks_ok_step:
  assumes dev: "device_ok E" and ok: "tasks_ok c" and step: "task_step E c c'"
  shows "tasks_ok c'"
  using step
proof (cases rule: task_step.cases)
  case send then show ?thesis using ok by (simp add: tasks_ok_def)
next
  case irq then show ?thesis using ok by (simp add: tasks_ok_def)
next
  case (run xs f fs ys gs s')
  have "frame_ok (tk_w c) f" using ok run(2) by (simp add: tasks_ok_def)
  with frame_run_good [OF dev _ this run(4)] ok have "frame_good (tk_w c) f (Inr gs) s'" by (simp add: tasks_ok_def)
  with ok run(1,2) show ?thesis
    by (auto simp: tasks_ok_def frame_good_def list_all_iff frame_run_ok [OF run(4)])
next
  case (fail xs f fs ys e s')
  have "frame_ok (tk_w c) f" using ok fail(2) by (simp add: tasks_ok_def)
  with frame_run_good [OF dev _ this fail(4)] ok have "frame_good (tk_w c) f (Inl e) s'" by (simp add: tasks_ok_def)
  with ok fail(1,2) show ?thesis
    by (auto simp: tasks_ok_def frame_good_def list_all_iff frame_run_ok [OF fail(4)])
next
  case (nic s')
  then have "run_inv s'" "\<And>f. frame_ok s' f = frame_ok (tk_w c) f"
    using ok by (auto simp: tasks_ok_def nic_moves_def run_frame_def intro!: frame_ok_cong elim!: run_inv_frame)
  with ok nic(1) show ?thesis by (simp add: tasks_ok_def list_all_iff)
qed

lemma task_reach_ok: "task_reach E s0 c \<Longrightarrow> device_ok E \<Longrightarrow> run_inv s0 \<Longrightarrow> tasks_ok c"
  by (induction rule: task_reach.induct) (auto simp: tasks_ok_def [of "\<lparr>tk_w = s0, tk_run = []\<rparr>"] intro: tasks_ok_step)

section \<open>A coroutine that is left alone\<close>

inductive runs :: "'h env \<Rightarrow> frame list \<Rightarrow> 'h world \<Rightarrow> exn + unit \<Rightarrow> 'h world \<Rightarrow> bool" for E where
  stop: "runs E [] s (Inr ()) s"
| on: "\<not> suspended s f \<Longrightarrow> frame_run E f s = (Inr gs, s1) \<Longrightarrow> runs E (gs @ fs) s1 res s' \<Longrightarrow>
    runs E (f # fs) s res s'"
| raise: "\<not> suspended s f \<Longrightarrow> frame_run E f s = (Inl e, s') \<Longrightarrow> runs E (f # fs) s (Inl e) s'"

lemma runs_append: "runs E fs s (Inr ()) s1 \<Longrightarrow> runs E gs s1 res s' \<Longrightarrow> runs E (fs @ gs) s res s'"
  by (induction fs s "Inr () :: exn + unit" s1 rule: runs.induct) (auto intro: runs.on)

lemma runs_append_raise: "runs E fs s (Inl e) s' \<Longrightarrow> runs E (fs @ gs) s (Inl e) s'"
  by (induction fs s "Inl e :: exn + unit" s' rule: runs.induct) (auto intro: runs.on runs.raise)

text \<open>The frames \<open>fs\<close>, run one after the other, do what the operation \<open>m\<close> does.\<close>

definition implements :: "'h env \<Rightarrow> frame list \<Rightarrow> ('h, unit) drv \<Rightarrow> bool" where
  "implements E fs m \<longleftrightarrow> (\<forall>s res s'. m s = (res, s') \<longrightarrow> res \<noteq> Inl NoFuel \<longrightarrow> runs E fs s res s')"

lemma implements_ret: "implements E [] (ret ())"
  by (auto simp: implements_def intro: runs.stop)

lemma implements_sq:
  assumes "implements E fs m" "implements E gs n"
  shows "implements E (fs @ gs) (sq m n)"
  unfolding implements_def
proof (intro allI impI)
  fix s res s' assume run: "sq m n s = (res, s')" and res: "res \<noteq> Inl NoFuel"
  obtain q s1 where q: "m s = (q, s1)" by (cases "m s")
  show "runs E (fs @ gs) s res s'"
  proof (cases q)
    case (Inl e)
    with q run res assms(1) show ?thesis by (auto simp: implements_def run_sq intro: runs_append_raise)
  next
    case (Inr u)
    with q run res assms have "runs E fs s (Inr ()) s1" "runs E gs s1 res s'" by (auto simp: implements_def run_sq)
    then show ?thesis by (rule runs_append)
  qed
qed

lemma implements_forM: "(\<And>x. implements E (F x) (f x)) \<Longrightarrow> implements E (concat (map F xs)) (forM xs f)"
  by (induction xs) (auto intro: implements_ret implements_sq)

text \<open>One frame: what it leaves is done by some operation that ends as \<open>m\<close> does.\<close>

lemma implements_frame:
  fixes E :: "'h env"
  assumes free: "\<And>s :: 'h world. \<not> suspended s f"
    and raise: "\<And>s e s1. frame_run E f s = (Inl e, s1) \<Longrightarrow> m s = (Inl e, s1)"
    and on: "\<And>s gs s1. frame_run E f s = (Inr gs, s1) \<Longrightarrow> \<exists>n. implements E gs n \<and> m s = n s1"
  shows "implements E [f] m"
  unfolding implements_def
proof (intro allI impI)
  fix s res s' assume run: "m s = (res, s')" and res: "res \<noteq> Inl NoFuel"
  obtain q s1 where q: "frame_run E f s = (q, s1)" by (cases "frame_run E f s")
  show "runs E [f] s res s'"
  proof (cases q)
    case (Inl e)
    with q raise [of s e s1] run have "res = Inl e" "s' = s1" "frame_run E f s = (Inl e, s1)" by simp_all
    from runs.raise [OF free this(3)] this(1,2) show ?thesis by simp
  next
    case (Inr gs)
    with q on [of s gs s1] obtain n where "implements E gs n" "m s = n s1" by blast
    with run res have "runs E (gs @ []) s1 res s'" by (simp add: implements_def)
    with q Inr free show ?thesis by (blast intro: runs.on)
  qed
qed

lemma implements_last:
  fixes E :: "'h env"
  assumes "frame_run E f = sq m (ret [])" "\<And>s :: 'h world. \<not> suspended s f"
  shows "implements E [f] m"
proof (rule implements_frame [OF assms(2)])
  fix s e s1 assume "frame_run E f s = (Inl e, s1)"
  then show "m s = (Inl e, s1)" by (auto simp: assms(1) run_sq split: prod.splits sum.splits)
next
  fix s gs s1 assume "frame_run E f s = (Inr gs, s1)"
  then have "gs = []" "m s = ret () s1" by (auto simp: assms(1) run_sq split: prod.splits sum.splits)
  then show "\<exists>n. implements E gs n \<and> m s = n s1" using implements_ret by blast
qed

lemma implements_steps:
  "implements E [Publish r] (Txq_publish E r)" "implements E [Announce r rank] (Txq_announce E r rank 1)"
  "implements E [CqReport c] (Cq_write_cons_ptr E c)" "implements E [CqArm c] (Cq_arm E c)"
  "implements E [TxReclaim r] (Txq_reclaim r)" "implements E [RxPublish r] (Rxq_write_prod_ptr E r)"
  "implements E [EqReport e] (Eq_write_cons_ptr E e)" "implements E [EqArm e] (Eq_arm E e)"
  by (rule implements_last; simp)+

lemma implements_tx:
  "implements E [Publish r, Announce r rank] (Txq_write_prod_ptr E r rank 1)"
  using implements_sq [OF implements_steps(1,2), of E r r rank] by (simp add: Txq_write_prod_ptr_halves)

text \<open>With room in the ring a sender posts, publishes and announces.\<close>

lemma runs_xmit:
  assumes room: "\<not> Txq_full (w_txqs s r)" and run: "xmit_attempt E r data csum rank s = (res, s')"
    and res: "res \<noteq> Inl NoFuel"
  shows "runs E [Xmit r data csum rank] s (map_sum id (\<lambda>_. ()) res) s'"
proof -
  obtain q s1 where q: "Txq_post E r data csum s = (q, s1)" by (cases "Txq_post E r data csum s")
  have fr: "frame_run E (Xmit r data csum rank) s = sq (Txq_post E r data csum) (ret [Publish r, Announce r rank]) s"
    and at: "xmit_attempt E r data csum rank s = sq (sq (Txq_post E r data csum) (Txq_write_prod_ptr E r rank 1)) (ret Sent) s"
    using room by (simp_all add: xmit_step_def run_bnd get_txq_def Txq_full_def xmit_attempt_def Txq_tx_transmit_def)
  show ?thesis
  proof (cases q)
    case (Inl e)
    with fr q have "frame_run E (Xmit r data csum rank) s = (Inl e, s1)" by (simp add: run_sq)
    moreover have "res = Inl e" "s' = s1" using at q Inl run by (simp_all add: run_sq)
    ultimately show ?thesis by (simp add: runs.raise)
  next
    case (Inr u)
    with fr q have fr': "frame_run E (Xmit r data csum rank) s = (Inr [Publish r, Announce r rank], s1)" by (simp add: run_sq)
    obtain p s2 where p: "Txq_write_prod_ptr E r rank 1 s1 = (p, s2)" by (cases "Txq_write_prod_ptr E r rank 1 s1")
    with at q Inr run have "map_sum id (\<lambda>_. ()) res = p" "s' = s2"
      by (auto simp: run_sq split: sum.splits)
    moreover from this res have "p \<noteq> Inl NoFuel" by (cases res) auto
    ultimately have "runs E ([Publish r, Announce r rank] @ []) s1 (map_sum id (\<lambda>_. ()) res) s'"
      using implements_tx [of E r rank] p by (simp add: implements_def)
    with fr' show ?thesis by (intro runs.on) auto
  qed
qed

text \<open>The completion handlers.\<close>

lemma implements_refill: "implements E [RxReclaim r] (sq (Rxq_reclaim r) (Rxq_refill_buffers E r))"
proof (rule implements_frame)
  fix s e s1 assume "frame_run E (RxReclaim r) s = (Inl e, s1)"
  then show "sq (Rxq_reclaim r) (Rxq_refill_buffers E r) s = (Inl e, s1)"
    by (auto simp: rx_refill_start_def Rxq_refill_buffers_def run_simps Let_def split: prod.splits sum.splits if_splits)
next
  fix s gs s1 assume "frame_run E (RxReclaim r) s = (Inr gs, s1)"
  then have "gs = [] \<and> sq (Rxq_reclaim r) (Rxq_refill_buffers E r) s = ret () s1 \<or>
      gs = [RxPublish r] \<and> sq (Rxq_reclaim r) (Rxq_refill_buffers E r) s = Rxq_write_prod_ptr E r s1"
    by (auto simp: rx_refill_start_def Rxq_refill_buffers_def run_simps Let_def split: prod.splits sum.splits if_splits)
  with implements_ret implements_steps(6)
  show "\<exists>n. implements E gs n \<and> sq (Rxq_reclaim r) (Rxq_refill_buffers E r) s = n s1" by metis
qed simp

lemma cq_handle_start:
  "cq_handle E c s = (case cq_start c s of
     (Inl e, s1) \<Rightarrow> (Inl e, s1)
   | (Inr gs, s1) \<Rightarrow>
      (case gs of
         [_, TxReclaim r] \<Rightarrow> sq (Cq_write_cons_ptr E c) (Txq_reclaim r) s1
       | [_, RxReclaim r] \<Rightarrow> sq (Cq_write_cons_ptr E c) (sq (Rxq_reclaim r) (Rxq_refill_buffers E r)) s1
       | _ \<Rightarrow> ret () s1))"
  by (simp add: cq_handle_def cq_start_def Txq_process_tx_cq_def Rxq_process_rx_cq_def run_bnd run_sq
      get_cq_def get_if_def src_txq_def src_rxq_def upd_cq_def
      del: tx_cpl_loop.simps rx_cpl_loop.simps
      split: option.split cq_handler.split ring_ref.split prod.split sum.split)

lemma cq_start_frames:
  "cq_start c s = (Inr gs, s1) \<Longrightarrow>
   gs = [] \<or> (\<exists>r. gs = [CqReport c, TxReclaim r]) \<or> (\<exists>r. gs = [CqReport c, RxReclaim r])"
  by (auto simp: cq_start_def run_bnd run_sq get_cq_def get_if_def src_txq_def src_rxq_def upd_cq_def
      simp del: tx_cpl_loop.simps rx_cpl_loop.simps
      split: option.splits cq_handler.splits ring_ref.splits prod.splits sum.splits if_splits)

lemma implements_handle: "implements E [Handle c] (cq_handle E c)"
proof (rule implements_frame)
  fix s e s1 assume "frame_run E (Handle c) s = (Inl e, s1)"
  then show "cq_handle E c s = (Inl e, s1)" by (simp add: cq_handle_start)
next
  fix s gs s1 assume run: "frame_run E (Handle c) s = (Inr gs, s1)"
  from run cq_start_frames [of c s gs s1]
  consider "gs = []" | r where "gs = [CqReport c, TxReclaim r]" | r where "gs = [CqReport c, RxReclaim r]" by auto
  then show "\<exists>n. implements E gs n \<and> cq_handle E c s = n s1"
  proof cases
    case 1
    with run have "cq_handle E c s = ret () s1" by (simp add: cq_handle_start)
    with 1 implements_ret show ?thesis by blast
  next
    case 2
    with run implements_sq [OF implements_steps(3,5), of E c r] show ?thesis by (auto simp: cq_handle_start)
  next
    case 3
    with run implements_sq [OF implements_steps(3) implements_refill, of E c r] show ?thesis
      by (auto simp: cq_handle_start)
  qed
qed simp

text \<open>The event loop.\<close>

definition eq_rest :: "'h env \<Rightarrow> nat \<Rightarrow> nat \<Rightarrow> int \<Rightarrow> ('h, unit) drv" where
  "eq_rest E n e p =
     bnd (eq_loop E n e p) (\<lambda>c. sq (upd_eq e (\<lambda>q. q\<lparr>eq_cons_ptr := c\<rparr>)) (Eq_write_cons_ptr E e))"

lemma bnd_sq_assoc: "bnd (sq m n) f = sq m (bnd n f)"
  by (simp add: sq_def bnd_assoc)

text \<open>How a scan ends, and what it leaves of the loop.\<close>

lemma eq_scan_cases:
  "(\<exists>x. eq_scan e p s = (Inl x, s) \<and> eq_rest E (Suc n) e p s = (Inl x, s)) \<or>
   eq_scan e p s = (Inr [EqReport e], s\<lparr>w_eqs := (w_eqs s)(e := (w_eqs s e)\<lparr>eq_cons_ptr := p\<rparr>)\<rparr>) \<and>
     eq_rest E (Suc n) e p s = Eq_write_cons_ptr E e (s\<lparr>w_eqs := (w_eqs s)(e := (w_eqs s e)\<lparr>eq_cons_ptr := p\<rparr>)\<rparr>) \<or>
   eq_scan e p s = (Inr [EqScan e (p + 1)], s) \<and> eq_rest E (Suc n) e p s = eq_rest E n e (p + 1) s \<or>
   (\<exists>c. eq_scan e p s = (Inr [Handle c, CqArm c, EqScan e (p + 1)], s) \<and>
     eq_rest E (Suc n) e p s = sq (cq_handle E c) (sq (Cq_arm E c) (eq_rest E n e (p + 1))) s)"
proof (cases "eq_buf (w_eqs s e)")
  case None
  then show ?thesis by (simp add: eq_scan_def eq_rest_def run_simps the_buf_def)
next
  case (Some b)
  let ?q = "w_eqs s e"
  let ?u = "unpack_from ev_fmt (w_mem s b) ((p AND eq_size_mask ?q) * eq_stride ?q)"
  show ?thesis
  proof (cases ?u)
    case (Inl x)
    with Some show ?thesis by (simp add: eq_scan_def eq_rest_def run_simps the_buf_def mem_unpack_def)
  next
    case (Inr ev)
    let ?done = "(last ev AND 0x80000000 \<noteq> 0) = (p AND eq_size ?q \<noteq> 0)"
    have loop: "eq_rest E (Suc n) e p s = (if ?done
        then sq (upd_eq e (\<lambda>q. q\<lparr>eq_cons_ptr := p\<rparr>)) (Eq_write_cons_ptr E e) s
        else sq (eq_dispatch E e ev) (eq_rest E n e (p + 1)) s)"
      using Some Inr by (simp add: eq_rest_def run_bnd run_sq get_eq_def the_buf_def mem_unpack_def
          split: prod.split sum.split)
    have scan: "eq_scan e p s = (if ?done
        then sq (upd_eq e (\<lambda>q. q\<lparr>eq_cons_ptr := p\<rparr>)) (ret [EqReport e]) s
        else if ev ! 0 = MQNIC_EVENT_TYPE_CPL then
          (case eq_cq_table ?q (ev ! 1) of None \<Rightarrow> (Inl KeyError, s)
           | Some c \<Rightarrow> (Inr [Handle c, CqArm c, EqScan e (p + 1)], s))
        else (Inr [EqScan e (p + 1)], s))"
      using Some Inr by (simp add: eq_scan_def run_bnd get_eq_def the_buf_def mem_unpack_def split: option.split)
    show ?thesis
      unfolding loop scan eq_dispatch_def
      by (auto simp: run_sq run_bnd get_eq_def upd_eq_def split: option.split prod.split sum.split)
  qed
qed

lemma implements_scan: "implements E [EqScan e p] (eq_rest E n e p)"
proof (induction n arbitrary: p)
  case 0
  show ?case by (simp add: implements_def eq_rest_def run_bnd)
next
  case (Suc n)
  show ?case
  proof (rule implements_frame)
    fix s x s1 assume "frame_run E (EqScan e p) s = (Inl x, s1)"
    with eq_scan_cases [of e p s E n] show "eq_rest E (Suc n) e p s = (Inl x, s1)" by auto
  next
    fix s gs s1 assume run: "frame_run E (EqScan e p) s = (Inr gs, s1)"
    from run eq_scan_cases [of e p s E n]
    consider "gs = [EqReport e]" "eq_rest E (Suc n) e p s = Eq_write_cons_ptr E e s1"
      | "gs = [EqScan e (p + 1)]" "eq_rest E (Suc n) e p s = eq_rest E n e (p + 1) s1"
      | c where "gs = [Handle c] @ [CqArm c] @ [EqScan e (p + 1)]"
          "eq_rest E (Suc n) e p s = sq (cq_handle E c) (sq (Cq_arm E c) (eq_rest E n e (p + 1))) s1"
      by auto
    then show "\<exists>m. implements E gs m \<and> eq_rest E (Suc n) e p s = m s1"
    proof cases
      case 1 with implements_steps(7) show ?thesis by blast
    next
      case 2 with Suc.IH show ?thesis by blast
    next
      case 3
      with implements_sq [OF implements_handle implements_sq [OF implements_steps(4) Suc.IH]] show ?thesis by blast
    qed
  qed simp
qed

lemma implements_process_eq: "implements E [EqEnter e] (Eq_process_eq E n e)"
proof (rule implements_frame)
  fix s x s1 assume "frame_run E (EqEnter e) s = (Inl x, s1)"
  then show "Eq_process_eq E n e s = (Inl x, s1)" by (simp add: run_bnd get_eq_def get_if_def)
next
  fix s gs s1 assume "frame_run E (EqEnter e) s = (Inr gs, s1)"
  then have "gs = [] \<and> Eq_process_eq E n e s = ret () s1 \<or>
      gs = [EqScan e (eq_cons_ptr (w_eqs s e))] \<and> Eq_process_eq E n e s = eq_rest E n e (eq_cons_ptr (w_eqs s e)) s1"
    by (auto simp: run_bnd get_eq_def get_if_def Eq_process_eq_def eq_rest_def split: if_splits)
  with implements_ret implements_scan show "\<exists>m. implements E gs m \<and> Eq_process_eq E n e s = m s1" by metis
qed simp

lemma implements_irq_eq:
  "implements E [IrqEq e index]
     (bnd (get_eq e) (\<lambda>q. if eq_irq q = Some index then sq (Eq_process_eq E n e) (Eq_arm E e) else ret ()))"
proof (rule implements_frame)
  fix s x s1 assume "frame_run E (IrqEq e index) s = (Inl x, s1)"
  then show "bnd (get_eq e) (\<lambda>q. if eq_irq q = Some index then sq (Eq_process_eq E n e) (Eq_arm E e) else ret ()) s =
      (Inl x, s1)"
    by (simp add: run_bnd get_eq_def)
next
  fix s gs s1 assume run: "frame_run E (IrqEq e index) s = (Inr gs, s1)"
  show "\<exists>m. implements E gs m \<and>
      bnd (get_eq e) (\<lambda>q. if eq_irq q = Some index then sq (Eq_process_eq E n e) (Eq_arm E e) else ret ()) s = m s1"
  proof (cases "eq_irq (w_eqs s e) = Some index")
    case True
    with run implements_sq [OF implements_process_eq implements_steps(8), of E e e n] show ?thesis
      by (auto simp: run_bnd get_eq_def)
  next
    case False
    with run have "gs = []" "bnd (get_eq e) (\<lambda>q. if eq_irq q = Some index then sq (Eq_process_eq E n e) (Eq_arm E e)
        else ret ()) s = ret () s1"
      by (simp_all add: run_bnd get_eq_def)
    with implements_ret show ?thesis by blast
  qed
qed simp

lemma map_concat_single: "map f xs = concat (map (\<lambda>x. [f x]) xs)"
  by (induction xs) simp_all

definition eq_serve :: "'h env \<Rightarrow> nat \<Rightarrow> int \<Rightarrow> nat \<Rightarrow> ('h, unit) drv" where
  "eq_serve E n index e =
     bnd (get_eq e) (\<lambda>q. if eq_irq q = Some index then sq (Eq_process_eq E n e) (Eq_arm E e) else ret ())"

definition if_serve :: "'h env \<Rightarrow> nat \<Rightarrow> int \<Rightarrow> nat \<Rightarrow> ('h, unit) drv" where
  "if_serve E n index i = bnd (get_if i) (\<lambda>ifc. forM (ifc_eq ifc) (eq_serve E n index))"

lemma interrupt_handler_serve:
  "Driver_interrupt_handler E n index = bnd get_drv (\<lambda>d. forM (drv_interfaces d) (if_serve E n index))"
  unfolding Driver_interrupt_handler_def if_serve_def [abs_def] eq_serve_def [abs_def] ..

lemma implements_irq_iface: "implements E [IrqIface i index] (if_serve E n index i)"
proof (rule implements_frame)
  fix s gs s1 assume "frame_run E (IrqIface i index) s = (Inr gs, s1)"
  then have g0: "gs = map (\<lambda>e. IrqEq e index) (ifc_eq (w_ifs s i))"
      and m: "if_serve E n index i s = forM (ifc_eq (w_ifs s i)) (eq_serve E n index) s1"
    by (auto simp: run_bnd get_if_def if_serve_def)
  have g: "gs = concat (map (\<lambda>e. [IrqEq e index]) (ifc_eq (w_ifs s i)))"
    unfolding g0 by (rule map_concat_single)
  have "implements E gs (forM (ifc_eq (w_ifs s i)) (eq_serve E n index))"
    unfolding g by (rule implements_forM) (unfold eq_serve_def, rule implements_irq_eq)
  with m show "\<exists>m. implements E gs m \<and> if_serve E n index i s = m s1" by (intro exI conjI)
qed (simp_all add: run_bnd get_if_def)

lemma implements_interrupt: "implements E [Irq index] (Driver_interrupt_handler E n index)"
proof (rule implements_frame)
  fix s gs s1 assume "frame_run E (Irq index) s = (Inr gs, s1)"
  then have g0: "gs = map (\<lambda>i. IrqIface i index) (drv_interfaces (w_drv s))"
      and m: "Driver_interrupt_handler E n index s = forM (drv_interfaces (w_drv s)) (if_serve E n index) s1"
    by (auto simp: run_bnd get_drv_def interrupt_handler_serve)
  have g: "gs = concat (map (\<lambda>i. [IrqIface i index]) (drv_interfaces (w_drv s)))"
    unfolding g0 by (rule map_concat_single)
  have "implements E gs (forM (drv_interfaces (w_drv s)) (if_serve E n index))"
    unfolding g by (rule implements_forM) (rule implements_irq_iface)
  with m show "\<exists>m. implements E gs m \<and> Driver_interrupt_handler E n index s = m s1" by (intro exI conjI)
qed (simp_all add: run_bnd get_drv_def)

end
