(* ===== verification/Driver.thy ===== *)
theory Driver
  imports Iface
begin

text \<open>
  Classes \<open>Driver\<close> and \<open>Interrupt\<close> of \<open>mqnic.py\<close>: bringing the device up over PCIe or AXI,
  reading its identification, creating its interfaces, and the delivery of interrupts. The
  endless coroutines \<open>Interrupt._run\<close> and \<open>Driver._run_edge_interrupts\<close> are given by one
  round each.
\<close>

section \<open>Interrupts\<close>

definition Interrupt_init :: "int \<Rightarrow> bool \<Rightarrow> interrupt" where
  "Interrupt_init index handler = \<lparr>irq_index = index, irq_queue = 0, irq_handler = handler\<rparr>"

definition upd_irq :: "nat \<Rightarrow> (interrupt \<Rightarrow> interrupt) \<Rightarrow> ('h, unit) drv" where
  "upd_irq n f = upd_drv (\<lambda>d. d\<lparr>drv_irq_list := (drv_irq_list d)[n := f (drv_irq_list d ! n)]\<rparr>)"

definition Interrupt_interrupt :: "nat \<Rightarrow> ('h, unit) drv" where
  "Interrupt_interrupt n = upd_irq n (\<lambda>i. i\<lparr>irq_queue := irq_queue i + 1\<rparr>)"

text \<open>One round of \<open>_run\<close>; \<open>False\<close> when it waits for the queue.\<close>

definition Interrupt_run :: "'h env \<Rightarrow> nat \<Rightarrow> nat \<Rightarrow> ('h, bool) drv" where
  "Interrupt_run E fuel n =
     bnd get_drv (\<lambda>d.
     let irq = drv_irq_list d ! n in
     if irq_queue irq = 0 then ret False
     else sq (upd_irq n (\<lambda>i. i\<lparr>irq_queue := irq_queue i - 1\<rparr>)) (
       sq (if irq_handler irq then Driver_interrupt_handler E fuel (irq_index irq) else ret ())
       (ret True)))"

text \<open>
  One round of \<open>_run_edge\<close>: \<open>self.interrupt()\<close> without \<open>await\<close> makes a coroutine object that
  never runs.
\<close>

definition Interrupt_run_edge :: "nat \<Rightarrow> ('h, unit) drv" where
  "Interrupt_run_edge n = ret ()"

text \<open>
  One round of \<open>_run_edge_interrupts\<close> on a change of the \<open>count\<close> interrupt lines to \<open>val\<close>. The
  result is the \<open>last_val\<close> of the next round; the code never assigns it.
\<close>

definition edge_lines :: "int \<Rightarrow> int \<Rightarrow> int \<Rightarrow> int list" where
  "edge_lines count last_val val =
     filter (\<lambda>x. (val AND NOT last_val) AND push_bit (nat x) 1 \<noteq> 0) (py_range count)"

definition Driver_run_edge_interrupts :: "int \<Rightarrow> int \<Rightarrow> int \<Rightarrow> ('h, int) drv" where
  "Driver_run_edge_interrupts count last_val val =
     sq (forM (edge_lines count last_val val) (\<lambda>x.
           bnd get_drv (\<lambda>d.
           if nat x < length (drv_irq_list d) then Interrupt_interrupt (nat x) else throw IndexError)))
     (ret last_val)"

section \<open>Bringing the device up\<close>

definition drv_read :: "'h env \<Rightarrow> reg_block \<Rightarrow> int \<Rightarrow> (int \<Rightarrow> driver \<Rightarrow> driver) \<Rightarrow> ('h, unit) drv" where
  "drv_read E rb a f = bnd (rb_read E rb a) (\<lambda>v. upd_drv (f v))"

definition Driver_read_ids :: "'h env \<Rightarrow> reg_block \<Rightarrow> ('h, unit) drv" where
  "Driver_read_ids E rb = seqm [
     drv_read E rb MQNIC_RB_FW_ID_REG_FPGA_ID (\<lambda>v d. d\<lparr>drv_fpga_id := Some v\<rparr>),
     drv_read E rb MQNIC_RB_FW_ID_REG_FW_ID (\<lambda>v d. d\<lparr>drv_fw_id := Some v\<rparr>),
     drv_read E rb MQNIC_RB_FW_ID_REG_FW_VER (\<lambda>v d. d\<lparr>drv_fw_ver := Some v\<rparr>),
     drv_read E rb MQNIC_RB_FW_ID_REG_BOARD_ID (\<lambda>v d. d\<lparr>drv_board_id := Some v\<rparr>),
     drv_read E rb MQNIC_RB_FW_ID_REG_BOARD_VER (\<lambda>v d. d\<lparr>drv_board_ver := Some v\<rparr>),
     drv_read E rb MQNIC_RB_FW_ID_REG_BUILD_DATE (\<lambda>v d. d\<lparr>drv_build_date := Some v\<rparr>),
     drv_read E rb MQNIC_RB_FW_ID_REG_GIT_HASH (\<lambda>v d. d\<lparr>drv_git_hash := Some v\<rparr>),
     drv_read E rb MQNIC_RB_FW_ID_REG_REL_INFO (\<lambda>v d. d\<lparr>drv_rel_info := Some v\<rparr>)]"

text \<open>One interface: its window, its object, its \<open>init\<close>.\<close>

definition Driver_init_interface ::
    "'h env \<Rightarrow> window \<Rightarrow> int \<Rightarrow> int \<Rightarrow> int \<Rightarrow> int \<Rightarrow> ('h, unit) drv" where
  "Driver_init_interface E w offset stride csr k =
     bnd (new_if k (create_window w (offset + k * stride) (Some stride)) csr) (\<lambda>i. seqm [
       Interface_init_hw E i,
       upd_drv (\<lambda>d. d\<lparr>drv_interfaces := drv_interfaces d @ [i]\<rparr>)])"

definition Driver_init_interfaces :: "'h env \<Rightarrow> window \<Rightarrow> ('h, unit) drv" where
  "Driver_init_interfaces E w =
     bnd get_drv (\<lambda>d.
     let if_rb = rb_find (drv_reg_blocks d) MQNIC_RB_IF_TYPE (Some MQNIC_RB_IF_VER) 0 in
     sq (upd_drv (\<lambda>d. d\<lparr>drv_if_rb := if_rb, drv_interfaces := []\<rparr>)) (
     case if_rb of
       None \<Rightarrow> ret ()
     | Some rb \<Rightarrow>
         bnd (rb_read E rb MQNIC_RB_IF_REG_OFFSET) (\<lambda>offset.
         sq (upd_drv (\<lambda>d. d\<lparr>drv_if_offset := Some offset\<rparr>)) (
         bnd (rb_read E rb MQNIC_RB_IF_REG_COUNT) (\<lambda>count.
         sq (upd_drv (\<lambda>d. d\<lparr>drv_if_count := count\<rparr>)) (
         bnd (rb_read E rb MQNIC_RB_IF_REG_STRIDE) (\<lambda>stride.
         sq (upd_drv (\<lambda>d. d\<lparr>drv_if_stride := Some stride\<rparr>)) (
         bnd (rb_read E rb MQNIC_RB_IF_REG_CSR_OFFSET) (\<lambda>csr.
         sq (upd_drv (\<lambda>d. d\<lparr>drv_if_csr_offset := Some csr\<rparr>))
         (forM (py_range count) (Driver_init_interface E w offset stride csr)))))))))))"

definition Driver_init_common :: "'h env \<Rightarrow> ('h, unit) drv" where
  "Driver_init_common E =
     bnd get_drv (\<lambda>d.
     bnd (attr (drv_hw_regs d)) (\<lambda>w.
     bnd (enumerate_reg_blocks enum_fuel E w 0 (drv_reg_blocks d)) (\<lambda>(blocks, err).
     sq (upd_drv (\<lambda>d. d\<lparr>drv_reg_blocks := blocks\<rparr>)) (
     sq (case err of None \<Rightarrow> ret () | Some e \<Rightarrow> throw e) (
     let fw = rb_find blocks MQNIC_RB_FW_ID_TYPE (Some MQNIC_RB_FW_ID_VER) 0 in
     sq (upd_drv (\<lambda>d. d\<lparr>drv_fw_id_rb := fw\<rparr>)) (
     bnd (attr fw) (\<lambda>rb.
     sq (Driver_read_ids E rb) (
     sq (case rb_find blocks MQNIC_RB_APP_INFO_TYPE (Some MQNIC_RB_APP_INFO_VER) 0 of
           None \<Rightarrow> ret ()
         | Some a \<Rightarrow> drv_read E a MQNIC_RB_APP_INFO_REG_ID (\<lambda>v d. d\<lparr>drv_app_id := Some v\<rparr>)) (
     sq (upd_drv (\<lambda>d. d\<lparr>drv_phc_rb := rb_find blocks MQNIC_RB_PHC_TYPE (Some MQNIC_RB_PHC_VER) 0\<rparr>))
     (Driver_init_interfaces E w))))))))))"

definition Driver_init_pcie_dev :: "'h env \<Rightarrow> ('h, unit) drv" where
  "Driver_init_pcie_dev E =
     bnd get_drv (\<lambda>d. seqm [
       assertM (\<not> drv_initialized d) ''not self.initialized'',
       upd_drv (\<lambda>d. d\<lparr>drv_initialized := True\<rparr>),
       control E EnableDevice,
       control E SetMaster,
       control E (AllocIrqVectors 1 MQNIC_MAX_EQ),
       upd_drv (\<lambda>d. d\<lparr>drv_hw_regs := Some (Bar 0), drv_app_hw_regs := Some (Bar 2),
         drv_ram_hw_regs := Some (Bar 4)\<rparr>),
       forM (py_range 32) (\<lambda>index. seqm [
         control E (RequestIrq index),
         upd_drv (\<lambda>d. d\<lparr>drv_irq_list := drv_irq_list d @ [Interrupt_init index True]\<rparr>)]),
       Driver_init_common E])"

text \<open>\<open>irq\<close> is the number of interrupt lines, if there are any.\<close>

definition Driver_init_axi_dev :: "'h env \<Rightarrow> window \<Rightarrow> window option \<Rightarrow> int option \<Rightarrow> ('h, unit) drv" where
  "Driver_init_axi_dev E hw_regs app_hw_regs irq =
     bnd get_drv (\<lambda>d. seqm [
       assertM (\<not> drv_initialized d) ''not self.initialized'',
       upd_drv (\<lambda>d. d\<lparr>drv_initialized := True\<rparr>),
       upd_drv (\<lambda>d. d\<lparr>drv_hw_regs := Some hw_regs, drv_app_hw_regs := app_hw_regs\<rparr>),
       (case irq of
          None \<Rightarrow> ret ()
        | Some n \<Rightarrow> forM (py_range n) (\<lambda>index.
            upd_drv (\<lambda>d. d\<lparr>drv_irq_list := drv_irq_list d @ [Interrupt_init index True]\<rparr>))),
       Driver_init_common E])"

section \<open>Properties\<close>

lemma init_once:
  assumes "drv_initialized (w_drv s)"
  shows "Driver_init_pcie_dev E s = (Inl (AssertionError ''not self.initialized''), s)"
    and "Driver_init_axi_dev E w a irq s = (Inl (AssertionError ''not self.initialized''), s)"
  using assms by (simp_all add: Driver_init_pcie_dev_def Driver_init_axi_dev_def run_simps)

text \<open>
  Since \<open>last_val\<close> stays 0, every change of any line raises the interrupts of all lines that
  are high.
\<close>

lemma edge_lines_level:
  "0 \<le> x \<Longrightarrow> x < count \<Longrightarrow> x \<in> set (edge_lines count 0 val) \<longleftrightarrow> bit val (nat x)"
  by (simp add: edge_lines_def and_exp_eq_0_iff_not_bit)

lemma edge_last_val:
  "fst (Driver_run_edge_interrupts count last_val val s) = Inr x \<Longrightarrow> x = last_val"
  by (auto simp: Driver_run_edge_interrupts_def run_sq split: prod.splits sum.splits)

text \<open>What an edge detector reports: the lines that are high now and were low before.\<close>

lemma edge_lines_spec:
  "0 \<le> x \<Longrightarrow> x < count \<Longrightarrow>
   x \<in> set (edge_lines count last_val val) \<longleftrightarrow> bit val (nat x) \<and> \<not> bit last_val (nat x)"
  by (simp add: edge_lines_def and_exp_eq_0_iff_not_bit bit_and_iff bit_not_iff)

lemma keeps_run_drv_irq: "keeps run_inv (upd_irq n f)"
proof (rule keepsI)
  fix s :: "'a world" assume inv: "run_inv s"
  let ?d = "w_drv s" let ?s = "s\<lparr>w_drv := ?d\<lparr>drv_irq_list := (drv_irq_list ?d)[n := f (drv_irq_list ?d ! n)]\<rparr>\<rparr>"
  have sl: "slot ?s x m = slot s x m" for x m by (cases x) (simp_all add: slot_def)
  have b: "bufs_inv ?s"
    using run_invD(1) [OF inv] by (simp add: bufs_inv_def sl pool_inv_def outstanding_def)
  have rings: "txq_ring i k n b ?s = txq_ring i k n b s" "rxq_ring i k n b ?s = rxq_ring i k n b s"
      "cq_ring i k b ?s = cq_ring i k b s" for i k n b
    by (simp_all add: txq_ring_def rxq_ring_def cq_ring_def)
  have att: "cq_attached ?s c x = cq_attached s c x" for c x
    unfolding cq_attached_def rings by (simp split: ring_ref.split)
  have "run_inv ?s"
    using inv b unfolding run_inv_def rings att by (simp add: packets_ok_def)
  then show "run_inv (snd (upd_irq n f s))" by (simp add: upd_irq_def upd_drv_def)
qed

text \<open>A round of an interrupt's coroutine takes one pending entry and keeps the invariant.\<close>

lemma Interrupt_run_keeps: "device_ok E \<Longrightarrow> keeps run_inv (Interrupt_run E fuel n)"
  unfolding Interrupt_run_def Interrupt_interrupt_def get_drv_def Let_def
  by (intro keeps_intros keeps_run_drv_irq keeps_run_interrupt)

text \<open>The interrupt list of a PCIe device: entry \<open>n\<close> is interrupt \<open>n\<close>, with an empty queue.\<close>

lemma irq_list_loop:
  "\<exists>s'. forM is (\<lambda>index. seqm [
         control E (RequestIrq index),
         upd_drv (\<lambda>d. d\<lparr>drv_irq_list := drv_irq_list d @ [Interrupt_init index True]\<rparr>)]) s = (Inr (), s') \<and>
     drv_irq_list (w_drv s') = drv_irq_list (w_drv s) @ map (\<lambda>i. Interrupt_init i True) is \<and>
     w_mmio s' = w_mmio s @ map (\<lambda>i. CTL (RequestIrq i)) is"
proof (induction "is" arbitrary: s)
  case (Cons i "is")
  let ?s1 = "(ctl_state E (RequestIrq i) s)\<lparr>w_drv := (w_drv s)\<lparr>drv_irq_list :=
      drv_irq_list (w_drv s) @ [Interrupt_init i True]\<rparr>\<rparr>"
  from Cons [of ?s1] show ?case by (auto simp: run_simps)
qed simp

end
