(* ===== verification/Examples.thy ===== *)
theory Examples
  imports Coroutines Driver
begin

text \<open>
  Small states on which the properties of the development are applied: one open transmit ring
  of four slots with blocks of two descriptors, with and without a completed packet, and one
  open receive ring of eight slots with a completed packet, each on a completion queue of two
  entries and an event queue of two entries with one event, behind an interface that is up. The device is \<open>null_env\<close>.
\<close>

definition zeros :: "nat \<Rightarrow> byte list" where
  "zeros n = replicate n 0"

lemma length_zeros [simp]: "length (zeros n) = n"
  by (simp add: zeros_def)

text \<open>A completion or event entry with its phase bit set; all other fields are zero.\<close>

definition ex_entry :: "byte list" where
  "ex_entry = [0, 0, 0, 0, 0, 0, 0, 0, 0, 0, 0, 0, 0, 0, 0, 0, 0, 0, 0, 0, 0, 0, 0, 0, 0, 0, 0, 0, 0, 0, 0,
    0x80]"

definition ex_cq_buf :: "byte list" where
  "ex_cq_buf = ex_entry @ [0, 0, 0, 0, 0, 0, 0, 0, 0, 0, 0, 0, 0, 0, 0, 0, 0, 0, 0, 0, 0, 0, 0, 0, 0, 0, 0, 0, 0, 0, 0,
    0]"

definition ex_if :: iface where
  "ex_if = (Interface_init 0 (Bar 0) 0)\<lparr>ifc_port_up := True, ifc_max_tx_mtu := 1518,
     ifc_max_rx_mtu := 1518, ifc_eq := [0], ifc_txq := [0], ifc_txq_res := Some (Resource_init 4 (Bar 0) 32),
     ifc_rxq_res := Some (Resource_init 4 (Bar 0) 32), ifc_cq_res := Some (Resource_init 4 (Bar 0) 16),
     ifc_eq_res := Some (Resource_init 4 (Bar 0) 16)\<rparr>"

definition ex_pkt :: region where
  "ex_pkt = \<lparr>rg_id = 2, rg_addr = 4096, rg_size = 16384\<rparr>"

definition ex_txq :: txq where
  "ex_txq = (Txq_init 0)\<lparr>txq_log_queue_size := 2, txq_log_desc_block_size := 1,
     txq_desc_block_size := 2, txq_size := 4, txq_size_mask := 3, txq_full_size := 2,
     txq_stride := 32, txq_index := Some 0, txq_enabled := True, txq_buf := Some 0,
     txq_hw_regs := Some (Bar 0), txq_tx_info := [None, None, None, None]\<rparr>"

definition ex_rxq :: rxq where
  "ex_rxq = (Rxq_init 0)\<lparr>rxq_log_queue_size := 3, rxq_desc_block_size := 1, rxq_size := 8,
     rxq_size_mask := 7, rxq_full_size := 4, rxq_stride := 16, rxq_index := Some 0,
     rxq_enabled := True, rxq_buf := Some 0, rxq_hw_regs := Some (Bar 0),
     rxq_rx_info := replicate 8 None\<rparr>"

definition ex_cq :: cq where
  "ex_cq = (Cq_init 0)\<lparr>cq_log_size := 1, cq_size := 2, cq_size_mask := 1, cq_stride := 32,
     cq_cqn := Some 0, cq_enabled := True, cq_buf := Some 1, cq_hw_regs := Some (Bar 0)\<rparr>"

definition ex_eq :: eq where
  "ex_eq = (Eq_init 0)\<lparr>eq_log_size := 1, eq_size := 2, eq_size_mask := 1, eq_stride := 32,
     eq_eqn := Some 0, eq_enabled := True, eq_buf := Some 3, eq_irq := Some 0,
     eq_cq_table := Map.empty(0 \<mapsto> 0), eq_hw_regs := Some (Bar 0)\<rparr>"

definition ex_base :: "nat world" where
  "ex_base = (init_world 65536)\<lparr>w_mem := (\<lambda>_. [])(0 := zeros 128, 1 := ex_cq_buf, 2 := zeros 16384, 3 := ex_cq_buf),
     w_next_region := 4, w_eqs := (\<lambda>_. Eq_init 0)(0 := ex_eq), w_next_eq := 1, w_ifs := (\<lambda>_. ex_if), w_next_if := 1\<rparr>"

definition ex_pool :: driver where
  "ex_pool = Driver_init\<lparr>drv_interfaces := [0], drv_allocated_packets := [ex_pkt]\<rparr>"

text \<open>An empty transmit ring, the packet buffer free.\<close>

definition ex_tx :: "nat world" where
  "ex_tx = ex_base\<lparr>w_drv := ex_pool\<lparr>drv_free_packets := [ex_pkt]\<rparr>,
     w_txqs := (w_txqs ex_base)(0 := ex_txq), w_next_txq := 1,
     w_cqs := (w_cqs ex_base)(0 := ex_cq\<lparr>cq_src_ring := Some (TxRing 0), cq_handler := Some ProcessTxCq\<rparr>),
     w_next_cq := 1\<rparr>"

text \<open>The packet posted and completed, the completion not yet processed.\<close>

definition ex_tx1 :: "nat world" where
  "ex_tx1 = ex_tx\<lparr>w_drv := ex_pool,
     w_txqs := (w_txqs ex_base)(0 := ex_txq\<lparr>txq_prod_ptr := 1,
       txq_tx_info := [Some ex_pkt, None, None, None]\<rparr>)\<rparr>"

text \<open>An empty receive ring, and one with a packet received into its first slot.\<close>

definition ex_rx :: "nat world" where
  "ex_rx = ex_base\<lparr>w_drv := ex_pool\<lparr>drv_free_packets := [ex_pkt]\<rparr>,
     w_rxqs := (w_rxqs ex_base)(0 := ex_rxq), w_next_rxq := 1,
     w_cqs := (w_cqs ex_base)(0 := ex_cq\<lparr>cq_src_ring := Some (RxRing 0), cq_handler := Some ProcessRxCq\<rparr>),
     w_next_cq := 1\<rparr>"

definition ex_rx1 :: "nat world" where
  "ex_rx1 = ex_rx\<lparr>w_drv := ex_pool,
     w_rxqs := (w_rxqs ex_base)(0 := ex_rxq\<lparr>rxq_prod_ptr := 1,
       rxq_rx_info := Some ex_pkt # replicate 7 None\<rparr>)\<rparr>"

lemmas ex_defs = ex_tx1_def ex_tx_def ex_rx1_def ex_rx_def ex_base_def ex_pool_def ex_if_def
  ex_txq_def ex_rxq_def ex_cq_def ex_pkt_def init_world_def Driver_init_def Interface_init_def
  Txq_init_def Rxq_init_def Cq_init_def

section \<open>Their invariants\<close>

lemma ex_length [simp]: "length ex_entry = 32" "length ex_cq_buf = 64"
  by (simp_all add: ex_entry_def ex_cq_buf_def)

lemma ex_ring_info:
  "ring_info ex_tx r = (if r = TxRing 0 then [None, None, None, None] else [])"
  "ring_info ex_tx1 r = (if r = TxRing 0 then [Some ex_pkt, None, None, None] else [])"
  "ring_info ex_rx r = (if r = RxRing 0 then replicate 8 None else [])"
  "ring_info ex_rx1 r = (if r = RxRing 0 then Some ex_pkt # replicate 7 None else [])"
  by (cases r; simp add: ex_defs)+

lemma ex_slot:
  "slot ex_tx r n = None" "slot ex_rx r n = None"
  "slot ex_tx1 r n = (if r = TxRing 0 \<and> n = 0 then Some ex_pkt else None)"
  "slot ex_rx1 r n = (if r = RxRing 0 \<and> n = 0 then Some ex_pkt else None)"
  by (simp_all add: slot_def ex_ring_info nth_Cons' del: ring_info.simps)

lemma ex_slots_ok:
  "slots_ok 2 0 0 [None, None, None, None]" "slots_ok 2 1 0 [Some p, None, None, None]"
  "slots_ok 3 0 0 (replicate 8 None)" "slots_ok 3 1 0 (Some p # replicate 7 None)"
proof -
  show e: "slots_ok 2 0 0 [None, None, None, None]" "slots_ok 3 0 0 (replicate 8 None)"
    using slots_ok_init [of 2] slots_ok_init [of 3] by (simp_all add: numeral_eq_Suc)
  show "slots_ok 2 1 0 [Some p, None, None, None]" "slots_ok 3 1 0 (Some p # replicate 7 None)"
    using slots_ok_put [OF e(1), of "Some p"] slots_ok_put [OF e(2), of "Some p"]
    by (simp_all add: slot_of_def numeral_eq_Suc)
qed

lemma ex_rings:
  "txq_ring 0 2 2 0 ex_tx" "txq_ring 0 2 2 0 ex_tx1"
  "rxq_ring 0 3 1 0 ex_rx" "rxq_ring 0 3 1 0 ex_rx1"
  using ex_slots_ok by (simp_all add: txq_ring_def rxq_ring_def Let_def ex_defs)

lemma ex_cq_rings:
  "cq_ring 0 1 1 ex_tx" "cq_ring 0 1 1 ex_tx1" "cq_ring 0 1 1 ex_rx" "cq_ring 0 1 1 ex_rx1"
  by (simp_all add: cq_ring_def Let_def ex_defs)

lemma ex_drv:
  "w_drv ex_tx = ex_pool\<lparr>drv_free_packets := [ex_pkt]\<rparr>" "w_drv ex_tx1 = ex_pool"
  "w_drv ex_rx = ex_pool\<lparr>drv_free_packets := [ex_pkt]\<rparr>" "w_drv ex_rx1 = ex_pool"
  "w_next_region ex_tx = 4" "w_next_region ex_tx1 = 4" "w_next_region ex_rx = 4" "w_next_region ex_rx1 = 4"
  by (simp_all add: ex_tx_def ex_tx1_def ex_rx_def ex_rx1_def ex_base_def)

lemma ex_bufs_inv: "bufs_inv ex_tx" "bufs_inv ex_tx1" "bufs_inv ex_rx" "bufs_inv ex_rx1"
  unfolding bufs_inv_def pool_inv_def outstanding_def ex_slot ex_drv
  by (simp_all add: ex_pool_def Driver_init_def ex_pkt_def split: if_splits)

lemma ex_packets_ok: "packets_ok ex_tx" "packets_ok ex_tx1" "packets_ok ex_rx" "packets_ok ex_rx1"
  by (simp_all add: packets_ok_def ex_defs)

lemma ex_closed:
  "txq_hw_regs (w_txqs ex_tx i) \<noteq> None \<longleftrightarrow> i = 0" "txq_hw_regs (w_txqs ex_tx1 i) \<noteq> None \<longleftrightarrow> i = 0"
  "rxq_hw_regs (w_rxqs ex_tx i) = None" "rxq_hw_regs (w_rxqs ex_tx1 i) = None"
  "rxq_hw_regs (w_rxqs ex_rx i) \<noteq> None \<longleftrightarrow> i = 0" "rxq_hw_regs (w_rxqs ex_rx1 i) \<noteq> None \<longleftrightarrow> i = 0"
  "txq_hw_regs (w_txqs ex_rx i) = None" "txq_hw_regs (w_txqs ex_rx1 i) = None"
  by (simp_all add: ex_defs)

lemma ex_cqs:
  "w_cqs ex_tx c = (if c = 0 then ex_cq\<lparr>cq_src_ring := Some (TxRing 0), cq_handler := Some ProcessTxCq\<rparr> else Cq_init 0)"
  "w_cqs ex_tx1 c = (if c = 0 then ex_cq\<lparr>cq_src_ring := Some (TxRing 0), cq_handler := Some ProcessTxCq\<rparr> else Cq_init 0)"
  "w_cqs ex_rx c = (if c = 0 then ex_cq\<lparr>cq_src_ring := Some (RxRing 0), cq_handler := Some ProcessRxCq\<rparr> else Cq_init 0)"
  "w_cqs ex_rx1 c = (if c = 0 then ex_cq\<lparr>cq_src_ring := Some (RxRing 0), cq_handler := Some ProcessRxCq\<rparr> else Cq_init 0)"
  by (simp_all add: ex_tx_def ex_tx1_def ex_rx_def ex_rx1_def ex_base_def init_world_def)

lemma ex_attached:
  "cq_src_ring (w_cqs ex_tx c) = Some r \<Longrightarrow> cq_attached ex_tx c r"
  "cq_src_ring (w_cqs ex_tx1 c) = Some r \<Longrightarrow> cq_attached ex_tx1 c r"
  "cq_src_ring (w_cqs ex_rx c) = Some r \<Longrightarrow> cq_attached ex_rx c r"
  "cq_src_ring (w_cqs ex_rx1 c) = Some r \<Longrightarrow> cq_attached ex_rx1 c r"
  using ex_closed [of 0]
  by (auto simp: ex_cqs Cq_init_def ex_cq_def cq_attached_def ex_drv split: if_splits
      intro!: exI [of _ 1] ex_cq_rings)

lemma ex_run_inv: "run_inv ex_tx" "run_inv ex_tx1" "run_inv ex_rx" "run_inv ex_rx1"
  unfolding run_inv_def using ex_bufs_inv ex_packets_ok ex_rings ex_attached ex_closed by metis+

lemma ex_ifs: "w_ifs ex_tx n = ex_if" "w_ifs ex_tx1 n = ex_if" "w_ifs ex_rx n = ex_if" "w_ifs ex_rx1 n = ex_if"
  by (simp_all add: ex_tx_def ex_tx1_def ex_rx_def ex_rx1_def ex_base_def)

lemma ex_mem: "w_mem ex_tx1 1 = ex_cq_buf" "w_mem ex_rx1 1 = ex_cq_buf" "w_mem ex_tx 1 = ex_cq_buf"
  "w_mem ex_tx1 3 = ex_cq_buf" "w_eqs ex_tx1 0 = ex_eq"
  by (simp_all add: ex_tx1_def ex_tx_def ex_rx1_def ex_rx_def ex_base_def)

lemma ex_tx_alloc:
  "alloc_pkt E ex_tx = (Inr ex_pkt, ex_tx\<lparr>w_drv := (w_drv ex_tx)\<lparr>drv_free_packets := []\<rparr>\<rparr>)"
  by (rule alloc_pkt_reuse) (simp add: ex_drv)

section \<open>The completion ring\<close>

lemma ex_entry_new: "entry_new ex_cq_buf 1 0" "\<not> entry_new ex_cq_buf 1 1"
  by (simp_all add: entry_new_def entry_phase_def ex_cq_buf_def ex_entry_def)

lemma ex_run_length: "ring.run_length ex_cq_buf 1 0 = 1"
proof -
  have "entry_new ex_cq_buf 1 x" if "0 \<le> x" "x < 1" for x
  proof -
    have "x = 0" using that by simp
    then show ?thesis using ex_entry_new(1) by simp
  qed
  then have "0 + int (ring.run_length ex_cq_buf 1 0) = 1"
    using ex_entry_new(2) by (intro ring.run_length_produced) auto
  then show ?thesis by simp
qed

lemma ex_cpl_slots: "cpl_slots ex_cq_buf 1 k 0 1 = [0]"
  by (simp add: cpl_slots_def cpl_index_def cpl_at_def cpl_fmt_def slot_of_def ex_cq_buf_def ex_entry_def)

section \<open>Opening more queues\<close>

lemma ex_log2: "floor_log2 4 = 2" "floor_log2 2 = 1" "floor_log2 3 = 1"
  by (simp_all add: floor_log2_def bitlen.simps)

lemma ex_alloc_4:
  "res_alloc (Resource_init 4 w d) = Inr (0, (Resource_init 4 w d)\<lparr>res_free_list := [1, 2, 3]\<rparr>)"
  by (simp add: res_alloc_def Resource_init_def py_range_def upt_rec)

lemma ex_pool_alloc:
  "pool_alloc null_env (w_hw ex_tx) (2 ^ floor_log2 4 * (16 * 2 ^ floor_log2 2)) =
     Some (65536, zeros 128, 65664)"
  by (simp add: null_env_def ex_log2 ex_tx_def ex_base_def init_world_def zeros_def)

lemma null_env_reads: "rd_val null_env w a s = 0"
  by (simp add: rd_val_def null_env_def)

lemma null_env_spares: "spares null_env b"
  by (simp add: spares_def null_env_def)

lemma ex_post: "\<exists>s1. Txq_post null_env 0 (replicate 50 7) 0 ex_tx = (Inr (), s1) \<and>
    txq_hw_regs (w_txqs s1 0) = Some (Bar 0) \<and> txq_prod_ptr (w_txqs s1 0) = 1"
proof -
  have "txq_prod_ptr (w_txqs ex_tx 0) < txq_cons_ptr (w_txqs ex_tx 0) + 2 ^ 2" by (simp add: ex_defs)
  from Txq_post_keeps [OF ex_rings(1) ex_bufs_inv(1) this ex_tx_alloc, of "replicate 50 7" 0] obtain s1
    where post: "Txq_post null_env 0 (replicate 50 7) 0 ex_tx = (Inr (), s1)"
    by (auto simp: ex_defs)
  then show ?thesis using Txq_post_off_bus [OF post] by (simp add: ex_defs)
qed

lemma ex_transmit:
  "\<exists>s'. Txq_tx_transmit null_env 0 (replicate 50 7) 5 0 ex_tx = (Inr (), s') \<and> txq_prod_ptr (w_txqs s' 0) = 1"
  and ex_transmit_change:
  "\<exists>s'. Txq_tx_transmit_change null_env 0 (replicate 50 7) 5 0 ex_tx = (Inr (), s')"
  using ex_post by (auto simp: Txq_tx_transmit_def Txq_tx_transmit_change_def Txq_write_prod_ptr_def
    Txq_write_prod_ptr_change_def run_simps)

text \<open>The sender of \<open>ex_tx\<close> after its first step, and an interrupt that finds the completion.\<close>

lemma ex_task:
  "\<exists>s1. task_reach null_env ex_tx \<lparr>tk_w = s1, tk_run = [[Publish 0, Announce 0 5]]\<rparr>"
proof -
  from ex_post obtain s1 where post: "Txq_post null_env 0 (replicate 50 7) 0 ex_tx = (Inr (), s1)" by blast
  let ?f = "Xmit 0 (replicate 50 7) 0 5"
  let ?c0 = "\<lparr>tk_w = ex_tx, tk_run = []\<rparr>" let ?c1 = "\<lparr>tk_w = ex_tx, tk_run = [[?f]]\<rparr>"
  have "task_step null_env ?c0 ?c1"
    using task_step.send [of ?c0 0 "replicate 50 7" 0 5 null_env] ex_closed(1) [of 0]
    by (simp add: tx_request_ok_def)
  with task_reach.idle have "task_reach null_env ex_tx ?c1" by (rule task_reach.more)
  moreover have "frame_run null_env ?f ex_tx = (Inr [Publish 0, Announce 0 5], s1)"
    using post by (simp add: xmit_step_def run_bnd run_sq get_txq_def ex_tx_def ex_txq_def Txq_init_def)
  then have "task_step null_env ?c1 \<lparr>tk_w = s1, tk_run = [] @ ([Publish 0, Announce 0 5] @ []) # []\<rparr>"
    by (intro task_step.run) auto
  ultimately show ?thesis by (auto intro: task_reach.more)
qed

lemma ex_eq_loop:
  "\<exists>res s'. eq_loop null_env 3 0 0 ex_tx1 = (res, s') \<and> run_inv s' \<and> res \<noteq> Inl NoFuel"
proof -
  have "ev_still 3 ex_cq_buf 0 ex_eq ex_tx1"
    by (simp add: ev_still_def ex_mem ex_drv) (simp add: ex_defs)
  moreover have "eq_ring ex_eq 1 3 ex_cq_buf" by (simp add: eq_ring_def ex_eq_def Eq_init_def)
  ultimately show ?thesis
    using eq_loop_quiet [where fuel = 3 and c = 0, OF null_env_ok null_env_spares _ ex_run_inv(2)] ex_run_length
    by fastforce
qed

lemma ex_interrupt: "fst (Driver_interrupt_handler null_env 3 0 ex_tx1) \<noteq> Inl NoFuel"
proof -
  from ex_eq_loop obtain res s1 where l: "eq_loop null_env 3 0 0 ex_tx1 = (res, s1)" "run_inv s1" "res \<noteq> Inl NoFuel"
    by blast
  have f: "drv_interfaces (w_drv ex_tx1) = [0]" "ifc_eq (w_ifs ex_tx1 0) = [0]"
      "ifc_port_up (w_ifs ex_tx1 (eq_interface ex_eq))" "w_eqs ex_tx1 0 = ex_eq" "eq_irq ex_eq = Some 0"
      "eq_cons_ptr ex_eq = 0"
    by (simp_all add: ex_drv ex_ifs ex_mem ex_pool_def ex_if_def ex_eq_def Eq_init_def)
  let ?rest = "\<lambda>c. sq (sq (upd_eq 0 (\<lambda>q. q\<lparr>eq_cons_ptr := c\<rparr>)) (Eq_write_cons_ptr null_env 0)) (sq (Eq_arm null_env 0) (ret ()))"
  have "ends run_inv (?rest c)" for c
    by (intro ends_sq ends_run_upd_eq ends_run_eq_write ends_run_eq_arm null_env_ok ends_basic)
  moreover have "Driver_interrupt_handler null_env 3 0 ex_tx1 = bnd (\<lambda>_. (res, s1)) ?rest ex_tx1"
    by (simp add: Driver_interrupt_handler_def Eq_process_eq_def run_bnd run_sq get_drv_def get_if_def get_eq_def f l(1)
        del: eq_loop.simps split: prod.split sum.split)
  ultimately show ?thesis using l(2,3) by (cases res) (auto simp: run_bnd ends_def)
qed

end
