(* ===== verification/Bring_Up.thy ===== *)
theory Bring_Up
  imports Driver Coroutines
begin

text \<open>
  From power-on to a running driver: \<open>init_pcie_dev\<close> or \<open>init_axi_dev\<close>, then \<open>open\<close> of every
  interface, as the test benches do. The invariant \<open>run_inv\<close> of the running driver (theory
  \<open>Events\<close>) holds of the fresh driver; here it is shown to hold after every step of the
  bring-up, on normal and on exceptional exits, together with what the running driver needs of
  its tables: the rings an interface lists are open, its event queues have their buffers, and
  every completion queue that an event can name has a ring and a handler. The lemmas are triples
  \<open>triple I P m Q\<close>: from \<open>I\<close> and \<open>P\<close> the method ends in \<open>I\<close>, and in \<open>Q\<close> if it returns.
\<close>

section \<open>Triples\<close>

definition triple :: "('s \<Rightarrow> bool) \<Rightarrow> ('s \<Rightarrow> bool) \<Rightarrow> ('s, 'a) M \<Rightarrow> ('a \<Rightarrow> 's \<Rightarrow> bool) \<Rightarrow> bool" where
  "triple I P m Q \<longleftrightarrow> (\<forall>s. I s \<and> P s \<longrightarrow> I (snd (m s)) \<and> (\<forall>x. fst (m s) = Inr x \<longrightarrow> Q x (snd (m s))))"

lemma tripleI:
  "(\<And>s r s'. I s \<Longrightarrow> P s \<Longrightarrow> m s = (r, s') \<Longrightarrow> I s' \<and> (\<forall>x. r = Inr x \<longrightarrow> Q x s')) \<Longrightarrow> triple I P m Q"
  unfolding triple_def by (metis prod.collapse)

lemma tripleD:
  "triple I P m Q \<Longrightarrow> I s \<Longrightarrow> P s \<Longrightarrow> m s = (r, s') \<Longrightarrow> I s' \<and> (\<forall>x. r = Inr x \<longrightarrow> Q x s')"
  unfolding triple_def by (metis fst_conv snd_conv)

lemma triple_bnd:
  assumes "triple I P m R" and "\<And>x. triple I (R x) (f x) Q"
  shows "triple I P (bnd m f) Q"
proof (rule tripleI)
  fix s r s' assume s: "I s" "P s" and run: "bnd m f s = (r, s')"
  obtain q s1 where q: "m s = (q, s1)" by (cases "m s")
  from tripleD [OF assms(1) s q] have s1: "I s1" "\<And>x. q = Inr x \<Longrightarrow> R x s1" by auto
  show "I s' \<and> (\<forall>x. r = Inr x \<longrightarrow> Q x s')"
  proof (cases q)
    case (Inl e)
    with run q s1 show ?thesis by (auto simp: run_bnd)
  next
    case (Inr x)
    with run q have "f x s1 = (r, s')" by (simp add: run_bnd)
    with tripleD [OF assms(2) s1(1) s1(2) [OF Inr]] show ?thesis .
  qed
qed

lemma triple_sq: "triple I P m (\<lambda>_. R) \<Longrightarrow> triple I R n Q \<Longrightarrow> triple I P (sq m n) Q"
  unfolding sq_def by (rule triple_bnd)

lemma triple_Cons: "triple I P m (\<lambda>_. R) \<Longrightarrow> triple I R (seqm ms) Q \<Longrightarrow> triple I P (seqm (m # ms)) Q"
  by (simp add: triple_sq)

lemma triple_keeps:
  assumes "keeps (\<lambda>s. I s \<and> P s) m"
  shows "triple I P m (\<lambda>_. P)"
proof (rule tripleI)
  fix s r s' assume s: "I s" "P s" and "m s = (r, s')"
  with keeps_run [OF assms] show "I s' \<and> (\<forall>x. r = Inr x \<longrightarrow> P s')" by blast
qed

lemma keeps_triple: "triple I (\<lambda>_. True) m (\<lambda>_ _. True) \<Longrightarrow> keeps I m"
  by (simp add: triple_def keeps_def)

lemma triple_conseq:
  "triple I P m Q \<Longrightarrow> (\<And>s. I s \<Longrightarrow> P' s \<Longrightarrow> P s) \<Longrightarrow> (\<And>x s. I s \<Longrightarrow> Q x s \<Longrightarrow> Q' x s) \<Longrightarrow> triple I P' m Q'"
  unfolding triple_def by metis

lemma triple_forM:
  assumes "\<And>x. x \<in> set xs \<Longrightarrow> triple I P (f x) (\<lambda>_. P)"
  shows "triple I P (forM xs f) (\<lambda>_. P)"
  using assms by (induction xs) (auto intro: triple_sq simp: triple_def [of _ _ "ret ()"])

section \<open>The invariant of a driver that is coming up\<close>

definition eq_ready :: "'h world \<Rightarrow> nat \<Rightarrow> bool" where
  "eq_ready s e \<longleftrightarrow> eq_hw_regs (w_eqs s e) \<noteq> None \<and>
     (\<exists>k b. eq_ring (w_eqs s e) k b (w_mem s b) \<and> b < w_next_region s \<and>
       (\<forall>r. rxq_buf (w_rxqs s r) \<noteq> Some b))"

definition up_inv :: "'h world \<Rightarrow> bool" where
  "up_inv s \<longleftrightarrow> run_inv s \<and>
     (\<forall>i \<ge> w_next_txq s. txq_hw_regs (w_txqs s i) = None) \<and>
     (\<forall>i \<ge> w_next_rxq s. rxq_hw_regs (w_rxqs s i) = None) \<and>
     (\<forall>i \<ge> w_next_cq s. cq_src_ring (w_cqs s i) = None) \<and>
     (\<forall>i \<ge> w_next_eq s. eq_hw_regs (w_eqs s i) = None) \<and>
     (\<forall>i b. rxq_buf (w_rxqs s i) = Some b \<longrightarrow> b < w_next_region s) \<and>
     (\<forall>i. \<forall>r \<in> set (ifc_txq (w_ifs s i)). txq_hw_regs (w_txqs s r) \<noteq> None) \<and>
     (\<forall>i. \<forall>r \<in> set (ifc_rxq (w_ifs s i)). rxq_hw_regs (w_rxqs s r) \<noteq> None) \<and>
     (\<forall>i. \<forall>e \<in> set (ifc_eq (w_ifs s i)). eq_ready s e)"

lemma up_invD:
  assumes "up_inv s"
  shows "run_inv s" "w_next_txq s \<le> i \<Longrightarrow> txq_hw_regs (w_txqs s i) = None"
    "w_next_rxq s \<le> i \<Longrightarrow> rxq_hw_regs (w_rxqs s i) = None"
    "w_next_cq s \<le> i \<Longrightarrow> cq_src_ring (w_cqs s i) = None"
    "w_next_eq s \<le> i \<Longrightarrow> eq_hw_regs (w_eqs s i) = None"
    "r \<in> set (ifc_txq (w_ifs s f)) \<Longrightarrow> txq_hw_regs (w_txqs s r) \<noteq> None"
    "r \<in> set (ifc_rxq (w_ifs s f)) \<Longrightarrow> rxq_hw_regs (w_rxqs s r) \<noteq> None"
    "e \<in> set (ifc_eq (w_ifs s f)) \<Longrightarrow> eq_ready s e"
    "rxq_buf (w_rxqs s i) = Some b \<Longrightarrow> b < w_next_region s"
  using assms unfolding up_inv_def by blast+

lemma up_inv_init: "up_inv (init_world h)"
  using run_inv_init [of h]
  by (simp add: up_inv_def) (simp add: init_world_def Interface_init_def Txq_init_def Rxq_init_def Cq_init_def Eq_init_def)

text \<open>
  A step of the bring-up: objects are added, memory only grows, what is open stays as it is but
  for the flags the invariant does not speak of, and no buffer enters a ring.
\<close>

definition grows :: "'h world \<Rightarrow> 'h world \<Rightarrow> bool" where
  "grows s s' \<longleftrightarrow>
     drv_allocated_packets (w_drv s') = drv_allocated_packets (w_drv s) \<and>
     drv_free_packets (w_drv s') = drv_free_packets (w_drv s) \<and>
     drv_pkt_buf_size (w_drv s') = drv_pkt_buf_size (w_drv s) \<and>
     w_next_region s \<le> w_next_region s' \<and> w_next_eq s \<le> w_next_eq s' \<and> w_next_cq s \<le> w_next_cq s' \<and>
     w_next_txq s \<le> w_next_txq s' \<and> w_next_rxq s \<le> w_next_rxq s' \<and>
     (\<forall>b < w_next_region s. length (w_mem s' b) = length (w_mem s b)) \<and>
     (\<forall>i. txq_hw_regs (w_txqs s i) \<noteq> None \<or> txq_hw_regs (w_txqs s' i) \<noteq> None \<longrightarrow>
        (w_txqs s' i)\<lparr>txq_enabled := False\<rparr> = (w_txqs s i)\<lparr>txq_enabled := False\<rparr>) \<and>
     (\<forall>i. rxq_hw_regs (w_rxqs s i) \<noteq> None \<or> rxq_hw_regs (w_rxqs s' i) \<noteq> None \<longrightarrow>
        (w_rxqs s' i)\<lparr>rxq_enabled := False\<rparr> = (w_rxqs s i)\<lparr>rxq_enabled := False\<rparr>) \<and>
     (\<forall>r n p. slot s' r n = Some p \<longrightarrow> slot s r n = Some p) \<and>
     (\<forall>c. cq_src_ring (w_cqs s c) \<noteq> None \<or> cq_src_ring (w_cqs s' c) \<noteq> None \<longrightarrow> w_cqs s' c = w_cqs s c) \<and>
     (\<forall>i. \<forall>e \<in> set (ifc_eq (w_ifs s i)).
        (w_eqs s' e)\<lparr>eq_cq_table := Map.empty\<rparr> = (w_eqs s e)\<lparr>eq_cq_table := Map.empty\<rparr>) \<and>
     (\<forall>e. eq_hw_regs (w_eqs s' e) \<noteq> None \<longrightarrow> eq_hw_regs (w_eqs s e) \<noteq> None \<or> e < w_next_eq s') \<and>
     (\<forall>r b. rxq_buf (w_rxqs s' r) = Some b \<longrightarrow> rxq_buf (w_rxqs s r) = Some b \<or> w_next_region s \<le> b \<and> b < w_next_region s') \<and>
     (\<forall>i. set (ifc_txq (w_ifs s' i)) \<subseteq> set (ifc_txq (w_ifs s i))) \<and>
     (\<forall>i. set (ifc_rxq (w_ifs s' i)) \<subseteq> set (ifc_rxq (w_ifs s i))) \<and>
     (\<forall>i. set (ifc_eq (w_ifs s' i)) \<subseteq> set (ifc_eq (w_ifs s i)))"

lemma grows_parts:
  assumes "grows s s'"
  shows "drv_allocated_packets (w_drv s') = drv_allocated_packets (w_drv s)"
    "drv_free_packets (w_drv s') = drv_free_packets (w_drv s)"
    "drv_pkt_buf_size (w_drv s') = drv_pkt_buf_size (w_drv s)"
    "w_next_region s \<le> w_next_region s'"
    "\<forall>b < w_next_region s. length (w_mem s' b) = length (w_mem s b)"
    "\<forall>i. txq_hw_regs (w_txqs s i) \<noteq> None \<or> txq_hw_regs (w_txqs s' i) \<noteq> None \<longrightarrow>
       (w_txqs s' i)\<lparr>txq_enabled := False\<rparr> = (w_txqs s i)\<lparr>txq_enabled := False\<rparr>"
    "\<forall>i. rxq_hw_regs (w_rxqs s i) \<noteq> None \<or> rxq_hw_regs (w_rxqs s' i) \<noteq> None \<longrightarrow>
       (w_rxqs s' i)\<lparr>rxq_enabled := False\<rparr> = (w_rxqs s i)\<lparr>rxq_enabled := False\<rparr>"
    "\<forall>r n p. slot s' r n = Some p \<longrightarrow> slot s r n = Some p"
    "\<forall>c. cq_src_ring (w_cqs s c) \<noteq> None \<or> cq_src_ring (w_cqs s' c) \<noteq> None \<longrightarrow> w_cqs s' c = w_cqs s c"
    "\<forall>i. \<forall>e \<in> set (ifc_eq (w_ifs s i)).
       (w_eqs s' e)\<lparr>eq_cq_table := Map.empty\<rparr> = (w_eqs s e)\<lparr>eq_cq_table := Map.empty\<rparr>"
    "\<forall>e. eq_hw_regs (w_eqs s' e) \<noteq> None \<longrightarrow> eq_hw_regs (w_eqs s e) \<noteq> None \<or> e < w_next_eq s'"
    "\<forall>r b. rxq_buf (w_rxqs s' r) = Some b \<longrightarrow> rxq_buf (w_rxqs s r) = Some b \<or> w_next_region s \<le> b \<and> b < w_next_region s'"
    "\<forall>i. set (ifc_txq (w_ifs s' i)) \<subseteq> set (ifc_txq (w_ifs s i))"
    "\<forall>i. set (ifc_rxq (w_ifs s' i)) \<subseteq> set (ifc_rxq (w_ifs s i))"
    "\<forall>i. set (ifc_eq (w_ifs s' i)) \<subseteq> set (ifc_eq (w_ifs s i))"
    "w_next_eq s \<le> w_next_eq s'" "w_next_cq s \<le> w_next_cq s'"
    "w_next_txq s \<le> w_next_txq s'" "w_next_rxq s \<le> w_next_rxq s'"
  by (insert assms, unfold grows_def, (elim conjE, assumption)+)

lemmas growsD = grows_parts [rule_format]

text \<open>The fields of an open ring, from equality up to the flag.\<close>

lemma txq_but_enabled:
  assumes "q'\<lparr>txq_enabled := False\<rparr> = q\<lparr>txq_enabled := False\<rparr>"
  shows "txq_hw_regs q' = txq_hw_regs q" "txq_tx_info q' = txq_tx_info q" "txq_size q' = txq_size q"
    "txq_size_mask q' = txq_size_mask q" "txq_full_size q' = txq_full_size q"
    "txq_desc_block_size q' = txq_desc_block_size q" "txq_stride q' = txq_stride q"
    "txq_buf q' = txq_buf q" "txq_prod_ptr q' = txq_prod_ptr q" "txq_cons_ptr q' = txq_cons_ptr q"
    "txq_interface q' = txq_interface q"
  using assms by (cases q; cases q'; simp)+

lemma rxq_but_enabled:
  assumes "q'\<lparr>rxq_enabled := False\<rparr> = q\<lparr>rxq_enabled := False\<rparr>"
  shows "rxq_hw_regs q' = rxq_hw_regs q" "rxq_rx_info q' = rxq_rx_info q" "rxq_size q' = rxq_size q"
    "rxq_size_mask q' = rxq_size_mask q" "rxq_full_size q' = rxq_full_size q"
    "rxq_desc_block_size q' = rxq_desc_block_size q" "rxq_stride q' = rxq_stride q"
    "rxq_buf q' = rxq_buf q" "rxq_prod_ptr q' = rxq_prod_ptr q" "rxq_cons_ptr q' = rxq_cons_ptr q"
    "rxq_interface q' = rxq_interface q"
  using assms by (cases q; cases q'; simp)+

lemma eq_but_table:
  assumes "q'\<lparr>eq_cq_table := Map.empty\<rparr> = q\<lparr>eq_cq_table := Map.empty\<rparr>"
  shows "eq_hw_regs q' = eq_hw_regs q" "eq_size q' = eq_size q" "eq_size_mask q' = eq_size_mask q"
    "eq_stride q' = eq_stride q" "eq_buf q' = eq_buf q"
  using assms by (cases q; cases q'; simp)+

lemma grows_txq_ring:
  assumes g: "grows s s'" and r: "txq_ring i k n b s" and o: "txq_hw_regs (w_txqs s i) \<noteq> None"
  shows "txq_ring i k n b s'"
proof -
  note f = txq_but_enabled [OF growsD(6) [OF g disjI1 [OF o]]]
  from r have "b < w_next_region s" by (simp add: txq_ring_def Let_def)
  with growsD(4) [OF g] growsD(5) [OF g this] r show ?thesis
    by (simp add: txq_ring_def Let_def f growsD(1) [OF g])
qed

lemma grows_rxq_ring:
  assumes g: "grows s s'" and r: "rxq_ring i k n b s" and o: "rxq_hw_regs (w_rxqs s i) \<noteq> None"
  shows "rxq_ring i k n b s'"
proof -
  note f = rxq_but_enabled [OF growsD(7) [OF g disjI1 [OF o]]]
  from r have "b < w_next_region s" by (simp add: rxq_ring_def Let_def)
  with growsD(4) [OF g] growsD(5) [OF g this] r show ?thesis
    by (simp add: rxq_ring_def Let_def f growsD(1) [OF g])
qed

lemma grows_hw:
  assumes g: "grows s s'"
  shows "txq_hw_regs (w_txqs s' i) = None \<longleftrightarrow> txq_hw_regs (w_txqs s i) = None"
    "rxq_hw_regs (w_rxqs s' i) = None \<longleftrightarrow> rxq_hw_regs (w_rxqs s i) = None"
  using txq_but_enabled(1) [OF growsD(6) [OF g]] rxq_but_enabled(1) [OF growsD(7) [OF g]] by metis+

lemma grows_cq_attached:
  assumes g: "grows s s'" and a: "cq_attached s c r" and q: "w_cqs s' c = w_cqs s c"
  shows "cq_attached s' c r"
proof -
  from a obtain k b where c: "cq_ring c k b s" "b < w_next_region s" by (auto simp: cq_attached_def)
  with growsD(5) [OF g c(2)] have "cq_ring c k b s'" by (simp add: cq_ring_def q Let_def)
  moreover have "b < w_next_region s'" using c(2) growsD(4) [OF g] by simp
  ultimately have "\<exists>k b. cq_ring c k b s' \<and> b < w_next_region s'" by blast
  with a grows_hw [OF g] show ?thesis by (simp add: cq_attached_def q split: ring_ref.splits)
qed

lemma grows_run_inv:
  assumes inv: "run_inv s" and g: "grows s s'"
  shows "run_inv s'"
proof -
  have out: "outstanding s' = outstanding s" by (simp add: outstanding_def growsD(1,2) [OF g])
  have pool: "pool_inv s'" using bufs_inv_pool [OF run_invD(1) [OF inv]] growsD(4) [OF g]
    by (auto simp: pool_inv_def growsD(1,2) [OF g] intro: less_le_trans)
  have bufs: "bufs_inv s'"
    unfolding bufs_inv_def out
    using pool growsD(8) [OF g] bufs_inv_outstanding [OF run_invD(1) [OF inv]] bufs_inv_unique [OF run_invD(1) [OF inv]]
    by blast
  have pok: "packets_ok s'"
    using run_invD(2) [OF inv] bufs_inv_pool [OF run_invD(1) [OF inv]]
    by (auto simp: packets_ok_def pool_inv_def growsD(1,3) [OF g] growsD(5) [OF g])
  show ?thesis
    unfolding run_inv_def
  proof (intro conjI allI impI)
    fix i assume "txq_hw_regs (w_txqs s' i) \<noteq> None"
    then have "txq_hw_regs (w_txqs s i) \<noteq> None" by (simp add: grows_hw [OF g])
    with run_invD(3) [OF inv] grows_txq_ring [OF g] show "\<exists>k n b. txq_ring i k n b s'" by blast
  next
    fix i assume "rxq_hw_regs (w_rxqs s' i) \<noteq> None"
    then have "rxq_hw_regs (w_rxqs s i) \<noteq> None" by (simp add: grows_hw [OF g])
    with run_invD(4) [OF inv] grows_rxq_ring [OF g] show "\<exists>k n b. rxq_ring i k n b s'" by blast
  next
    fix c r assume r: "cq_src_ring (w_cqs s' c) = Some r"
    then have "w_cqs s' c = w_cqs s c" by (intro growsD(9) [OF g]) simp
    with r run_invD(5) [OF inv, of c r] grows_cq_attached [OF g] show "cq_attached s' c r" by simp
  qed (fact bufs pok)+
qed

lemma grows_eq_ready:
  assumes inv: "eq_ready s e" and g: "grows s s'" and l: "e \<in> set (ifc_eq (w_ifs s i))"
  shows "eq_ready s' e"
proof -
  from inv obtain k b where o: "eq_hw_regs (w_eqs s e) \<noteq> None" and q: "eq_ring (w_eqs s e) k b (w_mem s b)"
      "b < w_next_region s" "\<And>r. rxq_buf (w_rxqs s r) \<noteq> Some b"
    by (auto simp: eq_ready_def)
  note f = eq_but_table [OF growsD(10) [OF g l]]
  have "eq_ring (w_eqs s' e) k b (w_mem s' b)" using q(1,2) growsD(5) [OF g] by (simp add: eq_ring_def f)
  moreover have "rxq_buf (w_rxqs s' r) \<noteq> Some b" for r using q(2,3) growsD(12) [OF g, of r b] by auto
  moreover have "b < w_next_region s'" using q(2) growsD(4) [OF g] by simp
  ultimately show ?thesis using o unfolding eq_ready_def f by blast
qed

lemma grows_up_inv:
  assumes inv: "up_inv s" and g: "grows s s'"
  shows "up_inv s'"
  unfolding up_inv_def
proof (intro conjI allI impI ballI)
  show "run_inv s'" using up_invD(1) [OF inv] g by (rule grows_run_inv)
next
  fix i assume "w_next_txq s' \<le> i"
  then show "txq_hw_regs (w_txqs s' i) = None" using growsD(18) [OF g] up_invD(2) [OF inv] by (simp add: grows_hw [OF g])
next
  fix i assume "w_next_rxq s' \<le> i"
  then show "rxq_hw_regs (w_rxqs s' i) = None" using growsD(19) [OF g] up_invD(3) [OF inv] by (simp add: grows_hw [OF g])
next
  fix i assume "w_next_cq s' \<le> i"
  then have "cq_src_ring (w_cqs s i) = None" using growsD(17) [OF g] up_invD(4) [OF inv] by simp
  then show "cq_src_ring (w_cqs s' i) = None" using growsD(9) [OF g, of i] by fastforce
next
  fix i assume "w_next_eq s' \<le> i"
  then show "eq_hw_regs (w_eqs s' i) = None"
    using growsD(11) [OF g, of i] growsD(16) [OF g] up_invD(5) [OF inv, of i] by fastforce
next
  fix i b assume "rxq_buf (w_rxqs s' i) = Some b"
  with growsD(12) [OF g this] growsD(4) [OF g] up_invD(9) [OF inv, of i b] show "b < w_next_region s'" by fastforce
next
  fix i r assume "r \<in> set (ifc_txq (w_ifs s' i))"
  then show "txq_hw_regs (w_txqs s' r) \<noteq> None" using growsD(13) [OF g] up_invD(6) [OF inv] unfolding grows_hw [OF g] by blast
next
  fix i r assume "r \<in> set (ifc_rxq (w_ifs s' i))"
  then show "rxq_hw_regs (w_rxqs s' r) \<noteq> None" using growsD(14) [OF g] up_invD(7) [OF inv] unfolding grows_hw [OF g] by blast
next
  fix i e assume "e \<in> set (ifc_eq (w_ifs s' i))"
  then have e: "e \<in> set (ifc_eq (w_ifs s i))" using growsD(15) [OF g] by blast
  from grows_eq_ready [OF up_invD(8) [OF inv e] g e] show "eq_ready s' e" .
qed

section \<open>The steps\<close>

text \<open>
  While a completion queue is being opened an event queue may already know it although it has no
  ring yet; \<open>X\<close> are the completion queues in that state.
\<close>

definition served :: "nat set \<Rightarrow> 'h world \<Rightarrow> bool" where
  "served X s \<longleftrightarrow> (\<forall>e n c. eq_cq_table (w_eqs s e) n = Some c \<and> c \<notin> X \<longrightarrow> cq_src_ring (w_cqs s c) \<noteq> None)"

definition coming_up :: "nat set \<Rightarrow> 'h world \<Rightarrow> bool" where
  "coming_up X s \<longleftrightarrow> up_inv s \<and> served X s"

lemma coming_up_init: "coming_up X (init_world h)"
  using up_inv_init [of h] by (simp add: coming_up_def) (simp add: served_def init_world_def Eq_init_def)

lemma coming_up_grows:
  assumes o: "coming_up X s" and g: "grows s s'"
    and t: "\<And>e n c. eq_cq_table (w_eqs s' e) n = Some c \<Longrightarrow> eq_cq_table (w_eqs s e) n = Some c \<or> c \<in> X"
  shows "coming_up X s'"
  unfolding coming_up_def
proof
  show "up_inv s'" using o g by (auto simp: coming_up_def intro: grows_up_inv)
  have "cq_src_ring (w_cqs s' c) \<noteq> None" if "eq_cq_table (w_eqs s' e) n = Some c" "c \<notin> X" for e n c
  proof -
    from t [OF that(1)] that(2) o have "cq_src_ring (w_cqs s c) \<noteq> None" unfolding coming_up_def served_def by blast
    with growsD(9) [OF g, of c] show ?thesis by simp
  qed
  then show "served X s'" unfolding served_def by blast
qed

lemma slot_frame [simp]:
  "slot (s\<lparr>w_hw := a\<rparr>) x n = slot s x n" "slot (s\<lparr>w_mem := m\<rparr>) x n = slot s x n"
  "slot (s\<lparr>w_next_region := k\<rparr>) x n = slot s x n" "slot (s\<lparr>w_eqs := e\<rparr>) x n = slot s x n"
  "slot (s\<lparr>w_next_eq := k\<rparr>) x n = slot s x n" "slot (s\<lparr>w_next_cq := k\<rparr>) x n = slot s x n"
  "slot (s\<lparr>w_next_txq := k\<rparr>) x n = slot s x n" "slot (s\<lparr>w_next_rxq := k\<rparr>) x n = slot s x n"
  "slot (s\<lparr>w_ifs := f\<rparr>) x n = slot s x n" "slot (s\<lparr>w_next_if := k\<rparr>) x n = slot s x n"
  "slot (s\<lparr>w_drv := d\<rparr>) x n = slot s x n"
  by (cases x; simp add: slot_def)+

named_theorems up_intros "methods that keep the invariant of the bring-up"

lemma keeps_case_prod: "(\<And>a b. keeps I (f a b)) \<Longrightarrow> keeps I (case p of (a, b) \<Rightarrow> f a b)"
  by (cases p) simp

lemmas up_basic [up_intros] = keeps_case_prod keeps_ret keeps_throw keeps_gets keeps_assertM keeps_attr keeps_lift_res
  keeps_bnd keeps_sq keeps_if keeps_forM still_option still_seqm

lemma grows_bus: "bus_frame s s' \<Longrightarrow> same_sizes (w_mem s) (w_mem s') \<Longrightarrow> grows s s'"
  by (simp add: grows_def slot_bus bus_frame_fields same_sizes_def)

lemma coming_up_bus: "coming_up X s \<Longrightarrow> bus_frame s s' \<Longrightarrow> same_sizes (w_mem s) (w_mem s') \<Longrightarrow> coming_up X s'"
  by (erule coming_up_grows) (simp_all add: grows_bus bus_frame_fields)

lemma ctl_state_sizes: "device_ok E \<Longrightarrow> same_sizes (w_mem s) (w_mem (ctl_state E c s))"
  unfolding device_ok_def ctl_state_def by (auto split: prod.splits) (metis snd_conv)

lemma up_read [up_intros]: "device_ok E \<Longrightarrow> keeps (coming_up X) (read_dword E w a)"
  by (rule keepsI) (auto intro: coming_up_bus rd_state_sizes)

lemma up_write [up_intros]: "device_ok E \<Longrightarrow> keeps (coming_up X) (write_dword E w a v)"
  by (rule keepsI) (auto intro: coming_up_bus wr_state_sizes)

lemma up_control [up_intros]: "device_ok E \<Longrightarrow> keeps (coming_up X) (control E c)"
  by (rule keepsI) (auto intro: coming_up_bus ctl_state_sizes)

lemma up_upd_drv:
  assumes "\<And>d. drv_allocated_packets (f d) = drv_allocated_packets d"
    "\<And>d. drv_free_packets (f d) = drv_free_packets d" "\<And>d. drv_pkt_buf_size (f d) = drv_pkt_buf_size d"
  shows "keeps (coming_up X) (upd_drv f)"
  unfolding upd_drv_def
  by (rule keeps_modifies, erule coming_up_grows) (simp_all add: grows_def assms)

lemma up_upd_if:
  assumes "\<And>i. set (ifc_txq (f i)) \<subseteq> set (ifc_txq i)" "\<And>i. set (ifc_rxq (f i)) \<subseteq> set (ifc_rxq i)"
    "\<And>i. set (ifc_eq (f i)) \<subseteq> set (ifc_eq i)"
  shows "keeps (coming_up X) (upd_if j f)"
  unfolding upd_if_def
  by (rule keeps_modifies, erule coming_up_grows) (use assms in \<open>auto simp: grows_def\<close>)

lemma set_res_lists [simp]:
  "ifc_txq (set_res k r i) = ifc_txq i" "ifc_rxq (set_res k r i) = ifc_rxq i" "ifc_eq (set_res k r i) = ifc_eq i"
  by (cases k; simp)+

lemma up_if_alloc [up_intros]: "keeps (coming_up X) (if_alloc k i)"
  unfolding if_alloc_def get_if_def by (intro up_intros up_upd_if) simp_all

lemma up_if_get_window [up_intros]: "keeps (coming_up X) (if_get_window k i n)"
  unfolding if_get_window_def get_if_def by (intro up_intros up_upd_if) simp_all

text \<open>Objects are made at unused indices.\<close>

lemma up_new_if [up_intros]: "keeps (coming_up X) (new_if k w csr)"
  unfolding new_if_def
  by (rule keepsI, erule coming_up_grows) (auto simp: grows_def Interface_init_def)

lemma up_listed_eq: "up_inv s \<Longrightarrow> e \<in> set (ifc_eq (w_ifs s i)) \<Longrightarrow> e < w_next_eq s"
  using up_invD(5,8) unfolding eq_ready_def by (metis not_less)

lemma up_new_eq [up_intros]: "keeps (coming_up X) (new_eq i)"
  unfolding new_eq_def
proof (rule keepsI)
  fix s :: "'a world" assume o: "coming_up X s"
  let ?s = "s\<lparr>w_eqs := (w_eqs s)(w_next_eq s := Eq_init i), w_next_eq := Suc (w_next_eq s)\<rparr>"
  from o have "\<And>j. w_next_eq s \<notin> set (ifc_eq (w_ifs s j))" using up_listed_eq by (auto simp: coming_up_def)
  then have "grows s ?s" by (auto simp: grows_def Eq_init_def)
  with o have "coming_up X ?s" by (rule coming_up_grows) (auto simp: Eq_init_def split: if_splits)
  then show "coming_up X (snd (Inr (w_next_eq s), ?s))" by simp
qed

lemma up_new_cq [up_intros]: "keeps (coming_up X) (new_cq i)"
  unfolding new_cq_def
proof (rule keepsI)
  fix s :: "'a world" assume o: "coming_up X s"
  let ?s = "s\<lparr>w_cqs := (w_cqs s)(w_next_cq s := Cq_init i), w_next_cq := Suc (w_next_cq s)\<rparr>"
  from o have "cq_src_ring (w_cqs s (w_next_cq s)) = None" using up_invD(4) by (auto simp: coming_up_def)
  then have "grows s ?s" by (auto simp: grows_def Cq_init_def)
  with o have "coming_up X ?s" by (rule coming_up_grows) auto
  then show "coming_up X (snd (Inr (w_next_cq s), ?s))" by simp
qed

lemma up_new_txq [up_intros]: "keeps (coming_up X) (new_txq i)"
  unfolding new_txq_def
proof (rule keepsI)
  fix s :: "'a world" assume o: "coming_up X s"
  let ?s = "s\<lparr>w_txqs := (w_txqs s)(w_next_txq s := Txq_init i), w_next_txq := Suc (w_next_txq s)\<rparr>"
  from o have "txq_hw_regs (w_txqs s (w_next_txq s)) = None" using up_invD(2) by (auto simp: coming_up_def)
  moreover have "slot ?s x n = Some p \<Longrightarrow> slot s x n = Some p" for x n p
    by (cases x) (auto simp: slot_def Txq_init_def split: if_splits)
  ultimately have "grows s ?s" by (auto simp: grows_def Txq_init_def)
  with o have "coming_up X ?s" by (rule coming_up_grows) auto
  then show "coming_up X (snd (Inr (w_next_txq s), ?s))" by simp
qed

lemma up_new_rxq [up_intros]: "keeps (coming_up X) (new_rxq i)"
  unfolding new_rxq_def
proof (rule keepsI)
  fix s :: "'a world" assume o: "coming_up X s"
  let ?s = "s\<lparr>w_rxqs := (w_rxqs s)(w_next_rxq s := Rxq_init i), w_next_rxq := Suc (w_next_rxq s)\<rparr>"
  from o have "rxq_hw_regs (w_rxqs s (w_next_rxq s)) = None" using up_invD(3) by (auto simp: coming_up_def)
  moreover have "slot ?s x n = Some p \<Longrightarrow> slot s x n = Some p" for x n p
    by (cases x) (auto simp: slot_def Rxq_init_def split: if_splits)
  ultimately have "grows s ?s" by (auto simp: grows_def Rxq_init_def)
  with o have "coming_up X ?s" by (rule coming_up_grows) auto
  then show "coming_up X (snd (Inr (w_next_rxq s), ?s))" by simp
qed

text \<open>Host memory.\<close>

lemma up_alloc_region [up_intros]: "keeps (coming_up X) (alloc_region E n)"
proof (rule keepsI)
  fix s :: "'a world" assume o: "coming_up X s"
  show "coming_up X (snd (alloc_region E n s))"
  proof (cases "pool_alloc E (w_hw s) n")
    case None
    with o show ?thesis by (simp add: alloc_region_def)
  next
    case (Some v)
    obtain a bs h where v: "v = (a, bs, h)" by (cases v)
    let ?s = "s\<lparr>w_hw := h, w_mem := (w_mem s)(w_next_region s := bs), w_next_region := Suc (w_next_region s)\<rparr>"
    have "grows s ?s" by (auto simp: grows_def)
    with o have "coming_up X ?s" by (rule coming_up_grows) auto
    with Some v show ?thesis by (simp add: alloc_region_def)
  qed
qed

lemma up_mem_store [up_intros]: "keeps (coming_up X) (mem_store b off bs)"
proof (rule keepsI)
  fix s :: "'a world" assume o: "coming_up X s"
  show "coming_up X (snd (mem_store b off bs s))"
  proof (cases "0 \<le> off \<and> nat off + length bs \<le> length (w_mem s b)")
    case True
    let ?s = "s\<lparr>w_mem := (w_mem s)(b := splice (w_mem s b) (nat off) bs)\<rparr>"
    have "grows s ?s" using True by (auto simp: grows_def)
    with o have "coming_up X ?s" by (rule coming_up_grows) auto
    with True show ?thesis by (simp add: mem_store_def)
  next
    case False
    then have "mem_store b off bs s = (Inl IndexError, s)" by (auto simp: mem_store_def)
    with o show ?thesis by simp
  qed
qed

section \<open>Opening an event queue\<close>

definition unlisted_eq :: "nat \<Rightarrow> 'h world \<Rightarrow> bool" where
  "unlisted_eq e s \<longleftrightarrow> e < w_next_eq s \<and> (\<forall>i. e \<notin> set (ifc_eq (w_ifs s i)))"

lemma keeps_both: "keeps I m \<Longrightarrow> keeps P m \<Longrightarrow> keeps (\<lambda>s. I s \<and> P s) m"
  by (simp add: keeps_def)

lemma unlisted_upd_if:
  "(\<And>i. set (ifc_eq (f i)) \<subseteq> set (ifc_eq i)) \<Longrightarrow> keeps (unlisted_eq e) (upd_if j f)"
  unfolding upd_if_def by (rule keeps_modifies) (auto simp: unlisted_eq_def)

lemma unlisted_basic [up_intros]:
  "keeps (unlisted_eq e) (write_dword E w a v)" "keeps (unlisted_eq e) (alloc_region E n)"
  "keeps (unlisted_eq e) (mem_store b off bs)" "keeps (unlisted_eq e) (if_alloc k i)"
  "keeps (unlisted_eq e) (if_get_window k i j)"
proof -
  show "keeps (unlisted_eq e) (write_dword E w a v)" "keeps (unlisted_eq e) (alloc_region E n)"
      "keeps (unlisted_eq e) (mem_store b off bs)"
    by (auto simp: keeps_def unlisted_eq_def alloc_region_def mem_store_def split: option.split)
  show "keeps (unlisted_eq e) (if_alloc k i)"
    unfolding if_alloc_def get_if_def by (intro up_intros unlisted_upd_if) simp
  show "keeps (unlisted_eq e) (if_get_window k i j)"
    unfolding if_get_window_def get_if_def by (intro up_intros unlisted_upd_if) simp
qed

lemma unlisted_upd_eq:
  assumes "\<And>q n c. eq_cq_table (f q) n = Some c \<Longrightarrow> eq_cq_table q n = Some c"
  shows "keeps (\<lambda>s. coming_up X s \<and> unlisted_eq e s) (upd_eq e f)"
  unfolding upd_eq_def
proof (rule keeps_modifies)
  fix s :: "'a world" assume o: "coming_up X s \<and> unlisted_eq e s"
  let ?s = "s\<lparr>w_eqs := (w_eqs s)(e := f (w_eqs s e))\<rparr>"
  have g: "grows s ?s" using o by (auto simp: grows_def unlisted_eq_def)
  have "eq_cq_table (w_eqs s e') n = Some c \<or> c \<in> X" if "eq_cq_table (w_eqs ?s e') n = Some c" for e' n c
  proof (cases "e' = e")
    case True
    with that have "eq_cq_table (f (w_eqs s e)) n = Some c" by simp
    from assms [OF this] True show ?thesis by simp
  qed (use that in simp)
  with conjunct1 [OF o] g have "coming_up X ?s" by (rule coming_up_grows)
  with o show "coming_up X ?s \<and> unlisted_eq e ?s" by (simp add: unlisted_eq_def)
qed

lemmas unlisted_intros = keeps_both [OF up_write unlisted_basic(1)] keeps_both [OF up_alloc_region unlisted_basic(2)]
  keeps_both [OF up_mem_store unlisted_basic(3)] keeps_both [OF up_if_alloc unlisted_basic(4)]
  keeps_both [OF up_if_get_window unlisted_basic(5)] unlisted_upd_eq

lemma up_Eq_open:
  assumes dev: "device_ok E"
  shows "keeps (\<lambda>s. coming_up X s \<and> unlisted_eq e s) (Eq_open E e irq sz)"
  unfolding Eq_open_def get_eq_def Let_def
  by (intro up_basic unlisted_intros dev) auto

lemma pool_length: "device_ok E \<Longrightarrow> pool_alloc E h n = Some (a, bs, h') \<Longrightarrow> length bs = nat n"
  unfolding device_ok_def by blast

lemma Eq_open_ready:
  assumes dev: "device_ok E" and sz: "0 < sz" and inv: "up_inv s"
    and run: "Eq_open E e irq sz s = (Inr (), s')"
  shows "eq_ready s' e"
proof -
  have log: "bit_length sz - 1 = int (floor_log2 sz)" using sz by (intro bit_length_floor_log2) simp
  have ev: "MQNIC_EVENT_SIZE = 32" by (simp add: regs)
  have nat: "nat (2 ^ floor_log2 sz * 32) = 2 ^ floor_log2 sz * 32" by (simp add: nat_mult_distrib nat_power_eq)
  have sizes: "length (w_mem (wr_state E w x v t) b) = length (w_mem t b)" for w x v t b
    using wr_state_sizes [OF dev, of t w x v] by (simp add: same_sizes_def)
  have fresh: "rxq_buf (w_rxqs s r) \<noteq> Some (w_next_region s)" for r using up_invD(9) [OF inv, of r] by blast
  have "eq_hw_regs (w_eqs s' e) \<noteq> None \<and> eq_ring (w_eqs s' e) (floor_log2 sz) (w_next_region s) (w_mem s' (w_next_region s)) \<and>
      w_next_region s < w_next_region s' \<and> w_rxqs s' = w_rxqs s"
    using run sz unfolding Eq_open_def
    by (auto simp: run_simps if_alloc_def if_get_window_def log ev alloc_region_def mem_store_def nat Let_def
        eq_ring_def sizes pool_length [OF dev] split: if_splits option.splits sum.splits prod.splits)
  with fresh show ?thesis by (auto simp: eq_ready_def)
qed

section \<open>Discovery\<close>

lemma up_rb [up_intros]:
  assumes "device_ok E"
  shows "keeps (coming_up X) (rb_read E rb a)" "keeps (coming_up X) (rb_write E rb a v)"
  by (simp_all add: rb_read_def rb_write_def up_read up_write assms)

lemma up_enumerate [up_intros]: "device_ok E \<Longrightarrow> keeps (coming_up X) (enumerate_reg_blocks n E w off bs)"
  by (rule enumerate_keeps) (rule up_read)

lemma up_Port_init [up_intros]: "device_ok E \<Longrightarrow> keeps (coming_up X) (Port_init_hw E p)"
  unfolding Port_init_hw_def enumerate_or_raise_def Port_set_tx_ctrl_def Port_set_rx_ctrl_def
    Port_set_lfc_ctrl_def Port_set_pfc_ctrl_def port_write_def Let_def
  by (intro up_intros)

lemma up_init_ctrl [up_intros]: "device_ok E \<Longrightarrow> keeps (coming_up X) (Interface_init_ctrl E i)"
  unfolding Interface_init_ctrl_def Interface_set_mtu_def get_drv_def get_if_def Let_def
  by (intro up_intros up_upd_if) simp_all

lemma up_find_resource [up_intros]: "device_ok E \<Longrightarrow> keeps (coming_up X) (find_resource E i rb a b c n)"
  unfolding find_resource_def get_if_def by (intro up_intros)

lemma up_find_block [up_intros]: "keeps (coming_up X) (Interface_find_block i t v n)"
  unfolding Interface_find_block_def get_if_def by (intro up_intros)

lemma up_init_res [up_intros]:
  assumes "device_ok E"
  shows "keeps (coming_up X) (Interface_init_eq_res E i)" "keeps (coming_up X) (Interface_init_cq_res E i)"
    "keeps (coming_up X) (Interface_init_txq_res E i)" "keeps (coming_up X) (Interface_init_rxq_res E i)"
  using assms
  unfolding Interface_init_eq_res_def Interface_init_cq_res_def Interface_init_txq_res_def Interface_init_rxq_res_def
  by (intro up_intros up_upd_if; simp)+

lemma up_init_map [up_intros]: "device_ok E \<Longrightarrow> keeps (coming_up X) (Interface_init_map E i)"
  unfolding Interface_init_map_def set_rx_queue_map_rss_mask_def set_rx_queue_map_app_mask_def
    set_rx_queue_map_indir_table_def get_if_def
  by (intro up_intros up_upd_if; simp)

lemma up_res_count [up_intros]: "keeps (coming_up X) (res_count_of k i)"
  unfolding res_count_of_def get_if_def by (intro up_intros)

lemma up_init_disable [up_intros]: "device_ok E \<Longrightarrow> keeps (coming_up X) (Interface_init_disable E i)"
  unfolding Interface_init_disable_def disable_all_def by (intro up_intros)

lemma up_init_ports [up_intros]: "device_ok E \<Longrightarrow> keeps (coming_up X) (Interface_init_ports E i)"
  unfolding Interface_init_ports_def get_if_def by (intro up_intros up_upd_if; simp)

lemma triple_new_eq: "triple (coming_up X) (\<lambda>_. True) (new_eq i) unlisted_eq"
proof (rule tripleI)
  fix s :: "'a world" and r s' assume o: "coming_up X s" and run: "new_eq i s = (r, s')"
  from keeps_run [OF up_new_eq o run] have "coming_up X s'" .
  moreover have "w_next_eq s \<notin> set (ifc_eq (w_ifs s j))" for j
    using o up_listed_eq [of s "w_next_eq s" j] by (auto simp: coming_up_def)
  ultimately show "coming_up X s' \<and> (\<forall>x. r = Inr x \<longrightarrow> unlisted_eq x s')"
    using run by (auto simp: new_eq_def unlisted_eq_def)
qed

lemma triple_Eq_open:
  assumes dev: "device_ok E" and sz: "0 < sz"
  shows "triple (coming_up X) (unlisted_eq e) (Eq_open E e irq sz) (\<lambda>_ s. eq_ready s e)"
proof (rule tripleI)
  fix s :: "'a world" and r s' assume o: "coming_up X s" "unlisted_eq e s" and run: "Eq_open E e irq sz s = (r, s')"
  from keeps_run [OF up_Eq_open [OF dev] _ run] o have "coming_up X s'" by blast
  with Eq_open_ready [OF dev sz] o run show "coming_up X s' \<and> (\<forall>x. r = Inr x \<longrightarrow> eq_ready s' e)"
    by (auto simp: coming_up_def)
qed

lemma run_inv_ifs: "run_inv s \<Longrightarrow> run_inv (s\<lparr>w_ifs := f\<rparr>)"
  by (erule run_inv_frame) (simp add: run_frame_def)

lemma up_inv_ifs:
  assumes "up_inv s" "\<And>r. r \<in> set (ifc_txq i') \<Longrightarrow> r \<in> set (ifc_txq (w_ifs s i)) \<or> txq_hw_regs (w_txqs s r) \<noteq> None"
    "\<And>r. r \<in> set (ifc_rxq i') \<Longrightarrow> r \<in> set (ifc_rxq (w_ifs s i)) \<or> rxq_hw_regs (w_rxqs s r) \<noteq> None"
    "\<And>e. e \<in> set (ifc_eq i') \<Longrightarrow> e \<in> set (ifc_eq (w_ifs s i)) \<or> eq_ready s e"
  shows "up_inv (s\<lparr>w_ifs := (w_ifs s)(i := i')\<rparr>)"
proof -
  let ?s = "s\<lparr>w_ifs := (w_ifs s)(i := i')\<rparr>"
  have e: "eq_ready ?s e = eq_ready s e" for e by (simp add: eq_ready_def)
  show ?thesis
    using up_invD [OF assms(1)] run_inv_ifs assms(2-4) unfolding up_inv_def e by simp blast
qed

lemma triple_list_eq:
  "triple (coming_up X) (\<lambda>s. eq_ready s e) (upd_if i (\<lambda>f. f\<lparr>ifc_eq := ifc_eq f @ [e]\<rparr>)) (\<lambda>_ _. True)"
  by (rule tripleI) (auto simp: upd_if_def coming_up_def served_def intro: up_inv_ifs)

lemma up_arm [up_intros]:
  assumes "device_ok E"
  shows "keeps (coming_up X) (Eq_arm E e)" "keeps (coming_up X) (Cq_arm E c)"
  using assms unfolding Eq_arm_def Cq_arm_def get_eq_def get_cq_def by (intro up_intros; assumption)+

lemma triple_of_keeps: "keeps I m \<Longrightarrow> triple I P m (\<lambda>_ _. True)"
  by (simp add: keeps_def triple_def)

lemma up_init_eqs [up_intros]:
  assumes dev: "device_ok E"
  shows "keeps (coming_up X) (Interface_init_eqs E i)"
proof -
  have step: "keeps (coming_up X) (bnd (new_eq i) (\<lambda>e. seqm [
         Eq_open E e irq 1024, upd_if i (\<lambda>i. i\<lparr>ifc_eq := ifc_eq i @ [e]\<rparr>), Eq_arm E e]))" for irq
    by (rule keeps_triple, rule triple_bnd [OF triple_new_eq], rule triple_Cons [OF triple_Eq_open [OF dev]],
        simp, rule triple_Cons [OF triple_list_eq], rule triple_of_keeps, intro up_intros dev)
  have "keeps (coming_up X) (upd_if i (\<lambda>i. i\<lparr>ifc_eq := []\<rparr>))" by (rule up_upd_if) simp_all
  then show ?thesis
    unfolding Interface_init_eqs_def get_if_def
    by (intro keeps_sq keeps_bnd [OF up_res_count] keeps_forM keeps_bnd [OF keeps_gets] step)
qed

lemma up_init_hw [up_intros]: "device_ok E \<Longrightarrow> keeps (coming_up X) (Interface_init_hw E i)"
  unfolding Interface_init_hw_def get_if_def by (intro up_intros up_upd_if) simp_all

lemma up_drv_read [up_intros]:
  assumes "device_ok E" "\<And>v d. drv_allocated_packets (f v d) = drv_allocated_packets d"
    "\<And>v d. drv_free_packets (f v d) = drv_free_packets d" "\<And>v d. drv_pkt_buf_size (f v d) = drv_pkt_buf_size d"
  shows "keeps (coming_up X) (drv_read E rb a f)"
  unfolding drv_read_def by (intro up_intros up_upd_drv assms)

lemma up_init_interfaces [up_intros]: "device_ok E \<Longrightarrow> keeps (coming_up X) (Driver_init_interfaces E w)"
  unfolding Driver_init_interfaces_def Driver_init_interface_def get_drv_def Let_def
  by (intro up_intros up_upd_drv) simp_all

lemma up_init_common [up_intros]: "device_ok E \<Longrightarrow> keeps (coming_up X) (Driver_init_common E)"
  unfolding Driver_init_common_def Driver_read_ids_def get_drv_def Let_def
  by (intro up_intros up_upd_drv) simp_all

lemma up_init_pcie: "device_ok E \<Longrightarrow> keeps (coming_up X) (Driver_init_pcie_dev E)"
  unfolding Driver_init_pcie_dev_def get_drv_def
  by (intro up_intros up_upd_drv) simp_all

lemma up_init_axi: "device_ok E \<Longrightarrow> keeps (coming_up X) (Driver_init_axi_dev E w a irq)"
  unfolding Driver_init_axi_dev_def get_drv_def
  by (intro up_intros up_upd_drv) simp_all

section \<open>Opening a completion queue\<close>

definition unwired_cq :: "nat \<Rightarrow> 'h world \<Rightarrow> bool" where
  "unwired_cq c s \<longleftrightarrow> c < w_next_cq s \<and> cq_src_ring (w_cqs s c) = None"

definition cq_ready :: "nat \<Rightarrow> 'h world \<Rightarrow> bool" where
  "cq_ready c s \<longleftrightarrow> cq_hw_regs (w_cqs s c) \<noteq> None \<and> (\<exists>k b. cq_ring c k b s \<and> b < w_next_region s)"

lemma unwired_basic [up_intros]:
  "keeps (unwired_cq c) (write_dword E w a v)" "keeps (unwired_cq c) (alloc_region E n)"
  "keeps (unwired_cq c) (mem_store b off bs)" "keeps (unwired_cq c) (if_alloc k i)"
  "keeps (unwired_cq c) (if_get_window k i j)" "keeps (unwired_cq c) (upd_if i g)"
  "keeps (unwired_cq c) (upd_eq e f)" "keeps (unwired_cq c) (new_txq i)" "keeps (unwired_cq c) (new_rxq i)"
proof -
  show i: "keeps (unwired_cq c) (upd_if i g)" for i g by (simp add: keeps_def unwired_cq_def upd_if_def)
  show "keeps (unwired_cq c) (write_dword E w a v)" "keeps (unwired_cq c) (alloc_region E n)"
      "keeps (unwired_cq c) (mem_store b off bs)" "keeps (unwired_cq c) (upd_eq e f)"
      "keeps (unwired_cq c) (new_txq i)" "keeps (unwired_cq c) (new_rxq i)"
    by (auto simp: keeps_def unwired_cq_def alloc_region_def mem_store_def upd_eq_def new_txq_def new_rxq_def split: option.split)
  show "keeps (unwired_cq c) (if_alloc k i)" "keeps (unwired_cq c) (if_get_window k i j)"
    unfolding if_alloc_def if_get_window_def get_if_def by (intro up_intros i)+
qed

lemma unwired_upd_cq:
  assumes "\<And>q. cq_src_ring (f q) = cq_src_ring q"
  shows "keeps (\<lambda>s. coming_up X s \<and> unwired_cq c s) (upd_cq c f)"
  unfolding upd_cq_def
proof (rule keeps_modifies)
  fix s :: "'a world" assume o: "coming_up X s \<and> unwired_cq c s"
  let ?s = "s\<lparr>w_cqs := (w_cqs s)(c := f (w_cqs s c))\<rparr>"
  have "grows s ?s" using o assms by (auto simp: grows_def unwired_cq_def)
  with o have "coming_up X ?s" by (intro coming_up_grows [of X s ?s]) auto
  with o assms show "coming_up X ?s \<and> unwired_cq c ?s" by (simp add: unwired_cq_def)
qed

lemma unwired_attach:
  "c \<in> X \<Longrightarrow> keeps (\<lambda>s. coming_up X s \<and> unwired_cq c s) (Eq_attach_cq e c)"
proof (rule keepsI)
  fix s :: "'a world" assume c: "c \<in> X" and o: "coming_up X s \<and> unwired_cq c s"
  show "coming_up X (snd (Eq_attach_cq e c s)) \<and> unwired_cq c (snd (Eq_attach_cq e c s))"
  proof (cases "cq_cqn (w_cqs s c)")
    case None
    with o show ?thesis by (simp add: Eq_attach_cq_def run_simps)
  next
    case (Some n)
    let ?s = "s\<lparr>w_eqs := (w_eqs s)(e := (w_eqs s e)\<lparr>eq_cq_table := (eq_cq_table (w_eqs s e))(n \<mapsto> c)\<rparr>)\<rparr>"
    have "grows s ?s" by (auto simp: grows_def)
    with o c have "coming_up X ?s" by (intro coming_up_grows [of X s ?s]) (auto split: if_splits)
    with o Eq_attach_cq_run [OF Some, of e] show ?thesis by (simp add: unwired_cq_def)
  qed
qed

lemmas unwired_intros = keeps_both [OF up_write unwired_basic(1)] keeps_both [OF up_alloc_region unwired_basic(2)]
  keeps_both [OF up_mem_store unwired_basic(3)] keeps_both [OF up_if_alloc unwired_basic(4)]
  keeps_both [OF up_if_get_window unwired_basic(5)] unwired_upd_cq unwired_attach

lemma up_Cq_open:
  assumes dev: "device_ok E" and "c \<in> X"
  shows "keeps (\<lambda>s. coming_up X s \<and> unwired_cq c s) (Cq_open E c e sz)"
  unfolding Cq_open_def get_eq_def get_cq_def Let_def
  by (intro up_basic unwired_intros assms) simp_all

lemma Cq_open_ready:
  assumes dev: "device_ok E" and sz: "0 < sz" and run: "Cq_open E c e sz s = (Inr (), s')"
  shows "cq_ready c s'"
proof -
  have log: "bit_length sz - 1 = int (floor_log2 sz)" using sz by (intro bit_length_floor_log2) simp
  have ev: "MQNIC_EVENT_SIZE = 32" by (simp add: regs)
  have nat: "nat (2 ^ floor_log2 sz * 32) = 2 ^ floor_log2 sz * 32" by (simp add: nat_mult_distrib nat_power_eq)
  have sizes: "length (w_mem (wr_state E w x v t) b) = length (w_mem t b)" for w x v t b
    using wr_state_sizes [OF dev, of t w x v] by (simp add: same_sizes_def)
  have "cq_hw_regs (w_cqs s' c) \<noteq> None \<and> cq_ring c (floor_log2 sz) (w_next_region s) s' \<and>
      w_next_region s < w_next_region s'"
    using run sz unfolding Cq_open_def
    by (auto simp: run_simps if_alloc_def if_get_window_def log ev alloc_region_def mem_store_def nat Let_def
        Eq_attach_cq_def cq_ring_def sizes pool_length [OF dev] split: if_splits option.splits sum.splits prod.splits)
  then show ?thesis by (auto simp: cq_ready_def)
qed

section \<open>Opening a ring\<close>

text \<open>
  A ring and its completion queue are joined in one go, between two bus transactions: the queue
  gets its source ring and its handler, the ring its registers.
\<close>

definition ring_joined :: "nat \<Rightarrow> cq_handler \<Rightarrow> ring_ref \<Rightarrow> 'h world \<Rightarrow> 'h world \<Rightarrow> bool" where
  "ring_joined c h x s s' \<longleftrightarrow>
     (\<forall>d. d \<noteq> c \<longrightarrow> w_cqs s' d = w_cqs s d) \<and>
     w_cqs s' c = (w_cqs s c)\<lparr>cq_src_ring := Some x, cq_handler := Some h\<rparr> \<and>
     w_eqs s' = w_eqs s \<and> w_drv s' = w_drv s \<and> w_next_region s \<le> w_next_region s' \<and>
     w_next_eq s' = w_next_eq s \<and> w_next_cq s' = w_next_cq s \<and>
     w_next_txq s' = w_next_txq s \<and> w_next_rxq s' = w_next_rxq s \<and>
     (\<forall>b < w_next_region s. length (w_mem s' b) = length (w_mem s b)) \<and>
     (\<forall>i. ifc_txq (w_ifs s' i) = ifc_txq (w_ifs s i) \<and> ifc_rxq (w_ifs s' i) = ifc_rxq (w_ifs s i) \<and>
        ifc_eq (w_ifs s' i) = ifc_eq (w_ifs s i)) \<and>
     (\<forall>y n. slot s' y n = (if y = x then None else slot s y n))"

lemma Txq_open_cases:
  assumes dev: "device_ok E" and sz: "0 < sz" "0 < dbs" and inv: "bufs_inv s"
    and closed: "txq_hw_regs (w_txqs s q) = None" and run: "Txq_open E q c sz dbs s = (r, s')"
  obtains (before) "grows s s'" "w_cqs s' = w_cqs s" "w_eqs s' = w_eqs s" "r \<noteq> Inr ()"
  | (joined) k n b where "txq_ring q k n b s'" "txq_hw_regs (w_txqs s' q) \<noteq> None"
      "\<And>i. i \<noteq> q \<Longrightarrow> w_txqs s' i = w_txqs s i" "w_rxqs s' = w_rxqs s"
      "ring_joined c ProcessTxCq (TxRing q) s s'"
proof -
  have log: "bit_length sz - 1 = int (floor_log2 sz)" "bit_length dbs - 1 = int (floor_log2 dbs)"
    using sz by (simp_all add: bit_length_floor_log2)
  have b: "w_next_region s \<notin> rg_id ` set (drv_allocated_packets (w_drv s))"
    using bufs_inv_pool [OF inv] by (auto simp: pool_inv_def)
  have nat: "nat (2 ^ floor_log2 sz) = 2 ^ floor_log2 sz" by (simp add: nat_power_eq)
  have sl: "slots_ok (floor_log2 sz) 0 0 (replicate (2 ^ floor_log2 sz) None)" by (rule slots_ok_init)
  have sizes: "length (w_mem (wr_state E w x v t) b) = length (w_mem t b)" for w x v t b
    using wr_state_sizes [OF dev, of t w x v] by (simp add: same_sizes_def)
  have slots: "slot t y n = (if y = TxRing q then None else slot s y n)"
    if "w_txqs t = (w_txqs s)(q := q')" "w_rxqs t = w_rxqs s" "txq_tx_info q' = replicate m None" for t q' m y n
    using that by (cases y) (auto simp: slot_def)
  let ?i = "txq_interface (w_txqs s q)"
  note simps = run_simps if_alloc_run if_get_window_run if_alloc_def log alloc_region_def nat Let_def closed
  show thesis
  proof (cases "\<exists>x ix x'. ifc_txq_res (w_ifs s ?i) = Some x \<and> res_alloc x = Inr (ix, x')")
    case False
    then have "if_alloc TxqRes ?i s = (Inl AttributeError, s) \<or> (\<exists>e. if_alloc TxqRes ?i s = (Inl e, s))"
      by (cases "ifc_txq_res (w_ifs s ?i)"; cases "res_alloc (the (ifc_txq_res (w_ifs s ?i)))")
         (auto simp: if_alloc_def run_simps)
    then obtain e where "if_alloc TxqRes ?i s = (Inl e, s)" by blast
    with run have "s' = s" "r = Inl e" by (simp_all add: Txq_open_def run_bnd get_txq_def closed)
    then show thesis by (intro before) (simp_all add: grows_def)
  next
    case True
    then obtain x ix x' where x: "ifc_txq_res (w_ifs s ?i) = Some x" "res_alloc x = Inr (ix, x')" by blast
    show thesis
    proof (cases "pool_alloc E (w_hw s) (2 ^ floor_log2 sz * (16 * 2 ^ floor_log2 dbs))")
      case None
      with run x sz have "r = Inl PoolError" and s': "\<exists>t. s' = s\<lparr>w_ifs := (w_ifs s)(?i := set_res TxqRes x' (w_ifs s ?i)),
          w_txqs := (w_txqs s)(q := t)\<rparr> \<and> txq_hw_regs t = None \<and> (\<exists>m. txq_tx_info t = replicate m None)"
        by (simp_all add: Txq_open_def simps regs, auto simp: closed)
      then obtain t m where t: "s' = s\<lparr>w_ifs := (w_ifs s)(?i := set_res TxqRes x' (w_ifs s ?i)), w_txqs := (w_txqs s)(q := t)\<rparr>"
          "txq_hw_regs t = None" "txq_tx_info t = replicate m None"
        by blast
      then have "slot s' y n = (if y = TxRing q then None else slot s y n)" for y n by (intro slots) simp_all
      then have "grows s s'" using t closed by (auto simp: grows_def split: if_splits)
      with t \<open>r = Inl PoolError\<close> show thesis by (intro before) simp_all
    next
      case (Some v)
      obtain a bs h where v: "v = (a, bs, h)" by (cases v)
      obtain w x2 where w: "res_get_window x' ix = (w, x2)" by (cases "res_get_window x' ix")
      have lb: "int (length bs) = 2 ^ floor_log2 sz * (16 * 2 ^ floor_log2 dbs)"
        using pool_length [OF dev Some [unfolded v]] by simp
      have J: "txq_ring q (floor_log2 sz) (2 ^ floor_log2 dbs) (w_next_region s) s' \<and>
         txq_hw_regs (w_txqs s' q) = Some w \<and> w_rxqs s' = w_rxqs s \<and> (\<exists>t. w_txqs s' = (w_txqs s)(q := t)) \<and>
         txq_tx_info (w_txqs s' q) = replicate (2 ^ floor_log2 sz) None \<and>
         w_ifs s' = (w_ifs s)(?i := set_res TxqRes x2 (w_ifs s ?i)) \<and>
         w_cqs s' = (w_cqs s)(c := (w_cqs s c)\<lparr>cq_src_ring := Some (TxRing q), cq_handler := Some ProcessTxCq\<rparr>) \<and>
         w_eqs s' = w_eqs s \<and> w_drv s' = w_drv s \<and> w_next_region s' = Suc (w_next_region s) \<and>
         w_next_eq s' = w_next_eq s \<and> w_next_cq s' = w_next_cq s \<and>
         w_next_txq s' = w_next_txq s \<and> w_next_rxq s' = w_next_rxq s \<and>
         (\<forall>b < w_next_region s. length (w_mem s' b) = length (w_mem s b))"
        using run x sz Some v w b lb
        by (cases "cq_cqn (w_cqs s c)") (auto simp: Txq_open_def simps regs txq_ring_def sl sizes drop_bit_eq_div)
      then have "slot s' y n = (if y = TxRing q then None else slot s y n)" for y n by (intro slots) auto
      with J have "ring_joined c ProcessTxCq (TxRing q) s s'" by (auto simp: ring_joined_def)
      with J show thesis by (intro joined) auto
    qed
  qed
qed

lemma Rxq_program_cases:
  assumes dev: "device_ok E" and sz: "0 < sz" "0 < dbs" and inv: "bufs_inv s"
    and closed: "rxq_hw_regs (w_rxqs s q) = None" and run: "Rxq_program E q c sz dbs s = (r, s')"
  obtains (before) "grows s s'" "w_cqs s' = w_cqs s" "w_eqs s' = w_eqs s" "r \<noteq> Inr ()"
  | (joined) k n b where "rxq_ring q k n b s'" "rxq_hw_regs (w_rxqs s' q) \<noteq> None"
      "\<And>i. i \<noteq> q \<Longrightarrow> w_rxqs s' i = w_rxqs s i" "w_txqs s' = w_txqs s"
      "ring_joined c ProcessRxCq (RxRing q) s s'" "w_next_region s \<le> b"
proof -
  have log: "bit_length sz - 1 = int (floor_log2 sz)" "bit_length dbs - 1 = int (floor_log2 dbs)"
    using sz by (simp_all add: bit_length_floor_log2)
  have b: "w_next_region s \<notin> rg_id ` set (drv_allocated_packets (w_drv s))"
    using bufs_inv_pool [OF inv] by (auto simp: pool_inv_def)
  have nat: "nat (2 ^ floor_log2 sz) = 2 ^ floor_log2 sz" by (simp add: nat_power_eq)
  have sl: "slots_ok (floor_log2 sz) 0 0 (replicate (2 ^ floor_log2 sz) None)" by (rule slots_ok_init)
  have sizes: "length (w_mem (wr_state E w x v t) b) = length (w_mem t b)" for w x v t b
    using wr_state_sizes [OF dev, of t w x v] by (simp add: same_sizes_def)
  have slots: "slot t y n = (if y = RxRing q then None else slot s y n)"
    if "w_rxqs t = (w_rxqs s)(q := q')" "w_txqs t = w_txqs s" "rxq_rx_info q' = replicate m None" for t q' m y n
    using that by (cases y) (auto simp: slot_def)
  let ?i = "rxq_interface (w_rxqs s q)"
  note simps = run_simps if_alloc_run if_get_window_run if_alloc_def log alloc_region_def nat Let_def closed
  show thesis
  proof (cases "\<exists>x ix x'. ifc_rxq_res (w_ifs s ?i) = Some x \<and> res_alloc x = Inr (ix, x')")
    case False
    then have "if_alloc RxqRes ?i s = (Inl AttributeError, s) \<or> (\<exists>e. if_alloc RxqRes ?i s = (Inl e, s))"
      by (cases "ifc_rxq_res (w_ifs s ?i)"; cases "res_alloc (the (ifc_rxq_res (w_ifs s ?i)))")
         (auto simp: if_alloc_def run_simps)
    then obtain e where "if_alloc RxqRes ?i s = (Inl e, s)" by blast
    with run have "s' = s" "r = Inl e" by (simp_all add: Rxq_program_def run_bnd get_rxq_def closed)
    then show thesis by (intro before) (simp_all add: grows_def)
  next
    case True
    then obtain x ix x' where x: "ifc_rxq_res (w_ifs s ?i) = Some x" "res_alloc x = Inr (ix, x')" by blast
    show thesis
    proof (cases "pool_alloc E (w_hw s) (2 ^ floor_log2 sz * (16 * 2 ^ floor_log2 dbs))")
      case None
      with run x sz have "r = Inl PoolError" and s': "\<exists>t. s' = s\<lparr>w_ifs := (w_ifs s)(?i := set_res RxqRes x' (w_ifs s ?i)),
          w_rxqs := (w_rxqs s)(q := t)\<rparr> \<and> rxq_hw_regs t = None \<and> rxq_buf t = rxq_buf (w_rxqs s q) \<and> (\<exists>m. rxq_rx_info t = replicate m None)"
        by (simp_all add: Rxq_program_def simps regs, auto simp: closed)
      then obtain t m where t: "s' = s\<lparr>w_ifs := (w_ifs s)(?i := set_res RxqRes x' (w_ifs s ?i)), w_rxqs := (w_rxqs s)(q := t)\<rparr>"
          "rxq_hw_regs t = None" "rxq_buf t = rxq_buf (w_rxqs s q)" "rxq_rx_info t = replicate m None"
        by blast
      then have "slot s' y n = (if y = RxRing q then None else slot s y n)" for y n by (intro slots) simp_all
      then have "grows s s'" using t closed by (auto simp: grows_def split: if_splits)
      with t \<open>r = Inl PoolError\<close> show thesis by (intro before) simp_all
    next
      case (Some v)
      obtain a bs h where v: "v = (a, bs, h)" by (cases v)
      obtain w x2 where w: "res_get_window x' ix = (w, x2)" by (cases "res_get_window x' ix")
      have lb: "int (length bs) = 2 ^ floor_log2 sz * (16 * 2 ^ floor_log2 dbs)"
        using pool_length [OF dev Some [unfolded v]] by simp
      have J: "rxq_ring q (floor_log2 sz) (2 ^ floor_log2 dbs) (w_next_region s) s' \<and>
         rxq_hw_regs (w_rxqs s' q) = Some w \<and> w_txqs s' = w_txqs s \<and> (\<exists>t. w_rxqs s' = (w_rxqs s)(q := t)) \<and>
         rxq_rx_info (w_rxqs s' q) = replicate (2 ^ floor_log2 sz) None \<and>
         w_ifs s' = (w_ifs s)(?i := set_res RxqRes x2 (w_ifs s ?i)) \<and>
         w_cqs s' = (w_cqs s)(c := (w_cqs s c)\<lparr>cq_src_ring := Some (RxRing q), cq_handler := Some ProcessRxCq\<rparr>) \<and>
         w_eqs s' = w_eqs s \<and> w_drv s' = w_drv s \<and> w_next_region s' = Suc (w_next_region s) \<and>
         w_next_eq s' = w_next_eq s \<and> w_next_cq s' = w_next_cq s \<and>
         w_next_txq s' = w_next_txq s \<and> w_next_rxq s' = w_next_rxq s \<and>
         (\<forall>b < w_next_region s. length (w_mem s' b) = length (w_mem s b))"
        using run x sz Some v w b lb
        by (cases "cq_cqn (w_cqs s c)") (auto simp: Rxq_program_def simps regs rxq_ring_def sl sizes drop_bit_eq_div)
      then have "slot s' y n = (if y = RxRing q then None else slot s y n)" for y n by (intro slots) auto
      with J have "ring_joined c ProcessRxCq (RxRing q) s s'" by (auto simp: ring_joined_def)
      with J show thesis by (intro joined) auto
    qed
  qed
qed

text \<open>Joining keeps the invariant, and the completion queue is served from then on.\<close>

definition ring_opened :: "nat \<Rightarrow> cq_handler \<Rightarrow> ring_ref \<Rightarrow> 'h world \<Rightarrow> 'h world \<Rightarrow> bool" where
  "ring_opened c h x s s' \<longleftrightarrow> ring_joined c h x s s' \<and>
     (\<forall>i. TxRing i \<noteq> x \<longrightarrow> w_txqs s' i = w_txqs s i) \<and> (\<forall>i. RxRing i \<noteq> x \<longrightarrow> w_rxqs s' i = w_rxqs s i) \<and>
     (case x of
        TxRing q \<Rightarrow> h = ProcessTxCq \<and> q < w_next_txq s \<and> txq_hw_regs (w_txqs s' q) \<noteq> None \<and>
          (\<exists>k n b. txq_ring q k n b s')
      | RxRing q \<Rightarrow> h = ProcessRxCq \<and> q < w_next_rxq s \<and> rxq_hw_regs (w_rxqs s' q) \<noteq> None \<and>
          (\<exists>k n b. rxq_ring q k n b s' \<and> w_next_region s \<le> b))"

lemma ring_joinedD:
  assumes "ring_joined c h x s s'"
  shows "\<And>d. d \<noteq> c \<Longrightarrow> w_cqs s' d = w_cqs s d"
    "w_cqs s' c = (w_cqs s c)\<lparr>cq_src_ring := Some x, cq_handler := Some h\<rparr>"
    "w_eqs s' = w_eqs s" "w_drv s' = w_drv s" "w_next_region s \<le> w_next_region s'"
    "w_next_eq s' = w_next_eq s" "w_next_cq s' = w_next_cq s" "w_next_txq s' = w_next_txq s"
    "w_next_rxq s' = w_next_rxq s" "\<And>b. b < w_next_region s \<Longrightarrow> length (w_mem s' b) = length (w_mem s b)"
    "\<And>i. ifc_txq (w_ifs s' i) = ifc_txq (w_ifs s i)" "\<And>i. ifc_rxq (w_ifs s' i) = ifc_rxq (w_ifs s i)"
    "\<And>i. ifc_eq (w_ifs s' i) = ifc_eq (w_ifs s i)"
    "\<And>y n. slot s' y n = (if y = x then None else slot s y n)"
  using assms unfolding ring_joined_def by blast+

lemma opened_tx:
  assumes inv: "run_inv s" and o: "ring_opened c h x s s'" and hw: "txq_hw_regs (w_txqs s' i) \<noteq> None"
  shows "\<exists>k n b. txq_ring i k n b s'"
proof (cases "x = TxRing i")
  case False
  have j: "ring_joined c h x s s'" using o by (simp add: ring_opened_def)
  have q: "w_txqs s' i = w_txqs s i" using o False by (simp add: ring_opened_def)
  with run_invD(3) [OF inv, of i] hw obtain k n b where "txq_ring i k n b s" by auto
  then have "txq_ring i k n b s'"
    using ring_joinedD(4,5,10) [OF j] by (auto simp: txq_ring_def q Let_def)
  then show ?thesis by blast
qed (use o in \<open>auto simp: ring_opened_def\<close>)

lemma opened_rx:
  assumes inv: "run_inv s" and o: "ring_opened c h x s s'" and hw: "rxq_hw_regs (w_rxqs s' i) \<noteq> None"
  shows "\<exists>k n b. rxq_ring i k n b s'"
proof (cases "x = RxRing i")
  case False
  have j: "ring_joined c h x s s'" using o by (simp add: ring_opened_def)
  have q: "w_rxqs s' i = w_rxqs s i" using o False by (simp add: ring_opened_def)
  with run_invD(4) [OF inv, of i] hw obtain k n b where "rxq_ring i k n b s" by auto
  then have "rxq_ring i k n b s'"
    using ring_joinedD(4,5,10) [OF j] by (auto simp: rxq_ring_def q Let_def)
  then show ?thesis by blast
qed (use o in \<open>auto simp: ring_opened_def\<close>)

lemma opened_hw:
  assumes "ring_opened c h x s s'"
  shows "txq_hw_regs (w_txqs s i) \<noteq> None \<Longrightarrow> txq_hw_regs (w_txqs s' i) \<noteq> None"
    "rxq_hw_regs (w_rxqs s i) \<noteq> None \<Longrightarrow> rxq_hw_regs (w_rxqs s' i) \<noteq> None"
    "txq_hw_regs (w_txqs s' i) \<noteq> None \<Longrightarrow> txq_hw_regs (w_txqs s i) = None \<Longrightarrow> i < w_next_txq s"
    "rxq_hw_regs (w_rxqs s' i) \<noteq> None \<Longrightarrow> rxq_hw_regs (w_rxqs s i) = None \<Longrightarrow> i < w_next_rxq s"
  using assms unfolding ring_opened_def
  by (cases "x = TxRing i"; cases "x = RxRing i"; force)+

lemma opened_attached:
  assumes inv: "run_inv s" and o: "ring_opened c h x s s'" and c: "cq_ready c s" "cq_src_ring (w_cqs s c) = None"
    and src: "cq_src_ring (w_cqs s' d) = Some r"
  shows "cq_attached s' d r"
proof -
  have j: "ring_joined c h x s s'" using o by (simp add: ring_opened_def)
  have ring: "\<exists>k b. cq_ring d k b s' \<and> b < w_next_region s'"
    if "cq_ring d k b s" "b < w_next_region s" for k b
  proof -
    have "cq_ring d k b s'"
      using that ring_joinedD(1,10) [OF j] ring_joinedD(2) [OF j] by (cases "d = c") (simp_all add: cq_ring_def Let_def)
    with that ring_joinedD(5) [OF j] show ?thesis by (meson less_le_trans)
  qed
  show ?thesis
  proof (cases "d = c")
    case True
    with src ring_joinedD(2) [OF j] have r: "r = x" by simp
    from c(1) ring True have "\<exists>k b. cq_ring d k b s' \<and> b < w_next_region s'" "cq_hw_regs (w_cqs s' d) \<noteq> None"
      by (auto simp: cq_ready_def ring_joinedD(2) [OF j])
    with o True show ?thesis
      by (simp add: cq_attached_def ring_opened_def r ring_joinedD(2) [OF j] split: ring_ref.splits)
  next
    case False
    then have q: "w_cqs s' d = w_cqs s d" by (rule ring_joinedD(1) [OF j])
    with src run_invD(5) [OF inv] have a: "cq_attached s d r" by simp
    with ring have "\<exists>k b. cq_ring d k b s' \<and> b < w_next_region s'" by (auto simp: cq_attached_def)
    with a opened_hw(1,2) [OF o] show ?thesis by (simp add: cq_attached_def q split: ring_ref.splits)
  qed
qed

lemma opened_run_inv:
  assumes inv: "run_inv s" and o: "ring_opened c h x s s'" and c: "cq_ready c s" "cq_src_ring (w_cqs s c) = None"
  shows "run_inv s'"
proof -
  have j: "ring_joined c h x s s'" using o by (simp add: ring_opened_def)
  note f = ring_joinedD [OF j]
  have out: "outstanding s' = outstanding s" by (simp add: outstanding_def f(4))
  have "pool_inv s'" using bufs_inv_pool [OF run_invD(1) [OF inv]] f(5)
    by (auto simp: pool_inv_def f(4) intro: less_le_trans)
  then have "bufs_inv s'"
    unfolding bufs_inv_def out f(14)
    using bufs_inv_outstanding [OF run_invD(1) [OF inv]] bufs_inv_unique [OF run_invD(1) [OF inv]]
    by (metis option.distinct(1))
  moreover have "packets_ok s'"
    using run_invD(2) [OF inv] bufs_inv_pool [OF run_invD(1) [OF inv]]
    by (auto simp: packets_ok_def pool_inv_def f(4,10))
  ultimately show ?thesis
    using opened_tx [OF inv o] opened_rx [OF inv o] opened_attached [OF inv o c]
    unfolding run_inv_def by blast
qed

lemma opened_coming_up:
  assumes up: "coming_up {c} s" and o: "ring_opened c h x s s'" and c: "cq_ready c s" "unwired_cq c s"
  shows "coming_up {} s'"
proof -
  have inv: "up_inv s" and sv: "served {c} s" using up by (simp_all add: coming_up_def)
  have j: "ring_joined c h x s s'" using o by (simp add: ring_opened_def)
  note f = ring_joinedD [OF j]
  have un: "cq_src_ring (w_cqs s c) = None" "c < w_next_cq s" using c(2) by (simp_all add: unwired_cq_def)
  have buf: "rxq_buf (w_rxqs s' i) = Some b \<Longrightarrow> rxq_buf (w_rxqs s i) = Some b \<or> w_next_region s \<le> b \<and> b < w_next_region s'" for i b
  proof -
    assume "rxq_buf (w_rxqs s' i) = Some b"
    with o show ?thesis by (cases "x = RxRing i") (auto simp: ring_opened_def rxq_ring_def Let_def)
  qed
  have ready: "eq_ready s' e" if "eq_ready s e" for e
  proof -
    from that obtain k b where b: "eq_ring (w_eqs s e) k b (w_mem s b)" "b < w_next_region s"
        "\<And>r. rxq_buf (w_rxqs s r) \<noteq> Some b" by (auto simp: eq_ready_def)
    then have "eq_ring (w_eqs s' e) k b (w_mem s' b)" "b < w_next_region s'" using f(5,10) by (simp_all add: eq_ring_def f(3))
    moreover have "rxq_buf (w_rxqs s' r) \<noteq> Some b" for r using buf [of r b] b(2,3) by auto
    ultimately show ?thesis using that by (auto simp: eq_ready_def f(3))
  qed
  have "up_inv s'"
    unfolding up_inv_def f(6-9,11-13)
  proof (intro conjI allI impI ballI)
    show "run_inv s'" using up_invD(1) [OF inv] o c(1) un(1) by (rule opened_run_inv)
    show "w_next_txq s \<le> i \<Longrightarrow> txq_hw_regs (w_txqs s' i) = None" for i
      using up_invD(2) [OF inv, of i] opened_hw(3) [OF o, of i] by fastforce
    show "w_next_rxq s \<le> i \<Longrightarrow> rxq_hw_regs (w_rxqs s' i) = None" for i
      using up_invD(3) [OF inv, of i] opened_hw(4) [OF o, of i] by fastforce
    show "w_next_cq s \<le> i \<Longrightarrow> cq_src_ring (w_cqs s' i) = None" for i
      using un(2) f(1) [of i] up_invD(4) [OF inv, of i] by auto
    show "w_next_eq s \<le> i \<Longrightarrow> eq_hw_regs (w_eqs s' i) = None" for i using up_invD(5) [OF inv] by (simp add: f(3))
    show "rxq_buf (w_rxqs s' i) = Some b \<Longrightarrow> b < w_next_region s'" for i b
      using buf [of i b] up_invD(9) [OF inv, of i b] f(5) by auto
    show "r \<in> set (ifc_txq (w_ifs s i)) \<Longrightarrow> txq_hw_regs (w_txqs s' r) \<noteq> None" for i r
      using up_invD(6) [OF inv] opened_hw(1) [OF o] by blast
    show "r \<in> set (ifc_rxq (w_ifs s i)) \<Longrightarrow> rxq_hw_regs (w_rxqs s' r) \<noteq> None" for i r
      using up_invD(7) [OF inv] opened_hw(2) [OF o] by blast
    show "e \<in> set (ifc_eq (w_ifs s i)) \<Longrightarrow> eq_ready s' e" for i e
      using up_invD(8) [OF inv] ready by blast
  qed
  moreover have "served {} s'"
    using sv f(1,2) unfolding served_def f(3) by (metis cq.select_convs(13) cq.surjective cq.update_convs(13,14) empty_iff option.distinct(1) singletonD)
  ultimately show ?thesis by (simp add: coming_up_def)
qed

section \<open>Opening an interface\<close>

lemma served_mono: "served X s \<Longrightarrow> X \<subseteq> Y \<Longrightarrow> served Y s"
  unfolding served_def by blast

lemma triple_up:
  assumes "keeps (\<lambda>s. coming_up X s \<and> P s) m"
  shows "triple up_inv (\<lambda>s. served X s \<and> P s) m (\<lambda>_ s. served X s \<and> P s)"
  using assms by (simp add: keeps_def triple_def coming_up_def)

lemma triple_new_cq:
  "triple up_inv (served {}) (new_cq i) (\<lambda>c s. served {c} s \<and> unwired_cq c s)"
proof (rule tripleI)
  fix s :: "'a world" and r s' assume o: "up_inv s" "served {} s" and run: "new_cq i s = (r, s')"
  then have "coming_up {} s'" using keeps_run [OF up_new_cq [of "{}"] _ run] by (simp add: coming_up_def)
  with run show "up_inv s' \<and> (\<forall>c. r = Inr c \<longrightarrow> served {c} s' \<and> unwired_cq c s')"
    by (auto simp: coming_up_def new_cq_def unwired_cq_def Cq_init_def elim: served_mono)
qed

lemma triple_eq_of_index: "triple I P (eq_of_index i k) (\<lambda>_. P)"
  unfolding eq_of_index_def get_if_def by (rule triple_keeps) (intro keeps_intros)

definition cq_open_for :: "nat \<Rightarrow> 'h world \<Rightarrow> bool" where
  "cq_open_for c s \<longleftrightarrow> served {c} s \<and> unwired_cq c s \<and> cq_ready c s"

lemma triple_Cq_open:
  assumes dev: "device_ok E" and sz: "0 < sz"
  shows "triple up_inv (\<lambda>s. served {c} s \<and> unwired_cq c s) (sq (Cq_open E c e sz) (Cq_arm E c)) (\<lambda>_. cq_open_for c)"
proof (rule triple_sq)
  show "triple up_inv (\<lambda>s. served {c} s \<and> unwired_cq c s) (Cq_open E c e sz) (\<lambda>_. cq_open_for c)"
  proof (rule tripleI)
    fix s :: "'a world" and r s' assume o: "up_inv s" "served {c} s \<and> unwired_cq c s" and run: "Cq_open E c e sz s = (r, s')"
    with keeps_run [OF up_Cq_open [OF dev, of c "{c}"] _ run] Cq_open_ready [OF dev sz]
    show "up_inv s' \<and> (\<forall>x. r = Inr x \<longrightarrow> cq_open_for c s')"
      by (auto simp: coming_up_def cq_open_for_def)
  qed
  have "up_inv (wr_state E w a v s) \<and> cq_open_for c (wr_state E w a v s)" if "up_inv s" "cq_open_for c s" for w a v and s :: "'a world"
    using that coming_up_bus [of "{c}" s "wr_state E w a v s"] wr_state_sizes [OF dev, of s w a v]
    by (simp add: coming_up_def cq_open_for_def unwired_cq_def cq_ready_def cq_ring_def same_sizes_def Let_def)
  then show "triple up_inv (cq_open_for c) (Cq_arm E c) (\<lambda>_. cq_open_for c)"
    by (intro tripleI) (auto simp: Cq_arm_def run_simps split: option.splits)
qed

lemma cq_open_for_rings [simp]:
  "cq_open_for c (s\<lparr>w_txqs := f, w_next_txq := n\<rparr>) = cq_open_for c s"
  "cq_open_for c (s\<lparr>w_rxqs := g, w_next_rxq := n\<rparr>) = cq_open_for c s"
  by (simp_all add: cq_open_for_def served_def unwired_cq_def cq_ready_def cq_ring_def)

lemma triple_new_txq:
  "triple up_inv (cq_open_for c) (new_txq i)
     (\<lambda>q s. cq_open_for c s \<and> txq_hw_regs (w_txqs s q) = None \<and> q < w_next_txq s)"
proof (rule tripleI)
  fix s :: "'a world" and r s' assume o: "up_inv s" "cq_open_for c s" and run: "new_txq i s = (r, s')"
  then have "up_inv s'" using keeps_run [OF up_new_txq [of "{c}"] _ run] by (simp add: coming_up_def cq_open_for_def)
  with o run show "up_inv s' \<and> (\<forall>q. r = Inr q \<longrightarrow>
      cq_open_for c s' \<and> txq_hw_regs (w_txqs s' q) = None \<and> q < w_next_txq s')"
    by (auto simp: new_txq_def Txq_init_def)
qed

lemma triple_new_rxq:
  "triple up_inv (cq_open_for c) (new_rxq i)
     (\<lambda>q s. cq_open_for c s \<and> rxq_hw_regs (w_rxqs s q) = None \<and> q < w_next_rxq s)"
proof (rule tripleI)
  fix s :: "'a world" and r s' assume o: "up_inv s" "cq_open_for c s" and run: "new_rxq i s = (r, s')"
  then have "up_inv s'" using keeps_run [OF up_new_rxq [of "{c}"] _ run] by (simp add: coming_up_def cq_open_for_def)
  with o run show "up_inv s' \<and> (\<forall>q. r = Inr q \<longrightarrow>
      cq_open_for c s' \<and> rxq_hw_regs (w_rxqs s' q) = None \<and> q < w_next_rxq s')"
    by (auto simp: new_rxq_def Rxq_init_def)
qed

lemma cq_open_forD:
  "up_inv s \<Longrightarrow> cq_open_for c s \<Longrightarrow> coming_up {c} s \<and> cq_ready c s \<and> unwired_cq c s"
  by (simp add: coming_up_def cq_open_for_def)

lemma triple_Txq_open:
  assumes dev: "device_ok E" and sz: "0 < sz" "0 < dbs"
  shows "triple up_inv (\<lambda>s. cq_open_for c s \<and> txq_hw_regs (w_txqs s q) = None \<and> q < w_next_txq s)
    (Txq_open E q c sz dbs) (\<lambda>_ s. served {} s \<and> txq_hw_regs (w_txqs s q) \<noteq> None)"
proof (rule tripleI)
  fix s :: "'a world" and r s'
  assume o: "up_inv s" "cq_open_for c s \<and> txq_hw_regs (w_txqs s q) = None \<and> q < w_next_txq s"
    and run: "Txq_open E q c sz dbs s = (r, s')"
  have closed: "txq_hw_regs (w_txqs s q) = None" and c: "coming_up {c} s" "cq_ready c s" "unwired_cq c s"
    using o cq_open_forD by blast+
  from dev sz run_invD(1) [OF up_invD(1) [OF o(1)]] closed run
  show "up_inv s' \<and> (\<forall>x. r = Inr x \<longrightarrow> served {} s' \<and> txq_hw_regs (w_txqs s' q) \<noteq> None)"
  proof (cases rule: Txq_open_cases)
    case before
    with o(1) show ?thesis by (auto intro: grows_up_inv)
  next
    case (joined k n b)
    then have "ring_opened c ProcessTxCq (TxRing q) s s'" using o by (auto simp: ring_opened_def)
    from opened_coming_up [OF c(1) this c(2,3)] joined(2) show ?thesis by (simp add: coming_up_def)
  qed
qed

lemma triple_Rxq_program:
  assumes dev: "device_ok E" and sz: "0 < sz" "0 < dbs"
  shows "triple up_inv (\<lambda>s. cq_open_for c s \<and> rxq_hw_regs (w_rxqs s q) = None \<and> q < w_next_rxq s)
    (Rxq_program E q c sz dbs) (\<lambda>_ s. served {} s \<and> rxq_hw_regs (w_rxqs s q) \<noteq> None)"
proof (rule tripleI)
  fix s :: "'a world" and r s'
  assume o: "up_inv s" "cq_open_for c s \<and> rxq_hw_regs (w_rxqs s q) = None \<and> q < w_next_rxq s"
    and run: "Rxq_program E q c sz dbs s = (r, s')"
  have closed: "rxq_hw_regs (w_rxqs s q) = None" and c: "coming_up {c} s" "cq_ready c s" "unwired_cq c s"
    using o cq_open_forD by blast+
  from dev sz run_invD(1) [OF up_invD(1) [OF o(1)]] closed run
  show "up_inv s' \<and> (\<forall>x. r = Inr x \<longrightarrow> served {} s' \<and> rxq_hw_regs (w_rxqs s' q) \<noteq> None)"
  proof (cases rule: Rxq_program_cases)
    case before
    with o(1) show ?thesis by (auto intro: grows_up_inv)
  next
    case (joined k n b)
    then have "ring_opened c ProcessRxCq (RxRing q) s s'" using o by (auto simp: ring_opened_def)
    from opened_coming_up [OF c(1) this c(2,3)] joined(2) show ?thesis by (simp add: coming_up_def)
  qed
qed

lemma grows_rx_frame:
  assumes inv: "up_inv s" and fr: "rx_frame q s s'" and o: "rxq_hw_regs (w_rxqs s q) \<noteq> None"
    and run: "run_inv s'" and same: "w_eqs s' = w_eqs s" "w_next_eq s' = w_next_eq s" "w_next_cq s' = w_next_cq s"
      "w_next_txq s' = w_next_txq s" "w_next_rxq s' = w_next_rxq s"
      "rxq_buf (w_rxqs s' q) = rxq_buf (w_rxqs s q)"
  shows "up_inv s'"
proof -
  have f: "w_cqs s' = w_cqs s" "w_ifs s' = w_ifs s" "w_txqs s' = w_txqs s" "\<And>j. j \<noteq> q \<Longrightarrow> w_rxqs s' j = w_rxqs s j"
      "w_next_region s \<le> w_next_region s'" "\<And>b. b < w_next_region s \<Longrightarrow> length (w_mem s' b) = length (w_mem s b)"
    using fr unfolding rx_frame_def by blast+
  have hw: "rxq_hw_regs (w_rxqs s' j) = rxq_hw_regs (w_rxqs s j)" for j
    using fr f(4) [of j] by (cases "j = q") (simp_all add: rx_frame_def)
  have buf: "rxq_buf (w_rxqs s' j) = rxq_buf (w_rxqs s j)" for j
    using same(6) f(4) [of j] by (cases "j = q") simp_all
  have ready: "eq_ready s e \<Longrightarrow> eq_ready s' e" for e
    using f(5,6) by (auto simp: eq_ready_def eq_ring_def same(1) buf intro: less_le_trans)
  show ?thesis
    using inv ready run f(5) unfolding up_inv_def same(1-5) f(1-3) hw buf by (meson less_le_trans)
qed

text \<open>Refilling makes no objects and touches no event queue.\<close>

definition made :: "(nat \<Rightarrow> eq) \<times> nat \<times> nat \<times> nat \<times> nat \<times> (nat \<Rightarrow> nat option) \<Rightarrow> 'h world \<Rightarrow> bool" where
  "made A s \<longleftrightarrow> (w_eqs s, w_next_eq s, w_next_cq s, w_next_txq s, w_next_rxq s, \<lambda>r. rxq_buf (w_rxqs s r)) = A"

lemma made_write [up_intros]: "keeps (made A) (write_dword E w a v)"
  by (simp add: keeps_def made_def)

lemma made_upd_rxq: "(\<And>q. rxq_buf (f q) = rxq_buf q) \<Longrightarrow> keeps (made A) (upd_rxq r f)"
  by (auto simp: keeps_def made_def upd_rxq_def fun_eq_iff)

lemma made_upd [up_intros]: "keeps (made A) (upd_drv d)" "keeps (made A) (mem_pack fs b off vs)"
  by (auto simp: keeps_def made_def upd_drv_def mem_pack_def split: sum.split)

lemma made_alloc_pkt [up_intros]: "keeps (made A) (alloc_pkt E)"
proof (rule keepsI)
  fix s :: "'a world" assume "made A s"
  then show "made A (snd (alloc_pkt E s))" by (cases rule: alloc_pkt_cases [of s E]) (auto simp: made_def)
qed

lemma made_desc_loop [up_intros]: "keeps (made A) (desc_loop fmt pre dbs b base ptr len off ks)"
proof (induction ks arbitrary: off)
  case (Cons k ks)
  then show ?case unfolding desc_loop.simps Let_def by (intro keeps_sq up_intros)
qed (simp add: keeps_ret)

lemma made_refill_loop [up_intros]: "keeps (made A) (rx_refill_loop E n r)"
proof (induction n)
  case (Suc n)
  show ?case
    unfolding rx_refill_loop.simps Rxq_prepare_desc_def get_rxq_def
    by (intro up_intros made_upd_rxq keeps_the_buf Suc; simp)
qed (unfold rx_refill_loop.simps, rule keeps_ret)

lemma made_refill: "keeps (made A) (Rxq_refill_buffers E r)"
  unfolding Rxq_refill_buffers_def Rxq_write_prod_ptr_def get_rxq_def Let_def by (intro up_intros)

lemma triple_refill:
  assumes dev: "device_ok E"
  shows "triple up_inv (\<lambda>s. served {} s \<and> rxq_hw_regs (w_rxqs s q) \<noteq> None) (Rxq_refill_buffers E q)
    (\<lambda>_ s. served {} s \<and> rxq_hw_regs (w_rxqs s q) \<noteq> None)"
proof (rule tripleI)
  fix s :: "'a world" and r s'
  assume o: "up_inv s" "served {} s \<and> rxq_hw_regs (w_rxqs s q) \<noteq> None"
    and run: "Rxq_refill_buffers E q s = (r, s')"
  have inv: "run_inv s" using o(1) by (rule up_invD(1))
  from o(2) obtain w where w: "rxq_hw_regs (w_rxqs s q) = Some w" by auto
  with run_invD(4) [OF inv, of q] obtain k n b where "rxq_ring q k n b s" by auto
  from Rxq_refill_buffers_post [OF this run_invD(1) [OF inv] dev run_invD(2) [OF inv] w] run
  have fr: "rx_frame q s s'" by auto
  have i': "run_inv s'" using Rxq_refill_run [OF dev inv _ run] o by blast
  define A where "A = (w_eqs s, w_next_eq s, w_next_cq s, w_next_txq s, w_next_rxq s, \<lambda>r. rxq_buf (w_rxqs s r))"
  have "made A s'" by (rule keeps_run [OF made_refill _ run]) (simp add: A_def made_def)
  then have m: "w_eqs s' = w_eqs s" "w_next_eq s' = w_next_eq s" "w_next_cq s' = w_next_cq s"
      "w_next_txq s' = w_next_txq s" "w_next_rxq s' = w_next_rxq s" "\<And>r. rxq_buf (w_rxqs s' r) = rxq_buf (w_rxqs s r)"
    by (simp_all add: made_def A_def fun_eq_iff)
  have "up_inv s'" by (rule grows_rx_frame [OF o(1) fr _ i' m(1-5) m(6)]) (simp add: w)
  moreover have "served {} s'" "rxq_hw_regs (w_rxqs s' q) \<noteq> None"
    using o(2) fr by (simp_all add: served_def m(1) rx_frame_def)
  ultimately show "up_inv s' \<and> (\<forall>x. r = Inr x \<longrightarrow> served {} s' \<and> rxq_hw_regs (w_rxqs s' q) \<noteq> None)" by blast
qed

lemma triple_bus:
  assumes dev: "device_ok E"
  shows "triple up_inv (\<lambda>s. served {} s \<and> txq_hw_regs (w_txqs s q) \<noteq> None) (Txq_enable E q)
      (\<lambda>_ s. served {} s \<and> txq_hw_regs (w_txqs s q) \<noteq> None)"
    and "triple up_inv (\<lambda>s. served {} s \<and> rxq_hw_regs (w_rxqs s q) \<noteq> None) (Rxq_enable E q)
      (\<lambda>_ s. served {} s \<and> rxq_hw_regs (w_rxqs s q) \<noteq> None)"
proof -
  have w: "up_inv (wr_state E w a v s)" if "up_inv s" for w a v and s :: "'a world"
    using that grows_bus [OF bus_frame_wr wr_state_sizes [OF dev]] by (rule grows_up_inv)
  have sl: "slot (s\<lparr>w_txqs := (w_txqs s)(q := (w_txqs s q)\<lparr>txq_enabled := e\<rparr>)\<rparr>) x n = slot s x n"
      "slot (s\<lparr>w_rxqs := (w_rxqs s)(q := (w_rxqs s q)\<lparr>rxq_enabled := e\<rparr>)\<rparr>) x n = slot s x n" for x n e and s :: "'a world"
    by (cases x; simp add: slot_def)+
  have e: "up_inv (s\<lparr>w_txqs := (w_txqs s)(q := (w_txqs s q)\<lparr>txq_enabled := True\<rparr>)\<rparr>)"
      "up_inv (s\<lparr>w_rxqs := (w_rxqs s)(q := (w_rxqs s q)\<lparr>rxq_enabled := True\<rparr>)\<rparr>)" if "up_inv s" for s :: "'a world"
    by (rule grows_up_inv [OF that], simp add: grows_def sl)+
  show "triple up_inv (\<lambda>s. served {} s \<and> txq_hw_regs (w_txqs s q) \<noteq> None) (Txq_enable E q)
      (\<lambda>_ s. served {} s \<and> txq_hw_regs (w_txqs s q) \<noteq> None)"
    using e(1) [OF w] by (intro tripleI) (auto simp: Txq_enable_def run_simps served_def split: option.splits)
  show "triple up_inv (\<lambda>s. served {} s \<and> rxq_hw_regs (w_rxqs s q) \<noteq> None) (Rxq_enable E q)
      (\<lambda>_ s. served {} s \<and> rxq_hw_regs (w_rxqs s q) \<noteq> None)"
    using e(2) [OF w] by (intro tripleI) (auto simp: Rxq_enable_def run_simps served_def split: option.splits)
qed

lemma triple_list:
  "triple up_inv (\<lambda>s. served {} s \<and> txq_hw_regs (w_txqs s q) \<noteq> None)
     (upd_if i (\<lambda>f. f\<lparr>ifc_txq := ifc_txq f @ [q]\<rparr>)) (\<lambda>_. served {})"
  "triple up_inv (\<lambda>s. served {} s \<and> rxq_hw_regs (w_rxqs s q) \<noteq> None)
     (upd_if i (\<lambda>f. f\<lparr>ifc_rxq := ifc_rxq f @ [q]\<rparr>)) (\<lambda>_. served {})"
  by (intro tripleI, auto simp: upd_if_def served_def intro!: up_inv_ifs)+

lemma triple_last: "triple I P m (\<lambda>_. Q) \<Longrightarrow> triple I P (seqm [m]) (\<lambda>_. Q)"
  by (rule triple_Cons [where R = Q]) (simp_all add: triple_def [of _ _ "ret ()"])

lemma triple_Nil: "triple I P (seqm []) (\<lambda>_. P)"
  by (simp add: triple_def)

lemma triple_open_tx:
  assumes dev: "device_ok E"
  shows "triple up_inv (served {}) (open_tx E i k) (\<lambda>_. served {})"
  unfolding open_tx_def
  by (rule triple_bnd [OF triple_new_cq], rule triple_bnd [OF triple_eq_of_index],
      rule triple_sq [OF triple_Cq_open [OF dev]], simp, rule triple_bnd [OF triple_new_txq],
      rule triple_Cons [OF triple_Txq_open [OF dev]], simp, simp, rule triple_Cons [OF triple_bus(1) [OF dev]],
      rule triple_last [OF triple_list(1)])

lemma triple_open_rx:
  assumes dev: "device_ok E"
  shows "triple up_inv (served {}) (open_rx E i k) (\<lambda>_. served {})"
  unfolding open_rx_def Rxq_open_def
  by (rule triple_bnd [OF triple_new_cq], rule triple_bnd [OF triple_eq_of_index],
      rule triple_sq [OF triple_Cq_open [OF dev]], simp, rule triple_bnd [OF triple_new_rxq],
      rule triple_Cons [OF triple_sq [OF triple_Rxq_program [OF dev] triple_refill [OF dev]]], simp, simp,
      rule triple_Cons [OF triple_bus(2) [OF dev]], rule triple_last [OF triple_list(2)])

text \<open>From \<open>keeps (coming_up {})\<close> to a triple.\<close>

lemma triple_served: "keeps (coming_up {}) m \<Longrightarrow> triple up_inv (served {}) m (\<lambda>_. served {})"
  by (simp add: keeps_def triple_def coming_up_def)

lemma up_port_ctrl [up_intros]:
  assumes "device_ok E"
  shows "keeps (coming_up X) (Port_set_tx_ctrl E p v)" "keeps (coming_up X) (Port_set_rx_ctrl E p v)"
  using assms unfolding Port_set_tx_ctrl_def Port_set_rx_ctrl_def port_write_def by (intro up_intros; assumption)+

lemma triple_open:
  assumes dev: "device_ok E"
  shows "triple up_inv (served {}) (Interface_open E i) (\<lambda>_. served {})"
proof -
  have port: "keeps (coming_up {}) (bnd (port0 i) f)" if "\<And>p. keeps (coming_up {}) (f p)" for f :: "port \<Rightarrow> ('a, unit) drv"
    using that unfolding port0_def get_if_def by (intro up_intros)
  have sync: "keeps (coming_up {}) (read_sync E i)"
    using dev unfolding read_sync_def get_if_def by (intro up_intros)
  have up: "keeps (coming_up {}) (upd_if i (\<lambda>i. i\<lparr>ifc_port_up := True\<rparr>))" by (rule up_upd_if) simp_all
  have rings: "triple up_inv (served {}) (bnd (res_count_of k i) (\<lambda>n. forM (py_range n) f)) (\<lambda>_. served {})"
    if "\<And>x. triple up_inv (served {}) (f x) (\<lambda>_. served {})" for k and f :: "int \<Rightarrow> ('a, unit) drv"
    by (rule triple_bnd [OF triple_served [OF up_res_count] triple_forM]) (rule that)
  note step = triple_Cons [where R = "served {}"]
  show ?thesis
    unfolding Interface_open_def
    by (rule step [OF rings [OF triple_open_rx [OF dev]]], rule step [OF rings [OF triple_open_tx [OF dev]]],
        rule step [OF triple_served [OF sync]], rule step [OF triple_served [OF port]], rule up_port_ctrl [OF dev],
        rule step [OF triple_served [OF port]], rule up_port_ctrl [OF dev],
        rule step [OF triple_served [OF up]], rule triple_Nil)
qed

end
