(* ===== verification/Boot.thy ===== *)
theory Boot
  imports Bring_Up
begin

text \<open>
  The bring-up as a whole, as the test benches do it: \<open>init_pcie_dev\<close>, then \<open>open\<close> of every
  interface. Every loop of it ends; a normal return leaves every interface up with one open ring
  for each queue of the hardware; and from there on everything that is proved of the running
  driver applies.
\<close>

section \<open>The program\<close>

definition bring_up :: "'h env \<Rightarrow> ('h, unit) drv" where
  "bring_up E = sq (Driver_init_pcie_dev E) (bnd get_drv (\<lambda>d. forM (drv_interfaces d) (Interface_open E)))"

section \<open>What opening does to the interfaces\<close>

text \<open>What an interface shows of itself: its state, its rings and the sizes of its resources.\<close>

definition if_shape :: "iface \<Rightarrow> bool \<times> nat list \<times> nat list \<times> nat list \<times> int option \<times> int option" where
  "if_shape i = (ifc_port_up i, ifc_txq i, ifc_rxq i, ifc_eq i,
     map_option res_count (ifc_txq_res i), map_option res_count (ifc_rxq_res i))"

definition shaped :: "nat \<Rightarrow> (bool \<times> nat list \<times> nat list \<times> nat list \<times> int option \<times> int option) \<times> nat list \<Rightarrow>
    'h world \<Rightarrow> bool" where
  "shaped j g s \<longleftrightarrow> (if_shape (w_ifs s j), drv_interfaces (w_drv s)) = g"

named_theorems shape_intros "methods that leave the interfaces as they are"

lemmas shape_basic [shape_intros] = up_basic keeps_the_buf

lemma shape_prims [shape_intros]:
  "keeps (shaped j g) (read_dword E w a)" "keeps (shaped j g) (write_dword E w a v)"
  "keeps (shaped j g) (control E c)" "keeps (shaped j g) (upd_eq e f1)" "keeps (shaped j g) (upd_cq c' f2)"
  "keeps (shaped j g) (upd_txq q f3)" "keeps (shaped j g) (upd_rxq q f4)"
  "keeps (shaped j g) (new_eq i)" "keeps (shaped j g) (new_cq i)" "keeps (shaped j g) (new_txq i)"
  "keeps (shaped j g) (new_rxq i)" "keeps (shaped j g) (alloc_region E n)"
  "keeps (shaped j g) (mem_store b off bs)" "keeps (shaped j g) (mem_pack fs b off vs)"
  by (auto simp: keeps_def shaped_def upd_eq_def upd_cq_def upd_txq_def upd_rxq_def new_eq_def new_cq_def
      new_txq_def new_rxq_def alloc_region_def mem_store_def mem_pack_def split: option.split sum.split)

lemma shape_upd_drv: "(\<And>d. drv_interfaces (f d) = drv_interfaces d) \<Longrightarrow> keeps (shaped j g) (upd_drv f)"
  by (simp add: keeps_def shaped_def upd_drv_def)

lemma shape_upd_if: "(\<And>i. if_shape (f i) = if_shape i) \<Longrightarrow> keeps (shaped j g) (upd_if i f)"
  by (auto simp: keeps_def shaped_def upd_if_def)

lemma shape_upd_other: "i \<noteq> j \<Longrightarrow> keeps (shaped j g) (upd_if i f)"
  by (auto simp: keeps_def shaped_def upd_if_def)

text \<open>Allocating an index or looking a window up does not change the number of queues.\<close>

lemma res_count_kept:
  "res_alloc r = Inr (n, r') \<Longrightarrow> res_count r' = res_count r"
  "res_count (snd (res_get_window r n)) = res_count r"
  by (auto simp: res_alloc_def res_get_window_def Let_def split: list.splits option.split)

lemma shape_set_res:
  "if_res k i = Some r \<Longrightarrow> res_count r' = res_count r \<Longrightarrow> if_shape (set_res k r' i) = if_shape i"
  by (cases k) (simp_all add: if_shape_def)

lemma shape_if_alloc [shape_intros]: "keeps (shaped j g) (if_alloc k i)"
proof (rule keepsI)
  fix s :: "'a world" assume "shaped j g s"
  then show "shaped j g (snd (if_alloc k i s))"
    by (auto simp: if_alloc_def run_simps shaped_def shape_set_res res_count_kept(1) split: option.split sum.split)
qed

lemma shape_if_get_window [shape_intros]: "keeps (shaped j g) (if_get_window k i n)"
proof (rule keepsI)
  fix s :: "'a world" assume g: "shaped j g s"
  have "if_shape (set_res k r' (w_ifs s i)) = if_shape (w_ifs s i)"
    if "if_res k (w_ifs s i) = Some r" "res_get_window r n = (w, r')" for r w r'
    using that res_count_kept(2) [of r n] by (simp add: shape_set_res)
  with g show "shaped j g (snd (if_get_window k i n s))"
    by (auto simp: if_get_window_def run_simps shaped_def split: option.split prod.split)
qed

lemma shape_alloc_pkt [shape_intros]: "keeps (shaped j g) (alloc_pkt E)"
proof (rule keepsI)
  fix s :: "'a world" assume "shaped j g s"
  then show "shaped j g (snd (alloc_pkt E s))" by (cases rule: alloc_pkt_cases [of s E]) (auto simp: shaped_def)
qed

lemma shape_desc_loop [shape_intros]: "keeps (shaped j g) (desc_loop fmt pre dbs b base ptr len off ks)"
proof (induction ks arbitrary: off)
  case (Cons k ks)
  then show ?case unfolding desc_loop.simps Let_def by (intro keeps_sq shape_intros)
qed (simp add: keeps_ret)

lemma shape_refill_loop [shape_intros]: "keeps (shaped j g) (rx_refill_loop E n r)"
proof (induction n)
  case (Suc n)
  show ?case
    unfolding rx_refill_loop.simps Rxq_prepare_desc_def get_rxq_def by (intro shape_intros Suc)
qed (unfold rx_refill_loop.simps, rule keeps_ret)

lemma shape_arm [shape_intros]: "keeps (shaped j g) (Cq_arm E c)"
  unfolding Cq_arm_def get_cq_def by (intro shape_intros)

lemma shape_opens [shape_intros]:
  "keeps (shaped j g) (Cq_open E c e sz)" "keeps (shaped j g) (Txq_open E q c sz dbs)"
  "keeps (shaped j g) (Rxq_open E q c sz dbs)" "keeps (shaped j g) (Txq_enable E q)"
  "keeps (shaped j g) (Rxq_enable E q)" "keeps (shaped j g) (eq_of_index i k)"
  unfolding Cq_open_def Eq_attach_cq_def Txq_open_def Rxq_open_def Rxq_program_def Rxq_refill_buffers_def
    Rxq_write_prod_ptr_def Txq_enable_def Rxq_enable_def eq_of_index_def
    get_eq_def get_cq_def get_txq_def get_rxq_def get_if_def Let_def
  by (intro shape_intros)+

text \<open>The numbers of an interface's queues, in the hardware (as far as known) and open.\<close>

definition rings_are :: "nat \<Rightarrow> int option \<Rightarrow> int option \<Rightarrow> nat \<Rightarrow> nat \<Rightarrow> 'h world \<Rightarrow> bool" where
  "rings_are i a b m n s \<longleftrightarrow> (let f = w_ifs s i in
     map_option res_count (ifc_txq_res f) = a \<and> map_option res_count (ifc_rxq_res f) = b \<and>
     length (ifc_txq f) = m \<and> length (ifc_rxq f) = n)"

lemma keeps_rings:
  assumes "\<And>g. keeps (shaped i g) m"
  shows "triple (\<lambda>_. True) (rings_are i a b t r) m (\<lambda>_. rings_are i a b t r)"
proof (rule tripleI)
  fix s :: "'a world" and q s' assume g: "rings_are i a b t r s" and run: "m s = (q, s')"
  have "shaped i (if_shape (w_ifs s i), drv_interfaces (w_drv s)) s'"
    by (rule keeps_run [OF assms _ run]) (simp add: shaped_def)
  with g have "rings_are i a b t r s'" by (simp add: shaped_def if_shape_def rings_are_def Let_def)
  then show "True \<and> (\<forall>x. q = Inr x \<longrightarrow> rings_are i a b t r s')" by blast
qed

lemma rings_open_tx:
  "triple (\<lambda>_. True) (rings_are i a b m n) (open_tx E i k) (\<lambda>_. rings_are i a b (Suc m) n)"
  unfolding open_tx_def
  by (rule triple_bnd [OF keeps_rings], rule shape_intros, rule triple_bnd [OF keeps_rings], rule shape_intros,
      rule triple_sq [OF keeps_rings], intro shape_intros, rule triple_bnd [OF keeps_rings], rule shape_intros,
      rule triple_Cons [OF keeps_rings], rule shape_intros, rule triple_Cons [OF keeps_rings], rule shape_intros,
      rule triple_last)
     (auto intro!: tripleI simp: upd_if_def rings_are_def Let_def)

lemma rings_open_rx:
  "triple (\<lambda>_. True) (rings_are i a b m n) (open_rx E i k) (\<lambda>_. rings_are i a b m (Suc n))"
  unfolding open_rx_def
  by (rule triple_bnd [OF keeps_rings], rule shape_intros, rule triple_bnd [OF keeps_rings], rule shape_intros,
      rule triple_sq [OF keeps_rings], intro shape_intros, rule triple_bnd [OF keeps_rings], rule shape_intros,
      rule triple_Cons [OF keeps_rings], rule shape_intros, rule triple_Cons [OF keeps_rings], rule shape_intros,
      rule triple_last)
     (auto intro!: tripleI simp: upd_if_def rings_are_def Let_def)

lemma triple_forM_count:
  assumes "\<And>n x. triple I (P n) (f x) (\<lambda>_. P (Suc n))"
  shows "triple I (P n) (forM xs f) (\<lambda>_. P (n + length xs))"
proof (induction xs arbitrary: n)
  case (Cons x xs)
  have "triple I (P n) (sq (f x) (forM xs f)) (\<lambda>_. P (Suc n + length xs))"
    by (rule triple_sq [OF assms Cons])
  then show ?case by simp
qed (simp add: triple_def)

lemma rings_Interface_open:
  "triple (\<lambda>_. True) (rings_are i a b m n) (Interface_open E i)
     (\<lambda>_ s. ifc_port_up (w_ifs s i) \<and> a \<noteq> None \<and> b \<noteq> None \<and>
        rings_are i a b (m + nat (the a)) (n + nat (the b)) s)"
proof -
  have count: "triple (\<lambda>_. True) (rings_are i a b m n) (res_count_of TxqRes i) (\<lambda>x s. a = Some x \<and> rings_are i a b m n s)"
      "triple (\<lambda>_. True) (rings_are i a b m n) (res_count_of RxqRes i) (\<lambda>x s. b = Some x \<and> rings_are i a b m n s)" for m n
    by (auto intro!: tripleI simp: res_count_of_def run_simps rings_are_def Let_def res_get_count_def split: option.splits)
  have rx: "triple (\<lambda>_. True) (rings_are i a b m n) (bnd (res_count_of RxqRes i) (\<lambda>n. forM (py_range n) (open_rx E i)))
      (\<lambda>_ s. b \<noteq> None \<and> rings_are i a b m (n + nat (the b)) s)"
    for m n
  proof (rule triple_bnd [OF count(2)])
    show "triple (\<lambda>_. True) (\<lambda>s. b = Some x \<and> rings_are i a b m n s) (forM (py_range x) (open_rx E i))
        (\<lambda>_ s. b \<noteq> None \<and> rings_are i a b m (n + nat (the b)) s)" for x
    proof (cases "b = Some x")
      case True
      show ?thesis
        by (rule triple_conseq [OF triple_forM_count [where P = "\<lambda>n. rings_are i a b m n", OF rings_open_rx]])
           (use True in auto)
    qed (simp add: triple_def)
  qed
  have tx: "triple (\<lambda>_. True) (rings_are i a b m n) (bnd (res_count_of TxqRes i) (\<lambda>n. forM (py_range n) (open_tx E i)))
      (\<lambda>_ s. a \<noteq> None \<and> rings_are i a b (m + nat (the a)) n s)" for m n
  proof (rule triple_bnd [OF count(1)])
    show "triple (\<lambda>_. True) (\<lambda>s. a = Some x \<and> rings_are i a b m n s) (forM (py_range x) (open_tx E i))
        (\<lambda>_ s. a \<noteq> None \<and> rings_are i a b (m + nat (the a)) n s)" for x
    proof (cases "a = Some x")
      case True
      show ?thesis
        by (rule triple_conseq [OF triple_forM_count [where P = "\<lambda>m. rings_are i a b m n", OF rings_open_tx]])
           (use True in auto)
    qed (simp add: triple_def)
  qed
  have tail: "triple (\<lambda>_. True) (rings_are i a b m n) (seqm [
     read_sync E i,
     bnd (port0 i) (\<lambda>p. Port_set_tx_ctrl E p MQNIC_PORT_TX_CTRL_EN),
     bnd (port0 i) (\<lambda>p. Port_set_rx_ctrl E p MQNIC_PORT_RX_CTRL_EN),
     upd_if i (\<lambda>i. i\<lparr>ifc_port_up := True\<rparr>)]) (\<lambda>_ s. ifc_port_up (w_ifs s i) \<and> rings_are i a b m n s)" for m n
    by (rule triple_Cons [OF keeps_rings], unfold read_sync_def get_if_def, intro shape_intros,
        rule triple_Cons [OF keeps_rings], unfold port0_def Port_set_tx_ctrl_def port_write_def get_if_def rb_write_def,
        intro shape_intros, rule triple_Cons [OF keeps_rings], unfold Port_set_rx_ctrl_def port_write_def rb_write_def,
        intro shape_intros, rule triple_last)
       (auto intro!: tripleI simp: upd_if_def rings_are_def Let_def)
  have imp: "triple I P m Q \<Longrightarrow> triple I (\<lambda>s. R \<and> P s) m (\<lambda>x s. R \<and> Q x s)" for I P R Q and m :: "('a world, unit) M"
    by (simp add: triple_def)
  show ?thesis
    unfolding Interface_open_def
    by (rule triple_Cons [OF rx], rule triple_Cons [OF imp [OF tx]],
        rule triple_conseq [OF imp [OF imp [OF tail]]]) auto
qed

lemma shape_Interface_open:
  assumes "i \<noteq> j"
  shows "keeps (shaped j g) (Interface_open E i)"
  unfolding Interface_open_def open_tx_def open_rx_def res_count_of_def read_sync_def port0_def
    Port_set_tx_ctrl_def Port_set_rx_ctrl_def port_write_def rb_write_def get_if_def
  by (intro shape_intros shape_upd_other assms)

text \<open>The list of the interfaces is not touched either.\<close>

lemma interfaces_Interface_open:
  "keeps (\<lambda>s. drv_interfaces (w_drv s) = is) (Interface_open E i)"
proof (rule keepsI)
  fix s :: "'a world" assume "drv_interfaces (w_drv s) = is"
  moreover have "shaped (Suc i) (if_shape (w_ifs s (Suc i)), drv_interfaces (w_drv s)) (snd (Interface_open E i s))"
    by (rule keepsD [OF shape_Interface_open]) (simp_all add: shaped_def)
  ultimately show "drv_interfaces (w_drv (snd (Interface_open E i s))) = is" by (simp add: shaped_def)
qed

section \<open>Discovery opens no ring\<close>

definition no_rings :: "'h world \<Rightarrow> bool" where
  "no_rings s \<longleftrightarrow> (\<forall>j. ifc_txq (w_ifs s j) = [] \<and> ifc_rxq (w_ifs s j) = []) \<and>
     distinct (drv_interfaces (w_drv s)) \<and> (\<forall>i \<in> set (drv_interfaces (w_drv s)). i < w_next_if s)"

named_theorems bare_intros "methods of the discovery that open no ring"

lemmas bare_basic [bare_intros] = up_basic

lemma bare_prims [bare_intros]:
  "keeps no_rings (read_dword E w a)" "keeps no_rings (write_dword E w a v)" "keeps no_rings (control E c)"
  "keeps no_rings (upd_eq e f)" "keeps no_rings (new_eq i)" "keeps no_rings (alloc_region E n)"
  "keeps no_rings (mem_store b off bs)" "keeps no_rings (new_if k w csr)"
  by (auto simp: keeps_def no_rings_def upd_eq_def new_eq_def alloc_region_def mem_store_def new_if_def
      Interface_init_def less_Suc_eq split: option.split)

lemma bare_upd_drv: "(\<And>d. drv_interfaces (f d) = drv_interfaces d \<or> drv_interfaces (f d) = []) \<Longrightarrow> keeps no_rings (upd_drv f)"
  unfolding upd_drv_def by (rule keeps_modifies) (simp add: no_rings_def, metis distinct.simps(1) empty_iff empty_set)

lemma bare_upd_if:
  assumes "\<And>i. ifc_txq (f i) = ifc_txq i \<or> ifc_txq (f i) = []" "\<And>i. ifc_rxq (f i) = ifc_rxq i \<or> ifc_rxq (f i) = []"
  shows "keeps no_rings (upd_if j f)"
  unfolding upd_if_def by (rule keeps_modifies) (use assms in \<open>auto simp: no_rings_def\<close>, metis+)

lemma bare_res [bare_intros]: "keeps no_rings (if_alloc k i)" "keeps no_rings (if_get_window k i n)"
  unfolding if_alloc_def if_get_window_def get_if_def by (intro bare_intros bare_upd_if; simp)+

lemma bare_rb [bare_intros]: "keeps no_rings (rb_read E rb a)" "keeps no_rings (rb_write E rb a v)"
  by (simp_all add: rb_read_def rb_write_def bare_prims)

lemma bare_enumerate [bare_intros]: "keeps no_rings (enumerate_reg_blocks n E w off bs)"
  by (rule enumerate_keeps) (rule bare_prims)

lemma bare_Port_init [bare_intros]: "keeps no_rings (Port_init_hw E p)"
  unfolding Port_init_hw_def enumerate_or_raise_def Port_set_tx_ctrl_def Port_set_rx_ctrl_def
    Port_set_lfc_ctrl_def Port_set_pfc_ctrl_def port_write_def Let_def
  by (intro bare_intros)

lemma bare_Eq_open [bare_intros]: "keeps no_rings (Eq_open E e irq sz)" "keeps no_rings (Eq_arm E e)"
  unfolding Eq_open_def Eq_arm_def get_eq_def Let_def by (intro bare_intros)+

lemma bare_init_hw: "keeps no_rings (Interface_init_hw E i)"
  unfolding Interface_init_hw_def Interface_init_ctrl_def Interface_set_mtu_def Interface_init_eq_res_def
    Interface_init_cq_res_def Interface_init_txq_res_def Interface_init_rxq_res_def find_resource_def
    Interface_find_block_def Interface_init_map_def set_rx_queue_map_rss_mask_def set_rx_queue_map_app_mask_def
    set_rx_queue_map_indir_table_def Interface_init_disable_def disable_all_def res_count_of_def
    Interface_init_ports_def Interface_init_eqs_def get_if_def get_drv_def Let_def
  by (intro bare_intros bare_upd_if; simp)

text \<open>A new interface is listed once it has been initialised; nothing lists it before.\<close>

definition fresh_if :: "nat \<Rightarrow> nat list \<Rightarrow> 'h world \<Rightarrow> bool" where
  "fresh_if i is s \<longleftrightarrow> drv_interfaces (w_drv s) = is \<and> i < w_next_if s \<and> i \<notin> set is"

lemma fresh_prims [bare_intros]:
  "keeps (fresh_if i is) (read_dword E w a)" "keeps (fresh_if i is) (write_dword E w a v)"
  "keeps (fresh_if i is) (upd_eq e f)" "keeps (fresh_if i is) (new_eq k)" "keeps (fresh_if i is) (alloc_region E n)"
  "keeps (fresh_if i is) (mem_store b off bs)" "keeps (fresh_if i is) (upd_if j g)"
  by (auto simp: keeps_def fresh_if_def upd_eq_def new_eq_def alloc_region_def mem_store_def upd_if_def split: option.split)

lemma fresh_init_hw: "keeps (fresh_if i is) (Interface_init_hw E j)"
proof -
  have en: "keeps (fresh_if i is) (enumerate_reg_blocks n E w off bs)" for n w off bs
    by (rule enumerate_keeps) (rule fresh_prims)
  show ?thesis
    unfolding Interface_init_hw_def Interface_init_ctrl_def Interface_set_mtu_def Interface_init_eq_res_def
      Interface_init_cq_res_def Interface_init_txq_res_def Interface_init_rxq_res_def find_resource_def
      Interface_find_block_def Interface_init_map_def set_rx_queue_map_rss_mask_def set_rx_queue_map_app_mask_def
      set_rx_queue_map_indir_table_def Interface_init_disable_def disable_all_def res_count_of_def
      Interface_init_ports_def Interface_init_eqs_def Port_init_hw_def enumerate_or_raise_def Port_set_tx_ctrl_def
      Port_set_rx_ctrl_def Port_set_lfc_ctrl_def Port_set_pfc_ctrl_def port_write_def rb_read_def rb_write_def
      Eq_open_def Eq_arm_def if_alloc_def if_get_window_def get_eq_def get_if_def get_drv_def Let_def
    by (intro bare_intros en)
qed

lemma bare_init_interface [bare_intros]: "keeps no_rings (Driver_init_interface E w off stride csr k)"
proof (rule keepsI)
  fix s :: "'a world" assume s: "no_rings s"
  let ?i = "w_next_if s" and ?is = "drv_interfaces (w_drv s)"
  let ?w = "create_window w (off + k * stride) (Some stride)"
  obtain r1 s1 where s1: "new_if k ?w csr s = (r1, s1)" by (cases "new_if k ?w csr s")
  then have r1: "r1 = Inr ?i" and f1: "fresh_if ?i ?is s1"
    using s by (auto simp: new_if_def fresh_if_def no_rings_def)
  have n1: "no_rings s1" by (rule keeps_run [OF bare_prims(8) s s1])
  obtain r2 s2 where s2: "Interface_init_hw E ?i s1 = (r2, s2)" by (cases "Interface_init_hw E ?i s1")
  have n2: "no_rings s2" "fresh_if ?i ?is s2"
    using keeps_run [OF bare_init_hw n1 s2] keeps_run [OF fresh_init_hw f1 s2] by auto
  then have "no_rings (s2\<lparr>w_drv := (w_drv s2)\<lparr>drv_interfaces := drv_interfaces (w_drv s2) @ [?i]\<rparr>\<rparr>)"
    by (auto simp: no_rings_def fresh_if_def)
  with s1 r1 s2 n2(1) show "no_rings (snd (Driver_init_interface E w off stride csr k s))"
    by (cases r2) (simp_all add: Driver_init_interface_def run_bnd run_sq upd_drv_def)
qed

lemma bare_init_pcie: "keeps no_rings (Driver_init_pcie_dev E)"
  unfolding Driver_init_pcie_dev_def Driver_init_common_def Driver_read_ids_def Driver_init_interfaces_def
    drv_read_def get_drv_def Let_def
  by (intro bare_intros bare_upd_drv; simp)

lemma no_rings_init: "no_rings (init_world h)"
  by (simp add: no_rings_def init_world_def Interface_init_def Driver_init_def)

section \<open>Bringing up\<close>

text \<open>An interface that is up, with a ring for every queue of the hardware.\<close>

definition if_running :: "'h world \<Rightarrow> nat \<Rightarrow> bool" where
  "if_running s i \<longleftrightarrow> ifc_port_up (w_ifs s i) \<and> (\<exists>a b. ifc_txq_res (w_ifs s i) = Some a \<and>
     ifc_rxq_res (w_ifs s i) = Some b \<and> length (ifc_txq (w_ifs s i)) = nat (res_count a) \<and>
     length (ifc_rxq (w_ifs s i)) = nat (res_count b))"

lemma if_running_shape:
  "if_shape (w_ifs s i) = if_shape (w_ifs s' i) \<Longrightarrow> if_running s i = if_running s' i"
  unfolding if_running_def if_shape_def by (auto simp: map_option_case split: option.splits)

lemma open_all:
  "distinct is \<Longrightarrow> (\<And>i. i \<in> set is \<Longrightarrow> ifc_txq (w_ifs s i) = [] \<and> ifc_rxq (w_ifs s i) = []) \<Longrightarrow>
   forM is (Interface_open E) s = (Inr (), s') \<Longrightarrow>
   (\<forall>i \<in> set is. if_running s' i) \<and> (\<forall>j. j \<notin> set is \<longrightarrow> if_shape (w_ifs s' j) = if_shape (w_ifs s j)) \<and>
   drv_interfaces (w_drv s') = drv_interfaces (w_drv s)"
proof (induction "is" arbitrary: s)
  case (Cons i "is")
  obtain r s1 where s1: "Interface_open E i s = (r, s1)" by (cases "Interface_open E i s")
  with Cons.prems(3) have r: "r = Inr ()" and rest: "forM is (Interface_open E) s1 = (Inr (), s')"
    by (cases r; simp add: run_sq)+
  have same: "if_shape (w_ifs s1 j) = if_shape (w_ifs s j)" "drv_interfaces (w_drv s1) = drv_interfaces (w_drv s)"
    if "j \<noteq> i" for j
    using keeps_run [OF shape_Interface_open [OF that [symmetric]] _ s1, of "(if_shape (w_ifs s j), drv_interfaces (w_drv s))"]
    by (simp_all add: shaped_def)
  have dr: "drv_interfaces (w_drv s1) = drv_interfaces (w_drv s)"
    by (rule keeps_run [OF interfaces_Interface_open _ s1]) simp
  let ?a = "map_option res_count (ifc_txq_res (w_ifs s i))" and ?b = "map_option res_count (ifc_rxq_res (w_ifs s i))"
  have "rings_are i ?a ?b 0 0 s" using Cons.prems(2) by (simp add: rings_are_def Let_def)
  from tripleD [OF rings_Interface_open _ this s1] r
  have run: "if_running s1 i" by (auto simp: if_running_def rings_are_def Let_def)
  have "ifc_txq (w_ifs s1 j) = [] \<and> ifc_rxq (w_ifs s1 j) = []" if "j \<in> set is" for j
    using that Cons.prems(1,2) same(1) [of j] by (auto simp: if_shape_def)
  with Cons.IH [OF _ _ rest] Cons.prems(1) have IH: "\<forall>j \<in> set is. if_running s' j"
      "\<forall>j. j \<notin> set is \<longrightarrow> if_shape (w_ifs s' j) = if_shape (w_ifs s1 j)"
      "drv_interfaces (w_drv s') = drv_interfaces (w_drv s1)" by auto
  from IH(2) Cons.prems(1) have "if_shape (w_ifs s' i) = if_shape (w_ifs s1 i)" by simp
  with run have "if_running s' i" using if_running_shape [of s' i s1] by simp
  with IH same(1) dr show ?case by auto
qed simp

section \<open>Every loop of the bring-up ends\<close>

abbreviation stops :: "('s, 'a) M \<Rightarrow> bool" where
  "stops \<equiv> ends (\<lambda>_. True)"

lemma stops_case_prod: "(\<And>a b. stops (f a b)) \<Longrightarrow> stops (case p of (a, b) \<Rightarrow> f a b)"
  by (cases p) simp

lemma stops_option: "stops m \<Longrightarrow> (\<And>x. stops (n x)) \<Longrightarrow> stops (case v of None \<Rightarrow> m | Some x \<Rightarrow> n x)"
  by (cases v) auto

lemma stops_seqm: "stops (seqm [])" "stops m \<Longrightarrow> stops (seqm ms) \<Longrightarrow> stops (seqm (m # ms))"
  by (auto intro: ends_intros)

named_theorems stop_intros "methods whose loops end"

lemmas stops_basic [stop_intros] = ends_basic(1-4) ends_bnd ends_sq ends_if ends_forM stops_case_prod stops_option stops_seqm

lemma stops_throw [stop_intros]:
  "stops (throw (Exn x))" "stops (throw (AssertionError x))" "stops (throw IndexError)" "stops (throw KeyError)"
  "stops (throw TypeError)" "stops (throw AttributeError)" "stops (throw StructError)" "stops (throw PoolError)"
  by (simp_all add: ends_def)

lemma stops_prims [stop_intros]:
  "stops (read_dword E w a)" "stops (write_dword E w a v)" "stops (control E c)" "stops (upd_eq e f1)"
  "stops (upd_cq k f2)" "stops (upd_txq q f3)" "stops (upd_rxq q f4)" "stops (upd_if i f5)" "stops (upd_drv f6)"
  "stops (new_eq i)" "stops (new_cq i)" "stops (new_txq i)" "stops (new_rxq i)" "stops (new_if x w csr)"
  "stops (alloc_region E n)" "stops (mem_store b off bs)"
  by (auto simp: ends_def run_simps alloc_region_def mem_store_def split: option.split)

lemma pack_stops: "pack fs vs \<noteq> Inl NoFuel"
  by (induction fs vs rule: pack.induct) (auto split: sum.splits)

lemma stops_pack [stop_intros]: "stops (mem_pack fs b off vs)"
  using pack_stops [of fs vs] by (auto simp: ends_def mem_pack_def pack_into_def split: sum.split)

lemma stops_res [stop_intros]: "stops (if_alloc k i)" "stops (if_get_window k i n)"
proof -
  have a: "stops (lift_res (res_alloc r))" for r
    by (simp add: ends_def run_lift_res res_alloc_def split: list.split)
  show "stops (if_alloc k i)" "stops (if_get_window k i n)"
    unfolding if_alloc_def if_get_window_def get_if_def by (intro stop_intros a)+
qed

lemma stops_lift [stop_intros]: "stops (lift_res (py_nth xs i))" "stops (lift_res (py_upd xs i v))"
  by (simp_all add: ends_def run_lift_res py_nth_def py_upd_def)

lemma stops_rb [stop_intros]: "stops (rb_read E rb a)" "stops (rb_write E rb a v)"
  by (simp_all add: rb_read_def rb_write_def stops_prims)

text \<open>The walk over the register blocks is the only loop that fuel is given to.\<close>

lemma enumerate_error:
  "enumerate_reg_blocks n E w off bs s = (Inr (bs', e), s') \<Longrightarrow> e \<noteq> Some NoFuel"
  by (induction n arbitrary: off bs s) (auto simp: run_bnd Let_def split: if_splits)

lemma stops_enumerate:
  assumes dev: "device_ok E" and k: "\<And>blocks e. e \<noteq> Some NoFuel \<Longrightarrow> stops (f (blocks, e))"
  shows "stops (bnd (enumerate_reg_blocks enum_fuel E w off bs) f)"
proof (rule endsI)
  fix s :: "'a world" and r s'
  assume run: "bnd (enumerate_reg_blocks enum_fuel E w off bs) f s = (r, s')"
  from enumerate_terminates [OF dev, of w off bs s] obtain blocks e s1 where
      s1: "enumerate_reg_blocks enum_fuel E w off bs s = (Inr (blocks, e), s1)" by blast
  with run have "f (blocks, e) s1 = (r, s')" by (simp add: run_bnd)
  with endsD [OF k [OF enumerate_error [OF s1]] TrueI] show "True \<and> r \<noteq> Inl NoFuel" by auto
qed

lemma stops_raise: "e \<noteq> Some NoFuel \<Longrightarrow> stops (case e of None \<Rightarrow> ret x | Some e \<Rightarrow> throw e)"
  by (auto simp: ends_def split: option.split)

lemma stops_Port_init [stop_intros]:
  assumes dev: "device_ok E"
  shows "stops (Port_init_hw E p)"
proof -
  have e: "stops (enumerate_or_raise E w off)" for w off
    unfolding enumerate_or_raise_def by (rule stops_enumerate [OF dev]) (simp add: stops_raise)
  show ?thesis
    unfolding Port_init_hw_def Port_set_tx_ctrl_def Port_set_rx_ctrl_def
      Port_set_lfc_ctrl_def Port_set_pfc_ctrl_def port_write_def Let_def
    by (intro stop_intros e)
qed

lemma stops_init_ctrl [stop_intros]:
  assumes dev: "device_ok E"
  shows "stops (Interface_init_ctrl E i)"
  unfolding Interface_init_ctrl_def Interface_set_mtu_def get_drv_def get_if_def Let_def
  by ((rule stops_enumerate [OF dev], simp only: prod.case) | (rule stops_raise, assumption) | rule stop_intros)+

lemma stops_Eq_open [stop_intros]: "stops (Eq_open E e irq sz)" "stops (Eq_arm E e)"
  unfolding Eq_open_def Eq_arm_def get_eq_def Let_def by (intro stop_intros)+

lemma stops_init_hw [stop_intros]: "device_ok E \<Longrightarrow> stops (Interface_init_hw E i)"
  unfolding Interface_init_hw_def Interface_init_eq_res_def
    Interface_init_cq_res_def Interface_init_txq_res_def Interface_init_rxq_res_def find_resource_def
    Interface_find_block_def Interface_init_map_def set_rx_queue_map_rss_mask_def set_rx_queue_map_app_mask_def
    set_rx_queue_map_indir_table_def Interface_init_disable_def disable_all_def res_count_of_def
    Interface_init_ports_def Interface_init_eqs_def get_if_def Let_def
  by (intro stop_intros)

lemma stops_init_common [stop_intros]:
  assumes dev: "device_ok E"
  shows "stops (Driver_init_common E)"
  unfolding Driver_init_common_def Driver_read_ids_def Driver_init_interfaces_def Driver_init_interface_def
    drv_read_def get_drv_def Let_def
  by ((rule stops_enumerate [OF dev], simp only: prod.case) | (rule stops_raise, assumption) | rule dev stop_intros)+

lemma stops_init_pcie [stop_intros]: "device_ok E \<Longrightarrow> stops (Driver_init_pcie_dev E)"
  unfolding Driver_init_pcie_dev_def get_drv_def by (intro stop_intros)

lemma stops_alloc_pkt [stop_intros]: "stops (alloc_pkt E)"
  unfolding alloc_pkt_def get_drv_def by (rule ends_bnd, intro stop_intros) (auto split: list.split intro: stop_intros)

lemma stops_desc_loop [stop_intros]: "stops (desc_loop fmt pre dbs b base ptr len off ks)"
proof (induction ks arbitrary: off)
  case (Cons k ks)
  then show ?case unfolding desc_loop.simps Let_def by (intro stop_intros)
qed (unfold desc_loop.simps, rule ends_basic)

lemma stops_refill_loop [stop_intros]: "stops (rx_refill_loop E n r)"
proof (induction n)
  case (Suc n)
  show ?case
    unfolding rx_refill_loop.simps Rxq_prepare_desc_def get_rxq_def the_buf_def by (intro stop_intros Suc)
qed (unfold rx_refill_loop.simps, rule ends_basic)

lemma stops_opens [stop_intros]:
  "stops (Cq_open E c e sz)" "stops (Cq_arm E c)" "stops (Txq_open E q c sz dbs)"
  "stops (Rxq_open E q c sz dbs)" "stops (Txq_enable E q)" "stops (Rxq_enable E q)" "stops (eq_of_index i k)"
  unfolding Cq_open_def Cq_arm_def Eq_attach_cq_def Txq_open_def Rxq_open_def Rxq_program_def Rxq_refill_buffers_def
    Rxq_write_prod_ptr_def Txq_enable_def Rxq_enable_def eq_of_index_def
    get_eq_def get_cq_def get_txq_def get_rxq_def get_if_def Let_def
  by (intro stop_intros)+

lemma stops_Interface_open [stop_intros]: "stops (Interface_open E i)"
  unfolding Interface_open_def open_tx_def open_rx_def res_count_of_def read_sync_def port0_def
    Port_set_tx_ctrl_def Port_set_rx_ctrl_def port_write_def get_if_def
  by (intro stop_intros)

lemma stops_bring_up: "device_ok E \<Longrightarrow> stops (bring_up E)"
  unfolding bring_up_def get_drv_def by (intro stop_intros)

section \<open>After the bring-up\<close>

text \<open>
  An interface in operation: it is up, has a ring for every queue of the hardware, and every ring
  and every event queue of it is open.
\<close>

definition if_operational :: "'h world \<Rightarrow> nat \<Rightarrow> bool" where
  "if_operational s i \<longleftrightarrow> if_running s i \<and>
     (\<forall>q \<in> set (ifc_txq (w_ifs s i)). txq_hw_regs (w_txqs s q) \<noteq> None) \<and>
     (\<forall>q \<in> set (ifc_rxq (w_ifs s i)). rxq_hw_regs (w_rxqs s q) \<noteq> None) \<and>
     (\<forall>e \<in> set (ifc_eq (w_ifs s i)). eq_ready s e)"

text \<open>Every completion queue that an event can name serves an open ring.\<close>

definition events_served :: "'h world \<Rightarrow> bool" where
  "events_served s \<longleftrightarrow> (\<forall>e n c. eq_cq_table (w_eqs s e) n = Some c \<longrightarrow>
     (\<exists>r. cq_src_ring (w_cqs s c) = Some r \<and> cq_attached s c r))"

lemma up_served: "up_inv s \<Longrightarrow> served {} s \<Longrightarrow> events_served s"
  unfolding events_served_def served_def using run_invD(5) [OF up_invD(1)] by blast

lemma triple_bring_up:
  assumes E: "device_ok E"
  shows "triple up_inv (served {}) (bring_up E) (\<lambda>_. served {})"
proof -
  have up: "keeps (coming_up {}) m \<Longrightarrow> triple up_inv (served {}) m (\<lambda>_. served {})" for m :: "('a, 'b) drv"
    by (simp add: keeps_def triple_def coming_up_def)
  have get: "triple up_inv (served {}) get_drv (\<lambda>_. served {})" by (simp add: triple_def get_drv_def)
  show ?thesis
    unfolding bring_up_def
    by (intro triple_sq [OF up [OF up_init_pcie [OF E]]] triple_bnd [OF get] triple_forM triple_open [OF E])
qed

lemma operational:
  assumes E: "device_ok E" and run: "bring_up E (init_world h) = (Inr (), s)"
  shows "\<forall>i \<in> set (drv_interfaces (w_drv s)). if_operational s i"
proof
  fix i assume i: "i \<in> set (drv_interfaces (w_drv s))"
  obtain r s1 where s1: "Driver_init_pcie_dev E (init_world h) = (r, s1)" by (cases "Driver_init_pcie_dev E (init_world h)")
  with run have rest: "forM (drv_interfaces (w_drv s1)) (Interface_open E) s1 = (Inr (), s)"
    by (cases r; simp add: bring_up_def run_sq run_bnd get_drv_def)
  have no: "no_rings s1" by (rule keeps_run [OF bare_init_pcie no_rings_init s1])
  have "(\<forall>i \<in> set (drv_interfaces (w_drv s1)). if_running s i) \<and> drv_interfaces (w_drv s) = drv_interfaces (w_drv s1)"
    using open_all [OF _ _ rest] no by (simp add: no_rings_def)
  with i have "if_running s i" by simp
  moreover have "up_inv s" using tripleD [OF triple_bring_up [OF E] _ _ run] coming_up_init [of "{}" h] by (simp add: coming_up_def)
  ultimately show "if_operational s i" unfolding if_operational_def using up_invD(6-8) by blast
qed

end
