(* ===== verification/Boot_Example.thy ===== *)
theory Boot_Example
  imports Boot
begin

text \<open>
  A small device on which the driver comes up: one interface with one port, one event queue, two
  completion queues and one queue of each direction. Its registers are read-only memory, its
  host memory is handed out in ascending order.
\<close>

fun win_addr :: "window \<Rightarrow> int" where
  "win_addr (Bar n) = 0"
| "win_addr (SubWin w off sz) = win_addr w + off"

definition boot_rom :: "int \<Rightarrow> int" where
  "boot_rom a = (case map_of [
     (0x0, 0xFFFFFFFF), (0x4, 0x100), (0x8, 0x40),
     (0x40, 0xC000), (0x44, 0x100), (0x4C, 0x1000), (0x50, 1), (0x54, 0x1000), (0x58, 0x100),
     (0x1100, 0xC001), (0x1104, 0x400), (0x1108, 0x140), (0x1110, 1), (0x1120, 9214), (0x1124, 9214),
     (0x1140, 0xC010), (0x1144, 0x400), (0x1148, 0x160), (0x114C, 0x400), (0x1150, 1), (0x1154, 0x10),
     (0x1160, 0xC020), (0x1164, 0x400), (0x1168, 0x180), (0x116C, 0x500), (0x1170, 2), (0x1174, 0x10),
     (0x1180, 0xC030), (0x1184, 0x400), (0x1188, 0x1A0), (0x118C, 0x600), (0x1190, 1), (0x1194, 0x20),
     (0x11A0, 0xC031), (0x11A4, 0x400), (0x11A8, 0x1C0), (0x11AC, 0x700), (0x11B0, 1), (0x11B4, 0x20),
     (0x11C0, 0xC090), (0x11C4, 0x200), (0x11C8, 0x200), (0x11D0, 0x900),
     (0x1200, 0xC002), (0x1204, 0x200), (0x120C, 0x240),
     (0x1240, 0xC003), (0x1244, 0x300)] a of None \<Rightarrow> 0 | Some v \<Rightarrow> v)"

definition boot_env :: "nat env" where
  "boot_env = \<lparr>
     dev_read = \<lambda>h m w a. (boot_rom (win_addr w + a), h, m),
     dev_write = \<lambda>h m w a v. (h, m),
     dev_control = \<lambda>h m c. (h, m),
     pool_alloc = \<lambda>h n. if h + nat n \<le> 2 ^ 40 then Some (int h, replicate (nat n) 0, h + nat n) else None\<rparr>"

lemma boot_rom_range: "0 \<le> boot_rom a \<and> boot_rom a < 2 ^ 32"
  by (auto simp: boot_rom_def)

lemma boot_env_ok: "device_ok boot_env"
  using boot_rom_range by (auto simp: device_ok_def boot_env_def split: if_splits)

lemma boot_bus:
  "rd_val boot_env w a s = boot_rom (win_addr w + a)"
  "rd_state boot_env w a s = s\<lparr>w_mmio := w_mmio s @ [RD w a (boot_rom (win_addr w + a))]\<rparr>"
  "wr_state boot_env w a v s = s\<lparr>w_mmio := w_mmio s @ [WR w a v]\<rparr>"
  "ctl_state boot_env c s = s\<lparr>w_mmio := w_mmio s @ [CTL c]\<rparr>"
  by (simp_all add: rd_val_def rd_state_def wr_state_def ctl_state_def boot_env_def)

lemma enum_fuel_many: "\<exists>n. enum_fuel = n + 8"
  by (intro exI [of _ "2 ^ 30 - 8"]) (simp add: enum_fuel_def)

definition boot_if_win :: window where
  "boot_if_win = create_window (Bar 0) 0x1000 (Some 0x1000)"

lemma boot_top:
  "\<exists>mm. \<forall>s. enumerate_reg_blocks enum_fuel boot_env (Bar 0) 0 [] s =
     (Inr ([block_at (Bar 0) 0 0xFFFFFFFF 0x100, block_at (Bar 0) 0x40 0xC000 0x100], None), s\<lparr>w_mmio := w_mmio s @ mm\<rparr>)"
proof -
  obtain n where "enum_fuel = n + 8" using enum_fuel_many ..
  then have n: "enum_fuel = Suc (Suc (Suc (Suc (Suc (Suc (Suc (Suc n)))))))" by simp
  show ?thesis
    unfolding n by (simp add: run_bnd boot_bus boot_rom_def block_at_def regs Let_def)
      (intro exI allI, rule refl)
qed

definition boot_blocks :: "reg_block list" where
  "boot_blocks = [block_at boot_if_win 0x100 0xC001 0x400, block_at boot_if_win 0x140 0xC010 0x400,
     block_at boot_if_win 0x160 0xC020 0x400, block_at boot_if_win 0x180 0xC030 0x400,
     block_at boot_if_win 0x1A0 0xC031 0x400, block_at boot_if_win 0x1C0 0xC090 0x200,
     block_at boot_if_win 0x200 0xC002 0x200]"

lemma boot_csr:
  "\<exists>mm. \<forall>s. enumerate_reg_blocks enum_fuel boot_env boot_if_win 0x100 [] s =
     (Inr (boot_blocks, None), s\<lparr>w_mmio := w_mmio s @ mm\<rparr>)"
proof -
  obtain n where "enum_fuel = n + 8" using enum_fuel_many ..
  then have n: "enum_fuel = Suc (Suc (Suc (Suc (Suc (Suc (Suc (Suc n)))))))" by simp
  have w: "win_addr boot_if_win = 0x1000" by (simp add: boot_if_win_def create_window_def)
  show ?thesis
    unfolding n by (simp add: run_bnd boot_bus boot_rom_def block_at_def regs Let_def w boot_blocks_def)
      (intro exI allI, rule refl)
qed

lemma boot_port:
  "\<exists>mm. \<forall>s. enumerate_reg_blocks enum_fuel boot_env boot_if_win 0x240 [] s =
     (Inr ([block_at boot_if_win 0x240 0xC003 0x300], None), s\<lparr>w_mmio := w_mmio s @ mm\<rparr>)"
proof -
  obtain n where "enum_fuel = n + 8" using enum_fuel_many ..
  then have n: "enum_fuel = Suc (Suc (Suc (Suc (Suc (Suc (Suc (Suc n)))))))" by simp
  have w: "win_addr boot_if_win = 0x1000" by (simp add: boot_if_win_def create_window_def)
  show ?thesis
    unfolding n by (simp add: run_bnd boot_bus boot_rom_def block_at_def regs Let_def w)
      (intro exI allI, rule refl)
qed

lemma boot_irqs:
  "\<exists>mm. \<forall>s. forM is (\<lambda>index. seqm [
         control boot_env (RequestIrq index),
         upd_drv (\<lambda>d. d\<lparr>drv_irq_list := drv_irq_list d @ [Interrupt_init index True]\<rparr>)]) s =
     (Inr (), s\<lparr>w_mmio := w_mmio s @ mm, w_drv := (w_drv s)\<lparr>drv_irq_list :=
        drv_irq_list (w_drv s) @ map (\<lambda>i. Interrupt_init i True) is\<rparr>\<rparr>)"
  by (intro exI [of _ "map (\<lambda>i. CTL (RequestIrq i)) is"] allI, induction "is")
     (simp_all add: run_simps boot_bus)

text \<open>What a method that has returned has left alone.\<close>

definition same_objects :: "nat world \<Rightarrow> nat world \<Rightarrow> bool" where
  "same_objects s s' \<longleftrightarrow> w_drv s' = w_drv s \<and> w_next_eq s' = w_next_eq s \<and> w_next_cq s' = w_next_cq s \<and>
     w_next_txq s' = w_next_txq s \<and> w_next_rxq s' = w_next_rxq s \<and> w_next_if s' = w_next_if s"

lemma boot_logs: "bit_length 1024 - 1 = 10" "bit_length 512 - 1 = 9" "bit_length 8192 - 1 = 13" "bit_length 4 - 1 = 2"
  using bit_length_floor_log2 [of 1024] floor_log2_exp [of 10] bit_length_floor_log2 [of 512] floor_log2_exp [of 9]
    bit_length_floor_log2 [of 8192] floor_log2_exp [of 13] bit_length_floor_log2 [of 4] floor_log2_exp [of 2]
  by simp_all

lemma boot_pool: "pool_alloc boot_env h n = (if h + nat n \<le> 2 ^ 40 then Some (int h, replicate (nat n) 0, h + nat n) else None)"
  by (simp add: boot_env_def)

lemma boot_Eq_open:
  assumes "eq_hw_regs (w_eqs s e) = None" "ifc_eq_res (w_ifs s (eq_interface (w_eqs s e))) = Some r"
    "res_alloc r = Inr (n, r')" "w_hw s + 32768 \<le> 2 ^ 40"
  shows "\<exists>s'. Eq_open boot_env e irq 1024 s = (Inr (), s') \<and> same_objects s s' \<and> w_hw s' = w_hw s + 32768 \<and>
    w_ifs s' = (w_ifs s)(eq_interface (w_eqs s e) := (w_ifs s (eq_interface (w_eqs s e)))
      \<lparr>ifc_eq_res := Some (snd (res_get_window r' n))\<rparr>) \<and> eq_eqn (w_eqs s' e) = Some n"
  using assms unfolding Eq_open_def
  by (simp add: run_simps if_alloc_run if_get_window_run boot_logs alloc_region_def mem_store_def Let_def
      boot_bus boot_pool same_objects_def regs)

lemma boot_Cq_open:
  assumes "cq_hw_regs (w_cqs s c) = None" "ifc_cq_res (w_ifs s (cq_interface (w_cqs s c))) = Some r"
    "res_alloc r = Inr (n, r')" "w_hw s + 32768 \<le> 2 ^ 40" "eq_eqn (w_eqs s e) = Some m"
  shows "\<exists>s'. sq (Cq_open boot_env c e 1024) (Cq_arm boot_env c) s = (Inr (), s') \<and> same_objects s s' \<and>
    w_hw s' = w_hw s + 32768 \<and>
    w_ifs s' = (w_ifs s)(cq_interface (w_cqs s c) := (w_ifs s (cq_interface (w_cqs s c)))
      \<lparr>ifc_cq_res := Some (snd (res_get_window r' n))\<rparr>) \<and> eq_eqn (w_eqs s' e) = Some m \<and> cq_cqn (w_cqs s' c) = Some n"
  using assms unfolding Cq_open_def
  by (simp add: run_simps if_alloc_run if_get_window_run boot_logs alloc_region_def mem_store_def Let_def
      boot_bus boot_pool same_objects_def Eq_attach_cq_run Cq_arm_def regs)

lemma boot_Txq_open:
  assumes "txq_hw_regs (w_txqs s q) = None" "ifc_txq_res (w_ifs s (txq_interface (w_txqs s q))) = Some r"
    "res_alloc r = Inr (n, r')" "w_hw s + 32768 \<le> 2 ^ 40" "cq_cqn (w_cqs s c) = Some m"
  shows "\<exists>s'. Txq_open boot_env q c 512 4 s = (Inr (), s') \<and> same_objects s s' \<and> w_hw s' = w_hw s + 32768 \<and>
    w_ifs s' = (w_ifs s)(txq_interface (w_txqs s q) := (w_ifs s (txq_interface (w_txqs s q)))
      \<lparr>ifc_txq_res := Some (snd (res_get_window r' n))\<rparr>) \<and> txq_hw_regs (w_txqs s' q) \<noteq> None \<and> w_eqs s' = w_eqs s"
  using assms unfolding Txq_open_def
  by (simp add: run_simps if_alloc_run if_get_window_run boot_logs alloc_region_def Let_def
      boot_bus boot_pool same_objects_def regs)

lemma boot_Rxq_program:
  assumes "rxq_hw_regs (w_rxqs s q) = None" "ifc_rxq_res (w_ifs s (rxq_interface (w_rxqs s q))) = Some r"
    "res_alloc r = Inr (n, r')" "w_hw s + 524288 \<le> 2 ^ 40" "cq_cqn (w_cqs s c) = Some m"
  shows "\<exists>s'. Rxq_program boot_env q c 8192 4 s = (Inr (), s') \<and> same_objects s s' \<and> w_hw s' = w_hw s + 524288 \<and>
    w_ifs s' = (w_ifs s)(rxq_interface (w_rxqs s q) := (w_ifs s (rxq_interface (w_rxqs s q)))
      \<lparr>ifc_rxq_res := Some (snd (res_get_window r' n))\<rparr>) \<and> rxq_hw_regs (w_rxqs s' q) \<noteq> None \<and> w_eqs s' = w_eqs s \<and>
    rxq_size (w_rxqs s' q) = 8192 \<and> rxq_prod_ptr (w_rxqs s' q) = rxq_cons_ptr (w_rxqs s' q)"
  using assms unfolding Rxq_program_def
  by (simp add: run_simps if_alloc_run if_get_window_run boot_logs alloc_region_def Let_def
      boot_bus boot_pool same_objects_def regs)

section \<open>Filling the receive ring\<close>

definition pool_at :: "nat \<Rightarrow> nat world \<Rightarrow> bool" where
  "pool_at h s \<longleftrightarrow> w_hw s \<le> h"

lemma pool_at_prims:
  "keeps (pool_at h) (write_dword boot_env w a v)" "keeps (pool_at h) (upd_rxq q f)" "keeps (pool_at h) (mem_pack fs b off vs)"
  by (auto simp: keeps_def pool_at_def boot_bus upd_rxq_def mem_pack_def split: sum.split)

lemma pool_at_desc_loop: "keeps (pool_at h) (desc_loop fmt pre dbs b base ptr len off ks)"
proof (induction ks arbitrary: off)
  case (Cons k ks)
  then show ?case unfolding desc_loop.simps Let_def by (intro keeps_sq pool_at_prims)
qed (simp add: keeps_ret)

lemma boot_alloc_pkt:
  assumes "drv_pkt_buf_size (w_drv s) = 16384" "w_hw s + 16384 \<le> h" "h \<le> 2 ^ 40"
  shows "\<exists>p s'. alloc_pkt boot_env s = (Inr p, s') \<and> pool_at h s' \<and> w_ifs s' = w_ifs s"
  using assms by (cases "drv_free_packets (w_drv s)")
    (auto simp: alloc_pkt_reuse alloc_pkt_new Let_def boot_pool pool_at_def)

lemma boot_fill_one:
  assumes "drv_pkt_buf_size (w_drv s) = 16384" "w_hw s + 16384 \<le> h" "h \<le> 2 ^ 40" "rx_fill_one boot_env q s = (r, s')"
  shows "pool_at h s'"
proof -
  from boot_alloc_pkt [OF assms(1-3)] obtain p s1 where s1: "alloc_pkt boot_env s = (Inr p, s1)" "pool_at h s1" by blast
  let ?rest = "\<lambda>ix. sq (bnd (get_rxq q) (\<lambda>qq.
     bnd (lift_res (py_upd (rxq_rx_info qq) ix (Some p))) (\<lambda>info.
     sq (upd_rxq q (\<lambda>q. q\<lparr>rxq_rx_info := info\<rparr>)) (
     bnd (the_buf (rxq_buf qq)) (\<lambda>b.
     desc_loop [FL, FL, FQ] [0] (rxq_desc_block_size qq) b (ix * rxq_stride qq)
       (get_absolute_address p 0) (rg_size p) 0 (map int [0..<nat (rxq_desc_block_size qq)]))))))
     (upd_rxq q (\<lambda>q. q\<lparr>rxq_prod_ptr := rxq_prod_ptr q + 1\<rparr>))"
  have k: "keeps (pool_at h) (?rest ix)" for ix
    unfolding get_rxq_def by (intro up_basic keeps_the_buf pool_at_prims pool_at_desc_loop)
  have "rx_fill_one boot_env q s = ?rest (rxq_prod_ptr (w_rxqs s q) AND rxq_size_mask (w_rxqs s q)) s1"
    by (simp add: rx_fill_one_def Rxq_prepare_desc_def run_bnd run_sq get_rxq_def s1(1))
  with keeps_run [OF k s1(2)] assms(4) show ?thesis by simp
qed

lemma boot_refill_loop:
  assumes "rxq_ring i k n b s" "bufs_inv s" "packets_ok s"
    and "rxq_prod_ptr (w_rxqs s i) + int m \<le> rxq_cons_ptr (w_rxqs s i) + 2 ^ k" "w_hw s + m * 16384 \<le> h" "h \<le> 2 ^ 40"
  shows "\<exists>s'. rx_refill_loop boot_env m i s = (Inr (), s') \<and> pool_at h s'"
  using assms
proof (induction m arbitrary: s)
  case (Suc m)
  have sz: "drv_pkt_buf_size (w_drv s) = 16384" using Suc.prems(3) by (simp add: packets_ok_def)
  have h: "w_hw s + 16384 \<le> h - m * 16384" "h - m * 16384 \<le> 2 ^ 40" using Suc.prems(5,6) by auto
  from boot_alloc_pkt [OF sz h] obtain p s2 where a: "alloc_pkt boot_env s = (Inr p, s2)" by blast
  have room: "rxq_prod_ptr (w_rxqs s i) < rxq_cons_ptr (w_rxqs s i) + 2 ^ k" using Suc.prems(4) by simp
  from rx_fill_one_ok [OF Suc.prems(1,2) boot_env_ok Suc.prems(3) a room] obtain s1 where s1:
      "rx_fill_one boot_env i s = (Inr (), s1)" "rx_fill_frame i s s1" "rxq_ring i k n b s1" "bufs_inv s1"
      "packets_ok s1" "rxq_prod_ptr (w_rxqs s1 i) = rxq_prod_ptr (w_rxqs s i) + 1"
    by blast
  have "w_hw s1 + m * 16384 \<le> h" using boot_fill_one [OF sz h s1(1)] Suc.prems(5) by (simp add: pool_at_def)
  moreover have "rxq_prod_ptr (w_rxqs s1 i) + int m \<le> rxq_cons_ptr (w_rxqs s1 i) + 2 ^ k"
    using Suc.prems(4) s1(2,6) by (simp add: rx_fill_frame_def rx_frame_def)
  ultimately obtain s' where "rx_refill_loop boot_env m i s1 = (Inr (), s')" "pool_at h s'"
    using Suc.IH [OF s1(3-5)] Suc.prems(6) by blast
  with s1(1) show ?case by (simp only: rx_refill_loop_Suc sq_Inr) blast
qed (simp add: pool_at_def)

lemma boot_refill:
  assumes inv: "run_inv s" and o: "rxq_hw_regs (w_rxqs s q) \<noteq> None" and h: "w_hw s + 2 ^ 27 \<le> h" "h \<le> 2 ^ 40"
    and size: "rxq_size (w_rxqs s q) = 8192" "rxq_prod_ptr (w_rxqs s q) = rxq_cons_ptr (w_rxqs s q)"
  shows "\<exists>s'. Rxq_refill_buffers boot_env q s = (Inr (), s') \<and> pool_at h s' \<and> w_ifs s' = w_ifs s \<and>
    rxq_hw_regs (w_rxqs s' q) \<noteq> None \<and> w_eqs s' = w_eqs s"
proof -
  from run_invD(3,4) [OF inv] o obtain k n b where r: "rxq_ring q k n b s" by blast
  have k: "(2 :: int) ^ k = 8192" using r size(1) by (simp add: rxq_ring_def Let_def)
  have "\<exists>s'. rx_refill_loop boot_env 8192 q s = (Inr (), s') \<and> pool_at h s'"
    by (rule boot_refill_loop [OF r run_invD(1,2) [OF inv]]) (use k size(2) h in simp_all)
  then obtain s1 where s1: "rx_refill_loop boot_env 8192 q s = (Inr (), s1)" "pool_at h s1" by blast
  have "\<exists>res s'. rx_refill_loop boot_env 8192 q s = (res, s') \<and> rx_fill_frame q s s'"
    using rx_refill_loop_ok [OF r run_invD(1) [OF inv] boot_env_ok run_invD(2) [OF inv], of 8192] k size(2) by auto
  with s1(1) have fr: "rx_frame q s s1" by (simp add: rx_fill_frame_def)
  then have hw: "rxq_hw_regs (w_rxqs s1 q) = rxq_hw_regs (w_rxqs s q)" "w_ifs s1 = w_ifs s" by (simp_all add: rx_frame_def)
  with o obtain w where w: "rxq_hw_regs (w_rxqs s1 q) = Some w" by auto
  have "Rxq_refill_buffers boot_env q s = Rxq_write_prod_ptr boot_env q s1"
    using s1(1) size by (simp add: Rxq_refill_buffers_def run_bnd get_rxq_def Let_def sq_Inr)
  moreover have "made (w_eqs s, w_next_eq s, w_next_cq s, w_next_txq s, w_next_rxq s, \<lambda>r. rxq_buf (w_rxqs s r)) s1"
    by (rule keeps_run [OF made_refill_loop _ s1(1)]) (simp add: made_def)
  ultimately show ?thesis using w hw s1(2) by (simp add: Rxq_write_prod_ptr_def run_simps boot_bus pool_at_def made_def)
qed

section \<open>Opening the interface\<close>

text \<open>An interface whose resources still have an index for each queue to come.\<close>

definition can_open :: "iface \<Rightarrow> bool" where
  "can_open f \<longleftrightarrow> ifc_eq f = [0] \<and> (\<exists>p c. ifc_ports f = [p] \<and> port_ctrl_rb p = Some c) \<and>
     ifc_hw_regs f = boot_if_win"

lemma boot_cq:
  assumes up: "up_inv s" "served {} s" and f: "can_open (w_ifs s 0)"
    and r: "ifc_cq_res (w_ifs s 0) = Some x" "res_alloc x = Inr (n, x')" and e: "eq_eqn (w_eqs s 0) = Some m"
    and h: "w_hw s + 32768 \<le> 2 ^ 40"
  shows "\<exists>c s1 s2. new_cq 0 s = (Inr c, s1) \<and> eq_of_index 0 0 s1 = (Inr 0, s1) \<and>
    sq (Cq_open boot_env c 0 1024) (Cq_arm boot_env c) s1 = (Inr (), s2) \<and> up_inv s2 \<and> cq_open_for c s2 \<and>
    w_hw s2 = w_hw s + 32768 \<and> eq_eqn (w_eqs s2 0) = Some m \<and> cq_cqn (w_cqs s2 c) \<noteq> None \<and>
    w_ifs s2 = (w_ifs s)(0 := (w_ifs s 0)\<lparr>ifc_cq_res := Some (snd (res_get_window x' n))\<rparr>)"
proof -
  obtain c s1 where s1: "new_cq 0 s = (Inr c, s1)" by (simp add: new_cq_def)
  then have f1: "w_ifs s1 = w_ifs s" "w_hw s1 = w_hw s" "w_eqs s1 = w_eqs s" "w_cqs s1 c = Cq_init 0"
    by (auto simp: new_cq_def)
  from tripleD [OF triple_new_cq up s1] have u1: "up_inv s1" "served {c} s1 \<and> unwired_cq c s1" by auto
  have "\<exists>s2. sq (Cq_open boot_env c 0 1024) (Cq_arm boot_env c) s1 = (Inr (), s2) \<and> same_objects s1 s2 \<and>
    w_hw s2 = w_hw s1 + 32768 \<and>
    w_ifs s2 = (w_ifs s1)(cq_interface (w_cqs s1 c) := (w_ifs s1 (cq_interface (w_cqs s1 c)))
      \<lparr>ifc_cq_res := Some (snd (res_get_window x' n))\<rparr>) \<and> eq_eqn (w_eqs s2 0) = Some m \<and> cq_cqn (w_cqs s2 c) = Some n"
    by (rule boot_Cq_open [where r = x]) (use h in \<open>simp_all add: f1 Cq_init_def r e\<close>)
  then obtain s2 where s2: "sq (Cq_open boot_env c 0 1024) (Cq_arm boot_env c) s1 = (Inr (), s2)"
      "w_hw s2 = w_hw s + 32768" "eq_eqn (w_eqs s2 0) = Some m" "cq_cqn (w_cqs s2 c) = Some n"
      "w_ifs s2 = (w_ifs s)(0 := (w_ifs s 0)\<lparr>ifc_cq_res := Some (snd (res_get_window x' n))\<rparr>)"
    by (auto simp: f1 Cq_init_def)
  from tripleD [OF triple_Cq_open [OF boot_env_ok] u1(1,2) s2(1)] have u2: "up_inv s2" "cq_open_for c s2" by auto
  have "eq_of_index 0 0 s1 = (Inr 0, s1)" using f by (simp add: eq_of_index_def run_simps f1 can_open_def)
  with s1 s2 u2 show ?thesis by (intro exI [of _ c] exI [of _ s1] exI [of _ s2]) simp
qed

lemma boot_open_rx:
  assumes up: "up_inv s" "served {} s" and f: "can_open (w_ifs s 0)"
    and c: "ifc_cq_res (w_ifs s 0) = Some x" "res_alloc x = Inr (n, x')" and e: "eq_eqn (w_eqs s 0) = Some m"
    and r: "ifc_rxq_res (w_ifs s 0) = Some y" "res_alloc y = Inr (k, y')" and h: "w_hw s + 2 ^ 28 \<le> h" "h \<le> 2 ^ 40"
  shows "\<exists>s'. open_rx boot_env 0 0 s = (Inr (), s') \<and> pool_at h s' \<and> can_open (w_ifs s' 0) \<and>
    ifc_cq_res (w_ifs s' 0) = Some (snd (res_get_window x' n)) \<and> ifc_txq_res (w_ifs s' 0) = ifc_txq_res (w_ifs s 0) \<and>
    eq_eqn (w_eqs s' 0) = Some m"
proof -
  have h0: "w_hw s + 32768 \<le> 2 ^ 40" using h by simp
  from boot_cq [OF up f c e h0] obtain c s1 s2 where s2: "new_cq 0 s = (Inr c, s1)" "eq_of_index 0 0 s1 = (Inr 0, s1)"
      "sq (Cq_open boot_env c 0 1024) (Cq_arm boot_env c) s1 = (Inr (), s2)" "up_inv s2" "cq_open_for c s2"
      "w_hw s2 = w_hw s + 32768" "eq_eqn (w_eqs s2 0) = Some m" "cq_cqn (w_cqs s2 c) \<noteq> None"
      "w_ifs s2 = (w_ifs s)(0 := (w_ifs s 0)\<lparr>ifc_cq_res := Some (snd (res_get_window x' n))\<rparr>)"
    by blast
  obtain q s3 where s3: "new_rxq 0 s2 = (Inr q, s3)" by (simp add: new_rxq_def)
  then have f3: "w_ifs s3 = w_ifs s2" "w_hw s3 = w_hw s2" "w_eqs s3 = w_eqs s2" "w_cqs s3 = w_cqs s2" "w_rxqs s3 q = Rxq_init 0"
    by (auto simp: new_rxq_def)
  from tripleD [OF triple_new_rxq s2(4,5) s3] have u3: "up_inv s3"
      "cq_open_for c s3 \<and> rxq_hw_regs (w_rxqs s3 q) = None \<and> q < w_next_rxq s3" by auto
  have rq: "ifc_rxq_res (w_ifs s3 (rxq_interface (w_rxqs s3 q))) = Some y"
    by (simp add: f3 Rxq_init_def s2(9) r(1))
  obtain ci where ci: "cq_cqn (w_cqs s3 c) = Some ci" using s2(8) f3(4) by auto
  have cl: "rxq_hw_regs (w_rxqs s3 q) = None" using u3(2) by blast
  have h3: "w_hw s3 + 524288 \<le> 2 ^ 40" using h by (simp add: f3 s2(6))
  from boot_Rxq_program [OF cl rq r(2) h3 ci] obtain s4 where s4: "Rxq_program boot_env q c 8192 4 s3 = (Inr (), s4)"
      "w_hw s4 = w_hw s + 557056" "w_ifs s4 0 = (w_ifs s3 0)\<lparr>ifc_rxq_res := Some (snd (res_get_window y' k))\<rparr>"
      "rxq_hw_regs (w_rxqs s4 q) \<noteq> None" "w_eqs s4 = w_eqs s3" "rxq_size (w_rxqs s4 q) = 8192"
      "rxq_prod_ptr (w_rxqs s4 q) = rxq_cons_ptr (w_rxqs s4 q)"
    by (auto simp: f3 s2(6) Rxq_init_def)
  from tripleD [OF triple_Rxq_program [OF boot_env_ok] u3 s4(1)] have u4: "up_inv s4" by auto
  have h4: "w_hw s4 + 2 ^ 27 \<le> h" using h(1) by (simp add: s4(2))
  from boot_refill [OF up_invD(1) [OF u4] s4(4) h4 h(2) s4(6,7)] obtain s5 where s5:
      "Rxq_refill_buffers boot_env q s4 = (Inr (), s5)" "pool_at h s5" "w_ifs s5 = w_ifs s4"
      "rxq_hw_regs (w_rxqs s5 q) \<noteq> None" "w_eqs s5 = w_eqs s4" by blast
  have op: "Rxq_open boot_env q c 8192 4 s3 = (Inr (), s5)" by (simp add: Rxq_open_def run_sq s4(1) s5(1))
  obtain w where w: "rxq_hw_regs (w_rxqs s5 q) = Some w" using s5(4) by auto
  have i: "ifc_cq_res (w_ifs s5 0) = Some (snd (res_get_window x' n))" "can_open (w_ifs s5 0)"
      "ifc_txq_res (w_ifs s5 0) = ifc_txq_res (w_ifs s 0)"
    using f by (simp_all add: s5(3) s4(3) f3(1) s2(9) can_open_def)
  have ee: "eq_eqn (w_eqs s5 0) = Some m" by (simp add: s5(5) s4(5) f3(3) s2(7))
  show ?thesis
    using s5(2) i ee s2(1-3) s3 op w
    by (simp add: open_rx_def run_bnd run_sq Rxq_enable_def get_rxq_def upd_rxq_def upd_if_def boot_bus pool_at_def can_open_def)
qed

lemma boot_open_tx:
  assumes up: "up_inv s" "served {} s" and f: "can_open (w_ifs s 0)"
    and c: "ifc_cq_res (w_ifs s 0) = Some x" "res_alloc x = Inr (n, x')" and e: "eq_eqn (w_eqs s 0) = Some m"
    and r: "ifc_txq_res (w_ifs s 0) = Some y" "res_alloc y = Inr (k, y')" and h: "w_hw s + 65536 \<le> 2 ^ 40"
  shows "\<exists>s'. open_tx boot_env 0 0 s = (Inr (), s') \<and> can_open (w_ifs s' 0)"
proof -
  have h0: "w_hw s + 32768 \<le> 2 ^ 40" using h by simp
  from boot_cq [OF up f c e h0] obtain c s1 s2 where s2: "new_cq 0 s = (Inr c, s1)" "eq_of_index 0 0 s1 = (Inr 0, s1)"
      "sq (Cq_open boot_env c 0 1024) (Cq_arm boot_env c) s1 = (Inr (), s2)" "up_inv s2" "cq_open_for c s2"
      "w_hw s2 = w_hw s + 32768" "eq_eqn (w_eqs s2 0) = Some m" "cq_cqn (w_cqs s2 c) \<noteq> None"
      "w_ifs s2 = (w_ifs s)(0 := (w_ifs s 0)\<lparr>ifc_cq_res := Some (snd (res_get_window x' n))\<rparr>)"
    by blast
  obtain q s3 where s3: "new_txq 0 s2 = (Inr q, s3)" by (simp add: new_txq_def)
  then have f3: "w_ifs s3 = w_ifs s2" "w_hw s3 = w_hw s2" "w_cqs s3 = w_cqs s2" "w_txqs s3 q = Txq_init 0"
    by (auto simp: new_txq_def)
  have rq: "ifc_txq_res (w_ifs s3 (txq_interface (w_txqs s3 q))) = Some y"
    by (simp add: f3 Txq_init_def s2(9) r(1))
  obtain ci where ci: "cq_cqn (w_cqs s3 c) = Some ci" using s2(8) f3(3) by auto
  have cl: "txq_hw_regs (w_txqs s3 q) = None" by (simp add: f3 Txq_init_def)
  have h3: "w_hw s3 + 32768 \<le> 2 ^ 40" using h by (simp add: f3 s2(6))
  from boot_Txq_open [OF cl rq r(2) h3 ci] obtain s4 where s4: "Txq_open boot_env q c 512 4 s3 = (Inr (), s4)"
      "w_ifs s4 0 = (w_ifs s3 0)\<lparr>ifc_txq_res := Some (snd (res_get_window y' k))\<rparr>" "txq_hw_regs (w_txqs s4 q) \<noteq> None"
    by (auto simp: f3 Txq_init_def)
  obtain w where w: "txq_hw_regs (w_txqs s4 q) = Some w" using s4(3) by auto
  have "can_open (w_ifs s4 0)" using f by (simp add: s4(2) f3(1) s2(9) can_open_def)
  then show ?thesis
    using s2(1-3) s3 s4(1) w
    by (simp add: open_tx_def run_bnd run_sq Txq_enable_def get_txq_def upd_txq_def upd_if_def boot_bus can_open_def)
qed

lemma py_range_1: "py_range 1 = [0]"
  by (simp add: py_range_def)

lemma boot_open:
  assumes up: "up_inv s" "served {} s" and f: "can_open (w_ifs s 0)" and e: "eq_eqn (w_eqs s 0) = Some m"
    and r: "ifc_cq_res (w_ifs s 0) = Some rc" "ifc_txq_res (w_ifs s 0) = Some rt" "ifc_rxq_res (w_ifs s 0) = Some rr"
    and fl: "res_free_list rc = [0, 1]" "res_free_list rt = [0]" "res_free_list rr = [0]" "res_count rt = 1" "res_count rr = 1" and h: "w_hw s + 2 ^ 29 \<le> 2 ^ 40"
  shows "\<exists>s'. Interface_open boot_env 0 s = (Inr (), s')"
proof -
  have al: "res_alloc rc = Inr (0, rc\<lparr>res_free_list := [1]\<rparr>)" "res_alloc rt = Inr (0, rt\<lparr>res_free_list := []\<rparr>)"
      "res_alloc rr = Inr (0, rr\<lparr>res_free_list := []\<rparr>)"
    by (simp_all add: res_alloc_def fl)
  have h1: "w_hw s + 2 ^ 28 \<le> 2 ^ 40 - 2 ^ 28" using h by simp
  from boot_open_rx [OF up f r(1) al(1) e r(3) al(3) h1] obtain s1 where s1: "open_rx boot_env 0 0 s = (Inr (), s1)"
      "pool_at (2 ^ 40 - 2 ^ 28) s1" "can_open (w_ifs s1 0)" "ifc_txq_res (w_ifs s1 0) = Some rt"
      "eq_eqn (w_eqs s1 0) = Some m"
      "ifc_cq_res (w_ifs s1 0) = Some (snd (res_get_window (rc\<lparr>res_free_list := [1]\<rparr>) 0))"
    using r(2) by auto
  from tripleD [OF triple_open_rx [OF boot_env_ok] up s1(1)] have u1: "up_inv s1" "served {} s1" by auto
  let ?rc = "snd (res_get_window (rc\<lparr>res_free_list := [1]\<rparr>) 0)"
  have al2: "res_alloc ?rc = Inr (1, ?rc\<lparr>res_free_list := []\<rparr>)"
    by (simp add: res_alloc_def res_get_window_def Let_def split: option.split)
  have h2: "w_hw s1 + 65536 \<le> 2 ^ 40" using s1(2) by (simp add: pool_at_def)
  from boot_open_tx [OF u1 s1(3,6) al2 s1(5,4) al(2) h2] obtain s2 where
      s2: "open_tx boot_env 0 0 s1 = (Inr (), s2)" "can_open (w_ifs s2 0)" by blast
  then obtain p c where p: "ifc_ports (w_ifs s2 0) = [p]" "port_ctrl_rb p = Some c" by (auto simp: can_open_def)
  have n: "res_get_count rt = 1" "res_get_count rr = 1" by (simp_all add: res_get_count_def fl)
  show ?thesis
    using s1(1,4) s2(1) p r(3)
    by (simp add: Interface_open_def run_bnd run_sq res_count_of_def get_if_def run_attr n py_range_1 read_sync_def
        port0_def run_lift_res Port_set_tx_ctrl_def Port_set_rx_ctrl_def port_write_def boot_bus upd_if_def)
qed

section \<open>Discovery\<close>

definition same_rest :: "nat world \<Rightarrow> nat world \<Rightarrow> bool" where
  "same_rest s s' \<longleftrightarrow> same_objects s s' \<and> w_hw s' = w_hw s \<and> w_eqs s' = w_eqs s"

lemma same_rest_trans: "same_rest s s' \<Longrightarrow> same_rest s' s'' \<Longrightarrow> same_rest s s''"
  by (simp add: same_rest_def same_objects_def)

lemma win_boot: "win_addr boot_if_win = 0x1000"
  by (simp add: boot_if_win_def create_window_def)

lemma boot_find:
  "rb_find boot_blocks MQNIC_RB_IF_CTRL_TYPE (Some MQNIC_RB_IF_CTRL_VER) 0 = Some (block_at boot_if_win 0x100 0xC001 0x400)"
  "rb_find boot_blocks MQNIC_RB_EQM_TYPE (Some MQNIC_RB_EQM_VER) 0 = Some (block_at boot_if_win 0x140 0xC010 0x400)"
  "rb_find boot_blocks MQNIC_RB_CQM_TYPE (Some MQNIC_RB_CQM_VER) 0 = Some (block_at boot_if_win 0x160 0xC020 0x400)"
  "rb_find boot_blocks MQNIC_RB_TX_QM_TYPE (Some MQNIC_RB_TX_QM_VER) 0 = Some (block_at boot_if_win 0x180 0xC030 0x400)"
  "rb_find boot_blocks MQNIC_RB_RX_QM_TYPE (Some MQNIC_RB_RX_QM_VER) 0 = Some (block_at boot_if_win 0x1A0 0xC031 0x400)"
  "rb_find boot_blocks MQNIC_RB_RX_QUEUE_MAP_TYPE (Some MQNIC_RB_RX_QUEUE_MAP_VER) 0 = Some (block_at boot_if_win 0x1C0 0xC090 0x200)"
  "rb_find boot_blocks MQNIC_RB_PORT_TYPE (Some MQNIC_RB_PORT_VER) 0 = Some (block_at boot_if_win 0x200 0xC002 0x200)"
  by (simp_all add: boot_blocks_def block_at_def regs)

lemmas boot_finds = boot_find boot_find [unfolded regs]

lemma boot_block_win:
  "rb_window (block_at w off t v) = SubWin w off None" "rb_parent (block_at w off t v) = w"
  "rb_type (block_at w off t v) = t" "rb_version (block_at w off t v) = v"
  by (simp_all add: block_at_def create_window_def)

lemma boot_init_ctrl:
  assumes "ifc_hw_regs (w_ifs s 0) = boot_if_win" "drv_if_csr_offset (w_drv s) = Some 0x100"
  shows "\<exists>s'. Interface_init_ctrl boot_env 0 s = (Inr (), s') \<and> same_rest s s' \<and>
    ifc_hw_regs (w_ifs s' 0) = boot_if_win \<and> ifc_reg_blocks (w_ifs s' 0) = boot_blocks \<and> ifc_port_count (w_ifs s' 0) = Some 1"
proof -
  obtain mm where m: "\<And>s. enumerate_reg_blocks enum_fuel boot_env boot_if_win 0x100 [] s =
     (Inr (boot_blocks, None), s\<lparr>w_mmio := w_mmio s @ mm\<rparr>)" using boot_csr by blast
  show ?thesis
    using assms
    by (simp add: Interface_init_ctrl_def Interface_set_mtu_def run_simps Let_def m boot_finds boot_bus boot_block_win
        win_boot boot_rom_def regs same_rest_def same_objects_def)
qed

text \<open>The interface with its blocks, and with all its resources.\<close>

definition disc :: "iface \<Rightarrow> bool" where
  "disc f \<longleftrightarrow> ifc_hw_regs f = boot_if_win \<and> ifc_reg_blocks f = boot_blocks \<and> ifc_port_count f = Some 1"

definition disc_res :: "iface \<Rightarrow> bool" where
  "disc_res f \<longleftrightarrow> disc f \<and> ifc_eq_res f = Some (Resource_init 1 (create_window boot_if_win 0x400 None) 16) \<and>
     ifc_cq_res f = Some (Resource_init 2 (create_window boot_if_win 0x500 None) 16) \<and>
     ifc_txq_res f = Some (Resource_init 1 (create_window boot_if_win 0x600 None) 32) \<and>
     ifc_rxq_res f = Some (Resource_init 1 (create_window boot_if_win 0x700 None) 32)"

lemma boot_init_res:
  assumes "disc (w_ifs s 0)"
  shows "\<exists>s'. seqm [Interface_init_eq_res boot_env 0, Interface_init_cq_res boot_env 0, Interface_init_txq_res boot_env 0,
      Interface_init_rxq_res boot_env 0] s = (Inr (), s') \<and> same_rest s s' \<and> disc_res (w_ifs s' 0)"
  using assms
  by (simp add: disc_def disc_res_def Interface_init_eq_res_def Interface_init_cq_res_def Interface_init_txq_res_def
      Interface_init_rxq_res_def find_resource_def Interface_find_block_def run_simps boot_finds boot_bus boot_block_win
      win_boot boot_rom_def regs same_rest_def same_objects_def)

lemma boot_init_map:
  assumes "disc_res (w_ifs s 0)"
  shows "\<exists>s'. Interface_init_map boot_env 0 s = (Inr (), s') \<and> same_rest s s' \<and> disc_res (w_ifs s' 0)"
  using assms
  by (simp add: disc_def disc_res_def Interface_init_map_def Interface_find_block_def run_simps boot_finds boot_bus
      boot_block_win win_boot boot_rom_def regs same_rest_def same_objects_def py_range_1 map_ch_reg_def
      set_rx_queue_map_rss_mask_def set_rx_queue_map_app_mask_def set_rx_queue_map_indir_table_def py_nth_def)

text \<open>Looking windows up fills the cache of a resource and leaves its free list alone.\<close>

definition disc_free :: "iface \<Rightarrow> bool" where
  "disc_free f \<longleftrightarrow> disc f \<and> (\<forall>k. \<exists>r. if_res k f = Some r \<and> res_free_list r = py_range (res_count r) \<and>
     res_count r = (if k = CqRes then 2 else 1))"

lemma disc_res_free: "disc_res f \<Longrightarrow> disc_free f"
  unfolding disc_free_def
proof
  assume f: "disc_res f"
  then show "\<forall>k. \<exists>r. if_res k f = Some r \<and> res_free_list r = py_range (res_count r) \<and>
     res_count r = (if k = CqRes then 2 else 1)"
    by (intro allI, case_tac k) (simp_all add: disc_res_def Resource_init_def)
qed (simp add: disc_res_def)

lemma disc_set_res: "disc f \<Longrightarrow> disc (set_res k r f)"
  by (cases k) (simp_all add: disc_def)

lemma boot_get_window:
  assumes "disc_free (w_ifs s 0)"
  shows "\<exists>w s'. if_get_window k 0 j s = (Inr w, s') \<and> same_rest s s' \<and> disc_free (w_ifs s' 0) \<and> w_mmio s' = w_mmio s"
proof -
  from assms obtain r where r: "if_res k (w_ifs s 0) = Some r" "res_free_list r = py_range (res_count r)"
      "res_count r = (if k = CqRes then 2 else 1)" unfolding disc_free_def by blast
  let ?r = "snd (res_get_window r j)"
  have f: "res_free_list ?r = res_free_list r" "res_count ?r = res_count r"
    by (simp_all add: res_get_window_def Let_def split: option.split)
  have "disc_free (set_res k ?r (w_ifs s 0))"
    using assms r f disc_set_res [of "w_ifs s 0" k ?r] by (auto simp: disc_free_def)
  then show ?thesis
    by (simp add: if_get_window_run [OF r(1)] same_rest_def same_objects_def)
qed

lemma boot_disable:
  assumes "disc_free (w_ifs s 0)"
  shows "\<exists>s'. disable_all boot_env 0 k ctrl s = (Inr (), s') \<and> same_rest s s' \<and> disc_free (w_ifs s' 0)"
proof -
  have loop: "disc_free (w_ifs s 0) \<Longrightarrow> \<exists>s'. forM js (\<lambda>j.
       bnd (if_get_window k 0 j) (\<lambda>w. write_dword boot_env w ctrl (MQNIC_QUEUE_CMD_SET_ENABLE OR 0))) s = (Inr (), s') \<and>
       same_rest s s' \<and> disc_free (w_ifs s' 0)" for js s
  proof (induction js arbitrary: s)
    case (Cons j js)
    from boot_get_window [OF Cons.prems, of k j] obtain w s1 where s1: "if_get_window k 0 j s = (Inr w, s1)"
        "same_rest s s1" "disc_free (w_ifs s1 0)" by blast
    let ?v = "MQNIC_QUEUE_CMD_SET_ENABLE OR 0"
    let ?body = "\<lambda>j. bnd (if_get_window k 0 j) (\<lambda>w. write_dword boot_env w ctrl ?v)"
    let ?s2 = "s1\<lparr>w_mmio := w_mmio s1 @ [WR w ctrl ?v]\<rparr>"
    have s2: "same_rest s ?s2" "disc_free (w_ifs ?s2 0)" using s1(2,3) by (simp_all add: same_rest_def same_objects_def)
    from Cons.IH [OF s2(2)] obtain s' where s': "forM js ?body ?s2 = (Inr (), s')"
        "same_rest ?s2 s'" "disc_free (w_ifs s' 0)" by blast
    have "?body j s = (Inr (), ?s2)" by (simp add: run_bnd s1(1) boot_bus)
    then have "forM (j # js) ?body s = (Inr (), s')" using s'(1) by (simp only: forM.simps sq_Inr)
    with s'(3) same_rest_trans [OF s2(1) s'(2)] show ?case by blast
  qed (simp add: same_rest_def same_objects_def)
  from assms obtain r where "if_res k (w_ifs s 0) = Some r" by (auto simp: disc_free_def)
  with loop [OF assms, of "py_range (res_get_count r)"] show ?thesis
    by (simp add: disable_all_def res_count_of_def run_bnd get_if_def run_attr)
qed

lemma boot_init_disable:
  assumes "disc_free (w_ifs s 0)"
  shows "\<exists>s'. Interface_init_disable boot_env 0 s = (Inr (), s') \<and> same_rest s s' \<and> disc_free (w_ifs s' 0)"
proof -
  from boot_disable [OF assms] obtain s1 where s1: "disable_all boot_env 0 EqRes MQNIC_EQ_CTRL_STATUS_REG s = (Inr (), s1)"
      "same_rest s s1" "disc_free (w_ifs s1 0)" by blast
  from boot_disable [OF s1(3)] obtain s2 where s2: "disable_all boot_env 0 CqRes MQNIC_CQ_CTRL_STATUS_REG s1 = (Inr (), s2)"
      "same_rest s1 s2" "disc_free (w_ifs s2 0)" by blast
  from boot_disable [OF s2(3)] obtain s3 where s3: "disable_all boot_env 0 TxqRes MQNIC_QUEUE_CTRL_STATUS_REG s2 = (Inr (), s3)"
      "same_rest s2 s3" "disc_free (w_ifs s3 0)" by blast
  from boot_disable [OF s3(3)] obtain s4 where s4: "disable_all boot_env 0 RxqRes MQNIC_QUEUE_CTRL_STATUS_REG s3 = (Inr (), s4)"
      "same_rest s3 s4" "disc_free (w_ifs s4 0)" by blast
  have "same_rest s s4" using s1(2) s2(2) s3(2) s4(2) same_rest_trans by blast
  with s1(1) s2(1) s3(1) s4(1,3) show ?thesis by (simp add: Interface_init_disable_def run_sq)
qed

lemma boot_init_ports:
  assumes "disc_free (w_ifs s 0)"
  shows "\<exists>s'. Interface_init_ports boot_env 0 s = (Inr (), s') \<and> same_rest s s' \<and> disc_free (w_ifs s' 0) \<and>
    (\<exists>p c. ifc_ports (w_ifs s' 0) = [p] \<and> port_ctrl_rb p = Some c)"
proof -
  obtain mm where m: "\<And>s. enumerate_reg_blocks enum_fuel boot_env boot_if_win 0x240 [] s =
     (Inr ([block_at boot_if_win 0x240 0xC003 0x300], None), s\<lparr>w_mmio := w_mmio s @ mm\<rparr>)" using boot_port by blast
  have c: "rb_find [block_at boot_if_win 0x240 0xC003 0x300] 0xC003 (Some 0x300) 0 = Some (block_at boot_if_win 0x240 0xC003 0x300)"
    by (simp add: block_at_def)
  have f: "disc_free (f\<lparr>ifc_ports := ps\<rparr>) = disc_free f" for f ps
  proof -
    have "if_res k (f\<lparr>ifc_ports := ps\<rparr>) = if_res k f" for k by (cases k) simp_all
    then show ?thesis by (simp add: disc_free_def disc_def)
  qed
  have d: "ifc_reg_blocks (w_ifs s 0) = boot_blocks" "ifc_port_count (w_ifs s 0) = Some 1"
    using assms by (simp_all add: disc_free_def disc_def)
  show ?thesis
    using assms
    by (simp add: Interface_init_ports_def Interface_find_block_def run_simps d py_range_1 boot_finds
        Port_init_hw_def Port_init_def boot_block_win boot_bus win_boot boot_rom_def enumerate_or_raise_def m c Let_def
        Port_set_tx_ctrl_def Port_set_rx_ctrl_def Port_set_lfc_ctrl_def Port_set_pfc_ctrl_def port_write_def py_range_8
        regs same_rest_def same_objects_def f)
qed

lemma boot_init_eqs:
  assumes f: "disc_free (w_ifs s 0)" and h: "w_hw s + 32768 \<le> 2 ^ 40" "w_next_eq s = 0"
  shows "\<exists>s'. Interface_init_eqs boot_env 0 s = (Inr (), s') \<and> w_drv s' = w_drv s \<and> w_hw s' = w_hw s + 32768 \<and>
    (let f = w_ifs s 0; f' = w_ifs s' 0 in ifc_eq f' = [0] \<and> ifc_ports f' = ifc_ports f \<and> ifc_hw_regs f' = ifc_hw_regs f \<and>
       ifc_cq_res f' = ifc_cq_res f \<and> ifc_txq_res f' = ifc_txq_res f \<and> ifc_rxq_res f' = ifc_rxq_res f) \<and>
    eq_eqn (w_eqs s' 0) = Some 0"
proof -
  from f obtain r where r: "ifc_eq_res (w_ifs s 0) = Some r" "res_free_list r = [0]" "res_count r = 1"
    unfolding disc_free_def by (auto simp: py_range_1 dest!: spec [of _ EqRes])
  let ?s1 = "s\<lparr>w_ifs := (w_ifs s)(0 := (w_ifs s 0)\<lparr>ifc_eq := []\<rparr>),
    w_eqs := (w_eqs s)(0 := Eq_init 0), w_next_eq := 1\<rparr>"
  have al: "res_alloc r = Inr (0, r\<lparr>res_free_list := []\<rparr>)" by (simp add: res_alloc_def r)
  have "\<exists>s2. Eq_open boot_env 0 (ifc_index (w_ifs s 0)) 1024 ?s1 = (Inr (), s2) \<and> same_objects ?s1 s2 \<and> w_hw s2 = w_hw ?s1 + 32768 \<and>
    w_ifs s2 = (w_ifs ?s1)(eq_interface (w_eqs ?s1 0) := (w_ifs ?s1 (eq_interface (w_eqs ?s1 0)))
      \<lparr>ifc_eq_res := Some (snd (res_get_window (r\<lparr>res_free_list := []\<rparr>) 0))\<rparr>) \<and> eq_eqn (w_eqs s2 0) = Some 0"
    by (rule boot_Eq_open) (use h r(1) al in \<open>simp_all add: Eq_init_def\<close>)
  then obtain s2 where s2: "Eq_open boot_env 0 (ifc_index (w_ifs s 0)) 1024 ?s1 = (Inr (), s2)" "same_objects ?s1 s2"
      "w_hw s2 = w_hw s + 32768" "w_ifs s2 0 = (w_ifs s 0)\<lparr>ifc_eq := [],
        ifc_eq_res := Some (snd (res_get_window (r\<lparr>res_free_list := []\<rparr>) 0))\<rparr>" "eq_eqn (w_eqs s2 0) = Some 0"
    by (auto simp: Eq_init_def)
  show ?thesis
    using s2 h(2) r(1,3)
    by (simp add: Interface_init_eqs_def run_simps res_count_of_def res_get_count_def py_range_1 Eq_arm_def boot_bus
        same_objects_def split: option.split)
qed

text \<open>An interface as \<open>init\<close> leaves it.\<close>

definition discovered :: "nat world \<Rightarrow> bool" where
  "discovered s \<longleftrightarrow> can_open (w_ifs s 0) \<and> eq_eqn (w_eqs s 0) = Some 0 \<and>
     (\<exists>rc rt rr. ifc_cq_res (w_ifs s 0) = Some rc \<and> ifc_txq_res (w_ifs s 0) = Some rt \<and> ifc_rxq_res (w_ifs s 0) = Some rr \<and>
        res_free_list rc = [0, 1] \<and> res_free_list rt = [0] \<and> res_free_list rr = [0] \<and> res_count rt = 1 \<and> res_count rr = 1)"

lemma boot_init_hw:
  assumes "ifc_hw_regs (w_ifs s 0) = boot_if_win" "drv_if_csr_offset (w_drv s) = Some 0x100"
    and h: "w_hw s + 32768 \<le> 2 ^ 40" "w_next_eq s = 0"
  shows "\<exists>s'. Interface_init_hw boot_env 0 s = (Inr (), s') \<and> w_drv s' = w_drv s \<and> w_hw s' = w_hw s + 32768 \<and> discovered s'"
proof -
  from boot_init_ctrl [OF assms(1,2)] obtain s1 where s1: "Interface_init_ctrl boot_env 0 s = (Inr (), s1)"
      "same_rest s s1" "disc (w_ifs s1 0)" by (auto simp: disc_def)
  from boot_init_res [OF s1(3)] obtain s2 where s2: "seqm [Interface_init_eq_res boot_env 0, Interface_init_cq_res boot_env 0,
      Interface_init_txq_res boot_env 0, Interface_init_rxq_res boot_env 0] s1 = (Inr (), s2)"
      "same_rest s1 s2" "disc_res (w_ifs s2 0)" by blast
  from s2(1) obtain a b d where res: "Interface_init_eq_res boot_env 0 s1 = (Inr (), a)"
      "Interface_init_cq_res boot_env 0 a = (Inr (), b)" "Interface_init_txq_res boot_env 0 b = (Inr (), d)"
      "Interface_init_rxq_res boot_env 0 d = (Inr (), s2)"
    by (auto simp: run_sq split: prod.splits sum.splits)
  from boot_init_map [OF s2(3)] obtain s3 where s3: "Interface_init_map boot_env 0 s2 = (Inr (), s3)"
      "same_rest s2 s3" "disc_res (w_ifs s3 0)" by blast
  from boot_init_disable [OF disc_res_free [OF s3(3)]] obtain s4 where s4: "Interface_init_disable boot_env 0 s3 = (Inr (), s4)"
      "same_rest s3 s4" "disc_free (w_ifs s4 0)" by blast
  from boot_init_ports [OF s4(3)] obtain s5 p c where s5: "Interface_init_ports boot_env 0 s4 = (Inr (), s5)"
      "same_rest s4 s5" "disc_free (w_ifs s5 0)" "ifc_ports (w_ifs s5 0) = [p]" "port_ctrl_rb p = Some c" by blast
  have same: "same_rest s s5" using s1(2) s2(2) s3(2) s4(2) s5(2) same_rest_trans by blast
  then have h5: "w_hw s5 + 32768 \<le> 2 ^ 40" "w_next_eq s5 = 0" using h by (simp_all add: same_rest_def same_objects_def)
  from boot_init_eqs [OF s5(3) h5] obtain s6 where s6: "Interface_init_eqs boot_env 0 s5 = (Inr (), s6)"
      "w_drv s6 = w_drv s5" "w_hw s6 = w_hw s5 + 32768" "ifc_eq (w_ifs s6 0) = [0]" "ifc_ports (w_ifs s6 0) = [p]"
      "ifc_hw_regs (w_ifs s6 0) = ifc_hw_regs (w_ifs s5 0)"
      "ifc_cq_res (w_ifs s6 0) = ifc_cq_res (w_ifs s5 0)" "ifc_txq_res (w_ifs s6 0) = ifc_txq_res (w_ifs s5 0)"
      "ifc_rxq_res (w_ifs s6 0) = ifc_rxq_res (w_ifs s5 0)" "eq_eqn (w_eqs s6 0) = Some 0"
    unfolding Let_def s5(4) by blast
  define s7 where "s7 = s6\<lparr>w_ifs := (w_ifs s6)(0 := (w_ifs s6 0)\<lparr>ifc_txq := [], ifc_rxq := []\<rparr>),
    w_mmio := w_mmio s6 @ [RD boot_if_win 0 (boot_rom 0x1000)]\<rparr>"
  have win: "ifc_hw_regs (w_ifs s6 0) = boot_if_win" using s5(3) by (simp add: s6(6) disc_free_def disc_def)
  have run: "Interface_init_hw boot_env 0 s = (Inr (), s7)"
    using s1(1) res s3(1) s4(1) s5(1) s6(1) win
    by (simp add: Interface_init_hw_def run_sq run_bnd upd_if_def get_if_def boot_bus win_boot s7_def)
  have k: "\<exists>r. if_res k (w_ifs s5 0) = Some r \<and> res_free_list r = py_range (res_count r) \<and>
     res_count r = (if k = CqRes then 2 else 1)" for k
    using s5(3) unfolding disc_free_def by blast
  obtain rc rt rr where r: "ifc_cq_res (w_ifs s5 0) = Some rc" "ifc_txq_res (w_ifs s5 0) = Some rt"
      "ifc_rxq_res (w_ifs s5 0) = Some rr" "res_free_list rc = py_range 2" "res_free_list rt = [0]" "res_free_list rr = [0]"
      "res_count rt = 1" "res_count rr = 1"
    using k [of CqRes] k [of TxqRes] k [of RxqRes] by (auto simp: py_range_1)
  have "py_range 2 = [0, 1]" by (simp add: py_range_def upt_rec)
  then have "discovered s7"
    using r win s5(5) by (simp add: discovered_def s7_def can_open_def s6(4-10))
  moreover have "w_drv s7 = w_drv s" "w_hw s7 = w_hw s + 32768"
    using same by (simp_all add: s7_def s6(2,3) same_rest_def same_objects_def)
  ultimately show ?thesis using run by blast
qed

definition boot_top_blocks :: "reg_block list" where
  "boot_top_blocks = [block_at (Bar 0) 0 0xFFFFFFFF 0x100, block_at (Bar 0) 0x40 0xC000 0x100]"

lemma boot_top_find:
  "rb_find boot_top_blocks MQNIC_RB_FW_ID_TYPE (Some MQNIC_RB_FW_ID_VER) 0 = Some (block_at (Bar 0) 0 0xFFFFFFFF 0x100)"
  "rb_find boot_top_blocks MQNIC_RB_IF_TYPE (Some MQNIC_RB_IF_VER) 0 = Some (block_at (Bar 0) 0x40 0xC000 0x100)"
  "rb_find boot_top_blocks MQNIC_RB_APP_INFO_TYPE (Some MQNIC_RB_APP_INFO_VER) 0 = None"
  by (simp_all add: boot_top_blocks_def block_at_def regs)

lemma boot_init_interface:
  assumes "w_next_if s = 0" "w_next_eq s = 0" "w_hw s + 32768 \<le> 2 ^ 40" "drv_interfaces (w_drv s) = []"
    "drv_if_csr_offset (w_drv s) = Some 0x100"
  shows "\<exists>s'. Driver_init_interface boot_env (Bar 0) 0x1000 0x1000 0x100 0 s = (Inr (), s') \<and>
    drv_interfaces (w_drv s') = [0] \<and> w_hw s' = w_hw s + 32768 \<and> discovered s'"
proof -
  define s1 where "s1 = s\<lparr>w_ifs := (w_ifs s)(0 := Interface_init 0 boot_if_win 0x100), w_next_if := 1\<rparr>"
  have n: "new_if 0 (create_window (Bar 0) 0x1000 (Some 0x1000)) 0x100 s = (Inr 0, s1)"
    using assms(1) by (simp add: new_if_def s1_def boot_if_win_def)
  have f: "ifc_hw_regs (w_ifs s1 0) = boot_if_win" "drv_if_csr_offset (w_drv s1) = Some 0x100"
      "w_hw s1 + 32768 \<le> 2 ^ 40" "w_next_eq s1 = 0"
    using assms by (simp_all add: s1_def Interface_init_def)
  from boot_init_hw [OF f] obtain s2 where s2: "Interface_init_hw boot_env 0 s1 = (Inr (), s2)" "w_drv s2 = w_drv s1"
      "w_hw s2 = w_hw s1 + 32768" "discovered s2" by blast
  have "w_drv s1 = w_drv s" "w_hw s1 = w_hw s" by (simp_all add: s1_def)
  with s2 assms(4) show ?thesis
    by (simp add: Driver_init_interface_def run_bnd run_sq n upd_drv_def discovered_def)
qed

lemma sq_ret_unit: "sq m (ret ()) s = m s"
  by (auto simp: run_sq ret_def split: prod.split sum.split)

lemma boot_init_interfaces:
  assumes "w_next_if s = 0" "w_next_eq s = 0" "w_hw s + 32768 \<le> 2 ^ 40" "drv_reg_blocks (w_drv s) = boot_top_blocks"
  shows "\<exists>s'. Driver_init_interfaces boot_env (Bar 0) s = (Inr (), s') \<and> drv_interfaces (w_drv s') = [0] \<and>
    w_hw s' = w_hw s + 32768 \<and> discovered s'"
proof -
  have *: "w_next_if t = 0 \<and> w_next_eq t = 0 \<and> w_hw t = w_hw s \<and> drv_interfaces (w_drv t) = [] \<and>
      drv_if_csr_offset (w_drv t) = Some 0x100 \<Longrightarrow> ?thesis"
    if "Driver_init_interfaces boot_env (Bar 0) s = Driver_init_interface boot_env (Bar 0) 0x1000 0x1000 0x100 0 t" for t
    using boot_init_interface [of t] assms(3) that by simp
  show ?thesis
    by (rule *, simp add: Driver_init_interfaces_def run_simps assms(4) boot_top_find boot_top_find [unfolded regs] Let_def
        boot_bus boot_block_win boot_rom_def regs py_range_1 sq_ret_unit [unfolded run_sq]) (simp add: assms)
qed

lemma boot_init_common:
  assumes "w_next_if s = 0" "w_next_eq s = 0" "w_hw s + 32768 \<le> 2 ^ 40" "drv_hw_regs (w_drv s) = Some (Bar 0)"
    "drv_reg_blocks (w_drv s) = []"
  shows "\<exists>s'. Driver_init_common boot_env s = (Inr (), s') \<and> drv_interfaces (w_drv s') = [0] \<and>
    w_hw s' = w_hw s + 32768 \<and> discovered s'"
proof -
  obtain mm where m: "\<And>s. enumerate_reg_blocks enum_fuel boot_env (Bar 0) 0 [] s =
     (Inr (boot_top_blocks, None), s\<lparr>w_mmio := w_mmio s @ mm\<rparr>)"
    using boot_top unfolding boot_top_blocks_def by blast
  have *: "w_next_if t = 0 \<and> w_next_eq t = 0 \<and> w_hw t = w_hw s \<and> drv_reg_blocks (w_drv t) = boot_top_blocks \<Longrightarrow> ?thesis"
    if "Driver_init_common boot_env s = Driver_init_interfaces boot_env (Bar 0) t" for t
    using boot_init_interfaces [of t] assms(3) that by simp
  show ?thesis
    by (rule *, simp add: Driver_init_common_def Driver_read_ids_def drv_read_def run_simps assms(4,5) m boot_top_find
        boot_top_find [unfolded regs] Let_def boot_bus boot_block_win) (simp add: assms)
qed

lemma boot_init:
  "\<exists>s'. Driver_init_pcie_dev boot_env (init_world 0) = (Inr (), s') \<and> drv_interfaces (w_drv s') = [0] \<and>
     w_hw s' = 32768 \<and> discovered s'"
proof -
  obtain mm where m: "\<And>s. forM (py_range 32) (\<lambda>index. seqm [
         control boot_env (RequestIrq index),
         upd_drv (\<lambda>d. d\<lparr>drv_irq_list := drv_irq_list d @ [Interrupt_init index True]\<rparr>)]) s =
     (Inr (), s\<lparr>w_mmio := w_mmio s @ mm, w_drv := (w_drv s)\<lparr>drv_irq_list :=
        drv_irq_list (w_drv s) @ map (\<lambda>i. Interrupt_init i True) (py_range 32)\<rparr>\<rparr>)"
    using boot_irqs by blast
  have *: "w_next_if t = 0 \<and> w_next_eq t = 0 \<and> w_hw t = 0 \<and> drv_hw_regs (w_drv t) = Some (Bar 0) \<and>
      drv_reg_blocks (w_drv t) = [] \<Longrightarrow> ?thesis"
    if "Driver_init_pcie_dev boot_env (init_world 0) = Driver_init_common boot_env t" for t
    using boot_init_common [of t] that by simp
  show ?thesis
    by (rule *, simp add: Driver_init_pcie_dev_def run_simps boot_bus m [unfolded upd_drv_def seqm.simps] init_world_def Driver_init_def
        sq_ret_unit [unfolded run_sq])
      (simp add: init_world_def Driver_init_def)
qed

text \<open>The small device comes up.\<close>

lemma boot_bring_up: "\<exists>s'. bring_up boot_env (init_world 0) = (Inr (), s') \<and> drv_interfaces (w_drv s') = [0]"
proof -
  from boot_init obtain s1 where s1: "Driver_init_pcie_dev boot_env (init_world 0) = (Inr (), s1)"
      "drv_interfaces (w_drv s1) = [0]" "w_hw s1 = 32768" "discovered s1" by blast
  from keeps_run [OF up_init_pcie [OF boot_env_ok] coming_up_init s1(1)] have up: "up_inv s1" "served {} s1"
    by (simp_all add: coming_up_def)
  from s1(4) obtain rc rt rr where d: "can_open (w_ifs s1 0)" "eq_eqn (w_eqs s1 0) = Some 0"
      "ifc_cq_res (w_ifs s1 0) = Some rc" "ifc_txq_res (w_ifs s1 0) = Some rt" "ifc_rxq_res (w_ifs s1 0) = Some rr"
      "res_free_list rc = [0, 1]" "res_free_list rt = [0]" "res_free_list rr = [0]" "res_count rt = 1" "res_count rr = 1"
    by (auto simp: discovered_def)
  have h: "w_hw s1 + 2 ^ 29 \<le> 2 ^ 40" by (simp add: s1(3))
  from boot_open [OF up d h] obtain s2 where s2: "Interface_open boot_env 0 s1 = (Inr (), s2)" by blast
  have "drv_interfaces (w_drv s2) = [0]" by (rule keeps_run [OF interfaces_Interface_open s1(2) s2])
  with s1(1,2) s2 show ?thesis by (simp add: bring_up_def run_sq run_bnd get_drv_def)
qed

end
