(* ===== verification/Heap_Queue.thy ===== *)
theory Heap_Queue
  imports Prelude "HOL-Library.Multiset"
begin

text \<open>
  The operations of Python's standard module \<open>heapq\<close> that the testbenches use, after the
  library's algorithm: \<open>heappush\<close> and \<open>heappop\<close> on a list in heap order, with the two loops
  \<open>_siftdown\<close> (towards the root) and \<open>_siftup\<close> (a hole down to a leaf, then back). They are
  proved to be a priority queue: the contents as a multiset, the least element at the front.
  The contract is the locale \<open>pqueue\<close>, in which draining a queue is proved to sort.
\<close>

section \<open>The library's algorithm\<close>

definition parent :: "nat \<Rightarrow> nat" where
  "parent i = (i - 1) div 2"

lemma parent_less [simp]: "0 < i \<Longrightarrow> parent i < i"
  by (simp add: parent_def)

lemma parent_neq [simp]: "0 < i \<Longrightarrow> parent i \<noteq> i" "0 < i \<Longrightarrow> i \<noteq> parent i"
  by (metis parent_less less_irrefl)+

text \<open>\<open>_siftdown(heap, 0, pos)\<close> with \<open>newitem = x\<close>, \<open>heap[pos]\<close> being overwritten.\<close>

function siftdown :: "'a::linorder list \<Rightarrow> nat \<Rightarrow> 'a \<Rightarrow> 'a list" where
  "siftdown xs pos x =
     (if pos = 0 then xs[pos := x]
      else if x < xs ! parent pos then siftdown (xs[pos := xs ! parent pos]) (parent pos) x
      else xs[pos := x])"
  by pat_completeness auto
termination by (relation "measure (\<lambda>(xs, pos, x). pos)") auto

declare siftdown.simps [simp del]

text \<open>The loop of \<open>_siftup\<close>: the smaller child moves into the hole until the hole is a leaf.\<close>

function sift_hole :: "'a::linorder list \<Rightarrow> nat \<Rightarrow> 'a list \<times> nat" where
  "sift_hole xs pos =
     (if 2 * pos + 1 < length xs then
        let c = (if 2 * pos + 2 < length xs \<and> \<not> xs ! (2 * pos + 1) < xs ! (2 * pos + 2)
                 then 2 * pos + 2 else 2 * pos + 1)
        in sift_hole (xs[pos := xs ! c]) c
      else (xs, pos))"
  by pat_completeness auto
termination by (relation "measure (\<lambda>(xs, pos). length xs - pos)") auto

declare sift_hole.simps [simp del]

definition siftup :: "'a::linorder list \<Rightarrow> 'a list" where
  "siftup xs = (case sift_hole xs 0 of (ys, pos) \<Rightarrow> siftdown ys pos (xs ! 0))"

definition heappush :: "'a::linorder list \<Rightarrow> 'a \<Rightarrow> 'a list" where
  "heappush heap item = siftdown (heap @ [item]) (length heap) item"

definition heappop :: "'a::linorder list \<Rightarrow> exn + 'a \<times> 'a list" where
  "heappop heap =
     (if heap = [] then Inl IndexError
      else let lastelt = last heap; rest = butlast heap in
        if rest = [] then Inr (lastelt, [])
        else Inr (rest ! 0, siftup (rest[0 := lastelt])))"

section \<open>Heap order\<close>

definition heap_ok :: "'a::linorder list \<Rightarrow> bool" where
  "heap_ok xs \<longleftrightarrow> (\<forall>i < length xs. 0 < i \<longrightarrow> xs ! parent i \<le> xs ! i)"

lemma heap_ok_Nil [simp]: "heap_ok []"
  by (simp add: heap_ok_def)

lemma heap_ok_least: "heap_ok xs \<Longrightarrow> i < length xs \<Longrightarrow> xs ! 0 \<le> xs ! i"
proof (induction i rule: less_induct)
  case (less i)
  show ?case
  proof (cases "i = 0")
    case False
    then have "parent i < i" by simp
    with less have "xs ! 0 \<le> xs ! parent i" by simp
    also have "\<dots> \<le> xs ! i" using less.prems False by (simp add: heap_ok_def)
    finally show ?thesis .
  qed simp
qed

text \<open>In order but for \<open>pos\<close> and its parent; \<open>pos\<close>'s children are above its parent, too.\<close>

definition up_ok :: "'a::linorder list \<Rightarrow> nat \<Rightarrow> bool" where
  "up_ok xs pos \<longleftrightarrow>
     (\<forall>i < length xs. 0 < i \<and> i \<noteq> pos \<longrightarrow> xs ! parent i \<le> xs ! i) \<and>
     (\<forall>c < length xs. 0 < c \<and> parent c = pos \<and> 0 < pos \<longrightarrow> xs ! parent pos \<le> xs ! c)"

lemma up_okD:
  "up_ok xs pos \<Longrightarrow> i < length xs \<Longrightarrow> 0 < i \<Longrightarrow> i \<noteq> pos \<Longrightarrow> xs ! parent i \<le> xs ! i"
  "up_ok xs pos \<Longrightarrow> c < length xs \<Longrightarrow> 0 < c \<Longrightarrow> parent c = pos \<Longrightarrow> 0 < pos \<Longrightarrow> xs ! parent pos \<le> xs ! c"
  by (auto simp: up_ok_def)

lemma up_ok_step:
  assumes ok: "up_ok ys pos" and pos: "0 < pos" "pos < length ys" and less: "ys ! pos < ys ! parent pos"
  shows "up_ok (ys[pos := ys ! parent pos, parent pos := ys ! pos]) (parent pos)"
    (is "up_ok ?zs ?p")
proof -
  have p: "?p < pos" "?p < length ys" using pos by (auto intro: less_trans [OF parent_less])
  have "?zs ! parent i \<le> ?zs ! i" if i: "i < length ys" "0 < i" "i \<noteq> ?p" for i
  proof -
    consider "i = pos" | "i \<noteq> pos" "parent i = pos" | "i \<noteq> pos" "parent i = ?p" | "i \<noteq> pos" "parent i \<noteq> pos" "parent i \<noteq> ?p"
      by blast
    then show ?thesis
    proof cases
      case 1
      with less p pos show ?thesis by simp
    next
      case 2
      with up_okD(2) [OF ok i(1,2) _ pos(1)] i p pos show ?thesis by simp
    next
      case 3
      with up_okD(1) [OF ok i(1,2)] i p less show ?thesis by simp
    next
      case 4
      with up_okD(1) [OF ok i(1,2)] i p show ?thesis by simp
    qed
  qed
  moreover have "?zs ! parent ?p \<le> ?zs ! c" if c: "c < length ys" "0 < c" "parent c = ?p" "0 < ?p" for c
  proof -
    have pp: "parent ?p < ?p" using c(4) by simp
    have 1: "ys ! parent ?p \<le> ys ! ?p" using up_okD(1) [OF ok p(2) c(4)] p(1) by simp
    have 2: "?zs ! parent ?p = ys ! parent ?p" using pp p by simp
    show ?thesis
    proof (cases "c = pos")
      case True
      with 1 2 p pos show ?thesis by simp
    next
      case False
      with c parent_less [of c] have "c \<noteq> ?p" by auto
      with False up_okD(1) [OF ok c(1,2)] c(3) 1 2 show ?thesis by simp
    qed
  qed
  ultimately show ?thesis by (simp add: up_ok_def)
qed

lemma siftdown_heap_ok:
  "pos < length xs \<Longrightarrow> up_ok (xs[pos := x]) pos \<Longrightarrow> heap_ok (siftdown xs pos x)"
proof (induction xs pos x rule: siftdown.induct)
  case (1 xs pos x)
  let ?ys = "xs[pos := x]"
  show ?case
  proof (cases "0 < pos \<and> x < xs ! parent pos")
    case True
    then have p: "parent pos < pos" "parent pos < length xs" using 1(2) by (auto intro: less_trans [OF parent_less])
    have "?ys ! parent pos = xs ! parent pos" using p by simp
    with up_ok_step [OF 1(3)] True 1(2) have "up_ok (?ys[pos := xs ! parent pos, parent pos := x]) (parent pos)"
      by simp
    then have "up_ok ((xs[pos := xs ! parent pos])[parent pos := x]) (parent pos)" by simp
    with 1(1) True p have "heap_ok (siftdown (xs[pos := xs ! parent pos]) (parent pos) x)" by simp
    with True show ?thesis by (subst siftdown.simps) simp
  next
    case False
    have "siftdown xs pos x = ?ys" using False by (subst siftdown.simps) auto
    moreover have "?ys ! parent i \<le> ?ys ! i" if "i < length ?ys" "0 < i" for i
    proof (cases "i = pos")
      case True
      with that False 1(2) show ?thesis by auto
    next
      case False
      with up_okD(1) [OF 1(3) that] show ?thesis by simp
    qed
    ultimately show ?thesis by (simp add: heap_ok_def)
  qed
qed

lemma length_siftdown [simp]: "length (siftdown xs pos x) = length xs"
  by (induction xs pos x rule: siftdown.induct) (subst siftdown.simps, simp)

lemma mset_siftdown: "pos < length xs \<Longrightarrow> mset (siftdown xs pos x) = mset (xs[pos := x])"
proof (induction xs pos x rule: siftdown.induct)
  case (1 xs pos x)
  show ?case
  proof (cases "0 < pos \<and> x < xs ! parent pos")
    case True
    let ?p = "parent pos"
    have p: "?p < pos" "?p < length xs" using True 1(2) by (auto intro: less_trans [OF parent_less])
    have "siftdown xs pos x = siftdown (xs[pos := xs ! ?p]) ?p x"
      using True by (subst siftdown.simps) simp
    also have "mset \<dots> = mset ((xs[pos := xs ! ?p])[?p := x])" using 1 True p by simp
    also have "(xs[pos := xs ! ?p])[?p := x] = (xs[pos := x])[?p := (xs[pos := x]) ! pos, pos := (xs[pos := x]) ! ?p]"
      using p 1(2) by (simp add: list_update_swap [of pos ?p])
    also have "mset \<dots> = mset (xs[pos := x])" using p 1(2) by (intro mset_swap) simp_all
    finally show ?thesis .
  next
    case False
    then have "siftdown xs pos x = xs[pos := x]" by (subst siftdown.simps) auto
    then show ?thesis by simp
  qed
qed

text \<open>In order but for the pairs with \<open>pos\<close>, whose children are above its parent.\<close>

definition hole_ok :: "'a::linorder list \<Rightarrow> nat \<Rightarrow> bool" where
  "hole_ok xs pos \<longleftrightarrow>
     (\<forall>i < length xs. 0 < i \<and> i \<noteq> pos \<and> parent i \<noteq> pos \<longrightarrow> xs ! parent i \<le> xs ! i) \<and>
     (\<forall>c < length xs. 0 < c \<and> parent c = pos \<and> 0 < pos \<longrightarrow> xs ! parent pos \<le> xs ! c)"

lemma hole_okD:
  "hole_ok xs pos \<Longrightarrow> i < length xs \<Longrightarrow> 0 < i \<Longrightarrow> i \<noteq> pos \<Longrightarrow> parent i \<noteq> pos \<Longrightarrow> xs ! parent i \<le> xs ! i"
  "hole_ok xs pos \<Longrightarrow> c < length xs \<Longrightarrow> 0 < c \<Longrightarrow> parent c = pos \<Longrightarrow> 0 < pos \<Longrightarrow> xs ! parent pos \<le> xs ! c"
  by (auto simp: hole_ok_def)

lemma children: "0 < c \<Longrightarrow> parent c = pos \<longleftrightarrow> c = 2 * pos + 1 \<or> c = 2 * pos + 2"
  by (auto simp: parent_def)

definition least_child :: "'a::linorder list \<Rightarrow> nat \<Rightarrow> nat" where
  "least_child xs pos =
     (if 2 * pos + 2 < length xs \<and> \<not> xs ! (2 * pos + 1) < xs ! (2 * pos + 2) then 2 * pos + 2 else 2 * pos + 1)"

lemma least_child:
  assumes "2 * pos + 1 < length xs"
  shows "least_child xs pos < length xs" "pos < least_child xs pos" "parent (least_child xs pos) = pos"
    "d < length xs \<Longrightarrow> 0 < d \<Longrightarrow> parent d = pos \<Longrightarrow> xs ! least_child xs pos \<le> xs ! d"
proof -
  show "least_child xs pos < length xs" "pos < least_child xs pos" "parent (least_child xs pos) = pos"
    using assms by (auto simp: least_child_def parent_def)
  assume d: "d < length xs" "0 < d" "parent d = pos"
  then consider "d = 2 * pos + 1" | "d = 2 * pos + 2" using children [of d pos] by blast
  then show "xs ! least_child xs pos \<le> xs ! d"
    using d(1) by cases (auto simp: least_child_def not_less less_imp_le)
qed

lemma sift_hole_step:
  "2 * pos + 1 < length xs \<Longrightarrow>
   sift_hole xs pos = sift_hole (xs[pos := xs ! least_child xs pos]) (least_child xs pos)"
  by (subst sift_hole.simps) (simp add: least_child_def Let_def)

lemma sift_hole_stop: "\<not> 2 * pos + 1 < length xs \<Longrightarrow> sift_hole xs pos = (xs, pos)"
  by (subst sift_hole.simps) simp

lemma hole_ok_step:
  assumes ok: "hole_ok xs pos" and lt: "2 * pos + 1 < length xs"
  defines "c \<equiv> least_child xs pos"
  shows "hole_ok (xs[pos := xs ! c]) c"
proof -
  let ?zs = "xs[pos := xs ! c]"
  note c = least_child [OF lt, folded c_def]
  have "?zs ! parent i \<le> ?zs ! i" if i: "i < length xs" "0 < i" "i \<noteq> c" "parent i \<noteq> c" for i
  proof (cases "i = pos")
    case True
    have "xs ! parent pos \<le> xs ! c" using hole_okD(2) [OF ok c(1) _ c(3)] c(2) i(2) True by simp
    with True i parent_less [of i] show ?thesis by simp
  next
    case False
    show ?thesis
    proof (cases "parent i = pos")
      case True
      with False c(4) [OF i(1,2) True] i lt show ?thesis by simp
    next
      case F: False
      with False hole_okD(1) [OF ok i(1,2) False F] show ?thesis by simp
    qed
  qed
  moreover have "?zs ! parent c \<le> ?zs ! d" if d: "d < length xs" "0 < d" "parent d = c" for d
  proof -
    have "d \<noteq> pos" using d parent_less [OF d(2)] c(2) by auto
    moreover have "xs ! c \<le> xs ! d" using hole_okD(1) [OF ok d(1,2)] \<open>d \<noteq> pos\<close> d(3) c(2) by simp
    ultimately show ?thesis using c lt by simp
  qed
  ultimately show ?thesis by (simp add: hole_ok_def)
qed

lemma sift_hole_ok:
  assumes "hole_ok xs pos" "pos < length xs" "sift_hole xs pos = (ys, p)"
  shows "hole_ok ys p \<and> p < length ys \<and> length ys = length xs \<and> \<not> 2 * p + 1 < length ys \<and>
    mset (ys[p := x]) = mset (xs[pos := x])"
  using assms
proof (induction xs pos arbitrary: ys p rule: sift_hole.induct)
  case (1 xs pos)
  show ?case
  proof (cases "2 * pos + 1 < length xs")
    case False
    with 1 show ?thesis by (simp add: sift_hole_stop)
  next
    case True
    let ?c = "least_child xs pos"
    note c = least_child [OF True]
    let ?xs = "xs[pos := xs ! ?c]"
    have sh: "sift_hole ?xs ?c = (ys, p)" using 1(4) unfolding sift_hole_step [OF True] .
    have cl: "?c < length ?xs" using c(1) by simp
    from 1(1) [OF True least_child_def, OF hole_ok_step [OF 1(2) True] cl sh]
    have IH: "hole_ok ys p \<and> p < length ys \<and> length ys = length ?xs \<and>
        \<not> 2 * p + 1 < length ys \<and> mset (ys[p := x]) = mset (?xs[?c := x])" .
    have "(xs[pos := xs ! ?c])[?c := x] = (xs[pos := x])[?c := (xs[pos := x]) ! pos, pos := (xs[pos := x]) ! ?c]"
      using c(1,2) 1(3) by (simp add: list_update_swap [of pos ?c])
    also have "mset \<dots> = mset (xs[pos := x])" using c(1) 1(3) by (intro mset_swap) simp_all
    finally have "mset (?xs[?c := x]) = mset (xs[pos := x])" .
    with IH show ?thesis by simp
  qed
qed

section \<open>Push and pop\<close>

lemma heappush_ok:
  assumes "heap_ok h"
  shows "heap_ok (heappush h x)" and "mset (heappush h x) = add_mset x (mset h)"
proof -
  have "up_ok ((h @ [x])[length h := x]) (length h)"
    using assms unfolding up_ok_def
  proof (intro conjI allI impI)
    fix i assume "i < length ((h @ [x])[length h := x])" "0 < i \<and> i \<noteq> length h"
    then have "i < length h" "0 < i" by auto
    moreover from this have "parent i < length h" using parent_less [of i] by linarith
    ultimately show "(h @ [x])[length h := x] ! parent i \<le> (h @ [x])[length h := x] ! i"
      using assms by (simp add: heap_ok_def nth_append)
  next
    fix c assume "c < length ((h @ [x])[length h := x])" "0 < c \<and> parent c = length h \<and> 0 < length h"
    then show "(h @ [x])[length h := x] ! parent (length h) \<le> (h @ [x])[length h := x] ! c"
      using parent_less [of c] by auto
  qed
  then show "heap_ok (heappush h x)" unfolding heappush_def by (intro siftdown_heap_ok) simp_all
  show "mset (heappush h x) = add_mset x (mset h)" by (simp add: heappush_def mset_siftdown)
qed

lemma heappop_empty: "heappop [] = Inl IndexError"
  by (simp add: heappop_def)

lemma heappop_ok:
  assumes ok: "heap_ok h" and ne: "h \<noteq> []"
  shows "\<exists>h'. heappop h = Inr (h ! 0, h') \<and> heap_ok h' \<and> mset h = add_mset (h ! 0) (mset h')"
proof -
  obtain rest x where h: "h = rest @ [x]" using ne by (cases h rule: rev_cases) auto
  show ?thesis
  proof (cases "rest = []")
    case True
    then show ?thesis by (simp add: h heappop_def)
  next
    case False
    let ?xs = "rest[0 := x]"
    obtain ys p where sh: "sift_hole ?xs 0 = (ys, p)" by (cases "sift_hole ?xs 0")
    have "hole_ok ?xs 0"
      unfolding hole_ok_def
    proof (intro conjI allI impI)
      fix i assume i: "i < length ?xs" "0 < i \<and> i \<noteq> 0 \<and> parent i \<noteq> 0"
      then have p: "parent i < length rest" using parent_less [of i] by (simp del: parent_less)
      have "h ! parent i \<le> h ! i" using ok i by (simp add: heap_ok_def h)
      with i p show "?xs ! parent i \<le> ?xs ! i" by (simp add: h nth_append)
    qed simp
    with sift_hole_ok [OF this _ sh, of x] False have s: "hole_ok ys p" "p < length ys"
        "length ys = length rest" "\<not> 2 * p + 1 < length ys" "mset (ys[p := x]) = mset (rest[0 := x])"
      by simp_all
    have leaf: "i < length ys \<Longrightarrow> 0 < i \<Longrightarrow> parent i \<noteq> p" for i
      using s(4) children [of i p] by auto
    have "up_ok (ys[p := x]) p"
      unfolding up_ok_def
    proof (intro conjI allI impI)
      fix i assume i: "i < length (ys[p := x])" "0 < i \<and> i \<noteq> p"
      with hole_okD(1) [OF s(1), of i] leaf [of i] show "ys[p := x] ! parent i \<le> ys[p := x] ! i" by simp
    next
      fix c assume "c < length (ys[p := x])" "0 < c \<and> parent c = p \<and> 0 < p"
      with leaf [of c] show "ys[p := x] ! parent p \<le> ys[p := x] ! c" by simp
    qed
    then have hp: "heap_ok (siftdown ys p x)" using s(2) by (rule siftdown_heap_ok [rotated])
    have pop: "heappop h = Inr (h ! 0, siftdown ys p x)"
      using False sh by (simp add: heappop_def h siftup_def nth_append)
    have "mset (siftdown ys p x) = mset (rest[0 := x])" using s by (simp add: mset_siftdown)
    also have "\<dots> = add_mset x (mset rest - {#rest ! 0#})" using False by (simp add: mset_update)
    finally have "add_mset (h ! 0) (mset (siftdown ys p x)) = mset h"
      using False by (simp add: h nth_append)
    with pop hp show ?thesis by (intro exI [of _ "siftdown ys p x"]) simp
  qed
qed

section \<open>The contract of a priority queue\<close>

locale pqueue =
  fixes push :: "'q \<Rightarrow> 'a::linorder \<Rightarrow> 'q"
    and pop :: "'q \<Rightarrow> exn + 'a \<times> 'q"
    and bag :: "'q \<Rightarrow> 'a multiset"
    and inv :: "'q \<Rightarrow> bool"
  assumes push: "inv q \<Longrightarrow> inv (push q x) \<and> bag (push q x) = add_mset x (bag q)"
    and pop_none: "inv q \<Longrightarrow> bag q = {#} \<Longrightarrow> pop q = Inl IndexError"
    and pop_least: "inv q \<Longrightarrow> bag q \<noteq> {#} \<Longrightarrow>
      \<exists>x q'. pop q = Inr (x, q') \<and> inv q' \<and> bag q = add_mset x (bag q') \<and> (\<forall>y \<in># bag q. x \<le> y)"
begin

fun drain :: "nat \<Rightarrow> 'q \<Rightarrow> exn + 'a list \<times> 'q" where
  "drain 0 q = Inr ([], q)"
| "drain (Suc n) q =
     (case pop q of Inl e \<Rightarrow> Inl e
      | Inr (x, q') \<Rightarrow> (case drain n q' of Inl e \<Rightarrow> Inl e | Inr (xs, q'') \<Rightarrow> Inr (x # xs, q'')))"

text \<open>Taking everything out gives the contents in ascending order.\<close>

lemma drain_sorts:
  "inv q \<Longrightarrow> n = size (bag q) \<Longrightarrow>
   \<exists>q'. drain n q = Inr (sorted_list_of_multiset (bag q), q') \<and> inv q' \<and> bag q' = {#}"
proof (induction n arbitrary: q)
  case (Suc n)
  then have "bag q \<noteq> {#}" by auto
  with pop_least Suc.prems obtain x q' where p: "pop q = Inr (x, q')" "inv q'"
      "bag q = add_mset x (bag q')" "\<forall>y \<in># bag q. x \<le> y"
    by blast
  with Suc obtain q'' where d: "drain n q' = Inr (sorted_list_of_multiset (bag q'), q'')" "inv q''" "bag q'' = {#}"
    by fastforce
  have "sorted_list_of_multiset (bag q) = x # sorted_list_of_multiset (bag q')"
    using p(3,4) by (simp add: insort_is_Cons)
  with p d show ?case by simp
qed simp

lemma push_all: "inv q \<Longrightarrow> inv (fold (\<lambda>x q. push q x) xs q) \<and>
    bag (fold (\<lambda>x q. push q x) xs q) = bag q + mset xs"
  by (induction xs arbitrary: q) (auto simp: push)

lemma sort_by_queue:
  "inv q \<Longrightarrow> bag q = {#} \<Longrightarrow>
   \<exists>q'. drain (length xs) (fold (\<lambda>x q. push q x) xs q) = Inr (sort xs, q')"
proof -
  assume q: "inv q" "bag q = {#}"
  let ?q = "fold (\<lambda>x q. push q x) xs q"
  from push_all [OF q(1), of xs] q(2) have "inv ?q" "bag ?q = mset xs" by auto
  with drain_sorts [of ?q "length xs"] show ?thesis by (metis size_mset sorted_list_of_multiset_mset)
qed

end

interpretation heapq: pqueue heappush heappop mset heap_ok
proof unfold_locales
  fix q :: "'a list" and x
  assume "heap_ok q"
  then show "heap_ok (heappush q x) \<and> mset (heappush q x) = add_mset x (mset q)" by (simp add: heappush_ok)
next
  fix q :: "'a list"
  assume "heap_ok q" "mset q = {#}"
  then show "heappop q = Inl IndexError" by (simp add: heappop_empty)
next
  fix q :: "'a list"
  assume q: "heap_ok q" "mset q \<noteq> {#}"
  then have "\<forall>y \<in># mset q. q ! 0 \<le> y" using heap_ok_least [OF q(1)] by (auto simp: in_set_conv_nth)
  with heappop_ok [OF q(1)] q(2)
  show "\<exists>x q'. heappop q = Inr (x, q') \<and> heap_ok q' \<and> mset q = add_mset x (mset q') \<and> (\<forall>y \<in># mset q. x \<le> y)"
    by fastforce
qed

end
