(* ===== verification/Pifo_Model.thy ===== *)
theory Pifo_Model
  imports Heap_Queue "HOL-Library.Product_Lexorder"
begin

text \<open>
  The reference model of the PIFO testbench (\<open>tb/PIFO/test_PIFO_SRAM_Top.py\<close>):
  \<open>RankMetaStructure\<close>, a heap of (rank, meta) pairs that checks each pop of the hardware, the
  packing of a request word, and the two test sequences; at the end the test of one level of the
  PIFO (\<open>test_PIFO_SRAM_Level_1.py\<close>). The hardware is a parameter: a state,
  a push and a pop. The theorems say what the checker accepts: exactly the hardware that pops
  the ranks of its contents in ascending order.
\<close>

section \<open>The reference structure\<close>

definition PTW :: nat where [regs]: "PTW = 16"
definition MTW :: nat where [regs]: "MTW = 24"
definition CTW :: nat where [regs]: "CTW = 15"
definition LEVEL_TOTAL :: nat where [regs]: "LEVEL_TOTAL = 6"

type_synonym rank_meta = "(int \<times> int) list"

definition RankMeta_init :: rank_meta where
  "RankMeta_init = []"

definition RankMeta_insert :: "rank_meta \<Rightarrow> int \<Rightarrow> int \<Rightarrow> rank_meta" where
  "RankMeta_insert d rank meta = heappush d (rank, meta)"

definition check_and_remove_min :: "rank_meta \<Rightarrow> int \<Rightarrow> int \<Rightarrow> exn + int \<times> rank_meta" where
  "check_and_remove_min d input_rank meta =
     (case d of
        [] \<Rightarrow> Inl (ValueError ''Structure is empty!'')
      | (min_rank, min_meta) # _ \<Rightarrow>
          if input_rank = min_rank then
            (case heappop d of Inl e \<Rightarrow> Inl e | Inr (x, d') \<Rightarrow> Inr (snd x, d'))
          else Inl (ValueError ''not minimum rank''))"

section \<open>Request and response words\<close>

definition req_word :: "int \<Rightarrow> int \<Rightarrow> int" where
  "req_word rank meta = push_bit MTW rank OR meta"

definition resp_rank :: "int \<Rightarrow> int" where
  "resp_rank w = drop_bit MTW w AND (push_bit PTW 1 - 1)"

definition resp_meta :: "int \<Rightarrow> int" where
  "resp_meta w = w AND (push_bit MTW 1 - 1)"

lemma req_word_value: "0 \<le> meta \<Longrightarrow> meta < 2 ^ MTW \<Longrightarrow> req_word rank meta = 2 ^ MTW * rank + meta"
proof -
  assume m: "0 \<le> meta" "meta < 2 ^ MTW"
  have tb: "take_bit MTW meta = meta" using m by (simp add: take_bit_int_eq_self_iff)
  have "\<not> bit (push_bit MTW rank) k \<or> \<not> bit meta k" for k
  proof (cases "k < MTW")
    case False
    then have "\<not> bit (take_bit MTW meta) k" by (simp add: bit_take_bit_iff)
    with tb show ?thesis by simp
  qed (simp add: bit_push_bit_iff)
  then have "push_bit MTW rank OR meta = push_bit MTW rank + meta" by (simp add: disjunctive_add)
  then show ?thesis by (simp add: req_word_def push_bit_eq_mult mult.commute)
qed

lemma resp_req_word:
  assumes "0 \<le> rank" "rank < 2 ^ PTW" "0 \<le> meta" "meta < 2 ^ MTW"
  shows "resp_rank (req_word rank meta) = rank" and "resp_meta (req_word rank meta) = meta"
proof -
  note w = req_word_value [OF assms(3,4), of rank]
  have k: "push_bit n 1 - 1 = (2 ^ n - 1 :: int)" for n by (simp add: push_bit_eq_mult)
  have "drop_bit MTW (req_word rank meta) = rank"
    using assms(3,4) by (simp add: w drop_bit_eq_div)
  then show "resp_rank (req_word rank meta) = rank"
    using assms(1,2) by (simp add: resp_rank_def k and_mask_mod)
  show "resp_meta (req_word rank meta) = meta"
    using assms(3,4) by (simp add: resp_meta_def k and_mask_mod w)
qed

section \<open>The test sequences\<close>

text \<open>\<open>pow_add\<close>: the number of entries of a tree of \<open>num\<close> levels.\<close>

primrec pow_add :: "nat \<Rightarrow> int" where
  "pow_add 0 = 0"
| "pow_add (Suc i) = 4 ^ (i + 1) + pow_add i"

record 'd tb =
  tb_dut :: 'd
  tb_struct :: rank_meta

definition TB_push :: "('d \<Rightarrow> int \<Rightarrow> 'd) \<Rightarrow> int \<Rightarrow> int \<Rightarrow> 'd tb \<Rightarrow> 'd tb" where
  "TB_push dpush rank meta tb =
     tb\<lparr>tb_dut := dpush (tb_dut tb) (req_word rank meta),
        tb_struct := RankMeta_insert (tb_struct tb) rank meta\<rparr>"

text \<open>\<open>pop\<close> and the check of its response.\<close>

definition TB_pop :: "('d \<Rightarrow> int \<times> 'd) \<Rightarrow> 'd tb \<Rightarrow> int \<times> 'd tb" where
  "TB_pop dpop tb = (case dpop (tb_dut tb) of (w, d) \<Rightarrow> (w, tb\<lparr>tb_dut := d\<rparr>))"

definition TB_pop_check :: "('d \<Rightarrow> int \<times> 'd) \<Rightarrow> 'd tb \<Rightarrow> exn + 'd tb" where
  "TB_pop_check dpop tb =
     (case TB_pop dpop tb of (w, tb') \<Rightarrow>
        (case check_and_remove_min (tb_struct tb') (resp_rank w) (resp_meta w) of
           Inl e \<Rightarrow> Inl e
         | Inr (_, s) \<Rightarrow> Inr (tb'\<lparr>tb_struct := s\<rparr>)))"

text \<open>The pushes of \<open>push_all_pop_all\<close>; the \<open>i\<close>-th random rank is \<open>ranks ! i\<close>.\<close>

definition push_meta :: "int \<Rightarrow> int" where
  "push_meta i = (i + 1) AND (push_bit MTW 1 - 1)"

primrec push_from :: "('d \<Rightarrow> int \<Rightarrow> 'd) \<Rightarrow> int \<Rightarrow> int list \<Rightarrow> 'd tb \<Rightarrow> 'd tb" where
  "push_from dpush i [] tb = tb"
| "push_from dpush i (r # rs) tb =
     push_from dpush (i + 1) rs (TB_push dpush (r AND (push_bit PTW 1 - 1)) (push_meta i) tb)"

primrec pop_times :: "('d \<Rightarrow> int \<times> 'd) \<Rightarrow> nat \<Rightarrow> 'd tb \<Rightarrow> exn + 'd tb" where
  "pop_times dpop 0 tb = Inr tb"
| "pop_times dpop (Suc n) tb =
     (case TB_pop_check dpop tb of Inl e \<Rightarrow> Inl e | Inr tb' \<Rightarrow> pop_times dpop n tb')"

definition push_all_pop_all ::
    "('d \<Rightarrow> int \<Rightarrow> 'd) \<Rightarrow> ('d \<Rightarrow> int \<times> 'd) \<Rightarrow> int list \<Rightarrow> 'd tb \<Rightarrow> exn + 'd tb" where
  "push_all_pop_all dpush dpop ranks tb = pop_times dpop (length ranks) (push_from dpush 0 ranks tb)"

text \<open>
  \<open>producer(1)\<close>, then rounds of \<open>consumer(1)\<close> and \<open>producer(1)\<close>, then \<open>consumer(1)\<close>;
  every \<open>producer(1)\<close> sends the meta value of \<open>i = 0\<close>.
\<close>

definition producer1 :: "('d \<Rightarrow> int \<Rightarrow> 'd) \<Rightarrow> int \<Rightarrow> 'd tb \<Rightarrow> 'd tb" where
  "producer1 dpush r tb = TB_push dpush (r AND (push_bit PTW 1 - 1)) (push_meta 0) tb"

primrec rounds :: "('d \<Rightarrow> int \<Rightarrow> 'd) \<Rightarrow> ('d \<Rightarrow> int \<times> 'd) \<Rightarrow> int list \<Rightarrow> 'd tb \<Rightarrow> exn + 'd tb" where
  "rounds dpush dpop [] tb = Inr tb"
| "rounds dpush dpop (r # rs) tb =
     (case TB_pop_check dpop tb of
        Inl e \<Rightarrow> Inl e
      | Inr tb' \<Rightarrow> rounds dpush dpop rs (producer1 dpush r tb'))"

definition push_and_pop_concurrent ::
    "('d \<Rightarrow> int \<Rightarrow> 'd) \<Rightarrow> ('d \<Rightarrow> int \<times> 'd) \<Rightarrow> int list \<Rightarrow> 'd tb \<Rightarrow> exn + 'd tb" where
  "push_and_pop_concurrent dpush dpop ranks tb =
     (case rounds dpush dpop (tl ranks) (producer1 dpush (hd ranks) tb) of
        Inl e \<Rightarrow> Inl e | Inr tb' \<Rightarrow> TB_pop_check dpop tb')"

section \<open>What the checker accepts\<close>

lemma pow_add_closed: "3 * pow_add n = 4 ^ (n + 1) - 4"
  by (induction n) auto

text \<open>The check succeeds on the least rank only, whatever the meta value says.\<close>

lemma check_spec:
  assumes ok: "heap_ok d" and ne: "d \<noteq> []"
  shows "check_and_remove_min d r m =
    (if r = fst (d ! 0) then (case heappop d of Inl e \<Rightarrow> Inl e | Inr (x, d') \<Rightarrow> Inr (snd (d ! 0), d'))
     else Inl (ValueError ''not minimum rank''))"
  using heappop_ok [OF ok ne] ne by (cases d) (auto simp: check_and_remove_min_def)

lemma fst_least:
  assumes "heap_ok d" "d \<noteq> []" "(r, m) \<in> set d"
  shows "fst (d ! 0) \<le> r" and "r = fst (d ! 0) \<Longrightarrow> snd (d ! 0) \<le> m"
proof -
  from assms(3) obtain i where "i < length d" "d ! i = (r, m)" by (metis in_set_conv_nth)
  with heap_ok_least [OF assms(1)] have "d ! 0 \<le> (r, m)" by metis
  then show "fst (d ! 0) \<le> r" "r = fst (d ! 0) \<Longrightarrow> snd (d ! 0) \<le> m"
    by (auto simp: less_eq_prod_def)
qed

text \<open>The words that the hardware gives in \<open>n\<close> pops.\<close>

primrec dut_pops :: "('d \<Rightarrow> int \<times> 'd) \<Rightarrow> nat \<Rightarrow> 'd \<Rightarrow> int list" where
  "dut_pops dpop 0 d = []"
| "dut_pops dpop (Suc n) d = fst (dpop d) # dut_pops dpop n (snd (dpop d))"

lemma sorted_ranks_Cons:
  assumes ok: "heap_ok d" and d: "mset d = add_mset (d ! 0) (mset d')" and ne: "d \<noteq> []"
  shows "sort (map fst d) = fst (d ! 0) # sort (map fst d')"
proof (rule properties_for_sort)
  have "mset (map fst d) = add_mset (fst (d ! 0)) (mset (map fst d'))"
    using arg_cong [OF d, of "image_mset fst"] by (simp only: mset_map image_mset_add_mset)
  then show "mset (fst (d ! 0) # sort (map fst d')) = mset (map fst d)" by simp
  have "set d' \<subseteq> set d" using d by (metis add_mset_add_single mset_subset_eq_add_left set_mset_mono set_mset_mset)
  then have "\<forall>x \<in> set (map fst d'). fst (d ! 0) \<le> x" using fst_least(1) [OF ok ne] by auto
  then show "sorted (fst (d ! 0) # sort (map fst d'))" by simp
qed

lemma pop_times_iff:
  assumes "heap_ok (tb_struct tb)" "length (tb_struct tb) = n"
  shows "(\<exists>tb'. pop_times dpop n tb = Inr tb') \<longleftrightarrow>
    map resp_rank (dut_pops dpop n (tb_dut tb)) = sort (map fst (tb_struct tb))"
  using assms
proof (induction n arbitrary: tb)
  case (Suc n)
  let ?d = "tb_struct tb"
  have ne: "?d \<noteq> []" using Suc.prems(2) by auto
  from heappop_ok [OF Suc.prems(1) ne] obtain d' where d': "heappop ?d = Inr (?d ! 0, d')" "heap_ok d'"
      "mset ?d = add_mset (?d ! 0) (mset d')" by blast
  have len: "length d' = n" using arg_cong [OF d'(3), of size] Suc.prems(2) by simp
  obtain w dd where w: "dpop (tb_dut tb) = (w, dd)" by (cases "dpop (tb_dut tb)")
  have chk: "TB_pop_check dpop tb =
      (if resp_rank w = fst (?d ! 0) then Inr (tb\<lparr>tb_dut := dd, tb_struct := d'\<rparr>)
       else Inl (ValueError ''not minimum rank''))"
    by (simp add: TB_pop_check_def TB_pop_def w check_spec [OF Suc.prems(1) ne] d'(1))
  note srt = sorted_ranks_Cons [OF Suc.prems(1) d'(3) ne]
  show ?case
  proof (cases "resp_rank w = fst (?d ! 0)")
    case True
    let ?tb = "tb\<lparr>tb_dut := dd, tb_struct := d'\<rparr>"
    have "(\<exists>tb'. pop_times dpop n ?tb = Inr tb') \<longleftrightarrow> map resp_rank (dut_pops dpop n dd) = sort (map fst d')"
      using Suc.IH [of ?tb] d'(2) len by simp
    with True show ?thesis by (simp add: chk w srt)
  next
    case False
    then show ?thesis by (simp add: chk w srt)
  qed
qed simp

lemma push_from_struct:
  "heap_ok (tb_struct tb) \<Longrightarrow>
   heap_ok (tb_struct (push_from dpush i rs tb)) \<and>
   mset (map fst (tb_struct (push_from dpush i rs tb))) =
     mset (map fst (tb_struct tb)) + mset (map (\<lambda>r. r AND (push_bit PTW 1 - 1)) rs)"
proof (induction rs arbitrary: i tb)
  case (Cons r rs)
  let ?tb = "TB_push dpush (r AND (push_bit PTW 1 - 1)) (push_meta i) tb"
  have h: "heap_ok (tb_struct ?tb)" using Cons.prems by (simp add: TB_push_def RankMeta_insert_def heappush_ok)
  have "mset (map fst (tb_struct ?tb)) = add_mset (r AND (push_bit PTW 1 - 1)) (mset (map fst (tb_struct tb)))"
    using Cons.prems by (simp add: TB_push_def RankMeta_insert_def heappush_ok)
  with Cons.IH [OF h] show ?case by simp
qed simp

text \<open>An ideal PIFO: a queue of words, the least one first.\<close>

definition ideal_push :: "int list \<Rightarrow> int \<Rightarrow> int list" where
  "ideal_push d w = heappush d w"

definition ideal_pop :: "int list \<Rightarrow> int \<times> int list" where
  "ideal_pop d = (case heappop d of Inl _ \<Rightarrow> (0, d) | Inr x \<Rightarrow> x)"

lemma ideal_pops:
  "heap_ok d \<Longrightarrow> n \<le> length d \<Longrightarrow> dut_pops ideal_pop n d = take n (sort d)"
proof (induction n arbitrary: d)
  case (Suc n)
  have ne: "d \<noteq> []" using Suc.prems(2) by auto
  from heappop_ok [OF Suc.prems(1) ne] obtain d' where d': "heappop d = Inr (d ! 0, d')" "heap_ok d'"
      "mset d = add_mset (d ! 0) (mset d')" by blast
  have len: "n \<le> length d'" using arg_cong [OF d'(3), of size] Suc.prems(2) by simp
  have "sort d = d ! 0 # sort d'"
  proof (rule properties_for_sort)
    have "set d' \<subseteq> set d" using d'(3) by (metis add_mset_add_single mset_subset_eq_add_left set_mset_mono set_mset_mset)
    moreover have "\<forall>x \<in> set d. d ! 0 \<le> x"
      using heap_ok_least [OF Suc.prems(1)] by (metis in_set_conv_nth)
    ultimately show "sorted (d ! 0 # sort d')" by auto
  qed (use d'(3) in simp)
  with Suc.IH [OF d'(2) len] d'(1) show ?case by (simp add: ideal_pop_def)
qed simp

section \<open>An ideal PIFO passes\<close>

text \<open>The hardware's contents match the reference queue: one word per entry, all fields in range.\<close>

definition tb_match :: "int list tb \<Rightarrow> bool" where
  "tb_match tb \<longleftrightarrow> heap_ok (tb_dut tb) \<and> heap_ok (tb_struct tb) \<and>
     mset (tb_dut tb) = mset (map (\<lambda>(r, m). req_word r m) (tb_struct tb)) \<and>
     (\<forall>(r, m) \<in> set (tb_struct tb). 0 \<le> r \<and> r < 2 ^ PTW \<and> 0 \<le> m \<and> m < 2 ^ MTW)"

lemma low_mask: "0 \<le> x AND (push_bit n 1 - 1) \<and> x AND (push_bit n 1 - 1) < (2 :: int) ^ n"
proof -
  have "x AND (push_bit n 1 - 1) = x mod 2 ^ n" by (simp add: push_bit_eq_mult and_mask_mod)
  then show ?thesis by simp
qed

lemma tb_match_push:
  assumes "tb_match tb" "0 \<le> r" "r < 2 ^ PTW" "0 \<le> m" "m < 2 ^ MTW"
  shows "tb_match (TB_push ideal_push r m tb)"
proof -
  have h: "heap_ok (tb_struct tb)" "heap_ok (tb_dut tb)" using assms(1) by (auto simp: tb_match_def)
  have "set (heappush (tb_struct tb) (r, m)) = insert (r, m) (set (tb_struct tb))"
    using arg_cong [OF heappush_ok(2) [OF h(1)], of set_mset "(r, m)"] by simp
  moreover have "mset (map (\<lambda>(r, m). req_word r m) (heappush (tb_struct tb) (r, m))) =
      add_mset (req_word r m) (mset (map (\<lambda>(r, m). req_word r m) (tb_struct tb)))"
    by (simp only: mset_map heappush_ok(2) [OF h(1)]) simp
  ultimately show ?thesis
    using assms h by (simp add: tb_match_def TB_push_def ideal_push_def RankMeta_insert_def heappush_ok)
qed

lemma tb_match_push_from: "tb_match tb \<Longrightarrow> tb_match (push_from ideal_push i rs tb)"
proof (induction rs arbitrary: i tb)
  case (Cons r rs)
  then show ?case
    using tb_match_push [OF Cons.prems, of "r AND (push_bit PTW 1 - 1)" "push_meta i"]
    by (simp add: low_mask push_meta_def)
qed simp

lemma resp_rank_range:
  assumes "0 \<le> w" "w < 2 ^ (PTW + MTW)"
  shows "resp_rank w = w div 2 ^ MTW"
proof -
  have "w div 2 ^ MTW < 2 ^ PTW" using assms(2) by (simp add: PTW_def MTW_def)
  then show ?thesis using assms(1)
    by (simp add: resp_rank_def push_bit_eq_mult and_mask_mod drop_bit_eq_div pos_imp_zdiv_nonneg_iff)
qed

lemma tb_match_ranks:
  assumes "tb_match tb"
  shows "map resp_rank (sort (tb_dut tb)) = sort (map fst (tb_struct tb))"
proof (rule properties_for_sort [symmetric])
  let ?d = "tb_dut tb" let ?f = "\<lambda>(r, m). req_word r m"
  have ms: "mset ?d = mset (map ?f (tb_struct tb))"
      and rg: "\<And>r m. (r, m) \<in> set (tb_struct tb) \<Longrightarrow> 0 \<le> r \<and> r < 2 ^ PTW \<and> 0 \<le> m \<and> m < 2 ^ MTW"
    using assms by (auto simp: tb_match_def)
  have "mset (map resp_rank (sort ?d)) = mset (map resp_rank (map ?f (tb_struct tb)))"
    by (simp only: mset_map mset_sort ms)
  also have "map resp_rank (map ?f (tb_struct tb)) = map fst (tb_struct tb)"
    using rg by (auto simp: resp_req_word)
  finally show "mset (map resp_rank (sort ?d)) = mset (map fst (tb_struct tb))" .
  have range: "0 \<le> w \<and> w < 2 ^ (PTW + MTW)" if "w \<in> set ?d" for w
  proof -
    have "set ?d = ?f ` set (tb_struct tb)" using arg_cong [OF ms, of set_mset] by simp
    with that obtain r m where rm: "(r, m) \<in> set (tb_struct tb)" "w = req_word r m" by auto
    note b = rg [OF rm(1)]
    have w: "w = 2 ^ MTW * r + m" using b rm(2) by (simp add: req_word_value)
    have "2 ^ MTW * r + m < 2 ^ MTW * (r + 1)" using b by (simp add: algebra_simps)
    also have "\<dots> \<le> 2 ^ MTW * 2 ^ PTW" using b by (intro mult_left_mono) simp_all
    finally show ?thesis using b unfolding w by (simp add: power_add mult.commute)
  qed
  have "sorted_wrt (\<lambda>x y. resp_rank x \<le> resp_rank y) (sort ?d)"
  proof (rule sorted_wrt_mono_rel [of _ "(\<le>)"])
    fix x y assume "x \<in> set (sort ?d)" "y \<in> set (sort ?d)" "x \<le> y"
    then show "resp_rank x \<le> resp_rank y" using range by (simp add: resp_rank_range zdiv_mono1)
  qed simp
  then show "sorted (map resp_rank (sort ?d))" by (simp add: sorted_wrt_map)
qed

lemma ideal_pifo_passes:
  "\<exists>tb'. push_all_pop_all ideal_push ideal_pop ranks \<lparr>tb_dut = [], tb_struct = RankMeta_init\<rparr> = Inr tb'"
proof -
  let ?t = "push_from ideal_push 0 ranks \<lparr>tb_dut = [], tb_struct = RankMeta_init\<rparr>"
  have m: "tb_match ?t"
    by (rule tb_match_push_from) (simp add: tb_match_def RankMeta_init_def)
  then have h: "heap_ok (tb_dut ?t)" "heap_ok (tb_struct ?t)" and
      ms: "mset (tb_dut ?t) = mset (map (\<lambda>(r, m). req_word r m) (tb_struct ?t))"
    by (auto simp: tb_match_def)
  have len: "length (tb_struct ?t) = length ranks" "length (tb_dut ?t) = length ranks"
  proof -
    have "mset (map fst (tb_struct ?t)) = mset (map (\<lambda>r. r AND (push_bit PTW 1 - 1)) ranks)"
      using push_from_struct [of "\<lparr>tb_dut = [], tb_struct = RankMeta_init\<rparr>" ideal_push 0 ranks]
      by (simp add: RankMeta_init_def)
    from arg_cong [OF this, of size] show "length (tb_struct ?t) = length ranks" by simp
    with arg_cong [OF ms, of size] show "length (tb_dut ?t) = length ranks" by simp
  qed
  have "dut_pops ideal_pop (length ranks) (tb_dut ?t) = sort (tb_dut ?t)"
    using ideal_pops [OF h(1), of "length ranks"] len(2) by simp
  with pop_times_iff [OF h(2) len(1), of ideal_pop] tb_match_ranks [OF m]
  show ?thesis by (simp add: push_all_pop_all_def)
qed

text \<open>The reference queue is a priority queue: filling it and emptying it sorts.\<close>

lemma rank_queue_sorts:
  "\<exists>q'. heapq.drain (length xs) (fold (\<lambda>x q. RankMeta_insert q (fst x) (snd x)) xs RankMeta_init) =
     Inr (sort xs, q')"
proof -
  have "(\<lambda>x q. RankMeta_insert q (fst x) (snd x)) = (\<lambda>x q. heappush q x)"
    by (intro ext) (simp add: RankMeta_insert_def)
  then show ?thesis using heapq.sort_by_queue [of "[] :: rank_meta" xs] by (simp add: RankMeta_init_def)
qed

section \<open>The test of one level\<close>

text \<open>
  \<open>push_all_pop_all\<close> of \<open>tb/PIFO/test_PIFO_SRAM_Level_1.py\<close>, whose reference queue is the same: its
  loops run once whatever \<open>num\<close> is, so that there is one push, one pop, and that once more.
\<close>

definition level1_push_pop ::
    "('d \<Rightarrow> int \<Rightarrow> 'd) \<Rightarrow> ('d \<Rightarrow> int \<times> 'd) \<Rightarrow> int \<Rightarrow> 'd tb \<Rightarrow> exn + 'd tb" where
  "level1_push_pop dpush dpop r tb =
     TB_pop_check dpop (TB_push dpush (r AND (push_bit PTW 1 - 1)) (push_meta 0) tb)"

definition level1_push_all_pop_all ::
    "('d \<Rightarrow> int \<Rightarrow> 'd) \<Rightarrow> ('d \<Rightarrow> int \<times> 'd) \<Rightarrow> nat \<Rightarrow> int \<Rightarrow> int \<Rightarrow> 'd tb \<Rightarrow> exn + 'd tb" where
  "level1_push_all_pop_all dpush dpop num r1 r2 tb =
     (case level1_push_pop dpush dpop r1 tb of Inl e \<Rightarrow> Inl e | Inr tb' \<Rightarrow> level1_push_pop dpush dpop r2 tb')"

lemma heappop_single: "heappop [x] = Inr (x, [])" for x :: "'a :: linorder"
  using heappop_ok [of "[x]"] by (force simp: heap_ok_def)

lemma heappush_empty: "heappush [] x = [x]" for x :: "'a :: linorder"
  using heappush_ok(2) [of "[]" x] by (simp add: heap_ok_def)

lemma level1_push_pop_run:
  assumes "tb_struct tb = []"
  shows "level1_push_pop dpush dpop r tb =
    (let rank = r AND (push_bit PTW 1 - 1); (w, d) = dpop (dpush (tb_dut tb) (req_word rank (push_meta 0)))
     in if resp_rank w = rank then Inr (tb\<lparr>tb_dut := d\<rparr>) else Inl (ValueError ''not minimum rank''))"
  using assms by (cases tb) (simp add: level1_push_pop_def TB_pop_check_def TB_pop_def TB_push_def Let_def RankMeta_insert_def
      heappush_empty heappop_single check_and_remove_min_def split: prod.split)

text \<open>A hardware that keeps the last word only, and orders nothing, passes.\<close>

lemma level1_tests_no_order:
  "level1_push_all_pop_all (\<lambda>_ w. w) (\<lambda>w. (w, w)) num r1 r2 \<lparr>tb_dut = d, tb_struct = RankMeta_init\<rparr> =
     Inr \<lparr>tb_dut = req_word (r2 AND (push_bit PTW 1 - 1)) (push_meta 0), tb_struct = RankMeta_init\<rparr>"
proof -
  have m: "0 \<le> push_meta 0" "push_meta 0 < 2 ^ MTW" by (simp_all only: push_meta_def low_mask)
  have r: "resp_rank (req_word (r AND (push_bit PTW 1 - 1)) (push_meta 0)) = r AND (push_bit PTW 1 - 1)" for r
    using low_mask [of r PTW] m by (intro resp_req_word(1)) simp_all
  show ?thesis
    unfolding level1_push_all_pop_all_def by (simp only: level1_push_pop_run RankMeta_init_def Let_def r prod.case
      sum.case tb.simps if_True simp_thms)
qed

end
