(* ===== verification/Qm_Check.thy ===== *)
theory Qm_Check
  imports Regs
begin

text \<open>
  The test of the transmit queue manager (\<open>tb/tx_queue_manager/test_tx_queue_manager.py\<close>): one queue
  by hand, then 200 rounds of random enqueue, dequeue and commit operations on 16 queues, with the
  bench's own count of what is in them. The hardware is the parameter \<open>qm_dut\<close>, one function per
  bus transaction on a state of its own; a \<open>recv\<close> that never returns is \<open>None\<close>, and the result of a
  test that waits for ever is \<open>NoFuel\<close>. The random numbers are arguments; one that is not drawn is
  ignored. The theorems say what the bench keeps count of, on any hardware, when it stops dequeuing,
  and which answers of a queue manager it accepts.
\<close>

section \<open>The hardware\<close>

record qm_doorbell =
  qdb_queue :: int
  qdb_tag :: int
  qdb_rank :: int
  qdb_wqe :: int

record dequeue_resp =
  dr_queue :: int
  dr_ptr :: int
  dr_phase :: int
  dr_addr :: int
  dr_block_size :: int
  dr_cpl :: int
  dr_tag :: int
  dr_op_tag :: int
  dr_wqe :: int
  dr_empty :: bool
  dr_error :: bool

text \<open>
  \<open>axil_master\<close> (two widths), \<open>doorbell_sink\<close>, \<open>pifo_comp_source\<close> (queue and tag, the tag left out
  once), \<open>dequeue_req_source\<close> (queue, wqe, tag), \<open>dequeue_resp_sink\<close>, \<open>dequeue_commit_source\<close>, the
  reset, the \<open>enable\<close> signal and the passing of time.
\<close>

record 'd qm_dut =
  qd_write_dword :: "int \<Rightarrow> int \<Rightarrow> 'd \<Rightarrow> 'd"
  qd_write_qword :: "int \<Rightarrow> int \<Rightarrow> 'd \<Rightarrow> 'd"
  qd_read_dword :: "int \<Rightarrow> 'd \<Rightarrow> int \<times> 'd"
  qd_read_qword :: "int \<Rightarrow> 'd \<Rightarrow> int \<times> 'd"
  qd_doorbell_recv :: "'d \<Rightarrow> qm_doorbell option \<times> 'd"
  qd_pifo_comp_send :: "int \<Rightarrow> int option \<Rightarrow> 'd \<Rightarrow> 'd"
  qd_req_send :: "int \<Rightarrow> int \<Rightarrow> int \<Rightarrow> 'd \<Rightarrow> 'd"
  qd_resp_recv :: "'d \<Rightarrow> dequeue_resp option \<times> 'd"
  qd_commit_send :: "int \<Rightarrow> 'd \<Rightarrow> 'd"
  qd_reset :: "'d \<Rightarrow> 'd"
  qd_enable :: "'d \<Rightarrow> 'd"
  qd_wait :: "'d \<Rightarrow> 'd"

section \<open>The state of the bench\<close>

definition NUM_QUEUES :: nat where "NUM_QUEUES = 16"
definition OP_TABLE_SIZE :: nat where "OP_TABLE_SIZE = 32"
definition MAX_INFLIGHT :: int where "MAX_INFLIGHT = 16"
definition QM_PTW :: nat where "QM_PTW = 13"

text \<open>
  The variables of \<open>run_test\<close> that live from one phase to the next; \<open>commit_list\<close> holds
  (queue, operation tag, rank, wqe).
\<close>

record 'd qm_bench =
  qm_hw :: 'd
  queue_prod_ptr :: "int list"
  queue_cons_ptr :: "int list"
  queue_depth :: "int list"
  queue_uncommit_depth :: "int list"
  queue_inflight :: "int list"
  qm_op :: int
  commit_list :: "(nat \<times> int \<times> int \<times> int) list"
  current_tag :: int
  qm_wqe :: int

definition dut_do :: "('d \<Rightarrow> 'd) \<Rightarrow> ('d qm_bench, unit) M" where
  "dut_do f = modifies (\<lambda>s. s\<lparr>qm_hw := f (qm_hw s)\<rparr>)"

definition dut_ask :: "('d \<Rightarrow> 'a \<times> 'd) \<Rightarrow> ('d qm_bench, 'a) M" where
  "dut_ask f = (\<lambda>s. (Inr (fst (f (qm_hw s))), s\<lparr>qm_hw := snd (f (qm_hw s))\<rparr>))"

definition dut_recv :: "('d \<Rightarrow> 'a option \<times> 'd) \<Rightarrow> ('d qm_bench, 'a) M" where
  "dut_recv f = bnd (dut_ask f) (\<lambda>x. case x of None \<Rightarrow> throw NoFuel | Some y \<Rightarrow> ret y)"

definition qm_reg :: "nat \<Rightarrow> int \<Rightarrow> int" where
  "qm_reg k r = int k * 32 + r"

definition qm_write :: "'d qm_dut \<Rightarrow> nat \<Rightarrow> int \<Rightarrow> int \<Rightarrow> ('d qm_bench, unit) M" where
  "qm_write H k r v = dut_do (qd_write_dword H (qm_reg k r) v)"

definition qm_read :: "'d qm_dut \<Rightarrow> nat \<Rightarrow> int \<Rightarrow> ('d qm_bench, int) M" where
  "qm_read H k r = dut_ask (qd_read_dword H (qm_reg k r))"

section \<open>One queue by hand\<close>

text \<open>The programming of a queue: \<open>k\<close>, its base address, completion queue and both pointers.\<close>

definition qm_init_queue :: "'d qm_dut \<Rightarrow> nat \<Rightarrow> int \<Rightarrow> int \<Rightarrow> int \<Rightarrow> ('d qm_bench, unit) M" where
  "qm_init_queue H k base cqn ptr = seqm
     [qm_write H k MQNIC_QUEUE_CTRL_STATUS_REG (MQNIC_QUEUE_CMD_SET_ENABLE OR 0),
      dut_do (qd_write_qword H (qm_reg k MQNIC_QUEUE_BASE_ADDR_VF_REG) base),
      qm_write H k MQNIC_QUEUE_CTRL_STATUS_REG (MQNIC_QUEUE_CMD_SET_VF_ID OR 0),
      qm_write H k MQNIC_QUEUE_CTRL_STATUS_REG (MQNIC_QUEUE_CMD_SET_SIZE OR 4),
      qm_write H k MQNIC_QUEUE_CTRL_STATUS_REG (MQNIC_QUEUE_CMD_SET_CQN OR cqn),
      qm_write H k MQNIC_QUEUE_CTRL_STATUS_REG (MQNIC_QUEUE_CMD_SET_PROD_PTR OR ptr),
      qm_write H k MQNIC_QUEUE_CTRL_STATUS_REG (MQNIC_QUEUE_CMD_SET_CONS_PTR OR ptr),
      qm_write H k MQNIC_QUEUE_CTRL_STATUS_REG (MQNIC_QUEUE_CMD_SET_ENABLE OR 1)]"

text \<open>Rank and number of entries, then the pointer.\<close>

definition qm_post :: "'d qm_dut \<Rightarrow> nat \<Rightarrow> int \<Rightarrow> int \<Rightarrow> int \<Rightarrow> ('d qm_bench, unit) M" where
  "qm_post H q rank wqe ptr =
     sq (qm_write H q MQNIC_QUEUE_RANK_WQE (push_bit 3 rank OR wqe))
        (qm_write H q MQNIC_QUEUE_CTRL_STATUS_REG (MQNIC_QUEUE_CMD_SET_PROD_PTR OR ptr))"

definition qm_doorbell_check :: "'d qm_dut \<Rightarrow> nat \<Rightarrow> int \<Rightarrow> int \<Rightarrow> ('d qm_bench, qm_doorbell) M" where
  "qm_doorbell_check H q rank wqe =
     bnd (dut_recv (qd_doorbell_recv H)) (\<lambda>db.
     sq (assertM (qdb_queue db = int q) ''doorbell'')
    (sq (assertM (qdb_rank db = rank) ''doorbell'')
    (sq (assertM (qdb_wqe db = wqe) ''doorbell'')
        (ret db))))"

text \<open>\<open>~(ptr >> 4) & 1\<close>.\<close>

definition qm_phase :: "int \<Rightarrow> int" where
  "qm_phase ptr = not (drop_bit 4 ptr) AND 1"

text \<open>
  Request, response with its checks, commit, and the consumer pointer read back. The two dequeues of
  the test make the same checks in different orders, so one message stands for all.
\<close>

definition qm_directed_base :: int where
  "qm_directed_base = 0x8877665544332000"

definition qm_directed_dequeue :: "'d qm_dut \<Rightarrow> int \<Rightarrow> int \<Rightarrow> ('d qm_bench, int) M" where
  "qm_directed_dequeue H cons_ptr wqe =
     sq (dut_do (qd_req_send H 0 wqe 1))
    (bnd (dut_recv (qd_resp_recv H)) (\<lambda>resp.
     sq (assertM (dr_queue resp = 0 \<and> dr_ptr resp = cons_ptr \<and> dr_phase resp = qm_phase (dr_ptr resp) \<and>
          dr_addr resp = qm_directed_base + (dr_ptr resp AND 0xF) * 16 \<and> dr_block_size resp = 0 \<and>
          dr_cpl resp = 1 \<and> dr_tag resp = 1 \<and> dr_wqe resp = wqe \<and> \<not> dr_empty resp \<and> \<not> dr_error resp)
          ''dequeue response'')
    (sq (dut_do (qd_commit_send H (dr_op_tag resp)))
    (sq (dut_do (qd_wait H))
    (bnd (qm_read H 0 MQNIC_QUEUE_PTR_REG) (\<lambda>w.
     sq (assertM (drop_bit 16 w - cons_ptr = wqe) ''consumer pointer'')
        (ret (drop_bit 16 w))))))))"

text \<open>It ends with the last producer pointer written and the last consumer pointer read.\<close>

definition qm_directed :: "'d qm_dut \<Rightarrow> ('d qm_bench, int \<times> int) M" where
  "qm_directed H =
     sq (qm_init_queue H 0 qm_directed_base 1 0)
    (bnd (dut_ask (qd_read_qword H (qm_reg 0 MQNIC_QUEUE_BASE_ADDR_VF_REG))) (\<lambda>b.
     sq (assertM (b = qm_directed_base) ''base address'')
    (bnd (qm_read H 0 MQNIC_QUEUE_CTRL_STATUS_REG) (\<lambda>c.
     sq (assertM (c = MQNIC_QUEUE_ENABLE_MASK) ''status'')
    (bnd (qm_read H 0 MQNIC_QUEUE_SIZE_CQN_REG) (\<lambda>z.
     sq (assertM (z = 0x04000001) ''size'')
    (bnd (qm_read H 0 MQNIC_QUEUE_PTR_REG) (\<lambda>w0. let p0 = w0 AND MQNIC_QUEUE_PTR_MASK in
     sq (qm_post H 0 1 1 (p0 + 1))
    (bnd (qm_doorbell_check H 0 1 1) (\<lambda>_.
     bnd (qm_read H 0 MQNIC_QUEUE_PTR_REG) (\<lambda>w1.
     sq (qm_post H 0 2 4 (p0 + 2))
    (sq (dut_do (qd_pifo_comp_send H 0 None))
    (bnd (qm_doorbell_check H 0 2 4) (\<lambda>db.
     sq (dut_do (qd_pifo_comp_send H (qdb_queue db) (Some (qdb_tag db))))
    (bnd (qm_directed_dequeue H (drop_bit 16 w1) 4) (\<lambda>c1.
     bnd (qm_directed_dequeue H c1 4) (\<lambda>c2.
     sq (modifies (\<lambda>s. s\<lparr>qm_wqe := 4\<rparr>))
        (ret (p0 + 2, c2)))))))))))))))))))"

section \<open>The random workload\<close>

definition qm_init_all :: "'d qm_dut \<Rightarrow> ('d qm_bench, unit) M" where
  "qm_init_all H = forM [0..<NUM_QUEUES] (\<lambda>k.
     qm_init_queue H k (0x5555555555000000 + 0x10000 * int k) (int k) 0xfff0)"

definition qm_start :: "'d qm_bench \<Rightarrow> 'd qm_bench" where
  "qm_start s = s\<lparr>queue_prod_ptr := replicate NUM_QUEUES 0xfff0, queue_cons_ptr := replicate NUM_QUEUES 0xfff0,
     queue_depth := replicate NUM_QUEUES 0, queue_uncommit_depth := replicate NUM_QUEUES 0,
     queue_inflight := replicate NUM_QUEUES 0, qm_op := 0, commit_list := [], current_tag := 1\<rparr>"

text \<open>One attempt to enqueue: the queue and the random bits of the rank.\<close>

definition qm_try_enqueue :: "'d qm_dut \<Rightarrow> nat \<times> int \<Rightarrow> ('d qm_bench, unit) M" where
  "qm_try_enqueue H = (\<lambda>(q, bits). bnd (gets id) (\<lambda>s.
     if queue_inflight s ! q \<ge> MAX_INFLIGHT then ret ()
     else if queue_depth s ! q < 16 then
       bnd (qm_read H q MQNIC_QUEUE_PTR_REG) (\<lambda>w. let prod_ptr = w AND MQNIC_QUEUE_PTR_MASK in
       sq (assertM (prod_ptr = queue_prod_ptr s ! q) ''producer pointer'')
      (let rank = bits AND (push_bit QM_PTW 1 - 1); wqe = 4;
           new = (prod_ptr + wqe) AND MQNIC_QUEUE_PTR_MASK in
       sq (modifies (\<lambda>s. s\<lparr>qm_wqe := wqe\<rparr>))
      (sq (qm_write H q MQNIC_QUEUE_RANK_WQE (push_bit 3 rank OR wqe))
      (sq (modifies (\<lambda>s. s\<lparr>queue_prod_ptr := (queue_prod_ptr s)[q := new],
            queue_depth := (queue_depth s)[q := queue_depth s ! q + 1],
            queue_uncommit_depth := (queue_uncommit_depth s)[q := queue_uncommit_depth s ! q + 1],
            queue_inflight := (queue_inflight s)[q := queue_inflight s ! q + 1]\<rparr>))
      (sq (qm_write H q MQNIC_QUEUE_CTRL_STATUS_REG (MQNIC_QUEUE_CMD_SET_PROD_PTR OR new))
      (bnd (qm_doorbell_check H q rank wqe) (\<lambda>db.
           dut_do (qd_pifo_comp_send H (qdb_queue db) (Some (qdb_tag db))))))))))
     else ret ()))"

text \<open>The checks of a response, and what is noted of it.\<close>

definition qm_resp_ok :: "'d qm_bench \<Rightarrow> nat \<Rightarrow> dequeue_resp \<Rightarrow> bool" where
  "qm_resp_ok s q resp \<longleftrightarrow> dr_queue resp = int q \<and> dr_ptr resp = queue_cons_ptr s ! q \<and>
     dr_phase resp = qm_phase (dr_ptr resp) \<and> drop_bit 16 (dr_addr resp) AND 0xf = int q \<and>
     drop_bit 4 (dr_addr resp) AND 0xf = queue_cons_ptr s ! q AND 0xf \<and> \<not> dr_error resp \<and>
     dr_tag resp = current_tag s \<and> dr_wqe resp = qm_wqe s"

definition qm_take :: "nat \<Rightarrow> int \<Rightarrow> dequeue_resp \<Rightarrow> 'd qm_bench \<Rightarrow> 'd qm_bench" where
  "qm_take q rank resp s = s\<lparr>qm_wqe := 4, commit_list := commit_list s @ [(q, dr_op_tag resp, rank, 4)],
     queue_cons_ptr := (queue_cons_ptr s)[q := (queue_cons_ptr s ! q + 4) AND MQNIC_QUEUE_PTR_MASK],
     queue_uncommit_depth := (queue_uncommit_depth s)[q := queue_uncommit_depth s ! q - 1]\<rparr>"

text \<open>One attempt to dequeue: the queue and the rank that is noted.\<close>

definition qm_try_dequeue :: "'d qm_dut \<Rightarrow> nat \<times> int \<Rightarrow> ('d qm_bench, unit) M" where
  "qm_try_dequeue H = (\<lambda>(q, rank).
     sq (modifies (\<lambda>s. s\<lparr>qm_op := qm_op s + 1\<rparr>)) (bnd (gets id) (\<lambda>s.
     if qm_op s \<ge> MAX_INFLIGHT then ret ()
     else if length (commit_list s) < OP_TABLE_SIZE \<and> queue_uncommit_depth s ! q > 0 then
       sq (dut_do (qd_req_send H (int q) (qm_wqe s) (current_tag s)))
      (bnd (dut_recv (qd_resp_recv H)) (\<lambda>resp.
       sq (assertM (qm_resp_ok s q resp) ''dequeue response'')
      (sq (if \<not> dr_empty resp then modifies (qm_take q rank resp) else ret ())
          (modifies (\<lambda>s. s\<lparr>current_tag := (current_tag s + 1) mod 256\<rparr>)))))
     else ret ())))"

definition qm_try_commit :: "'d qm_dut \<Rightarrow> ('d qm_bench, unit) M" where
  "qm_try_commit H = bnd (gets commit_list) (\<lambda>cl.
     case cl of [] \<Rightarrow> ret ()
     | (q, op_tag, rank, wqe) # rest \<Rightarrow>
         sq (modifies (\<lambda>s. s\<lparr>qm_op := qm_op s - 1, commit_list := rest, qm_wqe := wqe\<rparr>))
        (sq (dut_do (qd_commit_send H op_tag))
            (modifies (\<lambda>s. s\<lparr>queue_depth := (queue_depth s)[q := queue_depth s ! q - 1],
               queue_inflight := (queue_inflight s)[q := queue_inflight s ! q - 1]\<rparr>))))"

text \<open>The draws of one of the 200 rounds: attempts to enqueue, to dequeue and to commit.\<close>

type_synonym qm_draws = "(nat \<times> int) list \<times> (nat \<times> int) list \<times> nat"

definition qm_round :: "'d qm_dut \<Rightarrow> qm_draws \<Rightarrow> ('d qm_bench, unit) M" where
  "qm_round H = (\<lambda>(es, ds, c).
     sq (forM es (qm_try_enqueue H)) (sq (forM ds (qm_try_dequeue H)) (forM [0..<c] (\<lambda>_. qm_try_commit H))))"

definition qm_rounds :: "'d qm_dut \<Rightarrow> qm_draws list \<Rightarrow> ('d qm_bench, unit) M" where
  "qm_rounds H rs = forM rs (qm_round H)"

definition qm_run_test :: "'d qm_dut \<Rightarrow> qm_draws list \<Rightarrow> ('d qm_bench, unit) M" where
  "qm_run_test H rs =
     sq (dut_do (qd_reset H)) (sq (dut_do (qd_enable H)) (bnd (qm_directed H) (\<lambda>_.
     sq (qm_init_all H) (sq (modifies qm_start) (sq (qm_rounds H rs) (dut_do (qd_wait H)))))))"

text \<open>What \<open>randrange\<close> can give.\<close>

definition qm_draws_ok :: "qm_draws \<Rightarrow> bool" where
  "qm_draws_ok = (\<lambda>(es, ds, c). length es < 8 \<and> length ds < 8 \<and> c < 8 \<and>
     (\<forall>(q, b) \<in> set es. q < NUM_QUEUES) \<and> (\<forall>(q, b) \<in> set ds. q < NUM_QUEUES))"

section \<open>What a step does to the bench\<close>

lemmas qm_steps = dut_do_def dut_ask_def dut_recv_def qm_write_def qm_read_def

lemma run_dut_do [run_simps]: "dut_do f s = (Inr (), s\<lparr>qm_hw := f (qm_hw s)\<rparr>)"
  by (simp add: dut_do_def)

lemma run_dut_ask [run_simps]: "dut_ask f s = (Inr (fst (f (qm_hw s))), s\<lparr>qm_hw := snd (f (qm_hw s))\<rparr>)"
  by (simp add: dut_ask_def)

lemma run_dut_recv [run_simps]:
  "dut_recv f s = ((case fst (f (qm_hw s)) of None \<Rightarrow> Inl NoFuel | Some x \<Rightarrow> Inr x),
     s\<lparr>qm_hw := snd (f (qm_hw s))\<rparr>)"
  by (simp add: dut_recv_def run_simps split: option.split)

lemma run_qm_write [run_simps]:
  "qm_write H k r v s = (Inr (), s\<lparr>qm_hw := qd_write_dword H (qm_reg k r) v (qm_hw s)\<rparr>)"
  by (simp add: qm_write_def run_simps)

lemma run_qm_read [run_simps]:
  "qm_read H k r s = (Inr (fst (qd_read_dword H (qm_reg k r) (qm_hw s))),
     s\<lparr>qm_hw := snd (qd_read_dword H (qm_reg k r) (qm_hw s))\<rparr>)"
  by (simp add: qm_read_def run_simps)

text \<open>A check of a doorbell changes the hardware only.\<close>

lemma run_doorbell_check:
  "\<exists>r. qm_doorbell_check H q rank wqe s = (r, s\<lparr>qm_hw := snd (qd_doorbell_recv H (qm_hw s))\<rparr>) \<and>
     (\<forall>db. r = Inr db \<longleftrightarrow> fst (qd_doorbell_recv H (qm_hw s)) = Some db \<and>
        qdb_queue db = int q \<and> qdb_rank db = rank \<and> qdb_wqe db = wqe)"
  by (cases "fst (qd_doorbell_recv H (qm_hw s))") (auto simp: qm_doorbell_check_def run_simps)

text \<open>The bench's account of an enqueue.\<close>

definition qm_enq :: "nat \<Rightarrow> 'd qm_bench \<Rightarrow> 'd qm_bench" where
  "qm_enq q s = s\<lparr>qm_wqe := 4,
     queue_prod_ptr := (queue_prod_ptr s)[q := (queue_prod_ptr s ! q + 4) AND MQNIC_QUEUE_PTR_MASK],
     queue_depth := (queue_depth s)[q := queue_depth s ! q + 1],
     queue_uncommit_depth := (queue_uncommit_depth s)[q := queue_uncommit_depth s ! q + 1],
     queue_inflight := (queue_inflight s)[q := queue_inflight s ! q + 1]\<rparr>"

lemma qm_try_enqueue_cases:
  obtains d r where "qm_try_enqueue H (q, bits) s = (r, s\<lparr>qm_hw := d\<rparr>)"
  | d r where "qm_try_enqueue H (q, bits) s = (r, (qm_enq q s)\<lparr>qm_hw := d\<rparr>)"
      "queue_inflight s ! q < MAX_INFLIGHT" "queue_depth s ! q < 16"
proof -
  let ?w = "qd_read_dword H (qm_reg q MQNIC_QUEUE_PTR_REG) (qm_hw s)"
  show ?thesis
  proof (cases "queue_inflight s ! q < MAX_INFLIGHT \<and> queue_depth s ! q < 16 \<and>
      fst ?w AND MQNIC_QUEUE_PTR_MASK = queue_prod_ptr s ! q")
    case False
    then have "\<exists>r d. qm_try_enqueue H (q, bits) s = (r, s\<lparr>qm_hw := d\<rparr>)"
      by (auto simp: qm_try_enqueue_def run_simps Let_def intro: exI [of _ "qm_hw s"])
    with that(1) show ?thesis by blast
  next
    case True
    let ?rank = "bits AND (push_bit QM_PTW 1 - 1)" and ?p = "(queue_prod_ptr s ! q + 4) AND MQNIC_QUEUE_PTR_MASK"
    let ?h = "qd_write_dword H (qm_reg q MQNIC_QUEUE_CTRL_STATUS_REG) (MQNIC_QUEUE_CMD_SET_PROD_PTR OR ?p)
        (qd_write_dword H (qm_reg q MQNIC_QUEUE_RANK_WQE) (push_bit 3 ?rank OR 4) (snd ?w))"
    obtain r where "qm_doorbell_check H q ?rank 4 ((qm_enq q s)\<lparr>qm_hw := ?h\<rparr>) =
        (r, (qm_enq q s)\<lparr>qm_hw := snd (qd_doorbell_recv H ?h)\<rparr>)"
      using run_doorbell_check [of H q ?rank 4 "(qm_enq q s)\<lparr>qm_hw := ?h\<rparr>"] by auto
    with True have "\<exists>r d. qm_try_enqueue H (q, bits) s = (r, (qm_enq q s)\<lparr>qm_hw := d\<rparr>)"
      by (cases r) (auto simp: qm_try_enqueue_def run_simps Let_def qm_enq_def)
    with True that(2) show ?thesis by blast
  qed
qed

lemma qm_try_dequeue_cases:
  obtains (skip) "qm_try_dequeue H (q, rank) s = (Inr (), s\<lparr>qm_op := qm_op s + 1\<rparr>)"
  | (fail) e d where "qm_try_dequeue H (q, rank) s = (Inl e, s\<lparr>qm_op := qm_op s + 1, qm_hw := d\<rparr>)"
      "qm_op s + 1 < MAX_INFLIGHT"
  | (empty) d where "qm_try_dequeue H (q, rank) s = (Inr (),
      s\<lparr>qm_op := qm_op s + 1, qm_hw := d, current_tag := (current_tag s + 1) mod 256\<rparr>)"
      "qm_op s + 1 < MAX_INFLIGHT"
  | (took) d resp where "qm_try_dequeue H (q, rank) s = (Inr (), (qm_take q rank resp s)
      \<lparr>qm_op := qm_op s + 1, qm_hw := d, current_tag := (current_tag s + 1) mod 256\<rparr>)"
      "qm_op s + 1 < MAX_INFLIGHT" "queue_uncommit_depth s ! q > 0"
proof (cases "qm_op s + 1 < MAX_INFLIGHT \<and> length (commit_list s) < OP_TABLE_SIZE \<and> queue_uncommit_depth s ! q > 0")
  case False
  then show thesis by (intro skip) (auto simp: qm_try_dequeue_def run_simps)
next
  case True
  let ?s = "s\<lparr>qm_op := qm_op s + 1\<rparr>"
  let ?h = "qd_req_send H (int q) (qm_wqe s) (current_tag s) (qm_hw s)"
  let ?r = "qd_resp_recv H ?h"
  show thesis
  proof (cases "fst ?r")
    case None
    with True show thesis by (intro fail [of NoFuel "snd ?r"]) (auto simp: qm_try_dequeue_def run_simps)
  next
    case (Some resp)
    show thesis
    proof (cases "qm_resp_ok ?s q resp")
      case False
      with True Some show thesis
        by (intro fail [of "AssertionError ''dequeue response''" "snd ?r"])
          (auto simp: qm_try_dequeue_def run_simps)
    next
      case ok: True
      show thesis
      proof (cases "dr_empty resp")
        case e: True
        with True Some ok show thesis by (intro empty [of "snd ?r"]) (auto simp: qm_try_dequeue_def run_simps)
      next
        case False
        with True Some ok show thesis
          by (intro took [of "snd ?r" resp]) (auto simp: qm_try_dequeue_def run_simps qm_take_def)
      qed
    qed
  qed
qed

lemma qm_try_commit_run:
  "qm_try_commit H s = (case commit_list s of [] \<Rightarrow> (Inr (), s)
   | (q, op_tag, rank, wqe) # rest \<Rightarrow> (Inr (), s\<lparr>qm_op := qm_op s - 1, commit_list := rest, qm_wqe := wqe,
       qm_hw := qd_commit_send H op_tag (qm_hw s), queue_depth := (queue_depth s)[q := queue_depth s ! q - 1],
       queue_inflight := (queue_inflight s)[q := queue_inflight s ! q - 1]\<rparr>))"
  by (auto simp: qm_try_commit_def run_simps split: list.split)

section \<open>The account is right on any hardware\<close>

text \<open>
  Of one queue: what has been enqueued is not yet dequeued or waits for its commit, at most 16 in
  all, and the pointers are four entries apart for each that is not dequeued.
\<close>

definition qm_queue_ok :: "'d qm_bench \<Rightarrow> nat \<Rightarrow> bool" where
  "qm_queue_ok s q \<longleftrightarrow> 0 \<le> queue_uncommit_depth s ! q \<and>
     queue_depth s ! q = queue_uncommit_depth s ! q + int (count_list (map fst (commit_list s)) q) \<and>
     queue_inflight s ! q = queue_depth s ! q \<and> queue_depth s ! q \<le> 16 \<and>
     queue_prod_ptr s ! q \<in> {0..<65536} \<and> queue_cons_ptr s ! q \<in> {0..<65536} \<and>
     65536 dvd queue_prod_ptr s ! q - queue_cons_ptr s ! q - 4 * queue_uncommit_depth s ! q"

definition qm_inv :: "'d qm_bench \<Rightarrow> bool" where
  "qm_inv s \<longleftrightarrow> length (queue_prod_ptr s) = NUM_QUEUES \<and> length (queue_cons_ptr s) = NUM_QUEUES \<and>
     length (queue_depth s) = NUM_QUEUES \<and> length (queue_uncommit_depth s) = NUM_QUEUES \<and>
     length (queue_inflight s) = NUM_QUEUES \<and> (\<forall>q < NUM_QUEUES. qm_queue_ok s q) \<and>
     (\<forall>(q, t, r, w) \<in> set (commit_list s). q < NUM_QUEUES \<and> w = 4) \<and> qm_wqe s = 4 \<and>
     current_tag s \<in> {0..<256} \<and> int (length (commit_list s)) \<le> qm_op s \<and> length (commit_list s) < 16"

lemma qm_inv_hw [simp]: "qm_inv (s\<lparr>qm_hw := d\<rparr>) = qm_inv s"
  by (simp add: qm_inv_def qm_queue_ok_def)

lemma qm_inv_start [simp]: "qm_inv (qm_start s) \<longleftrightarrow> qm_wqe s = 4"
  by (simp add: qm_inv_def qm_queue_ok_def qm_start_def)

lemma ptr_dvd_enq:
  fixes p c u :: int
  assumes "65536 dvd p - c - 4 * u"
  shows "65536 dvd (p + 4) mod 65536 - c - 4 * (u + 1)"
proof -
  have "(p + 4) mod 65536 - c - 4 * (u + 1) = (p - c - 4 * u) - 65536 * ((p + 4) div 65536)"
    by (simp only: minus_mult_div_eq_mod [symmetric]) simp
  with assms show ?thesis by (simp only: dvd_diff dvd_triv_left)
qed

lemma ptr_dvd_deq:
  fixes p c u :: int
  assumes "65536 dvd p - c - 4 * u"
  shows "65536 dvd p - (c + 4) mod 65536 - 4 * (u - 1)"
proof -
  have "p - (c + 4) mod 65536 - 4 * (u - 1) = (p - c - 4 * u) + 65536 * ((c + 4) div 65536)"
    by (simp only: minus_mult_div_eq_mod [symmetric]) simp
  with assms show ?thesis by (simp only: dvd_add dvd_triv_left)
qed

lemma qm_inv_enq:
  assumes inv: "qm_inv s" and q: "q < NUM_QUEUES" and d: "queue_depth s ! q < 16"
  shows "qm_inv (qm_enq q s)"
proof -
  have "qm_queue_ok (qm_enq q s) k" if k: "k < NUM_QUEUES" for k
  proof -
    have o: "qm_queue_ok s k" using inv k by (simp add: qm_inv_def)
    show ?thesis
    proof (cases "k = q")
      case True
      with o d k inv ptr_dvd_enq [of "queue_prod_ptr s ! q" "queue_cons_ptr s ! q" "queue_uncommit_depth s ! q"]
      show ?thesis by (simp add: qm_queue_ok_def qm_enq_def qm_inv_def ptr_mask_mod)
    next
      case False
      with o show ?thesis by (simp add: qm_queue_ok_def qm_enq_def)
    qed
  qed
  with inv show ?thesis by (simp add: qm_inv_def qm_enq_def)
qed

lemma qm_inv_take:
  assumes inv: "qm_inv s" and q: "q < NUM_QUEUES" and u: "queue_uncommit_depth s ! q > 0"
    and op: "qm_op s + 1 < MAX_INFLIGHT"
  shows "qm_inv ((qm_take q rank resp s)\<lparr>qm_op := qm_op s + 1, qm_hw := d, current_tag := (current_tag s + 1) mod 256\<rparr>)"
    (is "qm_inv ?s")
proof -
  have "qm_queue_ok ?s k" if k: "k < NUM_QUEUES" for k
  proof -
    have o: "qm_queue_ok s k" using inv k by (simp add: qm_inv_def)
    show ?thesis
    proof (cases "k = q")
      case True
      with o u k inv ptr_dvd_deq [of "queue_prod_ptr s ! q" "queue_cons_ptr s ! q" "queue_uncommit_depth s ! q"]
      show ?thesis by (simp add: qm_queue_ok_def qm_take_def qm_inv_def ptr_mask_mod)
    next
      case False
      with o show ?thesis by (simp add: qm_queue_ok_def qm_take_def)
    qed
  qed
  moreover have "length (commit_list s) + 1 < 16" using inv op by (simp add: qm_inv_def MAX_INFLIGHT_def)
  ultimately show ?thesis using inv q by (auto simp: qm_inv_def qm_take_def)
qed

lemma qm_inv_commit:
  assumes inv: "qm_inv s"
  shows "qm_inv (snd (qm_try_commit H s))"
proof (cases "commit_list s")
  case Nil
  with inv show ?thesis by (simp add: qm_try_commit_run)
next
  case (Cons x rest)
  obtain q t r w where x: "x = (q, t, r, w)" by (cases x)
  have q: "q < NUM_QUEUES" "w = 4" using inv Cons x by (auto simp: qm_inv_def)
  let ?s = "snd (qm_try_commit H s)"
  have s: "?s = s\<lparr>qm_op := qm_op s - 1, commit_list := rest, qm_wqe := 4,
       qm_hw := qd_commit_send H t (qm_hw s), queue_depth := (queue_depth s)[q := queue_depth s ! q - 1],
       queue_inflight := (queue_inflight s)[q := queue_inflight s ! q - 1]\<rparr>"
    using Cons x q(2) by (simp add: qm_try_commit_run)
  have "qm_queue_ok ?s k" if k: "k < NUM_QUEUES" for k
  proof -
    have "qm_queue_ok s k" using inv k by (simp add: qm_inv_def)
    with k inv show ?thesis unfolding s by (cases "k = q") (simp_all add: qm_queue_ok_def qm_inv_def Cons x)
  qed
  with inv show ?thesis unfolding s by (auto simp: qm_inv_def Cons)
qed

lemma qm_inv_try_enqueue: "qm_inv s \<Longrightarrow> q < NUM_QUEUES \<Longrightarrow> qm_inv (snd (qm_try_enqueue H (q, b) s))"
  by (rule qm_try_enqueue_cases [of H q b s]) (auto simp: qm_inv_enq)

lemma qm_inv_op: "qm_inv s \<Longrightarrow> qm_inv (s\<lparr>qm_op := qm_op s + 1\<rparr>)"
    "qm_inv s \<Longrightarrow> qm_inv (s\<lparr>qm_op := qm_op s + 1, qm_hw := d\<rparr>)"
    "qm_inv s \<Longrightarrow> qm_inv (s\<lparr>qm_op := qm_op s + 1, qm_hw := d, current_tag := (current_tag s + 1) mod 256\<rparr>)"
  by (auto simp: qm_inv_def qm_queue_ok_def)

lemma qm_inv_try_dequeue: "qm_inv s \<Longrightarrow> q < NUM_QUEUES \<Longrightarrow> qm_inv (snd (qm_try_dequeue H (q, r) s))"
  by (rule qm_try_dequeue_cases [of H q r s]) (auto simp: qm_inv_op qm_inv_take)

lemma keeps_qm_steps:
  "q < NUM_QUEUES \<Longrightarrow> keeps qm_inv (qm_try_enqueue H (q, b))"
  "q < NUM_QUEUES \<Longrightarrow> keeps qm_inv (qm_try_dequeue H (q, b))"
  "keeps qm_inv (qm_try_commit H)"
  by (auto intro: keepsI qm_inv_try_enqueue qm_inv_try_dequeue qm_inv_commit)

lemma keeps_qm_round: "qm_draws_ok r \<Longrightarrow> keeps qm_inv (qm_round H r)"
  by (auto simp: qm_round_def qm_draws_ok_def intro!: keeps_sq keeps_forM keeps_qm_steps)

lemma keeps_qm_rounds: "list_all qm_draws_ok rs \<Longrightarrow> keeps qm_inv (qm_rounds H rs)"
  by (auto simp: qm_rounds_def list_all_iff intro!: keeps_forM keeps_qm_round)

text \<open>
  So the table of 16 operations of the hardware is never full, and the queue of the ring of
  \<open>2 ^ 4\<close> entries is filled with up to 64.
\<close>

lemma qm_outstanding:
  assumes "qm_inv s" "q < NUM_QUEUES"
  shows "length (commit_list s) \<le> 15" and "queue_depth s ! q \<in> {0..16}"
    and "(queue_prod_ptr s ! q - queue_cons_ptr s ! q) mod 65536 = 4 * queue_uncommit_depth s ! q"
proof -
  have o: "qm_queue_ok s q" using assms by (simp add: qm_inv_def)
  show "length (commit_list s) \<le> 15" using assms(1) by (simp add: qm_inv_def)
  show "queue_depth s ! q \<in> {0..16}" using o by (simp add: qm_queue_ok_def)
  have "(queue_prod_ptr s ! q - queue_cons_ptr s ! q) mod 65536 = (4 * queue_uncommit_depth s ! q) mod 65536"
    unfolding mod_eq_dvd_iff using o by (simp add: qm_queue_ok_def)
  also have "\<dots> = 4 * queue_uncommit_depth s ! q"
    using o by (intro mod_pos_pos_trivial) (auto simp: qm_queue_ok_def)
  finally show "(queue_prod_ptr s ! q - queue_cons_ptr s ! q) mod 65536 = 4 * queue_uncommit_depth s ! q" .
qed

section \<open>The bench gives up dequeuing\<close>

text \<open>
  \<open>op\<close> is raised by every attempt to dequeue and lowered by every commit, so that it exceeds the
  number of operations outstanding by the number of attempts that dequeued nothing.
\<close>

definition qm_gap :: "'d qm_bench \<Rightarrow> int" where
  "qm_gap s = qm_op s - int (length (commit_list s))"

lemma qm_gap_enqueue [simp]: "qm_gap (snd (qm_try_enqueue H x s)) = qm_gap s"
  by (cases x, rule qm_try_enqueue_cases [of H "fst x" "snd x" s]) (auto simp: qm_gap_def qm_enq_def)

lemma qm_gap_commit [simp]: "qm_gap (snd (qm_try_commit H s)) = qm_gap s"
  by (auto simp: qm_try_commit_run qm_gap_def split: list.split)

lemma qm_gap_dequeue: "qm_gap (snd (qm_try_dequeue H x s)) =
    (if commit_list (snd (qm_try_dequeue H x s)) = commit_list s then qm_gap s + 1 else qm_gap s)"
  by (cases x, rule qm_try_dequeue_cases [of H "fst x" "snd x" s]) (auto simp: qm_gap_def qm_take_def)

text \<open>From a gap of 15 on no attempt sends a request.\<close>

lemma qm_try_dequeue_idle:
  "15 \<le> qm_gap s \<Longrightarrow> qm_try_dequeue H x s = (Inr (), s\<lparr>qm_op := qm_op s + 1\<rparr>)"
  by (cases x) (simp add: qm_gap_def qm_try_dequeue_def run_simps MAX_INFLIGHT_def)

definition qm_given_up :: "int list \<Rightarrow> int \<Rightarrow> int list \<Rightarrow> 'd qm_bench \<Rightarrow> bool" where
  "qm_given_up cp t u s \<longleftrightarrow> 15 \<le> qm_gap s \<and> queue_cons_ptr s = cp \<and> current_tag s = t \<and>
     (\<forall>q. u ! q \<le> queue_uncommit_depth s ! q)"

lemma le_upd: "u \<le> xs ! k \<Longrightarrow> u \<le> xs[q := xs ! q + 1] ! k" for u :: int
  by (cases "k = q"; cases "q < length xs") (auto simp: list_update_beyond)

lemma given_up_enqueue:
  fixes H :: "'d qm_dut"
  shows "keeps (qm_given_up cp t u) (qm_try_enqueue H x)"
proof (rule keepsI)
  fix s :: "'d qm_bench" assume s: "qm_given_up cp t u s"
  obtain q b where x: "x = (q, b)" by (cases x)
  have "qm_given_up cp t u ((qm_enq q s)\<lparr>qm_hw := d\<rparr>)" for d
  proof -
    have "u ! k \<le> (queue_uncommit_depth s)[q := queue_uncommit_depth s ! q + 1] ! k" for k
      using s by (simp add: qm_given_up_def le_upd)
    with s show ?thesis by (simp add: qm_given_up_def qm_gap_def qm_enq_def)
  qed
  moreover have "qm_given_up cp t u (s\<lparr>qm_hw := d\<rparr>)" for d
    using s by (simp add: qm_given_up_def qm_gap_def)
  ultimately show "qm_given_up cp t u (snd (qm_try_enqueue H x s))"
    unfolding x by (rule_tac qm_try_enqueue_cases [of H q b s]) simp_all
qed

lemma given_up_dequeue: "keeps (qm_given_up cp t u) (qm_try_dequeue H x)"
  by (rule keepsI) (simp add: qm_given_up_def qm_try_dequeue_idle, simp add: qm_gap_def)

lemma given_up_commit: "keeps (qm_given_up cp t u) (qm_try_commit H)"
  by (rule keepsI) (auto simp: qm_given_up_def qm_gap_def qm_try_commit_run split: list.split)

text \<open>Operations that agree while an invariant holds.\<close>

lemma forM_agree:
  assumes "\<And>x s. x \<in> set xs \<Longrightarrow> P s \<Longrightarrow> f x s = g x s" "\<And>x. keeps P (f x)" "P s"
  shows "forM xs f s = forM xs g s"
  using assms
proof (induction xs arbitrary: s)
  case (Cons x xs)
  have fg: "g x s = f x s" using Cons.prems by simp
  obtain r s' where r: "f x s = (r, s')" by (cases "f x s")
  have "P s'" by (rule keeps_run [OF Cons.prems(2,3) r])
  then have "forM xs f s' = forM xs g s'" using Cons.prems by (intro Cons.IH) auto
  then show ?case by (cases r) (simp_all add: run_sq fg r)
qed simp

lemma sq_agree:
  assumes "m s = m' s" "keeps P m" "P s" "\<And>s. P s \<Longrightarrow> n s = n' s"
  shows "sq m n s = sq m' n' s"
proof -
  obtain r s' where r: "m s = (r, s')" by (cases "m s")
  with assms(2,3) have "P s'" by (rule_tac keeps_run)
  with r assms(1,4) show ?thesis by (cases r) (simp_all add: run_sq)
qed

abbreviation other_answers where
  "other_answers H req resp \<equiv> H\<lparr>qd_req_send := req, qd_resp_recv := resp\<rparr>"

lemma steps_other [simp]:
  "qm_read (other_answers H f g) = qm_read H" "qm_write (other_answers H f g) = qm_write H"
  "qm_doorbell_check (other_answers H f g) = qm_doorbell_check H"
  "qd_commit_send (other_answers H f g) = qd_commit_send H"
  "qd_pifo_comp_send (other_answers H f g) = qd_pifo_comp_send H"
  by (simp_all add: fun_eq_iff qm_doorbell_check_def qm_read_def qm_write_def)

lemma enqueue_other [simp]: "qm_try_enqueue (other_answers H f g) = qm_try_enqueue H"
  unfolding qm_try_enqueue_def steps_other ..

lemma commit_other [simp]: "qm_try_commit (other_answers H f g) = qm_try_commit H"
  unfolding qm_try_commit_def steps_other ..

lemmas given_up_keeps = given_up_enqueue given_up_dequeue given_up_commit

lemma given_up_round: "keeps (qm_given_up cp t u) (qm_round H r)"
  by (cases r) (auto simp: qm_round_def intro!: keeps_sq keeps_forM given_up_keeps)

lemma qm_round_given_up:
  assumes "qm_given_up cp t u s"
  shows "qm_round (other_answers H f g) r s = qm_round H r s"
proof -
  obtain es ds c where r: "r = (es, ds, c)" by (cases r)
  have d: "forM ds (qm_try_dequeue (other_answers H f g)) s = forM ds (qm_try_dequeue H) s"
      if "qm_given_up cp t u s" for s
    using that by (intro forM_agree [of _ "qm_given_up cp t u"] given_up_dequeue)
      (simp_all add: qm_given_up_def qm_try_dequeue_idle)
  show ?thesis unfolding r qm_round_def prod.case
    by (rule sq_agree [where P = "qm_given_up cp t u"])
      (auto simp: assms keeps_forM given_up_keeps intro!: sq_agree [where P = "qm_given_up cp t u"] d)
qed

lemma qm_rounds_given_up:
  assumes "qm_given_up cp t u s"
  shows "qm_rounds (other_answers H f g) rs s = qm_rounds H rs s"
    and "qm_given_up cp t u (snd (qm_rounds H rs s))"
proof -
  show "qm_rounds (other_answers H f g) rs s = qm_rounds H rs s" unfolding qm_rounds_def
    by (rule forM_agree [where P = "qm_given_up cp t u"]) (rule qm_round_given_up given_up_round assms, assumption?)+
  show "qm_given_up cp t u (snd (qm_rounds H rs s))" unfolding qm_rounds_def
    by (rule keepsD [where I = "qm_given_up cp t u", OF _ assms]) (intro keeps_forM given_up_round)
qed

text \<open>
  The gap cannot stay small: every attempt to dequeue either widens it or takes one of the entries
  enqueued, so that it is at least the attempts to dequeue less the attempts to enqueue.
\<close>

definition qm_pot :: "'d qm_bench \<Rightarrow> int" where
  "qm_pot s = qm_gap s - sum_list (queue_uncommit_depth s)"

lemma sum_list_upd: "q < length xs \<Longrightarrow> sum_list (xs[q := xs ! q + v]) = sum_list xs + v" for v :: int
proof (induction xs arbitrary: q)
  case (Cons x xs)
  then show ?case by (cases q) auto
qed simp

lemma sum_list_upd_le: "sum_list (xs[q := xs ! q + 1]) \<le> sum_list xs + 1" for xs :: "int list"
  by (cases "q < length xs") (simp_all add: sum_list_upd list_update_beyond)

lemma sum_list_upd_dec: "q < length xs \<Longrightarrow> sum_list (xs[q := xs ! q - 1]) = sum_list xs - 1" for xs :: "int list"
  using sum_list_upd [of q xs "-1"] by simp

lemma qm_pot_enqueue: "qm_pot s - 1 \<le> qm_pot (snd (qm_try_enqueue H x s))"
  using sum_list_upd_le [of "queue_uncommit_depth s" "fst x"]
  by (cases x, rule_tac qm_try_enqueue_cases [of H "fst x" "snd x" s]) (auto simp: qm_pot_def qm_gap_def qm_enq_def)

lemma qm_pot_dequeue:
  assumes "qm_inv s" "q < NUM_QUEUES"
  shows "qm_pot (snd (qm_try_dequeue H (q, r) s)) = qm_pot s + 1"
proof -
  have "q < length (queue_uncommit_depth s)" using assms by (simp add: qm_inv_def)
  then show ?thesis
    by (rule_tac qm_try_dequeue_cases [of H q r s])
      (simp_all add: qm_pot_def qm_gap_def qm_take_def sum_list_upd_dec)
qed

lemma qm_pot_commit: "qm_pot (snd (qm_try_commit H s)) = qm_pot s"
  by (auto simp: qm_pot_def qm_gap_def qm_try_commit_run split: list.split)

text \<open>A run that returns has run all its steps.\<close>

lemma forM_returns:
  fixes c :: "'a \<Rightarrow> int" and M :: "'s \<Rightarrow> int"
  assumes "forM xs f s = (Inr (), s')"
    and "\<And>x s s1. x \<in> set xs \<Longrightarrow> I s \<Longrightarrow> f x s = (Inr (), s1) \<Longrightarrow> I s1 \<and> M s + c x \<le> M s1" and "I s"
  shows "I s' \<and> M s + sum_list (map c xs) \<le> M s'"
  using assms
proof (induction xs arbitrary: s)
  case (Cons x xs)
  then obtain s1 where x: "f x s = (Inr (), s1)" and xs: "forM xs f s1 = (Inr (), s')"
    by (auto simp: run_sq split: prod.splits sum.splits)
  from Cons.prems(2) [of x s s1] x Cons.prems(3) have 1: "I s1" "M s + c x \<le> M s1" by auto
  have "I s' \<and> M s1 + sum_list (map c xs) \<le> M s'"
    by (rule Cons.IH [OF xs _ 1(1)]) (rule Cons.prems(2), auto)
  with 1(2) show ?case by simp
qed simp

lemma sum_list_const: "sum_list (map (\<lambda>x. c) xs) = c * int (length xs)" for c :: int
  by (induction xs) (simp_all add: algebra_simps)

lemma qm_pot_round:
  assumes run: "qm_round H (es, ds, c) s = (Inr (), s')" and ok: "qm_draws_ok (es, ds, c)" and inv: "qm_inv s"
  shows "qm_inv s' \<and> qm_pot s + (int (length ds) - int (length es)) \<le> qm_pot s'"
proof -
  obtain s1 s2 where s1: "forM es (qm_try_enqueue H) s = (Inr (), s1)"
      and s2: "forM ds (qm_try_dequeue H) s1 = (Inr (), s2)"
      and s3: "forM [0..<c] (\<lambda>_. qm_try_commit H) s2 = (Inr (), s')"
    using run by (auto simp: qm_round_def run_sq split: prod.splits sum.splits)
  have 1: "qm_inv s1 \<and> qm_pot s + sum_list (map (\<lambda>x. -1) es) \<le> qm_pot s1"
  proof (rule forM_returns [where I = qm_inv, OF s1 _ inv])
    fix x s sa assume x: "x \<in> set es" "qm_inv s" "qm_try_enqueue H x s = (Inr (), sa)"
    obtain q b where q: "x = (q, b)" "q < NUM_QUEUES" using ok x(1) by (cases x) (auto simp: qm_draws_ok_def)
    with x(2,3) qm_inv_try_enqueue [of s q H b] qm_pot_enqueue [of s H x]
    show "qm_inv sa \<and> qm_pot s + - 1 \<le> qm_pot sa" by simp
  qed
  then have "qm_inv s1" by simp
  have 2: "qm_inv s2 \<and> qm_pot s1 + sum_list (map (\<lambda>x. 1) ds) \<le> qm_pot s2"
  proof (rule forM_returns [where I = qm_inv, OF s2 _ \<open>qm_inv s1\<close>])
    fix x s sa assume x: "x \<in> set ds" "qm_inv s" "qm_try_dequeue H x s = (Inr (), sa)"
    obtain q b where q: "x = (q, b)" "q < NUM_QUEUES" using ok x(1) by (cases x) (auto simp: qm_draws_ok_def)
    with x(2,3) qm_inv_try_dequeue [of s q H b] qm_pot_dequeue [of s q H b]
    show "qm_inv sa \<and> qm_pot s + 1 \<le> qm_pot sa" by simp
  qed
  then have "qm_inv s2" by simp
  have 3: "qm_inv s' \<and> qm_pot s2 + sum_list (map (\<lambda>x. 0) [0..<c]) \<le> qm_pot s'"
  proof (rule forM_returns [where I = qm_inv, OF s3 _ \<open>qm_inv s2\<close>])
    fix x s sa assume "qm_inv s" "qm_try_commit H s = (Inr (), sa)"
    with qm_inv_commit [of s H] qm_pot_commit [of H s] show "qm_inv sa \<and> qm_pot s + 0 \<le> qm_pot sa" by simp
  qed
  from 1 2 3 show ?thesis by (simp add: sum_list_const del: map_eq_conv)
qed

lemma qm_pot_rounds:
  assumes run: "qm_rounds H rs s = (Inr (), s')" and ok: "list_all qm_draws_ok rs" and inv: "qm_inv s"
  shows "qm_inv s' \<and> qm_pot s + (\<Sum>(es, ds, c)\<leftarrow>rs. int (length ds) - int (length es)) \<le> qm_pot s'"
  unfolding qm_rounds_def
proof (rule forM_returns [where I = qm_inv, OF run [unfolded qm_rounds_def] _ inv])
  fix r s sa assume "r \<in> set rs" "qm_inv s" "qm_round H r s = (Inr (), sa)"
  with ok show "qm_inv sa \<and> qm_pot s + (case r of (es, ds, c) \<Rightarrow> int (length ds) - int (length es)) \<le> qm_pot sa"
    by (cases r) (auto simp: list_all_iff dest!: qm_pot_round)
qed

lemma qm_pot_le_gap:
  assumes "qm_inv s" shows "qm_pot s \<le> qm_gap s"
proof -
  have "0 \<le> x" if "x \<in> set (queue_uncommit_depth s)" for x
    using that assms by (auto simp: in_set_conv_nth qm_inv_def qm_queue_ok_def)
  then have "0 \<le> sum_list (queue_uncommit_depth s)" by (rule sum_list_nonneg)
  then show ?thesis by (simp add: qm_pot_def)
qed

lemma qm_gap_rounds:
  assumes "qm_rounds H rs (qm_start s) = (Inr (), s')" "list_all qm_draws_ok rs" "qm_wqe s = 4"
  shows "(\<Sum>(es, ds, c)\<leftarrow>rs. int (length ds) - int (length es)) \<le> qm_gap s'"
proof -
  have "qm_inv (qm_start s)" "qm_pot (qm_start s) = 0"
    using assms(3) by (simp_all add: qm_pot_def qm_gap_def) (simp_all add: qm_start_def sum_list_replicate)
  with qm_pot_rounds [OF assms(1,2)] qm_pot_le_gap [of s'] show ?thesis by simp
qed

end
