(* ===== verification/Qm_Ideal.thy ===== *)
theory Qm_Ideal
  imports Qm_Check
begin

text \<open>
  A queue manager for the bench of \<open>Qm_Check\<close>, as the test expects one: registers, a doorbell per
  write of the producer pointer of an enabled queue, a table of operations. It is no part of the
  program: it shows what the bench accepts. Its parameter \<open>e\<close> says which requests it answers as if
  the queue were empty; the bench passes whatever \<open>e\<close> says of the random workload.
\<close>

section \<open>The queue manager\<close>

record qm_ideal =
  qi_prod :: "nat \<Rightarrow> int"
  qi_deq :: "nat \<Rightarrow> int"
  qi_cons :: "nat \<Rightarrow> int"
  qi_base :: "nat \<Rightarrow> int"
  qi_size :: "nat \<Rightarrow> int"
  qi_cqn :: "nat \<Rightarrow> int"
  qi_enabled :: "nat \<Rightarrow> bool"
  qi_rank :: "nat \<Rightarrow> int"
  qi_bells :: "qm_doorbell list"
  qi_answers :: "dequeue_resp list"
  qi_ops :: "(nat \<times> int) list"
  qi_count :: nat

definition qi_reset :: qm_ideal where
  "qi_reset = \<lparr>qi_prod = \<lambda>_. 0, qi_deq = \<lambda>_. 0, qi_cons = \<lambda>_. 0, qi_base = \<lambda>_. 0, qi_size = \<lambda>_. 0,
     qi_cqn = \<lambda>_. 0, qi_enabled = \<lambda>_. False, qi_rank = \<lambda>_. 0, qi_bells = [], qi_answers = [], qi_ops = [],
     qi_count = 0\<rparr>"

text \<open>A command register: the high half of the word says what the low half is.\<close>

definition qi_command :: "nat \<Rightarrow> int \<Rightarrow> qm_ideal \<Rightarrow> qm_ideal" where
  "qi_command k v d =
     (let h = v div 65536; x = v mod 65536 in
      if h = 0x8080 then d\<lparr>qi_prod := (qi_prod d)(k := x),
        qi_bells := qi_bells d @ (if qi_enabled d k then
          [\<lparr>qdb_queue = int k, qdb_tag = 0, qdb_rank = qi_rank d k div 8, qdb_wqe = qi_rank d k mod 8\<rparr>] else [])\<rparr>
      else if h = 0x8090 then d\<lparr>qi_cons := (qi_cons d)(k := x), qi_deq := (qi_deq d)(k := x)\<rparr>
      else if h = 0x8002 then d\<lparr>qi_size := (qi_size d)(k := x)\<rparr>
      else if h = 0xC000 then d\<lparr>qi_cqn := (qi_cqn d)(k := x)\<rparr>
      else if h = 0x4000 then d\<lparr>qi_enabled := (qi_enabled d)(k := odd x)\<rparr>
      else d)"

definition qi_write :: "int \<Rightarrow> int \<Rightarrow> qm_ideal \<Rightarrow> qm_ideal" where
  "qi_write addr v d =
     (let k = nat (addr div 32); r = addr mod 32 in
      if r = MQNIC_QUEUE_CTRL_STATUS_REG then qi_command k v d
      else if r = MQNIC_QUEUE_RANK_WQE then d\<lparr>qi_rank := (qi_rank d)(k := v)\<rparr>
      else if r = MQNIC_QUEUE_BASE_ADDR_VF_REG then d\<lparr>qi_base := (qi_base d)(k := v)\<rparr>
      else d)"

definition qi_read :: "int \<Rightarrow> qm_ideal \<Rightarrow> int \<times> qm_ideal" where
  "qi_read addr d =
     (let k = nat (addr div 32); r = addr mod 32 in
      if r = MQNIC_QUEUE_CTRL_STATUS_REG then (if qi_enabled d k then 1 else 0)
      else if r = MQNIC_QUEUE_SIZE_CQN_REG then qi_size d k * 2 ^ 24 + qi_cqn d k
      else if r = MQNIC_QUEUE_PTR_REG then qi_cons d k * 2 ^ 16 + qi_prod d k
      else if r = MQNIC_QUEUE_BASE_ADDR_VF_REG then qi_base d k else 0, d)"

definition qi_bell :: "qm_ideal \<Rightarrow> qm_doorbell option \<times> qm_ideal" where
  "qi_bell d = (case qi_bells d of [] \<Rightarrow> (None, d) | b # bs \<Rightarrow> (Some b, d\<lparr>qi_bells := bs\<rparr>))"

definition qi_request :: "(nat \<Rightarrow> bool) \<Rightarrow> int \<Rightarrow> int \<Rightarrow> int \<Rightarrow> qm_ideal \<Rightarrow> qm_ideal" where
  "qi_request e q wqe tag d =
     (let k = nat q; p = qi_deq d k; em = e (qi_count d) \<or> p = qi_prod d k; p' = (p + wqe) mod 65536;
          r = \<lparr>dr_queue = q, dr_ptr = p, dr_phase = qm_phase p, dr_addr = qi_base d k + (p AND 0xF) * 16,
            dr_block_size = 0, dr_cpl = qi_cqn d k, dr_tag = tag, dr_op_tag = int (length (qi_ops d)),
            dr_wqe = wqe, dr_empty = em, dr_error = False\<rparr>;
          d' = d\<lparr>qi_answers := qi_answers d @ [r], qi_count := Suc (qi_count d)\<rparr>
      in if em then d' else d'\<lparr>qi_deq := (qi_deq d)(k := p'), qi_ops := qi_ops d @ [(k, p')]\<rparr>)"

definition qi_answer :: "qm_ideal \<Rightarrow> dequeue_resp option \<times> qm_ideal" where
  "qi_answer d = (case qi_answers d of [] \<Rightarrow> (None, d) | r # rs \<Rightarrow> (Some r, d\<lparr>qi_answers := rs\<rparr>))"

definition qi_commit :: "int \<Rightarrow> qm_ideal \<Rightarrow> qm_ideal" where
  "qi_commit t d = (case qi_ops d ! nat t of (k, p) \<Rightarrow> d\<lparr>qi_cons := (qi_cons d)(k := p)\<rparr>)"

definition ideal_qm :: "(nat \<Rightarrow> bool) \<Rightarrow> qm_ideal qm_dut" where
  "ideal_qm e = \<lparr>qd_write_dword = qi_write, qd_write_qword = qi_write, qd_read_dword = qi_read,
     qd_read_qword = qi_read, qd_doorbell_recv = qi_bell, qd_pifo_comp_send = \<lambda>_ _ d. d,
     qd_req_send = qi_request e, qd_resp_recv = qi_answer, qd_commit_send = qi_commit,
     qd_reset = \<lambda>_. qi_reset, qd_enable = \<lambda>d. d, qd_wait = \<lambda>d. d\<rparr>"

lemma ideal_sel [simp]:
  "qd_write_dword (ideal_qm e) = qi_write" "qd_write_qword (ideal_qm e) = qi_write"
  "qd_read_dword (ideal_qm e) = qi_read" "qd_read_qword (ideal_qm e) = qi_read"
  "qd_doorbell_recv (ideal_qm e) = qi_bell" "qd_pifo_comp_send (ideal_qm e) q t d = d"
  "qd_req_send (ideal_qm e) = qi_request e" "qd_resp_recv (ideal_qm e) = qi_answer"
  "qd_commit_send (ideal_qm e) = qi_commit" "qd_reset (ideal_qm e) d = qi_reset"
  "qd_enable (ideal_qm e) d = d" "qd_wait (ideal_qm e) d = d"
  by (simp_all add: ideal_qm_def)

lemmas qm_regs = MQNIC_QUEUE_BASE_ADDR_VF_REG_def MQNIC_QUEUE_CTRL_STATUS_REG_def MQNIC_QUEUE_SIZE_CQN_REG_def
  MQNIC_QUEUE_PTR_REG_def MQNIC_QUEUE_RANK_WQE_def MQNIC_QUEUE_ENABLE_MASK_def MQNIC_QUEUE_PTR_MASK_def
  MQNIC_QUEUE_CMD_SET_VF_ID_def MQNIC_QUEUE_CMD_SET_SIZE_def MQNIC_QUEUE_CMD_SET_CQN_def
  MQNIC_QUEUE_CMD_SET_PROD_PTR_def MQNIC_QUEUE_CMD_SET_CONS_PTR_def MQNIC_QUEUE_CMD_SET_ENABLE_def

section \<open>Programming a queue\<close>

lemma cmd_halves:
  fixes x c :: int
  assumes "0 \<le> x" "x < 65536" "c mod 65536 = 0"
  shows "(c OR x) div 65536 = c div 65536" and "(c OR x) mod 65536 = x"
  using low_half_or [OF assms] and_mask_mod [of "c OR x" 16] by simp_all

lemma cmd_consts:
  "MQNIC_QUEUE_CMD_SET_PROD_PTR mod 65536 = 0" "MQNIC_QUEUE_CMD_SET_PROD_PTR div 65536 = 0x8080"
  "MQNIC_QUEUE_CMD_SET_CONS_PTR mod 65536 = 0" "MQNIC_QUEUE_CMD_SET_CONS_PTR div 65536 = 0x8090"
  "MQNIC_QUEUE_CMD_SET_CQN mod 65536 = 0" "MQNIC_QUEUE_CMD_SET_CQN div 65536 = 0xC000"
  by (simp_all add: qm_regs)

lemma qi_write_cmd:
  "qi_write (qm_reg k MQNIC_QUEUE_CTRL_STATUS_REG) v d = qi_command k v d"
  "qi_write (qm_reg k MQNIC_QUEUE_RANK_WQE) v d = d\<lparr>qi_rank := (qi_rank d)(k := v)\<rparr>"
  "qi_write (qm_reg k MQNIC_QUEUE_BASE_ADDR_VF_REG) v d = d\<lparr>qi_base := (qi_base d)(k := v)\<rparr>"
  by (simp_all add: qi_write_def qm_reg_def qm_regs Let_def)

lemma qi_command_words:
  "0 \<le> x \<Longrightarrow> x < 65536 \<Longrightarrow> qi_command k (MQNIC_QUEUE_CMD_SET_PROD_PTR OR x) d = d\<lparr>qi_prod := (qi_prod d)(k := x),
        qi_bells := qi_bells d @ (if qi_enabled d k then
          [\<lparr>qdb_queue = int k, qdb_tag = 0, qdb_rank = qi_rank d k div 8, qdb_wqe = qi_rank d k mod 8\<rparr>] else [])\<rparr>"
  "0 \<le> x \<Longrightarrow> x < 65536 \<Longrightarrow> qi_command k (MQNIC_QUEUE_CMD_SET_CONS_PTR OR x) d =
     d\<lparr>qi_cons := (qi_cons d)(k := x), qi_deq := (qi_deq d)(k := x)\<rparr>"
  "0 \<le> x \<Longrightarrow> x < 65536 \<Longrightarrow> qi_command k (MQNIC_QUEUE_CMD_SET_CQN OR x) d = d\<lparr>qi_cqn := (qi_cqn d)(k := x)\<rparr>"
  by (simp_all add: cmd_halves cmd_consts qi_command_def Let_def)

lemma qi_command_consts:
  "qi_command k MQNIC_QUEUE_CMD_SET_VF_ID d = d"
  "qi_command k (MQNIC_QUEUE_CMD_SET_SIZE OR 4) d = d\<lparr>qi_size := (qi_size d)(k := 4)\<rparr>"
  "qi_command k MQNIC_QUEUE_CMD_SET_ENABLE d = d\<lparr>qi_enabled := (qi_enabled d)(k := False)\<rparr>"
  "qi_command k (MQNIC_QUEUE_CMD_SET_ENABLE OR 1) d = d\<lparr>qi_enabled := (qi_enabled d)(k := True)\<rparr>"
  by (simp_all add: qi_command_def Let_def qm_regs)

lemma ideal_init_queue:
  assumes "0 \<le> cqn" "cqn < 65536" "0 \<le> ptr" "ptr < 65536"
  shows "qm_init_queue (ideal_qm e) k base cqn ptr s = (Inr (), s\<lparr>qm_hw := (qm_hw s)
     \<lparr>qi_enabled := (qi_enabled (qm_hw s))(k := True), qi_base := (qi_base (qm_hw s))(k := base),
      qi_size := (qi_size (qm_hw s))(k := 4), qi_cqn := (qi_cqn (qm_hw s))(k := cqn),
      qi_prod := (qi_prod (qm_hw s))(k := ptr), qi_cons := (qi_cons (qm_hw s))(k := ptr),
      qi_deq := (qi_deq (qm_hw s))(k := ptr)\<rparr>\<rparr>)"
  using assms by (simp add: qm_init_queue_def run_simps  qi_write_cmd qi_command_words qi_command_consts)

lemma ideal_read:
  "qi_read (qm_reg k MQNIC_QUEUE_CTRL_STATUS_REG) d = (if qi_enabled d k then 1 else 0, d)"
  "qi_read (qm_reg k MQNIC_QUEUE_SIZE_CQN_REG) d = (qi_size d k * 2 ^ 24 + qi_cqn d k, d)"
  "qi_read (qm_reg k MQNIC_QUEUE_PTR_REG) d = (qi_cons d k * 2 ^ 16 + qi_prod d k, d)"
  "qi_read (qm_reg k MQNIC_QUEUE_BASE_ADDR_VF_REG) d = (qi_base d k, d)"
  by (simp_all add: qi_read_def qm_reg_def qm_regs Let_def)

section \<open>The directed test passes\<close>

lemma ideal_post:
  assumes "0 \<le> rank" "wqe \<in> {0..<8}" "0 \<le> ptr" "ptr < 65536" "qi_enabled (qm_hw s) q" "qi_bells (qm_hw s) = []"
  shows "qm_post (ideal_qm e) q rank wqe ptr s = (Inr (), s\<lparr>qm_hw := (qm_hw s)
     \<lparr>qi_rank := (qi_rank (qm_hw s))(q := 8 * rank + wqe), qi_prod := (qi_prod (qm_hw s))(q := ptr),
      qi_bells := [\<lparr>qdb_queue = int q, qdb_tag = 0, qdb_rank = rank, qdb_wqe = wqe\<rparr>]\<rparr>\<rparr>)"
proof -
  have "push_bit 3 rank OR wqe = 8 * rank + wqe"
    using or_disjoint_add [of wqe 3 "8 * rank"] assms(2) by (simp add: push_bit_eq_mult mult.commute)
  moreover have "(8 * rank + wqe) div 8 = rank" "(8 * rank + wqe) mod 8 = wqe" using assms(2) by simp_all
  ultimately show ?thesis
    using assms by (simp add: qm_post_def run_simps  qi_write_cmd qi_command_words)
qed

lemma ideal_doorbell:
  assumes "qi_bells (qm_hw s) = [\<lparr>qdb_queue = int q, qdb_tag = 0, qdb_rank = rank, qdb_wqe = wqe\<rparr>]"
  shows "qm_doorbell_check (ideal_qm e) q rank wqe s = (Inr \<lparr>qdb_queue = int q, qdb_tag = 0, qdb_rank = rank, qdb_wqe = wqe\<rparr>,
     s\<lparr>qm_hw := (qm_hw s)\<lparr>qi_bells := []\<rparr>\<rparr>)"
  using assms by (simp add: qm_doorbell_check_def run_simps  qi_bell_def)

lemma ideal_directed_dequeue:
  fixes s :: "qm_ideal qm_bench"
  defines "d \<equiv> qm_hw s"
  assumes "\<not> e (qi_count d)" "qi_answers d = []" "qi_deq d 0 = c" "qi_prod d 0 \<noteq> c" "qi_cqn d 0 = 1"
    and "qi_base d 0 = qm_directed_base" "0 \<le> c" "c + 4 < 65536" "0 \<le> qi_prod d 0" "qi_prod d 0 < 65536"
  shows "qm_directed_dequeue (ideal_qm e) c 4 s = (Inr (c + 4), s\<lparr>qm_hw := d\<lparr>qi_count := Suc (qi_count d),
     qi_deq := (qi_deq d)(0 := c + 4), qi_cons := (qi_cons d)(0 := c + 4), qi_ops := qi_ops d @ [(0, c + 4)]\<rparr>\<rparr>)"
proof -
  have m: "(c + 4) mod 65536 = c + 4" using assms(8,9) by simp
  have dr: "drop_bit 16 ((c + 4) * 65536 + qi_prod d 0) = c + 4"
    using assms(10,11) by (simp add: drop_bit_eq_div)
  show ?thesis
    using assms(2-7) m dr unfolding d_def
    by (simp add: qm_directed_dequeue_def run_simps qi_request_def qi_answer_def qi_commit_def 
        Let_def ideal_read)
qed

lemma ideal_directed:
  assumes "\<not> e 0" "\<not> e 1" "qm_hw s = qi_reset"
  shows "\<exists>d. qm_directed (ideal_qm e) s = (Inr (2, 8), s\<lparr>qm_hw := d, qm_wqe := 4\<rparr>) \<and>
    qi_bells d = [] \<and> qi_answers d = []"
proof -
  have "\<not> e (Suc 0)" using assms(2) by simp
  moreover have "MQNIC_QUEUE_ENABLE_MASK = 1" by (simp add: qm_regs)
  ultimately show ?thesis unfolding qm_directed_def
    by (simp add: run_simps ideal_init_queue ideal_read assms(1,3) qi_reset_def ideal_post ideal_doorbell
        ideal_directed_dequeue Let_def)
      (intro exI conjI, rule refl, simp_all)
qed

section \<open>The random workload passes\<close>

definition qi_link :: "qm_ideal qm_bench \<Rightarrow> bool" where
  "qi_link s \<longleftrightarrow> qi_bells (qm_hw s) = [] \<and> qi_answers (qm_hw s) = [] \<and>
     (\<forall>k < NUM_QUEUES. qi_enabled (qm_hw s) k \<and> qi_prod (qm_hw s) k = queue_prod_ptr s ! k \<and>
        qi_deq (qm_hw s) k = queue_cons_ptr s ! k \<and>
        qi_base (qm_hw s) k = 0x5555555555000000 + 0x10000 * int k)"

lemma ideal_init_upto:
  "n \<le> NUM_QUEUES \<Longrightarrow> \<exists>d. forM [0..<n] (\<lambda>k. qm_init_queue (ideal_qm e) k (0x5555555555000000 + 0x10000 * int k) (int k) 0xfff0) s =
     (Inr (), s\<lparr>qm_hw := d\<rparr>) \<and> qi_bells d = qi_bells (qm_hw s) \<and> qi_answers d = qi_answers (qm_hw s) \<and>
     (\<forall>k < n. qi_enabled d k \<and> qi_prod d k = 0xfff0 \<and> qi_deq d k = 0xfff0 \<and>
        qi_base d k = 0x5555555555000000 + 0x10000 * int k)"
proof (induction n)
  case 0
  show ?case by (intro exI [of _ "qm_hw s"]) simp
next
  case (Suc n)
  then obtain d where d: "forM [0..<n] (\<lambda>k. qm_init_queue (ideal_qm e) k (0x5555555555000000 + 0x10000 * int k) (int k) 0xfff0) s =
     (Inr (), s\<lparr>qm_hw := d\<rparr>)" "qi_bells d = qi_bells (qm_hw s)" "qi_answers d = qi_answers (qm_hw s)"
     "\<forall>k < n. qi_enabled d k \<and> qi_prod d k = 0xfff0 \<and> qi_deq d k = 0xfff0 \<and>
        qi_base d k = 0x5555555555000000 + 0x10000 * int k" by auto
  have "int n < 65536" using Suc.prems by (simp add: NUM_QUEUES_def)
  with d show ?case
    by (simp add: run_forM_append ideal_init_queue run_simps)
      (intro exI conjI, rule refl, auto simp: less_Suc_eq)
qed

lemma ideal_init_all:
  assumes "qi_bells (qm_hw s) = []" "qi_answers (qm_hw s) = []"
  shows "\<exists>d. qm_init_all (ideal_qm e) s = (Inr (), s\<lparr>qm_hw := d\<rparr>) \<and> qi_link (qm_start (s\<lparr>qm_hw := d\<rparr>))"
  using ideal_init_upto [of NUM_QUEUES e s] assms
  by (auto simp: qm_init_all_def qi_link_def qm_start_def)

lemma ideal_try_enqueue:
  assumes link: "qi_link s" and inv: "qm_inv s" and q: "q < NUM_QUEUES"
  shows "\<exists>s'. qm_try_enqueue (ideal_qm e) (q, bits) s = (Inr (), s') \<and> qi_link s'"
proof (cases "queue_inflight s ! q < MAX_INFLIGHT \<and> queue_depth s ! q < 16")
  case False
  with link show ?thesis by (auto simp: qm_try_enqueue_def run_simps)
next
  case True
  have pr: "queue_prod_ptr s ! q \<in> {0..<65536}" using inv q by (simp add: qm_inv_def qm_queue_ok_def)
  have l: "qi_prod (qm_hw s) q = queue_prod_ptr s ! q" "qi_enabled (qm_hw s) q" "qi_bells (qm_hw s) = []"
    using link q by (simp_all add: qi_link_def)
  have rd: "fst (qi_read (qm_reg q MQNIC_QUEUE_PTR_REG) (qm_hw s)) AND MQNIC_QUEUE_PTR_MASK = queue_prod_ptr s ! q"
    using pr by (simp add: ideal_read ptr_mask_mod l)
  define rank where "rank = bits AND (push_bit QM_PTW 1 - 1)"
  let ?p = "(queue_prod_ptr s ! q + 4) AND MQNIC_QUEUE_PTR_MASK"
  let ?b = "\<lparr>qdb_queue = int q, qdb_tag = 0, qdb_rank = rank, qdb_wqe = 4\<rparr>"
  have p: "0 \<le> ?p" "?p < 65536" by (simp_all add: ptr_mask_mod)
  have r: "push_bit 3 rank OR 4 = 8 * rank + 4" "(8 * rank + 4) div 8 = rank" "(8 * rank + 4) mod 8 = 4"
    using or_disjoint_add [of 4 3 "8 * rank"] by (simp_all add: push_bit_eq_mult mult.commute)
  let ?d = "(qm_hw s)\<lparr>qi_rank := (qi_rank (qm_hw s))(q := 8 * rank + 4), qi_prod := (qi_prod (qm_hw s))(q := ?p)\<rparr>"
  have bell: "qm_doorbell_check (ideal_qm e) q rank 4 (s'\<lparr>qm_hw := d\<lparr>qi_bells := [?b]\<rparr>\<rparr>) =
      (Inr ?b, s'\<lparr>qm_hw := d\<lparr>qi_bells := []\<rparr>\<rparr>)" for s' d
    by (subst ideal_doorbell) simp_all
  have run: "qm_try_enqueue (ideal_qm e) (q, bits) s = (Inr (), (qm_enq q s)\<lparr>qm_hw := ?d\<lparr>qi_bells := []\<rparr>\<rparr>)"
    using True rd unfolding qm_try_enqueue_def prod.case Let_def rank_def [symmetric]
    by (simp add: run_simps ideal_read qi_write_cmd qi_command_words(1) [OF p] r l qm_enq_def bell)
  have "qi_link ((qm_enq q s)\<lparr>qm_hw := ?d\<lparr>qi_bells := []\<rparr>\<rparr>)"
    using link inv q by (auto simp: qi_link_def qm_enq_def nth_list_update qm_inv_def)
  with run show ?thesis by blast
qed

lemma phase_addr:
  assumes "q < NUM_QUEUES"
  shows "drop_bit 16 (0x5555555555000000 + 0x10000 * int q + (p AND 0xF) * 16) AND 0xf = int q"
    and "drop_bit 4 (0x5555555555000000 + 0x10000 * int q + (p AND 0xF) * 16) AND 0xf = p AND 0xf"
proof -
  have f: "x AND 0xF = x mod 16" for x :: int using and_mask_mod [of x 4] by simp
  have q: "int q < 16" using assms by (simp add: NUM_QUEUES_def)
  have "0x5555555555000000 + 0x10000 * int q + (p mod 16) * 16 =
      (p mod 16) * 16 + (0x555555555500 + int q) * 65536" by simp
  then have "(0x5555555555000000 + 0x10000 * int q + (p mod 16) * 16) div 65536 = 0x555555555500 + int q"
    by (simp only: div_mult_self1)
  moreover have "(0x555555555500 + int q) mod 16 = int q"
    using q mod_mult_self2 [of "int q" 16 "0x55555555550"] by (simp add: add.commute)
  ultimately show "drop_bit 16 (0x5555555555000000 + 0x10000 * int q + (p AND 0xF) * 16) AND 0xf = int q"
    by (simp only: f drop_bit_eq_div) simp
  have "0x5555555555000000 + 0x10000 * int q + (p mod 16) * 16 =
      16 * (p mod 16 + (0x55555555550000 + 0x100 * int q) * 16)" by simp
  then have "(0x5555555555000000 + 0x10000 * int q + (p mod 16) * 16) div 16 =
      p mod 16 + (0x55555555550000 + 0x100 * int q) * 16" by (simp only: nonzero_mult_div_cancel_left)
  moreover have "(p mod 16 + (0x55555555550000 + 0x100 * int q) * 16) mod 16 = p mod 16"
    by (simp only: mod_mult_self1 mod_mod_trivial)
  ultimately show "drop_bit 4 (0x5555555555000000 + 0x10000 * int q + (p AND 0xF) * 16) AND 0xf = p AND 0xf"
    by (simp only: f drop_bit_eq_div) (simp add: ac_simps)
qed

lemma ideal_try_dequeue:
  assumes link: "qi_link s" and inv: "qm_inv s" and q: "q < NUM_QUEUES"
  shows "\<exists>s'. qm_try_dequeue (ideal_qm e) (q, r) s = (Inr (), s') \<and> qi_link s'"
proof (cases "qm_op s + 1 < MAX_INFLIGHT \<and> length (commit_list s) < OP_TABLE_SIZE \<and> queue_uncommit_depth s ! q > 0")
  case False
  then have "qm_try_dequeue (ideal_qm e) (q, r) s = (Inr (), s\<lparr>qm_op := qm_op s + 1\<rparr>)"
    by (auto simp: qm_try_dequeue_def run_simps)
  with link show ?thesis by (simp add: qi_link_def)
next
  case True
  have l: "qi_deq (qm_hw s) q = queue_cons_ptr s ! q" "qi_answers (qm_hw s) = []"
      "qi_base (qm_hw s) q = 0x5555555555000000 + 0x10000 * int q" and w: "qm_wqe s = 4"
    using link q inv by (simp_all add: qi_link_def qm_inv_def)
  define em where "em \<longleftrightarrow> e (qi_count (qm_hw s)) \<or> queue_cons_ptr s ! q = qi_prod (qm_hw s) q"
  let ?p' = "(queue_cons_ptr s ! q + 4) AND MQNIC_QUEUE_PTR_MASK"
  let ?d = "(qm_hw s)\<lparr>qi_count := Suc (qi_count (qm_hw s))\<rparr>"
  let ?s = "s\<lparr>qm_op := qm_op s + 1, current_tag := (current_tag s + 1) mod 256\<rparr>"
  let ?resp = "\<lparr>dr_queue = int q, dr_ptr = queue_cons_ptr s ! q, dr_phase = qm_phase (queue_cons_ptr s ! q),
     dr_addr = 0x5555555555000000 + 0x10000 * int q + (queue_cons_ptr s ! q AND 0xF) * 16, dr_block_size = 0,
     dr_cpl = qi_cqn (qm_hw s) q, dr_tag = current_tag s, dr_op_tag = int (length (qi_ops (qm_hw s))),
     dr_wqe = 4, dr_empty = em, dr_error = False\<rparr>"
  have ok: "qm_resp_ok (s\<lparr>qm_op := qm_op s + 1\<rparr>) q ?resp"
    using phase_addr [OF q] w by (simp add: qm_resp_ok_def)
  have run: "qm_try_dequeue (ideal_qm e) (q, r) s = (Inr (),
      if em then ?s\<lparr>qm_hw := ?d\<rparr> else (qm_take q r ?resp ?s)\<lparr>qm_hw := ?d
        \<lparr>qi_deq := (qi_deq (qm_hw s))(q := ?p'), qi_ops := qi_ops (qm_hw s) @ [(q, ?p')]\<rparr>\<rparr>)"
    using True ok by (cases em) (simp_all add: qm_try_dequeue_def run_simps qi_request_def qi_answer_def l w Let_def
        ptr_mask_mod qm_take_def em_def [symmetric])
  have "qi_link (?s\<lparr>qm_hw := ?d\<rparr>)" using link by (simp add: qi_link_def)
  moreover have "qi_link ((qm_take q r ?resp ?s)\<lparr>qm_hw := ?d
        \<lparr>qi_deq := (qi_deq (qm_hw s))(q := ?p'), qi_ops := qi_ops (qm_hw s) @ [(q, ?p')]\<rparr>\<rparr>)"
    using link q inv by (auto simp: qi_link_def qm_take_def qm_inv_def)
  ultimately show ?thesis using run by (cases em) (simp_all only: if_True if_False, blast+)
qed

lemma ideal_try_commit: "qi_link s \<Longrightarrow> \<exists>s'. qm_try_commit (ideal_qm e) s = (Inr (), s') \<and> qi_link s'"
  by (auto simp: qm_try_commit_run qi_link_def qi_commit_def split: list.split prod.split)

lemma forM_passes:
  assumes "\<And>x s. x \<in> set xs \<Longrightarrow> P s \<Longrightarrow> \<exists>s'. f x s = (Inr (), s') \<and> P s'" "P s"
  shows "\<exists>s'. forM xs f s = (Inr (), s') \<and> P s'"
  using assms
proof (induction xs arbitrary: s)
  case (Cons x xs)
  then obtain s1 where "f x s = (Inr (), s1)" "P s1" by (meson list.set_intros(1))
  with Cons.IH [of s1] Cons.prems(1) show ?case by (auto simp: run_sq)
qed simp

text \<open>Whatever requests \<open>e\<close> picks, but for the two of the directed test, \<open>run_test\<close> passes.\<close>

lemma ideal_round:
  assumes "qi_link s \<and> qm_inv s" "qm_draws_ok r"
  shows "\<exists>s'. qm_round (ideal_qm e) r s = (Inr (), s') \<and> qi_link s' \<and> qm_inv s'"
proof -
  obtain es ds c where r: "r = (es, ds, c)" by (cases r)
  let ?P = "\<lambda>s. qi_link s \<and> qm_inv s"
  have q: "x \<in> set es \<or> x \<in> set ds \<Longrightarrow> fst x < NUM_QUEUES" for x
    using assms(2) r by (auto simp: qm_draws_ok_def)
  have "\<exists>s'. qm_try_enqueue (ideal_qm e) x s = (Inr (), s') \<and> ?P s'" if "x \<in> set es" "?P s" for x s
    using that q [of x] ideal_try_enqueue [of s "fst x" e "snd x"] qm_inv_try_enqueue [of s "fst x" "ideal_qm e" "snd x"]
    by auto
  from forM_passes [of es ?P "qm_try_enqueue (ideal_qm e)", OF this assms(1)] obtain s1
    where s1: "forM es (qm_try_enqueue (ideal_qm e)) s = (Inr (), s1)" "?P s1" by blast
  have "\<exists>s'. qm_try_dequeue (ideal_qm e) x s = (Inr (), s') \<and> ?P s'" if "x \<in> set ds" "?P s" for x s
    using that q [of x] ideal_try_dequeue [of s "fst x" e "snd x"] qm_inv_try_dequeue [of s "fst x" "ideal_qm e" "snd x"]
    by auto
  from forM_passes [of ds ?P "qm_try_dequeue (ideal_qm e)", OF this s1(2)] obtain s2
    where s2: "forM ds (qm_try_dequeue (ideal_qm e)) s1 = (Inr (), s2)" "?P s2" by blast
  have "\<exists>s'. qm_try_commit (ideal_qm e) s = (Inr (), s') \<and> ?P s'" if "?P s" for s
    using that ideal_try_commit [of s e] qm_inv_commit [of s "ideal_qm e"] by auto
  from forM_passes [of "[0..<c]" ?P "\<lambda>_. qm_try_commit (ideal_qm e)", OF this s2(2)] s1 s2 show ?thesis
    by (auto simp: r qm_round_def run_sq)
qed

lemma ideal_rounds:
  assumes "qi_link s" "qm_inv s" "list_all qm_draws_ok rs"
  shows "\<exists>s'. qm_rounds (ideal_qm e) rs s = (Inr (), s') \<and> qi_link s' \<and> qm_inv s'"
  unfolding qm_rounds_def
  by (rule forM_passes [where P = "\<lambda>s. qi_link s \<and> qm_inv s"])
    (use assms in \<open>auto simp: list_all_iff intro: ideal_round\<close>)

lemma ideal_run_test:
  assumes "\<not> e 0" "\<not> e 1" "list_all qm_draws_ok rs"
  shows "\<exists>s'. qm_run_test (ideal_qm e) rs s = (Inr (), s') \<and> qm_inv s'"
proof -
  let ?s = "s\<lparr>qm_hw := qi_reset\<rparr>"
  obtain d1 where d1: "qm_directed (ideal_qm e) ?s = (Inr (2, 8), ?s\<lparr>qm_hw := d1, qm_wqe := 4\<rparr>)"
      "qi_bells d1 = []" "qi_answers d1 = []" using ideal_directed [OF assms(1,2), of ?s] by auto
  obtain d2 where d2: "qm_init_all (ideal_qm e) (?s\<lparr>qm_hw := d1, qm_wqe := 4\<rparr>) = (Inr (), ?s\<lparr>qm_wqe := 4, qm_hw := d2\<rparr>)"
      "qi_link (qm_start (?s\<lparr>qm_wqe := 4, qm_hw := d2\<rparr>))"
    using ideal_init_all [of "?s\<lparr>qm_hw := d1, qm_wqe := 4\<rparr>" e] d1(2,3) by auto
  obtain s' where "qm_rounds (ideal_qm e) rs (qm_start (?s\<lparr>qm_wqe := 4, qm_hw := d2\<rparr>)) = (Inr (), s')" "qm_inv s'"
    using ideal_rounds [OF d2(2) _ assms(3), of e] by auto
  with d1(1) d2(1) show ?thesis by (simp add: qm_run_test_def run_simps)
qed

section \<open>Three rounds are enough to stop it\<close>

definition ex_qm :: "qm_ideal qm_bench" where
  "ex_qm = \<lparr>qm_hw = qi_reset, queue_prod_ptr = [], queue_cons_ptr = [], queue_depth = [],
     queue_uncommit_depth = [], queue_inflight = [], qm_op = 0, commit_list = [], current_tag = 0, qm_wqe = 4\<rparr>"

lemma ex_qm_stuck:
  "\<exists>s. qm_rounds (ideal_qm (\<lambda>_. False)) (replicate 3 ([], replicate 7 (0, 0), 0)) (qm_start ex_qm) = (Inr (), s) \<and>
     int (length (commit_list s)) + 15 \<le> qm_op s"
proof -
  have a: "qm_try_dequeue H (0, r) (s\<lparr>qm_op := n\<rparr>) = (Inr (), s\<lparr>qm_op := n + 1\<rparr>)"
      if "queue_uncommit_depth s ! 0 = 0" for H :: "qm_ideal qm_dut" and r n s
    using that by (auto simp: qm_try_dequeue_def run_simps)
  have u: "queue_uncommit_depth (qm_start ex_qm) ! 0 = 0" by (simp add: qm_start_def NUM_QUEUES_def)
  have f: "forM (replicate k (0, 0)) (qm_try_dequeue H) ((qm_start ex_qm)\<lparr>qm_op := n\<rparr>) =
      (Inr (), (qm_start ex_qm)\<lparr>qm_op := n + int k\<rparr>)" for k n and H :: "qm_ideal qm_dut"
    by (induction k arbitrary: n) (simp_all add: run_sq a u algebra_simps)
  have start: "qm_start ex_qm = (qm_start ex_qm)\<lparr>qm_op := 0\<rparr>" by (simp add: qm_start_def)
  have "qm_rounds H (replicate k ([], replicate 7 (0, 0), 0)) ((qm_start ex_qm)\<lparr>qm_op := n\<rparr>) =
      (Inr (), (qm_start ex_qm)\<lparr>qm_op := n + 7 * int k\<rparr>)" for k n and H :: "qm_ideal qm_dut"
    by (induction k arbitrary: n) (simp_all add: qm_rounds_def qm_round_def run_sq f algebra_simps)
  from this [of _ 3 0] show ?thesis unfolding start [symmetric] by (simp add: qm_start_def)
qed

end
