(* ===== verification/Sched_Check.thy ===== *)
theory Sched_Check
  imports Py_Struct "HOL-Library.Multiset"
begin

text \<open>
  The packets of the scheduler tests and the check of what comes back
  (\<open>tb/mqnic_core_pcie_us_schedule/test_mqnic_core_pcie_us.py\<close>): \<open>build_sched_test_pkt\<close> writes the
  queue and the sequence number into a packet, \<open>receive_scheduler_packets\<close> reads them back from
  what the driver's \<open>recv\<close> returns and reports whether a packet is missing. The theorems say what
  the report means: exactly the packets sent have arrived, each once.
\<close>

section \<open>The packets\<close>

definition SCHED_TEST_PKT_SIZE :: int where "SCHED_TEST_PKT_SIZE = 1024"
definition SCHED_TEST_PKT_COUNT :: int where "SCHED_TEST_PKT_COUNT = 100"

definition bytearray1 :: "int \<Rightarrow> exn + byte list" where
  "bytearray1 v = (if 0 \<le> v \<and> v < 256 then Inr [word_of_int v] else Inl (ValueError ''byte must be in range(0, 256)''))"

definition to_bytes :: "nat \<Rightarrow> int \<Rightarrow> exn + byte list" where
  "to_bytes n v = (if 0 \<le> v \<and> v < 256 ^ n then Inr (le_bytes n v) else Inl OverflowError)"

definition build_sched_test_pkt :: "int \<Rightarrow> int \<Rightarrow> int \<Rightarrow> exn + byte list" where
  "build_sched_test_pkt qid seq sz =
     (if sz < 5 then Inl (ValueError ''Scheduler test packet size must be at least 5 bytes'')
      else case bytearray1 qid of
        Inl e \<Rightarrow> Inl e
      | Inr q \<Rightarrow> (case to_bytes 4 seq of
          Inl e \<Rightarrow> Inl e
        | Inr b \<Rightarrow> Inr (q @ b @ replicate (nat (sz - 5)) 0)))"

text \<open>\<open>pkt.data[0]\<close> and \<open>int.from_bytes(pkt.data[1:5], 'little')\<close>.\<close>

definition sched_fields :: "byte list \<Rightarrow> exn + int \<times> int" where
  "sched_fields data = (case data of [] \<Rightarrow> Inl IndexError | q # rest \<Rightarrow> Inr (uint q, le_val (take 4 rest)))"

lemma build_fields:
  "build_sched_test_pkt qid seq sz = Inr p \<Longrightarrow>
     sched_fields p = Inr (qid, seq) \<and> int (length p) = sz \<and> 5 \<le> sz \<and> 0 \<le> qid \<and> qid < 256 \<and> 0 \<le> seq \<and> seq < 2 ^ 32"
  by (auto simp: build_sched_test_pkt_def bytearray1_def to_bytes_def sched_fields_def le_val_le_bytes
      take_bit_int_eq_self uint_word_of_int split: if_splits)

lemma build_ok:
  "5 \<le> sz \<Longrightarrow> 0 \<le> qid \<Longrightarrow> qid < 256 \<Longrightarrow> 0 \<le> seq \<Longrightarrow> seq < 2 ^ 32 \<Longrightarrow> \<exists>p. build_sched_test_pkt qid seq sz = Inr p"
  by (simp add: build_sched_test_pkt_def bytearray1_def to_bytes_def)

section \<open>The check\<close>

text \<open>What every dict of a test's \<open>queue_configs\<close> has; the tests add a key of their own.\<close>

record queue_config =
  qc_qid :: int
  qc_count :: int

record recv_entry =
  rv_pos :: nat
  rv_qid :: int
  rv_seq :: int

definition recv_key :: "recv_entry \<Rightarrow> int \<times> int" where
  "recv_key r = (rv_qid r, rv_seq r)"

text \<open>The dicts: a later config with the same queue replaces an earlier one.\<close>

definition recv_seqs_init :: "'c queue_config_scheme list \<Rightarrow> int \<Rightarrow> int set option" where
  "recv_seqs_init cfgs = map_of (rev (map (\<lambda>c. (qc_qid c, {})) cfgs))"

definition expected_seqs :: "'c queue_config_scheme list \<Rightarrow> int \<Rightarrow> int set option" where
  "expected_seqs cfgs = map_of (rev (map (\<lambda>c. (qc_qid c, set (py_range (qc_count c)))) cfgs))"

text \<open>
  The receive loop. \<open>arrived\<close> is what \<open>recv\<close> returns in time; when it is exhausted the next \<open>recv\<close>
  times out.
\<close>

primrec recv_loop :: "nat \<Rightarrow> nat \<Rightarrow> byte list list \<Rightarrow> recv_entry list \<Rightarrow> (int \<Rightarrow> int set option) \<Rightarrow>
    exn + recv_entry list \<times> (int \<Rightarrow> int set option)" where
  "recv_loop 0 pos arrived recv_data seqs = Inr (recv_data, seqs)"
| "recv_loop (Suc n) pos arrived recv_data seqs =
     (case arrived of
        [] \<Rightarrow> Inl SimTimeoutError
      | data # rest \<Rightarrow> (case sched_fields data of
          Inl e \<Rightarrow> Inl e
        | Inr (qid, seq) \<Rightarrow> (case seqs qid of
            None \<Rightarrow> Inl KeyError
          | Some got \<Rightarrow> recv_loop n (pos + 1) rest
              (recv_data @ [\<lparr>rv_pos = pos, rv_qid = qid, rv_seq = seq\<rparr>]) (seqs(qid \<mapsto> insert seq got)))))"

primrec no_missing :: "(int \<Rightarrow> int set option) \<Rightarrow> (int \<Rightarrow> int set option) \<Rightarrow> 'c queue_config_scheme list \<Rightarrow> exn + bool" where
  "no_missing ex seqs [] = Inr True"
| "no_missing ex seqs (c # cs) =
     (case (ex (qc_qid c), seqs (qc_qid c)) of
        (Some e, Some r) \<Rightarrow> (case no_missing ex seqs cs of Inl x \<Rightarrow> Inl x | Inr ok \<Rightarrow> Inr (e - r = {} \<and> ok))
      | _ \<Rightarrow> Inl KeyError)"

record recv_report =
  rp_data :: "recv_entry list"
  rp_seqs :: "int \<Rightarrow> int set option"
  rp_expected :: "int \<Rightarrow> int set option"
  rp_all_ok :: bool

definition receive_scheduler_packets :: "'c queue_config_scheme list \<Rightarrow> int \<Rightarrow> byte list list \<Rightarrow> exn + recv_report" where
  "receive_scheduler_packets cfgs n arrived =
     (case recv_loop (nat n) 0 arrived [] (recv_seqs_init cfgs) of
        Inl e \<Rightarrow> Inl e
      | Inr (recv_data, seqs) \<Rightarrow> (case no_missing (expected_seqs cfgs) seqs cfgs of
          Inl e \<Rightarrow> Inl e
        | Inr ok \<Rightarrow> Inr \<lparr>rp_data = recv_data, rp_seqs = seqs, rp_expected = expected_seqs cfgs, rp_all_ok = ok\<rparr>))"

text \<open>
  The loop of \<open>test_wf2q\<close>: packets of an unknown queue are noted and skipped, and a time-out ends the
  loop.
\<close>

record wf2q_recv = recv_entry +
  rv_valid :: bool

primrec wf2q_recv_loop :: "nat \<Rightarrow> int \<Rightarrow> nat \<Rightarrow> byte list list \<Rightarrow> wf2q_recv list \<Rightarrow> (int \<Rightarrow> int set option) \<Rightarrow>
    exn + wf2q_recv list \<times> (int \<Rightarrow> int set option)" where
  "wf2q_recv_loop 0 queues pos arrived recv_data seqs = Inr (recv_data, seqs)"
| "wf2q_recv_loop (Suc n) queues pos arrived recv_data seqs =
     (case arrived of
        [] \<Rightarrow> Inr (recv_data, seqs)
      | data # rest \<Rightarrow> (case sched_fields data of
          Inl e \<Rightarrow> Inl e
        | Inr (qid, seq) \<Rightarrow>
            if queues \<le> qid
            then wf2q_recv_loop n queues (pos + 1) rest
              (recv_data @ [\<lparr>rv_pos = pos, rv_qid = qid, rv_seq = seq, rv_valid = False\<rparr>]) seqs
            else (case seqs qid of
              None \<Rightarrow> Inl KeyError
            | Some got \<Rightarrow> wf2q_recv_loop n queues (pos + 1) rest
                (recv_data @ [\<lparr>rv_pos = pos, rv_qid = qid, rv_seq = seq, rv_valid = True\<rparr>]) (seqs(qid \<mapsto> insert seq got)))))"

definition wf2q_receive :: "'c queue_config_scheme list \<Rightarrow> int \<Rightarrow> byte list list \<Rightarrow> exn + wf2q_recv list" where
  "wf2q_receive cfgs n arrived =
     (case wf2q_recv_loop (nat n) (int (length cfgs)) 0 arrived [] (recv_seqs_init cfgs) of
        Inl e \<Rightarrow> Inl e
      | Inr (recv_data, seqs) \<Rightarrow> (case no_missing (expected_seqs cfgs) seqs cfgs of
          Inl e \<Rightarrow> Inl e
        | Inr ok \<Rightarrow> if ok then Inr recv_data else Inl (AssertionError ''WF2Q missing packets'')))"

text \<open>The other tests assert \<open>all_ok\<close> of the report.\<close>

definition assert_all_ok :: "string \<Rightarrow> exn + recv_report \<Rightarrow> exn + recv_report" where
  "assert_all_ok msg res = (case res of
     Inl e \<Rightarrow> Inl e
   | Inr rp \<Rightarrow> if rp_all_ok rp then Inr rp else Inl (AssertionError msg))"

text \<open>\<open>sum(cfg['count'] for cfg in queue_configs)\<close> and the keys of the packets of a test.\<close>

definition total_pkts :: "'c queue_config_scheme list \<Rightarrow> int" where
  "total_pkts cfgs = sum_list (map qc_count cfgs)"

definition sent_keys :: "'c queue_config_scheme list \<Rightarrow> (int \<times> int) list" where
  "sent_keys cfgs = concat (map (\<lambda>c. map (Pair (qc_qid c)) (py_range (qc_count c))) cfgs)"

definition configs_ok :: "'c queue_config_scheme list \<Rightarrow> bool" where
  "configs_ok cfgs \<longleftrightarrow> distinct (map qc_qid cfgs) \<and> (\<forall>c \<in> set cfgs. 0 \<le> qc_count c)"

section \<open>What the report means\<close>

lemma map_of_rev_configs:
  "distinct (map qc_qid cfgs) \<Longrightarrow> c \<in> set cfgs \<Longrightarrow> map_of (rev (map (\<lambda>c. (qc_qid c, f c)) cfgs)) (qc_qid c) = Some (f c)"
  by (rule map_of_is_SomeI) (auto simp: o_def rev_map distinct_map simp flip: rev_map)

lemma recv_loop_run:
  assumes "recv_loop n pos arrived acc seqs = Inr (res, seqs')"
  shows "\<exists>es. res = acc @ es \<and> map rv_pos es = [pos..<pos + n] \<and>
    map sched_fields (take n arrived) = map (Inr \<circ> recv_key) es \<and>
    (\<forall>q. seqs' q = map_option (\<lambda>g. g \<union> {s. (q, s) \<in> set (map recv_key es)}) (seqs q)) \<and>
    (\<forall>e \<in> set es. seqs (rv_qid e) \<noteq> None)"
  using assms
proof (induction n arbitrary: pos arrived acc seqs)
  case (Suc n)
  from Suc.prems obtain d rest qid sn got where a: "arrived = d # rest" "sched_fields d = Inr (qid, sn)"
      "seqs qid = Some got"
      "recv_loop n (pos + 1) rest (acc @ [\<lparr>rv_pos = pos, rv_qid = qid, rv_seq = sn\<rparr>]) (seqs(qid \<mapsto> insert sn got)) = Inr (res, seqs')"
    by (auto split: list.splits sum.splits option.splits)
  let ?e = "\<lparr>rv_pos = pos, rv_qid = qid, rv_seq = sn\<rparr>"
  from Suc.IH [OF a(4)] obtain es where es: "res = (acc @ [?e]) @ es" "map rv_pos es = [pos + 1..<pos + 1 + n]"
      "map sched_fields (take n rest) = map (Inr \<circ> recv_key) es"
      "\<forall>q. seqs' q = map_option (\<lambda>g. g \<union> {s. (q, s) \<in> set (map recv_key es)}) ((seqs(qid \<mapsto> insert sn got)) q)"
      "\<forall>e \<in> set es. (seqs(qid \<mapsto> insert sn got)) (rv_qid e) \<noteq> None" by blast
  have "seqs' q = map_option (\<lambda>g. g \<union> {s. (q, s) \<in> set (map recv_key (?e # es))}) (seqs q)" for q
    using a(3) es(4) by (cases "q = qid") (auto simp: recv_key_def)
  moreover have "\<forall>e \<in> set (?e # es). seqs (rv_qid e) \<noteq> None" using es(5) a(3) by (auto split: if_splits)
  moreover have "map rv_pos (?e # es) = [pos..<pos + Suc n]" using es(2) by (simp add: upt_conv_Cons)
  ultimately show ?case
    using es(1,3) a(1,2) by (intro exI [of _ "?e # es"]) (simp add: recv_key_def)
qed (simp add: map_option_idI)

lemma recv_loop_ok:
  assumes "map sched_fields arrived = map Inr ks" "\<forall>(q, s) \<in> set ks. seqs q \<noteq> None"
  shows "\<exists>r. recv_loop (length arrived) pos arrived acc seqs = Inr r"
  using assms
proof (induction arrived arbitrary: pos acc seqs ks)
  case (Cons d ds)
  then obtain q sn ks' where k: "ks = (q, sn) # ks'" "sched_fields d = Inr (q, sn)" "map sched_fields ds = map Inr ks'"
    by (cases ks) auto
  with Cons.prems(2) obtain got where "seqs q = Some got" by auto
  moreover have "\<forall>(q', s) \<in> set ks'. (seqs(q \<mapsto> insert sn got)) q' \<noteq> None" using Cons.prems(2) k(1) by auto
  ultimately show ?case using Cons.IH [OF k(3)] k(2) by simp
qed simp

lemma no_missing_run:
  assumes "\<And>c. c \<in> set cs \<Longrightarrow> ex (qc_qid c) = Some (e c) \<and> seqs (qc_qid c) = Some (r c)"
  shows "no_missing ex seqs cs = Inr (\<forall>c \<in> set cs. e c \<subseteq> r c)"
  using assms by (induction cs) auto

text \<open>A list that contains every element of a distinct list and is not longer is a permutation of it.\<close>

lemma distinct_covered:
  assumes "distinct xs" "set xs \<subseteq> set ys" "length ys \<le> length xs"
  shows "mset ys = mset xs"
proof -
  have "mset xs \<subseteq># mset ys"
    using assms(1,2) by (intro mset_subset_eqI) (auto simp: count_mset_0_iff distinct_count_atmost_1 Suc_le_eq)
  with assms(3) show ?thesis by (metis mset_subset_size not_le size_mset subset_mset.le_neq_trans)
qed

lemma set_sent_keys: "set (sent_keys cfgs) = {(qc_qid c, s) | c s. c \<in> set cfgs \<and> 0 \<le> s \<and> s < qc_count c}"
  by (auto simp: sent_keys_def)

lemma sent_keys_length: "\<forall>c \<in> set cfgs. 0 \<le> qc_count c \<Longrightarrow> length (sent_keys cfgs) = nat (total_pkts cfgs) \<and> 0 \<le> total_pkts cfgs"
  by (induction cfgs) (auto simp: sent_keys_def total_pkts_def nat_add_distrib)

lemma distinct_py_range [simp]: "distinct (py_range n)"
  by (simp add: py_range_def distinct_map)

lemma sent_keys_distinct: "distinct (map qc_qid cfgs) \<Longrightarrow> distinct (sent_keys cfgs)"
  by (induction cfgs) (auto simp: sent_keys_def distinct_map inj_on_def)

lemma receive_exact:
  assumes cfg: "configs_ok cfgs" and run: "receive_scheduler_packets cfgs (total_pkts cfgs) arrived = Inr rp"
  shows "map sched_fields (take (nat (total_pkts cfgs)) arrived) = map (Inr \<circ> recv_key) (rp_data rp) \<and>
    map rv_pos (rp_data rp) = [0..<nat (total_pkts cfgs)] \<and>
    (rp_all_ok rp \<longleftrightarrow> mset (map recv_key (rp_data rp)) = mset (sent_keys cfgs))"
proof -
  have d: "distinct (map qc_qid cfgs)" "\<forall>c \<in> set cfgs. 0 \<le> qc_count c" using cfg by (auto simp: configs_ok_def)
  from run obtain es seqs where l: "recv_loop (nat (total_pkts cfgs)) 0 arrived [] (recv_seqs_init cfgs) = Inr (es, seqs)"
    by (auto simp: receive_scheduler_packets_def split: sum.splits)
  from recv_loop_run [OF l] have es: "map rv_pos es = [0..<nat (total_pkts cfgs)]"
      "map sched_fields (take (nat (total_pkts cfgs)) arrived) = map (Inr \<circ> recv_key) es"
      "\<And>q. seqs q = map_option (\<lambda>g. g \<union> {s. (q, s) \<in> set (map recv_key es)}) (recv_seqs_init cfgs q)" by auto
  have init: "recv_seqs_init cfgs (qc_qid c) = Some {}" if "c \<in> set cfgs" for c
    unfolding recv_seqs_init_def by (rule map_of_rev_configs [OF d(1) that])
  have s: "seqs (qc_qid c) = Some {s. (qc_qid c, s) \<in> set (map recv_key es)}" if "c \<in> set cfgs" for c
    by (simp add: es(3) init [OF that])
  have e: "expected_seqs cfgs (qc_qid c) = Some (set (py_range (qc_count c)))" if "c \<in> set cfgs" for c
    unfolding expected_seqs_def by (rule map_of_rev_configs [OF d(1) that])
  have "no_missing (expected_seqs cfgs) seqs cfgs =
      Inr (\<forall>c \<in> set cfgs. set (py_range (qc_count c)) \<subseteq> {s. (qc_qid c, s) \<in> set (map recv_key es)})"
    by (rule no_missing_run) (simp only: s e)
  with run l have "rp = \<lparr>rp_data = es, rp_seqs = seqs, rp_expected = expected_seqs cfgs, rp_all_ok =
      (\<forall>c \<in> set cfgs. set (py_range (qc_count c)) \<subseteq> {s. (qc_qid c, s) \<in> set (map recv_key es)})\<rparr>"
    by (simp add: receive_scheduler_packets_def del: set_map set_py_range)
  then have rp: "rp_data rp = es"
      "rp_all_ok rp \<longleftrightarrow> (\<forall>c \<in> set cfgs. set (py_range (qc_count c)) \<subseteq> {s. (qc_qid c, s) \<in> set (map recv_key es)})"
    by (simp_all del: set_map set_py_range)
  have "rp_all_ok rp \<longleftrightarrow> set (sent_keys cfgs) \<subseteq> set (map recv_key es)"
    unfolding rp(2) set_sent_keys subset_iff set_py_range mem_Collect_eq atLeastLessThan_iff by blast
  also have "\<dots> \<longleftrightarrow> mset (map recv_key es) = mset (sent_keys cfgs)"
  proof
    assume "set (sent_keys cfgs) \<subseteq> set (map recv_key es)"
    moreover have "length (map recv_key es) \<le> length (sent_keys cfgs)"
      using arg_cong [OF es(1), of length] sent_keys_length [OF d(2)] by simp
    ultimately show "mset (map recv_key es) = mset (sent_keys cfgs)"
      by (rule distinct_covered [OF sent_keys_distinct [OF d(1)]])
  next
    assume "mset (map recv_key es) = mset (sent_keys cfgs)"
    then show "set (sent_keys cfgs) \<subseteq> set (map recv_key es)" by (metis order_refl set_mset_mset)
  qed
  finally show ?thesis using es(1,2) rp(1) by simp
qed

text \<open>No false alarm: if the packets sent come back in any order, the report is good.\<close>

lemma receive_complete:
  assumes cfg: "configs_ok cfgs" and ks: "map sched_fields arrived = map Inr ks" "mset ks = mset (sent_keys cfgs)"
  shows "\<exists>rp. receive_scheduler_packets cfgs (total_pkts cfgs) arrived = Inr rp \<and> rp_all_ok rp \<and> map recv_key (rp_data rp) = ks"
proof -
  have d: "distinct (map qc_qid cfgs)" "\<forall>c \<in> set cfgs. 0 \<le> qc_count c" using cfg by (auto simp: configs_ok_def)
  have "length ks = nat (total_pkts cfgs)" using ks(2) sent_keys_length [OF d(2)] by (metis size_mset)
  then have n: "length arrived = nat (total_pkts cfgs)" using arg_cong [OF ks(1), of length] by simp
  have init: "recv_seqs_init cfgs (qc_qid c) = Some {}" if "c \<in> set cfgs" for c
    unfolding recv_seqs_init_def by (rule map_of_rev_configs [OF d(1) that])
  have "set ks = set (sent_keys cfgs)" using ks(2) by (metis set_mset_mset)
  then have "\<forall>(q, s) \<in> set ks. recv_seqs_init cfgs q \<noteq> None" by (auto simp: set_sent_keys init)
  from recv_loop_ok [OF ks(1) this, of 0 "[]"] obtain es seqs where
      l: "recv_loop (nat (total_pkts cfgs)) 0 arrived [] (recv_seqs_init cfgs) = Inr (es, seqs)" by (auto simp: n)
  have e: "expected_seqs cfgs (qc_qid c) = Some (set (py_range (qc_count c)))" if "c \<in> set cfgs" for c
    unfolding expected_seqs_def by (rule map_of_rev_configs [OF d(1) that])
  have "\<exists>g. seqs (qc_qid c) = Some g" if "c \<in> set cfgs" for c
    using recv_loop_run [OF l] init [OF that] by auto
  then obtain g where "\<And>c. c \<in> set cfgs \<Longrightarrow> seqs (qc_qid c) = Some (g c)" by metis
  with e have "no_missing (expected_seqs cfgs) seqs cfgs = Inr (\<forall>c \<in> set cfgs. set (py_range (qc_count c)) \<subseteq> g c)"
    by (intro no_missing_run) blast
  with l obtain rp where rp: "receive_scheduler_packets cfgs (total_pkts cfgs) arrived = Inr rp"
    by (auto simp: receive_scheduler_packets_def)
  from receive_exact [OF cfg rp] have "map Inr ks = (map Inr (map recv_key (rp_data rp)) :: (exn + int \<times> int) list)"
      "rp_all_ok rp \<longleftrightarrow> mset (map recv_key (rp_data rp)) = mset (sent_keys cfgs)"
    using ks(1) n by simp_all
  then have "map recv_key (rp_data rp) = ks"
    by (metis (no_types, lifting) inj_map_eq_map inj_Inr)
  with rp ks(2) \<open>rp_all_ok rp \<longleftrightarrow> _\<close> show ?thesis by auto
qed

text \<open>The first packets that arrive are the packets sent, in some order.\<close>

definition all_arrived :: "'c queue_config_scheme list \<Rightarrow> byte list list \<Rightarrow> bool" where
  "all_arrived cfgs arrived \<longleftrightarrow>
     (\<exists>ks. map sched_fields (take (nat (total_pkts cfgs)) arrived) = map Inr ks \<and> mset ks = mset (sent_keys cfgs))"

lemma recv_loop_take: "recv_loop n pos (take n arrived) acc seqs = recv_loop n pos arrived acc seqs"
  by (induction n arbitrary: pos arrived acc seqs) (auto split: list.split sum.split option.split)

lemma receive_iff:
  assumes cfg: "configs_ok cfgs"
  shows "(\<exists>rp. receive_scheduler_packets cfgs (total_pkts cfgs) arrived = Inr rp \<and> rp_all_ok rp) \<longleftrightarrow> all_arrived cfgs arrived"
proof
  assume "\<exists>rp. receive_scheduler_packets cfgs (total_pkts cfgs) arrived = Inr rp \<and> rp_all_ok rp"
  then show "all_arrived cfgs arrived" using receive_exact [OF cfg]
    unfolding all_arrived_def by (metis map_map)
next
  assume "all_arrived cfgs arrived"
  then obtain ks where "map sched_fields (take (nat (total_pkts cfgs)) arrived) = map Inr ks" "mset ks = mset (sent_keys cfgs)"
    unfolding all_arrived_def by blast
  from receive_complete [OF cfg this]
  show "\<exists>rp. receive_scheduler_packets cfgs (total_pkts cfgs) arrived = Inr rp \<and> rp_all_ok rp"
    by (auto simp: receive_scheduler_packets_def recv_loop_take)
qed

lemma wf2q_recv_loop_run:
  assumes "wf2q_recv_loop n qs pos arrived acc seqs = Inr (res, seqs')"
  shows "\<exists>es. res = acc @ es \<and> length es \<le> n \<and> map sched_fields (take (length es) arrived) = map (\<lambda>e. Inr (rv_qid e, rv_seq e)) es \<and>
    (length es < n \<longrightarrow> length arrived = length es) \<and>
    (\<forall>q < qs. seqs' q = map_option (\<lambda>g. g \<union> {s. (q, s) \<in> set (map (\<lambda>e. (rv_qid e, rv_seq e)) es)}) (seqs q))"
  using assms
proof (induction n arbitrary: pos arrived acc seqs)
  case (Suc n)
  show ?case
  proof (cases arrived)
    case Nil
    with Suc.prems show ?thesis by (auto simp: map_option_idI)
  next
    case (Cons d rest)
    with Suc.prems obtain q sn where d: "sched_fields d = Inr (q, sn)" by (auto split: sum.splits)
    let ?e = "\<lparr>rv_pos = pos, rv_qid = q, rv_seq = sn, rv_valid = (q < qs)\<rparr>"
    obtain seqs1 where s1: "wf2q_recv_loop n qs (pos + 1) rest (acc @ [?e]) seqs1 = Inr (res, seqs')"
        "\<forall>q' < qs. seqs1 q' = map_option (\<lambda>g. g \<union> {s. q' = q \<and> s = sn}) (seqs q')"
      using Suc.prems Cons d by (auto simp: not_le map_option_idI split: if_splits option.splits)
    from Suc.IH [OF s1(1)] obtain es where es: "res = (acc @ [?e]) @ es" "length es \<le> n"
        "map sched_fields (take (length es) rest) = map (\<lambda>e. Inr (rv_qid e, rv_seq e)) es"
        "length es < n \<longrightarrow> length rest = length es"
        "\<forall>q < qs. seqs' q = map_option (\<lambda>g. g \<union> {s. (q, s) \<in> set (map (\<lambda>e. (rv_qid e, rv_seq e)) es)}) (seqs1 q)" by blast
    have "seqs' q' = map_option (\<lambda>g. g \<union> {s. (q', s) \<in> set (map (\<lambda>e. (rv_qid e, rv_seq e)) (?e # es))}) (seqs q')"
      if "q' < qs" for q'
      using es(5) s1(2) that by (cases "seqs q'") auto
    with es(1-4) d Cons show ?thesis by (intro exI [of _ "?e # es"]) simp
  qed
qed (simp add: map_option_idI)

lemma wf2q_recv_loop_ok:
  assumes "map sched_fields (take n arrived) = map Inr ks" "\<forall>(q, s) \<in> set ks. seqs q \<noteq> None"
  shows "\<exists>r. wf2q_recv_loop n qs pos arrived acc seqs = Inr r"
  using assms
proof (induction n arbitrary: pos arrived acc seqs ks)
  case (Suc n)
  show ?case
  proof (cases arrived)
    case (Cons d ds)
    with Suc.prems(1) obtain q sn ks' where k: "ks = (q, sn) # ks'" "sched_fields d = Inr (q, sn)"
        "map sched_fields (take n ds) = map Inr ks'" by (cases ks) auto
    with Suc.prems(2) obtain got where got: "seqs q = Some got" by auto
    have "\<forall>(q', s) \<in> set ks'. (seqs(q \<mapsto> insert sn got)) q' \<noteq> None" "\<forall>(q', s) \<in> set ks'. seqs q' \<noteq> None"
      using Suc.prems(2) k(1) by auto
    with Suc.IH [OF k(3)] k(2) got Cons show ?thesis by simp
  qed simp
qed simp

lemma wf2q_receive_iff:
  assumes cfg: "configs_ok cfgs" and qids: "map qc_qid cfgs = py_range (int (length cfgs))"
  shows "(\<exists>data. wf2q_receive cfgs (total_pkts cfgs) arrived = Inr data) \<longleftrightarrow> all_arrived cfgs arrived"
proof -
  have d: "distinct (map qc_qid cfgs)" "\<forall>c \<in> set cfgs. 0 \<le> qc_count c" using cfg by (auto simp: configs_ok_def)
  let ?N = "nat (total_pkts cfgs)" let ?key = "\<lambda>e :: wf2q_recv. (rv_qid e, rv_seq e)"
  have N: "length (sent_keys cfgs) = ?N" using sent_keys_length [OF d(2)] by simp
  have init: "recv_seqs_init cfgs (qc_qid c) = Some {}" if "c \<in> set cfgs" for c
    unfolding recv_seqs_init_def by (rule map_of_rev_configs [OF d(1) that])
  have e: "expected_seqs cfgs (qc_qid c) = Some (set (py_range (qc_count c)))" if "c \<in> set cfgs" for c
    unfolding expected_seqs_def by (rule map_of_rev_configs [OF d(1) that])
  have small: "qc_qid c < int (length cfgs)" if "c \<in> set cfgs" for c
  proof -
    have "qc_qid c \<in> set (map qc_qid cfgs)" using that by simp
    then show ?thesis unfolding qids by simp
  qed
  have check: "wf2q_receive cfgs (total_pkts cfgs) arrived =
      (if set (sent_keys cfgs) \<subseteq> set (map ?key es) then Inr es else Inl (AssertionError ''WF2Q missing packets''))"
    if l: "wf2q_recv_loop ?N (int (length cfgs)) 0 arrived [] (recv_seqs_init cfgs) = Inr (es, seqs)" for es seqs
  proof -
    have s: "seqs (qc_qid c) = Some {s. (qc_qid c, s) \<in> set (map ?key es)}" if "c \<in> set cfgs" for c
      using wf2q_recv_loop_run [OF l] small [OF that] init [OF that] by auto
    have "no_missing (expected_seqs cfgs) seqs cfgs =
        Inr (\<forall>c \<in> set cfgs. set (py_range (qc_count c)) \<subseteq> {s. (qc_qid c, s) \<in> set (map ?key es)})"
      by (rule no_missing_run) (simp only: s e)
    moreover have "(\<forall>c \<in> set cfgs. set (py_range (qc_count c)) \<subseteq> {s. (qc_qid c, s) \<in> set (map ?key es)}) \<longleftrightarrow>
        set (sent_keys cfgs) \<subseteq> set (map ?key es)"
      unfolding set_sent_keys subset_iff set_py_range mem_Collect_eq atLeastLessThan_iff by blast
    ultimately show ?thesis using l by (simp add: wf2q_receive_def del: set_map set_py_range)
  qed
  show ?thesis
  proof
    assume "\<exists>data. wf2q_receive cfgs (total_pkts cfgs) arrived = Inr data"
    then obtain data where run: "wf2q_receive cfgs (total_pkts cfgs) arrived = Inr data" by blast
    then obtain es seqs where l: "wf2q_recv_loop ?N (int (length cfgs)) 0 arrived [] (recv_seqs_init cfgs) = Inr (es, seqs)"
      by (auto simp: wf2q_receive_def split: sum.splits)
    have sub: "set (sent_keys cfgs) \<subseteq> set (map ?key es)" using run check [OF l] by (simp split: if_splits)
    from wf2q_recv_loop_run [OF l] have es: "length es \<le> ?N"
        "map sched_fields (take (length es) arrived) = map (\<lambda>e. Inr (?key e)) es" by auto
    have m: "mset (map ?key es) = mset (sent_keys cfgs)"
      by (rule distinct_covered [OF sent_keys_distinct [OF d(1)] sub]) (use es(1) N in simp)
    then have "length es = ?N" using N by (metis length_map size_mset)
    with es(2) m show "all_arrived cfgs arrived"
      unfolding all_arrived_def by (intro exI [of _ "map ?key es"]) simp
  next
    assume "all_arrived cfgs arrived"
    then obtain ks where ks: "map sched_fields (take ?N arrived) = map Inr ks" "mset ks = mset (sent_keys cfgs)"
      unfolding all_arrived_def by blast
    have "set ks = set (sent_keys cfgs)" using ks(2) by (metis set_mset_mset)
    then have "\<forall>(q, s) \<in> set ks. recv_seqs_init cfgs q \<noteq> None" by (auto simp: set_sent_keys init)
    from wf2q_recv_loop_ok [OF ks(1) this, of "int (length cfgs)" 0 "[]"] obtain es seqs where
        l: "wf2q_recv_loop ?N (int (length cfgs)) 0 arrived [] (recv_seqs_init cfgs) = Inr (es, seqs)" by auto
    from wf2q_recv_loop_run [OF l] have es: "length es \<le> ?N" "length es < ?N \<longrightarrow> length arrived = length es"
        "map sched_fields (take (length es) arrived) = map (\<lambda>e. Inr (?key e)) es" by auto
    have "length (take ?N arrived) = ?N"
      using arg_cong [OF ks(1), of length] N ks(2) by (metis length_map size_mset)
    then have "length es = ?N" using es(1,2) by (cases "length es < ?N") auto
    with es(3) ks(1) have "map Inr ks = (map Inr (map ?key es) :: (exn + int \<times> int) list)" by simp
    then have "ks = map ?key es" by (metis inj_Inr inj_map_eq_map)
    with \<open>set ks = set (sent_keys cfgs)\<close> have "set (sent_keys cfgs) \<subseteq> set (map ?key es)" by simp
    with check [OF l] show "\<exists>data. wf2q_receive cfgs (total_pkts cfgs) arrived = Inr data" by simp
  qed
qed

text \<open>Packets as the tests build them arrive, in whatever order they come back.\<close>

lemma built_arrive:
  assumes cfg: "configs_ok cfgs"
    and built: "list_all2 (\<lambda>(q, sn) p. \<exists>sz. build_sched_test_pkt q sn sz = Inr p) (sent_keys cfgs) ps"
    and order: "mset arrived = mset ps"
  shows "all_arrived cfgs arrived"
proof -
  have "map sched_fields ps = map Inr (sent_keys cfgs)"
    using built by (induction rule: list_all2_induct) (auto dest: build_fields)
  then have m: "image_mset sched_fields (mset arrived) = image_mset Inr (mset (sent_keys cfgs))"
    unfolding order by (metis mset_map)
  let ?ks = "map (projr \<circ> sched_fields) arrived"
  have "\<forall>d \<in> set arrived. sched_fields d = Inr (projr (sched_fields d))"
  proof
    fix d assume "d \<in> set arrived"
    then have "sched_fields d \<in># image_mset sched_fields (mset arrived)" by simp
    then show "sched_fields d = Inr (projr (sched_fields d))" unfolding m by auto
  qed
  then have f: "map sched_fields arrived = map Inr ?ks" by simp
  have "mset ?ks = image_mset projr (image_mset sched_fields (mset arrived))"
    by (simp add: image_mset.compositionality)
  also have "\<dots> = mset (sent_keys cfgs)" unfolding m by (simp add: image_mset.compositionality o_def)
  finally have k: "mset ?ks = mset (sent_keys cfgs)" .
  have "length arrived = nat (total_pkts cfgs)"
    using sent_keys_length [of cfgs] cfg k by (metis configs_ok_def length_map size_mset)
  with f k show ?thesis unfolding all_arrived_def by (intro exI [of _ ?ks]) simp
qed

end
