(* ===== verification/Py_Float.thy ===== *)
theory Py_Float
  imports Complex_Main Prelude
begin

text \<open>
  Python's \<open>float\<close>, as far as the scheduler tests use it: quotients of integers, sums, order and
  \<open>int\<close>. A finite double is the rational number that it stands for; an operation rounds its exact
  result to 53 significant bits, ties to even (IEEE 754, binary64). The range of the exponent is
  left out: the values of the program lie between \<open>2 ^ -12\<close> and \<open>2 ^ 20\<close>.
\<close>

section \<open>Rounding\<close>

definition round_even :: "rat \<Rightarrow> int" where
  "round_even z = (let n = \<lfloor>z\<rfloor>; d = z - of_int n in
     if d < 1 / 2 \<or> d = 1 / 2 \<and> even n then n else n + 1)"

text \<open>The exponent of the leading bit.\<close>

definition exponent2 :: "rat \<Rightarrow> int" where
  "exponent2 x = (if 1 \<le> x then bit_length \<lfloor>x\<rfloor> - 1 else - bit_length (\<lceil>1 / x\<rceil> - 1))"

definition double_pos :: "rat \<Rightarrow> rat" where
  "double_pos x = (let q = 2 powi (52 - exponent2 x) in of_int (round_even (x * q)) / q)"

definition to_double :: "rat \<Rightarrow> rat" where
  "to_double x = (if x = 0 then 0 else if 0 < x then double_pos x else - double_pos (- x))"

definition float_add :: "rat \<Rightarrow> rat \<Rightarrow> rat" where
  "float_add x y = to_double (x + y)"

definition float_div :: "rat \<Rightarrow> rat \<Rightarrow> rat" where
  "float_div x y = to_double (x / y)"

text \<open>\<open>a / b\<close> of integers is rounded once, even where \<open>a\<close> and \<open>b\<close> are no doubles.\<close>

definition int_truediv :: "int \<Rightarrow> int \<Rightarrow> rat" where
  "int_truediv a b = to_double (of_int a / of_int b)"

definition float_trunc :: "rat \<Rightarrow> int" where
  "float_trunc x = (if 0 \<le> x then \<lfloor>x\<rfloor> else \<lceil>x\<rceil>)"

section \<open>What rounding does\<close>

lemma round_even_near: "\<bar>of_int (round_even z) - z\<bar> \<le> 1 / 2"
proof -
  have "of_int \<lfloor>z\<rfloor> \<le> z" "z < of_int \<lfloor>z\<rfloor> + 1" by linarith+
  then have "z - of_int \<lfloor>z\<rfloor> \<le> 1 / 2 \<Longrightarrow> ?thesis" "\<not> z - of_int \<lfloor>z\<rfloor> < 1 / 2 \<Longrightarrow> ?thesis"
    by (simp_all add: round_even_def Let_def abs_le_iff)
  then show ?thesis by linarith
qed

lemma round_even_ge: "of_int n \<le> z \<Longrightarrow> n \<le> round_even z"
proof -
  assume "of_int n \<le> z"
  then have "n \<le> \<lfloor>z\<rfloor>" by (simp add: le_floor_iff)
  then show ?thesis by (auto simp: round_even_def Let_def)
qed

lemma bit_length_bounds: "0 < n \<Longrightarrow> 2 ^ nat (bit_length n - 1) \<le> n \<and> n < 2 ^ nat (bit_length n) \<and> 0 < bit_length n"
proof -
  assume n: "0 < n"
  then have b: "2 ^ (bitlen (nat n) - 1) \<le> nat n" "nat n < 2 ^ bitlen (nat n)" "0 < bitlen (nat n)"
    using bitlen_bounds [of "nat n"] by (auto simp: bitlen_pos)
  then have "int (2 ^ (bitlen (nat n) - 1)) \<le> n" "n < int (2 ^ bitlen (nat n))" using n by linarith+
  with b(3) n show ?thesis by (simp add: bit_length_def nat_diff_distrib)
qed

lemma exponent2_bounds:
  assumes x: "0 < x"
  shows "2 powi exponent2 x \<le> x" "x < 2 powi (exponent2 x + 1)"
proof -
  have "2 powi exponent2 x \<le> x \<and> x < 2 powi (exponent2 x + 1)"
  proof (cases "1 \<le> x")
    case True
    let ?n = "\<lfloor>x\<rfloor>" and ?b = "bit_length \<lfloor>x\<rfloor>"
    have n: "0 < ?n" using True by (simp add: less_floor_iff)
    from bit_length_bounds [OF n] have b: "2 ^ nat (?b - 1) \<le> ?n" "?n + 1 \<le> 2 ^ nat ?b" "0 < ?b" by auto
    have "(2 :: rat) ^ nat (?b - 1) = of_int (2 ^ nat (?b - 1))" "(2 :: rat) ^ nat ?b = of_int (2 ^ nat ?b)" by simp_all
    moreover have "of_int (2 ^ nat (?b - 1)) \<le> (of_int ?n :: rat)" "of_int (?n + 1) \<le> (of_int (2 ^ nat ?b) :: rat)"
      using b(1,2) by (simp_all only: of_int_le_iff)
    ultimately have "(2 :: rat) ^ nat (?b - 1) \<le> x" "x < 2 ^ nat ?b" by linarith+
    then show ?thesis using True b(3) by (simp add: exponent2_def power_int_def)
  next
    case False
    let ?m = "\<lceil>1 / x\<rceil> - 1"
    have y: "1 < 1 / x" using False x by simp
    then have m: "0 < ?m" by linarith
    let ?b = "bit_length ?m"
    from bit_length_bounds [OF m] have b: "2 ^ nat (?b - 1) \<le> ?m" "?m + 1 \<le> 2 ^ nat ?b" "0 < ?b" by auto
    have "of_int ?m < 1 / x" "1 / x \<le> of_int (?m + 1)" by linarith+
    moreover have "of_int (2 ^ nat (?b - 1)) \<le> (of_int ?m :: rat)" "of_int (?m + 1) \<le> (of_int (2 ^ nat ?b) :: rat)"
      using b(1,2) by (simp_all only: of_int_le_iff)
    moreover have "(2 :: rat) ^ nat (?b - 1) = of_int (2 ^ nat (?b - 1))" "(2 :: rat) ^ nat ?b = of_int (2 ^ nat ?b)" by simp_all
    ultimately have p: "(2 :: rat) ^ nat (?b - 1) < 1 / x" "1 / x \<le> 2 ^ nat ?b" by linarith+
    have "1 / 2 ^ nat ?b \<le> x" using p(2) x by (simp add: field_simps)
    moreover have "x < 1 / 2 ^ nat (?b - 1)" using p(1) x by (simp add: field_simps)
    moreover have "2 powi (- ?b) = 1 / (2 :: rat) ^ nat ?b" "2 powi (- ?b + 1) = 1 / (2 :: rat) ^ nat (?b - 1)"
      using b(3) by (simp_all add: power_int_def field_simps)
    ultimately show ?thesis using False by (simp add: exponent2_def)
  qed
  then show "2 powi exponent2 x \<le> x" "x < 2 powi (exponent2 x + 1)" by blast+
qed

text \<open>The relative error of an operation is at most \<open>2 ^ -53\<close>.\<close>

lemma double_pos_near:
  assumes x: "0 < x"
  shows "\<bar>double_pos x - x\<bar> \<le> x / 2 ^ 53"
proof -
  let ?q = "2 powi (52 - exponent2 x) :: rat"
  have q: "0 < ?q" by simp
  have "?q * 2 powi exponent2 x = 2 ^ 52" by (simp flip: power_int_add add: power_int_numeral)
  then have "2 ^ 52 \<le> x * ?q"
    using mult_left_mono [OF exponent2_bounds(1) [OF x], of ?q] q by (simp add: mult.commute)
  then have "1 / 2 \<le> x * ?q / 2 ^ 53" by simp
  with round_even_near [of "x * ?q"] have "\<bar>of_int (round_even (x * ?q)) - x * ?q\<bar> \<le> x * ?q / 2 ^ 53" by linarith
  then have "\<bar>of_int (round_even (x * ?q)) - x * ?q\<bar> / ?q \<le> x / 2 ^ 53"
    using q by (simp add: pos_divide_le_eq)
  moreover have "double_pos x - x = (of_int (round_even (x * ?q)) - x * ?q) / ?q"
    using q by (simp add: double_pos_def Let_def diff_divide_distrib)
  ultimately show ?thesis using q by (simp add: abs_divide)
qed

lemma to_double_near: "0 \<le> x \<Longrightarrow> \<bar>to_double x - x\<bar> \<le> x / 2 ^ 53"
  using double_pos_near [of x] by (auto simp: to_double_def)

lemma to_double_nonneg: "0 \<le> x \<Longrightarrow> 0 \<le> to_double x"
proof -
  assume "0 \<le> x"
  with to_double_near [OF this] have "\<bar>to_double x - x\<bar> \<le> x / 2 ^ 53" "x / 2 ^ 53 \<le> x" by simp_all
  then show ?thesis by linarith
qed

text \<open>
  \<open>int (a / b)\<close> is the integer quotient as long as the numerator is below \<open>2 ^ 53\<close>: the rounding
  never reaches the next integer.
\<close>

lemma double_scale:
  assumes x: "0 < x" "x < 2 ^ 53"
  shows "\<exists>k. 2 powi (52 - exponent2 x) = (of_int (2 ^ k) :: rat)"
proof -
  have "2 powi exponent2 x < (2 :: rat) powi 53"
    using exponent2_bounds(1) [OF x(1)] x(2) by (simp add: power_int_numeral)
  then have "exponent2 x \<le> 52"
    using power_int_increasing [of 53 "exponent2 x" "2 :: rat"] by (cases "53 \<le> exponent2 x") auto
  then show ?thesis by (intro exI [of _ "nat (52 - exponent2 x)"]) (simp add: power_int_def)
qed

text \<open>Integers below \<open>2 ^ 53\<close> are doubles.\<close>

lemma round_even_int [simp]: "round_even (of_int n) = n"
  by (simp add: round_even_def Let_def)

lemma of_int_bound: "a < 2 ^ k \<Longrightarrow> of_int a < (2 :: rat) ^ k"
proof -
  assume "a < 2 ^ k"
  then have "of_int a < (of_int (2 ^ k) :: rat)" by (simp only: of_int_less_iff)
  then show ?thesis by simp
qed

lemma to_double_int:
  assumes "0 \<le> n" "n < 2 ^ 53"
  shows "to_double (of_int n) = of_int n"
proof (cases "n = 0")
  case False
  then have x: "0 < (of_int n :: rat)" "(of_int n :: rat) < 2 ^ 53" using assms of_int_bound by auto
  then obtain k where k: "2 powi (52 - exponent2 (of_int n)) = (of_int (2 ^ k) :: rat)" using double_scale by blast
  have "of_int n * of_int (2 ^ k) = (of_int (n * 2 ^ k) :: rat)" by simp
  then show ?thesis using x(1) unfolding to_double_def double_pos_def Let_def k by (simp only: round_even_int) simp
qed (simp add: to_double_def)

lemma trunc_truediv:
  assumes a: "0 \<le> a" "a < 2 ^ 53" and b: "0 < b"
  shows "float_trunc (int_truediv a b) = a div b"
proof (cases "a = 0")
  case False
  define x where "x = (of_int a / of_int b :: rat)"
  let ?n = "a div b"
  define q :: rat where "q = 2 powi (52 - exponent2 x)"
  have x: "0 < x" using False a b by (simp add: x_def)
  have q: "0 < q" by (simp add: q_def)
  have xb: "x * of_int b = of_int a" using b by (simp add: x_def)
  have div: "?n * b \<le> a" "a + 1 \<le> (?n + 1) * b"
  proof -
    have "?n * b + a mod b = a" by (rule div_mult_mod_eq)
    then show "?n * b \<le> a" "a + 1 \<le> (?n + 1) * b"
      using pos_mod_bound [OF b, of a] pos_mod_sign [OF b, of a] unfolding distrib_right by linarith+
  qed
  have lo: "of_int ?n \<le> x"
    unfolding x_def using b div(1) by (simp add: pos_le_divide_eq flip: of_int_mult)
  have "of_int (a + 1) \<le> (of_int ((?n + 1) * b) :: rat)" using div(2) by (simp only: of_int_le_iff)
  then have hi: "x + 1 / of_int b \<le> of_int (?n + 1)"
    unfolding x_def using b by (simp add: pos_divide_le_eq flip: add_divide_distrib)
  have "(1 :: rat) \<le> of_int b" using b by linarith
  then have "x * 1 \<le> x * of_int b" using x by (intro mult_left_mono) simp_all
  then have "x < 2 ^ 53" using of_int_bound [OF a(2)] xb by simp
  from double_scale [OF x this] obtain k where qk: "q = of_int (2 ^ k)" unfolding q_def by blast
  let ?r = "round_even (x * q)"
  have "of_int (?n * 2 ^ k) \<le> x * q" using mult_right_mono [OF lo, of q] q by (simp add: qk)
  then have r1: "?n * 2 ^ k \<le> ?r" by (rule round_even_ge)
  have "q * 2 powi exponent2 x = 2 ^ 52" unfolding q_def by (simp flip: power_int_add add: power_int_numeral)
  then have "2 ^ 52 \<le> q * x" using mult_left_mono [OF exponent2_bounds(1) [OF x], of q] q by simp
  then have "2 ^ 52 * of_int b \<le> q * x * of_int b" using b by (intro mult_right_mono) simp_all
  also have "\<dots> = q * of_int a" using xb by (simp add: mult.assoc)
  also have "\<dots> < q * 2 ^ 53" using q of_int_bound [OF a(2)] by (intro mult_strict_left_mono)
  finally have "of_int b < 2 * q" by simp
  then have half: "1 / 2 < q / of_int b" using b by (simp add: pos_less_divide_eq)
  have "(x + 1 / of_int b) * q \<le> of_int (?n + 1) * q"
    using mult_right_mono [OF hi, of q] q by simp
  then have "x * q + q / of_int b \<le> of_int (?n + 1) * q" by (simp add: distrib_right)
  then have "of_int ?r < of_int (?n + 1) * q" using round_even_near [of "x * q"] half by linarith
  then have "of_int ?r < (of_int ((?n + 1) * 2 ^ k) :: rat)" by (simp only: qk of_int_mult)
  then have r2: "?r < (?n + 1) * 2 ^ k" by (simp only: of_int_less_iff)
  have d: "to_double x = of_int ?r / of_int (2 ^ k)"
    using x by (simp add: to_double_def double_pos_def Let_def qk flip: q_def)
  have "of_int (?n * 2 ^ k) \<le> (of_int ?r :: rat)" "of_int ?r < (of_int ((?n + 1) * 2 ^ k) :: rat)"
    using r1 r2 by (simp_all only: of_int_le_iff of_int_less_iff)
  then have "\<lfloor>to_double x\<rfloor> = ?n"
    by (intro floor_unique) (simp_all add: d pos_le_divide_eq pos_divide_less_eq)
  moreover have "0 \<le> to_double x" using to_double_nonneg x by simp
  ultimately show ?thesis by (simp add: int_truediv_def float_trunc_def flip: x_def)
qed (simp add: int_truediv_def to_double_def float_trunc_def)

end
