(* ===== verification/Rank_Policies.thy ===== *)
theory Rank_Policies
  imports Sched_Check Py_Float "HOL-Library.Product_Lexorder"
begin

text \<open>
  The rank computations of the scheduler tests: strict priority, earliest deadline first,
  shortest remaining bytes and weighted fair queueing, with the workloads the tests run and the
  checks each test makes on the order of reception. Every rank fits the 13 bits of the doorbell;
  ranks are ordered as the quantities they stand for; weighted fair queueing serves every
  backlogged queue in proportion to its weight, although its virtual times are sums of rounded
  floating point numbers.
\<close>

section \<open>Entries\<close>

record pkt_entry =
  pe_pkt :: "byte list"
  pe_rank :: int
  pe_seq :: int

primrec mapR :: "('a \<Rightarrow> exn + 'b) \<Rightarrow> 'a list \<Rightarrow> exn + 'b list" where
  "mapR f [] = Inr []"
| "mapR f (x # xs) = (case f x of
     Inl e \<Rightarrow> Inl e
   | Inr y \<Rightarrow> (case mapR f xs of Inl e \<Rightarrow> Inl e | Inr ys \<Rightarrow> Inr (y # ys)))"

definition sched_entry :: "int \<Rightarrow> int \<Rightarrow> int \<Rightarrow> int \<Rightarrow> exn + pkt_entry" where
  "sched_entry qid sn sz rank = (case build_sched_test_pkt qid sn sz of
     Inl e \<Rightarrow> Inl e
   | Inr p \<Rightarrow> Inr \<lparr>pe_pkt = p, pe_rank = rank, pe_seq = sn\<rparr>)"

definition rank_max :: int where
  "rank_max = 0x1FFF"

section \<open>Strict priority\<close>

record sp_config = queue_config +
  qc_rank :: int

definition sp_queue_configs :: "sp_config list" where
  "sp_queue_configs = map (\<lambda>(q, r). \<lparr>qc_qid = q, qc_count = SCHED_TEST_PKT_COUNT, qc_rank = r\<rparr>)
     [(0, 0x100), (1, 0x200), (2, 0x300), (3, 0x400), (4, 0x500),
      (5, 0x600), (6, 0x700), (7, 0x800), (8, 0x900), (9, 0x1000)]"

definition sp_pkts_per_queue :: "sp_config list \<Rightarrow> exn + (int \<times> pkt_entry list) list" where
  "sp_pkts_per_queue = mapR (\<lambda>c.
     case mapR (\<lambda>sn. sched_entry (qc_qid c) sn SCHED_TEST_PKT_SIZE (qc_rank c)) (py_range (qc_count c)) of
       Inl e \<Rightarrow> Inl e
     | Inr es \<Rightarrow> Inr (qc_qid c, es))"

definition sp_check :: "sp_config list \<Rightarrow> byte list list \<Rightarrow> exn + recv_report" where
  "sp_check cfgs arrived =
     assert_all_ok ''Strict priority missing packets'' (receive_scheduler_packets cfgs (total_pkts cfgs) arrived)"

section \<open>Earliest deadline first\<close>

record edf_config = queue_config +
  qc_base_deadline :: int

definition edf_queue_configs :: "edf_config list" where
  "edf_queue_configs = map (\<lambda>(q, b). \<lparr>qc_qid = q, qc_count = SCHED_TEST_PKT_COUNT, qc_base_deadline = b\<rparr>)
     [(0, 1000), (1, 1600), (2, 2200), (3, 2800), (4, 3400),
      (5, 4000), (6, 4600), (7, 5200), (8, 5800), (9, 6400)]"

definition deadline_step :: int where
  "deadline_step = 11"

definition edf_deadline :: "edf_config \<Rightarrow> int \<Rightarrow> int" where
  "edf_deadline c sn = qc_base_deadline c + sn * deadline_step"

definition edf_rank :: "edf_config \<Rightarrow> int \<Rightarrow> int" where
  "edf_rank c sn = min (edf_deadline c sn) rank_max"

definition edf_pkts_by_qid :: "edf_config list \<Rightarrow> exn + (int \<times> pkt_entry list) list" where
  "edf_pkts_by_qid = mapR (\<lambda>c.
     case mapR (\<lambda>sn. sched_entry (qc_qid c) sn SCHED_TEST_PKT_SIZE (edf_rank c sn)) (py_range (qc_count c)) of
       Inl e \<Rightarrow> Inl e
     | Inr es \<Rightarrow> Inr (qc_qid c, es))"

text \<open>\<open>metric_lookup\<close>, a dict from (queue, sequence number) to rank.\<close>

definition edf_metric :: "edf_config list \<Rightarrow> (int \<times> int \<Rightarrow> int option)" where
  "edf_metric cfgs = map_of (rev (concat (map (\<lambda>c. map (\<lambda>sn. ((qc_qid c, sn), edf_rank c sn)) (py_range (qc_count c))) cfgs)))"

text \<open>The positions at which a packet came back with a smaller rank than the one before.\<close>

fun edf_violations :: "(int \<times> int \<Rightarrow> int option) \<Rightarrow> int option \<Rightarrow> recv_entry list \<Rightarrow> exn + (nat \<times> int \<times> int \<times> int \<times> int) list" where
  "edf_violations metric prev [] = Inr []"
| "edf_violations metric prev (p # ps) = (case metric (recv_key p) of
     None \<Rightarrow> Inl KeyError
   | Some rank \<Rightarrow> (case edf_violations metric (Some rank) ps of
       Inl e \<Rightarrow> Inl e
     | Inr vs \<Rightarrow> Inr (case prev of
           Some r \<Rightarrow> if rank < r then (rv_pos p, r, rank, rv_qid p, rv_seq p) # vs else vs
         | None \<Rightarrow> vs)))"

text \<open>After reception the test looks the order over, reports violations, and asserts that nothing is missing.\<close>

definition edf_check :: "edf_config list \<Rightarrow> byte list list \<Rightarrow> exn + recv_report \<times> (nat \<times> int \<times> int \<times> int \<times> int) list" where
  "edf_check cfgs arrived = (case receive_scheduler_packets cfgs (total_pkts cfgs) arrived of
     Inl e \<Rightarrow> Inl e
   | Inr rp \<Rightarrow> (case edf_violations (edf_metric cfgs) None (rp_data rp) of
       Inl e \<Rightarrow> Inl e
     | Inr vs \<Rightarrow> (case assert_all_ok ''EDF missing packets'' (Inr rp) of
         Inl e \<Rightarrow> Inl e
       | Inr rp \<Rightarrow> Inr (rp, vs))))"

section \<open>Shortest remaining bytes\<close>

record srpt_config = queue_config +
  qc_pkt_size :: int

definition srpt_queue_configs :: "srpt_config list" where
  "srpt_queue_configs = map (\<lambda>(q, b). \<lparr>qc_qid = q, qc_count = SCHED_TEST_PKT_COUNT, qc_pkt_size = b\<rparr>)
     [(0, 256), (1, 384), (2, 512), (3, 768), (4, 1024),
      (5, 1280), (6, 1536), (7, 2048), (8, 3072), (9, 4096)]"

record srpt_raw =
  sr_qid :: int
  sr_seq :: int
  sr_pkt_size :: int
  sr_remaining :: int

primrec srpt_raw_loop :: "srpt_config \<Rightarrow> int list \<Rightarrow> int \<Rightarrow> srpt_raw list" where
  "srpt_raw_loop c [] remaining_bytes = []"
| "srpt_raw_loop c (sn # sns) remaining_bytes =
     \<lparr>sr_qid = qc_qid c, sr_seq = sn, sr_pkt_size = qc_pkt_size c, sr_remaining = remaining_bytes\<rparr> #
     srpt_raw_loop c sns (remaining_bytes - qc_pkt_size c)"

definition srpt_raw_entries :: "srpt_config list \<Rightarrow> srpt_raw list" where
  "srpt_raw_entries cfgs =
     concat (map (\<lambda>c. srpt_raw_loop c (py_range (qc_count c)) (qc_pkt_size c * qc_count c)) cfgs)"

definition normalize_remaining_to_rank :: "int \<Rightarrow> int \<Rightarrow> int \<Rightarrow> int" where
  "normalize_remaining_to_rank min_remaining max_remaining v =
     (if max_remaining = min_remaining then 1
      else let scaled = 1 + float_trunc (int_truediv ((v - min_remaining) * (rank_max - 1)) (max_remaining - min_remaining))
        in min (max scaled 1) rank_max)"

definition srpt_entries :: "srpt_config list \<Rightarrow> exn + (srpt_raw \<times> pkt_entry) list" where
  "srpt_entries cfgs = (let raw = srpt_raw_entries cfgs; vals = map sr_remaining raw in
     if vals = [] then Inl (ValueError ''min() arg is an empty sequence'')
     else mapR (\<lambda>r. case sched_entry (sr_qid r) (sr_seq r) (sr_pkt_size r)
           (normalize_remaining_to_rank (Min (set vals)) (Max (set vals)) (sr_remaining r)) of
         Inl e \<Rightarrow> Inl e
       | Inr p \<Rightarrow> Inr (r, p)) raw)"

text \<open>
  The check of the order in which the queues finish: the last positions of the queues in
  ascending order, with the sizes of their packets.
\<close>

definition completion_pos :: "recv_entry list \<Rightarrow> int \<Rightarrow> nat list" where
  "completion_pos recv_data qid = map rv_pos (filter (\<lambda>p. rv_qid p = qid) recv_data)"

definition queue_finish_order :: "srpt_config list \<Rightarrow> recv_entry list \<Rightarrow> (nat \<times> int \<times> int) list" where
  "queue_finish_order cfgs recv_data = sort (
     map (\<lambda>c. (Max (set (completion_pos recv_data (qc_qid c))), qc_qid c, qc_pkt_size c))
       (filter (\<lambda>c. completion_pos recv_data (qc_qid c) \<noteq> []) cfgs))"

fun finish_violations :: "int option \<Rightarrow> (nat \<times> int \<times> int) list \<Rightarrow> (nat \<times> int \<times> int \<times> int) list" where
  "finish_violations prev [] = []"
| "finish_violations prev ((pos, qid, sz) # rest) =
     (case prev of
        Some s \<Rightarrow> if sz < s then [(pos, qid, sz, s)] else []
      | None \<Rightarrow> []) @ finish_violations (Some sz) rest"

definition srpt_check :: "srpt_config list \<Rightarrow> byte list list \<Rightarrow> exn + recv_report" where
  "srpt_check cfgs arrived = (case receive_scheduler_packets cfgs (total_pkts cfgs) arrived of
     Inl e \<Rightarrow> Inl e
   | Inr rp \<Rightarrow> (case assert_all_ok ''SJF/SRPT-approx missing packets'' (Inr rp) of
       Inl e \<Rightarrow> Inl e
     | Inr rp \<Rightarrow>
         if finish_violations None (queue_finish_order cfgs (rp_data rp)) = [] then Inr rp
         else Inl (AssertionError ''SJF/SRPT-approx finish ordering violated'')))"

section \<open>Weighted fair queueing\<close>

record wf2q_config = queue_config +
  qc_weight :: int

definition wf2q_queue_configs :: "wf2q_config list" where
  "wf2q_queue_configs = map (\<lambda>(q, w). \<lparr>qc_qid = q, qc_count = SCHED_TEST_PKT_COUNT, qc_weight = w\<rparr>)
     [(0, 8), (1, 7), (2, 6), (3, 5), (4, 4), (5, 3), (6, 2), (7, 2), (8, 1), (9, 1)]"

record wf2q_entry =
  we_pkt :: "byte list"
  we_qid :: int
  we_seq :: int
  we_weight :: int
  we_vft :: rat

text \<open>One queue; the dict \<open>virtual_finish_times\<close> has an entry for every queue.\<close>

primrec wf2q_queue :: "wf2q_config \<Rightarrow> rat \<Rightarrow> int list \<Rightarrow> (int \<Rightarrow> rat) \<Rightarrow> exn + wf2q_entry list \<times> (int \<Rightarrow> rat)" where
  "wf2q_queue c increment [] vfts = Inr ([], vfts)"
| "wf2q_queue c increment (sn # sns) vfts =
     (let vft_current = float_add (vfts (qc_qid c)) increment in
      case build_sched_test_pkt (qc_qid c) sn SCHED_TEST_PKT_SIZE of
        Inl e \<Rightarrow> Inl e
      | Inr p \<Rightarrow> (case wf2q_queue c increment sns (vfts(qc_qid c := vft_current)) of
          Inl e \<Rightarrow> Inl e
        | Inr (es, v) \<Rightarrow> Inr (\<lparr>we_pkt = p, we_qid = qc_qid c, we_seq = sn, we_weight = qc_weight c,
            we_vft = vft_current\<rparr> # es, v)))"

primrec wf2q_pkt_entries :: "wf2q_config list \<Rightarrow> (int \<Rightarrow> rat) \<Rightarrow> exn + wf2q_entry list" where
  "wf2q_pkt_entries [] vfts = Inr []"
| "wf2q_pkt_entries (c # cs) vfts =
     (if qc_weight c = 0 then Inl ZeroDivisionError
      else case wf2q_queue c (float_div 1 (to_double (of_int (qc_weight c)))) (py_range (qc_count c)) vfts of
        Inl e \<Rightarrow> Inl e
      | Inr (es, v) \<Rightarrow> (case wf2q_pkt_entries cs v of Inl e \<Rightarrow> Inl e | Inr es' \<Rightarrow> Inr (es @ es')))"

text \<open>The packets with their ranks, in the order of \<open>pkts_with_rank\<close>.\<close>

definition wf2q_pkts_with_rank :: "wf2q_config list \<Rightarrow> exn + (wf2q_entry \<times> int) list" where
  "wf2q_pkts_with_rank cfgs = (case wf2q_pkt_entries cfgs (\<lambda>_. 0) of
     Inl e \<Rightarrow> Inl e
   | Inr entries \<Rightarrow>
       let ordered = sort_key (\<lambda>p. (we_vft p, we_qid p, we_seq p)) entries in
       if int (length ordered) \<le> rank_max
       then Inr (sort_key (\<lambda>p. (we_qid (fst p), we_seq (fst p))) (zip ordered (map int [1..<length ordered + 1])))
       else Inl (AssertionError ''WFQ test generates more packets than available rank space''))"

definition wf2q_pkts_by_qid :: "(wf2q_entry \<times> int) list \<Rightarrow> int \<Rightarrow> pkt_entry list" where
  "wf2q_pkts_by_qid out qid = map (\<lambda>(p, r). \<lparr>pe_pkt = we_pkt p, pe_rank = r, pe_seq = we_seq p\<rparr>)
     (filter (\<lambda>(p, r). we_qid p = qid) out)"

section \<open>The virtual finish times\<close>

primrec vft :: "rat \<Rightarrow> nat \<Rightarrow> rat" where
  "vft increment 0 = 0"
| "vft increment (Suc k) = float_add (vft increment k) increment"

definition wf2q_increment :: "int \<Rightarrow> rat" where
  "wf2q_increment w = float_div 1 (to_double (of_int w))"

lemma wf2q_queue_run:
  assumes "wf2q_queue c inc (map int [k..<k + n]) v = Inr (es, v')" "v (qc_qid c) = vft inc k"
  shows "map (\<lambda>e. (we_qid e, we_seq e)) es = map (Pair (qc_qid c)) (map int [k..<k + n]) \<and>
    (\<forall>e \<in> set es. we_vft e = vft inc (Suc (nat (we_seq e)))) \<and> (\<forall>q. q \<noteq> qc_qid c \<longrightarrow> v' q = v q)"
  using assms
proof (induction n arbitrary: k v es)
  case (Suc n)
  have up: "[k..<k + Suc n] = k # [Suc k..<Suc k + n]" by (simp add: upt_conv_Cons)
  let ?v = "float_add (v (qc_qid c)) inc"
  from Suc.prems(1) obtain p es' where p:
      "wf2q_queue c inc (map int [Suc k..<Suc k + n]) (v(qc_qid c := ?v)) = Inr (es', v')"
      "es = \<lparr>we_pkt = p, we_qid = qc_qid c, we_seq = int k, we_weight = qc_weight c, we_vft = ?v\<rparr> # es'"
    unfolding up by (auto simp: Let_def simp del: upt_Suc split: sum.splits prod.splits)
  have "(v(qc_qid c := ?v)) (qc_qid c) = vft inc (Suc k)" using Suc.prems(2) by simp
  from Suc.IH [OF p(1) this] show ?case unfolding up p(2) using Suc.prems(2) by simp
qed simp

definition wf2q_well_formed :: "wf2q_config list \<Rightarrow> wf2q_entry list \<Rightarrow> bool" where
  "wf2q_well_formed cfgs es \<longleftrightarrow> map (\<lambda>e. (we_qid e, we_seq e)) es = sent_keys cfgs \<and>
     (\<forall>e \<in> set es. \<exists>c \<in> set cfgs. we_qid e = qc_qid c \<and> 0 \<le> we_seq e \<and> we_seq e < qc_count c \<and>
        we_vft e = vft (wf2q_increment (qc_weight c)) (Suc (nat (we_seq e))))"

lemma wf2q_pkt_entries_run:
  assumes "wf2q_pkt_entries cfgs v = Inr es" "distinct (map qc_qid cfgs)" "\<forall>c \<in> set cfgs. v (qc_qid c) = 0"
  shows "wf2q_well_formed cfgs es"
  using assms
proof (induction cfgs arbitrary: v es)
  case (Cons c cs)
  from Cons.prems(1) obtain es1 v1 es2 where r: "wf2q_queue c (wf2q_increment (qc_weight c)) (py_range (qc_count c)) v = Inr (es1, v1)"
      "wf2q_pkt_entries cs v1 = Inr es2" "es = es1 @ es2"
    by (auto simp: wf2q_increment_def split: if_splits sum.splits)
  have "wf2q_queue c (wf2q_increment (qc_weight c)) (map int [0..<0 + nat (qc_count c)]) v = Inr (es1, v1)"
    using r(1) by (simp add: py_range_def)
  from wf2q_queue_run [OF this] Cons.prems(3)
  have q: "map (\<lambda>e. (we_qid e, we_seq e)) es1 = map (Pair (qc_qid c)) (py_range (qc_count c))"
      "\<forall>e \<in> set es1. we_vft e = vft (wf2q_increment (qc_weight c)) (Suc (nat (we_seq e)))" "\<forall>q. q \<noteq> qc_qid c \<longrightarrow> v1 q = v q"
    by (simp_all add: py_range_def)
  have "\<forall>c \<in> set cs. v1 (qc_qid c) = 0"
  proof
    fix d assume d: "d \<in> set cs"
    then have "qc_qid d \<in> set (map qc_qid cs)" by simp
    with Cons.prems(2) have "qc_qid d \<noteq> qc_qid c" by auto
    with d q(3) Cons.prems(3) show "v1 (qc_qid d) = 0" by simp
  qed
  with Cons.IH [OF r(2)] Cons.prems(2) have IH: "wf2q_well_formed cs es2" by simp
  have "we_qid e = qc_qid c \<and> 0 \<le> we_seq e \<and> we_seq e < qc_count c" if "e \<in> set es1" for e
  proof -
    have "(we_qid e, we_seq e) \<in> set (map (\<lambda>e. (we_qid e, we_seq e)) es1)" using that by force
    then show ?thesis unfolding q(1) by auto
  qed
  with IH q(1,2) show ?case unfolding wf2q_well_formed_def r(3)
    by (auto simp: sent_keys_def)
qed (simp add: wf2q_well_formed_def sent_keys_def)

text \<open>
  The sums of rounded increments stay close to the exact virtual times, close enough for the
  weights and packet numbers in use.
\<close>

lemma vft_nonneg: "0 \<le> inc \<Longrightarrow> 0 \<le> vft inc k"
  by (induction k) (auto simp: float_add_def intro: to_double_nonneg)

lemma wf2q_increment_near:
  assumes "1 \<le> w" "w < 2 ^ 53"
  shows "0 \<le> wf2q_increment w" "\<bar>wf2q_increment w - 1 / of_int w\<bar> \<le> 1 / 2 ^ 53"
proof -
  have w: "(1 :: rat) \<le> of_int w" using assms(1) by simp
  have d: "wf2q_increment w = to_double (1 / of_int w)" using assms by (simp add: wf2q_increment_def float_div_def to_double_int)
  show "0 \<le> wf2q_increment w" using w by (simp add: d to_double_nonneg)
  have "1 / of_int w \<le> (1 :: rat)" using w by (simp add: pos_divide_le_eq)
  then have "1 / of_int w / 2 ^ 53 \<le> (1 / 2 ^ 53 :: rat)" by (intro divide_right_mono) simp_all
  moreover have "\<bar>to_double (1 / of_int w) - 1 / of_int w\<bar> \<le> 1 / of_int w / 2 ^ 53"
    using w by (intro to_double_near) simp
  ultimately show "\<bar>wf2q_increment w - 1 / of_int w\<bar> \<le> 1 / 2 ^ 53" unfolding d by (rule order_trans [rotated])
qed

lemma vft_step:
  fixes v inc r kr t n :: rat
  assumes "\<bar>v - kr\<bar> \<le> n / 2 ^ 38" "\<bar>inc - r\<bar> \<le> 1 / 2 ^ 53" "\<bar>t - (v + inc)\<bar> \<le> (v + inc) / 2 ^ 53"
    and "kr \<le> n" "n \<le> 2 ^ 13" "0 \<le> n" "r \<le> 1"
  shows "\<bar>t - (kr + r)\<bar> \<le> (n + 1) / 2 ^ 38"
proof -
  have "n / 2 ^ 38 \<le> 1" "(1 :: rat) / 2 ^ 53 \<le> 1" using assms(5) by simp_all
  then have "v \<le> 2 ^ 13 + 1" "inc \<le> 2"
    using abs_le_D1 [OF assms(1)] abs_le_D1 [OF assms(2)] assms(4,5,7) by linarith+
  then have "\<bar>t - (v + inc)\<bar> \<le> (2 ^ 13 + 3) / 2 ^ 53" using assms(3) by simp
  with assms(1,2) have "\<bar>t - (kr + r)\<bar> \<le> n / 2 ^ 38 + 1 / 2 ^ 53 + (2 ^ 13 + 3) / 2 ^ 53" by linarith
  also have "\<dots> \<le> (n + 1) / 2 ^ 38" by (simp add: add_divide_distrib)
  finally show ?thesis .
qed

lemma vft_near:
  assumes w: "1 \<le> w" "w < 2 ^ 53" and k: "k \<le> 2 ^ 13"
  shows "\<bar>vft (wf2q_increment w) k - of_nat k / of_int w\<bar> \<le> of_nat k / 2 ^ 38"
  using k
proof (induction k)
  case (Suc k)
  let ?inc = "wf2q_increment w" and ?r = "1 / of_int w :: rat"
  let ?v = "vft ?inc k"
  have w1: "(1 :: rat) \<le> of_int w" using w(1) by simp
  then have r: "0 \<le> ?r" "?r \<le> 1" by (simp_all add: pos_divide_le_eq)
  have kr: "of_nat k / of_int w = of_nat k * ?r" by simp
  have "(of_nat k :: rat) \<le> of_nat (2 ^ 13)" using Suc.prems by (simp only: of_nat_le_iff)
  then have kk: "(of_nat k :: rat) \<le> 2 ^ 13" by simp
  have "\<bar>?v - of_nat k / of_int w\<bar> \<le> of_nat k / 2 ^ 38" using Suc by simp
  note near = this [unfolded kr]
  have le: "of_nat k * ?r \<le> of_nat k" using mult_left_mono [OF r(2), of "of_nat k"] by simp
  have pos: "0 \<le> ?v + ?inc" using vft_nonneg wf2q_increment_near(1) [OF w] by simp
  have "\<bar>to_double (?v + ?inc) - (of_nat k * ?r + ?r)\<bar> \<le> (of_nat k + 1) / 2 ^ 38"
    by (rule vft_step [OF near wf2q_increment_near(2) [OF w] to_double_near [OF pos] le kk _ r(2)]) simp
  moreover have "of_nat (Suc k) / of_int w = of_nat k * ?r + ?r" by (simp add: add_divide_distrib)
  moreover have "of_nat (Suc k) = (of_nat k + 1 :: rat)" by simp
  ultimately show ?case by (simp only: vft.simps float_add_def)
qed simp

text \<open>Comparing the rounded times of two queues compares the exact ones, to within less than one packet.\<close>

lemma vft_fair:
  assumes a: "1 \<le> wa" "wa \<le> 2048" and b: "1 \<le> wb" "wb \<le> 2048" and km: "k \<le> 2 ^ 13" "m \<le> 2 ^ 13"
    and le: "vft (wf2q_increment wb) k \<le> vft (wf2q_increment wa) m"
  shows "int k * wa \<le> int m * wb"
proof -
  have w: "wa < 2 ^ 53" "wb < 2 ^ 53" using a b by simp_all
  have nat_le: "(of_nat j :: rat) / 2 ^ 38 \<le> 1 / 2 ^ 25" if "j \<le> 2 ^ 13" for j
  proof -
    have "(of_nat j :: rat) \<le> of_nat (2 ^ 13)" using that by (simp only: of_nat_le_iff)
    then show ?thesis by simp
  qed
  have "\<bar>vft (wf2q_increment wb) k - of_nat k / of_int wb\<bar> \<le> 1 / 2 ^ 25"
      "\<bar>vft (wf2q_increment wa) m - of_nat m / of_int wa\<bar> \<le> 1 / 2 ^ 25"
    by (rule order_trans [OF vft_near [OF b(1) w(2) km(1)] nat_le [OF km(1)]],
        rule order_trans [OF vft_near [OF a(1) w(1) km(2)] nat_le [OF km(2)]])
  from abs_le_D2 [OF this(1)] abs_le_D1 [OF this(2)] le
  have "of_nat k / of_int wb \<le> (of_nat m / of_int wa + (1 / 2 ^ 25 + 1 / 2 ^ 25) :: rat)" by linarith
  then have "of_nat k / of_int wb \<le> (of_nat m / of_int wa + 1 / 2 ^ 24 :: rat)" by simp
  then have "of_nat k / of_int wb * (of_int wa * of_int wb) \<le> (of_nat m / of_int wa + 1 / 2 ^ 24) * (of_int wa * of_int wb :: rat)"
    using a b by (intro mult_right_mono) simp_all
  then have "of_nat k * of_int wa \<le> of_nat m * of_int wb + (of_int wa * of_int wb) / (2 ^ 24 :: rat)"
    using a b by (simp add: distrib_right)
  moreover have "wa * wb \<le> 2048 * 2048" using a b by (intro mult_mono) simp_all
  then have "of_int (wa * wb) \<le> (of_int (2048 * 2048) :: rat)" by (simp only: of_int_le_iff)
  then have "(of_int wa * of_int wb) / (2 ^ 24 :: rat) < 1" by simp
  ultimately have "of_int (int k * wa) < (of_int (int m * wb + 1) :: rat)" by simp
  then show ?thesis by (simp only: of_int_less_iff)
qed

lemma vft_less:
  assumes "1 \<le> w" "w \<le> 2048" "k < m" "m \<le> 2 ^ 13"
  shows "vft (wf2q_increment w) k < vft (wf2q_increment w) m"
proof (rule ccontr)
  assume "\<not> ?thesis"
  with vft_fair [OF assms(1,2,1,2), of m k] assms(3,4) have "int m * w \<le> int k * w" by simp
  with assms(1,3) show False by simp
qed

section \<open>The order of the packets\<close>

definition wf2q_configs_ok :: "wf2q_config list \<Rightarrow> bool" where
  "wf2q_configs_ok cfgs \<longleftrightarrow> configs_ok cfgs \<and> (\<forall>c \<in> set cfgs. 1 \<le> qc_weight c \<and> qc_weight c \<le> 2048 \<and> qc_count c \<le> rank_max)"

definition wf2q_key :: "wf2q_entry \<Rightarrow> rat \<times> int \<times> int" where
  "wf2q_key p = (we_vft p, we_qid p, we_seq p)"

text \<open>The entries of a workload in the order of their ranks.\<close>

definition wf2q_ordered :: "wf2q_config list \<Rightarrow> wf2q_entry list \<Rightarrow> bool" where
  "wf2q_ordered cfgs xs \<longleftrightarrow> sorted (map wf2q_key xs) \<and> (\<exists>es. mset xs = mset es \<and> wf2q_well_formed cfgs es)"

lemma wf2q_orderedD:
  assumes o: "wf2q_ordered cfgs xs" and cfg: "wf2q_configs_ok cfgs"
  shows "mset (map (\<lambda>e. (we_qid e, we_seq e)) xs) = mset (sent_keys cfgs)"
    and "c \<in> set cfgs \<Longrightarrow> e \<in> set xs \<Longrightarrow> we_qid e = qc_qid c \<Longrightarrow> 0 \<le> we_seq e \<and> we_seq e < qc_count c \<and>
      we_vft e = vft (wf2q_increment (qc_weight c)) (Suc (nat (we_seq e)))"
proof -
  from o obtain es where es: "mset xs = mset es" "wf2q_well_formed cfgs es" unfolding wf2q_ordered_def by blast
  show "mset (map (\<lambda>e. (we_qid e, we_seq e)) xs) = mset (sent_keys cfgs)"
    using es unfolding wf2q_well_formed_def by (metis mset_map)
  assume c: "c \<in> set cfgs" and e: "e \<in> set xs" "we_qid e = qc_qid c"
  from e es have "e \<in> set es" by (metis set_mset_mset)
  with es(2) obtain d where d: "d \<in> set cfgs" "we_qid e = qc_qid d" "0 \<le> we_seq e" "we_seq e < qc_count d"
      "we_vft e = vft (wf2q_increment (qc_weight d)) (Suc (nat (we_seq e)))" unfolding wf2q_well_formed_def by blast
  have "inj_on qc_qid (set cfgs)" using cfg by (simp add: wf2q_configs_ok_def configs_ok_def distinct_map)
  with c d(1,2) e(2) have "d = c" by (simp add: inj_on_def)
  with d show "0 \<le> we_seq e \<and> we_seq e < qc_count c \<and> we_vft e = vft (wf2q_increment (qc_weight c)) (Suc (nat (we_seq e)))"
    by simp
qed

text \<open>Within a queue the order is the order of the sequence numbers.\<close>

lemma wf2q_queue_order:
  assumes o: "wf2q_ordered cfgs xs" and cfg: "wf2q_configs_ok cfgs" and c: "c \<in> set cfgs"
    and e: "e \<in> set xs" "we_qid e = qc_qid c" "e' \<in> set xs" "we_qid e' = qc_qid c" and le: "wf2q_key e \<le> wf2q_key e'"
  shows "we_seq e \<le> we_seq e'"
proof (rule ccontr)
  assume "\<not> ?thesis"
  then have less: "we_seq e' < we_seq e" by simp
  note d = wf2q_orderedD(2) [OF o cfg c e(1,2)] wf2q_orderedD(2) [OF o cfg c e(3,4)]
  have w: "1 \<le> qc_weight c" "qc_weight c \<le> 2048" "qc_count c \<le> 8191"
    using cfg c by (auto simp: wf2q_configs_ok_def rank_max_def)
  have "vft (wf2q_increment (qc_weight c)) (Suc (nat (we_seq e'))) < vft (wf2q_increment (qc_weight c)) (Suc (nat (we_seq e)))"
    by (rule vft_less [OF w(1,2)]) (use less d w(3) in \<open>simp_all add: nat_le_iff\<close>)
  moreover have "we_vft e \<le> we_vft e'" using le by (auto simp: wf2q_key_def less_eq_prod_def)
  ultimately show False using d by simp
qed

lemma sorted_map_by:
  assumes "sorted (map f xs)" "\<And>x y. x \<in> set xs \<Longrightarrow> y \<in> set xs \<Longrightarrow> f x \<le> f y \<Longrightarrow> g x \<le> g y"
  shows "sorted (map g xs)"
  using assms by (induction xs) auto

lemma wf2q_queue_seqs:
  assumes o: "wf2q_ordered cfgs xs" and cfg: "wf2q_configs_ok cfgs" and c: "c \<in> set cfgs"
  shows "map we_seq (filter (\<lambda>e. we_qid e = qc_qid c) xs) = py_range (qc_count c)"
proof -
  let ?ys = "filter (\<lambda>e. we_qid e = qc_qid c) xs"
  have d: "distinct (map qc_qid cfgs)" using cfg by (simp add: wf2q_configs_ok_def configs_ok_def)
  have keys: "mset (map (\<lambda>e. (we_qid e, we_seq e)) xs) = mset (sent_keys cfgs)" by (rule wf2q_orderedD(1) [OF o cfg])
  then have dist: "distinct (map (\<lambda>e. (we_qid e, we_seq e)) xs)" "set (map (\<lambda>e. (we_qid e, we_seq e)) xs) = set (sent_keys cfgs)"
    using sent_keys_distinct [OF d] by (metis mset_eq_imp_distinct_iff, metis set_mset_mset)
  have "sorted (map wf2q_key ?ys)" using o by (simp add: wf2q_ordered_def sorted_filter)
  then have "sorted (map we_seq ?ys)" by (rule sorted_map_by) (use wf2q_queue_order [OF o cfg c] in auto)
  moreover have "distinct (map we_seq ?ys)" using dist(1) by (auto simp: distinct_map inj_on_def)
  moreover have "set (map we_seq ?ys) = {0..<qc_count c}"
  proof (intro equalityI subsetI)
    fix x assume "x \<in> set (map we_seq ?ys)"
    then show "x \<in> {0..<qc_count c}" using wf2q_orderedD(2) [OF o cfg c] by auto
  next
    fix x assume "x \<in> {0..<qc_count c}"
    then have "(qc_qid c, x) \<in> set (map (\<lambda>e. (we_qid e, we_seq e)) xs)" unfolding dist(2) set_sent_keys using c by auto
    then show "x \<in> set (map we_seq ?ys)" by auto
  qed
  moreover have "sorted (py_range (qc_count c))" by (simp add: py_range_def sorted_map)
  ultimately show ?thesis by (intro sorted_distinct_set_unique) simp_all
qed

text \<open>
  Fairness. After any number of packets in the order of the ranks, a queue that still has packets is
  behind no other queue by more than its next packet, in units of the weights.
\<close>

lemma wf2q_prefix_fair:
  assumes o: "wf2q_ordered cfgs xs" and cfg: "wf2q_configs_ok cfgs" and ab: "a \<in> set cfgs" "b \<in> set cfgs"
    and ca: "ca = length (filter (\<lambda>e. we_qid e = qc_qid a) (take n xs))" "int ca < qc_count a"
    and cb: "cb = length (filter (\<lambda>e. we_qid e = qc_qid b) (take n xs))"
  shows "int cb * qc_weight a \<le> (int ca + 1) * qc_weight b"
proof (cases cb)
  case 0
  then show ?thesis using cfg ab by (auto simp: wf2q_configs_ok_def)
next
  case (Suc j)
  let ?fa = "\<lambda>e. we_qid e = qc_qid a" let ?fb = "\<lambda>e. we_qid e = qc_qid b"
  have split: "filter P xs = filter P (take n xs) @ filter P (drop n xs)" for P
    by (metis append_take_drop_id filter_append)
  have sa: "map we_seq (filter ?fa (take n xs)) @ map we_seq (filter ?fa (drop n xs)) = py_range (qc_count a)"
    using wf2q_queue_seqs [OF o cfg ab(1)] split [of ?fa] by simp
  have sb: "map we_seq (filter ?fb (take n xs)) @ map we_seq (filter ?fb (drop n xs)) = py_range (qc_count b)"
    using wf2q_queue_seqs [OF o cfg ab(2)] split [of ?fb] by simp
  have "length (filter ?fa (take n xs)) + length (filter ?fa (drop n xs)) = nat (qc_count a)"
    using arg_cong [OF sa, of length] by (simp only: length_append length_map length_py_range)
  then have sum: "ca + length (filter ?fa (drop n xs)) = nat (qc_count a)" by (simp only: ca(1))
  have "filter ?fa (drop n xs) \<noteq> []"
  proof
    assume "filter ?fa (drop n xs) = []"
    with sum have "ca = nat (qc_count a)" by (simp only: list.size add_0_right)
    with ca(2) show False by (simp split: if_splits)
  qed
  then obtain y ys where y: "filter ?fa (drop n xs) = y # ys" by (cases "filter ?fa (drop n xs)") auto
  then have ym: "y \<in> set (drop n xs)" "we_qid y = qc_qid a" using filter_eq_ConsD by (fastforce dest: arg_cong [where f = set])+
  have yseq: "we_seq y = int ca"
    using arg_cong [OF sa, of "\<lambda>l. l ! ca"] ca y by (simp add: nth_append py_range_def)
  define x where "x = filter ?fb (take n xs) ! j"
  have j: "j < length (filter ?fb (take n xs))" using cb Suc by simp
  then have "x \<in> set (filter ?fb (take n xs))" unfolding x_def by (rule nth_mem)
  then have xm: "x \<in> set (take n xs)" "we_qid x = qc_qid b" by auto
  have "length (filter ?fb (take n xs)) \<le> nat (qc_count b)" using arg_cong [OF sb, of length] by simp
  then have xseq: "we_seq x = int j"
    using arg_cong [OF sb, of "\<lambda>l. l ! j"] j by (simp add: nth_append py_range_def x_def)
  have "sorted (map wf2q_key (take n xs) @ map wf2q_key (drop n xs))"
    using o unfolding wf2q_ordered_def by (metis append_take_drop_id map_append)
  then have "wf2q_key x \<le> wf2q_key y" using xm(1) ym(1) by (auto simp: sorted_append)
  then have le: "we_vft x \<le> we_vft y" by (auto simp: wf2q_key_def less_eq_prod_def)
  have in_xs: "x \<in> set xs" "y \<in> set xs" using xm(1) ym(1) by (auto dest: in_set_takeD in_set_dropD)
  note dx = wf2q_orderedD(2) [OF o cfg ab(2) in_xs(1) xm(2)] and dy = wf2q_orderedD(2) [OF o cfg ab(1) in_xs(2) ym(2)]
  have w: "1 \<le> qc_weight a" "qc_weight a \<le> 2048" "1 \<le> qc_weight b" "qc_weight b \<le> 2048" "qc_count a \<le> 8191" "qc_count b \<le> 8191"
    using cfg ab by (auto simp: wf2q_configs_ok_def rank_max_def)
  have "int (Suc j) * qc_weight a \<le> int (Suc ca) * qc_weight b"
    by (rule vft_fair [OF w(1-4)]) (use dx dy xseq yseq le w(5,6) in simp_all)
  then show ?thesis using Suc by (simp add: algebra_simps)
qed

definition wf2q_served :: "(wf2q_entry \<times> int) list \<Rightarrow> int \<Rightarrow> int \<Rightarrow> nat" where
  "wf2q_served out n qid = length (filter (\<lambda>(p, r). we_qid p = qid \<and> r \<le> n) out)"

lemma ranked_prefix:
  "length (filter (\<lambda>(p, r). P p \<and> r \<le> n) (zip xs (map int [m..<m + length xs]))) =
   length (filter P (take (nat (n - int m + 1)) xs))"
proof (induction xs arbitrary: m)
  case (Cons x xs)
  have up: "[m..<m + length (x # xs)] = m # [Suc m..<Suc m + length xs]" by (simp add: upt_conv_Cons del: upt_Suc)
  show ?case
  proof (cases "int m \<le> n")
    case True
    then have "nat (n - int m + 1) = Suc (nat (n - int (Suc m) + 1))" by linarith
    with True Cons [of "Suc m"] show ?thesis unfolding up by simp
  next
    case False
    then have "nat (n - int (Suc m) + 1) = 0" "nat (n - int m + 1) = 0" by linarith+
    with False Cons [of "Suc m"] show ?thesis unfolding up by simp
  qed
qed simp

lemma wf2q_result:
  assumes cfg: "wf2q_configs_ok cfgs" and run: "wf2q_pkts_with_rank cfgs = Inr out"
  obtains xs where "wf2q_ordered cfgs xs" "mset out = mset (zip xs (map int [1..<1 + length xs]))" "int (length xs) \<le> rank_max"
proof -
  from run obtain es where es: "wf2q_pkt_entries cfgs (\<lambda>_. 0) = Inr es"
    by (auto simp: wf2q_pkts_with_rank_def split: sum.splits)
  let ?xs = "sort_key (\<lambda>p. (we_vft p, we_qid p, we_seq p)) es"
  have "wf2q_well_formed cfgs es"
    using wf2q_pkt_entries_run [OF es] cfg by (simp add: wf2q_configs_ok_def configs_ok_def)
  then have "wf2q_ordered cfgs ?xs"
    unfolding wf2q_ordered_def wf2q_key_def by (intro conjI exI [of _ es]) (simp_all add: sorted_sort_key)
  moreover have "mset out = mset (zip ?xs (map int [1..<1 + length ?xs]))" "int (length ?xs) \<le> rank_max"
    using run es by (auto simp: wf2q_pkts_with_rank_def Let_def simp del: upt_Suc split: if_splits)
  ultimately show ?thesis by (rule that)
qed

lemma wf2q_served_prefix:
  assumes "mset out = mset (zip xs (map int [1..<1 + length xs]))"
  shows "wf2q_served out n q = length (filter (\<lambda>e. we_qid e = q) (take (nat n) xs))"
proof -
  have "wf2q_served out n q = length (filter (\<lambda>(p, r). we_qid p = q \<and> r \<le> n) (zip xs (map int [1..<1 + length xs])))"
    unfolding wf2q_served_def by (metis assms mset_filter size_mset)
  also have "\<dots> = length (filter (\<lambda>e. we_qid e = q) (take (nat (n - int 1 + 1)) xs))" by (rule ranked_prefix)
  finally show ?thesis by simp
qed

lemma wf2q_fairness:
  assumes cfg: "wf2q_configs_ok cfgs" and run: "wf2q_pkts_with_rank cfgs = Inr out"
    and ab: "a \<in> set cfgs" "b \<in> set cfgs" and left: "int (wf2q_served out n (qc_qid a)) < qc_count a"
  shows "int (wf2q_served out n (qc_qid b)) * qc_weight a \<le> (int (wf2q_served out n (qc_qid a)) + 1) * qc_weight b"
proof -
  obtain xs where xs: "wf2q_ordered cfgs xs" "mset out = mset (zip xs (map int [1..<1 + length xs]))"
    using wf2q_result [OF cfg run] by blast
  show ?thesis
    by (rule wf2q_prefix_fair [OF xs(1) cfg ab wf2q_served_prefix [OF xs(2)] left wf2q_served_prefix [OF xs(2)]])
qed

lemma wf2q_ranks:
  assumes cfg: "wf2q_configs_ok cfgs" and run: "wf2q_pkts_with_rank cfgs = Inr out"
  shows "mset (map (\<lambda>(p, r). (we_qid p, we_seq p)) out) = mset (sent_keys cfgs) \<and>
    mset (map snd out) = mset (map int [1..<1 + nat (total_pkts cfgs)]) \<and> total_pkts cfgs \<le> rank_max"
proof -
  obtain xs where xs: "wf2q_ordered cfgs xs" "mset out = mset (zip xs (map int [1..<1 + length xs]))" "int (length xs) \<le> rank_max"
    using wf2q_result [OF cfg run] by blast
  have keys: "mset (map (\<lambda>e. (we_qid e, we_seq e)) xs) = mset (sent_keys cfgs)" by (rule wf2q_orderedD(1) [OF xs(1) cfg])
  then have "length xs = length (sent_keys cfgs)" by (metis length_map size_mset)
  then have len: "length xs = nat (total_pkts cfgs)" "0 \<le> total_pkts cfgs"
    using sent_keys_length [of cfgs] cfg by (simp_all add: wf2q_configs_ok_def configs_ok_def)
  have "map (\<lambda>(p, r). (we_qid p, we_seq p)) (zip xs rs) = map (\<lambda>e. (we_qid e, we_seq e)) xs"
    if "length xs = length rs" for rs :: "int list" using that by (induction xs rs rule: list_induct2) simp_all
  from this [of "map int [1..<1 + length xs]"]
  have "mset (map (\<lambda>(p, r). (we_qid p, we_seq p)) out) = mset (map (\<lambda>e. (we_qid e, we_seq e)) xs)"
    using xs(2) by (metis (no_types, lifting) diff_add_inverse length_map length_upt mset_map)
  with keys have k: "mset (map (\<lambda>(p, r). (we_qid p, we_seq p)) out) = mset (sent_keys cfgs)" by simp
  have "mset (map snd out) = mset (map snd (zip xs (map int [1..<1 + length xs])))" using xs(2) by (metis mset_map)
  then have "mset (map snd out) = mset (map int [1..<1 + length xs])" by (simp del: upt_Suc)
  with k len xs(3) show ?thesis by (simp del: upt_Suc)
qed

text \<open>In every queue, whose packets the card sends in the order of posting, ranks ascend.\<close>

lemma wf2q_ranks_ascend:
  assumes cfg: "wf2q_configs_ok cfgs" and run: "wf2q_pkts_with_rank cfgs = Inr out" and c: "c \<in> set cfgs"
    and p: "(p, r) \<in> set out" "we_qid p = qc_qid c" "(p', r') \<in> set out" "we_qid p' = qc_qid c" and less: "we_seq p < we_seq p'"
  shows "r < r'"
proof (rule ccontr)
  assume "\<not> r < r'"
  obtain xs where xs: "wf2q_ordered cfgs xs" "mset out = mset (zip xs (map int [1..<1 + length xs]))"
    using wf2q_result [OF cfg run] by blast
  have s: "set out = set (zip xs (map int [1..<1 + length xs]))" using xs(2) by (metis set_mset_mset)
  from p(1,3) obtain i j where ij: "i < length xs" "p = xs ! i" "r = int i + 1" "j < length xs" "p' = xs ! j" "r' = int j + 1"
    unfolding s set_zip by (auto simp del: upt_Suc)
  with \<open>\<not> r < r'\<close> have "j \<le> i" by simp
  then have "wf2q_key p' \<le> wf2q_key p"
    using xs(1) ij sorted_nth_mono [of "map wf2q_key xs" j i] by (simp add: wf2q_ordered_def)
  moreover have "p \<in> set xs" "p' \<in> set xs" using ij by simp_all
  ultimately show False using wf2q_queue_order [OF xs(1) cfg c _ p(4) _ p(2)] less by simp
qed

text \<open>The computation succeeds for every workload that fits packets and ranks.\<close>

definition packets_fit :: "'c queue_config_scheme list \<Rightarrow> bool" where
  "packets_fit cfgs \<longleftrightarrow> (\<forall>c \<in> set cfgs. 0 \<le> qc_qid c \<and> qc_qid c < 256 \<and> qc_count c \<le> 2 ^ 32)"

lemma wf2q_queue_ok:
  assumes "0 \<le> qc_qid c" "qc_qid c < 256" "\<forall>sn \<in> set sns. 0 \<le> sn \<and> sn < 2 ^ 32"
  shows "\<exists>r. wf2q_queue c inc sns v = Inr r"
  using assms(3)
proof (induction sns arbitrary: v)
  case (Cons sn sns)
  then have "0 \<le> sn" "sn < 2 ^ 32" by simp_all
  with build_ok [of SCHED_TEST_PKT_SIZE "qc_qid c" sn] assms(1,2) obtain p where
    "build_sched_test_pkt (qc_qid c) sn SCHED_TEST_PKT_SIZE = Inr p" by (auto simp: SCHED_TEST_PKT_SIZE_def)
  moreover obtain es v' where "wf2q_queue c inc sns (v(qc_qid c := float_add (v (qc_qid c)) inc)) = Inr (es, v')"
    using Cons by fastforce
  ultimately show ?case by (simp add: Let_def)
qed simp

lemma wf2q_pkt_entries_ok: "packets_fit cfgs \<Longrightarrow> \<forall>c \<in> set cfgs. qc_weight c \<noteq> 0 \<Longrightarrow> \<exists>es. wf2q_pkt_entries cfgs v = Inr es"
proof (induction cfgs arbitrary: v)
  case (Cons c cs)
  have "\<forall>sn \<in> set (py_range (qc_count c)). 0 \<le> sn \<and> sn < 2 ^ 32" using Cons.prems(1) by (auto simp: packets_fit_def)
  then obtain es v' where "wf2q_queue c (float_div 1 (to_double (of_int (qc_weight c)))) (py_range (qc_count c)) v = Inr (es, v')"
    using wf2q_queue_ok [of c "py_range (qc_count c)"] Cons.prems(1) unfolding packets_fit_def by fastforce
  moreover have "\<exists>es'. wf2q_pkt_entries cs v' = Inr es'"
    by (rule Cons.IH) (use Cons.prems in \<open>auto simp: packets_fit_def\<close>)
  ultimately show ?case using Cons.prems(2) by auto
qed simp

lemma wf2q_runs:
  assumes "wf2q_configs_ok cfgs" "packets_fit cfgs" "total_pkts cfgs \<le> rank_max"
  shows "\<exists>out. wf2q_pkts_with_rank cfgs = Inr out"
proof -
  obtain es where es: "wf2q_pkt_entries cfgs (\<lambda>_. 0) = Inr es"
    using wf2q_pkt_entries_ok [OF assms(2)] assms(1) by (fastforce simp: wf2q_configs_ok_def)
  have "wf2q_well_formed cfgs es"
    using wf2q_pkt_entries_run [OF es] assms(1) by (simp add: wf2q_configs_ok_def configs_ok_def)
  then have "length es = length (sent_keys cfgs)" unfolding wf2q_well_formed_def by (metis length_map)
  then have "int (length es) \<le> rank_max"
    using sent_keys_length [of cfgs] assms(1,3) by (simp add: wf2q_configs_ok_def configs_ok_def)
  with es show ?thesis by (simp add: wf2q_pkts_with_rank_def Let_def)
qed

lemma wf2q_workload: "wf2q_configs_ok wf2q_queue_configs" "packets_fit wf2q_queue_configs" "total_pkts wf2q_queue_configs = 1000"
  by (simp_all add: wf2q_queue_configs_def wf2q_configs_ok_def configs_ok_def packets_fit_def total_pkts_def
      SCHED_TEST_PKT_COUNT_def rank_max_def)

section \<open>Remaining bytes\<close>

text \<open>
  The rank is the integer part of the exact quotient: the floating point division does not change
  it. It uses the whole range and is monotone; values a rank's width apart have different ranks.
\<close>

lemma normalize_exact:
  assumes "mn < mx" "mx - mn \<le> 2 ^ 39" "mn \<le> v" "v \<le> mx"
  shows "normalize_remaining_to_rank mn mx v = 1 + (v - mn) * 8190 div (mx - mn)"
    and "1 \<le> normalize_remaining_to_rank mn mx v" "normalize_remaining_to_rank mn mx v \<le> rank_max"
proof -
  have "(v - mn) * 8190 \<le> 2 ^ 39 * 8190" using assms by (intro mult_right_mono) simp_all
  then have t: "float_trunc (int_truediv ((v - mn) * 8190) (mx - mn)) = (v - mn) * 8190 div (mx - mn)"
    using assms by (intro trunc_truediv) simp_all
  have lo: "0 \<le> (v - mn) * 8190 div (mx - mn)" using assms by (intro pos_imp_zdiv_nonneg_iff [THEN iffD2]) simp_all
  have "(v - mn) * 8190 div (mx - mn) \<le> (mx - mn) * 8190 div (mx - mn)" using assms by (intro zdiv_mono1) simp_all
  moreover have "(mx - mn) * 8190 div (mx - mn) = 8190" by (rule nonzero_mult_div_cancel_left) (use assms(1) in simp)
  ultimately have hi: "(v - mn) * 8190 div (mx - mn) \<le> 8190" by simp
  show "normalize_remaining_to_rank mn mx v = 1 + (v - mn) * 8190 div (mx - mn)"
    using assms(1) t lo hi by (simp add: normalize_remaining_to_rank_def rank_max_def Let_def)
  with lo hi show "1 \<le> normalize_remaining_to_rank mn mx v" "normalize_remaining_to_rank mn mx v \<le> rank_max"
    by (simp_all add: rank_max_def)
qed

lemma normalize_order:
  assumes "mn < mx" "mx - mn \<le> 2 ^ 39" "mn \<le> v" "v \<le> v'" "v' \<le> mx"
  shows "normalize_remaining_to_rank mn mx v \<le> normalize_remaining_to_rank mn mx v'"
    and "mx - mn \<le> 8190 * (v' - v) \<Longrightarrow> normalize_remaining_to_rank mn mx v < normalize_remaining_to_rank mn mx v'"
proof -
  have n: "normalize_remaining_to_rank mn mx v = 1 + (v - mn) * 8190 div (mx - mn)"
      "normalize_remaining_to_rank mn mx v' = 1 + (v' - mn) * 8190 div (mx - mn)"
    using assms by (simp_all add: normalize_exact)
  show "normalize_remaining_to_rank mn mx v \<le> normalize_remaining_to_rank mn mx v'"
    unfolding n using assms by (intro add_left_mono zdiv_mono1) simp_all
  assume "mx - mn \<le> 8190 * (v' - v)"
  then have "((v - mn) * 8190 + (mx - mn)) div (mx - mn) \<le> (v' - mn) * 8190 div (mx - mn)"
    using assms(1) by (intro zdiv_mono1) (simp_all add: algebra_simps)
  moreover have "((v - mn) * 8190 + (mx - mn)) div (mx - mn) = (v - mn) * 8190 div (mx - mn) + 1"
    by (rule div_add_self2) (use assms(1) in simp)
  ultimately show "normalize_remaining_to_rank mn mx v < normalize_remaining_to_rank mn mx v'"
    unfolding n by linarith
qed

lemma srpt_raw_loop_set:
  "set (srpt_raw_loop c (map int [k..<k + n]) rem) =
   {\<lparr>sr_qid = qc_qid c, sr_seq = int i, sr_pkt_size = qc_pkt_size c, sr_remaining = rem - int (i - k) * qc_pkt_size c\<rparr> | i. k \<le> i \<and> i < k + n}"
proof (induction n arbitrary: k rem)
  case (Suc n)
  have up: "[k..<k + Suc n] = k # [Suc k..<Suc k + n]" by (simp add: upt_conv_Cons del: upt_Suc)
  let ?e = "\<lambda>i j rem. \<lparr>sr_qid = qc_qid c, sr_seq = int i, sr_pkt_size = qc_pkt_size c, sr_remaining = rem - int j * qc_pkt_size c\<rparr>"
  have "{?e i (i - Suc k) (rem - qc_pkt_size c) | i. Suc k \<le> i \<and> i < Suc k + n} = {?e i (i - k) rem | i. Suc k \<le> i \<and> i < Suc k + n}"
  proof -
    have "?e i (i - Suc k) (rem - qc_pkt_size c) = ?e i (i - k) rem" if "Suc k \<le> i" for i
    proof -
      have "int (i - k) = int (i - Suc k) + 1" using that by simp
      then show ?thesis by (simp only: distrib_right) simp
    qed
    then show ?thesis by (metis (no_types, lifting))
  qed
  with Suc [of "Suc k" "rem - qc_pkt_size c"] show ?case
    unfolding up list.map srpt_raw_loop.simps list.set by (auto simp: le_Suc_eq Suc_le_eq le_less)
qed simp

lemma srpt_raw_set:
  "set (srpt_raw_entries cfgs) =
   {\<lparr>sr_qid = qc_qid c, sr_seq = sn, sr_pkt_size = qc_pkt_size c, sr_remaining = (qc_count c - sn) * qc_pkt_size c\<rparr> |
     c sn. c \<in> set cfgs \<and> 0 \<le> sn \<and> sn < qc_count c}"
proof -
  have one: "set (srpt_raw_loop c (py_range (qc_count c)) (qc_pkt_size c * qc_count c)) =
     {\<lparr>sr_qid = qc_qid c, sr_seq = sn, sr_pkt_size = qc_pkt_size c, sr_remaining = (qc_count c - sn) * qc_pkt_size c\<rparr> |
       sn. 0 \<le> sn \<and> sn < qc_count c}" for c
  proof -
    let ?e = "\<lambda>sn. \<lparr>sr_qid = qc_qid c, sr_seq = sn, sr_pkt_size = qc_pkt_size c, sr_remaining = (qc_count c - sn) * qc_pkt_size c\<rparr>"
    have "set (srpt_raw_loop c (py_range (qc_count c)) (qc_pkt_size c * qc_count c)) = {?e (int i) | i. i < nat (qc_count c)}"
      using srpt_raw_loop_set [of c 0 "nat (qc_count c)" "qc_pkt_size c * qc_count c"]
      by (simp add: py_range_def algebra_simps)
    also have "\<dots> = {?e sn | sn. 0 \<le> sn \<and> sn < qc_count c}"
    proof (intro equalityI subsetI)
      fix x assume "x \<in> {?e (int i) | i. i < nat (qc_count c)}"
      then obtain i where "x = ?e (int i)" "i < nat (qc_count c)" by blast
      then show "x \<in> {?e sn | sn. 0 \<le> sn \<and> sn < qc_count c}" by (intro CollectI exI [of _ "int i"]) auto
    next
      fix x assume "x \<in> {?e sn | sn. 0 \<le> sn \<and> sn < qc_count c}"
      then obtain sn where "x = ?e sn" "0 \<le> sn" "sn < qc_count c" by blast
      then show "x \<in> {?e (int i) | i. i < nat (qc_count c)}" by (intro CollectI exI [of _ "nat sn"]) auto
    qed
    finally show ?thesis .
  qed
  show ?thesis unfolding srpt_raw_entries_def by (auto simp: one)
qed

text \<open>
  On the tests' workload the ranks order the packets exactly by the bytes their queues have left.
\<close>

lemma mapR_map: "mapR f xs = Inr ys \<Longrightarrow> map Inr ys = map f xs"
  by (induction xs arbitrary: ys) (auto split: sum.splits)

lemma srpt_workload_remaining:
  assumes "r \<in> set (srpt_raw_entries srpt_queue_configs)"
  shows "256 \<le> sr_remaining r" "sr_remaining r \<le> 409600" "128 dvd sr_remaining r"
proof -
  from assms obtain c sn where c: "c \<in> set srpt_queue_configs" "0 \<le> sn" "sn < qc_count c"
      "sr_remaining r = (qc_count c - sn) * qc_pkt_size c" unfolding srpt_raw_set by auto
  from c(1) have k: "qc_count c = 100" "256 \<le> qc_pkt_size c" "qc_pkt_size c \<le> 4096" "128 dvd qc_pkt_size c"
    by (auto simp: srpt_queue_configs_def SCHED_TEST_PKT_COUNT_def)
  have "1 * 256 \<le> (100 - sn) * qc_pkt_size c" using c(3) k by (intro mult_mono) simp_all
  moreover have "(100 - sn) * qc_pkt_size c \<le> 100 * 4096" using c(2,3) k by (intro mult_mono) simp_all
  ultimately show "256 \<le> sr_remaining r" "sr_remaining r \<le> 409600" "128 dvd sr_remaining r"
    using k by (simp_all add: c(4))
qed

lemma srpt_workload_range:
  "Min (set (map sr_remaining (srpt_raw_entries srpt_queue_configs))) = 256"
  "Max (set (map sr_remaining (srpt_raw_entries srpt_queue_configs))) = 409600"
proof -
  let ?c = "\<lambda>q sz. \<lparr>qc_qid = q, qc_count = 100, qc_pkt_size = sz\<rparr>"
  have "?c 0 256 \<in> set srpt_queue_configs" "?c 9 4096 \<in> set srpt_queue_configs"
    by (simp_all add: srpt_queue_configs_def SCHED_TEST_PKT_COUNT_def)
  then have "\<lparr>sr_qid = 0, sr_seq = 99, sr_pkt_size = 256, sr_remaining = 256\<rparr> \<in> set (srpt_raw_entries srpt_queue_configs)"
      "\<lparr>sr_qid = 9, sr_seq = 0, sr_pkt_size = 4096, sr_remaining = 409600\<rparr> \<in> set (srpt_raw_entries srpt_queue_configs)"
    unfolding srpt_raw_set by force+
  then have "256 \<in> sr_remaining ` set (srpt_raw_entries srpt_queue_configs)"
      "409600 \<in> sr_remaining ` set (srpt_raw_entries srpt_queue_configs)" by force+
  then show "Min (set (map sr_remaining (srpt_raw_entries srpt_queue_configs))) = 256"
      "Max (set (map sr_remaining (srpt_raw_entries srpt_queue_configs))) = 409600"
    by (auto intro!: Min_eqI Max_eqI dest: srpt_workload_remaining)
qed

lemma srpt_workload_ranks:
  assumes run: "srpt_entries srpt_queue_configs = Inr es" and rp: "(r, p) \<in> set es"
  shows "r \<in> set (srpt_raw_entries srpt_queue_configs) \<and> pe_seq p = sr_seq r \<and>
    pe_rank p = normalize_remaining_to_rank 256 409600 (sr_remaining r)"
proof -
  let ?f = "\<lambda>r. case sched_entry (sr_qid r) (sr_seq r) (sr_pkt_size r)
      (normalize_remaining_to_rank 256 409600 (sr_remaining r)) of Inl e \<Rightarrow> Inl e | Inr p \<Rightarrow> Inr (r, p)"
  have "mapR ?f (srpt_raw_entries srpt_queue_configs) = Inr es"
    using run unfolding srpt_entries_def Let_def srpt_workload_range by (auto split: if_splits)
  from arg_cong [OF mapR_map [OF this], of set] have "Inr (r, p) \<in> ?f ` set (srpt_raw_entries srpt_queue_configs)"
    using rp by (metis image_eqI list.set_map)
  then show ?thesis by (auto simp: sched_entry_def split: sum.splits)
qed

lemma srpt_workload_order:
  assumes run: "srpt_entries srpt_queue_configs = Inr es" and rp: "(r, p) \<in> set es" "(r', p') \<in> set es"
  shows "1 \<le> pe_rank p \<and> pe_rank p \<le> rank_max \<and> (pe_rank p < pe_rank p' \<longleftrightarrow> sr_remaining r < sr_remaining r')"
proof -
  note a = srpt_workload_ranks [OF run rp(1)] and b = srpt_workload_ranks [OF run rp(2)]
  note ra = srpt_workload_remaining [OF a [THEN conjunct1]] and rb = srpt_workload_remaining [OF b [THEN conjunct1]]
  have lt: "normalize_remaining_to_rank 256 409600 v < normalize_remaining_to_rank 256 409600 v'"
    if "v < v'" "256 \<le> v" "v' \<le> 409600" "128 dvd v" "128 dvd v'" for v v'
  proof (rule normalize_order(2))
    have "128 dvd v' - v" using that by (simp add: dvd_diff)
    then have "128 \<le> v' - v" using that(1) by (simp add: zdvd_imp_le)
    then show "409600 - 256 \<le> 8190 * (v' - v)" by simp
  qed (use that in simp_all)
  have "pe_rank p < pe_rank p'" if "sr_remaining r < sr_remaining r'" using lt [OF that ra(1) rb(2) ra(3) rb(3)] a b by simp
  moreover have "pe_rank p' \<le> pe_rank p" if "sr_remaining r' \<le> sr_remaining r"
    using normalize_order(1) [of 256 409600 "sr_remaining r'" "sr_remaining r"] that ra rb a b by simp
  ultimately show ?thesis using normalize_exact(2,3) [of 256 409600 "sr_remaining r"] ra a by force
qed

lemma mapR_ok: "(\<And>x. x \<in> set xs \<Longrightarrow> \<exists>y. f x = Inr y) \<Longrightarrow> \<exists>ys. mapR f xs = Inr ys"
proof (induction xs)
  case (Cons x xs)
  obtain y where "f x = Inr y" using Cons.prems by fastforce
  moreover have "\<exists>ys. mapR f xs = Inr ys" by (rule Cons.IH) (use Cons.prems in simp)
  ultimately show ?case by auto
qed simp

lemma sched_entry_ok:
  "5 \<le> sz \<Longrightarrow> 0 \<le> qid \<Longrightarrow> qid < 256 \<Longrightarrow> 0 \<le> sn \<Longrightarrow> sn < 2 ^ 32 \<Longrightarrow> \<exists>p. sched_entry qid sn sz rank = Inr p"
  using build_ok [of sz qid sn] by (auto simp: sched_entry_def)

lemma srpt_workload_runs: "\<exists>es. srpt_entries srpt_queue_configs = Inr es"
proof -
  let ?f = "\<lambda>r. case sched_entry (sr_qid r) (sr_seq r) (sr_pkt_size r)
      (normalize_remaining_to_rank 256 409600 (sr_remaining r)) of Inl e \<Rightarrow> Inl e | Inr p \<Rightarrow> Inr (r, p)"
  have "\<exists>y. ?f r = Inr y" if r: "r \<in> set (srpt_raw_entries srpt_queue_configs)" for r
  proof -
    from r obtain c where c: "c \<in> set srpt_queue_configs" "sr_qid r = qc_qid c" "sr_pkt_size r = qc_pkt_size c"
        "0 \<le> sr_seq r" "sr_seq r < qc_count c" unfolding srpt_raw_set by auto
    then have "5 \<le> sr_pkt_size r" "0 \<le> sr_qid r" "sr_qid r < 256" "sr_seq r < 2 ^ 32"
      by (auto simp: srpt_queue_configs_def SCHED_TEST_PKT_COUNT_def)
    from sched_entry_ok [OF this(1-3) c(4) this(4), of "normalize_remaining_to_rank 256 409600 (sr_remaining r)"]
    show ?thesis by auto
  qed
  then have "\<exists>es. mapR ?f (srpt_raw_entries srpt_queue_configs) = Inr es" by (rule mapR_ok)
  moreover have "srpt_raw_entries srpt_queue_configs \<noteq> []"
    by (simp add: srpt_raw_entries_def srpt_queue_configs_def py_range_def SCHED_TEST_PKT_COUNT_def upt_rec)
  ultimately show ?thesis unfolding srpt_entries_def Let_def srpt_workload_range by simp
qed

text \<open>
  The check of the finish order passes exactly if no queue finishes before a queue of smaller
  packets.
\<close>

lemma finish_violations_sorted:
  "finish_violations prev xs = [] \<longleftrightarrow> sorted ((case prev of None \<Rightarrow> [] | Some s \<Rightarrow> [s]) @ map (\<lambda>x. snd (snd x)) xs)"
proof (induction prev xs rule: finish_violations.induct)
  case (2 prev pos qid sz rest)
  then show ?case by (cases prev) (auto simp: not_less)
qed (simp split: option.split)

definition finish_pos :: "recv_entry list \<Rightarrow> int \<Rightarrow> nat" where
  "finish_pos recv_data qid = Max (set (completion_pos recv_data qid))"

lemma finish_pos_mem:
  "completion_pos d q \<noteq> [] \<Longrightarrow> \<exists>p \<in> set d. rv_qid p = q \<and> rv_pos p = finish_pos d q"
proof -
  assume "completion_pos d q \<noteq> []"
  then have "finish_pos d q \<in> set (completion_pos d q)" unfolding finish_pos_def by (intro Max_in) simp_all
  then show ?thesis by (auto simp: completion_pos_def)
qed

lemma srpt_finish_check:
  assumes pos: "distinct (map rv_pos d)"
  shows "finish_violations None (queue_finish_order cfgs d) = [] \<longleftrightarrow>
    (\<forall>a \<in> set cfgs. \<forall>b \<in> set cfgs. completion_pos d (qc_qid a) \<noteq> [] \<and> completion_pos d (qc_qid b) \<noteq> [] \<and>
       finish_pos d (qc_qid a) < finish_pos d (qc_qid b) \<longrightarrow> qc_pkt_size a \<le> qc_pkt_size b)"
    (is "?l \<longleftrightarrow> ?r")
proof -
  let ?cs = "filter (\<lambda>c. completion_pos d (qc_qid c) \<noteq> []) cfgs"
  let ?t = "\<lambda>c. (finish_pos d (qc_qid c), qc_qid c, qc_pkt_size c)"
  define xs where "xs = queue_finish_order cfgs d"
  have set_xs: "set xs = ?t ` set ?cs" and sorted_xs: "sorted xs"
    by (simp_all add: xs_def queue_finish_order_def finish_pos_def)
  have v: "?l \<longleftrightarrow> sorted (map (\<lambda>x. snd (snd x)) xs)" by (simp add: finish_violations_sorted xs_def)
  show ?thesis
  proof
    assume ?l
    then have s: "sorted (map (\<lambda>x. snd (snd x)) xs)" using v by simp
    have "qc_pkt_size a \<le> qc_pkt_size b" if ab: "a \<in> set ?cs" "b \<in> set ?cs" "finish_pos d (qc_qid a) < finish_pos d (qc_qid b)" for a b
    proof -
      have "?t a \<in> set xs" "?t b \<in> set xs" using ab(1,2) unfolding set_xs by blast+
      then obtain i j where ij: "i < length xs" "xs ! i = ?t a" "j < length xs" "xs ! j = ?t b" by (metis in_set_conv_nth)
      have "i < j"
      proof (rule ccontr)
        assume "\<not> i < j"
        then have "xs ! j \<le> xs ! i" using sorted_xs ij by (intro sorted_nth_mono) simp_all
        with ij ab(3) show False by (simp add: less_eq_prod_def)
      qed
      then show ?thesis using sorted_nth_mono [OF s, of i j] ij by simp
    qed
    then show ?r by simp
  next
    assume r: ?r
    have "snd (snd x) \<le> snd (snd y)" if xy: "x \<in> set xs" "y \<in> set xs" "x \<le> y" for x y
    proof -
      from xy(1,2) obtain a b where ab: "a \<in> set ?cs" "x = ?t a" "b \<in> set ?cs" "y = ?t b" unfolding set_xs by blast
      from xy(3) consider "finish_pos d (qc_qid a) < finish_pos d (qc_qid b)"
        | "finish_pos d (qc_qid a) = finish_pos d (qc_qid b)" "qc_qid a < qc_qid b"
        | "qc_qid a = qc_qid b" "qc_pkt_size a \<le> qc_pkt_size b"
        unfolding ab by (auto simp: less_eq_prod_def le_less)
      then show ?thesis
      proof cases
        case 1
        with r ab show ?thesis by simp
      next
        case 2
        from finish_pos_mem [of d "qc_qid a"] finish_pos_mem [of d "qc_qid b"] ab(1,3) obtain p q where
          pq: "p \<in> set d" "rv_qid p = qc_qid a" "q \<in> set d" "rv_qid q = qc_qid b" "rv_pos p = rv_pos q" using 2(1) by force
        then have "p = q" using pos by (simp add: distinct_map inj_on_def)
        with pq 2(2) show ?thesis by simp
      qed (simp add: ab)
    qed
    then have "sorted (map (\<lambda>x. snd (snd x)) xs)" using sorted_map_by [of "\<lambda>x. x" xs "\<lambda>x. snd (snd x)"] sorted_xs by simp
    then show ?l using v by simp
  qed
qed

section \<open>Deadlines\<close>

lemma edf_violations_sorted:
  assumes "\<forall>p \<in> set ps. metric (recv_key p) = Some (f p)"
  shows "\<exists>vs. edf_violations metric prev ps = Inr vs \<and>
    (vs = [] \<longleftrightarrow> sorted ((case prev of None \<Rightarrow> [] | Some r \<Rightarrow> [r]) @ map f ps))"
  using assms
proof (induction ps arbitrary: prev)
  case (Cons p ps)
  then obtain vs where "edf_violations metric (Some (f p)) ps = Inr vs" "vs = [] \<longleftrightarrow> sorted (f p # map f ps)" by fastforce
  then show ?case using Cons.prems by (cases prev) (auto simp: not_less intro: order_trans)
qed (simp split: option.split)

text \<open>On the tests' workload no deadline is cut off.\<close>

lemma edf_workload_rank:
  "c \<in> set edf_queue_configs \<Longrightarrow> 0 \<le> sn \<Longrightarrow> sn < qc_count c \<Longrightarrow>
     edf_rank c sn = edf_deadline c sn \<and> 1 \<le> edf_rank c sn \<and> edf_rank c sn < rank_max"
  by (auto simp: edf_queue_configs_def SCHED_TEST_PKT_COUNT_def edf_rank_def edf_deadline_def deadline_step_def rank_max_def)

section \<open>What the tests accept\<close>

lemma sp_check_iff: "configs_ok cfgs \<Longrightarrow> (\<exists>rp. sp_check cfgs arrived = Inr rp) \<longleftrightarrow> all_arrived cfgs arrived"
  by (simp add: receive_iff [symmetric])
     (auto simp: sp_check_def assert_all_ok_def split: sum.split)

lemma edf_metric_lookup:
  assumes d: "distinct (map qc_qid cfgs)" and c: "c \<in> set cfgs" "0 \<le> sn" "sn < qc_count c"
  shows "edf_metric cfgs (qc_qid c, sn) = Some (edf_rank c sn)"
proof -
  let ?l = "concat (map (\<lambda>c. map (\<lambda>sn. ((qc_qid c, sn), edf_rank c sn)) (py_range (qc_count c))) cfgs)"
  have "map fst ?l = sent_keys cfgs" by (simp add: sent_keys_def map_concat o_def)
  then have "distinct (map fst (rev ?l))" using sent_keys_distinct [OF d] by (simp flip: rev_map)
  moreover have "((qc_qid c, sn), edf_rank c sn) \<in> set (rev ?l)" using c by (auto intro!: bexI [of _ c])
  ultimately show ?thesis unfolding edf_metric_def by (rule map_of_is_SomeI)
qed

lemma edf_check_iff:
  assumes cfg: "configs_ok cfgs"
  shows "(\<exists>rp vs. edf_check cfgs arrived = Inr (rp, vs)) \<longleftrightarrow> all_arrived cfgs arrived"
    and "edf_check cfgs arrived = Inr (rp, vs) \<Longrightarrow>
      vs = [] \<longleftrightarrow> sorted (map (\<lambda>p. the (edf_metric cfgs (recv_key p))) (rp_data rp))"
proof -
  have d: "distinct (map qc_qid cfgs)" using cfg by (simp add: configs_ok_def)
  have order: "\<exists>vs. edf_violations (edf_metric cfgs) None (rp_data rp) = Inr vs \<and>
      (vs = [] \<longleftrightarrow> sorted (map (\<lambda>p. the (edf_metric cfgs (recv_key p))) (rp_data rp)))"
    if run: "receive_scheduler_packets cfgs (total_pkts cfgs) arrived = Inr rp" "rp_all_ok rp" for rp
  proof -
    from receive_exact [OF cfg run(1)] run(2) have "mset (map recv_key (rp_data rp)) = mset (sent_keys cfgs)" by blast
    then have k: "set (map recv_key (rp_data rp)) = set (sent_keys cfgs)" by (metis set_mset_mset)
    have "edf_metric cfgs (recv_key p) = Some (the (edf_metric cfgs (recv_key p)))" if "p \<in> set (rp_data rp)" for p
    proof -
      have "recv_key p \<in> set (sent_keys cfgs)" using that unfolding k [symmetric] by simp
      then show ?thesis using edf_metric_lookup [OF d] by (auto simp: set_sent_keys)
    qed
    then show ?thesis using edf_violations_sorted [of "rp_data rp" "edf_metric cfgs" _ None] by simp
  qed
  have "(\<exists>rp vs. edf_check cfgs arrived = Inr (rp, vs)) \<longleftrightarrow>
      (\<exists>rp. receive_scheduler_packets cfgs (total_pkts cfgs) arrived = Inr rp \<and> rp_all_ok rp)" (is "?l \<longleftrightarrow> ?r")
  proof
    assume ?l
    then show ?r by (auto simp: edf_check_def assert_all_ok_def split: sum.splits if_splits)
  next
    assume ?r
    then obtain rp where "receive_scheduler_packets cfgs (total_pkts cfgs) arrived = Inr rp" "rp_all_ok rp" by blast
    with order [OF this] show ?l by (auto simp: edf_check_def assert_all_ok_def)
  qed
  with receive_iff [OF cfg] show "(\<exists>rp vs. edf_check cfgs arrived = Inr (rp, vs)) \<longleftrightarrow> all_arrived cfgs arrived" by simp
  assume "edf_check cfgs arrived = Inr (rp, vs)"
  then have "receive_scheduler_packets cfgs (total_pkts cfgs) arrived = Inr rp" "rp_all_ok rp"
      "edf_violations (edf_metric cfgs) None (rp_data rp) = Inr vs"
    by (auto simp: edf_check_def assert_all_ok_def split: sum.splits if_splits)
  with order [OF this(1,2)] show "vs = [] \<longleftrightarrow> sorted (map (\<lambda>p. the (edf_metric cfgs (recv_key p))) (rp_data rp))" by auto
qed

text \<open>
  Every queue's last packet is received after all its others; the finish check compares these.
\<close>

definition finishes_by_size :: "srpt_config list \<Rightarrow> recv_entry list \<Rightarrow> bool" where
  "finishes_by_size cfgs d \<longleftrightarrow> (\<forall>a \<in> set cfgs. \<forall>b \<in> set cfgs. completion_pos d (qc_qid a) \<noteq> [] \<and>
     completion_pos d (qc_qid b) \<noteq> [] \<and> finish_pos d (qc_qid a) < finish_pos d (qc_qid b) \<longrightarrow> qc_pkt_size a \<le> qc_pkt_size b)"

lemma srpt_check_iff:
  assumes cfg: "configs_ok cfgs"
  shows "srpt_check cfgs arrived = Inr rp \<longleftrightarrow>
    receive_scheduler_packets cfgs (total_pkts cfgs) arrived = Inr rp \<and> all_arrived cfgs arrived \<and> finishes_by_size cfgs (rp_data rp)"
proof (cases "receive_scheduler_packets cfgs (total_pkts cfgs) arrived")
  case (Inl e)
  then show ?thesis by (simp add: srpt_check_def)
next
  case (Inr rp')
  from receive_exact [OF cfg Inr] have "distinct (map rv_pos (rp_data rp'))" by simp
  from srpt_finish_check [OF this, of cfgs] have
      "finish_violations None (queue_finish_order cfgs (rp_data rp')) = [] \<longleftrightarrow> finishes_by_size cfgs (rp_data rp')"
    by (simp only: finishes_by_size_def)
  moreover have "rp_all_ok rp' \<longleftrightarrow> all_arrived cfgs arrived" using receive_iff [OF cfg, of arrived] Inr by auto
  ultimately show ?thesis using Inr by (auto simp: srpt_check_def assert_all_ok_def)
qed

text \<open>
  The order is by virtual time, then by queue; but equal virtual times need not be equal doubles.
  After seven packets of weight 7 and eight of weight 8 both queues are at time 1, and the rounded
  sums put queue 1 first.
\<close>

lemma wf2q_tie_lost: "vft (wf2q_increment 7) 7 < vft (wf2q_increment 8) 8"
  by code_simp

end
