(* ===== verification/Sched_Burst.thy ===== *)
theory Sched_Burst
  imports Iface Doorbell Rank_Policies
begin

text \<open>
  The producer of one queue in the scheduler tests: \<open>send_queue_burst\<close> hands the packets of a queue
  to the driver's \<open>start_xmit\<close>, each with its rank, one after the other. What it sends is what the
  scheduler is told: the doorbells that reach the card carry the ranks of the packets in order.
\<close>

section \<open>The producer\<close>

text \<open>
  The result is the ring the producer waits for, if it does, and the counts. The time limit of
  \<open>with_timeout\<close> ends a wait; how long one lasts is up to the card.
\<close>

primrec burst_loop :: "'h env \<Rightarrow> nat \<Rightarrow> int \<Rightarrow> pkt_entry list \<Rightarrow> int \<Rightarrow> (int \<Rightarrow> int) \<Rightarrow>
    ('h, nat option \<times> (int \<Rightarrow> int)) drv" where
  "burst_loop E interface qid [] idx sent_counts = ret (None, sent_counts)"
| "burst_loop E interface qid (entry # es) idx sent_counts =
     bnd (Interface_start_xmit E interface (pe_pkt entry) (Some qid) None None (pe_rank entry)) (\<lambda>res.
       case res of
         Parked r \<Rightarrow> ret (Some r, sent_counts)
       | _ \<Rightarrow> burst_loop E interface qid es (idx + 1) (sent_counts(qid := idx)))"

definition send_queue_burst :: "'h env \<Rightarrow> nat \<Rightarrow> int \<Rightarrow> pkt_entry list \<Rightarrow> (int \<Rightarrow> int) \<Rightarrow>
    ('h, nat option \<times> (int \<Rightarrow> int)) drv" where
  "send_queue_burst E interface qid pkt_entries sent_counts = burst_loop E interface qid pkt_entries 1 sent_counts"

section \<open>What a send leaves alone\<close>

definition same_links :: "'h world \<Rightarrow> 'h world \<Rightarrow> bool" where
  "same_links s0 s \<longleftrightarrow> w_ifs s = w_ifs s0 \<and> (\<forall>r. txq_hw_regs (w_txqs s r) = txq_hw_regs (w_txqs s0 r))"

definition bus_is :: "mmio list \<Rightarrow> 'h world \<Rightarrow> bool" where
  "bus_is tr s \<longleftrightarrow> w_mmio s = tr"

named_theorems burst_intros "operations of a send and what they leave alone"

lemma burst_basic [burst_intros]:
  "keeps I (ret x)" "keeps I (lift_res v)" "keeps I (assertM b msg)" "keeps I (attr v')" "keeps I (the_buf bb)"
  "keeps I (gets f)"
  by (auto simp: keeps_def run_lift_res run_assertM run_attr the_buf_def split: option.split)

lemmas burst_seq [burst_intros] = keeps_bnd keeps_sq

lemma burst_prims [burst_intros]:
  "keeps (same_links s0) (write_dword E w a v)" "keeps (same_links s0) (mem_store b off bs)"
  "keeps (same_links s0) (mem_pack fs b off vs)" "keeps (same_links s0) (alloc_pkt E)"
  "keeps (bus_is tr) (mem_store b off bs)" "keeps (bus_is tr) (mem_pack fs b off vs)" "keeps (bus_is tr) (alloc_pkt E)"
  "keeps (bus_is tr) (upd_txq q f)"
  by (auto simp: keeps_def same_links_def bus_is_def mem_store_def mem_pack_def alloc_pkt_def alloc_region_def run_simps
      split: sum.splits list.splits option.splits)

lemma burst_upd_txq [burst_intros]: "(\<And>q. txq_hw_regs (f q) = txq_hw_regs q) \<Longrightarrow> keeps (same_links s0) (upd_txq r f)"
  by (simp add: keeps_def same_links_def upd_txq_def)

lemma burst_desc_loop [burst_intros]:
  "keeps (same_links s0) (desc_loop fmt pre dbs b base ptr len off ks)"
  "keeps (bus_is tr) (desc_loop fmt pre dbs b base ptr len off ks)"
  by (induction ks arbitrary: off) (auto simp: Let_def intro!: burst_intros)

lemma burst_post [burst_intros]: "keeps (same_links s0) (Txq_post E r data csum)" "keeps (bus_is tr) (Txq_post E r data csum)"
  unfolding Txq_post_def get_txq_def Let_def by (intro burst_intros; simp)+

lemma burst_transmit: "keeps (same_links s0) (xmit_attempt E r data csum rank)"
  unfolding xmit_attempt_def Txq_tx_transmit_def Txq_write_prod_ptr_def get_txq_def
  by (intro burst_intros keeps_if; simp add: burst_intros)

section \<open>One packet\<close>

lemma xmit_attempt_trace:
  assumes dev: "device_ok E" and inv: "run_inv s" and w: "txq_hw_regs (w_txqs s r) = Some w"
    and req: "tx_request_ok data csum" and run: "xmit_attempt E r data csum rank s = (res, s')"
  shows "run_inv s' \<and> same_links s s' \<and> (\<exists>tr. w_mmio s' = w_mmio s @ tr \<and>
    (res = Inr Sent \<and> announced w tr = [rank] \<or> res = Inr (Parked r) \<and> tr = [] \<or> res = Inl PoolError \<and> tr = []))"
proof -
  have "txq_hw_regs (w_txqs s r) \<noteq> None" using w by simp
  from xmit_attempt_ok [OF dev inv this req, of rank] run
  have ok: "run_inv s'" "res = Inr Sent \<or> res = Inr (Parked r) \<or> res = Inl PoolError" by auto
  have links: "same_links s s'" by (rule keeps_run [OF burst_transmit _ run]) (simp add: same_links_def)
  show ?thesis
  proof (cases "txq_prod_ptr (w_txqs s r) - txq_cons_ptr (w_txqs s r) < txq_full_size (w_txqs s r)")
    case False
    then have "res = Inr (Parked r)" "w_mmio s' = w_mmio s"
      using run by (auto simp: xmit_attempt_def run_simps)
    with ok links show ?thesis by simp
  next
    case True
    obtain q s1 where s1: "Txq_post E r data csum s = (q, s1)" by (cases "Txq_post E r data csum s")
    have x: "xmit_attempt E r data csum rank s = sq (Txq_tx_transmit E r data rank csum) (ret Sent) s"
      using True by (simp add: xmit_attempt_def run_simps)
    show ?thesis
    proof (cases q)
      case (Inl e)
      then have "res = Inl e" "s' = s1" using run s1 by (simp_all add: x Txq_tx_transmit_def run_sq)
      moreover have "w_mmio s1 = w_mmio s"
        using keeps_run [OF burst_post(2) _ s1, of "w_mmio s"] by (simp add: bus_is_def)
      ultimately show ?thesis using ok links by auto
    next
      case (Inr u)
      with s1 have "Txq_post E r data csum s = (Inr (), s1)" by simp
      note off = Txq_post_off_bus [OF this]
      let ?tr = "[WR w MQNIC_QUEUE_CTRL_STATUS_REG (MQNIC_QUEUE_CMD_SET_PROD_PTR OR (txq_prod_ptr (w_txqs s1 r) AND MQNIC_QUEUE_PTR_MASK)),
        WR w MQNIC_QUEUE_RANK_WQE (push_bit 3 rank OR 1)]"
      have "res = Inr Sent" "w_mmio s' = w_mmio s @ ?tr"
        using run s1 Inr off w by (auto simp: x Txq_tx_transmit_def run_sq Txq_write_prod_ptr_def run_simps)
      moreover have "announced w ?tr = [rank]"
        by (simp only: announced_def list.map concat.simps doorbell_set_prod doorbell_rank append_Nil append_Nil2)
      ultimately show ?thesis using ok links by blast
    qed
  qed
qed

section \<open>A burst\<close>

text \<open>What the packets of a queue need in order to be accepted by \<open>start_xmit\<close>.\<close>

definition sendable :: "'h world \<Rightarrow> nat \<Rightarrow> int \<Rightarrow> pkt_entry list \<Rightarrow> bool" where
  "sendable s interface qid es \<longleftrightarrow> ifc_port_up (w_ifs s interface) \<and> ifc_max_tx_mtu (w_ifs s interface) \<le> 16374 \<and>
     0 \<le> qid \<and> qid < int (length (ifc_txq (w_ifs s interface))) \<and>
     txq_hw_regs (w_txqs s (ifc_txq (w_ifs s interface) ! nat qid)) \<noteq> None \<and>
     (\<forall>e \<in> set es. int (length (pe_pkt e)) < ifc_max_tx_mtu (w_ifs s interface))"

lemma burst_loop_ok:
  assumes dev: "device_ok E" and inv: "run_inv s" and ok: "sendable s i qid es"
    and w: "txq_hw_regs (w_txqs s (ifc_txq (w_ifs s i) ! nat qid)) = Some w" and c: "counts qid = idx - 1"
  shows "\<exists>k res s' tr. burst_loop E i qid es idx counts s = (res, s') \<and> run_inv s' \<and> k \<le> length es \<and>
    w_mmio s' = w_mmio s @ tr \<and> announced w tr = map pe_rank (take k es) \<and>
    (res = Inr (None, counts(qid := idx - 1 + int k)) \<and> k = length es \<or>
     res = Inr (Some (ifc_txq (w_ifs s i) ! nat qid), counts(qid := idx - 1 + int k)) \<and> k < length es \<or>
     res = Inl PoolError \<and> k < length es)"
  using inv ok w c
proof (induction es arbitrary: s idx counts)
  case Nil
  then show ?case by (auto simp: announced_def fun_upd_idem)
next
  case (Cons e es)
  let ?r = "ifc_txq (w_ifs s i) ! nat qid"
  have ix: "0 \<le> qid" "qid < int (length (ifc_txq (w_ifs s i)))" "int (length (pe_pkt e)) < ifc_max_tx_mtu (w_ifs s i)"
      "ifc_port_up (w_ifs s i)" "ifc_max_tx_mtu (w_ifs s i) \<le> 16374"
    using Cons.prems(2) by (simp_all add: sendable_def)
  then have req: "tx_request_ok (pe_pkt e) 0" by (simp add: tx_request_ok_def)
  have x: "Interface_start_xmit E i (pe_pkt e) (Some qid) None None (pe_rank e) s = xmit_attempt E ?r (pe_pkt e) 0 (pe_rank e) s"
    using ix by (simp add: Interface_start_xmit_def run_simps xmit_csum_def)
  obtain q s1 where s1: "xmit_attempt E ?r (pe_pkt e) 0 (pe_rank e) s = (q, s1)"
    by (cases "xmit_attempt E ?r (pe_pkt e) 0 (pe_rank e) s")
  from xmit_attempt_trace [OF dev Cons.prems(1,3) req s1] obtain tr where t: "run_inv s1" "same_links s s1"
      "w_mmio s1 = w_mmio s @ tr" "q = Inr Sent \<and> announced w tr = [pe_rank e] \<or> q = Inr (Parked ?r) \<and> tr = [] \<or> q = Inl PoolError \<and> tr = []"
    by blast
  from t(4) show ?case
  proof (elim disjE conjE)
    assume sent: "q = Inr Sent" "announced w tr = [pe_rank e]"
    have l: "w_ifs s1 = w_ifs s" "\<And>r. txq_hw_regs (w_txqs s1 r) = txq_hw_regs (w_txqs s r)"
      using t(2) by (simp_all add: same_links_def)
    have "sendable s1 i qid es" using Cons.prems(2) by (simp add: sendable_def l)
    moreover have "txq_hw_regs (w_txqs s1 (ifc_txq (w_ifs s1 i) ! nat qid)) = Some w" using Cons.prems(3) by (simp add: l)
    moreover have "(counts(qid := idx)) qid = idx + 1 - 1" by simp
    ultimately have "\<exists>k res s' tr'. burst_loop E i qid es (idx + 1) (counts(qid := idx)) s1 = (res, s') \<and> run_inv s' \<and>
        k \<le> length es \<and> w_mmio s' = w_mmio s1 @ tr' \<and> announced w tr' = map pe_rank (take k es) \<and>
        (res = Inr (None, (counts(qid := idx))(qid := idx + 1 - 1 + int k)) \<and> k = length es \<or>
         res = Inr (Some ?r, (counts(qid := idx))(qid := idx + 1 - 1 + int k)) \<and> k < length es \<or> res = Inl PoolError \<and> k < length es)"
      using Cons.IH [OF t(1)] unfolding l by blast
    then obtain k res s' tr' where k: "burst_loop E i qid es (idx + 1) (counts(qid := idx)) s1 = (res, s')"
        "run_inv s'" "k \<le> length es" "w_mmio s' = w_mmio s1 @ tr'" "announced w tr' = map pe_rank (take k es)"
        "res = Inr (None, counts(qid := idx - 1 + int (Suc k))) \<and> Suc k = length (e # es) \<or>
         res = Inr (Some ?r, counts(qid := idx - 1 + int (Suc k))) \<and> Suc k < length (e # es) \<or>
         res = Inl PoolError \<and> Suc k < length (e # es)"
      by auto
    have "announced w (tr @ tr') = map pe_rank (take (Suc k) (e # es))"
      using sent(2) k(5) by (simp add: announced_def)
    moreover have "burst_loop E i qid (e # es) idx counts s = (res, s')" using x s1 sent(1) k(1) by (simp add: run_bnd)
    ultimately show ?thesis
      using k(2,3,6) k(4) [unfolded t(3) append_assoc]
      by (intro exI [of _ "Suc k"] exI [of _ res] exI [of _ s'] exI [of _ "tr @ tr'"] conjI) (assumption | simp)+
  next
    assume "q = Inr (Parked ?r)" "tr = []"
    then have "burst_loop E i qid (e # es) idx counts s = (Inr (Some ?r, counts), s1)" using x s1 by (simp add: run_bnd)
    with t(1,3) \<open>tr = []\<close> Cons.prems(4) show ?thesis
      by (intro exI [of _ 0] exI [of _ "Inr (Some ?r, counts)"] exI [of _ s1] exI [of _ "[]"]) (simp add: announced_def fun_upd_idem)
  next
    assume "q = Inl PoolError" "tr = []"
    then have "burst_loop E i qid (e # es) idx counts s = (Inl PoolError, s1)" using x s1 by (simp add: run_bnd)
    with t(1,3) \<open>tr = []\<close> show ?thesis
      by (intro exI [of _ 0] exI [of _ "Inl PoolError"] exI [of _ s1] exI [of _ "[]"]) (simp add: announced_def)
  qed
qed

end
