(* ===== verification/Psdp_Bus.thy ===== *)
theory Psdp_Bus
  imports Py_Struct
begin

text \<open>
  The segmented RAM bus of \<open>dma_psdp_ram.py\<close>: its geometry, which every class computes from the
  widths of the bus signals in its \<open>__init__\<close>, the packing of one field per segment into a wide
  signal, the command and response tuples, and the pause generators. A bus has \<open>seg_count\<close>
  segments of \<open>seg_byte_lanes\<close> bytes; byte \<open>x\<close> of the address space is byte
  \<open>x mod seg_byte_lanes\<close> of word \<open>x div (seg_byte_lanes * seg_count)\<close> of segment
  \<open>(x div seg_byte_lanes) mod seg_count\<close>.
\<close>

section \<open>Geometry\<close>

text \<open>The widths of the signals: data, byte enables, valid and address.\<close>

record psdp_bus =
  bus_data :: nat
  bus_be :: nat
  bus_valid :: nat
  bus_addr :: nat

record psdp =
  p_width :: nat
  p_byte_lanes :: nat
  p_seg_count :: nat
  p_seg_data_width :: nat
  p_seg_byte_lanes :: nat
  p_seg_addr_width :: nat
  p_seg_be_width :: nat
  p_address_width :: nat

definition seg_data_mask :: "psdp \<Rightarrow> int" where
  "seg_data_mask p = 2 ^ p_seg_data_width p - 1"

definition seg_addr_mask :: "psdp \<Rightarrow> int" where
  "seg_addr_mask p = 2 ^ p_seg_addr_width p - 1"

definition seg_be_mask :: "psdp \<Rightarrow> int" where
  "seg_be_mask p = 2 ^ p_seg_be_width p - 1"

text \<open>
  \<open>byte_lanes\<close> is the number of byte enables on a write bus and \<open>width // 8\<close> on a read bus.
\<close>

definition psdp_geom :: "nat \<Rightarrow> psdp_bus \<Rightarrow> exn + psdp" where
  "psdp_geom lanes b =
     (if bus_valid b = 0 then Inl (Exn ''ZeroDivisionError'') else
      let n = bus_valid b; dw = bus_data b div n; bl = dw div 8; aw = bus_addr b div n in
      Inr \<lparr>p_width = bus_data b, p_byte_lanes = lanes, p_seg_count = n, p_seg_data_width = dw,
        p_seg_byte_lanes = bl, p_seg_addr_width = aw, p_seg_be_width = dw div 8,
        p_address_width = aw + nat (bit_length (int (bl * n) - 1))\<rparr>)"

definition write_geom :: "psdp_bus \<Rightarrow> exn + psdp" where
  "write_geom b =
     (case psdp_geom (bus_be b) b of
        Inl e \<Rightarrow> Inl e
      | Inr p \<Rightarrow> if p_seg_be_width p * p_seg_count p = bus_be b then Inr p
          else Inl (AssertionError ''self.seg_be_width*self.seg_count == len(self.bus.wr_cmd_be)''))"

definition read_geom :: "psdp_bus \<Rightarrow> exn + psdp" where
  "read_geom b = psdp_geom (bus_data b div 8) b"

text \<open>
  Well-formed geometries: whole bytes per segment, all lanes covered, and an address space of a
  power of two that the segment addresses cover.
\<close>

definition psdp_ok :: "psdp \<Rightarrow> bool" where
  "psdp_ok p \<longleftrightarrow> 0 < p_seg_count p \<and> 0 < p_seg_byte_lanes p \<and>
     p_seg_data_width p = 8 * p_seg_byte_lanes p \<and> p_seg_be_width p = p_seg_byte_lanes p \<and>
     p_byte_lanes p = p_seg_byte_lanes p * p_seg_count p \<and>
     2 ^ p_address_width p = 2 ^ p_seg_addr_width p * p_byte_lanes p"

lemma bitlen_pred_exp: "bitlen (2 ^ j - 1) = j"
proof (induction j)
  case (Suc j)
  have d: "(2 ^ Suc j - 1) div 2 = (2 ^ j - 1 :: nat)" by (cases "2 ^ j :: nat") auto
  have "bitlen (2 ^ Suc j - 1) = Suc (bitlen ((2 ^ Suc j - 1) div 2))"
  proof -
    have "0 < (2 :: nat) ^ j" by simp
    then have "2 ^ Suc j - 1 \<noteq> (0 :: nat)" unfolding power_Suc by linarith
    then show ?thesis by (subst bitlen.simps) simp
  qed
  with Suc d show ?case by simp
qed simp

text \<open>
  A bus whose segments hold \<open>l\<close> bytes, where \<open>l\<close> times the number of segments is a power of
  two, is accepted and well-formed.
\<close>

lemma write_geom_ok:
  assumes "0 < n" "0 < l" "l * n = 2 ^ j"
    and b: "b = \<lparr>bus_data = 8 * l * n, bus_be = l * n, bus_valid = n, bus_addr = a * n\<rparr>"
  shows "\<exists>p. write_geom b = Inr p \<and> psdp_ok p \<and> p_seg_count p = n \<and> p_seg_byte_lanes p = l \<and>
    p_seg_addr_width p = a \<and> p_address_width p = a + j"
proof -
  have "bit_length (int (l * n) - 1) = int j"
  proof -
    have "nat \<bar>int (2 ^ j) - 1\<bar> = 2 ^ j - 1" by (simp add: nat_diff_distrib nat_power_eq)
    then show ?thesis unfolding assms(3) bit_length_def using bitlen_pred_exp [of j] by simp
  qed
  moreover have "2 ^ (a + j) = 2 ^ a * (l * n)" by (simp add: assms(3) power_add)
  ultimately show ?thesis
    using assms(1,2) by (simp add: b write_geom_def psdp_geom_def psdp_ok_def Let_def)
qed

section \<open>Fields of a wide signal\<close>

text \<open>\<open>x &= ~(mask << w*seg); x |= (v & mask) << w*seg\<close>, and \<open>(x >> w*seg) & mask\<close>.\<close>

definition set_field :: "nat \<Rightarrow> int \<Rightarrow> nat \<Rightarrow> int \<Rightarrow> int \<Rightarrow> int" where
  "set_field w msk seg v x = (x AND NOT (push_bit (w * seg) msk)) OR push_bit (w * seg) (v AND msk)"

definition get_field :: "nat \<Rightarrow> int \<Rightarrow> nat \<Rightarrow> int \<Rightarrow> int" where
  "get_field w msk seg x = drop_bit (w * seg) x AND msk"

lemma bit_exp_mask: "bit (2 ^ w - 1 :: int) i \<longleftrightarrow> i < w"
  by (simp flip: mask_eq_exp_minus_1 add: bit_mask_iff)

lemma seg_disjoint:
  fixes i j :: nat
  assumes "i \<noteq> j" "a < w" "b < w"
  shows "w * i + a \<noteq> w * j + b"
proof
  assume e: "w * i + a = w * j + b"
  then have "(w * i + a) div w = (w * j + b) div w" by simp
  with assms show False by simp
qed

lemma get_set_field [simp]: "get_field w (2 ^ w - 1) seg (set_field w (2 ^ w - 1) seg v x) = v AND (2 ^ w - 1)"
  by (rule bit_eqI)
     (auto simp: get_field_def set_field_def bit_and_iff bit_or_iff bit_not_iff bit_drop_bit_eq
        bit_push_bit_iff bit_exp_mask)

lemma get_set_field_other:
  assumes "seg \<noteq> seg'"
  shows "get_field w (2 ^ w - 1) seg (set_field w (2 ^ w - 1) seg' v x) = get_field w (2 ^ w - 1) seg x"
proof (rule bit_eqI)
  fix i
  have "\<not> (w * seg' \<le> w * seg + i \<and> w * seg + i - w * seg' < w)" if "i < w"
    using seg_disjoint [OF assms that, of "w * seg + i - w * seg'"] by auto
  then show "bit (get_field w (2 ^ w - 1) seg (set_field w (2 ^ w - 1) seg' v x)) i =
      bit (get_field w (2 ^ w - 1) seg x) i"
    by (auto simp: get_field_def set_field_def bit_and_iff bit_or_iff bit_not_iff bit_drop_bit_eq
        bit_push_bit_iff bit_exp_mask)
qed

text \<open>One bit of a signal.\<close>

lemma bit_raise [simp]: "bit (x OR 2 ^ j :: int) i \<longleftrightarrow> bit x i \<or> i = j"
  by (auto simp: bit_or_iff bit_exp_iff)

lemma bit_lower [simp]: "bit (x AND NOT (2 ^ j) :: int) i \<longleftrightarrow> bit x i \<and> i \<noteq> j"
  by (auto simp: bit_and_iff bit_not_iff bit_exp_iff)

lemma bit_test [simp]: "(x AND y) AND 2 ^ j = (0 :: int) \<longleftrightarrow> \<not> (bit x j \<and> bit y j)"
  using bit_iff_and_push_bit_not_eq_0 [of "x AND y" j] by (simp add: bit_and_iff)

text \<open>
  A loop over the segments in which the step of a segment changes the view of no other segment
  changes every view once.
\<close>

lemma fold_segments:
  assumes "\<And>j s. Q s \<Longrightarrow> j \<in> set js \<Longrightarrow> Q (f j s)"
    and "\<And>j s. Q s \<Longrightarrow> j \<in> set js \<Longrightarrow> j \<noteq> i \<Longrightarrow> view (f j s) = view s"
    and "\<And>s. Q s \<Longrightarrow> i \<in> set js \<Longrightarrow> view (f i s) = g (view s)"
    and "distinct js" "Q s"
  shows "Q (fold f js s) \<and> view (fold f js s) = (if i \<in> set js then g (view s) else view s)"
  using assms
proof (induction js arbitrary: s)
  case (Cons j js)
  have "Q (f j s)" using Cons.prems(1) [of s j] Cons.prems(5) by simp
  then have ih: "Q (fold f js (f j s)) \<and>
      view (fold f js (f j s)) = (if i \<in> set js then g (view (f j s)) else view (f j s))"
    using Cons.prems(1-4) by (intro Cons.IH) auto
  show ?case
  proof (cases "j = i")
    case True
    with Cons.prems(3) [of s] Cons.prems(4,5) ih show ?thesis by auto
  next
    case False
    with Cons.prems(2) [of s j] Cons.prems(5) ih show ?thesis by auto
  qed
qed simp

section \<open>Pause generators\<close>

text \<open>
  \<open>pause\<close>, the generator and the position of the coroutine that reads it, if there is one. A
  generator gives a value for each clock edge until it ends.
\<close>

record pause_st =
  ps_pause :: bool
  ps_gen :: "(nat \<Rightarrow> bool option) option"
  ps_pos :: "nat option"

definition pause_init :: pause_st where
  "pause_init = \<lparr>ps_pause = False, ps_gen = None, ps_pos = None\<rparr>"

definition set_pause_generator :: "(nat \<Rightarrow> bool option) option \<Rightarrow> pause_st \<Rightarrow> pause_st" where
  "set_pause_generator gen st =
     st\<lparr>ps_gen := gen, ps_pos := (case gen of None \<Rightarrow> None | Some _ \<Rightarrow> Some 0)\<rparr>"

definition clear_pause_generator :: "pause_st \<Rightarrow> pause_st" where
  "clear_pause_generator st = set_pause_generator None st"

text \<open>One turn of \<open>_run_pause\<close>.\<close>

definition run_pause :: "pause_st \<Rightarrow> pause_st" where
  "run_pause st =
     (case (ps_gen st, ps_pos st) of
        (Some g, Some n) \<Rightarrow>
          (case g n of
             Some v \<Rightarrow> st\<lparr>ps_pause := v, ps_pos := Some (n + 1)\<rparr>
           | None \<Rightarrow> st\<lparr>ps_pos := None\<rparr>)
      | _ \<Rightarrow> st)"

text \<open>
  Clearing the generator stops the coroutine but leaves \<open>pause\<close> as the generator last set it.
\<close>

lemma clear_pause_keeps: "ps_pause ((run_pause ^^ n) (clear_pause_generator st)) = ps_pause st"
proof -
  let ?c = "clear_pause_generator st"
  have c: "run_pause ?c = ?c" "ps_pause ?c = ps_pause st"
    by (simp_all add: clear_pause_generator_def set_pause_generator_def run_pause_def)
  have "(run_pause ^^ n) ?c = ?c" by (induction n) (simp_all add: c)
  with c show ?thesis by simp
qed

end
