(* ===== verification/Psdp_Write.thy ===== *)
theory Psdp_Write
  imports Psdp_Bus
begin

text \<open>
  The write side of \<open>dma_psdp_ram.py\<close>: \<open>PsdpRamMasterWrite\<close>, which splits a write into one
  operation per segment word, queues them per segment and drives them on the bus, and
  \<open>PsdpRamWrite\<close>, which performs what the bus says on its memory. The memory itself
  (\<open>cocotbext.axi.memory.Memory\<close>) is a parameter. The coroutines are steps: one iteration of
  \<open>_process_write\<close>, one step of \<open>_process_write_resp\<close>, one clock edge of each \<open>_run\<close>.
  Cocotb's queues are unbounded and first in first out.
\<close>

section \<open>The master\<close>

record write_cmd =
  wcm_address :: nat
  wcm_data :: "byte list"
  wcm_event :: nat

record seg_write =
  sw_addr :: int
  sw_data :: int
  sw_be :: int

record resp_cmd =
  rcm_address :: nat
  rcm_length :: nat
  rcm_segments :: nat
  rcm_first_seg :: nat
  rcm_event :: nat

text \<open>
  \<open>mw_resps\<close> counts the tokens in each response queue; \<open>mw_current_resp\<close> is the command whose
  responses are being collected, the next segment and how many have come; \<open>mw_done\<close> are the
  events that have been set, with address and length of the response. The last eight fields are
  the local variables of \<open>_run\<close> and the signals it drives.
\<close>

record mw =
  mw_in_flight :: int
  mw_idle :: bool
  mw_next_event :: nat
  mw_cmds :: "write_cmd list"
  mw_segs :: "seg_write list list"
  mw_resps :: "nat list"
  mw_resp_cmds :: "resp_cmd list"
  mw_current_resp :: "(resp_cmd \<times> nat \<times> nat) option"
  mw_done :: "(nat \<times> nat \<times> nat) list"
  mw_pause :: pause_st
  mw_cmd_valid :: int
  mw_cmd_addr :: int
  mw_cmd_data :: int
  mw_cmd_be :: int
  mw_bus_valid :: int
  mw_bus_addr :: int
  mw_bus_data :: int
  mw_bus_be :: int

definition mw_init :: "psdp \<Rightarrow> mw" where
  "mw_init p =
     \<lparr>mw_in_flight = 0, mw_idle = True, mw_next_event = 0, mw_cmds = [],
      mw_segs = replicate (p_seg_count p) [], mw_resps = replicate (p_seg_count p) 0,
      mw_resp_cmds = [], mw_current_resp = None, mw_done = [], mw_pause = pause_init,
      mw_cmd_valid = 0, mw_cmd_addr = 0, mw_cmd_data = 0, mw_cmd_be = 0,
      mw_bus_valid = 0, mw_bus_addr = 0, mw_bus_data = 0, mw_bus_be = 0\<rparr>"

definition mw_is_idle :: "mw \<Rightarrow> bool" where
  "mw_is_idle s = (mw_in_flight s = 0)"

text \<open>
  \<open>write\<close> up to the point where it waits for its event; the result is the event. The data is
  an integer, which is refused, or bytes.
\<close>

definition mw_write :: "psdp \<Rightarrow> int \<Rightarrow> int + byte list \<Rightarrow> (mw, nat) M" where
  "mw_write p address data = (\<lambda>s.
     if address < 0 \<or> address \<ge> 2 ^ p_address_width p
     then (Inl (ValueError ''Address out of range''), s) else
     case data of
       Inl _ \<Rightarrow> (Inl (ValueError ''Expected bytes or bytearray for data''), s)
     | Inr bs \<Rightarrow>
         if address + int (length bs) > 2 ^ p_address_width p
         then (Inl (ValueError ''Requested transfer overruns end of address space''), s)
         else (Inr (mw_next_event s), s\<lparr>mw_next_event := mw_next_event s + 1,
           mw_in_flight := mw_in_flight s + 1, mw_idle := False,
           mw_cmds := mw_cmds s @ [\<lparr>wcm_address = nat address, wcm_data = bs, wcm_event = mw_next_event s\<rparr>]\<rparr>))"

subsection \<open>Splitting a write\<close>

text \<open>\<open>segments\<close> and the offsets at which the first and the last word start and stop.\<close>

definition seg_words :: "psdp \<Rightarrow> nat \<Rightarrow> nat \<Rightarrow> nat" where
  "seg_words p a n = (n + a mod p_seg_byte_lanes p + p_seg_byte_lanes p - 1) div p_seg_byte_lanes p"

definition seg_start :: "psdp \<Rightarrow> nat \<Rightarrow> nat" where
  "seg_start p a = a mod p_seg_byte_lanes p"

definition seg_end :: "psdp \<Rightarrow> nat \<Rightarrow> nat \<Rightarrow> nat" where
  "seg_end p a n = nat ((int a + int n - 1) mod int (p_seg_byte_lanes p)) + 1"

definition first_seg :: "psdp \<Rightarrow> nat \<Rightarrow> nat" where
  "first_seg p a = (a div p_seg_byte_lanes p) mod p_seg_count p"

text \<open>The window of bytes of word \<open>k\<close> that the transfer touches.\<close>

definition seg_window :: "psdp \<Rightarrow> nat \<Rightarrow> nat \<Rightarrow> nat \<Rightarrow> nat \<Rightarrow> nat \<times> nat" where
  "seg_window p a n segments k =
     (if k = 0 then seg_start p a else 0,
      if k = segments - 1 then seg_end p a n else p_seg_byte_lanes p)"

definition seg_be :: "psdp \<Rightarrow> nat \<Rightarrow> nat \<Rightarrow> nat \<Rightarrow> nat \<Rightarrow> int" where
  "seg_be p a n segments k =
     (let be0 = seg_be_mask p;
          be1 = (if k = 0 then be0 AND (push_bit (seg_start p a) (seg_be_mask p) AND seg_be_mask p) else be0)
      in if k = segments - 1
         then be1 AND drop_bit (p_seg_byte_lanes p - seg_end p a n) (seg_be_mask p) else be1)"

text \<open>\<open>for j in range(start, stop): val |= cmd.data[offset] << j*8; offset += 1\<close>.\<close>

primrec gather_bytes :: "byte list \<Rightarrow> nat list \<Rightarrow> int \<Rightarrow> nat \<Rightarrow> exn + (int \<times> nat)" where
  "gather_bytes data [] val offset = Inr (val, offset)"
| "gather_bytes data (j # js) val offset =
     (if offset < length data
      then gather_bytes data js (val OR push_bit (8 * j) (uint (data ! offset))) (offset + 1)
      else Inl IndexError)"

text \<open>
  The operations of a write, each with its segment, and the exception that stops the loop, if
  any.
\<close>

primrec split_loop ::
    "psdp \<Rightarrow> nat \<Rightarrow> byte list \<Rightarrow> nat \<Rightarrow> nat list \<Rightarrow> nat \<Rightarrow> nat \<Rightarrow> (nat \<times> seg_write) list \<times> exn option" where
  "split_loop p a data segments [] offset seg = ([], None)"
| "split_loop p a data segments (k # ks) offset seg =
     (case gather_bytes data [fst (seg_window p a (length data) segments k)
             ..<snd (seg_window p a (length data) segments k)] 0 offset of
        Inl e \<Rightarrow> ([], Some e)
      | Inr (val, offset') \<Rightarrow>
          let op = \<lparr>sw_addr = int ((a + k * p_seg_byte_lanes p) div p_byte_lanes p), sw_data = val,
                sw_be = seg_be p a (length data) segments k\<rparr>;
              rest = split_loop p a data segments ks offset' ((seg + 1) mod p_seg_count p)
          in ((seg, op) # fst rest, snd rest))"

definition split_write :: "psdp \<Rightarrow> nat \<Rightarrow> byte list \<Rightarrow> (nat \<times> seg_write) list \<times> exn option" where
  "split_write p a data =
     (let segments = seg_words p a (length data)
      in split_loop p a data segments [0..<segments] 0 (first_seg p a))"

text \<open>Queueing the operations.\<close>

definition enqueue :: "'a list list \<Rightarrow> nat \<times> 'a \<Rightarrow> 'a list list" where
  "enqueue qs x = qs[fst x := qs ! fst x @ [snd x]]"

text \<open>One iteration of \<open>_process_write\<close>; nothing happens while there is no command.\<close>

definition mw_process_write :: "psdp \<Rightarrow> (mw, bool) M" where
  "mw_process_write p = (\<lambda>s.
     case mw_cmds s of
       [] \<Rightarrow> (Inr False, s)
     | c # cs \<Rightarrow>
         let a = wcm_address c; n = length (wcm_data c);
             r = split_write p a (wcm_data c);
             s' = s\<lparr>mw_cmds := cs,
               mw_resp_cmds := mw_resp_cmds s @ [\<lparr>rcm_address = a, rcm_length = n,
                 rcm_segments = seg_words p a n, rcm_first_seg = first_seg p a, rcm_event = wcm_event c\<rparr>],
               mw_segs := foldl enqueue (mw_segs s) (fst r)\<rparr>
         in (case snd r of None \<Rightarrow> Inr True | Some e \<Rightarrow> Inl e, s'))"

subsection \<open>Collecting responses\<close>

text \<open>
  One step of \<open>_process_write_resp\<close>: take the next command, take one token of the segment it
  waits for, or complete it. \<open>None\<close>: the coroutine is suspended.
\<close>

definition mw_process_resp :: "psdp \<Rightarrow> mw \<Rightarrow> mw option" where
  "mw_process_resp p s =
     (case mw_current_resp s of
        None \<Rightarrow>
          (case mw_resp_cmds s of
             [] \<Rightarrow> None
           | c # cs \<Rightarrow> Some (s\<lparr>mw_resp_cmds := cs, mw_current_resp := Some (c, rcm_first_seg c, 0)\<rparr>))
      | Some (c, seg, k) \<Rightarrow>
          if k < rcm_segments c then
            (if mw_resps s ! seg = 0 then None
             else Some (s\<lparr>mw_resps := (mw_resps s)[seg := mw_resps s ! seg - 1],
               mw_current_resp := Some (c, (seg + 1) mod p_seg_count p, k + 1)\<rparr>))
          else Some (s\<lparr>mw_done := mw_done s @ [(rcm_event c, rcm_address c, rcm_length c)],
            mw_current_resp := None, mw_in_flight := mw_in_flight s - 1,
            mw_idle := (if mw_in_flight s - 1 = 0 then True else mw_idle s)\<rparr>))"

subsection \<open>Driving the bus\<close>

text \<open>
  The body of the loop over the segments: \<open>ready\<close> and \<open>done\<close> are the signals sampled at the
  clock edge.
\<close>

definition mw_run_seg :: "psdp \<Rightarrow> int \<Rightarrow> int \<Rightarrow> nat \<Rightarrow> mw \<Rightarrow> mw" where
  "mw_run_seg p ready done' seg s =
     (let s1 =
        (if bit ready seg \<or> \<not> bit (mw_cmd_valid s) seg then
           (if mw_segs s ! seg \<noteq> [] \<and> \<not> ps_pause (mw_pause s) then
              let op = hd (mw_segs s ! seg) in
              s\<lparr>mw_segs := (mw_segs s)[seg := tl (mw_segs s ! seg)],
                mw_cmd_addr := set_field (p_seg_addr_width p) (seg_addr_mask p) seg (sw_addr op) (mw_cmd_addr s),
                mw_cmd_data := set_field (p_seg_data_width p) (seg_data_mask p) seg (sw_data op) (mw_cmd_data s),
                mw_cmd_be := set_field (p_seg_be_width p) (seg_be_mask p) seg (sw_be op) (mw_cmd_be s),
                mw_cmd_valid := mw_cmd_valid s OR push_bit seg 1\<rparr>
            else s\<lparr>mw_cmd_valid := mw_cmd_valid s AND NOT (push_bit seg 1)\<rparr>)
         else s)
      in if bit done' seg then s1\<lparr>mw_resps := (mw_resps s1)[seg := mw_resps s1 ! seg + 1]\<rparr> else s1)"

definition mw_run :: "psdp \<Rightarrow> bool \<Rightarrow> int \<Rightarrow> int \<Rightarrow> mw \<Rightarrow> mw" where
  "mw_run p reset ready done' s =
     (if reset then s\<lparr>mw_bus_valid := 0\<rparr> else
      let s' = fold (mw_run_seg p ready done') [0..<p_seg_count p] s in
      s'\<lparr>mw_bus_valid := mw_cmd_valid s', mw_bus_addr := mw_cmd_addr s',
         mw_bus_data := mw_cmd_data s', mw_bus_be := mw_cmd_be s'\<rparr>)"

section \<open>The memory\<close>

text \<open>
  The operations of \<open>Memory\<close> that the models use, and what they rely on: the contents are bytes,
  a write inside the memory replaces them, a read inside it gives them.
\<close>

record 'm memory_if =
  mi_size :: "'m \<Rightarrow> nat"
  mi_bytes :: "'m \<Rightarrow> byte list"
  mi_read :: "'m \<Rightarrow> nat \<Rightarrow> nat \<Rightarrow> exn + byte list"
  mi_write :: "'m \<Rightarrow> nat \<Rightarrow> byte list \<Rightarrow> exn + 'm"

definition memory_ok :: "'m memory_if \<Rightarrow> bool" where
  "memory_ok I \<longleftrightarrow>
     (\<forall>m. length (mi_bytes I m) = mi_size I m) \<and>
     (\<forall>m a n. a + n \<le> mi_size I m \<longrightarrow> mi_read I m a n = Inr (take n (drop a (mi_bytes I m)))) \<and>
     (\<forall>m a bs. a + length bs \<le> mi_size I m \<longrightarrow>
        (\<exists>m'. mi_write I m a bs = Inr m' \<and> mi_bytes I m' = splice (mi_bytes I m) a bs))"

text \<open>A list of bytes, for witnesses.\<close>

definition list_memory :: "byte list memory_if" where
  "list_memory = \<lparr>mi_size = length, mi_bytes = (\<lambda>m. m),
     mi_read = (\<lambda>m a n. if a + n \<le> length m then Inr (take n (drop a m)) else Inl (ValueError ''read'')),
     mi_write = (\<lambda>m a bs. if a + length bs \<le> length m then Inr (splice m a bs) else Inl (ValueError ''write''))\<rparr>"

lemma list_memory_ok: "memory_ok list_memory"
  by (simp add: memory_ok_def list_memory_def)

section \<open>The RAM\<close>

text \<open>
  The list of contiguous writes for the byte enables: the loop over the byte lanes, with
  \<open>start_offset\<close>, and the write that is open at its end.
\<close>

definition flush_op :: "nat \<Rightarrow> byte list \<Rightarrow> nat option \<Rightarrow> nat \<Rightarrow> (nat \<times> byte list) list" where
  "flush_op addr data start offset =
     (case start of
        Some st \<Rightarrow> if offset \<noteq> st then [(addr + st, drop st (take offset data))] else []
      | None \<Rightarrow> [])"

primrec be_ops :: "nat \<Rightarrow> byte list \<Rightarrow> int \<Rightarrow> nat \<Rightarrow> nat option \<Rightarrow> nat \<Rightarrow> (nat \<times> byte list) list" where
  "be_ops addr data be 0 start offset = flush_op addr data start offset"
| "be_ops addr data be (Suc n) start offset =
     (if bit be offset
      then be_ops addr data be n (case start of None \<Rightarrow> Some offset | Some st \<Rightarrow> Some st) (offset + 1)
      else flush_op addr data start offset @ be_ops addr data be n None (offset + 1))"

primrec perform_writes :: "'m memory_if \<Rightarrow> (nat \<times> byte list) list \<Rightarrow> 'm \<Rightarrow> exn + 'm" where
  "perform_writes I [] m = Inr m"
| "perform_writes I (x # xs) m =
     (case mi_write I m (fst x) (snd x) of Inl e \<Rightarrow> Inl e | Inr m' \<Rightarrow> perform_writes I xs m')"

definition ram_write_word :: "'m memory_if \<Rightarrow> psdp \<Rightarrow> nat \<Rightarrow> int \<Rightarrow> int \<Rightarrow> int \<Rightarrow> 'm \<Rightarrow> exn + 'm" where
  "ram_write_word I p seg addr data be m =
     perform_writes I
       (be_ops ((nat addr * p_seg_count p + seg) * p_seg_byte_lanes p)
          (le_bytes (p_seg_byte_lanes p) data) be (p_byte_lanes p) None 0) m"

record 'm rw =
  rw_mem :: 'm
  rw_pause :: pause_st
  rw_cmd_ready :: int
  rw_bus_ready :: int
  rw_bus_done :: int

definition rw_init :: "'m \<Rightarrow> 'm rw" where
  "rw_init m = \<lparr>rw_mem = m, rw_pause = pause_init, rw_cmd_ready = 0, rw_bus_ready = 0, rw_bus_done = 0\<rparr>"

text \<open>The loop over the segments, with \<open>wr_done\<close>; \<open>valid\<close>, \<open>addr\<close>, \<open>data\<close>, \<open>be\<close> are sampled.\<close>

primrec rw_segs ::
    "'m memory_if \<Rightarrow> psdp \<Rightarrow> int \<Rightarrow> int \<Rightarrow> int \<Rightarrow> int \<Rightarrow> int \<Rightarrow> nat list \<Rightarrow> int \<times> 'm \<Rightarrow> exn + (int \<times> 'm)" where
  "rw_segs I p ready valid addr data be [] st = Inr st"
| "rw_segs I p ready valid addr data be (seg # segs) st =
     (if (ready AND valid) AND push_bit seg 1 \<noteq> 0 then
        (case ram_write_word I p seg (get_field (p_seg_addr_width p) (seg_addr_mask p) seg addr)
               (get_field (p_seg_data_width p) (seg_data_mask p) seg data)
               (get_field (p_seg_be_width p) (seg_be_mask p) seg be) (snd st) of
           Inl e \<Rightarrow> Inl e
         | Inr m \<Rightarrow> rw_segs I p ready valid addr data be segs (fst st OR push_bit seg 1, m))
      else rw_segs I p ready valid addr data be segs st)"

definition rw_run :: "'m memory_if \<Rightarrow> psdp \<Rightarrow> bool \<Rightarrow> int \<Rightarrow> int \<Rightarrow> int \<Rightarrow> int \<Rightarrow> 'm rw \<Rightarrow> exn + 'm rw" where
  "rw_run I p reset valid addr data be s =
     (if reset then Inr (s\<lparr>rw_bus_ready := 0, rw_bus_done := 0\<rparr>) else
      case rw_segs I p (rw_cmd_ready s) valid addr data be [0..<p_seg_count p] (0, rw_mem s) of
        Inl e \<Rightarrow> Inl e
      | Inr (done', m) \<Rightarrow>
          let ready = (if ps_pause (rw_pause s) then 0 else 2 ^ p_seg_count p - 1) in
          Inr (s\<lparr>rw_mem := m, rw_cmd_ready := ready, rw_bus_ready := ready, rw_bus_done := done'\<rparr>))"

end
