(* ===== verification/Psdp_Read.thy ===== *)
theory Psdp_Read
  imports Psdp_Write
begin

text \<open>
  The read side of \<open>dma_psdp_ram.py\<close>: \<open>PsdpRamMasterRead\<close>, which asks for the words of a transfer
  segment by segment and puts the answers together, and \<open>PsdpRamRead\<close>, which reads its memory and
  answers through a pipeline of one word and an output register per segment. The coroutines are
  steps, as on the write side.
\<close>

section \<open>The master\<close>

record read_cmd =
  rdc_address :: nat
  rdc_length :: nat
  rdc_event :: nat

record seg_read =
  sr_addr :: int

text \<open>
  \<open>mr_current_resp\<close> is the command whose answers are being collected, the next segment, how many
  words have come, and the bytes so far; \<open>mr_done\<close> are the events that have been set, with
  address and data. The last five fields are the local variables of \<open>_run\<close> and the signals it
  drives.
\<close>

record mr =
  mr_in_flight :: int
  mr_idle :: bool
  mr_next_event :: nat
  mr_cmds :: "read_cmd list"
  mr_segs :: "seg_read list list"
  mr_resps :: "int list list"
  mr_resp_cmds :: "resp_cmd list"
  mr_current_resp :: "(resp_cmd \<times> nat \<times> nat \<times> byte list) option"
  mr_done :: "(nat \<times> nat \<times> byte list) list"
  mr_pause :: pause_st
  mr_cmd_valid :: int
  mr_cmd_addr :: int
  mr_resp_ready :: int
  mr_bus_valid :: int
  mr_bus_addr :: int
  mr_bus_ready :: int

definition mr_init :: "psdp \<Rightarrow> mr" where
  "mr_init p =
     \<lparr>mr_in_flight = 0, mr_idle = True, mr_next_event = 0, mr_cmds = [],
      mr_segs = replicate (p_seg_count p) [], mr_resps = replicate (p_seg_count p) [],
      mr_resp_cmds = [], mr_current_resp = None, mr_done = [], mr_pause = pause_init,
      mr_cmd_valid = 0, mr_cmd_addr = 0, mr_resp_ready = 0,
      mr_bus_valid = 0, mr_bus_addr = 0, mr_bus_ready = 0\<rparr>"

definition mr_is_idle :: "mr \<Rightarrow> bool" where
  "mr_is_idle s = (mr_in_flight s = 0)"

text \<open>\<open>read\<close> up to the point where it waits for its event; the result is the event.\<close>

definition mr_read :: "psdp \<Rightarrow> int \<Rightarrow> int \<Rightarrow> (mr, nat) M" where
  "mr_read p address len = (\<lambda>s.
     if address < 0 \<or> address \<ge> 2 ^ p_address_width p
     then (Inl (ValueError ''Address out of range''), s)
     else if len < 0 then (Inl (ValueError ''Read length must be positive''), s)
     else if address + len > 2 ^ p_address_width p
     then (Inl (ValueError ''Requested transfer overruns end of address space''), s)
     else (Inr (mr_next_event s), s\<lparr>mr_next_event := mr_next_event s + 1,
       mr_in_flight := mr_in_flight s + 1, mr_idle := False,
       mr_cmds := mr_cmds s @ [\<lparr>rdc_address = nat address, rdc_length = nat len, rdc_event = mr_next_event s\<rparr>]\<rparr>))"

text \<open>The words a transfer asks for, each with its segment: the loop of \<open>_process_read\<close>.\<close>

primrec split_read_loop :: "psdp \<Rightarrow> nat \<Rightarrow> nat list \<Rightarrow> nat \<Rightarrow> (nat \<times> seg_read) list" where
  "split_read_loop p a [] seg = []"
| "split_read_loop p a (k # ks) seg =
     (seg, \<lparr>sr_addr = int ((a + k * p_seg_byte_lanes p) div p_byte_lanes p)\<rparr>) #
       split_read_loop p a ks ((seg + 1) mod p_seg_count p)"

definition split_read :: "psdp \<Rightarrow> nat \<Rightarrow> nat \<Rightarrow> (nat \<times> seg_read) list" where
  "split_read p a n = split_read_loop p a [0..<seg_words p a n] (first_seg p a)"

text \<open>One iteration of \<open>_process_read\<close>; nothing happens while there is no command.\<close>

definition mr_process_read :: "psdp \<Rightarrow> mr \<Rightarrow> bool \<times> mr" where
  "mr_process_read p s =
     (case mr_cmds s of
        [] \<Rightarrow> (False, s)
      | c # cs \<Rightarrow>
          let a = rdc_address c; n = rdc_length c
          in (True, s\<lparr>mr_cmds := cs,
               mr_resp_cmds := mr_resp_cmds s @ [\<lparr>rcm_address = a, rcm_length = n,
                 rcm_segments = seg_words p a n, rcm_first_seg = first_seg p a, rcm_event = rdc_event c\<rparr>],
               mr_segs := foldl enqueue (mr_segs s) (split_read p a n)\<rparr>))"

text \<open>\<open>for j in range(start, stop): data.extend(bytearray([(seg_data >> j*8) & 0xff]))\<close>.\<close>

definition word_bytes :: "int \<Rightarrow> nat list \<Rightarrow> byte list" where
  "word_bytes w js = map (\<lambda>j. of_int (drop_bit (8 * j) w AND 255)) js"

text \<open>
  One step of \<open>_process_read_resp\<close>: take the next command, take one word of the segment it waits
  for, or complete it. \<open>None\<close>: the coroutine is suspended.
\<close>

definition mr_process_resp :: "psdp \<Rightarrow> mr \<Rightarrow> mr option" where
  "mr_process_resp p s =
     (case mr_current_resp s of
        None \<Rightarrow>
          (case mr_resp_cmds s of
             [] \<Rightarrow> None
           | c # cs \<Rightarrow> Some (s\<lparr>mr_resp_cmds := cs, mr_current_resp := Some (c, rcm_first_seg c, 0, [])\<rparr>))
      | Some (c, seg, k, bs) \<Rightarrow>
          if k < rcm_segments c then
            (case mr_resps s ! seg of
               [] \<Rightarrow> None
             | w # ws \<Rightarrow>
                 let win = seg_window p (rcm_address c) (rcm_length c) (rcm_segments c) k
                 in Some (s\<lparr>mr_resps := (mr_resps s)[seg := ws],
                      mr_current_resp := Some (c, (seg + 1) mod p_seg_count p, k + 1,
                        bs @ word_bytes w [fst win..<snd win])\<rparr>))
          else Some (s\<lparr>mr_done := mr_done s @ [(rcm_event c, rcm_address c, bs)],
            mr_current_resp := None, mr_in_flight := mr_in_flight s - 1,
            mr_idle := (if mr_in_flight s - 1 = 0 then True else mr_idle s)\<rparr>))"

text \<open>
  The body of the loop over the segments: \<open>ready\<close>, \<open>valid\<close> and \<open>data\<close> are the signals sampled at
  the clock edge.
\<close>

definition mr_run_seg :: "psdp \<Rightarrow> int \<Rightarrow> int \<Rightarrow> int \<Rightarrow> nat \<Rightarrow> mr \<Rightarrow> mr" where
  "mr_run_seg p ready valid data seg s =
     (let s1 =
        (if bit ready seg \<or> \<not> bit (mr_cmd_valid s) seg then
           (if mr_segs s ! seg \<noteq> [] \<and> \<not> ps_pause (mr_pause s) then
              let op = hd (mr_segs s ! seg) in
              s\<lparr>mr_segs := (mr_segs s)[seg := tl (mr_segs s ! seg)],
                mr_cmd_addr := set_field (p_seg_addr_width p) (seg_addr_mask p) seg (sr_addr op) (mr_cmd_addr s),
                mr_cmd_valid := mr_cmd_valid s OR push_bit seg 1\<rparr>
            else s\<lparr>mr_cmd_valid := mr_cmd_valid s AND NOT (push_bit seg 1)\<rparr>)
         else s)
      in if (mr_resp_ready s AND valid) AND push_bit seg 1 \<noteq> 0
         then s1\<lparr>mr_resps := (mr_resps s1)[seg := mr_resps s1 ! seg @
                  [get_field (p_seg_data_width p) (seg_data_mask p) seg data]]\<rparr>
         else s1)"

definition mr_run :: "psdp \<Rightarrow> bool \<Rightarrow> int \<Rightarrow> int \<Rightarrow> int \<Rightarrow> mr \<Rightarrow> mr" where
  "mr_run p reset ready valid data s =
     (if reset then s\<lparr>mr_bus_valid := 0, mr_bus_ready := 0, mr_cmd_valid := 0, mr_resp_ready := 0\<rparr> else
      let s' = fold (mr_run_seg p ready valid data) [0..<p_seg_count p] s;
          resp_ready = (if ps_pause (mr_pause s) then 0 else 2 ^ p_seg_count p - 1) in
      s'\<lparr>mr_resp_ready := resp_ready, mr_bus_valid := mr_cmd_valid s', mr_bus_addr := mr_cmd_addr s',
         mr_bus_ready := resp_ready\<rparr>)"

section \<open>The RAM\<close>

record 'm rr =
  rr_mem :: 'm
  rr_pause :: pause_st
  rr_pipe :: "int option list"
  rr_cmd_ready :: int
  rr_resp_valid :: int
  rr_resp_data :: int
  rr_bus_ready :: int
  rr_bus_valid :: int
  rr_bus_data :: int

definition rr_init :: "psdp \<Rightarrow> 'm \<Rightarrow> 'm rr" where
  "rr_init p m = \<lparr>rr_mem = m, rr_pause = pause_init, rr_pipe = replicate (p_seg_count p) None,
     rr_cmd_ready = 0, rr_resp_valid = 0, rr_resp_data = 0,
     rr_bus_ready = 0, rr_bus_valid = 0, rr_bus_data = 0\<rparr>"

text \<open>A word of the memory; the address wraps at the size of the memory.\<close>

definition ram_read_word :: "'m memory_if \<Rightarrow> psdp \<Rightarrow> nat \<Rightarrow> int \<Rightarrow> 'm \<Rightarrow> exn + int" where
  "ram_read_word I p seg addr m =
     (if mi_size I m = 0 then Inl (Exn ''ZeroDivisionError'') else
      case mi_read I m ((nat addr * p_seg_count p + seg) * p_seg_byte_lanes p mod mi_size I m) (p_seg_byte_lanes p) of
        Inl e \<Rightarrow> Inl e
      | Inr bs \<Rightarrow> Inr (le_val bs))"

text \<open>Moving the pipeline into the output register of a segment.\<close>

definition rr_advance :: "psdp \<Rightarrow> int \<Rightarrow> nat \<Rightarrow> 'm rr \<Rightarrow> 'm rr" where
  "rr_advance p resp_ready seg s =
     (if bit resp_ready seg \<or> \<not> bit (rr_resp_valid s) seg then
        (case rr_pipe s ! seg of
           Some v \<Rightarrow> s\<lparr>rr_resp_data := set_field (p_seg_data_width p) (seg_data_mask p) seg v (rr_resp_data s),
             rr_resp_valid := rr_resp_valid s OR push_bit seg 1, rr_pipe := (rr_pipe s)[seg := None]\<rparr>
         | None \<Rightarrow> s\<lparr>rr_resp_valid := rr_resp_valid s AND NOT (push_bit seg 1)\<rparr>)
      else s)"

text \<open>The body of the loop over the segments.\<close>

definition rr_run_seg :: "'m memory_if \<Rightarrow> psdp \<Rightarrow> int \<Rightarrow> int \<Rightarrow> int \<Rightarrow> nat \<Rightarrow> 'm rr \<Rightarrow> exn + 'm rr" where
  "rr_run_seg I p valid addr resp_ready seg s =
     (let s1 = rr_advance p resp_ready seg s in
      case (if (rr_cmd_ready s1 AND valid) AND push_bit seg 1 \<noteq> 0 then
              (case ram_read_word I p seg (get_field (p_seg_addr_width p) (seg_addr_mask p) seg addr) (rr_mem s1) of
                 Inl e \<Rightarrow> Inl e
               | Inr v \<Rightarrow> Inr (s1\<lparr>rr_pipe := (rr_pipe s1)[seg := Some v]\<rparr>))
            else Inr s1) of
        Inl e \<Rightarrow> Inl e
      | Inr s2 \<Rightarrow>
          Inr (s2\<lparr>rr_cmd_ready :=
            (if \<not> bit (rr_resp_valid s2) seg \<or> rr_pipe s2 ! seg = None
             then rr_cmd_ready s2 OR push_bit seg 1
             else rr_cmd_ready s2 AND NOT (push_bit seg 1))\<rparr>))"

primrec rr_segs :: "'m memory_if \<Rightarrow> psdp \<Rightarrow> int \<Rightarrow> int \<Rightarrow> int \<Rightarrow> nat list \<Rightarrow> 'm rr \<Rightarrow> exn + 'm rr" where
  "rr_segs I p valid addr resp_ready [] s = Inr s"
| "rr_segs I p valid addr resp_ready (seg # segs) s =
     (case rr_run_seg I p valid addr resp_ready seg s of
        Inl e \<Rightarrow> Inl e
      | Inr s' \<Rightarrow> rr_segs I p valid addr resp_ready segs s')"

definition rr_run :: "'m memory_if \<Rightarrow> psdp \<Rightarrow> bool \<Rightarrow> int \<Rightarrow> int \<Rightarrow> int \<Rightarrow> 'm rr \<Rightarrow> exn + 'm rr" where
  "rr_run I p reset valid addr resp_ready s =
     (if reset then Inr (s\<lparr>rr_bus_ready := 0, rr_bus_valid := 0, rr_cmd_ready := 0, rr_resp_valid := 0\<rparr>) else
      case rr_segs I p valid addr resp_ready [0..<p_seg_count p] s of
        Inl e \<Rightarrow> Inl e
      | Inr s' \<Rightarrow>
          let ready = (if ps_pause (rr_pause s') then 0 else rr_cmd_ready s') in
          Inr (s'\<lparr>rr_cmd_ready := ready, rr_bus_ready := ready,
            rr_bus_data := rr_resp_data s', rr_bus_valid := rr_resp_valid s'\<rparr>))"

end
