(* ===== verification/Psdp_Split.thy ===== *)
theory Psdp_Split
  imports Psdp_Write
begin

text \<open>
  What the write side does to the memory. A word written with byte enables changes exactly the
  enabled bytes (\<open>ram_write_word_run\<close>); the operations into which the master splits a write,
  performed one after the other, put the data at its address and change nothing else
  (\<open>split_write_ok\<close>).
\<close>

section \<open>One word\<close>

lemma memory_okD:
  assumes "memory_ok I"
  shows "length (mi_bytes I m) = mi_size I m"
    and "a + n \<le> mi_size I m \<Longrightarrow> mi_read I m a n = Inr (take n (drop a (mi_bytes I m)))"
    and "a + length bs \<le> mi_size I m \<Longrightarrow>
      \<exists>m'. mi_write I m a bs = Inr m' \<and> mi_bytes I m' = splice (mi_bytes I m) a bs"
  using assms by (auto simp: memory_ok_def)

lemma memory_size_write:
  assumes "memory_ok I" "a + length bs \<le> mi_size I m" "mi_bytes I m' = splice (mi_bytes I m) a bs"
  shows "mi_size I m' = mi_size I m"
  using assms memory_okD(1) [OF assms(1)] by (metis length_splice)

text \<open>The bytes that are rewritten by the rest of the loop over the byte lanes.\<close>

definition be_covers :: "int \<Rightarrow> nat \<Rightarrow> nat option \<Rightarrow> nat \<Rightarrow> nat \<Rightarrow> bool" where
  "be_covers be n start offset i \<longleftrightarrow>
     (\<exists>st. start = Some st \<and> st \<le> i \<and> i < offset) \<or> (offset \<le> i \<and> i < offset + n \<and> bit be i)"

lemma flush_op_run:
  assumes mem: "memory_ok I" and fit: "base + length d \<le> mi_size I m"
    and st: "\<And>st. start = Some st \<Longrightarrow> st \<le> offset \<and> offset \<le> length d"
  shows "\<exists>m'. perform_writes I (flush_op base d start offset) m = Inr m' \<and> mi_size I m' = mi_size I m \<and>
    (\<forall>x < mi_size I m. mi_bytes I m' ! x =
       (if base \<le> x \<and> be_covers be 0 start offset (x - base) then d ! (x - base) else mi_bytes I m ! x))"
proof (cases "\<exists>st. start = Some st \<and> st < offset")
  case False
  then show ?thesis using st by (auto simp: flush_op_def be_covers_def split: option.split)
next
  case True
  then obtain s0 where s0: "start = Some s0" "s0 < offset" "offset \<le> length d" using st by auto
  let ?bs = "drop s0 (take offset d)"
  have len: "length ?bs = offset - s0" using s0 by simp
  have f: "base + s0 + length ?bs \<le> mi_size I m" using fit s0 by (simp add: len)
  from memory_okD(3) [OF mem f] obtain m' where m': "mi_write I m (base + s0) ?bs = Inr m'"
      "mi_bytes I m' = splice (mi_bytes I m) (base + s0) ?bs" by blast
  have "mi_bytes I m' ! x =
       (if base \<le> x \<and> be_covers be 0 start offset (x - base) then d ! (x - base) else mi_bytes I m ! x)"
    if "x < mi_size I m" for x
  proof -
    have sp: "splice (mi_bytes I m) (base + s0) ?bs ! x =
        (if base + s0 \<le> x \<and> x < base + s0 + length ?bs then ?bs ! (x - (base + s0)) else mi_bytes I m ! x)"
      using f that memory_okD(1) [OF mem, of m] by (intro nth_splice) auto
    have c: "base \<le> x \<and> be_covers be 0 start offset (x - base) \<longleftrightarrow> base + s0 \<le> x \<and> x < base + s0 + length ?bs"
      using s0 unfolding len by (auto simp: be_covers_def)
    show ?thesis
      unfolding m'(2) sp c using s0(3) len by auto
  qed
  moreover have "mi_size I m' = mi_size I m" using memory_size_write [OF mem f m'(2)] .
  ultimately show ?thesis using m'(1) s0(1,2) by (simp add: flush_op_def)
qed

lemma perform_writes_append:
  "perform_writes I (xs @ ys) m = (case perform_writes I xs m of Inl e \<Rightarrow> Inl e | Inr m' \<Rightarrow> perform_writes I ys m')"
  by (induction xs arbitrary: m) (auto split: sum.split)

lemma be_ops_run:
  assumes mem: "memory_ok I" and be: "\<And>i. bit be i \<Longrightarrow> i < length d"
    and "base + length d \<le> mi_size I m"
    and "\<And>st. start = Some st \<Longrightarrow> st \<le> offset \<and> offset \<le> length d"
  shows "\<exists>m'. perform_writes I (be_ops base d be n start offset) m = Inr m' \<and> mi_size I m' = mi_size I m \<and>
    (\<forall>x < mi_size I m. mi_bytes I m' ! x =
       (if base \<le> x \<and> be_covers be n start offset (x - base) then d ! (x - base) else mi_bytes I m ! x))"
  using assms(3,4)
proof (induction n arbitrary: start offset m)
  case 0
  then show ?case using flush_op_run [OF mem] by (simp add: be_covers_def)
next
  case (Suc n)
  show ?case
  proof (cases "bit be offset")
    case True
    let ?st = "case start of None \<Rightarrow> Some offset | Some st \<Rightarrow> Some st"
    have "\<And>st. ?st = Some st \<Longrightarrow> st \<le> offset + 1 \<and> offset + 1 \<le> length d"
      using Suc.prems(2) be [OF True] by (auto split: option.splits)
    from Suc.IH [OF Suc.prems(1) this] obtain m' where m':
        "perform_writes I (be_ops base d be n ?st (offset + 1)) m = Inr m'" "mi_size I m' = mi_size I m"
        "\<forall>x < mi_size I m. mi_bytes I m' ! x =
          (if base \<le> x \<and> be_covers be n ?st (offset + 1) (x - base) then d ! (x - base) else mi_bytes I m ! x)"
      by blast
    have "be_covers be n ?st (offset + 1) i = be_covers be (Suc n) start offset i" for i
    proof (cases start)
      case None
      show ?thesis
      proof (cases "i = offset")
        case i: True
        with None True show ?thesis by (simp add: be_covers_def)
      next
        case False
        then have "Suc offset \<le> i \<longleftrightarrow> offset \<le> i" by linarith
        with None False show ?thesis by (auto simp: be_covers_def)
      qed
    next
      case (Some st)
      with Suc.prems(2) have st: "st \<le> offset" by simp
      show ?thesis
      proof (cases "i = offset")
        case i: True
        with Some True st show ?thesis by (simp add: be_covers_def)
      next
        case False
        then have "Suc offset \<le> i \<longleftrightarrow> offset \<le> i" "i < Suc offset \<longleftrightarrow> i < offset" by linarith+
        with Some show ?thesis by (auto simp: be_covers_def)
      qed
    qed
    with m' True show ?thesis by simp
  next
    case False
    from flush_op_run [OF mem Suc.prems, where be = be] obtain m1 where m1:
        "perform_writes I (flush_op base d start offset) m = Inr m1" "mi_size I m1 = mi_size I m"
        "\<forall>x < mi_size I m. mi_bytes I m1 ! x =
          (if base \<le> x \<and> be_covers be 0 start offset (x - base) then d ! (x - base) else mi_bytes I m ! x)"
      by blast
    have "base + length d \<le> mi_size I m1" using Suc.prems(1) m1(2) by simp
    from Suc.IH [OF this, where start = None and offset = "offset + 1"] obtain m' where m':
        "perform_writes I (be_ops base d be n None (offset + 1)) m1 = Inr m'" "mi_size I m' = mi_size I m1"
        "\<forall>x < mi_size I m1. mi_bytes I m' ! x =
          (if base \<le> x \<and> be_covers be n None (offset + 1) (x - base) then d ! (x - base) else mi_bytes I m1 ! x)"
      by auto
    have "be_covers be n None (offset + 1) i \<or> be_covers be 0 start offset i \<longleftrightarrow> be_covers be (Suc n) start offset i" for i
    proof (cases "i = offset")
      case i: True
      with False show ?thesis by (simp add: be_covers_def)
    next
      case i: False
      then have "Suc offset \<le> i \<longleftrightarrow> offset \<le> i" by linarith
      then show ?thesis by (auto simp: be_covers_def)
    qed
    with m1 m' False show ?thesis by (auto simp: perform_writes_append)
  qed
qed

lemma nth_le_bytes_replicate [simp]: "n < 8 \<Longrightarrow> bit (b :: byte) n \<longleftrightarrow> bit (uint b) n"
  by (simp add: bit_uint_iff)

text \<open>
  Writing the bytes \<open>xs\<close> at lanes \<open>start\<close> on, with exactly these lanes enabled.
\<close>

lemma ram_write_word_run:
  assumes mem: "memory_ok I" and ok: "psdp_ok p"
    and fit: "(nat addr * p_seg_count p + seg + 1) * p_seg_byte_lanes p \<le> mi_size I m"
    and xs: "start + length xs \<le> p_seg_byte_lanes p"
    and be: "\<And>i. bit be i \<longleftrightarrow> start \<le> i \<and> i < start + length xs"
  shows "\<exists>m'. ram_write_word I p seg addr (256 ^ start * le_val xs) be m = Inr m' \<and>
    mi_size I m' = mi_size I m \<and>
    mi_bytes I m' = splice (mi_bytes I m) ((nat addr * p_seg_count p + seg) * p_seg_byte_lanes p + start) xs"
proof -
  let ?l = "p_seg_byte_lanes p" let ?base = "(nat addr * p_seg_count p + seg) * ?l"
  let ?d = "replicate start 0 @ xs @ replicate (?l - start - length xs) (0 :: byte)"
  have z: "le_val (replicate k 0) = 0" for k by (induction k) auto
  have len: "length ?d = ?l" using xs by simp
  have val: "256 ^ start * le_val xs = le_val ?d" by (simp add: le_val_append z)
  have d: "le_bytes ?l (256 ^ start * le_val xs) = ?d"
    unfolding val using le_bytes_le_val [of ?d] len by simp
  have f: "?base + length ?d \<le> mi_size I m" using fit unfolding len by (simp add: algebra_simps)
  have bl: "\<And>i. bit be i \<Longrightarrow> i < length ?d" using be xs unfolding len by fastforce
  from be_ops_run [OF mem bl f, where start = None and offset = 0 and n = "p_byte_lanes p"] obtain m' where m':
      "perform_writes I (be_ops ?base ?d be (p_byte_lanes p) None 0) m = Inr m'" "mi_size I m' = mi_size I m"
      "\<forall>x < mi_size I m. mi_bytes I m' ! x =
       (if ?base \<le> x \<and> be_covers be (p_byte_lanes p) None 0 (x - ?base) then ?d ! (x - ?base) else mi_bytes I m ! x)"
    by auto
  have lanes: "?l \<le> p_byte_lanes p" using ok by (simp add: psdp_ok_def)
  have cov: "be_covers be (p_byte_lanes p) None 0 i \<longleftrightarrow> start \<le> i \<and> i < start + length xs" for i
    using xs lanes by (auto simp: be_covers_def be)
  have fs: "?base + start + length xs \<le> length (mi_bytes I m)"
    using f xs memory_okD(1) [OF mem, of m] unfolding len by linarith
  have "mi_bytes I m' = splice (mi_bytes I m) (?base + start) xs"
  proof (rule nth_equalityI)
    show "length (mi_bytes I m') = length (splice (mi_bytes I m) (?base + start) xs)"
      using fs m'(2) memory_okD(1) [OF mem] by simp
    fix x assume "x < length (mi_bytes I m')"
    then have x: "x < mi_size I m" "x < length (mi_bytes I m)" using m'(2) memory_okD(1) [OF mem] by simp_all
    have dn: "?d ! (x - ?base) = xs ! (x - (?base + start))" if "?base + start \<le> x" "x < ?base + start + length xs"
    proof -
      have "x - ?base = length (replicate start (0 :: byte)) + (x - (?base + start))" using that by simp
      then have "?d ! (x - ?base) = (xs @ replicate (?l - start - length xs) 0) ! (x - (?base + start))"
        by (simp only: nth_append_length_plus)
      moreover have "x - (?base + start) < length xs" using that by linarith
      then have "(xs @ replicate (?l - start - length xs) 0) ! (x - (?base + start)) = xs ! (x - (?base + start))"
        by (simp only: nth_append if_True)
      ultimately show ?thesis by simp
    qed
    show "mi_bytes I m' ! x = splice (mi_bytes I m) (?base + start) xs ! x"
      using m'(3) x dn by (auto simp: nth_splice [OF fs x(2)] cov)
  qed
  with m'(1,2) show ?thesis by (simp add: ram_write_word_def d)
qed

section \<open>The data of one operation\<close>

lemma gather_bytes_run:
  "offset + n \<le> length data \<Longrightarrow> 0 \<le> v \<Longrightarrow> v < 256 ^ start \<Longrightarrow>
   gather_bytes data [start..<start + n] v offset =
     Inr (v + 256 ^ start * le_val (take n (drop offset data)), offset + n)"
proof (induction n arbitrary: start offset v)
  case (Suc n)
  let ?b = "data ! offset" let ?v = "v OR push_bit (8 * start) (uint ?b)"
  have p: "(256 :: int) ^ start = 2 ^ (8 * start)" by (simp add: power_mult)
  have "push_bit (8 * start) (uint ?b) = 256 ^ start * uint ?b" by (simp add: push_bit_eq_mult p)
  moreover have "256 ^ start * uint ?b OR v = 256 ^ start * uint ?b + v"
    using Suc.prems(2,3) by (intro or_disjoint_add [where n = "8 * start"]) (simp_all add: p)
  ultimately have v: "?v = v + 256 ^ start * uint ?b" by (simp add: or.commute)
  have "256 ^ start * uint ?b \<le> 256 ^ start * 255" by (intro mult_left_mono) simp_all
  then have b: "0 \<le> ?v" "?v < 256 ^ Suc start"
    unfolding v power_Suc using Suc.prems(2,3) by (simp, linarith)
  have "Suc offset + n \<le> length data" using Suc.prems(1) by simp
  from Suc.IH [OF this b] have
    "gather_bytes data [Suc start..<Suc start + n] ?v (Suc offset) =
     Inr (?v + 256 ^ Suc start * le_val (take n (drop (Suc offset) data)), Suc offset + n)" .
  moreover have "take (Suc n) (drop offset data) = ?b # take n (drop (Suc offset) data)"
    using Suc.prems(1) by (simp add: Cons_nth_drop_Suc [symmetric])
  moreover have "[start..<start + Suc n] = start # [Suc start..<Suc start + n]"
    by (simp add: upt_conv_Cons del: upt_Suc)
  moreover have "?v + 256 ^ Suc start * x = v + 256 ^ start * (uint ?b + 256 * x)" for x
    unfolding v by (simp add: algebra_simps)
  ultimately show ?case using Suc.prems(1) by (simp del: upt_Suc)
qed simp

lemma le_val_masked:
  assumes "start + length xs \<le> l"
  shows "(256 ^ start * le_val xs) AND (2 ^ (8 * l) - 1) = 256 ^ start * le_val xs"
proof -
  have "le_val xs < 256 ^ length xs" by (rule le_val_bound)
  then have "256 ^ start * le_val xs < 256 ^ start * 256 ^ length xs" by simp
  also have "\<dots> \<le> (256 :: int) ^ l" using assms by (simp flip: power_add add: power_increasing)
  finally have "256 ^ start * le_val xs < 2 ^ (8 * l)" by (simp add: power_mult)
  then show ?thesis by (simp add: and_mask_mod)
qed

section \<open>Where the operations go\<close>

text \<open>
  The words of a transfer, relative to the word that holds its first byte: \<open>seg_lo k\<close> to
  \<open>seg_hi k\<close> are the positions, counted from the beginning of that word, of the bytes in word
  \<open>k\<close>.
\<close>

definition seg_lo :: "psdp \<Rightarrow> nat \<Rightarrow> nat \<Rightarrow> nat" where
  "seg_lo p a k = (if k = 0 then a mod p_seg_byte_lanes p else k * p_seg_byte_lanes p)"

definition seg_hi :: "psdp \<Rightarrow> nat \<Rightarrow> nat \<Rightarrow> nat \<Rightarrow> nat" where
  "seg_hi p a n k =
     (if k = seg_words p a n - 1 then a mod p_seg_byte_lanes p + n else (k + 1) * p_seg_byte_lanes p)"

lemma seg_words_value:
  assumes "0 < p_seg_byte_lanes p" "0 < n"
  shows "seg_words p a n = (a mod p_seg_byte_lanes p + n - 1) div p_seg_byte_lanes p + 1"
proof -
  let ?l = "p_seg_byte_lanes p" let ?q = "a mod ?l"
  have "n + ?q + ?l - 1 = (?q + n - 1) + ?l" using assms by simp
  moreover have "(?q + n - 1 + ?l) div ?l = (?q + n - 1) div ?l + 1"
    using assms(1) by (intro div_add_self2) simp
  ultimately show ?thesis by (simp only: seg_words_def)
qed

lemma seg_bounds:
  assumes l: "0 < p_seg_byte_lanes p" and n: "0 < n" and k: "k < seg_words p a n"
  shows "k * p_seg_byte_lanes p \<le> seg_lo p a k" "seg_lo p a k \<le> seg_hi p a n k"
    "seg_hi p a n k \<le> (k + 1) * p_seg_byte_lanes p" "seg_hi p a n k \<le> a mod p_seg_byte_lanes p + n"
    "a mod p_seg_byte_lanes p \<le> seg_lo p a k"
    "Suc k < seg_words p a n \<Longrightarrow> seg_hi p a n k = seg_lo p a (Suc k)"
proof -
  let ?l = "p_seg_byte_lanes p" let ?q = "a mod ?l" let ?w = "(?q + n - 1) div ?l"
  have w: "seg_words p a n = ?w + 1" using seg_words_value [OF l n] .
  have q: "?q < ?l" using l by simp
  have wl: "?w * ?l \<le> ?q + n - 1" "?q + n - 1 < (?w + 1) * ?l"
    using l dividend_less_div_times [of ?l "?q + n - 1"] by (simp_all add: algebra_simps)
  have wn: "?w * ?l \<le> ?q + n" using wl(1) by linarith
  have kw: "k \<le> ?w" using k w by simp
  have kl: "k * ?l \<le> ?w * ?l" using kw by simp
  have k1: "0 < k \<Longrightarrow> ?q \<le> k * ?l" using q by (cases k) auto
  have kk: "k < ?w \<Longrightarrow> (k + 1) * ?l \<le> ?w * ?l" by (intro mult_right_mono) simp_all
  show "k * ?l \<le> seg_lo p a k" by (simp add: seg_lo_def)
  show "?q \<le> seg_lo p a k" using q k1 by (cases "k = 0") (simp_all add: seg_lo_def)
  show "seg_hi p a n k \<le> ?q + n"
  proof (cases "k = ?w")
    case False
    then have "(k + 1) * ?l \<le> ?w * ?l" using kk kw by linarith
    with False wl(1) show ?thesis unfolding seg_hi_def w by (simp only: add_diff_cancel_right' if_False)
  qed (simp add: seg_hi_def w)
  show "seg_lo p a k \<le> seg_hi p a n k"
  proof (cases "k = ?w")
    case True
    then show ?thesis using wn n unfolding seg_lo_def seg_hi_def w by (cases "k = 0") simp_all
  qed (use q in \<open>auto simp: seg_lo_def seg_hi_def w\<close>)
  show "seg_hi p a n k \<le> (k + 1) * ?l"
  proof (cases "k = ?w")
    case True
    then have "seg_hi p a n k = ?q + n" unfolding seg_hi_def w by simp
    moreover have "?q + n \<le> (?w + 1) * ?l" using wl(2) by linarith
    ultimately show ?thesis using True by simp
  qed (simp add: seg_hi_def w)
  show "seg_hi p a n k = seg_lo p a (Suc k)" if "Suc k < seg_words p a n"
    using that unfolding seg_hi_def seg_lo_def w by simp
qed

lemma seg_last:
  assumes l: "0 < p_seg_byte_lanes p" and n: "0 < n"
  shows "seg_hi p a n (seg_words p a n - 1) = a mod p_seg_byte_lanes p + n"
  by (simp add: seg_hi_def)

text \<open>The window of a word is what the positions say.\<close>

lemma seg_window_pos:
  assumes l: "0 < p_seg_byte_lanes p" and n: "0 < n" and k: "k < seg_words p a n"
  shows "seg_window p a n (seg_words p a n) k =
    (seg_lo p a k - k * p_seg_byte_lanes p, seg_hi p a n k - k * p_seg_byte_lanes p)"
proof -
  let ?l = "p_seg_byte_lanes p" let ?q = "a mod ?l" let ?w = "(?q + n - 1) div ?l"
  have w: "seg_words p a n = ?w + 1" using seg_words_value [OF l n] .
  have "seg_end p a n = (?q + n - 1) mod ?l + 1"
  proof -
    have "int a + int n - 1 = int (a + n - 1)" using n by simp
    then have "seg_end p a n = (a + n - 1) mod ?l + 1" by (simp only: seg_end_def zmod_int [symmetric] nat_int)
    moreover have "(a + n - 1) mod ?l = (?q + n - 1) mod ?l"
      using n by (metis Nat.add_diff_assoc Suc_leI mod_add_left_eq One_nat_def)
    ultimately show ?thesis by simp
  qed
  also have "\<dots> = ?q + n - ?w * ?l"
    using n mod_div_mult_eq [of "?q + n - 1" ?l] by linarith
  finally have e: "seg_end p a n = ?q + n - ?w * ?l" .
  show ?thesis
    using e unfolding seg_window_def seg_lo_def seg_hi_def seg_start_def w by auto
qed

text \<open>The byte enables are exactly the window.\<close>

lemma seg_be_bits:
  assumes ok: "psdp_ok p" and n: "0 < n" and k: "k < seg_words p a n"
  shows "bit (seg_be p a n (seg_words p a n) k AND seg_be_mask p) i \<longleftrightarrow>
    seg_lo p a k - k * p_seg_byte_lanes p \<le> i \<and> i < seg_hi p a n k - k * p_seg_byte_lanes p"
proof -
  have l: "0 < p_seg_byte_lanes p" and be: "p_seg_be_width p = p_seg_byte_lanes p"
    using ok by (simp_all add: psdp_ok_def)
  let ?l = "p_seg_byte_lanes p"
  have m: "bit (seg_be_mask p) j \<longleftrightarrow> j < ?l" for j by (simp add: seg_be_mask_def be bit_exp_mask)
  note win = seg_window_pos [OF l n k, unfolded seg_window_def prod.inject]
  have e: "seg_end p a n \<le> ?l"
  proof -
    have "(int a + int n - 1) mod int ?l < int ?l" using l by simp
    then have "nat ((int a + int n - 1) mod int ?l) < ?l" using l by (subst nat_less_iff) simp_all
    then show ?thesis by (simp add: seg_end_def)
  qed
  have "bit (seg_be p a n (seg_words p a n) k AND seg_be_mask p) i \<longleftrightarrow>
      (if k = 0 then seg_start p a else 0) \<le> i \<and> i < (if k = seg_words p a n - 1 then seg_end p a n else ?l)"
    using e unfolding seg_be_def Let_def
    by (auto simp: bit_and_iff bit_push_bit_iff bit_drop_bit_eq m)
  with win show ?thesis by (simp only:)
qed


section \<open>A whole write\<close>

text \<open>
  The operations on the bus carry the fields cut to their width; this is what the RAM performs
  for one operation, and for several in order.
\<close>

definition exec_op :: "'m memory_if \<Rightarrow> psdp \<Rightarrow> nat \<times> seg_write \<Rightarrow> 'm \<Rightarrow> exn + 'm" where
  "exec_op I p x m =
     ram_write_word I p (fst x) (sw_addr (snd x) AND seg_addr_mask p)
       (sw_data (snd x) AND seg_data_mask p) (sw_be (snd x) AND seg_be_mask p) m"

primrec exec_ops :: "'m memory_if \<Rightarrow> psdp \<Rightarrow> (nat \<times> seg_write) list \<Rightarrow> 'm \<Rightarrow> exn + 'm" where
  "exec_ops I p [] m = Inr m"
| "exec_ops I p (x # xs) m = (case exec_op I p x m of Inl e \<Rightarrow> Inl e | Inr m' \<Rightarrow> exec_ops I p xs m')"

lemma exec_ops_append:
  "exec_ops I p (xs @ ys) m = (case exec_ops I p xs m of Inl e \<Rightarrow> Inl e | Inr m' \<Rightarrow> exec_ops I p ys m')"
  by (induction xs arbitrary: m) (auto split: sum.split)

lemma word_position:
  assumes ok: "psdp_ok p"
  shows "(a + k * p_seg_byte_lanes p) div p_byte_lanes p * p_seg_count p +
    (a div p_seg_byte_lanes p + k) mod p_seg_count p = a div p_seg_byte_lanes p + k"
proof -
  let ?l = "p_seg_byte_lanes p"
  have "(a + k * ?l) div p_byte_lanes p = (a + k * ?l) div ?l div p_seg_count p"
    using ok by (simp add: psdp_ok_def div_mult2_eq)
  also have "(a + k * ?l) div ?l = a div ?l + k"
    using ok by (simp add: psdp_ok_def)
  finally show ?thesis by (simp only: div_mult_mod_eq)
qed

lemma seg_last_byte:
  assumes l: "0 < p_seg_byte_lanes p" and n: "0 < n" and k: "k < seg_words p a n"
  shows "(a div p_seg_byte_lanes p + k) * p_seg_byte_lanes p < a + n"
proof -
  let ?l = "p_seg_byte_lanes p" let ?q = "a mod ?l" let ?w = "(?q + n - 1) div ?l"
  have "k \<le> ?w" using k seg_words_value [OF l n] by simp
  then have "k * ?l \<le> ?w * ?l" by simp
  also have "?w * ?l \<le> ?q + n - 1" by simp
  finally have "k * ?l < ?q + n" using n by linarith
  then have "a div ?l * ?l + k * ?l < a div ?l * ?l + ?q + n" by linarith
  then show ?thesis by (simp add: add_mult_distrib)
qed

text \<open>A word of the address space: its address fits the field, and the word ends in the memory.\<close>

lemma word_addr:
  assumes ok: "psdp_ok p" and w: "(a div p_seg_byte_lanes p + k) * p_seg_byte_lanes p < 2 ^ p_address_width p"
  shows "int ((a + k * p_seg_byte_lanes p) div p_byte_lanes p) AND seg_addr_mask p =
      int ((a + k * p_seg_byte_lanes p) div p_byte_lanes p)"
    and "(a div p_seg_byte_lanes p + k + 1) * p_seg_byte_lanes p \<le> 2 ^ p_address_width p"
proof -
  let ?l = "p_seg_byte_lanes p" let ?c = "p_seg_count p"
  let ?A = "(a + k * ?l) div p_byte_lanes p" let ?w = "a div ?l + k"
  have l: "0 < ?l" and sz: "2 ^ p_address_width p = 2 ^ p_seg_addr_width p * (?l * ?c)"
    using ok by (simp_all add: psdp_ok_def)
  have pos: "?A * ?c + ?w mod ?c = ?w" using word_position [OF ok] .
  have "?w * ?l < 2 ^ p_seg_addr_width p * ?c * ?l" using w unfolding sz by (simp only: ac_simps)
  then have w': "?w < 2 ^ p_seg_addr_width p * ?c" using l by simp
  then have "?A * ?c < 2 ^ p_seg_addr_width p * ?c" using pos by linarith
  then have "?A < 2 ^ p_seg_addr_width p" by simp
  then have "int ?A < 2 ^ p_seg_addr_width p" by (metis of_nat_less_numeral_power_cancel_iff)
  then show "int ?A AND seg_addr_mask p = int ?A" by (simp add: seg_addr_mask_def and_mask_mod)
  have "(?w + 1) * ?l \<le> 2 ^ p_seg_addr_width p * ?c * ?l"
    using w' by (intro mult_right_mono) simp_all
  then show "(?w + 1) * ?l \<le> 2 ^ p_address_width p" unfolding sz by (simp only: ac_simps)
qed

lemma exec_word:
  assumes mem: "memory_ok I" and ok: "psdp_ok p" and n: "0 < length data"
    and fit: "a + length data \<le> 2 ^ p_address_width p" "2 ^ p_address_width p \<le> mi_size I m"
    and k: "k < seg_words p a (length data)"
    and lo: "lo = seg_lo p a k" and hi: "hi = seg_hi p a (length data) k"
    and xs: "xs = take (hi - lo) (drop (lo - a mod p_seg_byte_lanes p) data)"
  shows "\<exists>m'. exec_op I p ((a div p_seg_byte_lanes p + k) mod p_seg_count p,
        \<lparr>sw_addr = int ((a + k * p_seg_byte_lanes p) div p_byte_lanes p),
         sw_data = 256 ^ (lo - k * p_seg_byte_lanes p) * le_val xs,
         sw_be = seg_be p a (length data) (seg_words p a (length data)) k\<rparr>) m = Inr m' \<and>
      mi_size I m' = mi_size I m \<and>
      mi_bytes I m' = splice (mi_bytes I m) (a + (lo - a mod p_seg_byte_lanes p)) xs"
proof -
  let ?l = "p_seg_byte_lanes p" let ?q = "a mod ?l" let ?c = "p_seg_count p"
  let ?A = "(a + k * ?l) div p_byte_lanes p" let ?w = "a div ?l + k" let ?n = "length data"
  have l: "0 < ?l" and dw: "p_seg_data_width p = 8 * ?l"
    using ok by (simp_all add: psdp_ok_def)
  note b = seg_bounds [OF l n k, folded lo hi]
  have len: "length xs = hi - lo" using b(2,4,5) unfolding xs by simp
  have pos: "?A * ?c + ?w mod ?c = ?w" using word_position [OF ok] .
  note wa = word_addr [OF ok less_le_trans [OF seg_last_byte [OF l n k] fit(1)]]
  note addr = wa(1)
  have start: "lo - k * ?l + length xs \<le> ?l"
    using b(1-3) unfolding len by simp
  have data: "256 ^ (lo - k * ?l) * le_val xs AND seg_data_mask p = 256 ^ (lo - k * ?l) * le_val xs"
    unfolding seg_data_mask_def dw using le_val_masked [OF start] .
  have be: "bit (seg_be p a ?n (seg_words p a ?n) k AND seg_be_mask p) i \<longleftrightarrow>
      lo - k * ?l \<le> i \<and> i < lo - k * ?l + length xs" for i
    using seg_be_bits [OF ok n k, folded lo hi, of i] b(1,2) unfolding len by simp
  have "(?w + 1) * ?l \<le> mi_size I m" using le_trans [OF wa(2) fit(2)] .
  then have f: "(nat (int ?A) * ?c + ?w mod ?c + 1) * ?l \<le> mi_size I m"
    unfolding nat_int pos .
  have at: "?w * ?l + (lo - k * ?l) = a + (lo - ?q)"
  proof -
    have "a div ?l * ?l + ?q = a" by simp
    with b(1,5) show ?thesis unfolding add_mult_distrib by linarith
  qed
  from ram_write_word_run [OF mem ok f start be] show ?thesis
    unfolding exec_op_def fst_conv snd_conv seg_write.select_convs addr data nat_int pos at .
qed

lemma splice_more:
  assumes "s + length u + length v \<le> length b"
  shows "splice (splice b s u) (s + length u) v = splice b s (u @ v)"
  using assms by (cases u) (auto simp: splice_def drop_take min_def ac_simps)

text \<open>The loop, from word \<open>k\<close> on, writes the rest of the data.\<close>

lemma split_loop_ok:
  assumes mem: "memory_ok I" and ok: "psdp_ok p" and n: "0 < length data"
    and fit: "a + length data \<le> 2 ^ p_address_width p" "2 ^ p_address_width p \<le> mi_size I m"
    and k: "k + j = seg_words p a (length data)" "0 < j"
    and x: "x = seg_lo p a k - a mod p_seg_byte_lanes p"
  shows "\<exists>ops m'. split_loop p a data (seg_words p a (length data)) [k..<seg_words p a (length data)] x
        ((a div p_seg_byte_lanes p + k) mod p_seg_count p) = (ops, None) \<and>
      exec_ops I p ops m = Inr m' \<and> mi_size I m' = mi_size I m \<and>
      mi_bytes I m' = splice (mi_bytes I m) (a + x) (drop x data)"
  using fit(2) k x
proof (induction j arbitrary: k x m)
  case (Suc j)
  let ?l = "p_seg_byte_lanes p" let ?q = "a mod ?l" let ?s = "seg_words p a (length data)"
  let ?lo = "seg_lo p a k" let ?hi = "seg_hi p a (length data) k"
  let ?xs = "take (?hi - ?lo) (drop (?lo - ?q) data)"
  let ?seg = "(a div ?l + k) mod p_seg_count p"
  let ?op = "\<lparr>sw_addr = int ((a + k * ?l) div p_byte_lanes p),
         sw_data = 256 ^ (?lo - k * ?l) * le_val ?xs, sw_be = seg_be p a (length data) ?s k\<rparr>"
  have l: "0 < ?l" using ok by (simp add: psdp_ok_def)
  have ks: "k < ?s" using Suc.prems(2) by simp
  note b = seg_bounds [OF l n ks]
  have x: "x = ?lo - ?q" using Suc.prems(4) .
  have hx: "x + (?hi - ?lo) = ?hi - ?q" using b(2,5) x by simp
  have xn: "x + (?hi - ?lo) \<le> length data" using b(4) hx by simp
  have win: "seg_window p a (length data) ?s k = (?lo - k * ?l, ?hi - k * ?l)"
    using seg_window_pos [OF l n ks] .
  have up: "[?lo - k * ?l..<?hi - k * ?l] = [?lo - k * ?l..<?lo - k * ?l + (?hi - ?lo)]"
    using b(1,2) by simp
  have g: "gather_bytes data [?lo - k * ?l..<?hi - k * ?l] 0 x =
      Inr (256 ^ (?lo - k * ?l) * le_val ?xs, ?hi - ?q)"
    unfolding up using gather_bytes_run [OF xn, of 0 "?lo - k * ?l"] by (simp add: hx flip: x)
  have sg: "(?seg + 1) mod p_seg_count p = (a div ?l + Suc k) mod p_seg_count p"
    by (simp add: mod_Suc_eq)
  have upk: "[k..<?s] = k # [Suc k..<?s]" using ks by (simp add: upt_conv_Cons)
  let ?rest = "split_loop p a data ?s [Suc k..<?s] (?hi - ?q) ((a div ?l + Suc k) mod p_seg_count p)"
  have step: "split_loop p a data ?s [k..<?s] x ?seg = ((?seg, ?op) # fst ?rest, snd ?rest)"
    unfolding upk by (simp only: split_loop.simps win g fst_conv snd_conv sum.case prod.case Let_def sg)
  from exec_word [OF mem ok n fit(1) Suc.prems(1) ks refl refl refl] obtain m1 where
      m1: "exec_op I p (?seg, ?op) m = Inr m1" "mi_size I m1 = mi_size I m"
        "mi_bytes I m1 = splice (mi_bytes I m) (a + (?lo - ?q)) ?xs" by blast
  show ?case
  proof (cases j)
    case 0
    then have h: "?hi = ?q + length data" and e: "[Suc k..<?s] = []"
      using Suc.prems(2) by (auto simp: seg_hi_def)
    have "?xs = drop x data" using h b(5) by (simp add: x)
    then show ?thesis
      unfolding step e using m1 by (simp add: x)
  next
    case (Suc j')
    have sk: "Suc k < ?s" using Suc.prems(2) Suc by simp
    have hl: "?hi - ?q = seg_lo p a (Suc k) - ?q" using b(6) [OF sk] by simp
    have sz: "2 ^ p_address_width p \<le> mi_size I m1" using m1(2) Suc.prems(1) by simp
    have "Suc k + j = ?s" "0 < j" using Suc.prems(2) Suc by simp_all
    from Suc.IH [OF sz this hl] obtain ops m' where r:
        "split_loop p a data ?s [Suc k..<?s] (?hi - ?q) ((a div ?l + Suc k) mod p_seg_count p) = (ops, None)"
        "exec_ops I p ops m1 = Inr m'" "mi_size I m' = mi_size I m1"
        "mi_bytes I m' = splice (mi_bytes I m1) (a + (?hi - ?q)) (drop (?hi - ?q) data)"
      by blast
    have len: "length ?xs = ?hi - ?lo" using xn unfolding x by simp
    have "?xs @ drop (?hi - ?q) data = drop x data"
      using hx by (metis append_take_drop_id drop_drop add.commute x)
    moreover have "a + x + length ?xs = a + (?hi - ?q)" using len hx by simp
    moreover have "a + x + length ?xs + length (drop (?hi - ?q) data) \<le> length (mi_bytes I m)"
      using fit(1) Suc.prems(1) memory_okD(1) [OF mem, of m] len hx xn by simp
    ultimately have "mi_bytes I m' = splice (mi_bytes I m) (a + x) (drop x data)"
      unfolding r(4) m1(3) using splice_more [of "a + x" ?xs "drop (?hi - ?q) data"] x by metis
    with r m1 show ?thesis unfolding step by simp
  qed
qed simp

text \<open>An empty write at an address inside a word queues one operation with no byte enabled.\<close>

lemma seg_words_empty: "0 < p_seg_byte_lanes p \<Longrightarrow>
  seg_words p a 0 = (if a mod p_seg_byte_lanes p = 0 then 0 else 1)"
proof -
  assume l: "0 < p_seg_byte_lanes p"
  let ?l = "p_seg_byte_lanes p" let ?q = "a mod ?l"
  have "?q < ?l" using l by simp
  moreover have "?q + ?l - 1 = (?q - 1) + ?l" if "0 < ?q" using that by linarith
  moreover have "(?q - 1 + ?l) div ?l = (?q - 1) div ?l + 1" using l by (intro div_add_self2) simp
  ultimately show ?thesis by (cases "?q = 0") (auto simp: seg_words_def less_imp_diff_less)
qed

lemma seg_end_empty:
  assumes l: "0 < p_seg_byte_lanes p" and q: "a mod p_seg_byte_lanes p \<noteq> 0"
  shows "seg_end p a 0 = a mod p_seg_byte_lanes p"
proof -
  let ?l = "p_seg_byte_lanes p" let ?q = "a mod ?l"
  have ql: "?q < ?l" using l by simp
  have "(int a - 1) mod int ?l = int ?q - 1"
  proof (rule mod_pos_pos_trivial [of "int ?q - 1" "int ?l", THEN trans [rotated]])
    show "(int a - 1) mod int ?l = (int ?q - 1) mod int ?l" by (simp add: zmod_int mod_simps)
  qed (use q ql in simp_all)
  then show ?thesis using q by (simp add: seg_end_def)
qed

lemma split_write_empty:
  assumes mem: "memory_ok I" and ok: "psdp_ok p"
    and fit: "a < 2 ^ p_address_width p" "2 ^ p_address_width p \<le> mi_size I m"
  shows "\<exists>ops m'. split_write p a [] = (ops, None) \<and> exec_ops I p ops m = Inr m' \<and> mi_size I m' = mi_size I m \<and>
      mi_bytes I m' = mi_bytes I m"
proof (cases "a mod p_seg_byte_lanes p = 0")
  case True
  then show ?thesis using ok by (simp add: split_write_def seg_words_empty psdp_ok_def)
next
  case False
  let ?l = "p_seg_byte_lanes p" let ?q = "a mod ?l" let ?c = "p_seg_count p" let ?A = "a div p_byte_lanes p"
  have l: "0 < ?l" and bw: "p_seg_be_width p = ?l" and bl: "p_byte_lanes p = ?l * ?c"
    using ok by (simp_all add: psdp_ok_def)
  have ql: "?q < ?l" using l by simp
  have e: "seg_end p a 0 = ?q" by (rule seg_end_empty [OF l False])
  let ?op = "\<lparr>sw_addr = int ?A, sw_data = 0, sw_be = seg_be p a 0 1 0\<rparr>"
  have sp: "split_write p a [] = ([(a div ?l mod ?c, ?op)], None)"
    using False l by (simp add: split_write_def seg_words_empty seg_window_def e seg_start_def first_seg_def)
  have m: "bit (seg_be_mask p) j \<longleftrightarrow> j < ?l" for j by (simp add: seg_be_mask_def bw bit_exp_mask)
  have be: "bit (seg_be p a 0 1 0 AND seg_be_mask p) i \<longleftrightarrow> ?q \<le> i \<and> i < ?q + length ([] :: byte list)" for i
    using ql unfolding seg_be_def Let_def e seg_start_def
    by (auto simp: bit_and_iff bit_push_bit_iff bit_drop_bit_eq m)
  have pos: "?A * ?c + a div ?l mod ?c = a div ?l" by (simp add: bl div_mult2_eq)
  have "(a div ?l + 0) * ?l \<le> a" by simp
  also note fit(1)
  finally have w: "(a div ?l + 0) * ?l < 2 ^ p_address_width p" .
  have addr: "int ?A AND seg_addr_mask p = int ?A" using word_addr(1) [OF ok w] by simp
  have "(a div ?l + 1) * ?l \<le> mi_size I m" using le_trans [OF word_addr(2) [OF ok w] fit(2)] by simp
  then have f: "(nat (int ?A) * ?c + a div ?l mod ?c + 1) * ?l \<le> mi_size I m"
    unfolding nat_int pos .
  have "?q + length ([] :: byte list) \<le> ?l" using ql by simp
  from ram_write_word_run [OF mem ok f this be] obtain m' where
    "ram_write_word I p (a div ?l mod ?c) (int ?A) (256 ^ ?q * le_val []) (seg_be p a 0 1 0 AND seg_be_mask p) m = Inr m'"
    "mi_size I m' = mi_size I m"
    "mi_bytes I m' = splice (mi_bytes I m) (nat (int ?A) * ?c + a div ?l mod ?c * ?l + ?q) []"
    by (auto simp: splice_def)
  then show ?thesis unfolding sp by (simp add: exec_op_def addr splice_def)
qed

text \<open>
  A write the master accepts is split without an exception, and its operations, performed in
  order, store the data at the address and leave every other byte as it was.
\<close>

lemma split_write_ok:
  assumes mem: "memory_ok I" and ok: "psdp_ok p"
    and fit: "a < 2 ^ p_address_width p" "a + length data \<le> 2 ^ p_address_width p"
      "2 ^ p_address_width p \<le> mi_size I m"
  shows "\<exists>ops m'. split_write p a data = (ops, None) \<and> exec_ops I p ops m = Inr m' \<and> mi_size I m' = mi_size I m \<and>
      mi_bytes I m' = splice (mi_bytes I m) a data"
proof (cases "data = []")
  case True
  then show ?thesis using split_write_empty [OF mem ok fit(1,3)] by (simp add: splice_def)
next
  case False
  then have n: "0 < length data" by simp
  have l: "0 < p_seg_byte_lanes p" using ok by (simp add: psdp_ok_def)
  let ?s = "seg_words p a (length data)"
  have s: "0 + ?s = ?s" "0 < ?s" using seg_words_value [OF l n] by simp_all
  have "0 = seg_lo p a 0 - a mod p_seg_byte_lanes p" by (simp add: seg_lo_def)
  from split_loop_ok [OF mem ok n fit(2,3) s this] show ?thesis
    by (simp add: split_write_def first_seg_def Let_def)
qed

end
