(* ===== verification/Psdp_Write_Sys.thy ===== *)
theory Psdp_Write_Sys
  imports Psdp_Split
begin

text \<open>
  The write master and the RAM on one bus: at every clock edge each samples what the other drove
  at the edge before. Commands go through the two coroutines of the master and its segment queues
  in any interleaving with the edges, with any pauses on both sides and any resets. The theory
  relates the operations the RAM has performed to the ones the master has queued, segment by
  segment, and from that the contents of the memory to the writes in the order in which they were
  accepted.
\<close>

section \<open>Operations cut to the fields of the bus\<close>

definition mask_op :: "psdp \<Rightarrow> seg_write \<Rightarrow> seg_write" where
  "mask_op p op = \<lparr>sw_addr = sw_addr op AND seg_addr_mask p, sw_data = sw_data op AND seg_data_mask p,
     sw_be = sw_be op AND seg_be_mask p\<rparr>"

lemma mask_op_idem [simp]: "mask_op p (mask_op p op) = mask_op p op"
  by (simp add: mask_op_def and.assoc)

lemma exec_op_mask: "exec_op I p (seg, mask_op p op) m = exec_op I p (seg, op) m"
  by (simp add: exec_op_def mask_op_def and.assoc)

lemma exec_op_def': "exec_op I p (seg, op) m =
    ram_write_word I p seg (sw_addr (mask_op p op)) (sw_data (mask_op p op)) (sw_be (mask_op p op)) m"
  by (simp add: exec_op_def mask_op_def)

definition mask_ops :: "psdp \<Rightarrow> (nat \<times> seg_write) list \<Rightarrow> (nat \<times> seg_write) list" where
  "mask_ops p = map (\<lambda>x. (fst x, mask_op p (snd x)))"

lemma exec_ops_mask: "exec_ops I p (mask_ops p ops) m = exec_ops I p ops m"
  by (induction ops arbitrary: m) (simp_all add: mask_ops_def exec_op_mask cong: sum.case_cong)

section \<open>The effect of an operation on one byte\<close>

text \<open>The byte an operation writes at address \<open>x\<close>, if it does.\<close>

definition op_byte :: "psdp \<Rightarrow> nat \<Rightarrow> nat \<times> seg_write \<Rightarrow> byte option" where
  "op_byte p x op =
     (if x div p_seg_byte_lanes p = nat (sw_addr (mask_op p (snd op))) * p_seg_count p + fst op \<and>
         bit (sw_be (mask_op p (snd op))) (x mod p_seg_byte_lanes p)
      then Some (le_bytes (p_seg_byte_lanes p) (sw_data (mask_op p (snd op))) ! (x mod p_seg_byte_lanes p))
      else None)"

definition byte_after :: "psdp \<Rightarrow> nat \<Rightarrow> (nat \<times> seg_write) list \<Rightarrow> byte \<Rightarrow> byte" where
  "byte_after p x ops v = foldl (\<lambda>v op. case op_byte p x op of Some b \<Rightarrow> b | None \<Rightarrow> v) v ops"

lemma byte_after_append: "byte_after p x (xs @ ys) v = byte_after p x ys (byte_after p x xs v)"
  by (simp add: byte_after_def)

lemma byte_after_Cons [simp]: "byte_after p x (op # ops) v =
    byte_after p x ops (case op_byte p x op of Some b \<Rightarrow> b | None \<Rightarrow> v)"
  by (simp add: byte_after_def)

lemma byte_after_Nil [simp]: "byte_after p x [] v = v"
  by (simp add: byte_after_def)

lemma op_byte_seg:
  assumes "fst op < p_seg_count p" "fst op \<noteq> (x div p_seg_byte_lanes p) mod p_seg_count p"
  shows "op_byte p x op = None"
  using assms by (auto simp: op_byte_def)

text \<open>Only the operations on the segment of the byte count, in their order.\<close>

lemma byte_after_filter:
  assumes "\<forall>op\<in>set ops. fst op < p_seg_count p"
  shows "byte_after p x ops v =
    byte_after p x (filter (\<lambda>op. fst op = (x div p_seg_byte_lanes p) mod p_seg_count p) ops) v"
  using assms by (induction ops arbitrary: v) (simp_all add: op_byte_seg)

lemma byte_after_none: "\<forall>op\<in>set ops. op_byte p x op = None \<Longrightarrow> byte_after p x ops v = v"
  by (induction ops) simp_all

lemma byte_after_some:
  assumes "op \<in> set ops" "op_byte p x op \<noteq> None"
  shows "byte_after p x ops v = byte_after p x ops v'"
  using assms
proof (induction ops arbitrary: v v')
  case (Cons o1 ops)
  then show ?case by (cases "op_byte p x o1") auto
qed simp

lemma exec_op_byte:
  assumes mem: "memory_ok I" and ok: "psdp_ok p" and sz: "2 ^ p_address_width p \<le> mi_size I m"
    and seg: "fst op < p_seg_count p"
  shows "\<exists>m'. exec_op I p op m = Inr m' \<and> mi_size I m' = mi_size I m \<and>
    (\<forall>x < mi_size I m. mi_bytes I m' ! x = (case op_byte p x op of Some b \<Rightarrow> b | None \<Rightarrow> mi_bytes I m ! x))"
proof -
  let ?l = "p_seg_byte_lanes p" let ?c = "p_seg_count p" let ?o = "mask_op p (snd op)"
  let ?A = "nat (sw_addr ?o)" let ?base = "(?A * ?c + fst op) * ?l" let ?d = "le_bytes ?l (sw_data ?o)"
  have l: "0 < ?l" and bw: "p_seg_be_width p = ?l" and lanes: "?l \<le> p_byte_lanes p"
    and aw: "2 ^ p_address_width p = 2 ^ p_seg_addr_width p * (?l * ?c)"
    using ok by (simp_all add: psdp_ok_def)
  have A: "?A < 2 ^ p_seg_addr_width p"
    by (simp add: mask_op_def seg_addr_mask_def and_mask_mod nat_less_iff)
  then have "?A + 1 \<le> 2 ^ p_seg_addr_width p" unfolding Suc_eq_plus1 [symmetric] by (rule Suc_leI)
  then have "(?A + 1) * ?c \<le> 2 ^ p_seg_addr_width p * ?c" by (rule mult_right_mono) simp
  moreover have "?A * ?c + fst op + 1 \<le> (?A + 1) * ?c" using seg by simp
  ultimately have "(?A * ?c + fst op + 1) * ?l \<le> 2 ^ p_seg_addr_width p * ?c * ?l"
    by (intro mult_right_mono) simp_all
  also have "\<dots> \<le> mi_size I m" using sz unfolding aw by (simp add: ac_simps)
  finally have f: "?base + length ?d \<le> mi_size I m" by (simp add: algebra_simps)
  have be: "bit (sw_be ?o) i \<Longrightarrow> i < length ?d" for i
    by (simp add: mask_op_def seg_be_mask_def bw bit_and_iff bit_exp_mask)
  from be_ops_run [OF mem be f, where start = None and offset = 0 and n = "p_byte_lanes p"] obtain m' where m':
      "perform_writes I (be_ops ?base ?d (sw_be ?o) (p_byte_lanes p) None 0) m = Inr m'" "mi_size I m' = mi_size I m"
      "\<forall>x < mi_size I m. mi_bytes I m' ! x =
       (if ?base \<le> x \<and> be_covers (sw_be ?o) (p_byte_lanes p) None 0 (x - ?base) then ?d ! (x - ?base) else mi_bytes I m ! x)"
    by auto
  have eq: "(case op_byte p x op of Some b \<Rightarrow> b | None \<Rightarrow> mi_bytes I m ! x) =
      (if ?base \<le> x \<and> be_covers (sw_be ?o) (p_byte_lanes p) None 0 (x - ?base) then ?d ! (x - ?base) else mi_bytes I m ! x)" for x
  proof (cases "x div ?l = ?A * ?c + fst op")
    case True
    then have "x = ?base + x mod ?l" by (metis div_mult_mod_eq)
    then have "?base \<le> x" "x - ?base = x mod ?l" by linarith+
    moreover have "x mod ?l < p_byte_lanes p" using l lanes by (meson less_le_trans mod_less_divisor)
    ultimately show ?thesis using True by (simp add: op_byte_def be_covers_def)
  next
    case False
    have "\<not> (?base \<le> x \<and> be_covers (sw_be ?o) (p_byte_lanes p) None 0 (x - ?base))"
    proof
      assume a: "?base \<le> x \<and> be_covers (sw_be ?o) (p_byte_lanes p) None 0 (x - ?base)"
      then have y: "x - ?base < ?l" using be by (auto simp: be_covers_def)
      have x: "x = (x - ?base) + (?A * ?c + fst op) * ?l" using a by simp
      have "x div ?l = ?A * ?c + fst op + (x - ?base) div ?l"
        using l by (subst x) (rule div_mult_self1, simp)
      then have "x div ?l = ?A * ?c + fst op" using y by simp
      with False show False ..
    qed
    with False show ?thesis by (simp only: op_byte_def simp_thms if_False option.case)
  qed
  have "exec_op I p op m = Inr m'"
    using m'(1) by (cases op) (simp only: exec_op_def' ram_write_word_def fst_conv snd_conv)
  moreover have "\<forall>x < mi_size I m. mi_bytes I m' ! x = (case op_byte p x op of Some b \<Rightarrow> b | None \<Rightarrow> mi_bytes I m ! x)"
    unfolding eq by (rule m'(3))
  ultimately show ?thesis using m'(2) by blast
qed

lemma exec_ops_byte:
  assumes mem: "memory_ok I" and ok: "psdp_ok p" and "2 ^ p_address_width p \<le> mi_size I m"
    and "\<forall>op\<in>set ops. fst op < p_seg_count p"
  shows "\<exists>m'. exec_ops I p ops m = Inr m' \<and> mi_size I m' = mi_size I m \<and>
    (\<forall>x < mi_size I m. mi_bytes I m' ! x = byte_after p x ops (mi_bytes I m ! x))"
  using assms(3,4)
proof (induction ops arbitrary: m)
  case (Cons op ops)
  from exec_op_byte [OF mem ok, of m op] Cons.prems obtain m1 where m1: "exec_op I p op m = Inr m1"
      "mi_size I m1 = mi_size I m"
      "\<forall>x < mi_size I m. mi_bytes I m1 ! x = (case op_byte p x op of Some b \<Rightarrow> b | None \<Rightarrow> mi_bytes I m ! x)"
    by auto
  from Cons.IH [of m1] Cons.prems m1 show ?case by auto
qed simp

section \<open>One segment of the master\<close>

text \<open>The operation in the command registers, and what the master keeps for one segment.\<close>

definition cur_op :: "psdp \<Rightarrow> int \<Rightarrow> int \<Rightarrow> int \<Rightarrow> nat \<Rightarrow> seg_write" where
  "cur_op p addr data be seg =
     \<lparr>sw_addr = get_field (p_seg_addr_width p) (seg_addr_mask p) seg addr,
      sw_data = get_field (p_seg_data_width p) (seg_data_mask p) seg data,
      sw_be = get_field (p_seg_be_width p) (seg_be_mask p) seg be\<rparr>"

lemma mask_cur_op [simp]: "mask_op p (cur_op p addr data be seg) = cur_op p addr data be seg"
  by (simp add: mask_op_def cur_op_def get_field_def and.assoc)

definition mw_view :: "psdp \<Rightarrow> nat \<Rightarrow> mw \<Rightarrow> seg_write list \<times> bool \<times> seg_write \<times> nat" where
  "mw_view p seg s = (mw_segs s ! seg, bit (mw_cmd_valid s) seg,
     cur_op p (mw_cmd_addr s) (mw_cmd_data s) (mw_cmd_be s) seg, mw_resps s ! seg)"

definition mw_view_step ::
    "psdp \<Rightarrow> bool \<Rightarrow> bool \<Rightarrow> bool \<Rightarrow> seg_write list \<times> bool \<times> seg_write \<times> nat \<Rightarrow>
     seg_write list \<times> bool \<times> seg_write \<times> nat" where
  "mw_view_step p ready done' pause x =
     (case x of (q, v, op, t) \<Rightarrow>
        let t' = (if done' then t + 1 else t) in
        if ready \<or> \<not> v then
          (if q \<noteq> [] \<and> \<not> pause then (tl q, True, mask_op p (hd q), t') else (q, False, op, t'))
        else (q, v, op, t'))"

text \<open>What the loop over the segments leaves alone.\<close>

definition mw_frame :: "mw \<Rightarrow> mw \<Rightarrow> bool" where
  "mw_frame s s' \<longleftrightarrow> mw_pause s' = mw_pause s \<and> mw_cmds s' = mw_cmds s \<and>
     length (mw_segs s') = length (mw_segs s) \<and> length (mw_resps s') = length (mw_resps s) \<and>
     mw_resp_cmds s' = mw_resp_cmds s \<and> mw_current_resp s' = mw_current_resp s \<and>
     mw_done s' = mw_done s \<and> mw_in_flight s' = mw_in_flight s \<and> mw_idle s' = mw_idle s \<and>
     mw_next_event s' = mw_next_event s"

lemma mw_run_seg_frame: "mw_frame s0 s \<Longrightarrow> mw_frame s0 (mw_run_seg p ready done' j s)"
  by (simp add: mw_frame_def mw_run_seg_def Let_def)

lemma mw_run_seg_other:
  assumes "j \<noteq> i"
  shows "mw_view p i (mw_run_seg p ready done' j s) = mw_view p i s"
  using assms
  by (auto simp: mw_view_def mw_run_seg_def Let_def cur_op_def seg_addr_mask_def seg_data_mask_def
      seg_be_mask_def get_set_field_other)

lemma mw_run_seg_same:
  assumes "i < length (mw_segs s)" "i < length (mw_resps s)"
  shows "mw_view p i (mw_run_seg p ready done' i s) =
    mw_view_step p (bit ready i) (bit done' i) (ps_pause (mw_pause s)) (mw_view p i s)"
  using assms
  by (auto simp: mw_view_def mw_view_step_def mw_run_seg_def Let_def cur_op_def mask_op_def
      seg_addr_mask_def seg_data_mask_def seg_be_mask_def)

lemma mw_run_views:
  assumes "length (mw_segs s) = p_seg_count p" "length (mw_resps s) = p_seg_count p"
  shows "mw_frame s (mw_run p False ready done' s)"
    and "i < p_seg_count p \<Longrightarrow> mw_view p i (mw_run p False ready done' s) =
      mw_view_step p (bit ready i) (bit done' i) (ps_pause (mw_pause s)) (mw_view p i s)"
proof -
  let ?f = "mw_run_seg p ready done'" let ?s = "fold ?f [0..<p_seg_count p] s"
  have f: "mw_frame s ?s \<and> mw_view p i ?s =
      (if i \<in> set [0..<p_seg_count p] then
         mw_view_step p (bit ready i) (bit done' i) (ps_pause (mw_pause s)) (mw_view p i s) else mw_view p i s)" for i
  proof (rule fold_segments)
    show "mw_frame s s" by (simp add: mw_frame_def)
    show "mw_view p i (?f i t) = mw_view_step p (bit ready i) (bit done' i) (ps_pause (mw_pause s)) (mw_view p i t)"
      if "mw_frame s t" "i \<in> set [0..<p_seg_count p]" for t
      using mw_run_seg_same [of i t p ready done'] that assms by (simp add: mw_frame_def)
  qed (auto intro: mw_run_seg_frame mw_run_seg_other)
  show "mw_frame s (mw_run p False ready done' s)"
    using f by (simp add: mw_run_def Let_def mw_frame_def)
  show "mw_view p i (mw_run p False ready done' s) =
      mw_view_step p (bit ready i) (bit done' i) (ps_pause (mw_pause s)) (mw_view p i s)" if "i < p_seg_count p"
  proof -
    have "mw_view p i (mw_run p False ready done' s) = mw_view p i ?s"
      by (simp add: mw_run_def Let_def mw_view_def)
    with f [of i] that show ?thesis by simp
  qed
qed

lemma mw_run_bus:
  "mw_bus_valid (mw_run p False ready done' s) = mw_cmd_valid (mw_run p False ready done' s)"
  "mw_bus_addr (mw_run p False ready done' s) = mw_cmd_addr (mw_run p False ready done' s)"
  "mw_bus_data (mw_run p False ready done' s) = mw_cmd_data (mw_run p False ready done' s)"
  "mw_bus_be (mw_run p False ready done' s) = mw_cmd_be (mw_run p False ready done' s)"
  by (simp_all add: mw_run_def Let_def)

section \<open>What the RAM does at an edge\<close>

text \<open>The operations it performs, and the bits of \<open>wr_done\<close>.\<close>

definition bus_ops :: "psdp \<Rightarrow> int \<Rightarrow> int \<Rightarrow> int \<Rightarrow> int \<Rightarrow> int \<Rightarrow> nat list \<Rightarrow> (nat \<times> seg_write) list" where
  "bus_ops p ready valid addr data be segs =
     map (\<lambda>seg. (seg, cur_op p addr data be seg)) (filter (\<lambda>seg. bit ready seg \<and> bit valid seg) segs)"

lemma rw_segs_exec:
  "rw_segs I p ready valid addr data be segs (d, m) =
     (case exec_ops I p (bus_ops p ready valid addr data be segs) m of
        Inl e \<Rightarrow> Inl e
      | Inr m' \<Rightarrow> Inr (fold (\<lambda>seg d. d OR push_bit seg 1) (filter (\<lambda>seg. bit ready seg \<and> bit valid seg) segs) d, m'))"
proof (induction segs arbitrary: d m)
  case (Cons seg segs)
  have "exec_op I p (seg, cur_op p addr data be seg) m =
      ram_write_word I p seg (get_field (p_seg_addr_width p) (seg_addr_mask p) seg addr)
        (get_field (p_seg_data_width p) (seg_data_mask p) seg data)
        (get_field (p_seg_be_width p) (seg_be_mask p) seg be) m"
    by (simp only: exec_op_def' mask_cur_op) (simp add: cur_op_def)
  with Cons.IH show ?case by (auto simp: bus_ops_def split: sum.split)
qed (simp add: bus_ops_def)

lemma bit_fold_raise: "bit (fold (\<lambda>seg d. d OR 2 ^ seg) segs d :: int) i \<longleftrightarrow> bit d i \<or> i \<in> set segs"
  by (induction segs arbitrary: d) auto

lemma bus_ops_filter:
  "distinct segs \<Longrightarrow> filter (\<lambda>x. fst x = i) (bus_ops p ready valid addr data be segs) =
     (if i \<in> set segs \<and> bit ready i \<and> bit valid i then [(i, cur_op p addr data be i)] else [])"
  by (induction segs) (auto simp: bus_ops_def)

text \<open>An edge outside reset never raises on a memory that holds the address space.\<close>

lemma rw_run_run:
  assumes mem: "memory_ok I" and ok: "psdp_ok p" and sz: "2 ^ p_address_width p \<le> mi_size I (rw_mem r)"
    and ops_def: "ops = bus_ops p (rw_cmd_ready r) valid addr data be [0..<p_seg_count p]"
  obtains r' where "rw_run I p False valid addr data be r = Inr r'"
    "exec_ops I p ops (rw_mem r) = Inr (rw_mem r')" "mi_size I (rw_mem r') = mi_size I (rw_mem r)"
    "rw_pause r' = rw_pause r" "rw_bus_ready r' = rw_cmd_ready r'"
    "rw_cmd_ready r' = (if ps_pause (rw_pause r) then 0 else 2 ^ p_seg_count p - 1)"
    "\<And>i. i < p_seg_count p \<Longrightarrow> bit (rw_bus_done r') i \<longleftrightarrow> bit (rw_cmd_ready r) i \<and> bit valid i"
proof -
  have "\<forall>op\<in>set ops. fst op < p_seg_count p" by (auto simp: ops_def bus_ops_def)
  from exec_ops_byte [OF mem ok sz this] obtain m' where
    m': "exec_ops I p ops (rw_mem r) = Inr m'" "mi_size I m' = mi_size I (rw_mem r)" by blast
  let ?segs = "filter (\<lambda>seg. bit (rw_cmd_ready r) seg \<and> bit valid seg) [0..<p_seg_count p]"
  have segs: "rw_segs I p (rw_cmd_ready r) valid addr data be [0..<p_seg_count p] (0, rw_mem r) =
      Inr (fold (\<lambda>seg d. d OR push_bit seg 1) ?segs 0, m')"
    using m'(1) by (simp add: rw_segs_exec ops_def)
  let ?ready = "if ps_pause (rw_pause r) then 0 else 2 ^ p_seg_count p - 1 :: int"
  have run: "rw_run I p False valid addr data be r =
      Inr (r\<lparr>rw_mem := m', rw_cmd_ready := ?ready, rw_bus_ready := ?ready,
        rw_bus_done := fold (\<lambda>seg d. d OR push_bit seg 1) ?segs 0\<rparr>)"
    by (simp add: rw_run_def segs Let_def)
  show thesis
    by (rule that [OF run]) (simp_all add: m' bit_fold_raise)
qed

section \<open>The operations on one segment\<close>

definition on_seg :: "nat \<Rightarrow> (nat \<times> 'a) list \<Rightarrow> 'a list" where
  "on_seg i ops = map snd (filter (\<lambda>x. fst x = i) ops)"

lemma on_seg_append [simp]: "on_seg i (xs @ ys) = on_seg i xs @ on_seg i ys"
  by (simp add: on_seg_def)

lemma on_seg_Nil [simp]: "on_seg i [] = []"
  by (simp add: on_seg_def)

lemma length_on_seg: "length (on_seg i ops) = count_list (map fst ops) i"
  by (induction ops) (auto simp: on_seg_def)

lemma filter_on_seg: "filter (\<lambda>x. fst x = i) ops = map (Pair i) (on_seg i ops)"
  by (induction ops) (auto simp: on_seg_def)

lemma on_seg_mask: "on_seg i (mask_ops p ops) = map (mask_op p) (on_seg i ops)"
  by (induction ops) (simp_all add: on_seg_def mask_ops_def)

lemma length_enqueue [simp]: "length (enqueue qs x) = length qs"
  by (simp add: enqueue_def)

lemma nth_enqueue: "i < length qs \<Longrightarrow>
  enqueue qs x ! i = (if fst x = i then qs ! i @ [snd x] else qs ! i)"
  by (simp add: enqueue_def nth_list_update)

lemma enqueue_all:
  "length (foldl enqueue qs ops) = length qs \<and>
   (\<forall>i < length qs. foldl enqueue qs ops ! i = qs ! i @ map snd (filter (\<lambda>x. fst x = i) ops))"
  by (induction ops arbitrary: qs) (auto simp: nth_enqueue)

end
