(* ===== verification/Psdp_Read_Sys.thy ===== *)
theory Psdp_Read_Sys
  imports Psdp_Read Psdp_Write_Sys
begin

text \<open>
  One segment of the read side: what an edge does to the queue, command register and answers of
  the master, and to the pipeline and the output register of the RAM.
\<close>

section \<open>One segment of the master\<close>

definition mr_view :: "psdp \<Rightarrow> nat \<Rightarrow> mr \<Rightarrow> seg_read list \<times> bool \<times> int \<times> int list" where
  "mr_view p i s = (mr_segs s ! i, bit (mr_cmd_valid s) i,
     get_field (p_seg_addr_width p) (seg_addr_mask p) i (mr_cmd_addr s), mr_resps s ! i)"

text \<open>\<open>d\<close> is the answer taken at the edge, if one is.\<close>

definition mr_view_step ::
    "psdp \<Rightarrow> bool \<Rightarrow> bool \<Rightarrow> int option \<Rightarrow> seg_read list \<times> bool \<times> int \<times> int list \<Rightarrow>
     seg_read list \<times> bool \<times> int \<times> int list" where
  "mr_view_step p ready pause d x =
     (case x of (q, v, a, ws) \<Rightarrow>
        let ws' = (case d of Some w \<Rightarrow> ws @ [w] | None \<Rightarrow> ws) in
        if ready \<or> \<not> v then
          (if q \<noteq> [] \<and> \<not> pause then (tl q, True, sr_addr (hd q) AND seg_addr_mask p, ws') else (q, False, a, ws'))
        else (q, v, a, ws'))"

definition mr_frame :: "mr \<Rightarrow> mr \<Rightarrow> bool" where
  "mr_frame s s' \<longleftrightarrow> mr_pause s' = mr_pause s \<and> mr_cmds s' = mr_cmds s \<and>
     length (mr_segs s') = length (mr_segs s) \<and> length (mr_resps s') = length (mr_resps s) \<and>
     mr_resp_cmds s' = mr_resp_cmds s \<and> mr_current_resp s' = mr_current_resp s \<and>
     mr_done s' = mr_done s \<and> mr_in_flight s' = mr_in_flight s \<and> mr_idle s' = mr_idle s \<and>
     mr_next_event s' = mr_next_event s"

definition taken_word :: "psdp \<Rightarrow> int \<Rightarrow> int \<Rightarrow> int \<Rightarrow> nat \<Rightarrow> int option" where
  "taken_word p resp_ready valid data i =
     (if bit resp_ready i \<and> bit valid i then Some (get_field (p_seg_data_width p) (seg_data_mask p) i data) else None)"

lemma mr_run_seg_frame:
  "mr_frame s0 s \<and> mr_resp_ready s = mr_resp_ready s0 \<Longrightarrow>
   mr_frame s0 (mr_run_seg p ready valid data j s) \<and> mr_resp_ready (mr_run_seg p ready valid data j s) = mr_resp_ready s0"
  by (simp add: mr_frame_def mr_run_seg_def Let_def)

lemma mr_run_seg_other:
  assumes "j \<noteq> i"
  shows "mr_view p i (mr_run_seg p ready valid data j s) = mr_view p i s"
  using assms
  by (auto simp: mr_view_def mr_run_seg_def Let_def seg_addr_mask_def get_set_field_other)

lemma mr_run_seg_same:
  assumes "i < length (mr_segs s)" "i < length (mr_resps s)"
  shows "mr_view p i (mr_run_seg p ready valid data i s) =
    mr_view_step p (bit ready i) (ps_pause (mr_pause s)) (taken_word p (mr_resp_ready s) valid data i) (mr_view p i s)"
  using assms
  by (auto simp: mr_view_def mr_view_step_def mr_run_seg_def Let_def seg_addr_mask_def taken_word_def)

lemma mr_run_views:
  assumes "length (mr_segs s) = p_seg_count p" "length (mr_resps s) = p_seg_count p"
  shows "mr_frame s (mr_run p False ready valid data s)"
    and "i < p_seg_count p \<Longrightarrow> mr_view p i (mr_run p False ready valid data s) =
      mr_view_step p (bit ready i) (ps_pause (mr_pause s)) (taken_word p (mr_resp_ready s) valid data i) (mr_view p i s)"
proof -
  let ?f = "mr_run_seg p ready valid data" let ?s = "fold ?f [0..<p_seg_count p] s"
  let ?g = "\<lambda>i. mr_view_step p (bit ready i) (ps_pause (mr_pause s)) (taken_word p (mr_resp_ready s) valid data i)"
  have f: "(mr_frame s ?s \<and> mr_resp_ready ?s = mr_resp_ready s) \<and> mr_view p i ?s =
      (if i \<in> set [0..<p_seg_count p] then ?g i (mr_view p i s) else mr_view p i s)" for i
  proof (rule fold_segments)
    show "mr_frame s s \<and> mr_resp_ready s = mr_resp_ready s" by (simp add: mr_frame_def)
    show "mr_view p i (?f i t) = ?g i (mr_view p i t)"
      if "mr_frame s t \<and> mr_resp_ready t = mr_resp_ready s" "i \<in> set [0..<p_seg_count p]" for t
      using mr_run_seg_same [of i t p ready valid data] that assms by (simp add: mr_frame_def)
  qed (auto intro: mr_run_seg_frame [THEN conjunct1] mr_run_seg_frame [THEN conjunct2] mr_run_seg_other)
  show "mr_frame s (mr_run p False ready valid data s)"
    using f by (simp add: mr_run_def Let_def mr_frame_def)
  show "mr_view p i (mr_run p False ready valid data s) = ?g i (mr_view p i s)" if "i < p_seg_count p"
  proof -
    have "mr_view p i (mr_run p False ready valid data s) = mr_view p i ?s"
      by (simp add: mr_run_def Let_def mr_view_def)
    with f [of i] that show ?thesis by simp
  qed
qed

lemma mr_run_bus:
  "mr_bus_valid (mr_run p False ready valid data s) = mr_cmd_valid (mr_run p False ready valid data s)"
  "mr_bus_addr (mr_run p False ready valid data s) = mr_cmd_addr (mr_run p False ready valid data s)"
  "mr_bus_ready (mr_run p False ready valid data s) = mr_resp_ready (mr_run p False ready valid data s)"
  by (simp_all add: mr_run_def Let_def)

section \<open>One segment of the RAM\<close>

text \<open>The word at an address of a segment.\<close>

definition mem_word :: "psdp \<Rightarrow> byte list \<Rightarrow> nat \<Rightarrow> int \<Rightarrow> int" where
  "mem_word p b i a = le_val (take (p_seg_byte_lanes p) (drop ((nat a * p_seg_count p + i) * p_seg_byte_lanes p) b))"

lemma ram_read_word_run:
  assumes mem: "memory_ok I" and ok: "psdp_ok p" and sz: "2 ^ p_address_width p \<le> mi_size I m"
    and i: "i < p_seg_count p" and a: "a AND seg_addr_mask p = a"
  shows "ram_read_word I p i a m = Inr (mem_word p (mi_bytes I m) i a)"
proof -
  let ?l = "p_seg_byte_lanes p" let ?c = "p_seg_count p" let ?A = "nat a" let ?base = "(?A * ?c + i) * ?l"
  have l: "0 < ?l" and aw: "2 ^ p_address_width p = 2 ^ p_seg_addr_width p * (?l * ?c)"
    using ok by (simp_all add: psdp_ok_def)
  have "a AND seg_addr_mask p < 2 ^ p_seg_addr_width p" by (simp add: seg_addr_mask_def and_mask_mod)
  then have "?A < 2 ^ p_seg_addr_width p" unfolding a by (simp add: nat_less_iff)
  then have "?A + 1 \<le> 2 ^ p_seg_addr_width p" unfolding Suc_eq_plus1 [symmetric] by (rule Suc_leI)
  then have "(?A + 1) * ?c \<le> 2 ^ p_seg_addr_width p * ?c" by (rule mult_right_mono) simp
  moreover have "?A * ?c + i + 1 \<le> (?A + 1) * ?c" using i by simp
  ultimately have "(?A * ?c + i + 1) * ?l \<le> 2 ^ p_seg_addr_width p * ?c * ?l"
    by (intro mult_right_mono) simp_all
  also have "\<dots> \<le> mi_size I m" using sz unfolding aw by (simp add: ac_simps)
  finally have f: "?base + ?l \<le> mi_size I m" by (simp add: algebra_simps)
  then have "?base < mi_size I m" "mi_size I m \<noteq> 0" using l by linarith+
  then have "?base mod mi_size I m = ?base" by simp
  then show ?thesis
    using memory_okD(2) [OF mem f] \<open>mi_size I m \<noteq> 0\<close> by (simp add: ram_read_word_def mem_word_def)
qed

lemma mem_word_masked:
  assumes "psdp_ok p"
  shows "mem_word p b i a AND seg_data_mask p = mem_word p b i a"
proof -
  let ?bs = "take (p_seg_byte_lanes p) (drop ((nat a * p_seg_count p + i) * p_seg_byte_lanes p) b)"
  have "0 + length ?bs \<le> p_seg_byte_lanes p" by simp
  from le_val_masked [OF this] show ?thesis
    using assms by (simp add: mem_word_def seg_data_mask_def psdp_ok_def)
qed

definition rr_view :: "psdp \<Rightarrow> nat \<Rightarrow> 'm rr \<Rightarrow> int option \<times> bool \<times> bool \<times> int" where
  "rr_view p i s = (rr_pipe s ! i, bit (rr_cmd_ready s) i, bit (rr_resp_valid s) i,
     get_field (p_seg_data_width p) (seg_data_mask p) i (rr_resp_data s))"

text \<open>\<open>w\<close> is the word read for the command accepted at the edge, if one is.\<close>

definition rr_advance_view :: "psdp \<Rightarrow> bool \<Rightarrow> int option \<times> bool \<times> bool \<times> int \<Rightarrow> int option \<times> bool \<times> bool \<times> int" where
  "rr_advance_view p rdy x =
     (case x of (pipe, cr, rv, d) \<Rightarrow>
        if rdy \<or> \<not> rv then
          (case pipe of Some v \<Rightarrow> (None, cr, True, v AND seg_data_mask p) | None \<Rightarrow> (None, cr, False, d))
        else (pipe, cr, rv, d))"

definition rr_view_step ::
    "psdp \<Rightarrow> bool \<Rightarrow> bool \<Rightarrow> int \<Rightarrow> int option \<times> bool \<times> bool \<times> int \<Rightarrow> int option \<times> bool \<times> bool \<times> int" where
  "rr_view_step p rdy valid w x =
     (case rr_advance_view p rdy x of (pipe, cr, rv, d) \<Rightarrow>
        let pipe' = (if cr \<and> valid then Some w else pipe) in (pipe', \<not> rv \<or> pipe' = None, rv, d))"

definition rr_frame :: "psdp \<Rightarrow> 'm rr \<Rightarrow> 'm rr \<Rightarrow> bool" where
  "rr_frame p s s' \<longleftrightarrow> rr_mem s' = rr_mem s \<and> rr_pause s' = rr_pause s \<and> length (rr_pipe s') = length (rr_pipe s)"

lemma rr_advance_views:
  "rr_frame p s (rr_advance p rdy j s)"
  "j \<noteq> i \<Longrightarrow> rr_view p i (rr_advance p rdy j s) = rr_view p i s"
  "i < length (rr_pipe s) \<Longrightarrow> rr_view p i (rr_advance p rdy i s) = rr_advance_view p (bit rdy i) (rr_view p i s)"
  by (auto simp: rr_frame_def rr_view_def rr_advance_view_def rr_advance_def seg_data_mask_def get_set_field_other
      split: option.split)

lemma rr_run_seg_views:
  assumes r: "ram_read_word I p j (get_field (p_seg_addr_width p) (seg_addr_mask p) j addr) (rr_mem s) = Inr w"
  obtains s' where "rr_run_seg I p valid addr rdy j s = Inr s'" "rr_frame p s s'"
    "\<And>i. j \<noteq> i \<Longrightarrow> rr_view p i s' = rr_view p i s"
    "j < length (rr_pipe s) \<Longrightarrow> rr_view p j s' = rr_view_step p (bit rdy j) (bit valid j) w (rr_view p j s)"
proof -
  let ?s1 = "rr_advance p rdy j s"
  let ?acc = "bit (rr_cmd_ready ?s1) j \<and> bit valid j"
  let ?s2 = "if ?acc then ?s1\<lparr>rr_pipe := (rr_pipe ?s1)[j := Some w]\<rparr> else ?s1"
  let ?s3 = "?s2\<lparr>rr_cmd_ready := (if \<not> bit (rr_resp_valid ?s2) j \<or> rr_pipe ?s2 ! j = None
     then rr_cmd_ready ?s2 OR push_bit j 1 else rr_cmd_ready ?s2 AND NOT (push_bit j 1))\<rparr>"
  have mem: "rr_mem ?s1 = rr_mem s" using rr_advance_views(1) [of p s rdy j] by (simp add: rr_frame_def)
  have run: "rr_run_seg I p valid addr rdy j s = Inr ?s3"
    using r by (simp add: rr_run_seg_def Let_def mem)
  have fr: "rr_frame p s ?s3"
    using rr_advance_views(1) [of p s rdy j] by (simp add: rr_frame_def)
  have other: "rr_view p i ?s3 = rr_view p i s" if "j \<noteq> i" for i
  proof -
    have "rr_view p i ?s3 = rr_view p i ?s1" using that by (simp add: rr_view_def)
    with rr_advance_views(2) [OF that] show ?thesis by simp
  qed
  have same: "rr_view p j ?s3 = rr_view_step p (bit rdy j) (bit valid j) w (rr_view p j s)" if "j < length (rr_pipe s)"
  proof -
    have len: "length (rr_pipe ?s1) = length (rr_pipe s)"
      using rr_advance_views(1) [of p s rdy j] by (simp add: rr_frame_def)
    show ?thesis
      unfolding rr_view_step_def rr_advance_views(3) [OF that, symmetric]
      using that len by (simp add: rr_view_def Let_def)
  qed
  show thesis by (rule that [OF run fr other same])
qed

lemma rr_segs_views:
  assumes r: "\<And>j. j \<in> set js \<Longrightarrow>
      ram_read_word I p j (get_field (p_seg_addr_width p) (seg_addr_mask p) j addr) m = Inr (w j)"
  shows "distinct js \<Longrightarrow> \<forall>j\<in>set js. j < length (rr_pipe s) \<Longrightarrow> rr_mem s = m \<Longrightarrow>
    \<exists>s'. rr_segs I p valid addr rdy js s = Inr s' \<and> rr_frame p s s' \<and>
      (\<forall>i. rr_view p i s' = (if i \<in> set js then rr_view_step p (bit rdy i) (bit valid i) (w i) (rr_view p i s)
        else rr_view p i s))"
  using r
proof (induction js arbitrary: s)
  case (Cons j js)
  have "ram_read_word I p j (get_field (p_seg_addr_width p) (seg_addr_mask p) j addr) (rr_mem s) = Inr (w j)"
    using Cons.prems(3,4) by simp
  from rr_run_seg_views [OF this, of valid rdy] obtain s1 where s1: "rr_run_seg I p valid addr rdy j s = Inr s1"
    "rr_frame p s s1" "\<And>i. j \<noteq> i \<Longrightarrow> rr_view p i s1 = rr_view p i s"
    "rr_view p j s1 = rr_view_step p (bit rdy j) (bit valid j) (w j) (rr_view p j s)"
    using Cons.prems(2) by auto
  have "\<exists>s'. rr_segs I p valid addr rdy js s1 = Inr s' \<and> rr_frame p s1 s' \<and>
      (\<forall>i. rr_view p i s' = (if i \<in> set js then rr_view_step p (bit rdy i) (bit valid i) (w i) (rr_view p i s1)
        else rr_view p i s1))"
    using Cons.prems s1(2) by (intro Cons.IH) (auto simp: rr_frame_def)
  then obtain s' where s': "rr_segs I p valid addr rdy js s1 = Inr s'" "rr_frame p s1 s'"
    "\<forall>i. rr_view p i s' = (if i \<in> set js then rr_view_step p (bit rdy i) (bit valid i) (w i) (rr_view p i s1)
        else rr_view p i s1)" by blast
  have "rr_frame p s s'" using s1(2) s'(2) by (simp add: rr_frame_def)
  moreover have "rr_view p i s' = (if i \<in> set (j # js)
      then rr_view_step p (bit rdy i) (bit valid i) (w i) (rr_view p i s) else rr_view p i s)" for i
    using s'(3) s1(3,4) Cons.prems(1) by (cases "i = j") auto
  ultimately show ?case using s1(1) s'(1) by auto
qed (simp add: rr_frame_def)

text \<open>An edge outside reset never raises on a memory that holds the address space.\<close>

lemma rr_run_run:
  assumes mem: "memory_ok I" and ok: "psdp_ok p" and sz: "2 ^ p_address_width p \<le> mi_size I (rr_mem r)"
    and len: "length (rr_pipe r) = p_seg_count p"
  obtains r' where "rr_run I p False valid addr rdy r = Inr r'" "rr_frame p r r'"
    "rr_bus_ready r' = rr_cmd_ready r'" "rr_bus_valid r' = rr_resp_valid r'" "rr_bus_data r' = rr_resp_data r'"
    "\<And>i. i < p_seg_count p \<Longrightarrow> rr_view p i r' =
      (case rr_view_step p (bit rdy i) (bit valid i)
          (mem_word p (mi_bytes I (rr_mem r)) i (get_field (p_seg_addr_width p) (seg_addr_mask p) i addr)) (rr_view p i r) of
        (pipe, cr, rv, d) \<Rightarrow> (pipe, cr \<and> \<not> ps_pause (rr_pause r), rv, d))"
proof -
  have rd: "ram_read_word I p j (get_field (p_seg_addr_width p) (seg_addr_mask p) j addr) (rr_mem r) =
      Inr (mem_word p (mi_bytes I (rr_mem r)) j (get_field (p_seg_addr_width p) (seg_addr_mask p) j addr))"
    if "j \<in> set [0..<p_seg_count p]" for j
    using that by (intro ram_read_word_run [OF mem ok sz]) (simp_all add: get_field_def and.assoc)
  from rr_segs_views [where js = "[0..<p_seg_count p]", OF rd] obtain s where
    s: "rr_segs I p valid addr rdy [0..<p_seg_count p] r = Inr s" "rr_frame p r s"
      "\<forall>i. rr_view p i s = (if i \<in> set [0..<p_seg_count p] then rr_view_step p (bit rdy i) (bit valid i)
        (mem_word p (mi_bytes I (rr_mem r)) i (get_field (p_seg_addr_width p) (seg_addr_mask p) i addr)) (rr_view p i r)
        else rr_view p i r)"
    using len by (metis (no_types, lifting) atLeast_upt distinct_upt lessThan_iff)
  let ?ready = "if ps_pause (rr_pause s) then 0 else rr_cmd_ready s"
  let ?r = "s\<lparr>rr_cmd_ready := ?ready, rr_bus_ready := ?ready, rr_bus_data := rr_resp_data s, rr_bus_valid := rr_resp_valid s\<rparr>"
  have run: "rr_run I p False valid addr rdy r = Inr ?r" using s(1) by (simp add: rr_run_def Let_def)
  have "rr_view p i ?r = (case rr_view p i s of (pipe, cr, rv, d) \<Rightarrow> (pipe, cr \<and> \<not> ps_pause (rr_pause r), rv, d))" for i
    using s(2) by (simp add: rr_view_def rr_frame_def)
  with s show thesis by (intro that [OF run]) (simp_all add: rr_frame_def)
qed

end
