(* ===== verification/Psdp_Read_Link.thy ===== *)
theory Psdp_Read_Link
  imports Psdp_Read_Sys
begin

text \<open>
  The read master and the RAM on one bus, outside reset. On every segment the answers that have
  come, the words in the RAM's output register and pipeline, and the commands still queued are,
  in this order, the words asked for and not yet taken: nothing is lost, repeated or reordered.
  The memory may change while a read is under way, so a read is described by the set of memories
  that it may have met: each byte that it gives is the byte of one of them.
\<close>

section \<open>The bytes of a word\<close>

lemma word_byte:
  "j < length bs \<Longrightarrow> (of_int (drop_bit (8 * j) (le_val bs) AND 255) :: byte) = bs ! j"
proof (induction bs arbitrary: j)
  case (Cons b bs)
  have m: "(x AND 255 :: int) = x mod 256" for x
    using and_mask_mod [of x 8] by simp
  show ?case
  proof (cases j)
    case 0
    then show ?thesis by (simp add: m)
  next
    case (Suc i)
    have "drop_bit 8 (uint b + 256 * le_val bs) = le_val bs"
      by (simp add: drop_bit_eq_div)
    moreover have "drop_bit (8 * j) x = drop_bit (8 * i) (drop_bit 8 x)" for x :: int
      by (simp add: Suc drop_bit_drop_bit add.commute)
    ultimately have "drop_bit (8 * j) (le_val (b # bs)) = drop_bit (8 * i) (le_val bs)" by (simp only: le_val.simps)
    with Cons show ?thesis by (simp add: Suc)
  qed
qed simp

lemma word_bytes_val:
  "e \<le> length bs \<Longrightarrow> word_bytes (le_val bs) [s..<e] = take (e - s) (drop s bs)"
proof (rule nth_equalityI)
  assume e: "e \<le> length bs"
  show "length (word_bytes (le_val bs) [s..<e]) = length (take (e - s) (drop s bs))"
    using e by (simp add: word_bytes_def)
  fix i assume "i < length (word_bytes (le_val bs) [s..<e])"
  then have "s + i < length bs" "i < e - s" using e by (simp_all add: word_bytes_def)
  with word_byte [of "s + i" bs] show "word_bytes (le_val bs) [s..<e] ! i = take (e - s) (drop s bs) ! i"
    by (simp add: word_bytes_def)
qed

definition read_op :: "psdp \<Rightarrow> nat \<Rightarrow> nat \<Rightarrow> nat \<times> seg_read" where
  "read_op p a k = ((a div p_seg_byte_lanes p + k) mod p_seg_count p,
     \<lparr>sr_addr = int ((a + k * p_seg_byte_lanes p) div p_byte_lanes p)\<rparr>)"

definition op_word :: "psdp \<Rightarrow> byte list \<Rightarrow> nat \<times> seg_read \<Rightarrow> int" where
  "op_word p b x = mem_word p b (fst x) (sr_addr (snd x) AND seg_addr_mask p)"

lemma split_read_loop_ops:
  "split_read_loop p a [k..<k + m] ((a div p_seg_byte_lanes p + k) mod p_seg_count p) =
     map (read_op p a) [k..<k + m]"
proof (induction m arbitrary: k)
  case (Suc m)
  have e: "((a div p_seg_byte_lanes p + k) mod p_seg_count p + 1) mod p_seg_count p =
      (a div p_seg_byte_lanes p + Suc k) mod p_seg_count p" by (simp add: mod_Suc_eq)
  have u: "[k..<k + Suc m] = k # [Suc k..<Suc k + m]" by (simp add: upt_conv_Cons del: upt_Suc)
  show ?case unfolding u split_read_loop.simps e Suc.IH by (simp add: read_op_def)
qed simp

lemma split_read_ops: "split_read p a n = map (read_op p a) [0..<seg_words p a n]"
  using split_read_loop_ops [of p a 0 "seg_words p a n"] by (simp add: split_read_def first_seg_def)

text \<open>The bytes of word \<open>k\<close> that belong to the transfer.\<close>

lemma read_window:
  assumes ok: "psdp_ok p" and n: "0 < n" and k: "k < seg_words p a n"
    and fit: "a + n \<le> 2 ^ p_address_width p" "2 ^ p_address_width p \<le> length b"
    and win: "win = seg_window p a n (seg_words p a n) k"
  shows "word_bytes (op_word p b (read_op p a k)) [fst win..<snd win] =
    take (seg_hi p a n k - seg_lo p a k) (drop (a + (seg_lo p a k - a mod p_seg_byte_lanes p)) b)"
proof -
  let ?l = "p_seg_byte_lanes p" let ?w = "a div ?l + k" let ?lo = "seg_lo p a k" let ?hi = "seg_hi p a n k"
  have l: "0 < ?l" using ok by (simp add: psdp_ok_def)
  note b = seg_bounds [OF l n k]
  note wa = word_addr [OF ok less_le_trans [OF seg_last_byte [OF l n k] fit(1)]]
  have wl: "?w * ?l + ?l \<le> length b" using le_trans [OF wa(2) fit(2)] by simp
  have word: "op_word p b (read_op p a k) = le_val (take ?l (drop (?w * ?l) b))"
    unfolding op_word_def read_op_def fst_conv snd_conv seg_read.select_convs wa(1) mem_word_def nat_int
      word_position [OF ok] ..
  have len: "length (take ?l (drop (?w * ?l) b)) = ?l" using wl by simp
  have w: "win = (?lo - k * ?l, ?hi - k * ?l)" using seg_window_pos [OF l n k] win by simp
  have e: "snd win \<le> length (take ?l (drop (?w * ?l) b))" unfolding len w using b(3) by simp
  have at: "?w * ?l + (?lo - k * ?l) = a + (?lo - a mod ?l)"
  proof -
    have "a div ?l * ?l + a mod ?l = a" by simp
    with b(1,5) show ?thesis unfolding add_mult_distrib by linarith
  qed
  have d: "snd win - fst win = ?hi - ?lo" unfolding w using b(1,2) by simp
  have "take (?hi - ?lo) (drop (?lo - k * ?l) (take ?l (drop (?w * ?l) b))) =
      take (?hi - ?lo) (drop (a + (?lo - a mod ?l)) b)"
  proof -
    have "?hi - ?lo \<le> ?l - (?lo - k * ?l)" using b(1,3) by simp
    then show ?thesis by (simp add: drop_take at [symmetric] min_absorb1 ac_simps)
  qed
  then show ?thesis unfolding word word_bytes_val [OF e] d unfolding w fst_conv .
qed

text \<open>How many bytes the first \<open>k\<close> words of a transfer give.\<close>

definition read_pos :: "psdp \<Rightarrow> nat \<Rightarrow> nat \<Rightarrow> nat \<Rightarrow> nat" where
  "read_pos p a n k = (if k = 0 then 0 else seg_hi p a n (k - 1) - a mod p_seg_byte_lanes p)"

lemma read_next:
  assumes ok: "psdp_ok p" and k: "k < seg_words p a n" and a: "a < 2 ^ p_address_width p"
    and fit: "a + n \<le> 2 ^ p_address_width p" "2 ^ p_address_width p \<le> length b"
    and win: "win = seg_window p a n (seg_words p a n) k"
  shows "take (read_pos p a n k) (drop a b) @ word_bytes (op_word p b (read_op p a k)) [fst win..<snd win] =
    take (read_pos p a n (Suc k)) (drop a b)"
proof (cases "n = 0")
  case True
  have l: "0 < p_seg_byte_lanes p" using ok by (simp add: psdp_ok_def)
  have q: "0 < a mod p_seg_byte_lanes p" "k = 0" using k l by (auto simp: True seg_words_empty split: if_splits)
  from seg_end_empty [OF l] q(1) have "seg_end p a 0 = a mod p_seg_byte_lanes p" by simp
  then have "win = (a mod p_seg_byte_lanes p, a mod p_seg_byte_lanes p)"
    using q l by (simp add: win True seg_window_def seg_words_empty seg_start_def)
  then show ?thesis by (simp add: q(2) True read_pos_def seg_hi_def seg_words_empty l word_bytes_def)
next
  case False
  then have n: "0 < n" by simp
  have l: "0 < p_seg_byte_lanes p" using ok by (simp add: psdp_ok_def)
  note b = seg_bounds [OF l n k]
  have p: "read_pos p a n k = seg_lo p a k - a mod p_seg_byte_lanes p"
  proof (cases k)
    case (Suc j)
    then have "j < seg_words p a n" using k by simp
    from seg_bounds(6) [OF l n this] k Suc show ?thesis by (simp add: read_pos_def)
  qed (simp add: read_pos_def seg_lo_def)
  have "read_pos p a n (Suc k) = read_pos p a n k + (seg_hi p a n k - seg_lo p a k)"
    using b(2,5) unfolding p by (simp add: read_pos_def)
  then show ?thesis
    unfolding read_window [OF ok n k fit win] p by (simp add: take_add add.commute)
qed

lemma read_pos_all:
  assumes "psdp_ok p"
  shows "read_pos p a n (seg_words p a n) = n"
proof (cases "n = 0")
  case True
  then show ?thesis using assms by (simp add: read_pos_def psdp_ok_def seg_words_empty seg_hi_def)
next
  case False
  then have "0 < n" "0 < p_seg_byte_lanes p" using assms by (simp_all add: psdp_ok_def)
  from seg_words_value [OF this(2,1)] show ?thesis by (simp add: read_pos_def seg_hi_def)
qed

lemma read_pos_le:
  assumes ok: "psdp_ok p" and k: "k < seg_words p a n"
  shows "read_pos p a n (Suc k) \<le> n"
proof (cases "n = 0")
  case True
  then show ?thesis using ok k by (auto simp: read_pos_def psdp_ok_def seg_words_empty seg_hi_def split: if_splits)
next
  case False
  then have "0 < n" "0 < p_seg_byte_lanes p" using ok by (simp_all add: psdp_ok_def)
  from seg_bounds(4) [OF this(2,1) k] show ?thesis by (simp add: read_pos_def)
qed

section \<open>Bytes from a set of memories\<close>

text \<open>Each byte of \<open>bs\<close> is the byte at its address in one of the memories \<open>B\<close>.\<close>

definition from_mems :: "byte list set \<Rightarrow> nat \<Rightarrow> byte list \<Rightarrow> bool" where
  "from_mems B a bs \<longleftrightarrow> (\<forall>j < length bs. \<exists>b\<in>B. bs ! j = b ! (a + j))"

lemma from_mems_Nil [simp]: "from_mems B a []"
  by (simp add: from_mems_def)

lemma from_mems_mono: "from_mems B a bs \<Longrightarrow> B \<subseteq> B' \<Longrightarrow> from_mems B' a bs"
  by (auto simp: from_mems_def)

text \<open>With one memory, the bytes are those of the memory.\<close>

lemma from_mems_single:
  assumes "a + length bs \<le> length b"
  shows "from_mems {b} a bs \<longleftrightarrow> bs = take (length bs) (drop a b)"
  using assms by (auto simp: from_mems_def list_eq_iff_nth_eq)

text \<open>The next word of a transfer, read from any of the memories.\<close>

lemma read_next_from:
  assumes ok: "psdp_ok p" and k: "k < seg_words p a n" and a: "a < 2 ^ p_address_width p"
    and fit: "a + n \<le> 2 ^ p_address_width p" "2 ^ p_address_width p \<le> length b"
    and win: "win = seg_window p a n (seg_words p a n) k"
    and bs: "from_mems B a bs" "length bs = read_pos p a n k" and b: "b \<in> B"
    and w: "w = op_word p b (read_op p a k)"
  shows "from_mems B a (bs @ word_bytes w [fst win..<snd win])"
    and "length (bs @ word_bytes w [fst win..<snd win]) = read_pos p a n (Suc k)"
proof -
  let ?w = "word_bytes w [fst win..<snd win]" let ?q = "read_pos p a n k" let ?q' = "read_pos p a n (Suc k)"
  have e: "take ?q (drop a b) @ ?w = take ?q' (drop a b)"
    unfolding w by (rule read_next [OF ok k a fit win])
  have q': "?q' \<le> length (drop a b)" using read_pos_le [OF ok k] fit by simp
  have "?q \<le> n" using read_pos_le [OF ok, of "k - 1" a n] k by (cases k) (simp_all add: read_pos_def)
  then have q: "?q \<le> length (drop a b)" using fit by simp
  show "length (bs @ ?w) = ?q'" using arg_cong [OF e, of length] q q' by (simp add: bs(2))
  have "?w ! j = b ! (a + (?q + j))" if j: "j < length ?w" for j
  proof -
    have "?w ! j = (take ?q (drop a b) @ ?w) ! (?q + j)" using q by (simp add: nth_append)
    also have "\<dots> = drop a b ! (?q + j)"
    proof -
      have "?q + j < ?q'" using arg_cong [OF e, of length] q q' j by simp
      then show ?thesis unfolding e by simp
    qed
    finally show ?thesis using q' fit by simp
  qed
  then show "from_mems B a (bs @ ?w)"
    using bs b by (auto simp: from_mems_def nth_append le_add_diff_inverse intro!: bexI [of _ b])
qed

end
