(* ===== verification/Psdp_Write_Link.thy ===== *)
theory Psdp_Write_Link
  imports Psdp_Write_Sys
begin

text \<open>
  The connected write side as a step relation, and its invariant. The relation carries the writes
  accepted so far, in order, and whether there has been a reset.
\<close>

section \<open>The system\<close>

record 'm wsys =
  ws_m :: mw
  ws_r :: "'m rw"

definition pause_step :: "pause_st \<Rightarrow> pause_st \<Rightarrow> bool" where
  "pause_step st st' \<longleftrightarrow> st' = run_pause st \<or> (\<exists>gen. st' = set_pause_generator gen st)"

definition ram_edge :: "'m memory_if \<Rightarrow> psdp \<Rightarrow> bool \<Rightarrow> 'm wsys \<Rightarrow> exn + 'm rw" where
  "ram_edge I p reset s =
     rw_run I p reset (mw_bus_valid (ws_m s)) (mw_bus_addr (ws_m s)) (mw_bus_data (ws_m s)) (mw_bus_be (ws_m s)) (ws_r s)"

definition master_edge :: "psdp \<Rightarrow> bool \<Rightarrow> 'm wsys \<Rightarrow> mw" where
  "master_edge p reset s = mw_run p reset (rw_bus_ready (ws_r s)) (rw_bus_done (ws_r s)) (ws_m s)"

inductive wreach :: "'m memory_if \<Rightarrow> psdp \<Rightarrow> 'm \<Rightarrow> bool \<Rightarrow> (nat \<times> byte list) list \<Rightarrow> 'm wsys \<Rightarrow> bool"
  for I p m0 where
  start: "wreach I p m0 False [] \<lparr>ws_m = mw_init p, ws_r = rw_init m0\<rparr>"
| accept: "wreach I p m0 rst ws s \<Longrightarrow> mw_write p a (Inr bs) (ws_m s) = (Inr e, m') \<Longrightarrow>
    wreach I p m0 rst (ws @ [(nat a, bs)]) (s\<lparr>ws_m := m'\<rparr>)"
| split: "wreach I p m0 rst ws s \<Longrightarrow> mw_process_write p (ws_m s) = (res, m') \<Longrightarrow>
    wreach I p m0 rst ws (s\<lparr>ws_m := m'\<rparr>)"
| respond: "wreach I p m0 rst ws s \<Longrightarrow> mw_process_resp p (ws_m s) = Some m' \<Longrightarrow>
    wreach I p m0 rst ws (s\<lparr>ws_m := m'\<rparr>)"
| edge: "wreach I p m0 rst ws s \<Longrightarrow> ram_edge I p False s = Inr r' \<Longrightarrow>
    wreach I p m0 rst ws \<lparr>ws_m = master_edge p False s, ws_r = r'\<rparr>"
| reset: "wreach I p m0 rst ws s \<Longrightarrow> ram_edge I p True s = Inr r' \<Longrightarrow>
    wreach I p m0 True ws \<lparr>ws_m = master_edge p True s, ws_r = r'\<rparr>"
| pause_m: "wreach I p m0 rst ws s \<Longrightarrow> pause_step (mw_pause (ws_m s)) st \<Longrightarrow>
    wreach I p m0 rst ws (s\<lparr>ws_m := (ws_m s)\<lparr>mw_pause := st\<rparr>\<rparr>)"
| pause_r: "wreach I p m0 rst ws s \<Longrightarrow> pause_step (rw_pause (ws_r s)) st \<Longrightarrow>
    wreach I p m0 rst ws (s\<lparr>ws_r := (ws_r s)\<lparr>rw_pause := st\<rparr>\<rparr>)"

section \<open>The invariant\<close>

text \<open>The segments of the words of a write, in order, and the operations of several writes.\<close>

definition wsegs :: "psdp \<Rightarrow> nat \<Rightarrow> nat \<Rightarrow> nat list" where
  "wsegs p a n = map (\<lambda>k. (a div p_seg_byte_lanes p + k) mod p_seg_count p) [0..<seg_words p a n]"

definition write_ops :: "psdp \<Rightarrow> (nat \<times> byte list) list \<Rightarrow> (nat \<times> seg_write) list" where
  "write_ops p ws = concat (map (\<lambda>w. fst (split_write p (fst w) (snd w))) ws)"

text \<open>The commands of write number \<open>i\<close> in the two command queues.\<close>

definition wcmd :: "(nat \<times> byte list) list \<Rightarrow> nat \<Rightarrow> write_cmd" where
  "wcmd ws i = \<lparr>wcm_address = fst (ws ! i), wcm_data = snd (ws ! i), wcm_event = i\<rparr>"

definition rcmd :: "psdp \<Rightarrow> (nat \<times> byte list) list \<Rightarrow> nat \<Rightarrow> resp_cmd" where
  "rcmd p ws i = (let a = fst (ws ! i); n = length (snd (ws ! i)) in
     \<lparr>rcm_address = a, rcm_length = n, rcm_segments = seg_words p a n,
      rcm_first_seg = first_seg p a, rcm_event = i\<rparr>)"

text \<open>How many writes have been split, and how many have completed.\<close>

definition n_split :: "(nat \<times> byte list) list \<Rightarrow> mw \<Rightarrow> nat" where
  "n_split ws m = length ws - length (mw_cmds m)"

definition n_started :: "mw \<Rightarrow> nat" where
  "n_started m = length (mw_done m) + (case mw_current_resp m of None \<Rightarrow> 0 | Some _ \<Rightarrow> 1)"

definition cmds_inv :: "psdp \<Rightarrow> (nat \<times> byte list) list \<Rightarrow> mw \<Rightarrow> bool" where
  "cmds_inv p ws m \<longleftrightarrow>
     length (mw_cmds m) \<le> length ws \<and> n_started m \<le> n_split ws m \<and>
     mw_cmds m = map (wcmd ws) [n_split ws m..<length ws] \<and>
     mw_resp_cmds m = map (rcmd p ws) [n_started m..<n_split ws m] \<and>
     mw_done m = map (\<lambda>i. (i, fst (ws ! i), length (snd (ws ! i)))) [0..<length (mw_done m)] \<and>
     (\<forall>c seg k. mw_current_resp m = Some (c, seg, k) \<longrightarrow> c = rcmd p ws (length (mw_done m)) \<and>
        k \<le> rcm_segments c \<and> seg = (rcm_address c div p_seg_byte_lanes p + k) mod p_seg_count p) \<and>
     mw_next_event m = length ws \<and>
     mw_in_flight m = int (length ws) - int (length (mw_done m)) \<and>
     (mw_idle m \<longleftrightarrow> mw_in_flight m = 0) \<and>
     length (mw_segs m) = p_seg_count p \<and> length (mw_resps m) = p_seg_count p"

text \<open>What is queued on a segment: the operation in the command registers, then the queue.\<close>

definition pending_view :: "psdp \<Rightarrow> seg_write list \<times> bool \<times> seg_write \<times> nat \<Rightarrow> seg_write list" where
  "pending_view p x = (case x of (q, v, op, t) \<Rightarrow> (if v then [op] else []) @ map (mask_op p) q)"

definition pending :: "psdp \<Rightarrow> mw \<Rightarrow> nat \<Rightarrow> seg_write list" where
  "pending p m i = pending_view p (mw_view p i m)"

text \<open>Outside reset the bus carries the registers of both sides; after a reset it is quiet.\<close>

definition bus_agree :: "'m wsys \<Rightarrow> bool" where
  "bus_agree s \<longleftrightarrow>
     (mw_bus_valid (ws_m s) = mw_cmd_valid (ws_m s) \<and> mw_bus_addr (ws_m s) = mw_cmd_addr (ws_m s) \<and>
      mw_bus_data (ws_m s) = mw_cmd_data (ws_m s) \<and> mw_bus_be (ws_m s) = mw_cmd_be (ws_m s) \<and>
      rw_bus_ready (ws_r s) = rw_cmd_ready (ws_r s)) \<or>
     (mw_bus_valid (ws_m s) = 0 \<and> rw_bus_ready (ws_r s) = 0 \<and> rw_bus_done (ws_r s) = 0)"

text \<open>\<open>ex\<close> are the operations performed so far.\<close>

definition ops_inv :: "'m memory_if \<Rightarrow> psdp \<Rightarrow> 'm \<Rightarrow> (nat \<times> byte list) list \<Rightarrow> (nat \<times> seg_write) list \<Rightarrow> 'm wsys \<Rightarrow> bool" where
  "ops_inv I p m0 ws ex s \<longleftrightarrow>
     exec_ops I p ex m0 = Inr (rw_mem (ws_r s)) \<and> mi_size I (rw_mem (ws_r s)) = mi_size I m0 \<and>
     (\<forall>x\<in>set ex. fst x < p_seg_count p) \<and>
     (\<forall>i < p_seg_count p. on_seg i ex @ pending p (ws_m s) i =
        on_seg i (mask_ops p (write_ops p (take (n_split ws (ws_m s)) ws))))"

text \<open>The segments whose responses have been taken.\<close>

definition taken :: "psdp \<Rightarrow> (nat \<times> byte list) list \<Rightarrow> mw \<Rightarrow> nat list" where
  "taken p ws m =
     concat (map (\<lambda>w. wsegs p (fst w) (length (snd w))) (take (length (mw_done m)) ws)) @
     (case mw_current_resp m of
        None \<Rightarrow> []
      | Some (c, seg, k) \<Rightarrow> take k (wsegs p (rcm_address c) (rcm_length c)))"

definition tokens :: "psdp \<Rightarrow> (nat \<times> byte list) list \<Rightarrow> 'm wsys \<Rightarrow> nat \<Rightarrow> nat" where
  "tokens p ws s i = count_list (taken p ws (ws_m s)) i + mw_resps (ws_m s) ! i +
     (if bit (rw_bus_done (ws_r s)) i then 1 else 0)"

definition tokens_inv :: "bool \<Rightarrow> psdp \<Rightarrow> (nat \<times> byte list) list \<Rightarrow> (nat \<times> seg_write) list \<Rightarrow> 'm wsys \<Rightarrow> bool" where
  "tokens_inv rst p ws ex s \<longleftrightarrow>
     (\<forall>i < p_seg_count p. tokens p ws s i \<le> length (on_seg i ex) \<and>
        (\<not> rst \<longrightarrow> tokens p ws s i = length (on_seg i ex)))"

definition writes_ok :: "psdp \<Rightarrow> (nat \<times> byte list) list \<Rightarrow> bool" where
  "writes_ok p ws \<longleftrightarrow>
     (\<forall>w\<in>set ws. fst w < 2 ^ p_address_width p \<and> fst w + length (snd w) \<le> 2 ^ p_address_width p)"

definition winv :: "'m memory_if \<Rightarrow> psdp \<Rightarrow> 'm \<Rightarrow> bool \<Rightarrow> (nat \<times> byte list) list \<Rightarrow> 'm wsys \<Rightarrow> bool" where
  "winv I p m0 rst ws s \<longleftrightarrow> writes_ok p ws \<and> cmds_inv p ws (ws_m s) \<and> bus_agree s \<and>
     (\<exists>ex. ops_inv I p m0 ws ex s \<and> tokens_inv rst p ws ex s)"

section \<open>Each step keeps it\<close>

lemma winvI:
  "writes_ok p ws \<Longrightarrow> cmds_inv p ws (ws_m s) \<Longrightarrow> bus_agree s \<Longrightarrow> ops_inv I p m0 ws ex s \<Longrightarrow>
   tokens_inv rst p ws ex s \<Longrightarrow> winv I p m0 rst ws s"
  by (auto simp: winv_def)

lemma winv_init: "winv I p m0 False [] \<lparr>ws_m = mw_init p, ws_r = rw_init m0\<rparr>"
  by (rule winvI [where ex = "[]"])
     (simp_all add: writes_ok_def cmds_inv_def mw_init_def rw_init_def n_started_def n_split_def bus_agree_def
        ops_inv_def pending_def pending_view_def mw_view_def write_ops_def mask_ops_def tokens_inv_def
        tokens_def taken_def)

subsection \<open>Accepting a write\<close>

lemma mw_write_accept:
  assumes "mw_write p a (Inr bs) m = (Inr e, m')"
  shows "0 \<le> a \<and> nat a < 2 ^ p_address_width p \<and> nat a + length bs \<le> 2 ^ p_address_width p"
    "m' = m\<lparr>mw_next_event := mw_next_event m + 1, mw_in_flight := mw_in_flight m + 1, mw_idle := False,
       mw_cmds := mw_cmds m @ [\<lparr>wcm_address = nat a, wcm_data = bs, wcm_event = mw_next_event m\<rparr>]\<rparr>"
    "e = mw_next_event m"
proof -
  have r: "0 \<le> a" "a < 2 ^ p_address_width p" "a + int (length bs) \<le> 2 ^ p_address_width p"
    using assms by (auto simp: mw_write_def split: if_splits)
  then obtain x where x: "a = int x" by (auto elim: nonneg_int_cases)
  have "int (x + length bs) \<le> int (2 ^ p_address_width p)" "int x < int (2 ^ p_address_width p)"
    using r by (simp_all add: x)
  then have "x + length bs \<le> 2 ^ p_address_width p" "x < 2 ^ p_address_width p"
    by (simp_all only: of_nat_le_iff of_nat_less_iff)
  then show "0 \<le> a \<and> nat a < 2 ^ p_address_width p \<and> nat a + length bs \<le> 2 ^ p_address_width p"
    by (simp add: x)
qed (use assms in \<open>auto simp: mw_write_def split: if_splits\<close>)

lemma winv_accept:
  assumes w: "winv I p m0 rst ws s" and a: "mw_write p a (Inr bs) (ws_m s) = (Inr e, m')"
  shows "winv I p m0 rst (ws @ [(nat a, bs)]) (s\<lparr>ws_m := m'\<rparr>)"
proof -
  let ?ws = "ws @ [(nat a, bs)]"
  note acc = mw_write_accept [OF a]
  from w obtain ex where i: "writes_ok p ws" "cmds_inv p ws (ws_m s)" "bus_agree s"
      "ops_inv I p m0 ws ex s" "tokens_inv rst p ws ex s" by (auto simp: winv_def)
  have le: "length (mw_cmds (ws_m s)) \<le> length ws" "length (mw_done (ws_m s)) \<le> length ws"
      "n_started (ws_m s) \<le> n_split ws (ws_m s)"
    using i(2) by (auto simp: cmds_inv_def n_split_def n_started_def)
  have st: "n_split ?ws m' = n_split ws (ws_m s)" "n_started m' = n_started (ws_m s)"
    using le by (simp_all add: n_split_def n_started_def acc(2))
  have nth: "?ws ! j = ws ! j" if "j < length ws" for j using that by (simp add: nth_append)
  have n: "n_split ws (ws_m s) \<le> length ws" by (simp add: n_split_def)
  have c: "cmds_inv p ?ws m'"
  proof -
    have "map (wcmd ?ws) [n_split ws (ws_m s)..<length ws] = map (wcmd ws) [n_split ws (ws_m s)..<length ws]"
      by (auto simp: wcmd_def nth)
    moreover have "map (rcmd p ?ws) [n_started (ws_m s)..<n_split ws (ws_m s)] =
        map (rcmd p ws) [n_started (ws_m s)..<n_split ws (ws_m s)]"
      using n by (auto simp: rcmd_def nth)
    moreover have "map (\<lambda>i. (i, fst (?ws ! i), length (snd (?ws ! i)))) [0..<length (mw_done (ws_m s))] =
        map (\<lambda>i. (i, fst (ws ! i), length (snd (ws ! i)))) [0..<length (mw_done (ws_m s))]"
      using le by (auto simp: nth)
    moreover have "rcmd p ?ws (length (mw_done (ws_m s))) = rcmd p ws (length (mw_done (ws_m s)))"
      if "mw_current_resp (ws_m s) = Some y" for y
      using le(3) n that by (auto simp: rcmd_def nth n_started_def)
    ultimately show ?thesis
      using i(2) n le(2) unfolding cmds_inv_def st by (auto simp: acc(2) wcmd_def upt_conv_Cons)
  qed
  have tk: "taken p ?ws m' = taken p ws (ws_m s)" using le by (simp add: taken_def acc(2))
  have pd: "pending p m' j = pending p (ws_m s) j" for j by (simp add: pending_def mw_view_def acc(2))
  show ?thesis
  proof (rule winvI)
    show "writes_ok p ?ws" using i(1) acc(1) by (auto simp: writes_ok_def)
    show "cmds_inv p ?ws (ws_m (s\<lparr>ws_m := m'\<rparr>))" using c by simp
    show "bus_agree (s\<lparr>ws_m := m'\<rparr>)" using i(3) by (simp add: bus_agree_def acc(2))
    show "ops_inv I p m0 ?ws ex (s\<lparr>ws_m := m'\<rparr>)"
      using i(4) n by (simp add: ops_inv_def st pd)
    show "tokens_inv rst p ?ws ex (s\<lparr>ws_m := m'\<rparr>)"
    proof -
      have "tokens p ?ws (s\<lparr>ws_m := m'\<rparr>) j = tokens p ws s j" for j
        by (simp add: tokens_def tk) (simp add: acc(2))
      with i(5) show ?thesis by (simp add: tokens_inv_def)
    qed
  qed
qed

subsection \<open>Splitting a write\<close>

lemma split_loop_segs:
  "snd (split_loop p a data segments ks offset seg) = None \<Longrightarrow> seg < p_seg_count p \<Longrightarrow>
   map fst (fst (split_loop p a data segments ks offset seg)) = map (\<lambda>j. (seg + j) mod p_seg_count p) [0..<length ks]"
proof (induction ks arbitrary: offset seg)
  case (Cons k ks)
  have "(Suc seg mod p_seg_count p + j) mod p_seg_count p = (seg + Suc j) mod p_seg_count p" for j
    by (simp add: mod_add_left_eq)
  with Cons.IH [of _ "Suc seg mod p_seg_count p"] Cons.prems show ?case
    by (auto simp: Let_def upt_conv_Cons map_Suc_upt [symmetric] simp del: upt_Suc split: sum.splits prod.splits)
qed simp

text \<open>Splitting an accepted write raises nothing.\<close>

lemma split_write_segs:
  assumes ok: "psdp_ok p" and fit: "a < 2 ^ p_address_width p" "a + length d \<le> 2 ^ p_address_width p"
  shows "snd (split_write p a d) = None" and "map fst (fst (split_write p a d)) = wsegs p a (length d)"
proof -
  have "2 ^ p_address_width p \<le> mi_size list_memory (replicate (2 ^ p_address_width p) 0)"
    by (simp add: list_memory_def)
  from split_write_ok [OF list_memory_ok ok fit this] show n: "snd (split_write p a d) = None" by auto
  have "(a div p_seg_byte_lanes p mod p_seg_count p + j) mod p_seg_count p =
      (a div p_seg_byte_lanes p + j) mod p_seg_count p" for j by (simp add: mod_add_left_eq)
  then show "map fst (fst (split_write p a d)) = wsegs p a (length d)"
    using split_loop_segs [of p a d "seg_words p a (length d)" "[0..<seg_words p a (length d)]" 0 "first_seg p a"] n ok
    by (simp add: split_write_def Let_def wsegs_def first_seg_def psdp_ok_def)
qed

lemma wsegs_range: "psdp_ok p \<Longrightarrow> i \<in> set (wsegs p a n) \<Longrightarrow> i < p_seg_count p"
  by (auto simp: wsegs_def psdp_ok_def)

lemma winv_split:
  assumes ok: "psdp_ok p" and w: "winv I p m0 rst ws s" and a: "mw_process_write p (ws_m s) = (res, m')"
  shows "winv I p m0 rst ws (s\<lparr>ws_m := m'\<rparr>) \<and> (\<exists>b. res = Inr b)"
proof (cases "mw_cmds (ws_m s)")
  case Nil
  with a w show ?thesis by (auto simp: mw_process_write_def)
next
  case (Cons c cs)
  let ?m = "ws_m s" let ?n = "n_split ws (ws_m s)"
  from w obtain ex where i: "writes_ok p ws" "cmds_inv p ws ?m" "bus_agree s"
      "ops_inv I p m0 ws ex s" "tokens_inv rst p ws ex s" by (auto simp: winv_def)
  have le: "length (mw_cmds ?m) \<le> length ws" "length (mw_done ?m) \<le> length ws" "n_started ?m \<le> ?n"
    using i(2) by (auto simp: cmds_inv_def n_split_def n_started_def)
  have n: "?n < length ws" "length (mw_cmds ?m) = length ws - ?n" using le Cons by (auto simp: n_split_def)
  have "c # cs = map (wcmd ws) [?n..<length ws]" using i(2) Cons by (simp add: cmds_inv_def)
  then have c: "c = wcmd ws ?n" and cs: "cs = map (wcmd ws) [Suc ?n..<length ws]"
    using n(1) by (simp_all add: upt_conv_Cons)
  let ?a = "fst (ws ! ?n)" let ?d = "snd (ws ! ?n)" let ?ops = "fst (split_write p ?a ?d)"
  have "ws ! ?n \<in> set ws" using n(1) by simp
  then have fit: "?a < 2 ^ p_address_width p" "?a + length ?d \<le> 2 ^ p_address_width p"
    using i(1) by (auto simp: writes_ok_def)
  note sw = split_write_segs [OF ok fit]
  have m': "m' = ?m\<lparr>mw_cmds := cs, mw_resp_cmds := mw_resp_cmds ?m @ [rcmd p ws ?n],
      mw_segs := foldl enqueue (mw_segs ?m) ?ops\<rparr>" and res: "res = Inr True"
    using a sw(1) unfolding mw_process_write_def Cons c wcmd_def rcmd_def Let_def by simp_all
  have st: "n_split ws m' = Suc ?n" "n_started m' = n_started ?m"
  proof -
    have "length (mw_cmds m') = length ws - Suc ?n" by (simp add: m' cs)
    then show "n_split ws m' = Suc ?n" using n(1) unfolding n_split_def [of ws m'] by simp
  qed (simp add: n_started_def m')
  have len: "length (mw_segs ?m) = p_seg_count p" using i(2) by (simp add: cmds_inv_def)
  note q = enqueue_all [of "mw_segs ?m" ?ops, unfolded len]
  have pd: "pending p m' j = pending p ?m j @ on_seg j (mask_ops p ?ops)" if "j < p_seg_count p" for j
    using q that by (simp add: pending_def pending_view_def mw_view_def m' on_seg_mask) (simp add: on_seg_def)
  have tk: "taken p ws m' = taken p ws ?m" by (simp add: taken_def m')
  have wo: "write_ops p (take (Suc ?n) ws) = write_ops p (take ?n ws) @ ?ops"
    using n(1) by (simp add: take_Suc_conv_app_nth write_ops_def)
  have "winv I p m0 rst ws (s\<lparr>ws_m := m'\<rparr>)"
  proof (rule winvI)
    show "writes_ok p ws" using i(1) .
    show "cmds_inv p ws (ws_m (s\<lparr>ws_m := m'\<rparr>))"
    proof -
      have "cmds_inv p ws m'"
        using i(2) n(1) le(3) q unfolding cmds_inv_def st by (auto simp: m' cs len)
      then show ?thesis by simp
    qed
    show "bus_agree (s\<lparr>ws_m := m'\<rparr>)" using i(3) by (simp add: bus_agree_def m')
    show "ops_inv I p m0 ws ex (s\<lparr>ws_m := m'\<rparr>)"
      using i(4) by (auto simp: ops_inv_def st pd wo mask_ops_def simp flip: append_assoc)
        
    show "tokens_inv rst p ws ex (s\<lparr>ws_m := m'\<rparr>)"
    proof -
      have "tokens p ws (s\<lparr>ws_m := m'\<rparr>) j = tokens p ws s j" for j
        by (simp add: tokens_def tk) (simp add: m')
      with i(5) show ?thesis by (simp add: tokens_inv_def)
    qed
  qed
  with res show ?thesis by blast
qed

subsection \<open>Collecting responses\<close>

text \<open>A step of the response coroutine changes neither the queues nor the bus.\<close>

lemma winv_respond_frame:
  assumes w: "winv I p m0 rst ws s" and c: "cmds_inv p ws m'"
    and fr: "mw_cmds m' = mw_cmds (ws_m s)" "mw_segs m' = mw_segs (ws_m s)"
      "mw_cmd_valid m' = mw_cmd_valid (ws_m s)" "mw_cmd_addr m' = mw_cmd_addr (ws_m s)"
      "mw_cmd_data m' = mw_cmd_data (ws_m s)" "mw_cmd_be m' = mw_cmd_be (ws_m s)"
      "mw_bus_valid m' = mw_bus_valid (ws_m s)" "mw_bus_addr m' = mw_bus_addr (ws_m s)"
      "mw_bus_data m' = mw_bus_data (ws_m s)" "mw_bus_be m' = mw_bus_be (ws_m s)"
    and t: "\<And>i. i < p_seg_count p \<Longrightarrow>
      count_list (taken p ws m') i + mw_resps m' ! i = count_list (taken p ws (ws_m s)) i + mw_resps (ws_m s) ! i"
  shows "winv I p m0 rst ws (s\<lparr>ws_m := m'\<rparr>)"
proof -
  from w obtain ex where i: "writes_ok p ws" "bus_agree s" "ops_inv I p m0 ws ex s" "tokens_inv rst p ws ex s"
    by (auto simp: winv_def)
  show ?thesis
  proof (rule winvI)
    show "writes_ok p ws" using i(1) .
    show "cmds_inv p ws (ws_m (s\<lparr>ws_m := m'\<rparr>))" using c by simp
    show "bus_agree (s\<lparr>ws_m := m'\<rparr>)" using i(2) by (simp add: bus_agree_def fr)
    show "ops_inv I p m0 ws ex (s\<lparr>ws_m := m'\<rparr>)"
      using i(3) by (simp add: ops_inv_def n_split_def pending_def pending_view_def mw_view_def fr)
    show "tokens_inv rst p ws ex (s\<lparr>ws_m := m'\<rparr>)"
      using i(4) t by (simp add: tokens_inv_def tokens_def)
  qed
qed

lemma length_wsegs [simp]: "length (wsegs p a n) = seg_words p a n"
  by (simp add: wsegs_def)

lemma winv_respond:
  assumes ok: "psdp_ok p" and w: "winv I p m0 rst ws s" and a: "mw_process_resp p (ws_m s) = Some m'"
  shows "winv I p m0 rst ws (s\<lparr>ws_m := m'\<rparr>)"
proof (cases "mw_current_resp (ws_m s)")
  case None
  let ?m = "ws_m s"
  from w have c: "cmds_inv p ws ?m" by (auto simp: winv_def)
  from a None obtain d ds where d: "mw_resp_cmds ?m = d # ds"
      and m': "m' = ?m\<lparr>mw_resp_cmds := ds, mw_current_resp := Some (d, rcm_first_seg d, 0)\<rparr>"
    by (auto simp: mw_process_resp_def split: list.splits)
  have lt: "n_started ?m < n_split ws ?m" using c d by (cases "n_started ?m < n_split ws ?m") (auto simp: cmds_inv_def)
  have "d # ds = map (rcmd p ws) [n_started ?m..<n_split ws ?m]" using c d by (simp add: cmds_inv_def)
  then have ds: "d = rcmd p ws (n_started ?m)" "ds = map (rcmd p ws) [Suc (n_started ?m)..<n_split ws ?m]"
    using lt by (simp_all add: upt_conv_Cons)
  have st: "n_started m' = Suc (n_started ?m)" "n_split ws m' = n_split ws ?m" "n_started ?m = length (mw_done ?m)"
    using None by (simp_all add: n_started_def n_split_def m')
  have "cmds_inv p ws m'"
    using c lt unfolding cmds_inv_def st(1,2)
    by (simp add: m' ds st(3) None rcmd_def Let_def first_seg_def)
  then show ?thesis
    by (rule winv_respond_frame [OF w]) (simp_all add: m' taken_def None)
next
  case (Some x)
  obtain d seg k where x: "x = (d, seg, k)" by (cases x)
  let ?m = "ws_m s" let ?nd = "length (mw_done (ws_m s))"
  from w have c: "cmds_inv p ws ?m" by (auto simp: winv_def)
  have d: "d = rcmd p ws ?nd" "k \<le> rcm_segments d" "seg = (rcm_address d div p_seg_byte_lanes p + k) mod p_seg_count p"
    using c Some x by (auto simp: cmds_inv_def)
  have sg: "rcm_segments d = seg_words p (rcm_address d) (rcm_length d)" by (simp add: d(1) rcmd_def Let_def)
  have cnt: "0 < p_seg_count p" using ok by (simp add: psdp_ok_def)
  have lens: "length (mw_resps ?m) = p_seg_count p" using c by (simp add: cmds_inv_def)
  show ?thesis
  proof (cases "k < rcm_segments d")
    case True
    with a Some x have r: "mw_resps ?m ! seg \<noteq> 0" and m': "m' = ?m\<lparr>mw_resps := (mw_resps ?m)[seg := mw_resps ?m ! seg - 1],
        mw_current_resp := Some (d, (seg + 1) mod p_seg_count p, k + 1)\<rparr>"
      by (auto simp: mw_process_resp_def split: if_splits)
    have st: "n_started m' = n_started ?m" "n_split ws m' = n_split ws ?m"
      using Some by (simp_all add: n_started_def n_split_def m')
    have "cmds_inv p ws m'"
      using c True d Some x unfolding cmds_inv_def st by (simp add: m' mod_Suc_eq)
    moreover have "take (k + 1) (wsegs p (rcm_address d) (rcm_length d)) = take k (wsegs p (rcm_address d) (rcm_length d)) @ [seg]"
      using True by (simp add: take_Suc_conv_app_nth sg d(3)) (simp add: wsegs_def)
    ultimately show ?thesis
      using r cnt by (intro winv_respond_frame [OF w]) (auto simp: m' taken_def Some x nth_list_update lens d(3))
  next
    case False
    with d(2) have k: "k = rcm_segments d" by simp
    from a Some x False have m': "m' = ?m\<lparr>mw_done := mw_done ?m @ [(rcm_event d, rcm_address d, rcm_length d)],
        mw_current_resp := None, mw_in_flight := mw_in_flight ?m - 1,
        mw_idle := (if mw_in_flight ?m - 1 = 0 then True else mw_idle ?m)\<rparr>"
      by (simp add: mw_process_resp_def)
    have st: "n_started m' = n_started ?m" "n_split ws m' = n_split ws ?m" "n_started ?m = Suc ?nd"
      using Some by (simp_all add: n_started_def n_split_def m')
    have nd: "?nd < length ws" using c st(3) by (auto simp: cmds_inv_def n_split_def)
    have dn: "mw_done ?m @ [(?nd, fst (ws ! ?nd), length (snd (ws ! ?nd)))] =
        map (\<lambda>i. (i, fst (ws ! i), length (snd (ws ! i)))) [0..<Suc ?nd]"
      using c by (simp add: cmds_inv_def)
    have "cmds_inv p ws m'"
      using c nd dn unfolding cmds_inv_def st(1,2) by (auto simp: m' d(1) rcmd_def Let_def)
    moreover have "taken p ws m' = taken p ws ?m"
      using nd k by (simp add: taken_def m' Some x take_Suc_conv_app_nth sg) (simp add: d(1) rcmd_def Let_def)
    ultimately show ?thesis
      by (intro winv_respond_frame [OF w]) (auto simp: m')
  qed
qed

subsection \<open>Clock edges\<close>

text \<open>
  At an edge the master gives up exactly the operations the RAM performs.
\<close>

lemma on_seg_bus_ops:
  "on_seg i (bus_ops p ready valid addr data be [0..<n]) =
     (if i < n \<and> bit ready i \<and> bit valid i then [cur_op p addr data be i] else [])"
  by (simp add: on_seg_def bus_ops_filter)

lemma master_edge_pending:
  assumes l: "length (mw_segs (ws_m s)) = p_seg_count p" "length (mw_resps (ws_m s)) = p_seg_count p"
    and b: "bus_agree s" and i: "i < p_seg_count p"
  shows "pending p (ws_m s) i =
      on_seg i (bus_ops p (rw_cmd_ready (ws_r s)) (mw_bus_valid (ws_m s)) (mw_bus_addr (ws_m s))
        (mw_bus_data (ws_m s)) (mw_bus_be (ws_m s)) [0..<p_seg_count p]) @
      pending p (master_edge p False s) i"
proof -
  note v = mw_run_views(2) [OF l i, of "rw_bus_ready (ws_r s)" "rw_bus_done (ws_r s)"]
  obtain q v op t where x: "mw_view p i (ws_m s) = (q, v, op, t)" by (metis prod_cases4)
  then have xv: "v = bit (mw_cmd_valid (ws_m s)) i"
    "op = cur_op p (mw_cmd_addr (ws_m s)) (mw_cmd_data (ws_m s)) (mw_cmd_be (ws_m s)) i"
    by (auto simp: mw_view_def)
  have cons: "q \<noteq> [] \<Longrightarrow> mask_op p (hd q) # map (mask_op p) (tl q) = map (mask_op p) q" by (cases q) auto
  from b consider
      (same) "mw_bus_valid (ws_m s) = mw_cmd_valid (ws_m s)" "mw_bus_addr (ws_m s) = mw_cmd_addr (ws_m s)"
        "mw_bus_data (ws_m s) = mw_cmd_data (ws_m s)" "mw_bus_be (ws_m s) = mw_cmd_be (ws_m s)"
        "rw_bus_ready (ws_r s) = rw_cmd_ready (ws_r s)"
    | (quiet) "mw_bus_valid (ws_m s) = 0" "rw_bus_ready (ws_r s) = 0"
    unfolding bus_agree_def by blast
  then show ?thesis
  proof cases
    case same
    with i xv cons show ?thesis
      unfolding pending_def master_edge_def v
      by (simp add: x on_seg_bus_ops mw_view_step_def pending_view_def Let_def)
  next
    case quiet
    with i xv cons show ?thesis
      unfolding pending_def master_edge_def v
      by (simp add: x on_seg_bus_ops mw_view_step_def pending_view_def Let_def)
  qed
qed

lemma cmds_inv_frame:
  assumes "mw_frame m m'" "cmds_inv p ws m"
  shows "cmds_inv p ws m'" "n_split ws m' = n_split ws m" "taken p ws m' = taken p ws m"
  using assms by (simp_all add: mw_frame_def cmds_inv_def n_split_def n_started_def taken_def)

text \<open>Outside reset the edge of the RAM raises nothing.\<close>

lemma winv_edge:
  assumes mem: "memory_ok I" and ok: "psdp_ok p" and sz: "2 ^ p_address_width p \<le> mi_size I m0"
    and w: "winv I p m0 rst ws s"
  obtains r' where "ram_edge I p False s = Inr r'" "rw_pause r' = rw_pause (ws_r s)"
    "rw_cmd_ready r' = (if ps_pause (rw_pause (ws_r s)) then 0 else 2 ^ p_seg_count p - 1)"
    "rw_bus_ready r' = rw_cmd_ready r'"
    "winv I p m0 rst ws \<lparr>ws_m = master_edge p False s, ws_r = r'\<rparr>"
proof -
  from w obtain ex where i: "writes_ok p ws" "cmds_inv p ws (ws_m s)" "bus_agree s"
      "ops_inv I p m0 ws ex s" "tokens_inv rst p ws ex s" by (auto simp: winv_def)
  let ?m = "ws_m s" let ?r = "ws_r s"
  let ?ops = "bus_ops p (rw_cmd_ready ?r) (mw_bus_valid ?m) (mw_bus_addr ?m) (mw_bus_data ?m) (mw_bus_be ?m) [0..<p_seg_count p]"
  have l: "length (mw_segs ?m) = p_seg_count p" "length (mw_resps ?m) = p_seg_count p"
    using i(2) by (simp_all add: cmds_inv_def)
  have "2 ^ p_address_width p \<le> mi_size I (rw_mem ?r)" using i(4) sz by (simp add: ops_inv_def)
  from rw_run_run [OF mem ok this refl] obtain r' where r':
      "ram_edge I p False s = Inr r'" "exec_ops I p ?ops (rw_mem ?r) = Inr (rw_mem r')"
      "mi_size I (rw_mem r') = mi_size I (rw_mem ?r)" "rw_pause r' = rw_pause ?r" "rw_bus_ready r' = rw_cmd_ready r'"
      "rw_cmd_ready r' = (if ps_pause (rw_pause ?r) then 0 else 2 ^ p_seg_count p - 1)"
      "\<And>j. j < p_seg_count p \<Longrightarrow> bit (rw_bus_done r') j \<longleftrightarrow> bit (rw_cmd_ready ?r) j \<and> bit (mw_bus_valid ?m) j"
    unfolding ram_edge_def by metis
  let ?s = "\<lparr>ws_m = master_edge p False s, ws_r = r'\<rparr>"
  have fr: "mw_frame ?m (master_edge p False s)"
    unfolding master_edge_def by (rule mw_run_views(1) [OF l])
  note ci = cmds_inv_frame [OF fr i(2)]
  have "winv I p m0 rst ws ?s"
  proof (rule winvI)
    show "writes_ok p ws" using i(1) .
    show "cmds_inv p ws (ws_m ?s)" using ci(1) by simp
    show "bus_agree ?s"
      using r'(5) by (simp add: bus_agree_def master_edge_def mw_run_bus)
    show "ops_inv I p m0 ws (ex @ ?ops) ?s"
      using i(4) r'(2,3) master_edge_pending [OF l i(3)]
      by (auto simp: ops_inv_def exec_ops_append ci(2) bus_ops_def)
    show "tokens_inv rst p ws (ex @ ?ops) ?s"
    proof -
      have "tokens p ws ?s j = tokens p ws s j + length (on_seg j ?ops)" if "j < p_seg_count p" for j
      proof -
        obtain q v op t where x: "mw_view p j ?m = (q, v, op, t)" by (metis prod_cases4)
        have "mw_resps (master_edge p False s) ! j = mw_resps ?m ! j + (if bit (rw_bus_done ?r) j then 1 else 0)"
          using mw_run_views(2) [OF l that, of "rw_bus_ready ?r" "rw_bus_done ?r"] x
          by (auto simp: master_edge_def mw_view_def mw_view_step_def Let_def split: if_splits)
        then show ?thesis using that r'(7) by (simp add: tokens_def ci(3) on_seg_bus_ops)
      qed
      with i(5) show ?thesis by (simp add: tokens_inv_def)
    qed
  qed
  with r' that show thesis by blast
qed

lemma winv_reset:
  assumes w: "winv I p m0 rst ws s" and r: "ram_edge I p True s = Inr r'"
  shows "winv I p m0 True ws \<lparr>ws_m = master_edge p True s, ws_r = r'\<rparr>"
proof -
  from w obtain ex where i: "writes_ok p ws" "cmds_inv p ws (ws_m s)" "bus_agree s"
      "ops_inv I p m0 ws ex s" "tokens_inv rst p ws ex s" by (auto simp: winv_def)
  let ?s = "\<lparr>ws_m = master_edge p True s, ws_r = r'\<rparr>"
  have m': "master_edge p True s = (ws_m s)\<lparr>mw_bus_valid := 0\<rparr>"
    and r': "r' = (ws_r s)\<lparr>rw_bus_ready := 0, rw_bus_done := 0\<rparr>"
    using r by (auto simp: master_edge_def mw_run_def ram_edge_def rw_run_def)
  have fr: "mw_frame (ws_m s) (master_edge p True s)" by (simp add: mw_frame_def m')
  note ci = cmds_inv_frame [OF fr i(2)]
  show ?thesis
  proof (rule winvI)
    show "ops_inv I p m0 ws ex ?s"
      using i(4) unfolding ops_inv_def wsys.select_convs ci(2)
      by (simp add: m' r' pending_def pending_view_def mw_view_def)
    have "tokens p ws ?s j \<le> tokens p ws s j" for j unfolding tokens_def wsys.select_convs ci(3) by (simp add: m' r')
    then show "tokens_inv True p ws ex ?s"
      using i(5) by (auto simp: tokens_inv_def intro: le_trans)
  qed (use i ci in \<open>simp_all add: bus_agree_def m' r'\<close>)
qed

lemma winv_pause:
  assumes w: "winv I p m0 rst ws s"
  shows "winv I p m0 rst ws (s\<lparr>ws_m := (ws_m s)\<lparr>mw_pause := st\<rparr>\<rparr>)"
    and "winv I p m0 rst ws (s\<lparr>ws_r := (ws_r s)\<lparr>rw_pause := st\<rparr>\<rparr>)"
  using w by (auto simp: winv_def cmds_inv_def n_started_def n_split_def bus_agree_def ops_inv_def
      pending_def mw_view_def tokens_inv_def tokens_def taken_def)

theorem wreach_winv:
  assumes mem: "memory_ok I" and ok: "psdp_ok p" and sz: "2 ^ p_address_width p \<le> mi_size I m0"
    and r: "wreach I p m0 rst ws s"
  shows "winv I p m0 rst ws s"
  using r
proof induction
  case (edge rst ws s r')
  from winv_edge [OF mem ok sz edge.IH] edge.hyps(2) show ?case by auto
next
  case (accept rst ws s a bs e m')
  from winv_accept [OF accept.IH accept.hyps(2)] show ?case .
next
  case (split rst ws s res m')
  from winv_split [OF ok split.IH split.hyps(2)] show ?case ..
next
  case (respond rst ws s m')
  from winv_respond [OF ok respond.IH respond.hyps(2)] show ?case .
next
  case (reset rst ws s r')
  from winv_reset [OF reset.IH reset.hyps(2)] show ?case .
next
  case (pause_m rst ws s st)
  from winv_pause(1) [OF pause_m.IH] show ?case .
next
  case (pause_r rst ws s st)
  from winv_pause(2) [OF pause_r.IH] show ?case .
qed (rule winv_init)

end
