(* ===== verification/Psdp_Read_Reach.thy ===== *)
theory Psdp_Read_Reach
  imports Psdp_Read_Link Psdp_Write_Link
begin

text \<open>
  The connected read side as a step relation, its invariant, and what it gives: a completed read
  returns the bytes of the memory, and without pauses every read completes. The invariant takes,
  for every read, the memories that it may have met, so that it also holds when something else
  changes the memory; \<open>rreach\<close>, in which nothing does, has a single one.
\<close>

section \<open>The system\<close>

record 'm rsys =
  rs_m :: mr
  rs_r :: "'m rr"

definition rram_edge :: "'m memory_if \<Rightarrow> psdp \<Rightarrow> 'm rsys \<Rightarrow> exn + 'm rr" where
  "rram_edge I p s = rr_run I p False (mr_bus_valid (rs_m s)) (mr_bus_addr (rs_m s)) (mr_bus_ready (rs_m s)) (rs_r s)"

definition rmaster_edge :: "psdp \<Rightarrow> 'm rsys \<Rightarrow> mr" where
  "rmaster_edge p s =
     mr_run p False (rr_bus_ready (rs_r s)) (rr_bus_valid (rs_r s)) (rr_bus_data (rs_r s)) (rs_m s)"

text \<open>The relation carries the reads accepted so far: address and length.\<close>

inductive rreach :: "'m memory_if \<Rightarrow> psdp \<Rightarrow> 'm \<Rightarrow> (nat \<times> nat) list \<Rightarrow> 'm rsys \<Rightarrow> bool"
  for I p m0 where
  start: "rreach I p m0 [] \<lparr>rs_m = mr_init p, rs_r = rr_init p m0\<rparr>"
| accept: "rreach I p m0 rs s \<Longrightarrow> mr_read p a n (rs_m s) = (Inr e, m') \<Longrightarrow>
    rreach I p m0 (rs @ [(nat a, nat n)]) (s\<lparr>rs_m := m'\<rparr>)"
| split: "rreach I p m0 rs s \<Longrightarrow> mr_process_read p (rs_m s) = (b, m') \<Longrightarrow> rreach I p m0 rs (s\<lparr>rs_m := m'\<rparr>)"
| respond: "rreach I p m0 rs s \<Longrightarrow> mr_process_resp p (rs_m s) = Some m' \<Longrightarrow> rreach I p m0 rs (s\<lparr>rs_m := m'\<rparr>)"
| edge: "rreach I p m0 rs s \<Longrightarrow> rram_edge I p s = Inr r' \<Longrightarrow>
    rreach I p m0 rs \<lparr>rs_m = rmaster_edge p s, rs_r = r'\<rparr>"
| pause_m: "rreach I p m0 rs s \<Longrightarrow> pause_step (mr_pause (rs_m s)) st \<Longrightarrow>
    rreach I p m0 rs (s\<lparr>rs_m := (rs_m s)\<lparr>mr_pause := st\<rparr>\<rparr>)"
| pause_r: "rreach I p m0 rs s \<Longrightarrow> pause_step (rr_pause (rs_r s)) st \<Longrightarrow>
    rreach I p m0 rs (s\<lparr>rs_r := (rs_r s)\<lparr>rr_pause := st\<rparr>\<rparr>)"

section \<open>The invariant\<close>

definition read_ops :: "psdp \<Rightarrow> (nat \<times> nat) list \<Rightarrow> (nat \<times> seg_read) list" where
  "read_ops p rs = concat (map (\<lambda>r. split_read p (fst r) (snd r)) rs)"

definition r_cmd :: "(nat \<times> nat) list \<Rightarrow> nat \<Rightarrow> read_cmd" where
  "r_cmd rs i = \<lparr>rdc_address = fst (rs ! i), rdc_length = snd (rs ! i), rdc_event = i\<rparr>"

definition r_rcmd :: "psdp \<Rightarrow> (nat \<times> nat) list \<Rightarrow> nat \<Rightarrow> resp_cmd" where
  "r_rcmd p rs i = (let a = fst (rs ! i); n = snd (rs ! i) in
     \<lparr>rcm_address = a, rcm_length = n, rcm_segments = seg_words p a n,
      rcm_first_seg = first_seg p a, rcm_event = i\<rparr>)"

definition r_split :: "(nat \<times> nat) list \<Rightarrow> mr \<Rightarrow> nat" where
  "r_split rs m = length rs - length (mr_cmds m)"

definition r_started :: "mr \<Rightarrow> nat" where
  "r_started m = length (mr_done m) + (case mr_current_resp m of None \<Rightarrow> 0 | Some _ \<Rightarrow> 1)"

definition reads_ok :: "psdp \<Rightarrow> (nat \<times> nat) list \<Rightarrow> bool" where
  "reads_ok p rs \<longleftrightarrow> (\<forall>r\<in>set rs. fst r < 2 ^ p_address_width p \<and> fst r + snd r \<le> 2 ^ p_address_width p)"

text \<open>\<open>G i\<close> are the memories that read \<open>i\<close> may have met.\<close>

definition rcmds_inv :: "psdp \<Rightarrow> (nat \<Rightarrow> byte list set) \<Rightarrow> (nat \<times> nat) list \<Rightarrow> mr \<Rightarrow> bool" where
  "rcmds_inv p G rs m \<longleftrightarrow>
     length (mr_cmds m) \<le> length rs \<and> r_started m \<le> r_split rs m \<and>
     mr_cmds m = map (r_cmd rs) [r_split rs m..<length rs] \<and>
     mr_resp_cmds m = map (r_rcmd p rs) [r_started m..<r_split rs m] \<and>
     (\<forall>i < length (mr_done m). \<exists>bs. mr_done m ! i = (i, fst (rs ! i), bs) \<and> length bs = snd (rs ! i) \<and>
        from_mems (G i) (fst (rs ! i)) bs) \<and>
     (\<forall>c seg k bs. mr_current_resp m = Some (c, seg, k, bs) \<longrightarrow> c = r_rcmd p rs (length (mr_done m)) \<and>
        k \<le> rcm_segments c \<and> seg = (rcm_address c div p_seg_byte_lanes p + k) mod p_seg_count p \<and>
        length bs = read_pos p (rcm_address c) (rcm_length c) k \<and>
        from_mems (G (length (mr_done m))) (rcm_address c) bs) \<and>
     mr_next_event m = length rs \<and>
     mr_in_flight m = int (length rs) - int (length (mr_done m)) \<and>
     (mr_idle m \<longleftrightarrow> mr_in_flight m = 0) \<and>
     length (mr_segs m) = p_seg_count p \<and> length (mr_resps m) = p_seg_count p"

definition rbus_agree :: "'m rsys \<Rightarrow> bool" where
  "rbus_agree s \<longleftrightarrow>
     mr_bus_valid (rs_m s) = mr_cmd_valid (rs_m s) \<and> mr_bus_addr (rs_m s) = mr_cmd_addr (rs_m s) \<and>
     mr_bus_ready (rs_m s) = mr_resp_ready (rs_m s) \<and>
     rr_bus_ready (rs_r s) = rr_cmd_ready (rs_r s) \<and> rr_bus_valid (rs_r s) = rr_resp_valid (rs_r s) \<and>
     rr_bus_data (rs_r s) = rr_resp_data (rs_r s)"

text \<open>
  What is between a segment's queue and its answers, in order: the words in the output register
  and the pipeline, and the commands in the command register and the queue.
\<close>

definition words_view :: "int option \<times> bool \<times> bool \<times> int \<Rightarrow> int list" where
  "words_view x = (case x of (pipe, cr, rv, d) \<Rightarrow> (if rv then [d] else []) @ (case pipe of Some v \<Rightarrow> [v] | None \<Rightarrow> []))"

definition asks_view :: "psdp \<Rightarrow> seg_read list \<times> bool \<times> int \<times> int list \<Rightarrow> int list" where
  "asks_view p x = (case x of (q, v, a, ws) \<Rightarrow> (if v then [a] else []) @ map (\<lambda>o'. sr_addr o' AND seg_addr_mask p) q)"

definition stream :: "psdp \<Rightarrow> 'm rsys \<Rightarrow> nat \<Rightarrow> (int + int) list" where
  "stream p s i = map Inl (mr_resps (rs_m s) ! i @ words_view (rr_view p i (rs_r s))) @
     map Inr (asks_view p (mr_view p i (rs_m s)))"

text \<open>How many words have been taken from the answers.\<close>

definition n_taken :: "psdp \<Rightarrow> (nat \<times> nat) list \<Rightarrow> mr \<Rightarrow> nat" where
  "n_taken p rs m = length (read_ops p (take (length (mr_done m)) rs)) +
     (case mr_current_resp m of None \<Rightarrow> 0 | Some (c, seg, k, bs) \<Rightarrow> k)"

text \<open>
  The operations of the first \<open>n\<close> reads, each with the number of its read; and when a word (\<open>Inl\<close>)
  or an address (\<open>Inr\<close>) in a segment is that of an operation.
\<close>

definition tagged_ops :: "psdp \<Rightarrow> (nat \<times> nat) list \<Rightarrow> nat \<Rightarrow> (nat \<times> nat \<times> seg_read) list" where
  "tagged_ops p rs n = concat (map (\<lambda>r. map (\<lambda>x. (fst x, r, snd x)) (split_read p (fst (rs ! r)) (snd (rs ! r)))) [0..<n])"

definition item_ok :: "psdp \<Rightarrow> (nat \<Rightarrow> byte list set) \<Rightarrow> nat \<Rightarrow> int + int \<Rightarrow> nat \<times> seg_read \<Rightarrow> bool" where
  "item_ok p G i x t =
     (case x of
        Inl w \<Rightarrow> \<exists>b\<in>G (fst t). w = op_word p b (i, snd t)
      | Inr a \<Rightarrow> a = sr_addr (snd t) AND seg_addr_mask p)"

definition stream_inv :: "psdp \<Rightarrow> (nat \<Rightarrow> byte list set) \<Rightarrow> (nat \<times> nat) list \<Rightarrow> 'm rsys \<Rightarrow> bool" where
  "stream_inv p G rs s \<longleftrightarrow> (\<forall>i < p_seg_count p.
     list_all2 (item_ok p G i) (stream p s i)
       (on_seg i (drop (n_taken p rs (rs_m s)) (tagged_ops p rs (r_split rs (rs_m s))))))"

text \<open>A ready segment of the RAM has room; its words are cut to the width of a segment.\<close>

definition ram_inv :: "'m memory_if \<Rightarrow> psdp \<Rightarrow> 'm \<Rightarrow> 'm rr \<Rightarrow> bool" where
  "ram_inv I p m0 r \<longleftrightarrow> rr_mem r = m0 \<and> length (rr_pipe r) = p_seg_count p \<and>
     (\<forall>i < p_seg_count p. (bit (rr_cmd_ready r) i \<longrightarrow> \<not> bit (rr_resp_valid r) i \<or> rr_pipe r ! i = None) \<and>
        (\<forall>v. rr_pipe r ! i = Some v \<longrightarrow> v AND seg_data_mask p = v))"

text \<open>The memory now is one that every read still under way, or yet to come, may meet.\<close>

definition mems_ok :: "'m memory_if \<Rightarrow> psdp \<Rightarrow> 'm \<Rightarrow> (nat \<Rightarrow> byte list set) \<Rightarrow> bool" where
  "mems_ok I p m G \<longleftrightarrow> 2 ^ p_address_width p \<le> mi_size I m \<and>
     (\<forall>r. mi_bytes I m \<in> G r \<and> (\<forall>b\<in>G r. 2 ^ p_address_width p \<le> length b))"

definition rinv :: "'m memory_if \<Rightarrow> psdp \<Rightarrow> 'm \<Rightarrow> (nat \<Rightarrow> byte list set) \<Rightarrow> (nat \<times> nat) list \<Rightarrow> 'm rsys \<Rightarrow> bool" where
  "rinv I p m G rs s \<longleftrightarrow> mems_ok I p m G \<and> reads_ok p rs \<and> rcmds_inv p G rs (rs_m s) \<and> rbus_agree s \<and>
     ram_inv I p m (rs_r s) \<and> stream_inv p G rs s"

section \<open>Each step keeps it\<close>

lemma rinv_init:
  "mems_ok I p m G \<Longrightarrow> rinv I p m G [] \<lparr>rs_m = mr_init p, rs_r = rr_init p m\<rparr>"
  by (simp add: rinv_def reads_ok_def rcmds_inv_def mr_init_def rr_init_def r_started_def r_split_def rbus_agree_def
      ram_inv_def stream_inv_def stream_def words_view_def asks_view_def mr_view_def rr_view_def tagged_ops_def)

lemma mr_read_accept:
  assumes "mr_read p a n m = (Inr e, m')"
  shows "0 \<le> a \<and> 0 \<le> n \<and> nat a < 2 ^ p_address_width p \<and> nat a + nat n \<le> 2 ^ p_address_width p"
    "m' = m\<lparr>mr_next_event := mr_next_event m + 1, mr_in_flight := mr_in_flight m + 1, mr_idle := False,
       mr_cmds := mr_cmds m @ [\<lparr>rdc_address = nat a, rdc_length = nat n, rdc_event = mr_next_event m\<rparr>]\<rparr>"
    "e = mr_next_event m"
proof -
  have r: "0 \<le> a" "0 \<le> n" "a < 2 ^ p_address_width p" "a + n \<le> 2 ^ p_address_width p"
    using assms by (auto simp: mr_read_def split: if_splits)
  then obtain x y where x: "a = int x" "n = int y" by (auto elim!: nonneg_int_cases)
  have "int (x + y) \<le> int (2 ^ p_address_width p)" "int x < int (2 ^ p_address_width p)"
    using r by (simp_all add: x)
  then have "x + y \<le> 2 ^ p_address_width p" "x < 2 ^ p_address_width p"
    by (simp_all only: of_nat_le_iff of_nat_less_iff)
  then show "0 \<le> a \<and> 0 \<le> n \<and> nat a < 2 ^ p_address_width p \<and> nat a + nat n \<le> 2 ^ p_address_width p"
    by (simp add: x)
qed (use assms in \<open>auto simp: mr_read_def split: if_splits\<close>)

text \<open>Steps that leave the bus and the words that have come alone.\<close>

lemma rinv_step:
  assumes w: "rinv I p m G rs s" and ok: "reads_ok p rs'" and c: "rcmds_inv p G rs' m'"
    and fr: "mr_cmd_valid m' = mr_cmd_valid (rs_m s)" "mr_cmd_addr m' = mr_cmd_addr (rs_m s)"
      "mr_resp_ready m' = mr_resp_ready (rs_m s)" "mr_bus_valid m' = mr_bus_valid (rs_m s)"
      "mr_bus_addr m' = mr_bus_addr (rs_m s)" "mr_bus_ready m' = mr_bus_ready (rs_m s)"
    and st: "stream_inv p G rs' (s\<lparr>rs_m := m'\<rparr>)"
  shows "rinv I p m G rs' (s\<lparr>rs_m := m'\<rparr>)"
  using assms by (simp add: rinv_def rbus_agree_def)

lemma tagged_ops_Suc:
  "tagged_ops p rs (Suc n) = tagged_ops p rs n @
     map (\<lambda>x. (fst x, n, snd x)) (split_read p (fst (rs ! n)) (snd (rs ! n)))"
  by (simp add: tagged_ops_def)

lemma tagged_ops_more: "n \<le> length rs \<Longrightarrow> tagged_ops p (rs @ rs') n = tagged_ops p rs n"
  by (induction n) (simp_all add: tagged_ops_Suc nth_append, simp add: tagged_ops_def)

lemma read_ops_tagged:
  "n \<le> length rs \<Longrightarrow> read_ops p (take n rs) = map (\<lambda>x. (fst x, snd (snd x))) (tagged_ops p rs n)"
  by (induction n)
     (simp_all add: tagged_ops_Suc read_ops_def take_Suc_conv_app_nth o_def, simp add: tagged_ops_def)

lemma length_tagged_ops: "n \<le> length rs \<Longrightarrow> length (tagged_ops p rs n) = length (read_ops p (take n rs))"
  by (simp add: read_ops_tagged)

lemma rinv_accept:
  assumes w: "rinv I p m G rs s" and a: "mr_read p a n (rs_m s) = (Inr e, m')"
  shows "rinv I p m G (rs @ [(nat a, nat n)]) (s\<lparr>rs_m := m'\<rparr>)"
proof -
  let ?rs = "rs @ [(nat a, nat n)]" let ?m = "rs_m s"
  note acc = mr_read_accept [OF a]
  from w have i: "reads_ok p rs" "rcmds_inv p G rs ?m" "stream_inv p G rs s" by (simp_all add: rinv_def)
  have le: "length (mr_cmds ?m) \<le> length rs" "length (mr_done ?m) \<le> length rs" "r_started ?m \<le> r_split rs ?m"
    using i(2) by (auto simp: rcmds_inv_def r_split_def r_started_def)
  have st: "r_split ?rs m' = r_split rs ?m" "r_started m' = r_started ?m"
    using le by (simp_all add: r_split_def r_started_def acc(2))
  have nth: "?rs ! j = rs ! j" if "j < length rs" for j using that by (simp add: nth_append)
  have n: "r_split rs ?m \<le> length rs" by (simp add: r_split_def)
  have c: "rcmds_inv p G ?rs m'"
  proof -
    have "map (r_cmd ?rs) [r_split rs ?m..<length rs] = map (r_cmd rs) [r_split rs ?m..<length rs]"
      by (auto simp: r_cmd_def nth)
    moreover have "map (r_rcmd p ?rs) [r_started ?m..<r_split rs ?m] = map (r_rcmd p rs) [r_started ?m..<r_split rs ?m]"
      using n by (auto simp: r_rcmd_def nth)
    moreover have "?rs ! j = rs ! j" if "j < length (mr_done ?m)" for j using le(2) that by (simp add: nth)
    moreover have "r_rcmd p ?rs (length (mr_done ?m)) = r_rcmd p rs (length (mr_done ?m))"
      if "mr_current_resp ?m = Some y" for y
      using le(3) n that by (auto simp: r_rcmd_def nth r_started_def)
    ultimately show ?thesis
      using i(2) n le(2) unfolding rcmds_inv_def st by (auto simp: acc(2) r_cmd_def upt_conv_Cons)
  qed
  have tk: "n_taken p ?rs m' = n_taken p rs ?m" using le by (simp add: n_taken_def acc(2))
  have "stream p (s\<lparr>rs_m := m'\<rparr>) j = stream p s j" for j by (simp add: stream_def mr_view_def acc(2))
  then have "stream_inv p G ?rs (s\<lparr>rs_m := m'\<rparr>)" using i(3) n by (simp add: stream_inv_def st tk tagged_ops_more)
  moreover have "reads_ok p ?rs" using i(1) acc(1) by (auto simp: reads_ok_def)
  ultimately show ?thesis by (intro rinv_step [OF w _ c]) (simp_all add: acc(2))
qed

lemma read_ops_range: "psdp_ok p \<Longrightarrow> x \<in> set (split_read p a n) \<Longrightarrow> fst x < p_seg_count p"
  by (auto simp: split_read_ops read_op_def psdp_ok_def)

text \<open>The words asked for: those of the completed reads, of the current one, and the rest.\<close>

lemma tagged_ops_le: "n \<le> n' \<Longrightarrow> \<exists>r. tagged_ops p rs n' = tagged_ops p rs n @ r"
  using upt_add_eq_append [of 0 n "n' - n"] by (simp add: tagged_ops_def)

lemma tagged_ops_current:
  assumes c: "rcmds_inv p G rs m" and cur: "mr_current_resp m = Some (e, seg, k, bs)"
  obtains r where "tagged_ops p rs (r_split rs m) = tagged_ops p rs (length (mr_done m)) @
    map (\<lambda>k. (fst (read_op p (rcm_address e) k), length (mr_done m), snd (read_op p (rcm_address e) k)))
      [0..<rcm_segments e] @ r"
proof -
  let ?nd = "length (mr_done m)"
  have e: "e = r_rcmd p rs ?nd" using c cur by (auto simp: rcmds_inv_def)
  have nd: "Suc ?nd \<le> r_split rs m" using c cur by (simp add: rcmds_inv_def r_started_def)
  have "tagged_ops p rs (Suc ?nd) = tagged_ops p rs ?nd @
      map (\<lambda>k. (fst (read_op p (rcm_address e) k), ?nd, snd (read_op p (rcm_address e) k))) [0..<rcm_segments e]"
    by (simp add: tagged_ops_Suc split_read_ops e r_rcmd_def Let_def)
  with tagged_ops_le [OF nd, of p rs] that show thesis by auto
qed

lemma n_taken_tagged:
  assumes "rcmds_inv p G rs m"
  shows "n_taken p rs m = length (tagged_ops p rs (length (mr_done m))) +
    (case mr_current_resp m of None \<Rightarrow> 0 | Some (c, seg, k, bs) \<Rightarrow> k)"
proof -
  have "length (mr_done m) \<le> length rs" using assms by (auto simp: rcmds_inv_def r_started_def r_split_def)
  then show ?thesis by (simp add: n_taken_def length_tagged_ops)
qed

lemma n_taken_le:
  assumes c: "rcmds_inv p G rs m"
  shows "n_taken p rs m \<le> length (tagged_ops p rs (r_split rs m))"
proof (cases "mr_current_resp m")
  case None
  have "length (mr_done m) \<le> r_split rs m" using c by (simp add: rcmds_inv_def r_started_def)
  from tagged_ops_le [OF this, of p rs] None show ?thesis by (auto simp: n_taken_tagged [OF c])
next
  case (Some y)
  obtain e seg k bs where y: "y = (e, seg, k, bs)" by (cases y)
  have "k \<le> rcm_segments e" using c Some y by (auto simp: rcmds_inv_def)
  moreover from tagged_ops_current [OF c Some [unfolded y]] obtain r where
    "tagged_ops p rs (r_split rs m) = tagged_ops p rs (length (mr_done m)) @
      map (\<lambda>k. (fst (read_op p (rcm_address e) k), length (mr_done m), snd (read_op p (rcm_address e) k)))
        [0..<rcm_segments e] @ r" .
  ultimately show ?thesis by (simp add: n_taken_tagged [OF c] Some y)
qed

lemma rinv_split:
  assumes w: "rinv I p m G rs s" and a: "mr_process_read p (rs_m s) = (b, m')"
  shows "rinv I p m G rs (s\<lparr>rs_m := m'\<rparr>)"
proof (cases "mr_cmds (rs_m s)")
  case Nil
  with a w show ?thesis by (auto simp: mr_process_read_def)
next
  case (Cons c cs)
  let ?m = "rs_m s" let ?n = "r_split rs (rs_m s)"
  from w have i: "reads_ok p rs" "rcmds_inv p G rs ?m" "stream_inv p G rs s" by (simp_all add: rinv_def)
  have le: "length (mr_cmds ?m) \<le> length rs" "length (mr_done ?m) \<le> length rs" "r_started ?m \<le> ?n"
    using i(2) by (auto simp: rcmds_inv_def r_split_def r_started_def)
  have n: "?n < length rs" using le Cons by (auto simp: r_split_def)
  have "c # cs = map (r_cmd rs) [?n..<length rs]" using i(2) Cons by (simp add: rcmds_inv_def)
  then have c: "c = r_cmd rs ?n" and cs: "cs = map (r_cmd rs) [Suc ?n..<length rs]"
    using n by (simp_all add: upt_conv_Cons)
  let ?ops = "split_read p (fst (rs ! ?n)) (snd (rs ! ?n))"
  have m': "m' = ?m\<lparr>mr_cmds := cs, mr_resp_cmds := mr_resp_cmds ?m @ [r_rcmd p rs ?n],
      mr_segs := foldl enqueue (mr_segs ?m) ?ops\<rparr>"
    using a unfolding mr_process_read_def Cons c r_cmd_def r_rcmd_def Let_def by simp
  have st: "r_split rs m' = Suc ?n" "r_started m' = r_started ?m"
  proof -
    have "length (mr_cmds m') = length rs - Suc ?n" by (simp add: m' cs)
    then show "r_split rs m' = Suc ?n" using n unfolding r_split_def [of rs m'] by simp
  qed (simp add: r_started_def m')
  have len: "length (mr_segs ?m) = p_seg_count p" using i(2) by (simp add: rcmds_inv_def)
  note q = enqueue_all [of "mr_segs ?m" ?ops, unfolded len]
  have cm: "rcmds_inv p G rs m'"
    using i(2) n le(3) q unfolding rcmds_inv_def st by (auto simp: m' cs len)
  have tk: "n_taken p rs m' = n_taken p rs ?m" by (simp add: n_taken_def m')
  let ?new = "map (\<lambda>x. (fst x, ?n, snd x)) ?ops"
  have tl: "n_taken p rs ?m \<le> length (tagged_ops p rs ?n)" by (rule n_taken_le [OF i(2)])
  have "list_all2 (item_ok p G j) (stream p (s\<lparr>rs_m := m'\<rparr>) j)
      (on_seg j (drop (n_taken p rs ?m) (tagged_ops p rs ?n)) @ on_seg j ?new)" if j: "j < p_seg_count p" for j
  proof -
    have "stream p (s\<lparr>rs_m := m'\<rparr>) j =
        stream p s j @ map (\<lambda>o'. Inr (sr_addr o' AND seg_addr_mask p)) (on_seg j ?ops)"
      using q j by (simp add: stream_def mr_view_def asks_view_def m') (simp add: on_seg_def)
    moreover have "on_seg j ?new = map (Pair ?n) (on_seg j ?ops)" by (simp add: on_seg_def filter_map o_def)
    moreover have "list_all2 (item_ok p G j) (stream p s j) (on_seg j (drop (n_taken p rs ?m) (tagged_ops p rs ?n)))"
      using i(3) j by (simp add: stream_inv_def)
    ultimately show ?thesis
      by (auto intro!: list_all2_appendI simp: list_all2_map1 list_all2_map2 item_ok_def list_all2_same)
  qed
  then have "stream_inv p G rs (s\<lparr>rs_m := m'\<rparr>)"
    using tl by (simp add: stream_inv_def st tk tagged_ops_Suc)
  then show ?thesis by (intro rinv_step [OF w i(1) cm]) (simp_all add: m')
qed

subsection \<open>Collecting answers\<close>

lemma on_seg_Cons: "on_seg i (x # xs) = (if fst x = i then snd x # on_seg i xs else on_seg i xs)"
  by (simp add: on_seg_def)

lemma rinv_respond:
  assumes ok: "psdp_ok p"
    and w: "rinv I p m G rs s" and a: "mr_process_resp p (rs_m s) = Some m'"
  shows "rinv I p m G rs (s\<lparr>rs_m := m'\<rparr>)"
proof (cases "mr_current_resp (rs_m s)")
  case None
  let ?m = "rs_m s"
  from w have i: "reads_ok p rs" "rcmds_inv p G rs ?m" "stream_inv p G rs s"
    by (simp_all add: rinv_def)
  from a None obtain d ds where d: "mr_resp_cmds ?m = d # ds"
      and m': "m' = ?m\<lparr>mr_resp_cmds := ds, mr_current_resp := Some (d, rcm_first_seg d, 0, [])\<rparr>"
    by (auto simp: mr_process_resp_def split: list.splits)
  have lt: "r_started ?m < r_split rs ?m"
    using i(2) d by (cases "r_started ?m < r_split rs ?m") (auto simp: rcmds_inv_def)
  have "d # ds = map (r_rcmd p rs) [r_started ?m..<r_split rs ?m]" using i(2) d by (simp add: rcmds_inv_def)
  then have ds: "d = r_rcmd p rs (r_started ?m)" "ds = map (r_rcmd p rs) [Suc (r_started ?m)..<r_split rs ?m]"
    using lt by (simp_all add: upt_conv_Cons)
  have st: "r_started m' = Suc (r_started ?m)" "r_split rs m' = r_split rs ?m" "r_started ?m = length (mr_done ?m)"
    using None by (simp_all add: r_started_def r_split_def m')
  have c: "rcmds_inv p G rs m'"
    using i(2) lt unfolding rcmds_inv_def st(1,2)
    by (simp add: m' ds st(3) None r_rcmd_def Let_def first_seg_def read_pos_def)
  have "n_taken p rs m' = n_taken p rs ?m" by (simp add: n_taken_def m' None)
  moreover have "stream p (s\<lparr>rs_m := m'\<rparr>) j = stream p s j" for j
    by (simp add: stream_def mr_view_def m')
  ultimately have "stream_inv p G rs (s\<lparr>rs_m := m'\<rparr>)"
    using i(3) by (simp add: stream_inv_def st)
  then show ?thesis by (intro rinv_step [OF w i(1) c]) (simp_all add: m')
next
  case (Some x)
  obtain d seg k bs where x: "x = (d, seg, k, bs)" by (cases x)
  let ?m = "rs_m s" let ?nd = "length (mr_done (rs_m s))"
  from w have i: "reads_ok p rs" "rcmds_inv p G rs ?m" "stream_inv p G rs s" "mems_ok I p m G"
    by (simp_all add: rinv_def)
  note cur = Some [unfolded x]
  have d: "d = r_rcmd p rs ?nd" "k \<le> rcm_segments d" "seg = (rcm_address d div p_seg_byte_lanes p + k) mod p_seg_count p"
      "length bs = read_pos p (rcm_address d) (rcm_length d) k" "from_mems (G ?nd) (rcm_address d) bs"
    using i(2) cur by (auto simp: rcmds_inv_def)
  have nd: "?nd < length rs" using i(2) cur by (auto simp: rcmds_inv_def r_started_def r_split_def)
  have da: "rcm_address d = fst (rs ! ?nd)" "rcm_length d = snd (rs ! ?nd)"
      "rcm_segments d = seg_words p (rcm_address d) (rcm_length d)"
    by (simp_all add: d(1) r_rcmd_def Let_def)
  have "rs ! ?nd \<in> set rs" using nd by simp
  then have fit: "rcm_address d < 2 ^ p_address_width p" "rcm_address d + rcm_length d \<le> 2 ^ p_address_width p"
    using i(1) by (auto simp: reads_ok_def da)
  let ?op = "read_op p (rcm_address d)"
  from tagged_ops_current [OF i(2) cur] obtain r where r: "tagged_ops p rs (r_split rs ?m) =
      tagged_ops p rs ?nd @ map (\<lambda>k. (fst (?op k), ?nd, snd (?op k))) [0..<rcm_segments d] @ r" .
  have lens: "length (mr_resps ?m) = p_seg_count p" using i(2) by (simp add: rcmds_inv_def)
  have sc: "seg < p_seg_count p" using ok by (simp add: d(3) psdp_ok_def)
  show ?thesis
  proof (cases "k < rcm_segments d")
    case True
    let ?win = "seg_window p (rcm_address d) (rcm_length d) (rcm_segments d) k"
    from a cur True obtain v vs where v: "mr_resps ?m ! seg = v # vs"
      and m': "m' = ?m\<lparr>mr_resps := (mr_resps ?m)[seg := vs],
        mr_current_resp := Some (d, (seg + 1) mod p_seg_count p, k + 1, bs @ word_bytes v [fst ?win..<snd ?win])\<rparr>"
      by (auto simp: mr_process_resp_def Let_def split: list.splits)
    have st: "r_started m' = r_started ?m" "r_split rs m' = r_split rs ?m"
      using Some by (simp_all add: r_started_def r_split_def m')
    have nt: "n_taken p rs ?m = length (tagged_ops p rs ?nd) + k" "n_taken p rs m' = Suc (n_taken p rs ?m)"
      using n_taken_tagged [OF i(2)] by (simp_all add: cur n_taken_def m')
    let ?rest = "drop (Suc (n_taken p rs ?m)) (tagged_ops p rs (r_split rs ?m))"
    have dr: "drop (n_taken p rs ?m) (tagged_ops p rs (r_split rs ?m)) = (fst (?op k), ?nd, snd (?op k)) # ?rest"
      unfolding nt r using True by (simp add: drop_map) (simp add: upt_conv_Cons)
    have fs: "fst (?op k) = seg" by (simp add: read_op_def d(3))
    have si: "list_all2 (item_ok p G j) (stream p s j) (on_seg j ((fst (?op k), ?nd, snd (?op k)) # ?rest))"
      if "j < p_seg_count p" for j using i(3) that unfolding stream_inv_def dr by blast
    obtain b where b: "b \<in> G ?nd" "v = op_word p b (?op k)"
    proof -
      have "item_ok p G seg (Inl v) (?nd, snd (?op k))"
        using si [OF sc] fs by (simp add: stream_def v on_seg_Cons)
      moreover have "op_word p b (seg, snd (?op k)) = op_word p b (?op k)" for b
        by (simp add: op_word_def fs)
      ultimately show thesis using that by (auto simp: item_ok_def)
    qed
    have bl: "2 ^ p_address_width p \<le> length b" using i(4) b(1) by (auto simp: mems_ok_def)
    have "k < seg_words p (rcm_address d) (rcm_length d)" using True by (simp add: da(3))
    note bs = read_next_from [OF ok this fit bl refl d(5,4) b, folded da(3)]
    have cur': "mr_current_resp m' = Some (d, (rcm_address d div p_seg_byte_lanes p + Suc k) mod p_seg_count p, Suc k,
        bs @ word_bytes v [fst ?win..<snd ?win])"
      unfolding m' by (simp add: d(3) mod_Suc_eq)
    have ot: "mr_cmds m' = mr_cmds ?m" "mr_resp_cmds m' = mr_resp_cmds ?m" "mr_done m' = mr_done ?m"
      "mr_next_event m' = mr_next_event ?m" "mr_in_flight m' = mr_in_flight ?m" "mr_idle m' = mr_idle ?m"
      "mr_segs m' = mr_segs ?m" "length (mr_resps m') = length (mr_resps ?m)"
      by (simp_all add: m')
    have c: "rcmds_inv p G rs m'"
      using i(2) True d(1) bs unfolding rcmds_inv_def st ot cur' by simp
    have "list_all2 (item_ok p G j) (stream p (s\<lparr>rs_m := m'\<rparr>) j) (on_seg j ?rest)" if "j < p_seg_count p" for j
    proof (cases "j = seg")
      case True
      then have "stream p s j = Inl v # stream p (s\<lparr>rs_m := m'\<rparr>) j"
        using lens sc by (simp add: stream_def mr_view_def asks_view_def v m')
      with si [OF that] True fs show ?thesis by (simp add: on_seg_Cons)
    next
      case False
      then have "stream p s j = stream p (s\<lparr>rs_m := m'\<rparr>) j"
        by (simp add: stream_def mr_view_def asks_view_def m')
      with si [OF that] False fs show ?thesis by (simp add: on_seg_Cons)
    qed
    then have "stream_inv p G rs (s\<lparr>rs_m := m'\<rparr>)"
      by (simp add: stream_inv_def st nt(2))
    then show ?thesis by (intro rinv_step [OF w i(1) c]) (simp_all add: m')
  next
    case False
    with d(2) have k: "k = rcm_segments d" by simp
    from a cur False have m': "m' = ?m\<lparr>mr_done := mr_done ?m @ [(rcm_event d, rcm_address d, bs)],
        mr_current_resp := None, mr_in_flight := mr_in_flight ?m - 1,
        mr_idle := (if mr_in_flight ?m - 1 = 0 then True else mr_idle ?m)\<rparr>"
      by (simp add: mr_process_resp_def)
    have st: "r_started m' = r_started ?m" "r_split rs m' = r_split rs ?m"
      using Some by (simp_all add: r_started_def r_split_def m')
    have "length bs = snd (rs ! ?nd)" using d(4) unfolding k da(3) read_pos_all [OF ok] by (simp add: da(2))
    moreover have "rcm_event d = ?nd" by (simp add: d(1) r_rcmd_def Let_def)
    ultimately have dn: "\<forall>i < length (mr_done m'). \<exists>bs. mr_done m' ! i = (i, fst (rs ! i), bs) \<and>
        length bs = snd (rs ! i) \<and> from_mems (G i) (fst (rs ! i)) bs"
      using i(2) d(5) by (auto simp: rcmds_inv_def m' da(1) less_Suc_eq nth_append)
    have c: "rcmds_inv p G rs m'"
      using i(2) nd dn unfolding rcmds_inv_def st by (auto simp: m')
    have "n_taken p rs m' = n_taken p rs ?m"
      using nd k by (simp add: n_taken_def m' cur take_Suc_conv_app_nth read_ops_def split_read_ops da)
    moreover have "stream p (s\<lparr>rs_m := m'\<rparr>) j = stream p s j" for j
      by (simp add: stream_def mr_view_def m')
    ultimately have "stream_inv p G rs (s\<lparr>rs_m := m'\<rparr>)"
      using i(3) by (simp add: stream_inv_def st)
    then show ?thesis by (intro rinv_step [OF w i(1) c]) (simp_all add: m')
  qed
qed


subsection \<open>Clock edges\<close>

text \<open>An edge moves words and commands along a segment without changing the stream.\<close>

lemma asks_step:
  assumes "x = (q, v, a, ws)"
  shows "asks_view p (mr_view_step p ready pause d x) = (if ready \<and> v then tl (asks_view p x) else asks_view p x)"
    and "snd (snd (snd (mr_view_step p ready pause d x))) = ws @ (case d of Some w \<Rightarrow> [w] | None \<Rightarrow> [])"
  using assms by (cases q; auto simp: asks_view_def mr_view_step_def Let_def split: option.split)+

lemma words_step:
  assumes "y = (pipe, cr, rv, d)" and "cr \<Longrightarrow> \<not> rv \<or> pipe = None" and "\<And>u. pipe = Some u \<Longrightarrow> u AND seg_data_mask p = u"
  shows "words_view y @ (if cr \<and> valid then [w] else []) =
    (if rdy \<and> rv then [d] else []) @ words_view (rr_view_step p rdy valid w y)"
  using assms by (auto simp: words_view_def rr_view_step_def rr_advance_view_def Let_def split: option.split)

lemma words_view_ready [simp]: "words_view (pipe, cr, rv, d) = words_view (pipe, cr', rv, d)"
  by (simp add: words_view_def)

lemma words_view_case: "words_view (case y of (pipe, cr, rv, d) \<Rightarrow> (pipe, cr \<and> b, rv, d)) = words_view y"
  by (simp add: words_view_def split: prod.split)

lemma rcmds_inv_frame:
  assumes "mr_frame m m'" "rcmds_inv p G rs m"
  shows "rcmds_inv p G rs m'" "r_split rs m' = r_split rs m" "n_taken p rs m' = n_taken p rs m"
  using assms by (simp_all add: mr_frame_def rcmds_inv_def r_split_def r_started_def n_taken_def)

text \<open>A command that the RAM accepts becomes a word of the memory now.\<close>

lemma item_accept:
  assumes "list_all2 (item_ok p G i) (map Inl ws @ map Inr (a # as)) ts"
    and "\<And>r. b \<in> G r"
  shows "list_all2 (item_ok p G i) (map Inl (ws @ [mem_word p b i a]) @ map Inr as) ts"
proof -
  from assms(1) obtain t1 t t2 where "ts = t1 @ t # t2" "list_all2 (item_ok p G i) (map Inl ws) t1"
    "item_ok p G i (Inr a) t" "list_all2 (item_ok p G i) (map Inr as) t2"
    by (auto simp: list_all2_append1 list_all2_Cons1)
  moreover from this(3) have "item_ok p G i (Inl (mem_word p b i a)) t"
    using assms(2) by (auto simp: item_ok_def op_word_def)
  ultimately show ?thesis by (auto intro!: list_all2_appendI)
qed

lemma rinv_edge:
  assumes mem: "memory_ok I" and ok: "psdp_ok p" and w: "rinv I p m0 G rs s"
  obtains r' where "rram_edge I p s = Inr r'" "rr_frame p (rs_r s) r'"
    "\<And>i. i < p_seg_count p \<Longrightarrow> rr_view p i r' =
      (case rr_view_step p (bit (mr_resp_ready (rs_m s)) i) (bit (mr_cmd_valid (rs_m s)) i)
          (mem_word p (mi_bytes I m0) i (get_field (p_seg_addr_width p) (seg_addr_mask p) i (mr_cmd_addr (rs_m s))))
          (rr_view p i (rs_r s)) of
        (pipe, cr, rv, d) \<Rightarrow> (pipe, cr \<and> \<not> ps_pause (rr_pause (rs_r s)), rv, d))"
    "rinv I p m0 G rs \<lparr>rs_m = rmaster_edge p s, rs_r = r'\<rparr>"
proof -
  let ?m = "rs_m s" let ?r = "rs_r s" let ?b = "mi_bytes I m0"
  from w have i: "reads_ok p rs" "rcmds_inv p G rs ?m" "rbus_agree s" "ram_inv I p m0 ?r" "stream_inv p G rs s"
    "mems_ok I p m0 G" by (simp_all add: rinv_def)
  have len: "length (mr_segs ?m) = p_seg_count p" "length (mr_resps ?m) = p_seg_count p"
    using i(2) by (simp_all add: rcmds_inv_def)
  have rm: "rr_mem ?r = m0" "length (rr_pipe ?r) = p_seg_count p" using i(4) by (simp_all add: ram_inv_def)
  have ba: "mr_bus_valid ?m = mr_cmd_valid ?m" "mr_bus_addr ?m = mr_cmd_addr ?m" "mr_bus_ready ?m = mr_resp_ready ?m"
    "rr_bus_ready ?r = rr_cmd_ready ?r" "rr_bus_valid ?r = rr_resp_valid ?r" "rr_bus_data ?r = rr_resp_data ?r"
    using i(3) by (simp_all add: rbus_agree_def)
  let ?w = "\<lambda>i. mem_word p ?b i (get_field (p_seg_addr_width p) (seg_addr_mask p) i (mr_cmd_addr ?m))"
  have szr: "2 ^ p_address_width p \<le> mi_size I (rr_mem ?r)" using i(6) rm(1) by (simp add: mems_ok_def)
  from rr_run_run [OF mem ok szr rm(2), of "mr_cmd_valid ?m" "mr_cmd_addr ?m" "mr_resp_ready ?m", unfolded rm(1)]
  obtain r' where r': "rram_edge I p s = Inr r'" "rr_frame p ?r r'"
    "rr_bus_ready r' = rr_cmd_ready r'" "rr_bus_valid r' = rr_resp_valid r'" "rr_bus_data r' = rr_resp_data r'"
    and rv: "\<And>i. i < p_seg_count p \<Longrightarrow> rr_view p i r' =
      (case rr_view_step p (bit (mr_resp_ready ?m) i) (bit (mr_cmd_valid ?m) i) (?w i) (rr_view p i ?r) of
        (pipe, cr, rv, d) \<Rightarrow> (pipe, cr \<and> \<not> ps_pause (rr_pause ?r), rv, d))"
    unfolding rram_edge_def ba by blast
  let ?s = "\<lparr>rs_m = rmaster_edge p s, rs_r = r'\<rparr>"
  have me: "rmaster_edge p s = mr_run p False (rr_cmd_ready ?r) (rr_resp_valid ?r) (rr_resp_data ?r) ?m"
    by (simp add: rmaster_edge_def ba)
  have fr: "mr_frame ?m (rmaster_edge p s)" unfolding me by (rule mr_run_views(1) [OF len])
  note ci = rcmds_inv_frame [OF fr i(2)]
  have view: "\<exists>pipe cr rv d. rr_view p j ?r = (pipe, cr, rv, d) \<and> cr = bit (rr_cmd_ready ?r) j \<and>
      (cr \<longrightarrow> \<not> rv \<or> pipe = None) \<and> (\<forall>u. pipe = Some u \<longrightarrow> u AND seg_data_mask p = u)" if "j < p_seg_count p" for j
    using i(4) that by (simp add: ram_inv_def rr_view_def)
  have str: "list_all2 (item_ok p G j) (stream p ?s j) ts"
    if j: "j < p_seg_count p" and ts: "list_all2 (item_ok p G j) (stream p s j) ts" for j ts
  proof -
    from view [OF j] obtain pipe cr rv d where y: "rr_view p j ?r = (pipe, cr, rv, d)" "cr = bit (rr_cmd_ready ?r) j"
      "cr \<Longrightarrow> \<not> rv \<or> pipe = None" "\<And>u. pipe = Some u \<Longrightarrow> u AND seg_data_mask p = u" by blast
    obtain q v a ws where x: "mr_view p j ?m = (q, v, a, ws)" by (metis prod_cases4)
    have xv: "v = bit (mr_cmd_valid ?m) j" "a = get_field (p_seg_addr_width p) (seg_addr_mask p) j (mr_cmd_addr ?m)"
      "ws = mr_resps ?m ! j" using x by (auto simp: mr_view_def)
    have yv: "rv = bit (rr_resp_valid ?r) j" "d = get_field (p_seg_data_width p) (seg_data_mask p) j (rr_resp_data ?r)"
      using y(1) by (auto simp: rr_view_def)
    note mv = mr_run_views(2) [OF len j, of "rr_cmd_ready ?r" "rr_resp_valid ?r" "rr_resp_data ?r", folded me]
    let ?t = "taken_word p (mr_resp_ready ?m) (rr_resp_valid ?r) (rr_resp_data ?r) j"
    have t: "(case ?t of Some w \<Rightarrow> [w] | None \<Rightarrow> []) = (if bit (mr_resp_ready ?m) j \<and> rv then [d] else [])"
      by (simp add: taken_word_def yv)
    have ws': "mr_resps (rmaster_edge p s) ! j = ws @ (if bit (mr_resp_ready ?m) j \<and> rv then [d] else [])"
    proof -
      have "mr_resps (rmaster_edge p s) ! j = snd (snd (snd (mr_view p j (rmaster_edge p s))))" by (simp add: mr_view_def)
      then show ?thesis unfolding mv asks_step(2) [OF x] t .
    qed
    have as: "asks_view p (mr_view p j (rmaster_edge p s)) =
        (if cr \<and> v then tl (asks_view p (mr_view p j ?m)) else asks_view p (mr_view p j ?m))"
      unfolding mv asks_step(1) [OF x] y(2) ..
    have wo: "words_view (rr_view p j r') = words_view (rr_view_step p (bit (mr_resp_ready ?m) j) v (?w j) (rr_view p j ?r))"
      unfolding rv [OF j] words_view_case xv(1) ..
    have asm: "asks_view p (mr_view p j ?m) = (if cr \<and> v then [a] else []) @ asks_view p (mr_view p j (rmaster_edge p s))"
      unfolding as by (simp add: asks_view_def x)
    have new: "stream p ?s j = map Inl (ws @ words_view (rr_view p j ?r) @ (if cr \<and> v then [?w j] else [])) @
        map Inr (asks_view p (mr_view p j (rmaster_edge p s)))"
      using words_step [OF y(1,3,4), of v "?w j" "bit (mr_resp_ready ?m) j"]
      by (simp add: stream_def ws' wo)
    have old: "stream p s j = map Inl (ws @ words_view (rr_view p j ?r)) @
        map Inr ((if cr \<and> v then [a] else []) @ asks_view p (mr_view p j (rmaster_edge p s)))"
      unfolding stream_def asm by (simp add: xv(3))
    have "?b \<in> G r" for r using i(6) by (simp add: mems_ok_def)
    from item_accept [where ws = "ws @ words_view (rr_view p j ?r)" and i = j, OF _ this] ts show ?thesis
      unfolding new old by (auto simp: xv(2))
  qed
  have "ram_inv I p m0 r'"
  proof -
    have "(bit (rr_cmd_ready r') j \<longrightarrow> \<not> bit (rr_resp_valid r') j \<or> rr_pipe r' ! j = None) \<and>
        (\<forall>u. rr_pipe r' ! j = Some u \<longrightarrow> u AND seg_data_mask p = u)" if j: "j < p_seg_count p" for j
    proof -
      from view [OF j] obtain pipe cr rv0 d where y: "rr_view p j ?r = (pipe, cr, rv0, d)"
        "\<And>u. pipe = Some u \<Longrightarrow> u AND seg_data_mask p = u" by blast
      have "(rr_pipe r' ! j, bit (rr_cmd_ready r') j, bit (rr_resp_valid r') j) =
          (case rr_view p j r' of (a, b, c, d) \<Rightarrow> (a, b, c))" by (simp add: rr_view_def)
      then show ?thesis
        unfolding rv [OF j] y(1) using y(2) mem_word_masked [OF ok]
        by (auto simp: rr_view_step_def rr_advance_view_def Let_def split: if_splits option.splits)
    qed
    then show ?thesis using r'(2) rm by (simp add: ram_inv_def rr_frame_def)
  qed
  moreover have "stream_inv p G rs ?s" using i(5) str by (simp add: stream_inv_def ci(2,3))
  moreover have "rbus_agree ?s" using r'(3-5) by (simp add: rbus_agree_def me mr_run_bus)
  ultimately have "rinv I p m0 G rs ?s" using i(1,6) ci(1) by (simp add: rinv_def)
  with r'(1,2) rv that show thesis by blast
qed

lemma rinv_pause:
  assumes w: "rinv I p m G rs s"
  shows "rinv I p m G rs (s\<lparr>rs_m := (rs_m s)\<lparr>mr_pause := st\<rparr>\<rparr>)"
    and "rinv I p m G rs (s\<lparr>rs_r := (rs_r s)\<lparr>rr_pause := st\<rparr>\<rparr>)"
  using w by (auto simp: rinv_def rcmds_inv_def r_started_def r_split_def rbus_agree_def ram_inv_def
      stream_inv_def stream_def mr_view_def rr_view_def n_taken_def)

text \<open>Something else changes the memory; the reads accepted so far may meet it before and after.\<close>

lemma items_mono:
  "(\<And>r. r \<in> fst ` set ts \<Longrightarrow> G r \<subseteq> G' r) \<Longrightarrow> list_all2 (item_ok p G i) xs ts \<Longrightarrow> list_all2 (item_ok p G' i) xs ts"
  by (erule list.rel_mono_strong) (auto simp: item_ok_def split: sum.splits)

lemma rinv_memory:
  assumes w: "rinv I p m G rs s" and ok: "mems_ok I p m' G'" and G: "\<And>r. r < length rs \<Longrightarrow> G r \<subseteq> G' r"
  shows "rinv I p m' G' rs (s\<lparr>rs_r := (rs_r s)\<lparr>rr_mem := m'\<rparr>\<rparr>)"
proof -
  let ?m = "rs_m s" let ?s = "s\<lparr>rs_r := (rs_r s)\<lparr>rr_mem := m'\<rparr>\<rparr>"
  from w have i: "reads_ok p rs" "rcmds_inv p G rs ?m" "rbus_agree s" "ram_inv I p m (rs_r s)" "stream_inv p G rs s"
    by (simp_all add: rinv_def)
  have nd: "length (mr_done ?m) \<le> length rs" "r_started ?m \<le> length rs" "r_split rs ?m \<le> length rs"
    using i(2) by (auto simp: rcmds_inv_def r_started_def r_split_def)
  have "rcmds_inv p G' rs ?m"
  proof -
    have "\<exists>bs. mr_done ?m ! j = (j, fst (rs ! j), bs) \<and> length bs = snd (rs ! j) \<and> from_mems (G' j) (fst (rs ! j)) bs"
      if j: "j < length (mr_done ?m)" for j
    proof -
      from i(2) j obtain bs where "mr_done ?m ! j = (j, fst (rs ! j), bs)" "length bs = snd (rs ! j)"
        "from_mems (G j) (fst (rs ! j)) bs" by (auto simp: rcmds_inv_def)
      with from_mems_mono [OF this(3) G] j nd show ?thesis by auto
    qed
    moreover have "from_mems (G' (length (mr_done ?m))) a bs"
      if "mr_current_resp ?m = Some y" "from_mems (G (length (mr_done ?m))) a bs" for y a bs
      using from_mems_mono [OF that(2) G] nd(2) that(1) by (simp add: r_started_def)
    ultimately show ?thesis using i(2) unfolding rcmds_inv_def by blast
  qed
  moreover have "stream_inv p G' rs ?s"
  proof -
    have "list_all2 (item_ok p G' j) (stream p ?s j)
        (on_seg j (drop (n_taken p rs ?m) (tagged_ops p rs (r_split rs ?m))))" if j: "j < p_seg_count p" for j
    proof (rule items_mono [of _ G])
      show "list_all2 (item_ok p G j) (stream p ?s j)
          (on_seg j (drop (n_taken p rs ?m) (tagged_ops p rs (r_split rs ?m))))"
        using i(5) j by (simp add: stream_inv_def stream_def rr_view_def)
      fix r assume "r \<in> fst ` set (on_seg j (drop (n_taken p rs ?m) (tagged_ops p rs (r_split rs ?m))))"
      then have "r < r_split rs ?m" by (auto simp: on_seg_def tagged_ops_def dest!: in_set_dropD)
      with nd show "G r \<subseteq> G' r" by (intro G) simp
    qed
    then show ?thesis by (simp add: stream_inv_def)
  qed
  ultimately show ?thesis using i ok by (simp add: rinv_def rbus_agree_def ram_inv_def)
qed

section \<open>One memory\<close>

lemma mems_ok_single: "memory_ok I \<Longrightarrow> 2 ^ p_address_width p \<le> mi_size I m \<Longrightarrow> mems_ok I p m (\<lambda>_. {mi_bytes I m})"
  by (simp add: mems_ok_def memory_okD(1))

theorem rreach_rinv:
  assumes mem: "memory_ok I" and ok: "psdp_ok p" and sz: "2 ^ p_address_width p \<le> mi_size I m0"
    and r: "rreach I p m0 rs s"
  shows "rinv I p m0 (\<lambda>_. {mi_bytes I m0}) rs s"
  using r
proof induction
  case (edge rs s r')
  from rinv_edge [OF mem ok edge.IH] edge.hyps(2) show ?case by (metis Inr_inject)
next
  case (accept rs s a n e m')
  from rinv_accept [OF accept.IH accept.hyps(2)] show ?case .
next
  case (split rs s b m')
  from rinv_split [OF split.IH split.hyps(2)] show ?case .
next
  case (respond rs s m')
  from rinv_respond [OF ok respond.IH respond.hyps(2)] show ?case .
next
  case (pause_m rs s st)
  from rinv_pause(1) [OF pause_m.IH] show ?case .
next
  case (pause_r rs s st)
  from rinv_pause(2) [OF pause_r.IH] show ?case .
qed (rule rinv_init [OF mems_ok_single [OF mem sz]])

text \<open>The bytes that a read must give, from the bytes \<open>b\<close> of the memory.\<close>

definition answer :: "byte list \<Rightarrow> nat \<times> nat \<Rightarrow> byte list" where
  "answer b r = take (snd r) (drop (fst r) b)"

lemma rreach_done:
  assumes mem: "memory_ok I" and ok: "psdp_ok p" and sz: "2 ^ p_address_width p \<le> mi_size I m0"
    and r: "rreach I p m0 rs s" and i: "i < length (mr_done (rs_m s))"
  shows "i < length rs" and "mr_done (rs_m s) ! i = (i, fst (rs ! i), answer (mi_bytes I m0) (rs ! i))"
proof -
  have w: "reads_ok p rs" "rcmds_inv p (\<lambda>_. {mi_bytes I m0}) rs (rs_m s)"
    using rreach_rinv [OF mem ok sz r] by (simp_all add: rinv_def)
  show l: "i < length rs" using w(2) i by (auto simp: rcmds_inv_def r_started_def r_split_def)
  from w(2) i obtain bs where bs: "mr_done (rs_m s) ! i = (i, fst (rs ! i), bs)" "length bs = snd (rs ! i)"
    "from_mems {mi_bytes I m0} (fst (rs ! i)) bs" by (auto simp: rcmds_inv_def)
  have "rs ! i \<in> set rs" using l by simp
  then have "fst (rs ! i) + length bs \<le> length (mi_bytes I m0)"
    using w(1) sz memory_okD(1) [OF mem, of m0] by (auto simp: reads_ok_def bs(2))
  from from_mems_single [OF this] bs show "mr_done (rs_m s) ! i = (i, fst (rs ! i), answer (mi_bytes I m0) (rs ! i))"
    by (simp add: answer_def)
qed

lemma rreach_stream:
  assumes mem: "memory_ok I" and ok: "psdp_ok p" and sz: "2 ^ p_address_width p \<le> mi_size I m0"
    and r: "rreach I p m0 rs s" and i: "i < p_seg_count p"
  shows "mr_resps (rs_m s) ! i @ words_view (rr_view p i (rs_r s)) @
      map (mem_word p (mi_bytes I m0) i) (asks_view p (mr_view p i (rs_m s))) =
    map (\<lambda>o'. op_word p (mi_bytes I m0) (i, o'))
      (on_seg i (drop (n_taken p rs (rs_m s)) (read_ops p (take (r_split rs (rs_m s)) rs))))"
proof -
  let ?G = "\<lambda>_ :: nat. {mi_bytes I m0}" let ?b = "mi_bytes I m0"
  let ?ts = "on_seg i (drop (n_taken p rs (rs_m s)) (tagged_ops p rs (r_split rs (rs_m s))))"
  let ?v = "\<lambda>x. case x of Inl w \<Rightarrow> w | Inr a \<Rightarrow> mem_word p ?b i a"
  have "list_all2 (item_ok p ?G i) (stream p s i) ?ts"
    using rreach_rinv [OF mem ok sz r] i by (simp add: rinv_def stream_inv_def)
  then have "list_all2 (\<lambda>x t. ?v x = op_word p ?b (i, snd t)) (stream p s i) ?ts"
    by (rule list_all2_mono) (auto simp: item_ok_def op_word_def split: sum.splits)
  then have "map ?v (stream p s i) = map (\<lambda>t. op_word p ?b (i, snd t)) ?ts"
    by (simp add: list_eq_iff_nth_eq list_all2_conv_all_nth)
  moreover have "map (\<lambda>o'. op_word p ?b (i, o')) (map snd ?ts) = map (\<lambda>t. op_word p ?b (i, snd t)) ?ts" by simp
  moreover have "map snd ?ts = on_seg i (drop (n_taken p rs (rs_m s)) (read_ops p (take (r_split rs (rs_m s)) rs)))"
  proof -
    have "r_split rs (rs_m s) \<le> length rs" by (simp add: r_split_def)
    from read_ops_tagged [OF this, of p] show ?thesis by (simp add: on_seg_def drop_map filter_map o_def)
  qed
  moreover have "map ?v (stream p s i) = mr_resps (rs_m s) ! i @ words_view (rr_view p i (rs_r s)) @
      map (mem_word p ?b i) (asks_view p (mr_view p i (rs_m s)))" by (simp add: stream_def o_def)
  ultimately show ?thesis by simp
qed

end
