(* ===== verification/Psdp_Write_Thm.thy ===== *)
theory Psdp_Write_Thm
  imports Psdp_Write_Link
begin

text \<open>
  What the invariant of the connected write side gives: completed writes are in the memory, an
  idle master means that the memory is the accepted writes applied in order, and without pauses
  and resets every write completes.
\<close>

section \<open>The abstract memory\<close>

definition apply_writes :: "(nat \<times> byte list) list \<Rightarrow> byte list \<Rightarrow> byte list" where
  "apply_writes ws b = foldl (\<lambda>b w. splice b (fst w) (snd w)) b ws"

lemma writes_okD: "writes_ok p ws \<Longrightarrow> w \<in> set ws \<Longrightarrow>
    fst w < 2 ^ p_address_width p \<and> fst w + length (snd w) \<le> 2 ^ p_address_width p"
  by (simp add: writes_ok_def)

lemma write_ops_append [simp]: "write_ops p (xs @ ys) = write_ops p xs @ write_ops p ys"
  by (simp add: write_ops_def)

lemma exec_write_ops:
  assumes mem: "memory_ok I" and ok: "psdp_ok p"
  shows "writes_ok p ws \<Longrightarrow> 2 ^ p_address_width p \<le> mi_size I m \<Longrightarrow>
    \<exists>m'. exec_ops I p (write_ops p ws) m = Inr m' \<and> mi_size I m' = mi_size I m \<and>
      mi_bytes I m' = apply_writes ws (mi_bytes I m)"
proof (induction ws arbitrary: m)
  case (Cons w ws)
  have "fst w < 2 ^ p_address_width p" "fst w + length (snd w) \<le> 2 ^ p_address_width p"
    using Cons.prems(1) by (auto simp: writes_ok_def)
  from split_write_ok [OF mem ok this Cons.prems(2)] obtain ops m1 where
    m1: "split_write p (fst w) (snd w) = (ops, None)" "exec_ops I p ops m = Inr m1" "mi_size I m1 = mi_size I m"
      "mi_bytes I m1 = splice (mi_bytes I m) (fst w) (snd w)" by blast
  have "\<exists>m'. exec_ops I p (write_ops p ws) m1 = Inr m' \<and> mi_size I m' = mi_size I m1 \<and>
      mi_bytes I m' = apply_writes ws (mi_bytes I m1)"
    using Cons.prems m1(3) by (intro Cons.IH) (auto simp: writes_ok_def)
  with m1 show ?case by (auto simp: write_ops_def exec_ops_append apply_writes_def)
qed (simp add: write_ops_def apply_writes_def)

lemma write_ops_segs:
  assumes ok: "psdp_ok p"
  shows "writes_ok p ws \<Longrightarrow> map fst (write_ops p ws) = concat (map (\<lambda>w. wsegs p (fst w) (length (snd w))) ws)"
proof (induction ws)
  case (Cons w ws)
  then have "fst w < 2 ^ p_address_width p" "fst w + length (snd w) \<le> 2 ^ p_address_width p" "writes_ok p ws"
    by (auto simp: writes_ok_def)
  with split_write_segs(2) [OF ok this(1,2)] Cons.IH show ?case by (simp add: write_ops_def)
qed (simp add: write_ops_def)

lemma write_ops_range:
  assumes "psdp_ok p" "writes_ok p ws" "op \<in> set (write_ops p ws)"
  shows "fst op < p_seg_count p"
proof -
  have "fst op \<in> set (map fst (write_ops p ws))" using assms(3) by simp
  then show ?thesis unfolding write_ops_segs [OF assms(1,2)] using wsegs_range [OF assms(1)] by auto
qed

text \<open>The bytes after the operations of some writes are the abstract memory.\<close>

lemma byte_after_writes:
  assumes ok: "psdp_ok p" and ws: "writes_ok p ws" and b: "2 ^ p_address_width p \<le> length b" and x: "x < length b"
  shows "byte_after p x (write_ops p ws) (b ! x) = apply_writes ws b ! x"
proof -
  have sz: "2 ^ p_address_width p \<le> mi_size list_memory b" using b by (simp add: list_memory_def)
  from exec_write_ops [OF list_memory_ok ok ws sz]
    exec_ops_byte [OF list_memory_ok ok sz, of "write_ops p ws"] write_ops_range [OF ok ws] x
  show ?thesis by (auto simp: list_memory_def)
qed

text \<open>The operations of a write that does not contain a byte do not write it.\<close>

lemma split_write_untouched:
  assumes ok: "psdp_ok p" and fit: "a < 2 ^ p_address_width p" "a + length d \<le> 2 ^ p_address_width p"
    and x: "\<not> (a \<le> x \<and> x < a + length d)" and op: "op \<in> set (fst (split_write p a d))"
  shows "op_byte p x op = None"
proof (rule ccontr)
  assume n: "op_byte p x op \<noteq> None"
  let ?N = "2 ^ p_address_width p + x + 1"
  have w: "writes_ok p [(a, d)]" using fit by (simp add: writes_ok_def)
  have "byte_after p x (fst (split_write p a d)) v = v" for v
  proof -
    have "apply_writes [(a, d)] (replicate ?N v) ! x = replicate ?N v ! x"
      unfolding apply_writes_def foldl.simps fst_conv snd_conv using x fit by (subst nth_splice) auto
    moreover have "replicate ?N v ! x = v" by (rule nth_replicate) simp
    moreover have "byte_after p x (write_ops p [(a, d)]) (replicate ?N v ! x) = apply_writes [(a, d)] (replicate ?N v) ! x"
      by (rule byte_after_writes [OF ok w]) simp_all
    ultimately show ?thesis by (simp only: write_ops_def list.map concat.simps fst_conv snd_conv append_Nil2)
  qed
  from this [of 0] this [of 1] byte_after_some [OF op n, of 0 1] show False by simp
qed

text \<open>
  The operations of a write are on distinct words, so the one that writes a byte of its range gives
  it the byte of the data.
\<close>

lemma split_loop_addrs:
  "snd (split_loop p a data segments ks offset seg) = None \<Longrightarrow>
   map (\<lambda>op. sw_addr (snd op)) (fst (split_loop p a data segments ks offset seg)) =
     map (\<lambda>k. int ((a + k * p_seg_byte_lanes p) div p_byte_lanes p)) ks"
  by (induction ks arbitrary: offset seg) (auto simp: Let_def split: sum.splits prod.splits)

lemma split_write_word:
  assumes ok: "psdp_ok p" and fit: "a < 2 ^ p_address_width p" "a + length d \<le> 2 ^ p_address_width p"
    and k: "k < length (fst (split_write p a d))" and x: "op_byte p x (fst (split_write p a d) ! k) \<noteq> None"
  shows "x div p_seg_byte_lanes p = a div p_seg_byte_lanes p + k"
proof -
  let ?ops = "fst (split_write p a d)" let ?l = "p_seg_byte_lanes p"
  note sg = split_write_segs [OF ok fit]
  have len: "length ?ops = seg_words p a (length d)" using arg_cong [OF sg(2), of length] by simp
  have addrs: "map (\<lambda>op. sw_addr (snd op)) ?ops =
      map (\<lambda>k. int ((a + k * ?l) div p_byte_lanes p)) [0..<seg_words p a (length d)]"
    using split_loop_addrs sg(1) by (simp add: split_write_def Let_def)
  have kw: "k < seg_words p a (length d)" using k len by simp
  have ad: "sw_addr (snd (?ops ! k)) = int ((a + k * ?l) div p_byte_lanes p)"
    using arg_cong [OF addrs, of "\<lambda>ys. ys ! k"] k kw by simp
  have fs: "fst (?ops ! k) = (a div ?l + k) mod p_seg_count p"
    using arg_cong [OF sg(2), of "\<lambda>ys. ys ! k"] k kw by (simp add: wsegs_def)
  have "?ops ! k \<in> set ?ops" using k by simp
  from split_write_untouched [OF ok fit _ this, of x] x have n: "0 < length d" by fastforce
  have l: "0 < ?l" using ok by (simp add: psdp_ok_def)
  have "(a div ?l + k) * ?l < 2 ^ p_address_width p"
    using seg_last_byte [OF l n kw] fit(2) by (rule less_le_trans)
  from word_addr(1) [OF ok this]
  have "nat (sw_addr (mask_op p (snd (?ops ! k)))) = (a + k * ?l) div p_byte_lanes p"
    by (simp add: mask_op_def ad)
  with x have "x div ?l = (a + k * ?l) div p_byte_lanes p * p_seg_count p + (a div ?l + k) mod p_seg_count p"
    by (auto simp: op_byte_def fs split: if_splits)
  then show ?thesis unfolding word_position [OF ok] .
qed

lemma split_write_byte:
  assumes ok: "psdp_ok p" and fit: "a < 2 ^ p_address_width p" "a + length d \<le> 2 ^ p_address_width p"
    and op: "op \<in> set (fst (split_write p a d))" and b: "op_byte p x op = Some b"
  shows "a \<le> x \<and> x < a + length d" and "b = d ! (x - a)"
proof -
  let ?ops = "fst (split_write p a d)" let ?N = "2 ^ p_address_width p + x + 1"
  show x: "a \<le> x \<and> x < a + length d" using split_write_untouched [OF ok fit _ op, of x] b by auto
  from op obtain k where k: "k < length ?ops" "?ops ! k = op" by (auto simp: in_set_conv_nth)
  have none: "op_byte p x (?ops ! j) = None" if "j < length ?ops" "j \<noteq> k" for j
  proof (rule ccontr)
    assume "op_byte p x (?ops ! j) \<noteq> None"
    with split_write_word [OF ok fit that(1)] split_write_word [OF ok fit k(1), of x] that(2) b k(2)
    show False by simp
  qed
  have eq: "?ops = take k ?ops @ op # drop (Suc k) ?ops" using id_take_nth_drop [OF k(1)] unfolding k(2) .
  have later: "\<forall>o'\<in>set (drop (Suc k) ?ops). op_byte p x o' = None"
  proof
    fix o' assume "o' \<in> set (drop (Suc k) ?ops)"
    then obtain m where "m < length ?ops - Suc k" "o' = ?ops ! (Suc k + m)" by (auto simp: in_set_conv_nth)
    with none [of "Suc k + m"] show "op_byte p x o' = None" by simp
  qed
  have "byte_after p x ?ops v = b" for v
  proof -
    have "byte_after p x ?ops v = byte_after p x (take k ?ops @ op # drop (Suc k) ?ops) v" by (rule arg_cong [OF eq])
    also have "\<dots> = b" using b byte_after_none [OF later] by (simp add: byte_after_append)
    finally show ?thesis .
  qed
  moreover have "byte_after p x (write_ops p [(a, d)]) (replicate ?N 0 ! x) = apply_writes [(a, d)] (replicate ?N 0) ! x"
    by (rule byte_after_writes [OF ok]) (use fit in \<open>simp_all add: writes_ok_def\<close>)
  moreover have "apply_writes [(a, d)] (replicate ?N 0) ! x = d ! (x - a)"
    unfolding apply_writes_def foldl.simps fst_conv snd_conv using x fit by (subst nth_splice) auto
  ultimately show "b = d ! (x - a)" by (simp add: write_ops_def)
qed

section \<open>Completed writes are in the memory\<close>

lemma op_byte_mask: "op_byte p x (i, mask_op p op) = op_byte p x (i, op)"
  by (simp add: op_byte_def)

lemma byte_after_mask: "byte_after p x (mask_ops p ops) v = byte_after p x ops v"
  by (induction ops arbitrary: v) (auto simp: mask_ops_def op_byte_mask)

lemma take_append_cases:
  assumes "xs @ ys = as @ bs" "length as \<le> length xs"
  obtains r where "xs = as @ r" "bs = r @ ys"
  using assms by (auto simp: append_eq_append_conv2)

text \<open>
  What a byte may hold while writes are under way: what the completed writes give it, or the byte of
  a later write that contains it.
\<close>

definition may_hold :: "(nat \<times> byte list) list \<Rightarrow> nat \<Rightarrow> byte list \<Rightarrow> nat \<Rightarrow> byte set" where
  "may_hold ws n b x = insert (apply_writes (take n ws) b ! x)
     ((\<lambda>v. snd v ! (x - fst v)) ` {v \<in> set (drop n ws). fst v \<le> x \<and> x < fst v + length (snd v)})"

lemma byte_after_cases: "byte_after p x ops v = v \<or> (\<exists>op\<in>set ops. op_byte p x op = Some (byte_after p x ops v))"
proof (induction ops arbitrary: v)
  case (Cons o1 ops)
  from Cons.IH [of "case op_byte p x o1 of Some b \<Rightarrow> b | None \<Rightarrow> v"] show ?case
    by (cases "op_byte p x o1") auto
qed simp

theorem winv_may_hold:
  assumes mem: "memory_ok I" and ok: "psdp_ok p" and sz: "2 ^ p_address_width p \<le> mi_size I m0"
    and w: "winv I p m0 rst ws s" and x: "x < mi_size I m0"
  shows "mi_bytes I (rw_mem (ws_r s)) ! x \<in> may_hold ws (length (mw_done (ws_m s))) (mi_bytes I m0) x"
proof -
  from w obtain ex where i: "writes_ok p ws" "cmds_inv p ws (ws_m s)"
      "ops_inv I p m0 ws ex s" "tokens_inv rst p ws ex s" by (auto simp: winv_def)
  let ?nd = "length (mw_done (ws_m s))" let ?n = "n_split ws (ws_m s)"
  let ?i = "x div p_seg_byte_lanes p mod p_seg_count p"
  let ?dn = "take ?nd ws" let ?rest = "drop ?nd (take ?n ws)"
  have c: "?i < p_seg_count p" using ok by (simp add: psdp_ok_def)
  have le: "?nd \<le> ?n" "?n \<le> length ws" using i(2) by (auto simp: cmds_inv_def n_started_def n_split_def)
  have okd: "writes_ok p ?dn" "writes_ok p ?rest"
    using i(1) by (auto simp: writes_ok_def dest: in_set_takeD in_set_dropD)
  have sp: "take ?n ws = ?dn @ ?rest" using le by (metis append_take_drop_id min.absorb1 take_take)
  have eq: "on_seg ?i ex @ pending p (ws_m s) ?i =
      on_seg ?i (mask_ops p (write_ops p ?dn)) @ on_seg ?i (mask_ops p (write_ops p ?rest))"
  proof -
    have "on_seg ?i ex @ pending p (ws_m s) ?i = on_seg ?i (mask_ops p (write_ops p (take ?n ws)))"
      using i(3) c by (simp add: ops_inv_def)
    also have "take ?n ws = ?dn @ ?rest" by (rule sp)
    finally show ?thesis by (simp add: mask_ops_def)
  qed
  have "length (on_seg ?i (mask_ops p (write_ops p ?dn))) \<le> length (on_seg ?i ex)"
  proof -
    have "length (on_seg ?i (mask_ops p (write_ops p ?dn))) =
        count_list (concat (map (\<lambda>w. wsegs p (fst w) (length (snd w))) ?dn)) ?i"
      by (simp add: on_seg_mask length_on_seg write_ops_segs [OF ok okd(1)])
    also have "\<dots> \<le> tokens p ws s ?i" by (simp add: tokens_def taken_def)
    also have "\<dots> \<le> length (on_seg ?i ex)" using i(4) c by (simp add: tokens_inv_def)
    finally show ?thesis .
  qed
  from take_append_cases [OF eq this] obtain r where
    r: "on_seg ?i ex = on_seg ?i (mask_ops p (write_ops p ?dn)) @ r"
      "on_seg ?i (mask_ops p (write_ops p ?rest)) = r @ pending p (ws_m s) ?i" .
  have byte: "\<exists>v\<in>set (drop ?nd ws). fst v \<le> x \<and> x < fst v + length (snd v) \<and> b = snd v ! (x - fst v)"
    if "op \<in> set (map (Pair ?i) r)" "op_byte p x op = Some b" for op b
  proof -
    have "op \<in> set (map (Pair ?i) (on_seg ?i (mask_ops p (write_ops p ?rest))))"
      using that(1) unfolding r(2) by simp
    then have "op \<in> set (mask_ops p (write_ops p ?rest))" unfolding filter_on_seg [symmetric] by simp
    then obtain o1 where o1: "op = (fst o1, mask_op p (snd o1))" "o1 \<in> set (write_ops p ?rest)"
      by (auto simp: mask_ops_def)
    then obtain v where v: "v \<in> set ?rest" "o1 \<in> set (fst (split_write p (fst v) (snd v)))"
      by (auto simp: write_ops_def)
    have "op_byte p x o1 = Some b" using that(2) unfolding o1(1) op_byte_mask by simp
    with split_write_byte [OF ok _ _ v(2)] writes_okD [OF okd(2) v(1)]
    have "fst v \<le> x \<and> x < fst v + length (snd v) \<and> b = snd v ! (x - fst v)" by blast
    moreover have "v \<in> set (drop ?nd ws)" using v(1) by (metis drop_take in_set_takeD)
    ultimately show ?thesis by blast
  qed
  have rng: "\<forall>op\<in>set ex. fst op < p_seg_count p" using i(3) by (simp add: ops_inv_def)
  have rngd: "\<forall>op\<in>set (mask_ops p (write_ops p ?dn)). fst op < p_seg_count p"
    using write_ops_range [OF ok okd(1)] by (auto simp: mask_ops_def)
  let ?v = "mi_bytes I m0 ! x"
  let ?d = "byte_after p x (map (Pair ?i) (on_seg ?i (mask_ops p (write_ops p ?dn)))) ?v"
  have "mi_bytes I (rw_mem (ws_r s)) ! x = byte_after p x ex ?v"
    using exec_ops_byte [OF mem ok sz rng] i(3) x by (auto simp: ops_inv_def)
  also have "\<dots> = byte_after p x (map (Pair ?i) r) ?d"
    by (subst byte_after_filter [OF rng]) (simp add: filter_on_seg r(1) byte_after_append)
  finally have now: "mi_bytes I (rw_mem (ws_r s)) ! x = byte_after p x (map (Pair ?i) r) ?d" .
  have "?d = byte_after p x (mask_ops p (write_ops p ?dn)) ?v"
    using byte_after_filter [OF rngd, of x ?v] by (simp only: filter_on_seg)
  also have "\<dots> = apply_writes ?dn (mi_bytes I m0) ! x"
    unfolding byte_after_mask using sz x memory_okD(1) [OF mem, of m0]
    by (intro byte_after_writes [OF ok okd(1)]) simp_all
  finally have d: "?d = apply_writes ?dn (mi_bytes I m0) ! x" .
  from byte_after_cases [of p x "map (Pair ?i) r" ?d] byte show ?thesis
    unfolding now may_hold_def d by blast
qed

theorem winv_completed:
  assumes mem: "memory_ok I" and ok: "psdp_ok p" and sz: "2 ^ p_address_width p \<le> mi_size I m0"
    and w: "winv I p m0 rst ws s" and x: "x < mi_size I m0"
    and later: "\<forall>v\<in>set (drop (length (mw_done (ws_m s))) ws). \<not> (fst v \<le> x \<and> x < fst v + length (snd v))"
  shows "mi_bytes I (rw_mem (ws_r s)) ! x =
    apply_writes (take (length (mw_done (ws_m s))) ws) (mi_bytes I m0) ! x"
  using winv_may_hold [OF mem ok sz w x] later by (auto simp: may_hold_def)

lemma length_apply_writes:
  "writes_ok p ws \<Longrightarrow> 2 ^ p_address_width p \<le> length b \<Longrightarrow> length (apply_writes ws b) = length b"
proof (induction ws arbitrary: b)
  case (Cons w ws)
  have l: "length (splice b (fst w) (snd w)) = length b"
    using Cons.prems by (intro length_splice) (auto simp: writes_ok_def)
  have "writes_ok p ws" using Cons.prems(1) by (simp add: writes_ok_def)
  with Cons.IH [OF this, of "splice b (fst w) (snd w)"] Cons.prems(2) l show ?case by (simp add: apply_writes_def)
qed (simp add: apply_writes_def)

lemma winv_cmds: "winv I p m0 rst ws s \<Longrightarrow> cmds_inv p ws (ws_m s)"
  unfolding winv_def by (elim conjE)

lemma winv_done: "winv I p m0 rst ws s \<Longrightarrow>
    mw_done (ws_m s) = map (\<lambda>i. (i, fst (ws ! i), length (snd (ws ! i)))) [0..<length (mw_done (ws_m s))]"
  by (drule winv_cmds) (unfold cmds_inv_def, elim conjE)

lemma idle_all_done: "cmds_inv p ws m \<Longrightarrow> mw_is_idle m \<Longrightarrow> length (mw_done m) = length ws"
  by (simp add: cmds_inv_def mw_is_idle_def)

theorem winv_idle:
  assumes mem: "memory_ok I" and ok: "psdp_ok p" and sz: "2 ^ p_address_width p \<le> mi_size I m0"
    and w: "winv I p m0 rst ws s" and idle: "mw_is_idle (ws_m s)"
  shows "mi_bytes I (rw_mem (ws_r s)) = apply_writes ws (mi_bytes I m0)"
proof -
  from w obtain ex where i: "writes_ok p ws" "cmds_inv p ws (ws_m s)" "ops_inv I p m0 ws ex s" by (auto simp: winv_def)
  have nd: "length (mw_done (ws_m s)) = length ws" by (rule idle_all_done [OF i(2) idle])
  have len: "length (mi_bytes I (rw_mem (ws_r s))) = mi_size I m0"
    using i(3) memory_okD(1) [OF mem] by (simp add: ops_inv_def)
  have l0: "length (mi_bytes I m0) = mi_size I m0" by (rule memory_okD(1) [OF mem])
  show ?thesis
  proof (rule nth_equalityI)
    show "length (mi_bytes I (rw_mem (ws_r s))) = length (apply_writes ws (mi_bytes I m0))"
      using length_apply_writes [OF i(1), of "mi_bytes I m0"] sz by (simp add: len l0)
    fix x assume "x < length (mi_bytes I (rw_mem (ws_r s)))"
    then have "x < mi_size I m0" by (simp add: len)
    from winv_completed [OF mem ok sz w this] show "mi_bytes I (rw_mem (ws_r s)) ! x = apply_writes ws (mi_bytes I m0) ! x"
      by (simp add: nd)
  qed
qed

end
