(* ===== verification/Psdp_Write_Live.thy ===== *)
theory Psdp_Write_Live
  imports Psdp_Write_Thm
begin

text \<open>
  Progress of the connected write side: while neither side is paused, a number of edges bounded
  by the longest segment queue performs every queued operation, and then the response coroutine
  completes every write, provided no reset has taken a \<open>wr_done\<close> away.
\<close>

section \<open>Edges drain the queues\<close>

primrec write_clock :: "'m memory_if \<Rightarrow> psdp \<Rightarrow> nat \<Rightarrow> 'm wsys \<Rightarrow> exn + 'm wsys" where
  "write_clock I p 0 s = Inr s"
| "write_clock I p (Suc n) s =
     (case ram_edge I p False s of
        Inl e \<Rightarrow> Inl e
      | Inr r' \<Rightarrow> write_clock I p n \<lparr>ws_m = master_edge p False s, ws_r = r'\<rparr>)"

definition unpaused :: "'m wsys \<Rightarrow> bool" where
  "unpaused s \<longleftrightarrow> \<not> ps_pause (mw_pause (ws_m s)) \<and> \<not> ps_pause (rw_pause (ws_r s))"

text \<open>Both sides are running: the RAM is ready and no segment has a queue but no command.\<close>

definition flowing :: "psdp \<Rightarrow> 'm wsys \<Rightarrow> bool" where
  "flowing p s \<longleftrightarrow> unpaused s \<and> rw_cmd_ready (ws_r s) = 2 ^ p_seg_count p - 1 \<and>
     rw_bus_ready (ws_r s) = rw_cmd_ready (ws_r s) \<and>
     (\<forall>i < p_seg_count p. \<not> bit (mw_cmd_valid (ws_m s)) i \<longrightarrow> mw_segs (ws_m s) ! i = [])"

lemma master_edge_view:
  assumes w: "winv I p m0 rst ws s" and i: "i < p_seg_count p"
  shows "mw_view p i (master_edge p False s) =
    mw_view_step p (bit (rw_bus_ready (ws_r s)) i) (bit (rw_bus_done (ws_r s)) i) (ps_pause (mw_pause (ws_m s)))
      (mw_view p i (ws_m s))"
proof -
  have "length (mw_segs (ws_m s)) = p_seg_count p" "length (mw_resps (ws_m s)) = p_seg_count p"
    using w by (simp_all add: winv_def cmds_inv_def)
  from mw_run_views(2) [OF this i] show ?thesis by (simp add: master_edge_def)
qed

lemma master_edge_frame:
  assumes w: "winv I p m0 rst ws s"
  shows "mw_frame (ws_m s) (master_edge p False s)"
proof -
  have "length (mw_segs (ws_m s)) = p_seg_count p" "length (mw_resps (ws_m s)) = p_seg_count p"
    using w by (simp_all add: winv_def cmds_inv_def)
  from mw_run_views(1) [OF this] show ?thesis by (simp add: master_edge_def)
qed

text \<open>After any edge without pauses both sides are running.\<close>

lemma edge_flowing:
  assumes w: "winv I p m0 rst ws s" and u: "unpaused s"
    and r: "rw_pause r' = rw_pause (ws_r s)" "rw_bus_ready r' = rw_cmd_ready r'"
      "rw_cmd_ready r' = (if ps_pause (rw_pause (ws_r s)) then 0 else 2 ^ p_seg_count p - 1)"
  shows "flowing p \<lparr>ws_m = master_edge p False s, ws_r = r'\<rparr>"
proof -
  have "mw_segs (master_edge p False s) ! i = []"
    if "i < p_seg_count p" "\<not> bit (mw_cmd_valid (master_edge p False s)) i" for i
    using master_edge_view [OF w that(1)] that(2) u
    by (auto simp: mw_view_def mw_view_step_def Let_def unpaused_def split: if_splits)
  moreover have "mw_pause (master_edge p False s) = mw_pause (ws_m s)"
    using master_edge_frame [OF w] by (simp add: mw_frame_def)
  ultimately show ?thesis using u r by (simp add: flowing_def unpaused_def)
qed

text \<open>The pending operations never grow, and shrink while both sides are running.\<close>

lemma edge_pending:
  assumes w: "winv I p m0 rst ws s" and i: "i < p_seg_count p"
  shows "length (pending p (master_edge p False s) i) \<le> length (pending p (ws_m s) i)"
    and "flowing p s \<Longrightarrow> length (pending p (master_edge p False s) i) = length (pending p (ws_m s) i) - 1"
  using master_edge_view [OF w i] i
  by (auto simp: pending_def pending_view_def mw_view_def mw_view_step_def Let_def flowing_def bit_exp_mask unpaused_def)

lemma clock_flowing:
  assumes mem: "memory_ok I" and ok: "psdp_ok p" and sz: "2 ^ p_address_width p \<le> mi_size I m0"
  shows "winv I p m0 rst ws s \<Longrightarrow> flowing p s \<Longrightarrow> \<forall>i < p_seg_count p. length (pending p (ws_m s) i) \<le> n \<Longrightarrow>
    \<exists>s'. write_clock I p n s = Inr s' \<and> winv I p m0 rst ws s' \<and> flowing p s' \<and> mw_frame (ws_m s) (ws_m s') \<and>
      (\<forall>i < p_seg_count p. pending p (ws_m s') i = [])"
proof (induction n arbitrary: s)
  case 0
  then show ?case by (auto simp: mw_frame_def)
next
  case (Suc n)
  from winv_edge [OF mem ok sz Suc.prems(1)] obtain r' where r': "ram_edge I p False s = Inr r'"
    "rw_pause r' = rw_pause (ws_r s)" "rw_bus_ready r' = rw_cmd_ready r'"
    "rw_cmd_ready r' = (if ps_pause (rw_pause (ws_r s)) then 0 else 2 ^ p_seg_count p - 1)"
    "winv I p m0 rst ws \<lparr>ws_m = master_edge p False s, ws_r = r'\<rparr>" by metis
  let ?s = "\<lparr>ws_m = master_edge p False s, ws_r = r'\<rparr>"
  have "unpaused s" using Suc.prems(2) by (simp add: flowing_def)
  from edge_flowing [OF Suc.prems(1) this r'(2-4)] have f: "flowing p ?s" .
  have "\<forall>i < p_seg_count p. length (pending p (ws_m ?s) i) \<le> n"
    using edge_pending(2) [OF Suc.prems(1) _ Suc.prems(2)] Suc.prems(3) by (auto simp: le_diff_conv)
  from Suc.IH [OF r'(5) f this] obtain s' where s': "write_clock I p n ?s = Inr s'" "winv I p m0 rst ws s'"
    "flowing p s'" "mw_frame (ws_m ?s) (ws_m s')" "\<forall>i < p_seg_count p. pending p (ws_m s') i = []" by blast
  have "mw_frame (ws_m s) (ws_m s')"
    using s'(4) master_edge_frame [OF Suc.prems(1)] by (simp add: mw_frame_def)
  with s' r'(1) show ?case by auto
qed

text \<open>Drained: nothing is queued or on its way, and all tokens have arrived.\<close>

definition drained :: "psdp \<Rightarrow> 'm wsys \<Rightarrow> bool" where
  "drained p s \<longleftrightarrow> (\<forall>i < p_seg_count p. pending p (ws_m s) i = [] \<and> \<not> bit (rw_bus_done (ws_r s)) i)"

lemma write_clock_add: "write_clock I p (a + b) s =
    (case write_clock I p a s of Inl e \<Rightarrow> Inl e | Inr s' \<Rightarrow> write_clock I p b s')"
  by (induction a arbitrary: s) (auto split: sum.split)

lemma clock_drains:
  assumes mem: "memory_ok I" and ok: "psdp_ok p" and sz: "2 ^ p_address_width p \<le> mi_size I m0"
    and w: "winv I p m0 rst ws s" and u: "unpaused s"
    and n: "\<forall>i < p_seg_count p. length (pending p (ws_m s) i) \<le> n"
  shows "\<exists>s'. write_clock I p (n + 2) s = Inr s' \<and> winv I p m0 rst ws s' \<and> drained p s' \<and> mw_frame (ws_m s) (ws_m s')"
proof -
  from winv_edge [OF mem ok sz w] obtain r1 where r1: "ram_edge I p False s = Inr r1"
    "rw_pause r1 = rw_pause (ws_r s)" "rw_bus_ready r1 = rw_cmd_ready r1"
    "rw_cmd_ready r1 = (if ps_pause (rw_pause (ws_r s)) then 0 else 2 ^ p_seg_count p - 1)"
    "winv I p m0 rst ws \<lparr>ws_m = master_edge p False s, ws_r = r1\<rparr>" by metis
  let ?s = "\<lparr>ws_m = master_edge p False s, ws_r = r1\<rparr>"
  have "\<forall>i < p_seg_count p. length (pending p (ws_m ?s) i) \<le> n"
    using edge_pending(1) [OF w] n by (auto intro: le_trans)
  from clock_flowing [OF mem ok sz r1(5) edge_flowing [OF w u r1(2-4)] this] obtain s1 where
    s1: "write_clock I p n ?s = Inr s1" "winv I p m0 rst ws s1" "flowing p s1" "mw_frame (ws_m ?s) (ws_m s1)"
      "\<forall>i < p_seg_count p. pending p (ws_m s1) i = []" by blast
  have "bus_agree s1" using s1(2) by (simp add: winv_def)
  from winv_edge [OF mem ok sz s1(2)] obtain r2 where r2: "ram_edge I p False s1 = Inr r2"
    "winv I p m0 rst ws \<lparr>ws_m = master_edge p False s1, ws_r = r2\<rparr>" by metis
  let ?s2 = "\<lparr>ws_m = master_edge p False s1, ws_r = r2\<rparr>"
  have v: "\<not> bit (mw_bus_valid (ws_m s1)) i" if "i < p_seg_count p" for i
    using s1(5) that \<open>bus_agree s1\<close>
    by (auto simp: bus_agree_def pending_def pending_view_def mw_view_def)
  have dn: "\<not> bit (rw_bus_done r2) i" if i: "i < p_seg_count p" for i
  proof -
    from s1(2) obtain ex where "ops_inv I p m0 ws ex s1" by (auto simp: winv_def)
    then have "2 ^ p_address_width p \<le> mi_size I (rw_mem (ws_r s1))" using sz by (simp add: ops_inv_def)
    from rw_run_run [OF mem ok this refl] r2(1) v [OF i] i show ?thesis
      unfolding ram_edge_def by (metis Inr_inject)
  qed
  have "drained p ?s2"
    using edge_pending(1) [OF s1(2)] s1(5) dn by (auto simp: drained_def)
  moreover have "mw_frame (ws_m s) (ws_m ?s2)"
    using s1(4) master_edge_frame [OF w] master_edge_frame [OF s1(2)] by (simp add: mw_frame_def)
  moreover have "write_clock I p (n + 2) s = Inr ?s2"
  proof -
    have "write_clock I p (n + 2) s = write_clock I p (Suc (n + 1)) s" by simp
    also have "\<dots> = write_clock I p (n + 1) ?s" using r1(1) by simp
    also have "\<dots> = Inr ?s2" using s1(1) r2(1) by (simp only: write_clock_add) simp
    finally show ?thesis .
  qed
  ultimately show ?thesis using r2(2) by blast
qed

section \<open>The response coroutine finishes\<close>

primrec resp_steps :: "psdp \<Rightarrow> nat \<Rightarrow> mw \<Rightarrow> mw" where
  "resp_steps p 0 m = m"
| "resp_steps p (Suc n) m = (case mw_process_resp p m of None \<Rightarrow> m | Some m' \<Rightarrow> resp_steps p n m')"

text \<open>The steps that are left.\<close>

definition resp_work :: "psdp \<Rightarrow> (nat \<times> byte list) list \<Rightarrow> mw \<Rightarrow> nat" where
  "resp_work p ws m =
     sum_list (map (\<lambda>w. seg_words p (fst w) (length (snd w)) + 2) (drop (length (mw_done m)) ws)) -
     (case mw_current_resp m of None \<Rightarrow> 0 | Some (c, seg, k) \<Rightarrow> k + 1)"

lemma resp_step_frame:
  assumes "mw_process_resp p m = Some m'"
  shows "mw_cmds m' = mw_cmds m" "pending p m' = pending p m"
  using assms
  by (auto simp: mw_process_resp_def pending_def pending_view_def mw_view_def fun_eq_iff
      split: option.splits list.splits if_splits)

lemma count_list_take_less: "w ! k = x \<Longrightarrow> k < length w \<Longrightarrow> count_list (take k w) x < count_list w x"
proof -
  assume x: "w ! k = x" and k: "k < length w"
  have "count_list w x = count_list (take k w @ x # drop (Suc k) w) x"
    unfolding x [symmetric] by (simp only: id_take_nth_drop [OF k, symmetric])
  then show ?thesis by simp
qed

text \<open>While writes are in flight the coroutine is not stuck, and each step leaves less to do.\<close>

lemma resp_progress:
  assumes ok: "psdp_ok p" and w: "winv I p m0 False ws s" and d: "drained p s" and c: "mw_cmds (ws_m s) = []"
    and f: "\<not> mw_is_idle (ws_m s)"
  shows "\<exists>m'. mw_process_resp p (ws_m s) = Some m' \<and> resp_work p ws m' < resp_work p ws (ws_m s)"
proof -
  from w obtain ex where i: "writes_ok p ws" "cmds_inv p ws (ws_m s)"
      "ops_inv I p m0 ws ex s" "tokens_inv False p ws ex s" by (auto simp: winv_def)
  let ?m = "ws_m s" let ?nd = "length (mw_done (ws_m s))"
  have ns: "n_split ws ?m = length ws" using c by (simp add: n_split_def)
  have "?nd \<le> length ws" using i(2) by (simp add: cmds_inv_def n_started_def ns)
  moreover have "mw_in_flight ?m = int (length ws) - int ?nd" using i(2) by (simp add: cmds_inv_def)
  ultimately have nd: "?nd < length ws" using f by (simp add: mw_is_idle_def)
  have dr: "drop ?nd ws = ws ! ?nd # drop (Suc ?nd) ws" using nd by (simp add: Cons_nth_drop_Suc)
  show ?thesis
  proof (cases "mw_current_resp ?m")
    case None
    then have "mw_resp_cmds ?m \<noteq> []" using i(2) nd by (auto simp: cmds_inv_def n_started_def ns)
    then obtain e es where "mw_resp_cmds ?m = e # es" by (cases "mw_resp_cmds ?m") auto
    with None dr show ?thesis by (simp add: mw_process_resp_def resp_work_def)
  next
    case (Some x)
    obtain e seg k where x: "x = (e, seg, k)" by (cases x)
    have e: "e = rcmd p ws ?nd" "k \<le> rcm_segments e"
      "seg = (rcm_address e div p_seg_byte_lanes p + k) mod p_seg_count p"
      using i(2) Some x by (auto simp: cmds_inv_def)
    have ea: "rcm_address e = fst (ws ! ?nd)" "rcm_length e = length (snd (ws ! ?nd))"
      "rcm_segments e = seg_words p (fst (ws ! ?nd)) (length (snd (ws ! ?nd)))"
      by (simp_all add: e(1) rcmd_def Let_def)
    show ?thesis
    proof (cases "k < rcm_segments e")
      case False
      with Some x e(2) dr show ?thesis by (simp add: mw_process_resp_def resp_work_def ea)
    next
      case True
      have sg: "seg < p_seg_count p" using ok by (simp add: e(3) psdp_ok_def)
      let ?g = "\<lambda>w. wsegs p (fst w) (length (snd w))" let ?all = "concat (map ?g ws)"
      have "on_seg seg ex = on_seg seg (mask_ops p (write_ops p ws))"
        using i(3) d sg by (auto simp: ops_inv_def drained_def ns)
      then have ex: "length (on_seg seg ex) = count_list ?all seg"
        by (simp add: on_seg_mask length_on_seg write_ops_segs [OF ok i(1)])
      have "?all = concat (map ?g (take ?nd ws @ ws ! ?nd # drop (Suc ?nd) ws))"
        by (simp only: id_take_nth_drop [OF nd, symmetric])
      also have "\<dots> = concat (map ?g (take ?nd ws)) @ wsegs p (rcm_address e) (rcm_length e) @
          concat (map ?g (drop (Suc ?nd) ws))"
        by (simp add: ea)
      finally have "?all = concat (map ?g (take ?nd ws)) @ wsegs p (rcm_address e) (rcm_length e) @
          concat (map ?g (drop (Suc ?nd) ws))" .
      then have all: "count_list ?all seg = count_list (concat (map ?g (take ?nd ws))) seg +
          (count_list (wsegs p (rcm_address e) (rcm_length e)) seg + count_list (concat (map ?g (drop (Suc ?nd) ws))) seg)"
        by (simp only: count_list_append)
      have "wsegs p (rcm_address e) (rcm_length e) ! k = seg" "k < length (wsegs p (rcm_address e) (rcm_length e))"
        using True by (simp_all add: ea e(3)) (simp add: wsegs_def)
      then have "count_list (take k (wsegs p (rcm_address e) (rcm_length e))) seg <
          count_list (wsegs p (rcm_address e) (rcm_length e)) seg"
        by (rule count_list_take_less)
      then have "count_list (taken p ws ?m) seg < count_list ?all seg"
        unfolding taken_def Some x all by simp
      then have "mw_resps ?m ! seg \<noteq> 0"
        using i(4) sg d ex by (auto simp: tokens_inv_def tokens_def drained_def)
      with Some x True dr show ?thesis by (simp add: mw_process_resp_def resp_work_def ea)
    qed
  qed
qed

lemma resp_steps_finish:
  assumes ok: "psdp_ok p"
  shows "winv I p m0 False ws s \<Longrightarrow> drained p s \<Longrightarrow> mw_cmds (ws_m s) = [] \<Longrightarrow> resp_work p ws (ws_m s) \<le> n \<Longrightarrow>
    winv I p m0 False ws (s\<lparr>ws_m := resp_steps p n (ws_m s)\<rparr>) \<and> mw_is_idle (resp_steps p n (ws_m s))"
proof (induction n arbitrary: s)
  case 0
  then show ?case using resp_progress [OF ok 0(1-3)] by auto
next
  case (Suc n)
  show ?case
  proof (cases "mw_process_resp p (ws_m s)")
    case None
    then show ?thesis using resp_progress [OF ok Suc.prems(1-3)] Suc.prems(1) by auto
  next
    case (Some m')
    let ?s = "s\<lparr>ws_m := m'\<rparr>"
    have w: "winv I p m0 False ws ?s" using winv_respond [OF ok Suc.prems(1) Some] .
    have d: "drained p ?s" "mw_cmds (ws_m ?s) = []"
      using Suc.prems(2,3) resp_step_frame [OF Some] by (simp_all add: drained_def)
    show ?thesis
    proof (cases "mw_is_idle (ws_m s)")
      case True
      with Suc.prems(1,3) Some have False
        by (auto simp: winv_def cmds_inv_def mw_is_idle_def n_started_def n_split_def mw_process_resp_def
            split: option.splits list.splits)
      then show ?thesis ..
    next
      case False
      from resp_progress [OF ok Suc.prems(1-3) False] Some Suc.prems(4)
      have "resp_work p ws (ws_m ?s) \<le> n" by simp
      from Suc.IH [OF w d this] Some show ?thesis by simp
    qed
  qed
qed

section \<open>Reachability of the runs\<close>

lemma write_clock_reach: "wreach I p m0 rst ws s \<Longrightarrow> write_clock I p n s = Inr s' \<Longrightarrow> wreach I p m0 rst ws s'"
  by (induction n arbitrary: s) (auto split: sum.splits intro: wreach.edge)

lemma resp_steps_reach: "wreach I p m0 rst ws s \<Longrightarrow> wreach I p m0 rst ws (s\<lparr>ws_m := resp_steps p n (ws_m s)\<rparr>)"
proof (induction n arbitrary: s)
  case (Suc n)
  then show ?case
  proof (cases "mw_process_resp p (ws_m s)")
    case (Some m')
    from Suc.IH [OF wreach.respond [OF Suc.prems Some]] Some show ?thesis by simp
  qed simp
qed simp

theorem writes_complete:
  assumes mem: "memory_ok I" and ok: "psdp_ok p" and sz: "2 ^ p_address_width p \<le> mi_size I m0"
    and r: "wreach I p m0 False ws s" and c: "mw_cmds (ws_m s) = []" and u: "unpaused s"
    and n: "\<forall>i < p_seg_count p. length (pending p (ws_m s) i) \<le> n"
  shows "\<exists>s' k. write_clock I p (n + 2) s = Inr s' \<and> wreach I p m0 False ws (s'\<lparr>ws_m := resp_steps p k (ws_m s')\<rparr>) \<and>
    mw_is_idle (resp_steps p k (ws_m s'))"
proof -
  have w: "winv I p m0 False ws s" by (rule wreach_winv [OF mem ok sz r])
  from clock_drains [OF mem ok sz w u n] obtain s' where s': "write_clock I p (n + 2) s = Inr s'"
    "winv I p m0 False ws s'" "drained p s'" "mw_frame (ws_m s) (ws_m s')" by blast
  have "mw_cmds (ws_m s') = []" using s'(4) c by (simp add: mw_frame_def)
  from resp_steps_finish [OF ok s'(2,3) this order_refl]
  have "mw_is_idle (resp_steps p (resp_work p ws (ws_m s')) (ws_m s'))" by blast
  with s'(1) resp_steps_reach [OF write_clock_reach [OF r s'(1)]] show ?thesis by blast
qed

text \<open>Every list of acceptable writes can be carried out.\<close>

lemma mw_run_pause [simp]: "mw_pause (mw_run p reset ready done' s) = mw_pause s"
proof -
  have "mw_pause (fold (mw_run_seg p ready done') js s) = mw_pause s" for js
    by (induction js arbitrary: s) (simp_all add: mw_run_seg_def Let_def)
  then show ?thesis by (simp add: mw_run_def Let_def)
qed

lemma write_clock_unpaused: "write_clock I p n s = Inr s' \<Longrightarrow> unpaused s \<Longrightarrow> unpaused s'"
proof (induction n arbitrary: s)
  case (Suc n)
  have "rw_pause r' = rw_pause (ws_r s)" if "ram_edge I p False s = Inr r'" for r'
    using that by (auto simp: ram_edge_def rw_run_def Let_def split: sum.splits)
  with Suc show ?case by (auto simp: unpaused_def master_edge_def split: sum.splits)
qed simp

lemma resp_steps_pause [simp]: "mw_pause (resp_steps p n m) = mw_pause m"
proof (induction n arbitrary: m)
  case (Suc n)
  have "mw_pause m' = mw_pause m" if "mw_process_resp p m = Some m'" for m'
    using that by (auto simp: mw_process_resp_def split: option.splits list.splits if_splits)
  with Suc show ?case by (auto split: option.split)
qed simp

lemma bound_exists: "\<exists>n. \<forall>i < (k :: nat). f i \<le> (n :: nat)"
proof (induction k)
  case (Suc k)
  then obtain n where "\<forall>i < k. f i \<le> n" by blast
  then have "\<forall>i < Suc k. f i \<le> max n (f k)" by (auto simp: less_Suc_eq le_max_iff_disj)
  then show ?case by blast
qed simp

lemma idle_no_cmds:
  assumes c: "cmds_inv p ws m" and i: "mw_is_idle m"
  shows "mw_cmds m = []"
proof -
  have "length (mw_done m) \<le> length ws - length (mw_cmds m)" "length (mw_cmds m) \<le> length ws"
    using c unfolding cmds_inv_def n_started_def n_split_def by linarith+
  moreover have "length (mw_done m) = length ws" by (rule idle_all_done [OF c i])
  ultimately have "length (mw_cmds m) = 0" by linarith
  then show ?thesis by simp
qed

lemma process_last:
  "mw_cmds m = [c] \<Longrightarrow> mw_cmds (snd (mw_process_write p m)) = [] \<and> mw_pause (snd (mw_process_write p m)) = mw_pause m"
  by (simp add: mw_process_write_def Let_def)

theorem writes_possible:
  assumes mem: "memory_ok I" and ok: "psdp_ok p" and sz: "2 ^ p_address_width p \<le> mi_size I m0"
  shows "writes_ok p ws \<Longrightarrow> \<exists>s. wreach I p m0 False ws s \<and> mw_is_idle (ws_m s) \<and> unpaused s"
proof (induction ws rule: rev_induct)
  case Nil
  have "mw_is_idle (mw_init p)" "unpaused \<lparr>ws_m = mw_init p, ws_r = rw_init m0\<rparr>"
    by (simp_all add: mw_is_idle_def mw_init_def unpaused_def rw_init_def pause_init_def)
  with wreach.start [of I p m0] show ?case by force
next
  case (snoc w ws)
  obtain a d where w: "w = (a, d)" by (cases w)
  have fit: "a < 2 ^ p_address_width p" "a + length d \<le> 2 ^ p_address_width p" and "writes_ok p ws"
    using snoc.prems by (auto simp: writes_ok_def w)
  with snoc.IH obtain s where s: "wreach I p m0 False ws s" "mw_is_idle (ws_m s)" "unpaused s" by blast
  have "int a < int (2 ^ p_address_width p)" "int (a + length d) \<le> int (2 ^ p_address_width p)"
    using fit by (simp_all only: of_nat_less_iff of_nat_le_iff)
  then obtain e m1 where m1: "mw_write p (int a) (Inr d) (ws_m s) = (Inr e, m1)" by (simp add: mw_write_def)
  obtain res m2 where m2: "mw_process_write p m1 = (res, m2)" by (cases "mw_process_write p m1")
  let ?s1 = "s\<lparr>ws_m := m1\<rparr>" let ?s2 = "s\<lparr>ws_m := m2\<rparr>"
  have "wreach I p m0 False (ws @ [(nat (int a), d)]) ?s1" by (rule wreach.accept [OF s(1) m1])
  then have r1: "wreach I p m0 False (ws @ [w]) ?s1" by (simp add: w)
  have r2: "wreach I p m0 False (ws @ [w]) ?s2" using wreach.split [OF r1, of res m2] m2 by simp
  have "cmds_inv p ws (ws_m s)" using wreach_winv [OF mem ok sz s(1)] unfolding winv_def by blast
  then have c0: "mw_cmds (ws_m s) = []" by (rule idle_no_cmds [OF _ s(2)])
  have c2: "mw_cmds m2 = []" "mw_pause m2 = mw_pause (ws_m s)"
  proof -
    have "mw_cmds m1 = [\<lparr>wcm_address = nat (int a), wcm_data = d, wcm_event = mw_next_event (ws_m s)\<rparr>]"
      "mw_pause m1 = mw_pause (ws_m s)" using c0 by (simp_all add: mw_write_accept(2) [OF m1])
    from process_last [OF this(1), of p] this(2) m2
    show "mw_cmds m2 = []" "mw_pause m2 = mw_pause (ws_m s)" by simp_all
  qed
  have u2: "unpaused ?s2" using s(3) c2(2) by (simp add: unpaused_def)
  obtain n where n: "\<forall>i < p_seg_count p. length (pending p (ws_m ?s2) i) \<le> n"
    using bound_exists [where f = "\<lambda>i. length (pending p (ws_m ?s2) i)"] ..
  have "mw_cmds (ws_m ?s2) = []" using c2 by simp
  from writes_complete [OF mem ok sz r2 this u2 n] obtain s' k where s':
    "write_clock I p (n + 2) ?s2 = Inr s'" "wreach I p m0 False (ws @ [w]) (s'\<lparr>ws_m := resp_steps p k (ws_m s')\<rparr>)"
    "mw_is_idle (resp_steps p k (ws_m s'))" by blast
  have "unpaused (s'\<lparr>ws_m := resp_steps p k (ws_m s')\<rparr>)"
    using write_clock_unpaused [OF s'(1) u2] by (simp add: unpaused_def)
  with s'(2,3) show ?case by force
qed

end
