(* ===== verification/Psdp_Read_Live.thy ===== *)
theory Psdp_Read_Live
  imports Psdp_Read_Reach Psdp_Write_Live
begin

text \<open>
  Progress of the connected read side: while neither side is paused, a number of edges bounded by
  three times the longest segment queue brings every answer, and then the response coroutine
  completes every read.
\<close>

section \<open>Edges bring every answer\<close>

primrec read_clock :: "'m memory_if \<Rightarrow> psdp \<Rightarrow> nat \<Rightarrow> 'm rsys \<Rightarrow> exn + 'm rsys" where
  "read_clock I p 0 s = Inr s"
| "read_clock I p (Suc n) s =
     (case rram_edge I p s of
        Inl e \<Rightarrow> Inl e
      | Inr r' \<Rightarrow> read_clock I p n \<lparr>rs_m = rmaster_edge p s, rs_r = r'\<rparr>)"

definition runpaused :: "'m rsys \<Rightarrow> bool" where
  "runpaused s \<longleftrightarrow> \<not> ps_pause (mr_pause (rs_m s)) \<and> \<not> ps_pause (rr_pause (rs_r s))"

text \<open>The edges that the words of a segment still need, at most.\<close>

definition words_left :: "int option \<times> bool \<times> bool \<times> int \<Rightarrow> nat" where
  "words_left y = (case y of (pipe, cr, rv, d) \<Rightarrow> (if pipe = None then 0 else 2) + (if rv then 1 else 0))"

definition read_left :: "psdp \<Rightarrow> 'm rsys \<Rightarrow> nat \<Rightarrow> nat" where
  "read_left p s i = 3 * length (asks_view p (mr_view p i (rs_m s))) + words_left (rr_view p i (rs_r s))"

definition rflowing :: "psdp \<Rightarrow> 'm rsys \<Rightarrow> bool" where
  "rflowing p s \<longleftrightarrow> runpaused s \<and> mr_resp_ready (rs_m s) = 2 ^ p_seg_count p - 1 \<and>
     (\<forall>i < p_seg_count p. (\<not> bit (mr_cmd_valid (rs_m s)) i \<longrightarrow> mr_segs (rs_m s) ! i = []) \<and>
        (bit (rr_cmd_ready (rs_r s)) i \<longleftrightarrow> \<not> bit (rr_resp_valid (rs_r s)) i \<or> rr_pipe (rs_r s) ! i = None))"

text \<open>What an edge does to one segment, with the signals replaced by the registers they carry.\<close>

lemma segment_edge:
  assumes w: "rinv I p m0 G rs s" and i: "i < p_seg_count p"
  shows "\<exists>d. mr_view p i (rmaster_edge p s) =
    mr_view_step p (bit (rr_cmd_ready (rs_r s)) i) (ps_pause (mr_pause (rs_m s))) d (mr_view p i (rs_m s))"
proof -
  have len: "length (mr_segs (rs_m s)) = p_seg_count p" "length (mr_resps (rs_m s)) = p_seg_count p"
    and ba: "rr_bus_ready (rs_r s) = rr_cmd_ready (rs_r s)"
    using w by (simp_all add: rinv_def rcmds_inv_def rbus_agree_def)
  from mr_run_views(2) [OF len i] show ?thesis unfolding rmaster_edge_def ba by blast
qed

lemma rmaster_edge_frame:
  assumes w: "rinv I p m0 G rs s"
  shows "mr_frame (rs_m s) (rmaster_edge p s)"
    and "mr_resp_ready (rmaster_edge p s) = (if ps_pause (mr_pause (rs_m s)) then 0 else 2 ^ p_seg_count p - 1)"
proof -
  have len: "length (mr_segs (rs_m s)) = p_seg_count p" "length (mr_resps (rs_m s)) = p_seg_count p"
    using w by (simp_all add: rinv_def rcmds_inv_def)
  from mr_run_views(1) [OF len] show "mr_frame (rs_m s) (rmaster_edge p s)" by (simp add: rmaster_edge_def)
qed (simp add: rmaster_edge_def mr_run_def Let_def)

lemma redge_flowing:
  assumes w: "rinv I p m0 G rs s" and u: "runpaused s" and fr: "rr_frame p (rs_r s) r'"
    and rv: "\<And>i. i < p_seg_count p \<Longrightarrow> rr_view p i r' =
      (case rr_view_step p (bit (mr_resp_ready (rs_m s)) i) (bit (mr_cmd_valid (rs_m s)) i) (wd i) (rr_view p i (rs_r s)) of
        (pipe, cr, rv, d) \<Rightarrow> (pipe, cr \<and> \<not> ps_pause (rr_pause (rs_r s)), rv, d))"
  shows "rflowing p \<lparr>rs_m = rmaster_edge p s, rs_r = r'\<rparr>"
proof -
  have "mr_segs (rmaster_edge p s) ! i = []"
    if i: "i < p_seg_count p" and v: "\<not> bit (mr_cmd_valid (rmaster_edge p s)) i" for i
  proof -
    obtain q v0 a ws where x: "mr_view p i (rs_m s) = (q, v0, a, ws)" by (metis prod_cases4)
    have "(mr_segs (rmaster_edge p s) ! i, bit (mr_cmd_valid (rmaster_edge p s)) i) =
        (case mr_view p i (rmaster_edge p s) of (q, v, a, ws) \<Rightarrow> (q, v))" by (simp add: mr_view_def)
    with segment_edge [OF w i] v u show ?thesis
      unfolding x by (auto simp: mr_view_step_def Let_def runpaused_def split: if_splits)
  qed
  moreover have "bit (rr_cmd_ready r') i \<longleftrightarrow> \<not> bit (rr_resp_valid r') i \<or> rr_pipe r' ! i = None"
    if i: "i < p_seg_count p" for i
  proof -
    obtain y1 y2 y3 y4 where y: "rr_view_step p (bit (mr_resp_ready (rs_m s)) i) (bit (mr_cmd_valid (rs_m s)) i) (wd i)
        (rr_view p i (rs_r s)) = (y1, y2, y3, y4)" by (metis prod_cases4)
    then have "y2 \<longleftrightarrow> \<not> y3 \<or> y1 = None" by (auto simp: rr_view_step_def Let_def split: prod.splits)
    with rv [OF i] u show ?thesis unfolding y by (simp add: rr_view_def runpaused_def)
  qed
  moreover have "mr_pause (rmaster_edge p s) = mr_pause (rs_m s)" "rr_pause r' = rr_pause (rs_r s)"
    using rmaster_edge_frame(1) [OF w] fr by (simp_all add: mr_frame_def rr_frame_def)
  ultimately show ?thesis
    using u rmaster_edge_frame(2) [OF w] by (simp add: rflowing_def runpaused_def)
qed

lemma words_left_step:
  assumes "y = (pipe, cr, rv, d)" "cr \<Longrightarrow> \<not> rv \<or> pipe = None"
  shows "words_left (rr_view_step p rdy valid w y) \<le> words_left y + (if cr \<and> valid then 2 else 0)"
    and "rdy \<Longrightarrow> 0 < words_left y \<Longrightarrow> words_left (rr_view_step p rdy valid w y) < words_left y + (if cr \<and> valid then 2 else 0)"
  using assms
  by (cases rv; cases pipe; auto simp: words_left_def rr_view_step_def rr_advance_view_def Let_def)+

lemma words_left_case: "words_left (case y of (pipe, cr, rv, d) \<Rightarrow> (pipe, cr \<and> b, rv, d)) = words_left y"
  by (simp add: words_left_def split: prod.split)

text \<open>No edge adds work, and an edge while both sides are running removes some.\<close>

lemma read_left_edge:
  assumes w: "rinv I p m0 G rs s" and i: "i < p_seg_count p"
    and rv: "rr_view p i r' =
      (case rr_view_step p (bit (mr_resp_ready (rs_m s)) i) (bit (mr_cmd_valid (rs_m s)) i) wd (rr_view p i (rs_r s)) of
        (pipe, cr, rv, d) \<Rightarrow> (pipe, cr \<and> b, rv, d))"
  shows "read_left p \<lparr>rs_m = rmaster_edge p s, rs_r = r'\<rparr> i \<le> read_left p s i"
    and "rflowing p s \<Longrightarrow> read_left p \<lparr>rs_m = rmaster_edge p s, rs_r = r'\<rparr> i \<le> read_left p s i - 1"
proof -
  obtain q v a ws where x: "mr_view p i (rs_m s) = (q, v, a, ws)" by (metis prod_cases4)
  then have v: "v = bit (mr_cmd_valid (rs_m s)) i" "q = mr_segs (rs_m s) ! i" by (auto simp: mr_view_def)
  obtain pipe cr rv d where y: "rr_view p i (rs_r s) = (pipe, cr, rv, d)" by (metis prod_cases4)
  then have yv: "cr = bit (rr_cmd_ready (rs_r s)) i" "rv = bit (rr_resp_valid (rs_r s)) i" "pipe = rr_pipe (rs_r s) ! i"
    by (auto simp: rr_view_def)
  have c: "cr \<Longrightarrow> \<not> rv \<or> pipe = None" using w i by (auto simp: rinv_def ram_inv_def yv)
  let ?rdy = "bit (mr_resp_ready (rs_m s)) i"
  have as: "3 * length (asks_view p (mr_view p i (rmaster_edge p s))) + (if cr \<and> v then 3 else 0) =
      3 * length (asks_view p (q, v, a, ws))"
    using segment_edge [OF w i] asks_step(1) [OF refl, of p _ _ _ q v a ws] unfolding x yv(1)
    by (auto simp: asks_view_def)
  have wl: "words_left (rr_view p i r') = words_left (rr_view_step p ?rdy v wd (pipe, cr, rv, d))"
    unfolding rv words_left_case y v(1) ..
  note ws = words_left_step [where p = p and rdy = ?rdy and valid = v and w = wd and d = d and cr = cr and rv = rv
      and pipe = pipe, OF refl c, simplified]
  show "read_left p \<lparr>rs_m = rmaster_edge p s, rs_r = r'\<rparr> i \<le> read_left p s i"
    using ws(1) as by (simp add: read_left_def wl x y split: if_splits)
  assume f: "rflowing p s"
  then have fl: "?rdy" "\<not> v \<Longrightarrow> q = []" "cr \<longleftrightarrow> \<not> rv \<or> pipe = None"
    using i by (auto simp: rflowing_def bit_exp_mask v yv)
  show "read_left p \<lparr>rs_m = rmaster_edge p s, rs_r = r'\<rparr> i \<le> read_left p s i - 1"
  proof (cases "0 < words_left (pipe, cr, rv, d)")
    case True
    with ws(2) [OF fl(1)] as fl(1) show ?thesis by (simp add: read_left_def wl x y split: if_splits)
  next
    case False
    then have "cr" using fl(3) by (auto simp: words_left_def split: if_splits)
    show ?thesis
    proof (cases v)
      case True
      with ws(1) as \<open>cr\<close> show ?thesis by (simp add: read_left_def wl x y)
    next
      case v: False
      with ws(1) as False fl(2) show ?thesis by (simp add: read_left_def wl x y asks_view_def)
    qed
  qed
qed

lemma rclock_flowing:
  assumes mem: "memory_ok I" and ok: "psdp_ok p"
  shows "rinv I p m0 G rs s \<Longrightarrow> rflowing p s \<Longrightarrow> \<forall>i < p_seg_count p. read_left p s i \<le> n \<Longrightarrow>
    \<exists>s'. read_clock I p n s = Inr s' \<and> rinv I p m0 G rs s' \<and> mr_frame (rs_m s) (rs_m s') \<and>
      (\<forall>i < p_seg_count p. read_left p s' i = 0)"
proof (induction n arbitrary: s)
  case 0
  then show ?case by (auto simp: mr_frame_def)
next
  case (Suc n)
  from rinv_edge [OF mem ok Suc.prems(1)] obtain r' where r': "rram_edge I p s = Inr r'" "rr_frame p (rs_r s) r'"
    "rinv I p m0 G rs \<lparr>rs_m = rmaster_edge p s, rs_r = r'\<rparr>"
    and rv: "\<And>i. i < p_seg_count p \<Longrightarrow> rr_view p i r' =
      (case rr_view_step p (bit (mr_resp_ready (rs_m s)) i) (bit (mr_cmd_valid (rs_m s)) i)
          (mem_word p (mi_bytes I m0) i (get_field (p_seg_addr_width p) (seg_addr_mask p) i (mr_cmd_addr (rs_m s))))
          (rr_view p i (rs_r s)) of
        (pipe, cr, rv, d) \<Rightarrow> (pipe, cr \<and> \<not> ps_pause (rr_pause (rs_r s)), rv, d))" by blast
  let ?s = "\<lparr>rs_m = rmaster_edge p s, rs_r = r'\<rparr>"
  have u: "runpaused s" using Suc.prems(2) by (simp add: rflowing_def)
  have f: "rflowing p ?s" by (rule redge_flowing [OF Suc.prems(1) u r'(2) rv])
  have "read_left p ?s i \<le> n" if "i < p_seg_count p" for i
  proof -
    have "read_left p ?s i \<le> read_left p s i - 1" by (rule read_left_edge(2) [OF Suc.prems(1) that rv [OF that] Suc.prems(2)])
    moreover have "read_left p s i \<le> Suc n" using Suc.prems(3) that by blast
    ultimately show ?thesis by linarith
  qed
  with Suc.IH [OF r'(3) f] obtain s' where s': "read_clock I p n ?s = Inr s'" "rinv I p m0 G rs s'"
    "mr_frame (rs_m ?s) (rs_m s')" "\<forall>i < p_seg_count p. read_left p s' i = 0" by blast
  have "mr_frame (rs_m s) (rs_m s')"
    using s'(3) rmaster_edge_frame(1) [OF Suc.prems(1)] by (simp add: mr_frame_def)
  with s' r'(1) show ?case by auto
qed

lemma rclock_drains:
  assumes mem: "memory_ok I" and ok: "psdp_ok p"
    and w: "rinv I p m0 G rs s" and u: "runpaused s"
    and n: "\<forall>i < p_seg_count p. read_left p s i \<le> n"
  shows "\<exists>s'. read_clock I p (Suc n) s = Inr s' \<and> rinv I p m0 G rs s' \<and> mr_frame (rs_m s) (rs_m s') \<and>
      (\<forall>i < p_seg_count p. read_left p s' i = 0)"
proof -
  from rinv_edge [OF mem ok w] obtain r' where r': "rram_edge I p s = Inr r'" "rr_frame p (rs_r s) r'"
    "rinv I p m0 G rs \<lparr>rs_m = rmaster_edge p s, rs_r = r'\<rparr>"
    and rv: "\<And>i. i < p_seg_count p \<Longrightarrow> rr_view p i r' =
      (case rr_view_step p (bit (mr_resp_ready (rs_m s)) i) (bit (mr_cmd_valid (rs_m s)) i)
          (mem_word p (mi_bytes I m0) i (get_field (p_seg_addr_width p) (seg_addr_mask p) i (mr_cmd_addr (rs_m s))))
          (rr_view p i (rs_r s)) of
        (pipe, cr, rv, d) \<Rightarrow> (pipe, cr \<and> \<not> ps_pause (rr_pause (rs_r s)), rv, d))" by blast
  let ?s = "\<lparr>rs_m = rmaster_edge p s, rs_r = r'\<rparr>"
  have f: "rflowing p ?s" by (rule redge_flowing [OF w u r'(2) rv])
  have "read_left p ?s i \<le> n" if "i < p_seg_count p" for i
    using read_left_edge(1) [OF w that rv [OF that]] n that by (auto intro: le_trans)
  with rclock_flowing [OF mem ok r'(3) f] obtain s' where s': "read_clock I p n ?s = Inr s'" "rinv I p m0 G rs s'"
    "mr_frame (rs_m ?s) (rs_m s')" "\<forall>i < p_seg_count p. read_left p s' i = 0" by blast
  have "mr_frame (rs_m s) (rs_m s')"
    using s'(3) rmaster_edge_frame(1) [OF w] by (simp add: mr_frame_def)
  with s' r'(1) show ?thesis by auto
qed

section \<open>The response coroutine finishes\<close>

primrec rresp_steps :: "psdp \<Rightarrow> nat \<Rightarrow> mr \<Rightarrow> mr" where
  "rresp_steps p 0 m = m"
| "rresp_steps p (Suc n) m = (case mr_process_resp p m of None \<Rightarrow> m | Some m' \<Rightarrow> rresp_steps p n m')"

definition rresp_work :: "psdp \<Rightarrow> (nat \<times> nat) list \<Rightarrow> mr \<Rightarrow> nat" where
  "rresp_work p rs m =
     sum_list (map (\<lambda>r. seg_words p (fst r) (snd r) + 2) (drop (length (mr_done m)) rs)) -
     (case mr_current_resp m of None \<Rightarrow> 0 | Some (c, seg, k, bs) \<Rightarrow> k + 1)"

definition rdrained :: "psdp \<Rightarrow> 'm rsys \<Rightarrow> bool" where
  "rdrained p s \<longleftrightarrow> (\<forall>i < p_seg_count p. read_left p s i = 0)"

lemma rresp_step_frame:
  assumes "mr_process_resp p m = Some m'"
  shows "mr_cmds m' = mr_cmds m" "asks_view p (mr_view p i m') = asks_view p (mr_view p i m)"
  using assms
  by (auto simp: mr_process_resp_def asks_view_def mr_view_def Let_def split: option.splits list.splits if_splits)

lemma read_left_none:
  assumes "read_left p s i = 0"
  shows "words_view (rr_view p i (rs_r s)) = []" "asks_view p (mr_view p i (rs_m s)) = []"
  using assms
  by (cases "rr_view p i (rs_r s)"; auto simp: read_left_def words_left_def words_view_def split: if_splits)+

lemma rresp_progress:
  assumes ok: "psdp_ok p" and w: "rinv I p m0 G rs s" and d: "rdrained p s" and c: "mr_cmds (rs_m s) = []"
    and f: "\<not> mr_is_idle (rs_m s)"
  shows "\<exists>m'. mr_process_resp p (rs_m s) = Some m' \<and> rresp_work p rs m' < rresp_work p rs (rs_m s)"
proof -
  let ?m = "rs_m s" let ?nd = "length (mr_done (rs_m s))"
  from w have i: "rcmds_inv p G rs ?m" "stream_inv p G rs s" by (simp_all add: rinv_def)
  have ns: "r_split rs ?m = length rs" using c by (simp add: r_split_def)
  have "?nd \<le> length rs" using i(1) by (simp add: rcmds_inv_def r_started_def ns)
  moreover have "mr_in_flight ?m = int (length rs) - int ?nd" using i(1) by (simp add: rcmds_inv_def)
  ultimately have nd: "?nd < length rs" using f by (simp add: mr_is_idle_def)
  have dr: "drop ?nd rs = rs ! ?nd # drop (Suc ?nd) rs" using nd by (simp add: Cons_nth_drop_Suc)
  show ?thesis
  proof (cases "mr_current_resp ?m")
    case None
    then have "mr_resp_cmds ?m \<noteq> []" using i(1) nd by (auto simp: rcmds_inv_def r_started_def ns)
    then obtain e es where "mr_resp_cmds ?m = e # es" by (cases "mr_resp_cmds ?m") auto
    with None dr show ?thesis by (simp add: mr_process_resp_def rresp_work_def)
  next
    case (Some x)
    obtain e seg k bs where x: "x = (e, seg, k, bs)" by (cases x)
    note cur = Some [unfolded x]
    have e: "e = r_rcmd p rs ?nd" "k \<le> rcm_segments e"
      "seg = (rcm_address e div p_seg_byte_lanes p + k) mod p_seg_count p"
      using i(1) cur by (auto simp: rcmds_inv_def)
    have ea: "rcm_segments e = seg_words p (fst (rs ! ?nd)) (snd (rs ! ?nd))" by (simp add: e(1) r_rcmd_def Let_def)
    show ?thesis
    proof (cases "k < rcm_segments e")
      case False
      with cur e(2) dr show ?thesis by (simp add: mr_process_resp_def rresp_work_def ea)
    next
      case True
      have sg: "seg < p_seg_count p" using ok by (simp add: e(3) psdp_ok_def)
      let ?op = "\<lambda>k. (fst (read_op p (rcm_address e) k), ?nd, snd (read_op p (rcm_address e) k))"
      from tagged_ops_current [OF i(1) cur] obtain r where r: "tagged_ops p rs (r_split rs ?m) =
          tagged_ops p rs ?nd @ map ?op [0..<rcm_segments e] @ r" .
      have "drop (n_taken p rs ?m) (tagged_ops p rs (r_split rs ?m)) = ?op k # (map ?op [Suc k..<rcm_segments e] @ r)"
        unfolding r n_taken_tagged [OF i(1)] using True by (simp add: cur drop_map) (simp add: upt_conv_Cons)
      moreover have "fst (read_op p (rcm_address e) k) = seg" by (simp add: read_op_def e(3))
      moreover have "list_all2 (item_ok p G seg) (stream p s seg)
          (on_seg seg (drop (n_taken p rs ?m) (tagged_ops p rs (r_split rs ?m))))"
        using i(2) sg by (simp add: stream_inv_def)
      ultimately have "stream p s seg \<noteq> []" by (auto simp: on_seg_Cons)
      moreover have "words_view (rr_view p seg (rs_r s)) = []" "asks_view p (mr_view p seg ?m) = []"
        using d sg by (simp_all add: rdrained_def read_left_none)
      ultimately have "mr_resps ?m ! seg \<noteq> []" by (simp add: stream_def)
      then obtain v vs where "mr_resps ?m ! seg = v # vs" by (cases "mr_resps ?m ! seg") auto
      with cur True dr show ?thesis by (simp add: mr_process_resp_def rresp_work_def ea Let_def)
    qed
  qed
qed

lemma rresp_steps_finish:
  assumes ok: "psdp_ok p"
  shows "rinv I p m0 G rs s \<Longrightarrow> rdrained p s \<Longrightarrow> mr_cmds (rs_m s) = [] \<Longrightarrow> rresp_work p rs (rs_m s) \<le> n \<Longrightarrow>
    rinv I p m0 G rs (s\<lparr>rs_m := rresp_steps p n (rs_m s)\<rparr>) \<and> mr_is_idle (rresp_steps p n (rs_m s))"
proof (induction n arbitrary: s)
  case 0
  then show ?case using rresp_progress [OF ok 0(1-3)] by auto
next
  case (Suc n)
  show ?case
  proof (cases "mr_process_resp p (rs_m s)")
    case None
    then show ?thesis using rresp_progress [OF ok Suc.prems(1-3)] Suc.prems(1) by auto
  next
    case (Some m')
    let ?s = "s\<lparr>rs_m := m'\<rparr>"
    have w: "rinv I p m0 G rs ?s" using rinv_respond [OF ok Suc.prems(1) Some] .
    have d: "rdrained p ?s" "mr_cmds (rs_m ?s) = []"
      using Suc.prems(2,3) rresp_step_frame [OF Some] by (simp_all add: rdrained_def read_left_def)
    show ?thesis
    proof (cases "mr_is_idle (rs_m s)")
      case True
      with Suc.prems(1,3) Some have False
        by (auto simp: rinv_def rcmds_inv_def mr_is_idle_def r_started_def r_split_def mr_process_resp_def
            split: option.splits list.splits)
      then show ?thesis ..
    next
      case False
      from rresp_progress [OF ok Suc.prems(1-3) False] Some Suc.prems(4)
      have "rresp_work p rs (rs_m ?s) \<le> n" by simp
      from Suc.IH [OF w d this] Some show ?thesis by simp
    qed
  qed
qed

section \<open>Reachability of the runs\<close>

lemma read_clock_reach: "rreach I p m0 rs s \<Longrightarrow> read_clock I p n s = Inr s' \<Longrightarrow> rreach I p m0 rs s'"
  by (induction n arbitrary: s) (auto split: sum.splits intro: rreach.edge)

lemma rresp_steps_reach: "rreach I p m0 rs s \<Longrightarrow> rreach I p m0 rs (s\<lparr>rs_m := rresp_steps p n (rs_m s)\<rparr>)"
proof (induction n arbitrary: s)
  case (Suc n)
  then show ?case
  proof (cases "mr_process_resp p (rs_m s)")
    case (Some m')
    from Suc.IH [OF rreach.respond [OF Suc.prems Some]] Some show ?thesis by simp
  qed simp
qed simp

theorem reads_complete:
  assumes mem: "memory_ok I" and ok: "psdp_ok p" and sz: "2 ^ p_address_width p \<le> mi_size I m0"
    and r: "rreach I p m0 rs s" and c: "mr_cmds (rs_m s) = []" and u: "runpaused s"
    and n: "\<forall>i < p_seg_count p. read_left p s i \<le> n"
  shows "\<exists>s' k. read_clock I p (Suc n) s = Inr s' \<and> rreach I p m0 rs (s'\<lparr>rs_m := rresp_steps p k (rs_m s')\<rparr>) \<and>
    mr_is_idle (rresp_steps p k (rs_m s'))"
proof -
  let ?G = "\<lambda>_ :: nat. {mi_bytes I m0}"
  have w: "rinv I p m0 ?G rs s" by (rule rreach_rinv [OF mem ok sz r])
  from rclock_drains [OF mem ok w u n] obtain s' where s': "read_clock I p (Suc n) s = Inr s'"
    "rinv I p m0 ?G rs s'" "mr_frame (rs_m s) (rs_m s')" "rdrained p s'" unfolding rdrained_def by blast
  have cs: "mr_cmds (rs_m s') = []" using s'(3) c by (simp add: mr_frame_def)
  from rresp_steps_finish [OF ok s'(2,4) cs order_refl]
  have "mr_is_idle (rresp_steps p (rresp_work p rs (rs_m s')) (rs_m s'))" by blast
  with s'(1) rresp_steps_reach [OF read_clock_reach [OF r s'(1)]] show ?thesis by blast
qed

text \<open>Every list of acceptable reads can be carried out.\<close>

lemma mr_run_pause [simp]: "mr_pause (mr_run p reset ready valid data s) = mr_pause s"
proof -
  have "mr_pause (fold (mr_run_seg p ready valid data) js s) = mr_pause s" for js
    by (induction js arbitrary: s) (simp_all add: mr_run_seg_def Let_def)
  then show ?thesis by (simp add: mr_run_def Let_def)
qed

lemma rr_run_frame:
  assumes "rr_run I p reset valid addr rdy r = Inr r'"
  shows "rr_mem r' = rr_mem r" "rr_pause r' = rr_pause r"
proof -
  have adv: "rr_mem (rr_advance p rdy j s) = rr_mem s \<and> rr_pause (rr_advance p rdy j s) = rr_pause s" for j s
    using rr_advance_views(1) [of p s rdy j] by (simp add: rr_frame_def)
  have seg: "rr_run_seg I p valid addr rdy j s = Inr s' \<Longrightarrow> rr_mem s' = rr_mem s \<and> rr_pause s' = rr_pause s" for j s s'
    by (auto simp: rr_run_seg_def Let_def adv split: sum.splits if_splits)
  have segs: "rr_segs I p valid addr rdy js s = Inr s' \<Longrightarrow> rr_mem s' = rr_mem s \<and> rr_pause s' = rr_pause s" for js s s'
    by (induction js arbitrary: s) (auto dest: seg split: sum.splits)
  show "rr_mem r' = rr_mem r" "rr_pause r' = rr_pause r"
    using assms segs by (auto simp: rr_run_def Let_def split: if_splits sum.splits)
qed

lemma read_clock_unpaused: "read_clock I p n s = Inr s' \<Longrightarrow> runpaused s \<Longrightarrow> runpaused s'"
proof (induction n arbitrary: s)
  case (Suc n)
  have "rr_pause r' = rr_pause (rs_r s)" if "rram_edge I p s = Inr r'" for r'
    using that rr_run_frame(2) unfolding rram_edge_def by blast
  with Suc show ?case by (auto simp: runpaused_def rmaster_edge_def split: sum.splits)
qed simp

lemma rresp_steps_pause [simp]: "mr_pause (rresp_steps p n m) = mr_pause m"
proof (induction n arbitrary: m)
  case (Suc n)
  have "mr_pause m' = mr_pause m" if "mr_process_resp p m = Some m'" for m'
    using that by (auto simp: mr_process_resp_def Let_def split: option.splits list.splits if_splits)
  with Suc show ?case by (auto split: option.split)
qed simp

lemma ridle_no_cmds:
  assumes c: "rcmds_inv p G rs m" and i: "mr_is_idle m"
  shows "mr_cmds m = []"
proof -
  have "length (mr_done m) \<le> length rs - length (mr_cmds m)" "length (mr_cmds m) \<le> length rs"
    using c unfolding rcmds_inv_def r_started_def r_split_def by linarith+
  moreover have "length (mr_done m) = length rs" using c i by (simp add: rcmds_inv_def mr_is_idle_def)
  ultimately have "length (mr_cmds m) = 0" by linarith
  then show ?thesis by simp
qed

lemma rprocess_last:
  "mr_cmds m = [c] \<Longrightarrow> mr_cmds (snd (mr_process_read p m)) = [] \<and> mr_pause (snd (mr_process_read p m)) = mr_pause m"
  by (simp add: mr_process_read_def Let_def)

theorem reads_possible:
  assumes mem: "memory_ok I" and ok: "psdp_ok p" and sz: "2 ^ p_address_width p \<le> mi_size I m0"
  shows "reads_ok p rs \<Longrightarrow> \<exists>s. rreach I p m0 rs s \<and> mr_is_idle (rs_m s) \<and> runpaused s"
proof (induction rs rule: rev_induct)
  case Nil
  have "mr_is_idle (mr_init p)" "runpaused \<lparr>rs_m = mr_init p, rs_r = rr_init p m0\<rparr>"
    by (simp_all add: mr_is_idle_def mr_init_def runpaused_def rr_init_def pause_init_def)
  with rreach.start [of I p m0] show ?case by force
next
  case (snoc w rs)
  obtain a n where w: "w = (a, n)" by (cases w)
  have fit: "a < 2 ^ p_address_width p" "a + n \<le> 2 ^ p_address_width p" and "reads_ok p rs"
    using snoc.prems by (auto simp: reads_ok_def w)
  with snoc.IH obtain s where s: "rreach I p m0 rs s" "mr_is_idle (rs_m s)" "runpaused s" by blast
  have "int a < int (2 ^ p_address_width p)" "int (a + n) \<le> int (2 ^ p_address_width p)"
    using fit by (simp_all only: of_nat_less_iff of_nat_le_iff)
  then obtain e m1 where m1: "mr_read p (int a) (int n) (rs_m s) = (Inr e, m1)" by (simp add: mr_read_def)
  obtain res m2 where m2: "mr_process_read p m1 = (res, m2)" by (cases "mr_process_read p m1")
  let ?s1 = "s\<lparr>rs_m := m1\<rparr>" let ?s2 = "s\<lparr>rs_m := m2\<rparr>"
  have "rreach I p m0 (rs @ [(nat (int a), nat (int n))]) ?s1" by (rule rreach.accept [OF s(1) m1])
  then have r1: "rreach I p m0 (rs @ [w]) ?s1" by (simp add: w)
  have r2: "rreach I p m0 (rs @ [w]) ?s2" using rreach.split [OF r1, of res m2] m2 by simp
  have "rcmds_inv p (\<lambda>_. {mi_bytes I m0}) rs (rs_m s)" using rreach_rinv [OF mem ok sz s(1)] unfolding rinv_def by blast
  then have c0: "mr_cmds (rs_m s) = []" by (rule ridle_no_cmds [OF _ s(2)])
  have c2: "mr_cmds m2 = []" "mr_pause m2 = mr_pause (rs_m s)"
  proof -
    have "mr_cmds m1 = [\<lparr>rdc_address = nat (int a), rdc_length = nat (int n), rdc_event = mr_next_event (rs_m s)\<rparr>]"
      "mr_pause m1 = mr_pause (rs_m s)" using c0 by (simp_all add: mr_read_accept(2) [OF m1])
    from rprocess_last [OF this(1), of p] this(2) m2
    show "mr_cmds m2 = []" "mr_pause m2 = mr_pause (rs_m s)" by simp_all
  qed
  have u2: "runpaused ?s2" using s(3) c2(2) by (simp add: runpaused_def)
  obtain k where k: "\<forall>i < p_seg_count p. read_left p ?s2 i \<le> k"
    using bound_exists [where f = "read_left p ?s2"] ..
  have "mr_cmds (rs_m ?s2) = []" using c2 by simp
  from reads_complete [OF mem ok sz r2 this u2 k] obtain s' j where s':
    "read_clock I p (Suc k) ?s2 = Inr s'" "rreach I p m0 (rs @ [w]) (s'\<lparr>rs_m := rresp_steps p j (rs_m s')\<rparr>)"
    "mr_is_idle (rresp_steps p j (rs_m s'))" by blast
  have "runpaused (s'\<lparr>rs_m := rresp_steps p j (rs_m s')\<rparr>)"
    using read_clock_unpaused [OF s'(1) u2] by (simp add: runpaused_def)
  with s'(2,3) show ?case by force
qed

end
