(* ===== verification/Psdp_Wrap.thy ===== *)
theory Psdp_Wrap
  imports Psdp_Read_Live
begin

text \<open>
  The classes around the two masters and the two RAM models: \<open>WritePsdpRamMaster\<close>,
  \<open>ReadPsdpRamMaster\<close>, which delegate to one master each, and \<open>PsdpRam\<close>, whose write and read
  side share one memory; and the \<open>wait\<close> loops.
\<close>

section \<open>Waiting for a master\<close>

text \<open>
  A loop \<open>while not self.idle(): await self._idle.wait()\<close> returns, suspends, or goes round
  without ever suspending when the event is set although the master is not idle.
\<close>

datatype wait_result = Returned | Suspended | Spinning

definition mw_wait :: "mw \<Rightarrow> wait_result" where
  "mw_wait s = (if mw_is_idle s then Returned else if mw_idle s then Spinning else Suspended)"

definition mr_wait :: "mr \<Rightarrow> wait_result" where
  "mr_wait s = (if mr_is_idle s then Returned else if mr_idle s then Spinning else Suspended)"

section \<open>\<open>WritePsdpRamMaster\<close> and \<open>ReadPsdpRamMaster\<close>\<close>

record write_master =
  wm_size :: nat
  wm_geom :: psdp
  wm_write_if :: mw

definition WritePsdpRamMaster_init :: "psdp_bus \<Rightarrow> exn + write_master" where
  "WritePsdpRamMaster_init b =
     (case write_geom b of
        Inl e \<Rightarrow> Inl e
      | Inr p \<Rightarrow> Inr \<lparr>wm_size = 2 ^ p_address_width p, wm_geom = p, wm_write_if = mw_init p\<rparr>)"

definition WritePsdpRamMaster_idle :: "write_master \<Rightarrow> bool" where
  "WritePsdpRamMaster_idle s = mw_is_idle (wm_write_if s)"

definition WritePsdpRamMaster_wait :: "write_master \<Rightarrow> wait_result" where
  "WritePsdpRamMaster_wait s = (if WritePsdpRamMaster_idle s then Returned else
     case mw_wait (wm_write_if s) of Returned \<Rightarrow> Spinning | r \<Rightarrow> r)"

definition WritePsdpRamMaster_wait_write :: "write_master \<Rightarrow> wait_result" where
  "WritePsdpRamMaster_wait_write s = mw_wait (wm_write_if s)"

definition WritePsdpRamMaster_write :: "int \<Rightarrow> int + byte list \<Rightarrow> (write_master, nat) M" where
  "WritePsdpRamMaster_write address data = (\<lambda>s.
     case mw_write (wm_geom s) address data (wm_write_if s) of (r, m) \<Rightarrow> (r, s\<lparr>wm_write_if := m\<rparr>))"

record read_master =
  rm_size :: nat
  rm_geom :: psdp
  rm_read_if :: mr

definition ReadPsdpRamMaster_init :: "psdp_bus \<Rightarrow> exn + read_master" where
  "ReadPsdpRamMaster_init b =
     (case read_geom b of
        Inl e \<Rightarrow> Inl e
      | Inr p \<Rightarrow> Inr \<lparr>rm_size = 2 ^ p_address_width p, rm_geom = p, rm_read_if = mr_init p\<rparr>)"

definition ReadPsdpRamMaster_idle :: "read_master \<Rightarrow> bool" where
  "ReadPsdpRamMaster_idle s = mr_is_idle (rm_read_if s)"

definition ReadPsdpRamMaster_wait :: "read_master \<Rightarrow> wait_result" where
  "ReadPsdpRamMaster_wait s = (if ReadPsdpRamMaster_idle s then Returned else
     case mr_wait (rm_read_if s) of Returned \<Rightarrow> Spinning | r \<Rightarrow> r)"

definition ReadPsdpRamMaster_wait_read :: "read_master \<Rightarrow> wait_result" where
  "ReadPsdpRamMaster_wait_read s = mr_wait (rm_read_if s)"

definition ReadPsdpRamMaster_read :: "int \<Rightarrow> int \<Rightarrow> (read_master, nat) M" where
  "ReadPsdpRamMaster_read address len = (\<lambda>s.
     case mr_read (rm_geom s) address len (rm_read_if s) of (r, m) \<Rightarrow> (r, s\<lparr>rm_read_if := m\<rparr>))"

section \<open>\<open>PsdpRam\<close>\<close>

text \<open>
  The two sides work on the same memory; an edge of the write side is seen by the read side.
  Which side runs first at a clock edge is up to the simulator.
\<close>

record 'm psdp_ram =
  pr_write :: "'m rw"
  pr_read :: "'m rr"

definition PsdpRam_init :: "psdp \<Rightarrow> 'm \<Rightarrow> 'm psdp_ram" where
  "PsdpRam_init p m = \<lparr>pr_write = rw_init m, pr_read = rr_init p m\<rparr>"

definition PsdpRam_write_edge ::
    "'m memory_if \<Rightarrow> psdp \<Rightarrow> bool \<Rightarrow> int \<Rightarrow> int \<Rightarrow> int \<Rightarrow> int \<Rightarrow> 'm psdp_ram \<Rightarrow> exn + 'm psdp_ram" where
  "PsdpRam_write_edge I p reset valid addr data be s =
     (case rw_run I p reset valid addr data be (pr_write s) of
        Inl e \<Rightarrow> Inl e
      | Inr w \<Rightarrow> Inr (s\<lparr>pr_write := w, pr_read := (pr_read s)\<lparr>rr_mem := rw_mem w\<rparr>\<rparr>))"

definition PsdpRam_read_edge ::
    "'m memory_if \<Rightarrow> psdp \<Rightarrow> bool \<Rightarrow> int \<Rightarrow> int \<Rightarrow> int \<Rightarrow> 'm psdp_ram \<Rightarrow> exn + 'm psdp_ram" where
  "PsdpRam_read_edge I p reset valid addr resp_ready s =
     (case rr_run I p reset valid addr resp_ready (pr_read s) of
        Inl e \<Rightarrow> Inl e
      | Inr r \<Rightarrow> Inr (s\<lparr>pr_read := r\<rparr>))"

text \<open>The two sides always have the same memory.\<close>

lemma psdp_ram_shared:
  "rr_mem (pr_read (PsdpRam_init p m)) = rw_mem (pr_write (PsdpRam_init p m))"
  "PsdpRam_write_edge I p reset valid addr data be s = Inr s' \<Longrightarrow> rr_mem (pr_read s') = rw_mem (pr_write s')"
  "PsdpRam_read_edge I p reset valid addr rdy s = Inr s' \<Longrightarrow> rr_mem (pr_read s) = rw_mem (pr_write s) \<Longrightarrow>
     rr_mem (pr_read s') = rw_mem (pr_write s')"
  by (auto simp: PsdpRam_init_def rr_init_def rw_init_def PsdpRam_write_edge_def PsdpRam_read_edge_def rr_run_frame(1)
      split: sum.splits)

section \<open>What has been written is what is read\<close>

lemma answer_last:
  assumes "a + length d \<le> length (apply_writes ws b)"
  shows "answer (apply_writes (ws @ [(a, d)]) b) (a, length d) = d"
  using take_drop_splice_same [OF assms] by (simp add: answer_def apply_writes_def)

end
