(* ===== verification/Psdp_Ram.thy ===== *)
theory Psdp_Ram
  imports Psdp_Wrap
begin

text \<open>
  \<open>PsdpRam\<close> with a write master and a read master connected to it at the same time: the two sides
  share the memory and nothing else, so their actions may come in any order, and a clock edge of
  both is an edge of one side and then one of the other. The result is what a reader may rely on
  while writes are under way: every byte is the byte that the writes completed before the read was
  issued give it, or the byte of a write that had not completed by then.
\<close>

section \<open>The system\<close>

record 'm psys =
  ps_wm :: mw
  ps_rm :: mr
  ps_ram :: "'m psdp_ram"

definition wside :: "'m psys \<Rightarrow> 'm wsys" where
  "wside s = \<lparr>ws_m = ps_wm s, ws_r = pr_write (ps_ram s)\<rparr>"

definition rside :: "'m psys \<Rightarrow> 'm rsys" where
  "rside s = \<lparr>rs_m = ps_rm s, rs_r = pr_read (ps_ram s)\<rparr>"

definition psys_init :: "psdp \<Rightarrow> 'm \<Rightarrow> 'm psys" where
  "psys_init p m = \<lparr>ps_wm = mw_init p, ps_rm = mr_init p, ps_ram = PsdpRam_init p m\<rparr>"

definition write_side_edge :: "'m memory_if \<Rightarrow> psdp \<Rightarrow> 'm psys \<Rightarrow> exn + 'm psys" where
  "write_side_edge I p s =
     (case PsdpRam_write_edge I p False (mw_bus_valid (ps_wm s)) (mw_bus_addr (ps_wm s))
             (mw_bus_data (ps_wm s)) (mw_bus_be (ps_wm s)) (ps_ram s) of
        Inl e \<Rightarrow> Inl e
      | Inr r \<Rightarrow> Inr (s\<lparr>ps_wm := master_edge p False (wside s), ps_ram := r\<rparr>))"

definition read_side_edge :: "'m memory_if \<Rightarrow> psdp \<Rightarrow> 'm psys \<Rightarrow> exn + 'm psys" where
  "read_side_edge I p s =
     (case PsdpRam_read_edge I p False (mr_bus_valid (ps_rm s)) (mr_bus_addr (ps_rm s))
             (mr_bus_ready (ps_rm s)) (ps_ram s) of
        Inl e \<Rightarrow> Inl e
      | Inr r \<Rightarrow> Inr (s\<lparr>ps_rm := rmaster_edge p (rside s), ps_ram := r\<rparr>))"

text \<open>The actions of the callers, the coroutines and the clocks.\<close>

datatype pause_act = Run_Pause | Set_Generator "(nat \<Rightarrow> bool option) option"

primrec pause_do :: "pause_act \<Rightarrow> pause_st \<Rightarrow> pause_st" where
  "pause_do Run_Pause st = run_pause st"
| "pause_do (Set_Generator gen) st = set_pause_generator gen st"

datatype ram_act =
    Issue_Write int "byte list" | Split_Write | Write_Resp | Write_Edge
  | Pause_Write_Master pause_act | Pause_Write_Ram pause_act
  | Issue_Read int int | Split_Read | Read_Resp | Read_Edge
  | Pause_Read_Master pause_act | Pause_Read_Ram pause_act

text \<open>
  The state with the writes accepted so far, and the reads accepted so far, each with the number of
  writes that had completed when it was issued. \<open>None\<close>: the action is not possible, because the
  arguments are refused, the coroutine is suspended or the edge raises.
\<close>

type_synonym 'm psys_run = "(nat \<times> byte list) list \<times> ((nat \<times> nat) \<times> nat) list \<times> 'm psys"

fun ram_step :: "'m memory_if \<Rightarrow> psdp \<Rightarrow> ram_act \<Rightarrow> 'm psys_run \<Rightarrow> 'm psys_run option" where
  "ram_step I p (Issue_Write a bs) (ws, rs, s) =
     (case mw_write p a (Inr bs) (ps_wm s) of
        (Inl _, _) \<Rightarrow> None
      | (Inr _, m) \<Rightarrow> Some (ws @ [(nat a, bs)], rs, s\<lparr>ps_wm := m\<rparr>))"
| "ram_step I p Split_Write (ws, rs, s) =
     Some (ws, rs, s\<lparr>ps_wm := snd (mw_process_write p (ps_wm s))\<rparr>)"
| "ram_step I p Write_Resp (ws, rs, s) =
     map_option (\<lambda>m. (ws, rs, s\<lparr>ps_wm := m\<rparr>)) (mw_process_resp p (ps_wm s))"
| "ram_step I p Write_Edge (ws, rs, s) =
     (case write_side_edge I p s of Inl _ \<Rightarrow> None | Inr s' \<Rightarrow> Some (ws, rs, s'))"
| "ram_step I p (Pause_Write_Master a) (ws, rs, s) =
     Some (ws, rs, s\<lparr>ps_wm := (ps_wm s)\<lparr>mw_pause := pause_do a (mw_pause (ps_wm s))\<rparr>\<rparr>)"
| "ram_step I p (Pause_Write_Ram a) (ws, rs, s) =
     (let r = pr_write (ps_ram s) in
      Some (ws, rs, s\<lparr>ps_ram := (ps_ram s)\<lparr>pr_write := r\<lparr>rw_pause := pause_do a (rw_pause r)\<rparr>\<rparr>\<rparr>))"
| "ram_step I p (Issue_Read a n) (ws, rs, s) =
     (case mr_read p a n (ps_rm s) of
        (Inl _, _) \<Rightarrow> None
      | (Inr _, m) \<Rightarrow> Some (ws, rs @ [((nat a, nat n), length (mw_done (ps_wm s)))], s\<lparr>ps_rm := m\<rparr>))"
| "ram_step I p Split_Read (ws, rs, s) =
     Some (ws, rs, s\<lparr>ps_rm := snd (mr_process_read p (ps_rm s))\<rparr>)"
| "ram_step I p Read_Resp (ws, rs, s) =
     map_option (\<lambda>m. (ws, rs, s\<lparr>ps_rm := m\<rparr>)) (mr_process_resp p (ps_rm s))"
| "ram_step I p Read_Edge (ws, rs, s) =
     (case read_side_edge I p s of Inl _ \<Rightarrow> None | Inr s' \<Rightarrow> Some (ws, rs, s'))"
| "ram_step I p (Pause_Read_Master a) (ws, rs, s) =
     Some (ws, rs, s\<lparr>ps_rm := (ps_rm s)\<lparr>mr_pause := pause_do a (mr_pause (ps_rm s))\<rparr>\<rparr>)"
| "ram_step I p (Pause_Read_Ram a) (ws, rs, s) =
     (let r = pr_read (ps_ram s) in
      Some (ws, rs, s\<lparr>ps_ram := (ps_ram s)\<lparr>pr_read := r\<lparr>rr_pause := pause_do a (rr_pause r)\<rparr>\<rparr>\<rparr>))"

inductive preach :: "'m memory_if \<Rightarrow> psdp \<Rightarrow> 'm \<Rightarrow> 'm psys_run \<Rightarrow> bool" for I p m0 where
  start: "preach I p m0 ([], [], psys_init p m0)"
| step: "preach I p m0 t \<Longrightarrow> ram_step I p act t = Some t' \<Longrightarrow> preach I p m0 t'"

fun ram_steps :: "'m memory_if \<Rightarrow> psdp \<Rightarrow> ram_act list \<Rightarrow> 'm psys_run \<Rightarrow> 'm psys_run option" where
  "ram_steps I p [] t = Some t"
| "ram_steps I p (act # acts) t = (case ram_step I p act t of None \<Rightarrow> None | Some t' \<Rightarrow> ram_steps I p acts t')"

lemma ram_steps_reach: "preach I p m0 t \<Longrightarrow> ram_steps I p acts t = Some t' \<Longrightarrow> preach I p m0 t'"
  by (induction acts arbitrary: t) (simp, metis option.case_eq_if option.collapse option.distinct(1) preach.step ram_steps.simps(2))

section \<open>An action seen from the two sides\<close>

lemma pause_do_step: "pause_step st (pause_do a st)"
  by (cases a) (auto simp: pause_step_def)

lemma write_side_edge_sides:
  assumes "write_side_edge I p s = Inr s'"
  obtains r' where "ram_edge I p False (wside s) = Inr r'" "ps_rm s' = ps_rm s"
    "wside s' = \<lparr>ws_m = master_edge p False (wside s), ws_r = r'\<rparr>"
    "pr_read (ps_ram s') = (pr_read (ps_ram s))\<lparr>rr_mem := rw_mem r'\<rparr>"
  using assms
  by (auto simp: write_side_edge_def PsdpRam_write_edge_def ram_edge_def wside_def split: sum.splits)

lemma read_side_edge_sides:
  assumes "read_side_edge I p s = Inr s'"
  obtains r' where "rram_edge I p (rside s) = Inr r'" "wside s' = wside s"
    "rside s' = \<lparr>rs_m = rmaster_edge p (rside s), rs_r = r'\<rparr>"
  using assms
  by (auto simp: read_side_edge_def PsdpRam_read_edge_def rram_edge_def wside_def rside_def split: sum.splits)

lemma mw_done_edge: "length (mw_done (master_edge p False s)) = length (mw_done (ws_m s))"
  if "length (mw_segs (ws_m s)) = p_seg_count p" "length (mw_resps (ws_m s)) = p_seg_count p"
  using mw_run_views(1) [OF that, of "rw_bus_ready (ws_r s)" "rw_bus_done (ws_r s)"]
  by (simp add: master_edge_def mw_frame_def)

text \<open>What an action of the write side does to the read side, and to the writes.\<close>

definition write_action :: "'m memory_if \<Rightarrow> psdp \<Rightarrow> 'm psys_run \<Rightarrow> 'm psys_run \<Rightarrow> bool" where
  "write_action I p t t' \<longleftrightarrow> (case (t, t') of ((ws, rs, s), (ws', rs', s')) \<Rightarrow>
     rs' = rs \<and> (\<exists>more. ws' = ws @ more) \<and> ps_rm s' = ps_rm s \<and>
     length (mw_done (ps_wm s)) \<le> length (mw_done (ps_wm s')) \<and>
     (\<forall>m0. wreach I p m0 False ws (wside s) \<longrightarrow> wreach I p m0 False ws' (wside s')) \<and>
     (rr_mem (pr_read (ps_ram s)) = rw_mem (pr_write (ps_ram s)) \<longrightarrow>
        pr_read (ps_ram s') = (pr_read (ps_ram s))\<lparr>rr_mem := rw_mem (pr_write (ps_ram s'))\<rparr>))"

text \<open>What an action of the read side does: it is one of the reads, whatever memories they may have met.\<close>

definition read_action :: "'m memory_if \<Rightarrow> psdp \<Rightarrow> 'm psys_run \<Rightarrow> 'm psys_run \<Rightarrow> bool" where
  "read_action I p t t' \<longleftrightarrow> (case (t, t') of ((ws, rs, s), (ws', rs', s')) \<Rightarrow>
     ws' = ws \<and> wside s' = wside s \<and> (rs' = rs \<or> (\<exists>r. rs' = rs @ [(r, length (mw_done (ps_wm s)))])) \<and>
     (\<forall>m G. rinv I p m G (map fst rs) (rside s) \<longrightarrow> rinv I p m G (map fst rs') (rside s')))"

lemma ram_step_action:
  assumes mem: "memory_ok I" and ok: "psdp_ok p" and st: "ram_step I p act (ws, rs, s) = Some (ws', rs', s')"
    and len: "length (mw_segs (ps_wm s)) = p_seg_count p" "length (mw_resps (ps_wm s)) = p_seg_count p"
  shows "write_action I p (ws, rs, s) (ws', rs', s') \<or> read_action I p (ws, rs, s) (ws', rs', s')"
proof (cases act)
  case (Issue_Write a bs)
  with st obtain e m where m: "mw_write p a (Inr bs) (ps_wm s) = (Inr e, m)"
    "ws' = ws @ [(nat a, bs)]" "rs' = rs" "s' = s\<lparr>ps_wm := m\<rparr>"
    by (auto split: prod.splits sum.splits)
  have "mw_done m = mw_done (ps_wm s)" using mw_write_accept(2) [OF m(1)] by simp
  then have "write_action I p (ws, rs, s) (ws', rs', s')"
    using m wreach.accept [of I p _ False ws "wside s" a bs e m] by (auto simp: write_action_def wside_def)
  then show ?thesis ..
next
  case Split_Write
  obtain res m where m: "mw_process_write p (ps_wm s) = (res, m)" by (cases "mw_process_write p (ps_wm s)")
  have "mw_done m = mw_done (ps_wm s)"
    using m by (auto simp: mw_process_write_def Let_def split: list.splits prod.splits option.splits)
  then have "write_action I p (ws, rs, s) (ws', rs', s')"
    using Split_Write st m wreach.split [of I p _ False ws "wside s" res m] by (auto simp: write_action_def wside_def)
  then show ?thesis ..
next
  case Write_Resp
  with st obtain m where m: "mw_process_resp p (ps_wm s) = Some m" "ws' = ws" "rs' = rs" "s' = s\<lparr>ps_wm := m\<rparr>" by auto
  have "length (mw_done (ps_wm s)) \<le> length (mw_done m)"
    using m(1) by (auto simp: mw_process_resp_def Let_def split: list.splits option.splits if_splits)
  then have "write_action I p (ws, rs, s) (ws', rs', s')"
    using m wreach.respond [of I p _ False ws "wside s" m] by (auto simp: write_action_def wside_def)
  then show ?thesis ..
next
  case Write_Edge
  with st have e: "write_side_edge I p s = Inr s'" "ws' = ws" "rs' = rs" by (auto split: sum.splits)
  from write_side_edge_sides [OF e(1)] obtain r' where r': "ram_edge I p False (wside s) = Inr r'" "ps_rm s' = ps_rm s"
    "wside s' = \<lparr>ws_m = master_edge p False (wside s), ws_r = r'\<rparr>"
    "pr_read (ps_ram s') = (pr_read (ps_ram s))\<lparr>rr_mem := rw_mem r'\<rparr>" .
  have "length (mw_done (ps_wm s')) = length (mw_done (ps_wm s))"
    using mw_done_edge [of "wside s" p] len r'(3) by (simp add: wside_def)
  moreover have "pr_write (ps_ram s') = r'" using r'(3) by (simp add: wside_def)
  ultimately have "write_action I p (ws, rs, s) (ws', rs', s')"
    using e(2,3) r' wreach.edge [OF _ r'(1)] by (simp add: write_action_def)
  then show ?thesis ..
next
  case (Pause_Write_Master a)
  with st have "write_action I p (ws, rs, s) (ws', rs', s')"
    using wreach.pause_m [of I p _ False ws "wside s", OF _ pause_do_step] by (auto simp: write_action_def wside_def)
  then show ?thesis ..
next
  case (Pause_Write_Ram a)
  with st have "write_action I p (ws, rs, s) (ws', rs', s')"
    using wreach.pause_r [of I p _ False ws "wside s", OF _ pause_do_step]
    by (auto simp: write_action_def wside_def Let_def)
  then show ?thesis ..
next
  case (Issue_Read a n)
  with st obtain e m where m: "mr_read p a n (ps_rm s) = (Inr e, m)" "ws' = ws"
    "rs' = rs @ [((nat a, nat n), length (mw_done (ps_wm s)))]" "s' = s\<lparr>ps_rm := m\<rparr>"
    by (auto split: prod.splits sum.splits)
  have "mr_read p a n (rs_m (rside s)) = (Inr e, m)" using m(1) by (simp add: rside_def)
  from rinv_accept [OF _ this] have "read_action I p (ws, rs, s) (ws', rs', s')"
    using m by (auto simp: read_action_def wside_def rside_def)
  then show ?thesis ..
next
  case Split_Read
  obtain res m where m: "mr_process_read p (rs_m (rside s)) = (res, m)" by (cases "mr_process_read p (rs_m (rside s))")
  from rinv_split [OF _ m] have "read_action I p (ws, rs, s) (ws', rs', s')"
    using Split_Read st m by (auto simp: read_action_def wside_def rside_def)
  then show ?thesis ..
next
  case Read_Resp
  with st obtain m where m: "mr_process_resp p (rs_m (rside s)) = Some m" "ws' = ws" "rs' = rs" "s' = s\<lparr>ps_rm := m\<rparr>"
    by (auto simp: rside_def)
  from rinv_respond [OF ok _ m(1)] have "read_action I p (ws, rs, s) (ws', rs', s')"
    using m by (auto simp: read_action_def wside_def rside_def)
  then show ?thesis ..
next
  case Read_Edge
  with st have e: "read_side_edge I p s = Inr s'" "ws' = ws" "rs' = rs" by (auto split: sum.splits)
  from read_side_edge_sides [OF e(1)] obtain r' where r': "rram_edge I p (rside s) = Inr r'" "wside s' = wside s"
    "rside s' = \<lparr>rs_m = rmaster_edge p (rside s), rs_r = r'\<rparr>" .
  have "rinv I p m G rs0 (rside s')" if "rinv I p m G rs0 (rside s)" for m G rs0
    using rinv_edge [OF mem ok that] r'(1) unfolding r'(3) by (metis Inr_inject)
  then have "read_action I p (ws, rs, s) (ws', rs', s')" using e(2,3) r'(2) by (simp add: read_action_def)
  then show ?thesis ..
next
  case (Pause_Read_Master a)
  with st have "read_action I p (ws, rs, s) (ws', rs', s')"
    using rinv_pause(1) [of I p _ _ _ "rside s"] by (auto simp: read_action_def wside_def rside_def)
  then show ?thesis ..
next
  case (Pause_Read_Ram a)
  with st have "read_action I p (ws, rs, s) (ws', rs', s')"
    using rinv_pause(2) [of I p _ _ _ "rside s"] by (auto simp: read_action_def wside_def rside_def Let_def)
  then show ?thesis ..
qed

section \<open>What a byte may hold\<close>

lemma apply_writes_append: "apply_writes (vs @ ws) b = apply_writes ws (apply_writes vs b)"
  by (simp add: apply_writes_def)

lemma apply_writes_byte:
  "writes_ok p vs \<Longrightarrow> 2 ^ p_address_width p \<le> length b \<Longrightarrow> x < length b \<Longrightarrow>
   apply_writes vs b ! x = b ! x \<or>
     (\<exists>v\<in>set vs. fst v \<le> x \<and> x < fst v + length (snd v) \<and> apply_writes vs b ! x = snd v ! (x - fst v))"
proof (induction vs arbitrary: b)
  case (Cons v vs)
  let ?b = "splice b (fst v) (snd v)"
  have v: "fst v + length (snd v) \<le> length b" "writes_ok p vs" using Cons.prems by (auto simp: writes_ok_def)
  have "apply_writes vs ?b ! x = ?b ! x \<or>
      (\<exists>u\<in>set vs. fst u \<le> x \<and> x < fst u + length (snd u) \<and> apply_writes vs ?b ! x = snd u ! (x - fst u))"
    using Cons.prems v by (intro Cons.IH) (simp_all add: length_splice)
  moreover have "?b ! x = (if fst v \<le> x \<and> x < fst v + length (snd v) then snd v ! (x - fst v) else b ! x)"
    using v(1) Cons.prems(3) by (subst nth_splice) auto
  moreover have "apply_writes (v # vs) b = apply_writes vs ?b" by (simp add: apply_writes_def)
  ultimately show ?case by (auto split: if_splits)
qed (simp add: apply_writes_def)

text \<open>Fewer completed writes and more accepted ones allow more.\<close>

lemma may_hold_earlier:
  assumes ws: "writes_ok p ws" and b: "2 ^ p_address_width p \<le> length b" "x < length b"
    and n: "d \<le> n" "n \<le> length ws"
  shows "may_hold ws n b x \<subseteq> may_hold ws d b x"
proof -
  let ?mid = "take (n - d) (drop d ws)"
  have mid: "take n ws = take d ws @ ?mid" using n by (metis le_add_diff_inverse take_add)
  have ok: "writes_ok p (take d ws)" "writes_ok p ?mid"
    using ws by (auto simp: writes_ok_def dest: in_set_takeD in_set_dropD)
  have len: "length (apply_writes (take d ws) b) = length b" by (rule length_apply_writes [OF ok(1) b(1)])
  have "apply_writes (take n ws) b = apply_writes ?mid (apply_writes (take d ws) b)"
    unfolding mid by (rule apply_writes_append)
  with apply_writes_byte [OF ok(2), of "apply_writes (take d ws) b" x] b len
  have "apply_writes (take n ws) b ! x \<in> may_hold ws d b x" by (auto simp: may_hold_def dest: in_set_takeD)
  moreover have "set (drop n ws) \<subseteq> set (drop d ws)" by (rule set_drop_subset_set_drop [OF n(1)])
  ultimately show ?thesis by (auto simp: may_hold_def)
qed

lemma may_hold_more: "n \<le> length ws \<Longrightarrow> may_hold ws n b x \<subseteq> may_hold (ws @ vs) n b x"
  by (auto simp: may_hold_def)

text \<open>The memories that a read may meet which was issued when \<open>n\<close> writes had completed.\<close>

definition may_meet :: "byte list \<Rightarrow> (nat \<times> byte list) list \<Rightarrow> nat \<Rightarrow> byte list set" where
  "may_meet b0 ws n = {b. length b = length b0 \<and> (\<forall>x < length b0. b ! x \<in> may_hold ws n b0 x)}"

definition met_by :: "byte list \<Rightarrow> 'm psys_run \<Rightarrow> nat \<Rightarrow> byte list set" where
  "met_by b0 t r = (case t of (ws, rs, s) \<Rightarrow>
     may_meet b0 ws (if r < length rs then snd (rs ! r) else length (mw_done (ps_wm s))))"

section \<open>The invariant\<close>

definition pinv :: "'m memory_if \<Rightarrow> psdp \<Rightarrow> 'm \<Rightarrow> 'm psys_run \<Rightarrow> bool" where
  "pinv I p m0 t \<longleftrightarrow> (case t of (ws, rs, s) \<Rightarrow>
     wreach I p m0 False ws (wside s) \<and> (\<forall>r\<in>set rs. snd r \<le> length (mw_done (ps_wm s))) \<and>
     rinv I p (rw_mem (pr_write (ps_ram s))) (met_by (mi_bytes I m0) t) (map fst rs) (rside s))"

lemma pinv_mems_ok:
  assumes mem: "memory_ok I" and ok: "psdp_ok p" and sz: "2 ^ p_address_width p \<le> mi_size I m0"
    and w: "wreach I p m0 False ws (wside s)" and rs: "\<forall>r\<in>set rs. snd r \<le> length (mw_done (ps_wm s))"
  shows "mems_ok I p (rw_mem (pr_write (ps_ram s))) (met_by (mi_bytes I m0) (ws, rs, s))"
    and "length (mw_done (ps_wm s)) \<le> length ws"
proof -
  let ?m = "rw_mem (pr_write (ps_ram s))" let ?n = "length (mw_done (ps_wm s))" let ?b0 = "mi_bytes I m0"
  have wi: "winv I p m0 False ws (wside s)" by (rule wreach_winv [OF mem ok sz w])
  then have ws: "writes_ok p ws" "mi_size I ?m = mi_size I m0" "cmds_inv p ws (ps_wm s)"
    by (auto simp: winv_def ops_inv_def wside_def)
  show n: "?n \<le> length ws" using ws(3) by (auto simp: cmds_inv_def n_started_def n_split_def)
  have l: "length (mi_bytes I m) = mi_size I m" for m by (rule memory_okD(1) [OF mem])
  have "mi_bytes I ?m \<in> may_meet ?b0 ws d" if d: "d \<le> ?n" for d
  proof -
    have "mi_bytes I ?m ! x \<in> may_hold ws d ?b0 x" if x: "x < mi_size I m0" for x
      using winv_may_hold [OF mem ok sz wi x] may_hold_earlier [OF ws(1) _ _ d n, of ?b0 x] sz x
      by (auto simp: wside_def l)
    then show ?thesis by (simp add: may_meet_def l ws(2))
  qed
  moreover have "(if r < length rs then snd (rs ! r) else ?n) \<le> ?n" for r using rs by simp
  ultimately show "mems_ok I p ?m (met_by ?b0 (ws, rs, s))"
    unfolding mems_ok_def met_by_def prod.case ws(2) using sz by (auto simp: may_meet_def l)
qed

lemma pinv_init:
  assumes "memory_ok I" "psdp_ok p" "2 ^ p_address_width p \<le> mi_size I m0"
  shows "pinv I p m0 ([], [], psys_init p m0)"
proof -
  let ?s = "psys_init p m0"
  have w: "wreach I p m0 False [] (wside ?s)"
    using wreach.start [of I p m0] by (simp add: psys_init_def wside_def PsdpRam_init_def)
  have "rside ?s = \<lparr>rs_m = mr_init p, rs_r = rr_init p (rw_mem (pr_write (ps_ram ?s)))\<rparr>"
    by (simp add: psys_init_def rside_def PsdpRam_init_def rw_init_def)
  with rinv_init [OF pinv_mems_ok(1) [OF assms w, of "[]"]] w show ?thesis by (simp add: pinv_def)
qed

lemma pinv_write:
  assumes mem: "memory_ok I" and ok: "psdp_ok p" and sz: "2 ^ p_address_width p \<le> mi_size I m0"
    and i: "pinv I p m0 (ws, rs, s)" and a: "write_action I p (ws, rs, s) (ws', rs', s')"
  shows "pinv I p m0 (ws', rs', s')"
proof -
  from i have w: "wreach I p m0 False ws (wside s)" and r: "\<forall>r\<in>set rs. snd r \<le> length (mw_done (ps_wm s))"
    and v: "rinv I p (rw_mem (pr_write (ps_ram s))) (met_by (mi_bytes I m0) (ws, rs, s)) (map fst rs) (rside s)"
    by (simp_all add: pinv_def)
  have "rr_mem (pr_read (ps_ram s)) = rw_mem (pr_write (ps_ram s))" using v by (simp add: rinv_def ram_inv_def rside_def)
  with a w obtain more where a: "rs' = rs" "ws' = ws @ more" "ps_rm s' = ps_rm s"
    "length (mw_done (ps_wm s)) \<le> length (mw_done (ps_wm s'))" "wreach I p m0 False ws' (wside s')"
    "pr_read (ps_ram s') = (pr_read (ps_ram s))\<lparr>rr_mem := rw_mem (pr_write (ps_ram s'))\<rparr>"
    by (auto simp: write_action_def)
  have r': "\<forall>r\<in>set rs'. snd r \<le> length (mw_done (ps_wm s'))" using r a(1,4) by fastforce
  note m = pinv_mems_ok(1) [OF mem ok sz a(5) r']
  have n: "length (mw_done (ps_wm s)) \<le> length ws" by (rule pinv_mems_ok(2) [OF mem ok sz w r])
  have "met_by (mi_bytes I m0) (ws, rs, s) k \<subseteq> met_by (mi_bytes I m0) (ws', rs', s') k" if "k < length (map fst rs)" for k
  proof -
    have "rs ! k \<in> set rs" using that by simp
    then have "snd (rs ! k) \<le> length ws" using r n by fastforce
    then show ?thesis
      using that may_hold_more [of "snd (rs ! k)" ws "mi_bytes I m0" _ more] by (auto simp: met_by_def may_meet_def a(1,2))
  qed
  from rinv_memory [OF v m this] have
    "rinv I p (rw_mem (pr_write (ps_ram s'))) (met_by (mi_bytes I m0) (ws', rs', s')) (map fst rs) (rside s')"
    using a(3,6) by (simp add: rside_def)
  with a(1,5) r' show ?thesis by (simp add: pinv_def)
qed

lemma pinv_read:
  assumes i: "pinv I p m0 (ws, rs, s)" and a: "read_action I p (ws, rs, s) (ws', rs', s')"
  shows "pinv I p m0 (ws', rs', s')"
proof -
  have s: "ws' = ws" "ps_wm s' = ps_wm s" "pr_write (ps_ram s') = pr_write (ps_ram s)"
    using a by (auto simp: read_action_def wside_def)
  have "met_by b (ws', rs', s') = met_by b (ws, rs, s)" for b
    using a by (auto simp: fun_eq_iff met_by_def read_action_def nth_append s less_Suc_eq)
  with i a show ?thesis by (auto simp: pinv_def read_action_def s)
qed

theorem preach_pinv:
  assumes mem: "memory_ok I" and ok: "psdp_ok p" and sz: "2 ^ p_address_width p \<le> mi_size I m0"
    and r: "preach I p m0 t"
  shows "pinv I p m0 t"
  using r
proof induction
  case start
  show ?case by (rule pinv_init [OF mem ok sz])
next
  case (step t act t')
  obtain ws rs s ws' rs' s' where t: "t = (ws, rs, s)" "t' = (ws', rs', s')" by (cases t, cases t')
  have "wreach I p m0 False ws (wside s)" using step.IH by (simp add: pinv_def t)
  from wreach_winv [OF mem ok sz this]
  have "length (mw_segs (ps_wm s)) = p_seg_count p" "length (mw_resps (ps_wm s)) = p_seg_count p"
    by (simp_all add: winv_def cmds_inv_def wside_def)
  from ram_step_action [OF mem ok step.hyps(2) [unfolded t] this] show ?case
    unfolding t using pinv_write [OF mem ok sz step.IH [unfolded t(1)]] pinv_read [OF step.IH [unfolded t(1)]]
    by (elim disjE) assumption+
qed

section \<open>Reads beside writes\<close>

text \<open>Every byte of a completed read.\<close>

theorem concurrent_read:
  assumes mem: "memory_ok I" and ok: "psdp_ok p" and sz: "2 ^ p_address_width p \<le> mi_size I m0"
    and r: "preach I p m0 (ws, rs, s)" and i: "i < length (mr_done (ps_rm s))" and n: "rs ! i = ((a, n), d)"
  shows "i < length rs" and "\<exists>bs. mr_done (ps_rm s) ! i = (i, a, bs) \<and> length bs = n \<and>
    (\<forall>j < n. bs ! j \<in> may_hold ws d (mi_bytes I m0) (a + j))"
proof -
  let ?b0 = "mi_bytes I m0"
  have v: "rcmds_inv p (met_by ?b0 (ws, rs, s)) (map fst rs) (ps_rm s)" "reads_ok p (map fst rs)"
    using preach_pinv [OF mem ok sz r] by (simp_all add: pinv_def rinv_def rside_def)
  show l: "i < length rs" using v(1) i by (auto simp: rcmds_inv_def r_started_def r_split_def)
  from v(1) i l n obtain bs where bs: "mr_done (ps_rm s) ! i = (i, a, bs)" "length bs = n"
    "from_mems (met_by ?b0 (ws, rs, s) i) a bs" by (auto simp: rcmds_inv_def)
  have "((a, n), d) \<in> set rs" using l by (simp flip: n)
  then have "(a, n) \<in> set (map fst rs)" by (force simp: image_iff)
  then have "a + n \<le> 2 ^ p_address_width p" using v(2) unfolding reads_ok_def by fastforce
  then have fit: "a + n \<le> length ?b0" using sz memory_okD(1) [OF mem, of m0] by simp
  have "met_by ?b0 (ws, rs, s) i = may_meet ?b0 ws d" using l n by (simp add: met_by_def)
  with bs(3) have from_m: "from_mems (may_meet ?b0 ws d) a bs" by simp
  have "bs ! j \<in> may_hold ws d ?b0 (a + j)" if "j < n" for j
  proof -
    from from_m that obtain b where "b \<in> may_meet ?b0 ws d" "bs ! j = b ! (a + j)"
      by (auto simp: from_mems_def bs(2))
    with fit that show ?thesis by (simp add: may_meet_def)
  qed
  with bs(1,2) show "\<exists>bs. mr_done (ps_rm s) ! i = (i, a, bs) \<and> length bs = n \<and>
      (\<forall>j < n. bs ! j \<in> may_hold ws d ?b0 (a + j))" by blast
qed

text \<open>A read that no write overlaps but those completed before it was issued gives what they wrote.\<close>

corollary concurrent_read_exact:
  assumes mem: "memory_ok I" and ok: "psdp_ok p" and sz: "2 ^ p_address_width p \<le> mi_size I m0"
    and r: "preach I p m0 (ws, rs, s)" and i: "i < length (mr_done (ps_rm s))" and n: "rs ! i = ((a, n), d)"
    and no: "\<forall>v\<in>set (drop d ws). fst v + length (snd v) \<le> a \<or> a + n \<le> fst v"
  shows "mr_done (ps_rm s) ! i = (i, a, take n (drop a (apply_writes (take d ws) (mi_bytes I m0))))"
proof -
  let ?b = "apply_writes (take d ws) (mi_bytes I m0)"
  note v = preach_pinv [OF mem ok sz r]
  have l: "i < length rs" by (rule concurrent_read(1) [OF mem ok sz r i n])
  from concurrent_read(2) [OF mem ok sz r i n] obtain bs where bs: "mr_done (ps_rm s) ! i = (i, a, bs)"
    "length bs = n" "\<forall>j < n. bs ! j \<in> may_hold ws d (mi_bytes I m0) (a + j)" by blast
  have "winv I p m0 False ws (wside s)" using v wreach_winv [OF mem ok sz] by (simp add: pinv_def)
  then have "writes_ok p (take d ws)" by (auto simp: winv_def writes_ok_def dest: in_set_takeD)
  from length_apply_writes [OF this, of "mi_bytes I m0"] have lb: "length ?b = mi_size I m0"
    using sz memory_okD(1) [OF mem, of m0] by simp
  have "((a, n), d) \<in> set rs" using l by (simp flip: n)
  then have "(a, n) \<in> set (map fst rs)" by (force simp: image_iff)
  moreover have "reads_ok p (map fst rs)" using v by (simp add: pinv_def rinv_def)
  ultimately have "a + n \<le> 2 ^ p_address_width p" unfolding reads_ok_def by fastforce
  then have fit: "a + n \<le> mi_size I m0" using sz by simp
  have "bs ! j = ?b ! (a + j)" if j: "j < n" for j
  proof -
    have "\<not> (fst v \<le> a + j \<and> a + j < fst v + length (snd v))" if "v \<in> set (drop d ws)" for v
      using no that j by fastforce
    with bs(3) j show ?thesis by (auto simp: may_hold_def)
  qed
  then have "bs = take n (drop a ?b)" using bs(2) fit lb by (intro nth_equalityI) auto
  with bs(1) show ?thesis by simp
qed

text \<open>
  In particular a read issued after a write had completed, and overlapped by no other write since,
  gives the data of the write.
\<close>

corollary write_then_read:
  assumes mem: "memory_ok I" and ok: "psdp_ok p" and sz: "2 ^ p_address_width p \<le> mi_size I m0"
    and r: "preach I p m0 (ws, rs, s)" and i: "i < length (mr_done (ps_rm s))"
    and n: "rs ! i = ((a, length dat), d)" and k: "k < d" "ws ! k = (a, dat)"
    and no: "\<forall>v\<in>set (drop (Suc k) ws). fst v + length (snd v) \<le> a \<or> a + length dat \<le> fst v"
  shows "mr_done (ps_rm s) ! i = (i, a, dat)"
proof -
  let ?b = "apply_writes (take k ws) (mi_bytes I m0)" let ?mid = "drop (Suc k) (take d ws)"
  have "set (drop d ws) \<subseteq> set (drop (Suc k) ws)" using k(1) by (intro set_drop_subset_set_drop) simp
  with no have e: "mr_done (ps_rm s) ! i = (i, a, take (length dat) (drop a (apply_writes (take d ws) (mi_bytes I m0))))"
    by (intro concurrent_read_exact [OF mem ok sz r i n]) blast
  have w: "wreach I p m0 False ws (wside s)" "\<forall>r\<in>set rs. snd r \<le> length (mw_done (ps_wm s))"
    using preach_pinv [OF mem ok sz r] by (simp_all add: pinv_def)
  have "((a, length dat), d) \<in> set rs" using concurrent_read(1) [OF mem ok sz r i n] by (simp flip: n)
  with w(2) pinv_mems_ok(2) [OF mem ok sz w] have kw: "k < length ws" using k(1) by fastforce
  have ws: "writes_ok p ws" using wreach_winv [OF mem ok sz w(1)] by (simp add: winv_def)
  have b0: "2 ^ p_address_width p \<le> length (mi_bytes I m0)" using sz memory_okD(1) [OF mem, of m0] by simp
  have okk: "writes_ok p (take k ws)" "writes_ok p (take (Suc k) ws)" "writes_ok p ?mid"
    using ws by (auto simp: writes_ok_def dest: in_set_takeD in_set_dropD)
  have sk: "take (Suc k) ws = take k ws @ [(a, dat)]" using kw k(2) by (simp add: take_Suc_conv_app_nth)
  have lb: "length ?b = length (mi_bytes I m0)" by (rule length_apply_writes [OF okk(1) b0])
  have fit: "a + length dat \<le> 2 ^ p_address_width p" using okk(2) unfolding sk by (simp add: writes_ok_def)
  let ?c = "apply_writes (take (Suc k) ws) (mi_bytes I m0)"
  have lc: "length ?c = length (mi_bytes I m0)" by (rule length_apply_writes [OF okk(2) b0])
  have "take d ws = take (Suc k) ws @ ?mid" using k(1) by (metis Suc_leI append_take_drop_id min.absorb1 take_take)
  then have split: "apply_writes (take d ws) (mi_bytes I m0) = apply_writes ?mid ?c"
    by (metis apply_writes_append)
  have ld: "length (apply_writes ?mid ?c) = length (mi_bytes I m0)"
    using length_apply_writes [OF okk(3), of ?c] b0 lc by simp
  have "take (length dat) (drop a (apply_writes ?mid ?c)) = take (length dat) (drop a ?c)"
  proof (rule nth_equalityI)
    fix j assume "j < length (take (length dat) (drop a (apply_writes ?mid ?c)))"
    then have j: "j < length dat" "a + j < length ?c" using ld lc by auto
    have "\<not> (fst v \<le> a + j \<and> a + j < fst v + length (snd v))" if "v \<in> set ?mid" for v
    proof -
      have "v \<in> set (drop (Suc k) ws)" using that by (metis drop_take in_set_takeD)
      with no j(1) show ?thesis by fastforce
    qed
    with apply_writes_byte [OF okk(3) _ j(2)] b0 lc have "apply_writes ?mid ?c ! (a + j) = ?c ! (a + j)" by auto
    then show "take (length dat) (drop a (apply_writes ?mid ?c)) ! j = take (length dat) (drop a ?c) ! j"
      using j ld lc by simp
  qed (simp add: ld lc)
  also have "\<dots> = dat"
    using answer_last [of a dat "take k ws" "mi_bytes I m0"] fit b0 lb by (simp add: answer_def sk)
  finally show ?thesis using e unfolding split by simp
qed

text \<open>
  The same when reading starts only after an idle write master has written, which may have seen
  resets.
\<close>

theorem written_is_read_idle:
  assumes "memory_ok I" "psdp_ok p" "2 ^ p_address_width p \<le> mi_size I m0"
    and "wreach I p m0 rst (ws @ [(a, d)]) s" "mw_is_idle (ws_m s)"
    and "rreach I p (rw_mem (ws_r s)) rs t" "i < length (mr_done (rs_m t))" "rs ! i = (a, length d)"
  shows "mr_done (rs_m t) ! i = (i, a, d)"
proof -
  have w: "winv I p m0 rst (ws @ [(a, d)]) s" by (rule wreach_winv [OF assms(1-4)])
  have b: "mi_bytes I (rw_mem (ws_r s)) = apply_writes (ws @ [(a, d)]) (mi_bytes I m0)"
    by (rule winv_idle [OF assms(1-3) w assms(5)])
  have l: "length (mi_bytes I m0) = mi_size I m0" by (rule memory_okD(1) [OF assms(1)])
  have "mi_size I (rw_mem (ws_r s)) = mi_size I m0" using w by (auto simp: winv_def ops_inv_def)
  then have sz: "2 ^ p_address_width p \<le> mi_size I (rw_mem (ws_r s))" using assms(3) by simp
  note m = rreach_done(2) [OF assms(1,2) sz assms(6,7)]
  have ok: "writes_ok p (ws @ [(a, d)])" using w by (simp add: winv_def)
  then have "a + length d \<le> 2 ^ p_address_width p" "writes_ok p ws" by (simp_all add: writes_ok_def)
  then have "a + length d \<le> length (apply_writes ws (mi_bytes I m0))"
    using length_apply_writes [of p ws "mi_bytes I m0"] l assms(3) by simp
  from answer_last [OF this] m show ?thesis unfolding b assms(8) by simp
qed

end
