(* ===== verification/Psdp_Ram_Live.thy ===== *)
theory Psdp_Ram_Live
  imports Psdp_Ram
begin

text \<open>
  Progress of both sides of one \<open>PsdpRam\<close>. The edges of the two sides may come in any order, as
  with one clock, with two, or with one side seen first at some edges and last at others: enough
  edges of each side finish its work, whatever the other side does to the memory meanwhile.
\<close>

section \<open>Edges of both sides\<close>

text \<open>\<open>True\<close> is an edge of the write side.\<close>

primrec both_clock :: "'m memory_if \<Rightarrow> psdp \<Rightarrow> bool list \<Rightarrow> 'm psys \<Rightarrow> exn + 'm psys" where
  "both_clock I p [] s = Inr s"
| "both_clock I p (b # bs) s =
     (case (if b then write_side_edge I p s else read_side_edge I p s) of
        Inl e \<Rightarrow> Inl e
      | Inr s' \<Rightarrow> both_clock I p bs s')"

lemma preach_write_edge: "preach I p m0 (ws, rs, s) \<Longrightarrow> write_side_edge I p s = Inr s' \<Longrightarrow> preach I p m0 (ws, rs, s')"
  by (erule preach.step [where act = Write_Edge]) simp

lemma preach_read_edge: "preach I p m0 (ws, rs, s) \<Longrightarrow> read_side_edge I p s = Inr s' \<Longrightarrow> preach I p m0 (ws, rs, s')"
  by (erule preach.step [where act = Read_Edge]) simp

text \<open>What the write side does to the signals and registers of the read side: nothing.\<close>

definition same_signals :: "'m rsys \<Rightarrow> 'm rsys \<Rightarrow> bool" where
  "same_signals s s' \<longleftrightarrow> (\<exists>m. s' = s\<lparr>rs_r := (rs_r s)\<lparr>rr_mem := m\<rparr>\<rparr>)"

lemma same_signals_view:
  assumes "same_signals s s'"
  shows "rs_m s' = rs_m s" "runpaused s' = runpaused s" "rflowing p s' = rflowing p s" "read_left p s' i = read_left p s i"
  using assms by (auto simp: same_signals_def runpaused_def rflowing_def read_left_def rr_view_def)

lemma write_side_edge_ok:
  assumes mem: "memory_ok I" and ok: "psdp_ok p" and sz: "2 ^ p_address_width p \<le> mi_size I m0"
    and r: "preach I p m0 (ws, rs, s)"
  obtains s' r' where "write_side_edge I p s = Inr s'" "ram_edge I p False (wside s) = Inr r'"
    "wside s' = \<lparr>ws_m = master_edge p False (wside s), ws_r = r'\<rparr>" "same_signals (rside s) (rside s')"
proof -
  have "wreach I p m0 False ws (wside s)" using preach_pinv [OF mem ok sz r] by (simp add: pinv_def)
  from winv_edge [OF mem ok sz wreach_winv [OF mem ok sz this]] obtain r1 where
    "ram_edge I p False (wside s) = Inr r1" by metis
  then obtain s' where s': "write_side_edge I p s = Inr s'"
    by (auto simp: write_side_edge_def PsdpRam_write_edge_def ram_edge_def wside_def)
  from write_side_edge_sides [OF s'] that [OF s'] show thesis
    by (auto simp: same_signals_def rside_def)
qed

lemma read_side_edge_ok:
  assumes mem: "memory_ok I" and ok: "psdp_ok p" and sz: "2 ^ p_address_width p \<le> mi_size I m0"
    and r: "preach I p m0 (ws, rs, s)"
  obtains s' where "read_side_edge I p s = Inr s'" "wside s' = wside s" "mr_frame (ps_rm s) (ps_rm s')"
    "\<forall>i < p_seg_count p. read_left p (rside s') i \<le> read_left p (rside s) i"
    "rflowing p (rside s) \<longrightarrow> (\<forall>i < p_seg_count p. read_left p (rside s') i \<le> read_left p (rside s) i - 1)"
    "runpaused (rside s) \<longrightarrow> rflowing p (rside s')"
proof -
  obtain m G where w: "rinv I p m G (map fst rs) (rside s)"
    using preach_pinv [OF mem ok sz r] by (auto simp: pinv_def)
  let ?m = "rs_m (rside s)"
  from rinv_edge [OF mem ok w] obtain r' where r': "rram_edge I p (rside s) = Inr r'" "rr_frame p (rs_r (rside s)) r'"
    and rv: "\<And>i. i < p_seg_count p \<Longrightarrow> rr_view p i r' =
      (case rr_view_step p (bit (mr_resp_ready ?m) i) (bit (mr_cmd_valid ?m) i)
          (mem_word p (mi_bytes I m) i (get_field (p_seg_addr_width p) (seg_addr_mask p) i (mr_cmd_addr ?m)))
          (rr_view p i (rs_r (rside s))) of
        (pipe, cr, rv, d) \<Rightarrow> (pipe, cr \<and> \<not> ps_pause (rr_pause (rs_r (rside s))), rv, d))" by blast
  then obtain s' where s': "read_side_edge I p s = Inr s'"
    by (auto simp: read_side_edge_def PsdpRam_read_edge_def rram_edge_def rside_def)
  from read_side_edge_sides [OF s'] r'(1) have e: "wside s' = wside s"
    "rside s' = \<lparr>rs_m = rmaster_edge p (rside s), rs_r = r'\<rparr>" by auto
  then have m: "ps_rm s' = rmaster_edge p (rside s)" by (simp add: rside_def)
  show thesis
  proof (rule that [OF s' e(1)])
    show "mr_frame (ps_rm s) (ps_rm s')" using rmaster_edge_frame(1) [OF w] by (simp add: m rside_def)
    show "\<forall>i < p_seg_count p. read_left p (rside s') i \<le> read_left p (rside s) i"
      unfolding e(2) using read_left_edge(1) [OF w _ rv] by blast
    show "rflowing p (rside s) \<longrightarrow> (\<forall>i < p_seg_count p. read_left p (rside s') i \<le> read_left p (rside s) i - 1)"
      unfolding e(2) using read_left_edge(2) [OF w _ rv] by blast
    show "runpaused (rside s) \<longrightarrow> rflowing p (rside s')"
      unfolding e(2) using redge_flowing [OF w _ r'(2) rv] by blast
  qed
qed

section \<open>The edges of the two sides, one side at a time\<close>

text \<open>No edge raises, and the write side sees its own edges only.\<close>

lemma both_clock_writes:
  assumes mem: "memory_ok I" and ok: "psdp_ok p" and sz: "2 ^ p_address_width p \<le> mi_size I m0"
  shows "preach I p m0 (ws, rs, s) \<Longrightarrow> \<exists>s'. both_clock I p bs s = Inr s' \<and> preach I p m0 (ws, rs, s') \<and>
    write_clock I p (count_list bs True) (wside s) = Inr (wside s')"
proof (induction bs arbitrary: s)
  case (Cons b bs)
  show ?case
  proof (cases b)
    case True
    from write_side_edge_ok [OF mem ok sz Cons.prems] obtain s1 r' where
      s1: "write_side_edge I p s = Inr s1" "ram_edge I p False (wside s) = Inr r'"
        "wside s1 = \<lparr>ws_m = master_edge p False (wside s), ws_r = r'\<rparr>" .
    from Cons.IH [OF preach_write_edge [OF Cons.prems s1(1)]] s1 True show ?thesis by auto
  next
    case False
    from read_side_edge_ok [OF mem ok sz Cons.prems] obtain s1 where
      s1: "read_side_edge I p s = Inr s1" "wside s1 = wside s" .
    from Cons.IH [OF preach_read_edge [OF Cons.prems s1(1)]] s1 False show ?thesis by auto
  qed
qed simp

text \<open>
  The read side: once it is flowing, each of its edges takes work away; before that, its first edge
  makes it flow.
\<close>

lemma mr_frame_trans: "mr_frame m m' \<Longrightarrow> mr_frame m' m'' \<Longrightarrow> mr_frame m m''"
  by (simp add: mr_frame_def)

lemma both_clock_flowing:
  assumes mem: "memory_ok I" and ok: "psdp_ok p" and sz: "2 ^ p_address_width p \<le> mi_size I m0"
  shows "preach I p m0 (ws, rs, s) \<Longrightarrow> rflowing p (rside s) \<Longrightarrow> \<forall>i < p_seg_count p. read_left p (rside s) i \<le> n \<Longrightarrow>
    both_clock I p bs s = Inr s' \<Longrightarrow>
    mr_frame (ps_rm s) (ps_rm s') \<and> (\<forall>i < p_seg_count p. read_left p (rside s') i \<le> n - count_list bs False)"
proof (induction bs arbitrary: s n)
  case Nil
  then show ?case by (simp add: mr_frame_def)
next
  case (Cons b bs)
  show ?case
  proof (cases b)
    case True
    from write_side_edge_ok [OF mem ok sz Cons.prems(1)] obtain s1 r' where
      s1: "write_side_edge I p s = Inr s1" "same_signals (rside s) (rside s1)" .
    note v = same_signals_view [OF s1(2)]
    have "mr_frame (ps_rm s1) (ps_rm s') \<and>
        (\<forall>i < p_seg_count p. read_left p (rside s') i \<le> n - count_list bs False)"
      using Cons.prems s1(1) True v(3,4)
      by (intro Cons.IH [OF preach_write_edge [OF Cons.prems(1) s1(1)]]) auto
    moreover have "ps_rm s1 = ps_rm s" using v(1) by (simp add: rside_def)
    ultimately show ?thesis using True by simp
  next
    case False
    from read_side_edge_ok [OF mem ok sz Cons.prems(1)] obtain s1 where
      s1: "read_side_edge I p s = Inr s1" "wside s1 = wside s" "mr_frame (ps_rm s) (ps_rm s1)"
        "\<forall>i < p_seg_count p. read_left p (rside s1) i \<le> read_left p (rside s) i"
        "rflowing p (rside s) \<longrightarrow> (\<forall>i < p_seg_count p. read_left p (rside s1) i \<le> read_left p (rside s) i - 1)"
        "runpaused (rside s) \<longrightarrow> rflowing p (rside s1)" .
    have f: "rflowing p (rside s1)" using s1(6) Cons.prems(2) by (simp add: rflowing_def)
    have "\<forall>i < p_seg_count p. read_left p (rside s1) i \<le> n - 1"
    proof (intro allI impI)
      fix i assume i: "i < p_seg_count p"
      then have "read_left p (rside s) i \<le> n" using Cons.prems(3) by blast
      with s1(5) [rule_format, OF Cons.prems(2) i] show "read_left p (rside s1) i \<le> n - 1" by linarith
    qed
    moreover have "both_clock I p bs s1 = Inr s'" using Cons.prems(4) s1(1) False by simp
    ultimately have "mr_frame (ps_rm s1) (ps_rm s') \<and>
        (\<forall>i < p_seg_count p. read_left p (rside s') i \<le> n - 1 - count_list bs False)"
      by (rule Cons.IH [OF preach_read_edge [OF Cons.prems(1) s1(1)] f])
    with mr_frame_trans [OF s1(3)] False show ?thesis by simp
  qed
qed

lemma both_clock_reads:
  assumes mem: "memory_ok I" and ok: "psdp_ok p" and sz: "2 ^ p_address_width p \<le> mi_size I m0"
  shows "preach I p m0 (ws, rs, s) \<Longrightarrow> runpaused (rside s) \<Longrightarrow> \<forall>i < p_seg_count p. read_left p (rside s) i \<le> n \<Longrightarrow>
    both_clock I p bs s = Inr s' \<Longrightarrow> n < count_list bs False \<Longrightarrow>
    mr_frame (ps_rm s) (ps_rm s') \<and> rdrained p (rside s')"
proof (induction bs arbitrary: s)
  case (Cons b bs)
  show ?case
  proof (cases b)
    case True
    from write_side_edge_ok [OF mem ok sz Cons.prems(1)] obtain s1 r' where
      s1: "write_side_edge I p s = Inr s1" "same_signals (rside s) (rside s1)" .
    note v = same_signals_view [OF s1(2)]
    have "mr_frame (ps_rm s1) (ps_rm s') \<and> rdrained p (rside s')"
      using Cons.prems s1(1) True v(2,4)
      by (intro Cons.IH [OF preach_write_edge [OF Cons.prems(1) s1(1)]]) auto
    moreover have "ps_rm s1 = ps_rm s" using v(1) by (simp add: rside_def)
    ultimately show ?thesis by simp
  next
    case False
    from read_side_edge_ok [OF mem ok sz Cons.prems(1)] obtain s1 where
      s1: "read_side_edge I p s = Inr s1" "wside s1 = wside s" "mr_frame (ps_rm s) (ps_rm s1)"
        "\<forall>i < p_seg_count p. read_left p (rside s1) i \<le> read_left p (rside s) i"
        "rflowing p (rside s) \<longrightarrow> (\<forall>i < p_seg_count p. read_left p (rside s1) i \<le> read_left p (rside s) i - 1)"
        "runpaused (rside s) \<longrightarrow> rflowing p (rside s1)" .
    have "\<forall>i < p_seg_count p. read_left p (rside s1) i \<le> n" using s1(4) Cons.prems(3) le_trans by blast
    moreover have "both_clock I p bs s1 = Inr s'" using Cons.prems(4) s1(1) False by simp
    ultimately have "mr_frame (ps_rm s1) (ps_rm s') \<and>
        (\<forall>i < p_seg_count p. read_left p (rside s') i \<le> n - count_list bs False)"
      by (rule both_clock_flowing [OF mem ok sz preach_read_edge [OF Cons.prems(1) s1(1)] s1(6) [rule_format, OF Cons.prems(2)]])
    moreover have "n - count_list bs False = 0" using Cons.prems(5) False by simp
    ultimately show ?thesis using mr_frame_trans [OF s1(3)] by (simp add: rdrained_def)
  qed
qed simp

section \<open>Everything completes\<close>

lemma preach_resp_steps:
  "preach I p m0 (ws, rs, s) \<Longrightarrow> preach I p m0 (ws, rs, s\<lparr>ps_wm := resp_steps p k (ps_wm s)\<rparr>)"
proof (induction k arbitrary: s)
  case (Suc k)
  show ?case
  proof (cases "mw_process_resp p (ps_wm s)")
    case (Some m)
    then have "ram_step I p Write_Resp (ws, rs, s) = Some (ws, rs, s\<lparr>ps_wm := m\<rparr>)" by simp
    from Suc.IH [OF preach.step [OF Suc.prems this]] Some show ?thesis by simp
  qed (use Suc.prems in simp)
qed simp

lemma preach_rresp_steps:
  "preach I p m0 (ws, rs, s) \<Longrightarrow> preach I p m0 (ws, rs, s\<lparr>ps_rm := rresp_steps p k (ps_rm s)\<rparr>)"
proof (induction k arbitrary: s)
  case (Suc k)
  show ?case
  proof (cases "mr_process_resp p (ps_rm s)")
    case (Some m)
    then have "ram_step I p Read_Resp (ws, rs, s) = Some (ws, rs, s\<lparr>ps_rm := m\<rparr>)" by simp
    from Suc.IH [OF preach.step [OF Suc.prems this]] Some show ?thesis by simp
  qed (use Suc.prems in simp)
qed simp

theorem both_complete:
  assumes mem: "memory_ok I" and ok: "psdp_ok p" and sz: "2 ^ p_address_width p \<le> mi_size I m0"
    and r: "preach I p m0 (ws, rs, s)" and c: "mw_cmds (ps_wm s) = []" "mr_cmds (ps_rm s) = []"
    and u: "unpaused (wside s)" "runpaused (rside s)"
    and nw: "\<forall>i < p_seg_count p. length (pending p (ps_wm s) i) + 2 \<le> count_list bs True"
    and nr: "\<forall>i < p_seg_count p. read_left p (rside s) i < count_list bs False"
  shows "\<exists>s' j k t. both_clock I p bs s = Inr s' \<and>
    t = s'\<lparr>ps_wm := resp_steps p j (ps_wm s'), ps_rm := rresp_steps p k (ps_rm s')\<rparr> \<and> preach I p m0 (ws, rs, t) \<and>
    mw_is_idle (ps_wm t) \<and> mr_is_idle (ps_rm t) \<and>
    mi_bytes I (rw_mem (pr_write (ps_ram t))) = apply_writes ws (mi_bytes I m0)"
proof -
  have c0: "0 < p_seg_count p" using ok by (simp add: psdp_ok_def)
  from both_clock_writes [OF mem ok sz r, of bs] obtain s' where s': "both_clock I p bs s = Inr s'"
    "preach I p m0 (ws, rs, s')" "write_clock I p (count_list bs True) (wside s) = Inr (wside s')" by blast
  let ?n = "count_list bs True - 2"
  have n: "?n + 2 = count_list bs True" using nw c0 by fastforce
  have w: "winv I p m0 False ws (wside s)"
    using preach_pinv [OF mem ok sz r] wreach_winv [OF mem ok sz] by (simp add: pinv_def)
  have "\<forall>i < p_seg_count p. length (pending p (ws_m (wside s)) i) \<le> ?n" using nw by (force simp: wside_def)
  from clock_drains [OF mem ok sz w u(1) this] s'(3) have d: "winv I p m0 False ws (wside s')" "drained p (wside s')"
    "mw_frame (ps_wm s) (ps_wm s')" unfolding n by (auto simp: wside_def)
  have "mw_cmds (ws_m (wside s')) = []" using d(3) c(1) by (simp add: mw_frame_def wside_def)
  from resp_steps_finish [OF ok d(1,2) this order_refl] obtain j where
    j: "mw_is_idle (resp_steps p j (ps_wm s'))" by (auto simp: wside_def)
  let ?k = "count_list bs False - 1"
  have "\<forall>i < p_seg_count p. read_left p (rside s) i \<le> ?k" "?k < count_list bs False" using nr c0 by fastforce+
  from both_clock_reads [OF mem ok sz r u(2) this(1) s'(1) this(2)]
  have e: "mr_frame (ps_rm s) (ps_rm s')" "rdrained p (rside s')" by simp_all
  obtain m G where ri: "rinv I p m G (map fst rs) (rside s')"
    using preach_pinv [OF mem ok sz s'(2)] by (auto simp: pinv_def)
  have "mr_cmds (rs_m (rside s')) = []" using e(1) c(2) by (simp add: mr_frame_def rside_def)
  from rresp_steps_finish [OF ok ri e(2) this order_refl] obtain k where
    k: "mr_is_idle (rresp_steps p k (ps_rm s'))" by (auto simp: rside_def)
  let ?t = "s'\<lparr>ps_wm := resp_steps p j (ps_wm s'), ps_rm := rresp_steps p k (ps_rm s')\<rparr>"
  from preach_rresp_steps [OF preach_resp_steps [OF s'(2), of j], of k]
  have t: "preach I p m0 (ws, rs, ?t)" by simp
  have "winv I p m0 False ws (wside ?t)"
    using preach_pinv [OF mem ok sz t] wreach_winv [OF mem ok sz] by (simp add: pinv_def)
  from winv_idle [OF mem ok sz this] j
  have "mi_bytes I (rw_mem (pr_write (ps_ram ?t))) = apply_writes ws (mi_bytes I m0)" by (simp add: wside_def)
  with s'(1) t j k show ?thesis by (intro exI [of _ s'] exI [of _ j] exI [of _ k] exI [of _ ?t]) simp
qed

end
