(* ===== verification/Psdp_Examples.thy ===== *)
theory Psdp_Examples
  imports Psdp_Ram_Live
begin

text \<open>A small bus and memory for the witnesses: two segments of one byte, four bytes in all.\<close>

definition ex_bus :: psdp_bus where
  "ex_bus = \<lparr>bus_data = 16, bus_be = 2, bus_valid = 2, bus_addr = 2\<rparr>"

definition ex_psdp :: psdp where
  "ex_psdp = \<lparr>p_width = 16, p_byte_lanes = 2, p_seg_count = 2, p_seg_data_width = 8, p_seg_byte_lanes = 1,
     p_seg_addr_width = 1, p_seg_be_width = 1, p_address_width = 2\<rparr>"

definition ex_ram :: "byte list" where
  "ex_ram = [1, 2, 3, 4]"

lemma ex_psdp_ok: "psdp_ok ex_psdp"
  by (simp add: psdp_ok_def ex_psdp_def)

lemma ex_ram_size: "2 ^ p_address_width ex_psdp \<le> mi_size list_memory ex_ram"
  by (simp add: ex_psdp_def ex_ram_def list_memory_def)

lemma ex_writes: "\<exists>s. wreach list_memory ex_psdp ex_ram False [(1, [7, 9])] s \<and> mw_is_idle (ws_m s)"
proof -
  have "writes_ok ex_psdp [(1, [7, 9])]" by (simp add: writes_ok_def ex_psdp_def)
  from writes_possible [OF list_memory_ok ex_psdp_ok ex_ram_size this] show ?thesis by blast
qed

lemma ex_reads: "\<exists>s. rreach list_memory ex_psdp m [(1, 2)] s \<and> mr_is_idle (rs_m s)"
  if "2 ^ p_address_width ex_psdp \<le> mi_size list_memory m"
proof -
  have "reads_ok ex_psdp [(1, 2)]" by (simp add: reads_ok_def ex_psdp_def)
  from reads_possible [OF list_memory_ok ex_psdp_ok that this] show ?thesis by blast
qed

lemma rreach_idle_done:
  assumes "memory_ok I" "psdp_ok p" "2 ^ p_address_width p \<le> mi_size I m0" "rreach I p m0 rs s" "mr_is_idle (rs_m s)"
  shows "length (mr_done (rs_m s)) = length rs"
  using rreach_rinv [OF assms(1-4)] assms(5) by (simp add: rinv_def rcmds_inv_def mr_is_idle_def)

section \<open>A reset between a write and its completion\<close>

definition ex_m1 :: mw where "ex_m1 = snd (mw_write ex_psdp 0 (Inr [7]) (mw_init ex_psdp))"
definition ex_m2 :: mw where "ex_m2 = snd (mw_process_write ex_psdp ex_m1)"
definition ex_s2 :: "byte list wsys" where "ex_s2 = \<lparr>ws_m = ex_m2, ws_r = rw_init ex_ram\<rparr>"

text \<open>One edge as a total function: a raise leaves the RAM as it was.\<close>

definition ex_edge :: "bool \<Rightarrow> byte list wsys \<Rightarrow> byte list wsys" where
  "ex_edge reset s = \<lparr>ws_m = master_edge ex_psdp reset s,
     ws_r = (case ram_edge list_memory ex_psdp reset s of Inr r \<Rightarrow> r | Inl e \<Rightarrow> ws_r s)\<rparr>"

text \<open>Two edges perform the write; the reset comes before the master has seen \<open>wr_done\<close>.\<close>

definition ex_lost :: "byte list wsys" where
  "ex_lost = (let s = ex_edge True (ex_edge False (ex_edge False ex_s2))
     in s\<lparr>ws_m := resp_steps ex_psdp 1 (ws_m s)\<rparr>)"

lemma ex_edge_ok:
  "isl (ram_edge list_memory ex_psdp False ex_s2) = False"
  "isl (ram_edge list_memory ex_psdp False (ex_edge False ex_s2)) = False"
  "isl (ram_edge list_memory ex_psdp True (ex_edge False (ex_edge False ex_s2))) = False"
  by code_simp+

lemma ex_edge_reach:
  assumes "wreach list_memory ex_psdp ex_ram rst ws s" "isl (ram_edge list_memory ex_psdp b s) = False"
  shows "wreach list_memory ex_psdp ex_ram (b \<or> rst) ws (ex_edge b s)"
proof -
  obtain r' where "ram_edge list_memory ex_psdp b s = Inr r'" using assms(2) by (cases "ram_edge list_memory ex_psdp b s") auto
  with assms(1) show ?thesis
    by (cases b) (auto simp: ex_edge_def intro: wreach.edge wreach.reset)
qed

lemma ex_s2_reach: "wreach list_memory ex_psdp ex_ram False [(0, [7])] ex_s2"
proof -
  have "fst (mw_write ex_psdp 0 (Inr [7]) (mw_init ex_psdp)) = Inr 0"
    by (simp add: mw_write_def ex_psdp_def mw_init_def)
  then have "mw_write ex_psdp 0 (Inr [7]) (mw_init ex_psdp) = (Inr 0, ex_m1)"
    by (simp add: ex_m1_def prod_eq_iff)
  from wreach.accept [OF wreach.start, of ex_psdp 0 "[7]" ex_ram 0 ex_m1 list_memory] this
  have "wreach list_memory ex_psdp ex_ram False [(0, [7])] \<lparr>ws_m = ex_m1, ws_r = rw_init ex_ram\<rparr>" by simp
  from wreach.split [OF this, of "fst (mw_process_write ex_psdp ex_m1)" ex_m2]
  show ?thesis by (simp add: ex_m2_def ex_s2_def)
qed

lemma ex_lost_reach: "wreach list_memory ex_psdp ex_ram True [(0, [7])] ex_lost"
proof -
  from ex_edge_reach [OF ex_edge_reach [OF ex_edge_reach [OF ex_s2_reach ex_edge_ok(1)] ex_edge_ok(2)] ex_edge_ok(3)]
  have "wreach list_memory ex_psdp ex_ram True [(0, [7])] (ex_edge True (ex_edge False (ex_edge False ex_s2)))" by simp
  from resp_steps_reach [OF this, of 1] show ?thesis by (simp add: ex_lost_def Let_def)
qed

text \<open>A master that waits for a token that will never come.\<close>

definition starved :: "psdp \<Rightarrow> 'm wsys \<Rightarrow> bool" where
  "starved p s \<longleftrightarrow> length (mw_segs (ws_m s)) = p_seg_count p \<and> length (mw_resps (ws_m s)) = p_seg_count p \<and>
     (\<forall>i < p_seg_count p. mw_segs (ws_m s) ! i = [] \<and> \<not> bit (mw_cmd_valid (ws_m s)) i \<and>
        \<not> bit (mw_bus_valid (ws_m s)) i \<and> mw_resps (ws_m s) ! i = 0 \<and> \<not> bit (rw_bus_done (ws_r s)) i) \<and>
     (case mw_current_resp (ws_m s) of None \<Rightarrow> False
      | Some (c, seg, k) \<Rightarrow> seg < p_seg_count p \<and> k < rcm_segments c) \<and>
     mw_in_flight (ws_m s) \<noteq> 0 \<and> \<not> mw_idle (ws_m s)"

lemma starved_stuck: "starved p s \<Longrightarrow> mw_process_resp p (ws_m s) = None \<and> mw_wait (ws_m s) = Suspended"
  by (auto simp: starved_def mw_process_resp_def mw_wait_def mw_is_idle_def split: option.splits)

lemma starved_edge:
  assumes mem: "memory_ok I" and ok: "psdp_ok p" and sz: "2 ^ p_address_width p \<le> mi_size I (rw_mem (ws_r s))"
    and st: "starved p s"
  shows "\<exists>r'. ram_edge I p False s = Inr r' \<and> starved p \<lparr>ws_m = master_edge p False s, ws_r = r'\<rparr> \<and>
    mi_size I (rw_mem r') = mi_size I (rw_mem (ws_r s))"
proof -
  let ?m = "ws_m s" let ?m' = "master_edge p False s"
  have len: "length (mw_segs ?m) = p_seg_count p" "length (mw_resps ?m) = p_seg_count p"
    using st by (simp_all add: starved_def)
  from rw_run_run [OF mem ok sz refl] obtain r' where r': "ram_edge I p False s = Inr r'"
    "mi_size I (rw_mem r') = mi_size I (rw_mem (ws_r s))"
    and dn: "\<And>i. i < p_seg_count p \<Longrightarrow> bit (rw_bus_done r') i \<longleftrightarrow> bit (rw_cmd_ready (ws_r s)) i \<and> bit (mw_bus_valid ?m) i"
    unfolding ram_edge_def by metis
  have v: "mw_segs ?m' ! i = [] \<and> \<not> bit (mw_cmd_valid ?m') i \<and> mw_resps ?m' ! i = 0" if i: "i < p_seg_count p" for i
  proof -
    have "(mw_segs ?m' ! i, bit (mw_cmd_valid ?m') i, mw_resps ?m' ! i) =
        (case mw_view p i ?m' of (q, v, op, t) \<Rightarrow> (q, v, t))" by (simp add: mw_view_def)
    with mw_run_views(2) [OF len i, of "rw_bus_ready (ws_r s)" "rw_bus_done (ws_r s)"] st i show ?thesis
      by (simp add: master_edge_def starved_def mw_view_def mw_view_step_def)
  qed
  have b: "mw_bus_valid ?m' = mw_cmd_valid ?m'" by (simp add: master_edge_def mw_run_bus)
  have f: "mw_frame ?m ?m'" unfolding master_edge_def by (rule mw_run_views(1) [OF len])
  have "starved p \<lparr>ws_m = ?m', ws_r = r'\<rparr>"
    using st v f dn by (simp add: starved_def mw_frame_def b)
  with r' show ?thesis by blast
qed

lemma starved_forever:
  assumes mem: "memory_ok I" and ok: "psdp_ok p"
  shows "2 ^ p_address_width p \<le> mi_size I (rw_mem (ws_r s)) \<Longrightarrow> starved p s \<Longrightarrow>
    \<exists>s'. write_clock I p n s = Inr s' \<and> starved p s'"
proof (induction n arbitrary: s)
  case (Suc n)
  from starved_edge [OF mem ok Suc.prems] obtain r' where r': "ram_edge I p False s = Inr r'"
    "starved p \<lparr>ws_m = master_edge p False s, ws_r = r'\<rparr>" "mi_size I (rw_mem r') = mi_size I (rw_mem (ws_r s))" by blast
  from Suc.IH [OF _ r'(2)] Suc.prems(1) r'(1,3) show ?case by simp
qed simp

lemma ex_lost_starved: "starved ex_psdp ex_lost" "rw_mem (ws_r ex_lost) = [7, 2, 3, 4]"
proof -
  have c: "(mw_segs (ws_m ex_lost), mw_cmd_valid (ws_m ex_lost), mw_resps (ws_m ex_lost), mw_bus_valid (ws_m ex_lost),
      mw_in_flight (ws_m ex_lost), rw_bus_done (ws_r ex_lost), rw_mem (ws_r ex_lost), mw_idle (ws_m ex_lost)) =
      ([[], []], 0, [0, 0], 0, 1, 0, [7, 2, 3, 4], False)" by code_simp
  have "(case mw_current_resp (ws_m ex_lost) of None \<Rightarrow> False
      | Some (c, seg, k) \<Rightarrow> seg < p_seg_count ex_psdp \<and> k < rcm_segments c) = True" by code_simp
  moreover have "p_seg_count ex_psdp = Suc (Suc 0)" by (simp add: ex_psdp_def)
  ultimately show "starved ex_psdp ex_lost"
    using c by (auto simp: starved_def less_Suc_eq)
  show "rw_mem (ws_r ex_lost) = [7, 2, 3, 4]" using c by simp
qed

section \<open>A reset between a read and its answer\<close>

definition ex_redge :: "bool \<Rightarrow> byte list rsys \<Rightarrow> byte list rsys" where
  "ex_redge reset s = \<lparr>rs_m = mr_run ex_psdp reset (rr_bus_ready (rs_r s)) (rr_bus_valid (rs_r s)) (rr_bus_data (rs_r s)) (rs_m s),
     rs_r = (case rr_run list_memory ex_psdp reset (mr_bus_valid (rs_m s)) (mr_bus_addr (rs_m s)) (mr_bus_ready (rs_m s)) (rs_r s) of
       Inr r \<Rightarrow> r | Inl e \<Rightarrow> rs_r s)\<rparr>"

text \<open>\<open>read(a, n)\<close>, accepted and split.\<close>

definition ex_read :: "int \<Rightarrow> int \<Rightarrow> byte list rsys \<Rightarrow> byte list rsys" where
  "ex_read a n s = s\<lparr>rs_m := snd (mr_process_read ex_psdp (snd (mr_read ex_psdp a n (rs_m s))))\<rparr>"

definition ex_answer :: "byte list rsys \<Rightarrow> byte list rsys" where
  "ex_answer s = s\<lparr>rs_m := rresp_steps ex_psdp 10 (rs_m s)\<rparr>"

definition ex_rstart :: "byte list rsys" where
  "ex_rstart = \<lparr>rs_m = mr_init ex_psdp, rs_r = rr_init ex_psdp ex_ram\<rparr>"

lemma ex_misaligned:
  "map snd (mr_done (rs_m (ex_answer (ex_redge False (ex_redge False (ex_redge False (ex_redge False (ex_read 2 1
     (ex_redge True (ex_redge False (ex_redge False (ex_redge False (ex_read 0 1 ex_rstart))))))))))))) = [(0, [3])]"
  by code_simp

section \<open>A read beside a write\<close>

text \<open>
  The write of 7 and 9 completes; then a write of 5 is issued, and a read of two bytes; each side
  sees a few edges, and the read completes.
\<close>

definition ex_beside :: "int \<Rightarrow> ram_act list" where
  "ex_beside a = [Issue_Write 1 [7, 9], Split_Write] @ replicate 4 Write_Edge @ replicate 4 Write_Resp @
     [Issue_Write a [5], Split_Write, Issue_Read 1 2, Split_Read, Write_Edge, Read_Edge, Write_Edge] @
     replicate 3 Read_Edge @ replicate 4 Read_Resp"

lemma ex_beside_run:
  assumes "map_option (\<lambda>(ws, rs, s). (ws, rs, mr_done (ps_rm s)))
     (ram_steps list_memory ex_psdp acts ([], [], psys_init ex_psdp ex_ram)) = Some (ws, rs, ds)"
  shows "\<exists>s. preach list_memory ex_psdp ex_ram (ws, rs, s) \<and> mr_done (ps_rm s) = ds"
  using assms ram_steps_reach [OF preach.start] by fastforce

lemma ex_beside_same:
  "\<exists>s. preach list_memory ex_psdp ex_ram ([(1, [7, 9]), (2, [5])], [((1, 2), 1)], s) \<and>
     mr_done (ps_rm s) = [(0, 1, [7, 5])]"
proof (rule ex_beside_run [of "ex_beside 2"])
  show "map_option (\<lambda>(ws, rs, s). (ws, rs, mr_done (ps_rm s)))
      (ram_steps list_memory ex_psdp (ex_beside 2) ([], [], psys_init ex_psdp ex_ram)) =
    Some ([(1, [7, 9]), (2, [5])], [((1, 2), 1)], [(0, 1, [7, 5])])" by code_simp
qed

lemma ex_beside_other:
  "\<exists>s. preach list_memory ex_psdp ex_ram ([(1, [7, 9]), (0, [5])], [((1, 2), 1)], s) \<and>
     mr_done (ps_rm s) = [(0, 1, [7, 9])]"
proof (rule ex_beside_run [of "ex_beside 0"])
  show "map_option (\<lambda>(ws, rs, s). (ws, rs, mr_done (ps_rm s)))
      (ram_steps list_memory ex_psdp (ex_beside 0) ([], [], psys_init ex_psdp ex_ram)) =
    Some ([(1, [7, 9]), (0, [5])], [((1, 2), 1)], [(0, 1, [7, 9])])" by code_simp
qed

text \<open>A write and a read that have been split, before any edge.\<close>

definition ex_both :: "byte list psys" where
  "ex_both = (case ram_steps list_memory ex_psdp [Issue_Write 1 [7, 9], Split_Write, Issue_Read 1 2, Split_Read]
       ([], [], psys_init ex_psdp ex_ram) of Some (ws, rs, s) \<Rightarrow> s | None \<Rightarrow> psys_init ex_psdp ex_ram)"

lemma ex_both_reach: "preach list_memory ex_psdp ex_ram ([(1, [7, 9])], [((1, 2), 0)], ex_both)"
proof -
  let ?r = "ram_steps list_memory ex_psdp [Issue_Write 1 [7, 9], Split_Write, Issue_Read 1 2, Split_Read]
      ([], [], psys_init ex_psdp ex_ram)"
  have "map_option (\<lambda>(ws, rs, s). (ws, rs)) ?r = Some ([(1, [7, 9])], [((1, 2), 0)])" by code_simp
  then obtain s where s: "?r = Some ([(1, [7, 9])], [((1, 2), 0)], s)" by auto
  then have "ex_both = s" by (simp only: ex_both_def option.case prod.case)
  with ram_steps_reach [OF preach.start s] show ?thesis by simp
qed

end
