(* ===== verification/Spec2Isabelle.thy ===== *)
theory Spec2Isabelle
  imports Examples Boot_Example Doorbell Pifo_Model Qm_Ideal Sched_Burst Psdp_Examples
begin

text \<open>
  A model of the Python code of SchedraNIC, the simulation side of a network interface card with
  a programmable packet scheduler, and the theorems that make it correct. Five programs are
  modelled, each from its source:

  \<^item> the driver, \<open>src/tb/mqnic_core_pcie_us_schedule/mqnic.py\<close>: it discovers the card through its
    register blocks, creates event, completion, transmit and receive queues, sends and receives
    packets through rings in host memory, and tells the scheduler the rank of every packet;
  \<^item> the segmented RAM bus, \<open>src/tb/rx_core/dma_psdp_ram.py\<close>: masters that split transfers into
    words of the bus's segments and collect the responses, and the memory models that answer;
  \<^item> the reference model of the PIFO test benches, \<open>src/tb/PIFO/test_PIFO_SRAM_Top.py\<close> and, of one
    level, \<open>test_PIFO_SRAM_Level_1.py\<close>;
  \<^item> the test of the transmit queue manager, \<open>src/tb/tx_queue_manager/test_tx_queue_manager.py\<close>;
  \<^item> the scheduler tests, \<open>src/tb/mqnic_core_pcie_us_schedule/test_mqnic_core_pcie_us.py\<close>: the ranks
    of four scheduling policies, the producers that send through the driver, and the checks of what
    comes back.

  \<^bold>\<open>How the driver is modelled.\<close> The objects of the Python program are records in stores of one
  \<open>world\<close> (\<open>World\<close>), one record per class with the class's attributes. A method is an operation of
  the state-and-exception monad of \<open>Prelude\<close>, named \<open>Class_method\<close>; an exception leaves the changes
  made before it, as in Python, and each \<open>assert\<close>, failed lookup, \<open>struct.error\<close> and attribute of
  \<open>None\<close> is a value of \<open>exn\<close>. The NIC, the PCIe library and the memory pool are the parameter \<open>env\<close>
  of \<open>Device\<close>: any bus transaction may change the NIC and the host memory. Every transaction is
  recorded in \<open>w_mmio\<close>, so that what a method does on the bus is part of what is proved.
  Host buffers are byte lists under a region's identity; \<open>Py_Struct\<close> gives \<open>struct\<close>'s encoding.
  Python integers are \<open>int\<close>: the driver's pointers never wrap, only the registers' 16 bits do.

  The theories follow the file: \<open>Regs\<close> (the constants, lines 19 to 364), \<open>Resource\<close>,
  \<open>Reg_Blocks\<close> (\<open>RegBlock\<close>, \<open>RegBlockList\<close>), \<open>Packet_Pool\<close> (\<open>Driver.alloc_pkt\<close>, \<open>free_pkt\<close>),
  \<open>Event_Queue\<close> (\<open>Eq\<close>), \<open>Cpl_Queue\<close> (\<open>Cq\<close>), \<open>Ring\<close> (what \<open>Txq\<close> and \<open>Rxq\<close> share), \<open>Tx_Queue\<close>
  (\<open>Txq\<close>), \<open>Rx_Queue\<close> (\<open>Rxq\<close>), \<open>Events\<close> (\<open>Eq.process_eq\<close>, \<open>Driver.interrupt_handler\<close>), \<open>Ports\<close>
  (\<open>Port\<close> and the scheduler classes), \<open>Iface\<close> (\<open>Interface\<close>), \<open>Driver\<close> (\<open>Driver\<close>, \<open>Interrupt\<close>),
  \<open>Doorbell\<close> (the order of the writes of concurrent senders) and \<open>Coroutines\<close> (the driver at run
  time). An interrupt calls \<open>process_eq\<close>, which calls the handlers of completion queues, which
  release buffers to the pool, wake up senders, deliver packets and refill rings; \<open>start_xmit\<close>
  posts to a ring and rings its doorbell. \<open>Bring_Up\<close> follows the discovery of the device and the
  opening of the interfaces with an invariant for a driver that is coming up (\<open>up_inv\<close>), proved by
  triples of conditions before and after a method (\<open>triple\<close>); \<open>Boot\<close> puts them together as
  \<open>bring_up\<close>, and \<open>Boot_Example\<close> runs it on a small device.

  \<^bold>\<open>Concurrency.\<close> A method is an operation that runs through; a coroutine that waits is a result
  (\<open>Parked\<close> for a sender on a full ring, \<open>None\<close> for a receiver). \<open>Coroutines\<close> takes the methods of the
  running driver apart at their \<open>await\<close>s: a coroutine is a list of frames, frames of any number of
  coroutines and accesses of the NIC alternate in any order (\<open>task_reach\<close>), and a coroutine that is
  left alone does what the method does (\<open>implements\<close>). A register access issues its transaction
  in one step, so the order of transactions is the order in which they are issued. Opening and
  closing of queues and the discovery of the device run alone, before and after.

  \<^bold>\<open>How the RAM bus is modelled.\<close> \<open>Psdp_Bus\<close> has the geometry and the packing of segment fields
  into wide signals. \<open>Psdp_Write\<close> and \<open>Psdp_Read\<close> have the classes: a coroutine is a step function
  (one command taken, one response taken, one clock edge), its local variables are fields of the
  object's record, and the signals it drives are fields named \<open>bus\<close>. A master and a RAM are
  connected by letting each sample what the other drove before the edge. The step relations
  \<open>wreach\<close> (\<open>Psdp_Write_Link\<close>) and \<open>rreach\<close> (\<open>Psdp_Read_Reach\<close>) allow any interleaving of new
  transfers, coroutine steps, clock edges and pauses, on the write side also resets, which both
  sides see at the same edge. \<open>Psdp_Wrap\<close> has the wrapper classes and the \<open>wait\<close> loops, and
  \<open>Psdp_Ram\<close> both masters on one \<open>PsdpRam\<close> (\<open>preach\<close>): the sides share the memory only, so an edge
  of both is an edge of one side and then one of the other, in either order; \<open>Psdp_Ram_Live\<close> lets
  both sides run from such a state. The memory (\<open>cocotbext.axi.memory.Memory\<close>) is a parameter with
  its documented behaviour \<open>memory_ok\<close>: it holds bytes, and reads and writes inside its size do
  what they say.

  \<^bold>\<open>The PIFO test bench.\<close> \<open>Heap_Queue\<close> has Python's \<open>heapq\<close> with its two sift loops, \<open>Pifo_Model\<close> the
  checker and its workloads, with the hardware as a parameter.

  \<^bold>\<open>The queue manager test bench.\<close> \<open>Qm_Check\<close> has the directed test and the random rounds, with the
  bench's account of the queues as a record, the hardware as one function per bus transaction on a
  state of its own and the random numbers as arguments; the account is right on any hardware
  (\<open>qm_inv\<close>). \<open>Qm_Ideal\<close> has a queue manager as the test expects one, which is no part of the program.

  \<^bold>\<open>The scheduler tests.\<close> \<open>Sched_Check\<close> has the packets and the receive loops: what arrives is a list,
  and its end is the time-out. \<open>Py_Float\<close> has Python's floating point numbers as rationals with
  every result rounded to 53 bits, ties to even; exponents do not overflow in this program.
  \<open>Rank_Policies\<close> has the four workloads, their ranks and the checks of the order; a test's
  \<open>queue_configs\<close> are records that extend \<open>queue_config\<close>, without the colours and names of the plots.
  \<open>Sched_Burst\<close> has the producer, an operation of the driver's monad.

  \<^bold>\<open>Contracts.\<close> Where one part relies on another the contract is a locale, interpreted on the
  code's definitions: \<open>index_allocator\<close> and \<open>least_allocator\<close> (\<open>Resource\<close>), \<open>buffer_pool\<close>
  (\<open>Packet_Pool\<close>), \<open>lap_scan\<close> (the phase bit of completion and event rings, \<open>Cpl_Queue\<close>) and
  \<open>pqueue\<close> (\<open>Heap_Queue\<close>).

  \<^bold>\<open>What is proved.\<close>

  \<^item> Invariants: \<open>run_inv\<close> (\<open>Events\<close>) says that every open ring is consistent and that no packet
    buffer is in two slots or both in a slot and free; every handler and \<open>start_xmit\<close> keep it, on
    normal and on exceptional ways out and in every interleaving of coroutines. \<open>winv\<close> and \<open>rinv\<close> relate everything in flight on the RAM
    bus to the transfers accepted; \<open>rinv\<close> takes for each read the memories that it may have met, so that
    it is also the invariant of a reader beside a writer.
  \<^item> Function: the descriptors of a posted packet describe exactly its bytes; completion handling
    takes exactly the new entries, frees exactly their slots and delivers the packets in order;
    opening a queue issues exactly the programming sequence of the hardware; a split write
    stores its data and nothing else.
  \<^item> Abstract specification: an idle write master means that the memory is the accepted writes
    applied in order (\<open>apply_writes\<close>), a completed read gives the bytes of the memory;
    beside a writer every byte of a read is what the writes completed before it give, or the byte of
    a write that had not completed (a regular register per byte). An
    accepted test of the PIFO means that the hardware sorts.
  \<^item> Bring-up: \<open>init_pcie_dev\<close> and \<open>open\<close> of every interface end on every device; when they return, every
    interface is in operation and everything proved of the running driver applies from there on.
  \<^item> Test benches: what the checks of the PIFO and of the queue manager accept, and where they test
    less than they seem to.
  \<^item> Scheduling: the ranks of the tests are in range and order the packets as their policies say;
    weighted fair queueing is fair to within one packet although its times are rounded; a test
    passes exactly if the packets sent have come back, each once.
  \<^item> Order: the scheduler is never told of a packet that the published producer pointer does not
    cover; in the copy of the driver under \<open>mqnic_core_pcie_us_change\<close> it always is.
  \<^item> Termination and progress: all loops of the driver, the walk over register blocks on any
    device, every transfer on the RAM bus without pauses; on a RAM that both masters use neither
    side can hold up the other.
  \<^item> Errors: how a second initialisation fails, and behaviour that is not what the code means to
    do: \<open>Interface.close\<close>, edge interrupts, resets of the RAM bus.

  \<^bold>\<open>Fuel.\<close> A loop whose end depends on the device takes fuel, and running out of it is the result
  \<open>NoFuel\<close>, which is no exception of the program. Completion loops get one more than the size of the
  ring: an entry is new for one lap only (\<open>tx_cpl_loop_ok\<close>, \<open>rx_cpl_loop_ok\<close>). \<open>free_buf\<close> and the
  reclaim loop get the distance of the pointers. The walk over register blocks gets \<open>2 ^ 30\<close>, more
  than there are aligned offsets. The event loop gets its fuel from outside, since the NIC may
  write events while it runs; for a NIC that does not, the size of the ring and one is enough
  (\<open>eq_loop_quiet\<close>). The RAM bus needs no fuel: progress is proved with explicit numbers of edges.

  \<^bold>\<open>Not modelled.\<close> Logging and printing, which have no effect on the model. Signal values that are
  neither 0 nor 1. Of the RAM bus: the classes that look up signals by prefix or entity, \<open>init_write\<close>
  and \<open>init_read\<close> of the wrappers, which call methods that no class of the repository defines, and
  resets on the read side, of which only the example \<open>reset_misplaces_answer\<close> speaks. The copies of
  modelled files: \<open>rxtx_core/dma_psdp_ram.py\<close> is the same text, \<open>tx_core/dma_psdp_ram.py\<close> the same
  classes with fewer wrappers, and \<open>mqnic_core_pcie_us_change/mqnic.py\<close> differs in a queue limit and in
  \<open>Txq.write_prod_ptr\<close>, which is modelled for both. The other cocotb tests, \<open>test_ping\<close> and
  \<open>test_strict_priority_barrier\<close>, which no test run calls, and the plots: they use these programs and
  keep no state of their own. The Verilog of the card and the C kernel module:
  the card is the parameter \<open>env\<close>, and the kernel module is another driver for it.
\<close>

section \<open>Sending\<close>

text \<open>
  C1. Gather. With a slot free and a buffer taken from the pool, \<open>tx_transmit\<close> up to the
  doorbell succeeds, the ring's and the pool's invariants hold again, and what the NIC fetches
  through the descriptor block of the producer pointer, descriptor by descriptor, is the packet.
\<close>

theorem tx_post_gather:
  assumes ring: "txq_ring i k n b s" and inv: "bufs_inv s" and room: "\<not> Txq_full (w_txqs s i)"
    and alloc: "alloc_pkt E s = (Inr p, s2)"
    and fits: "10 + length data \<le> length (w_mem s2 (rg_id p))" "length data < 2 ^ 32"
    and addr: "0 \<le> rg_addr p" "rg_addr p + 10 + int (length data) < 2 ^ 64"
    and csum: "0 \<le> csum" "csum < 2 ^ 16"
  shows "\<exists>s'. Txq_post E i data csum s = (Inr (), s') \<and> txq_ring i k n b s' \<and> bufs_inv s' \<and>
    fetch_block (w_mem s') b p (block_pos k n (txq_prod_ptr (w_txqs s i))) n = data"
proof -
  note room' = txq_ring_room [OF ring room]
  from Txq_post_keeps [OF ring inv room' alloc fits addr csum]
  obtain s' where s': "Txq_post E i data csum s = (Inr (), s')" "txq_ring i k n b s'" "bufs_inv s'" by blast
  with Txq_post_fetch [OF ring inv room' alloc fits addr csum s'(1)] show ?thesis by blast
qed

theorem tx_post_gather_witness:
  "\<exists>s'. Txq_post null_env 0 (replicate 50 7) 0 ex_tx = (Inr (), s') \<and> txq_ring 0 2 2 0 s' \<and> bufs_inv s' \<and>
    fetch_block (w_mem s') 0 ex_pkt (block_pos 2 2 (txq_prod_ptr (w_txqs ex_tx 0))) 2 = replicate 50 7"
  by (rule tx_post_gather [OF ex_rings(1) ex_bufs_inv(1) _ ex_tx_alloc])
     (simp_all add: Txq_full_def ex_defs)



text \<open>
  C3. Doorbells are never early. However the coroutines that send on a ring are interleaved with
  each other and with the rest of the driver, at every moment of the bus the scheduler has been told
  of no more packets than the published producer pointer covers (fewer than \<open>2 ^ 16\<close> being sent);
  once no sender is under way, the ranks announced are those of the packets sent and the NIC's
  pointer is the driver's. A \<open>tx_transmit\<close> that runs through is one of these interleavings.
\<close>

theorem doorbell_after_publish:
  assumes "sends E r w (no_senders s0) c" "txq_hw_regs (w_txqs s0 r) = Some w" "length (sd_sent c) < 2 ^ 16"
  shows "(\<exists>tr. w_mmio (sd_w c) = w_mmio s0 @ tr \<and> covered w (txq_prod_ptr (w_txqs s0 r)) tr \<and>
      (sd_posted c = [] \<and> sd_published c = [] \<longrightarrow> mset (announced w tr) = mset (sd_sent c) \<and>
         published w (txq_prod_ptr (w_txqs s0 r)) tr mod 65536 = txq_prod_ptr (w_txqs (sd_w c) r) mod 65536)) \<and>
    (\<forall>data rank csum s'. Txq_tx_transmit E r data rank csum (sd_w c) = (Inr (), s') \<longrightarrow>
       sends E r w (no_senders s0) (c\<lparr>sd_w := s', sd_sent := rank # sd_sent c\<rparr>))"
proof -
  from sends_sends_inv [OF assms(1) refl assms(2)] assms(3) obtain tr where tr: "sends_inv r w s0 tr c" by auto
  then have "w_mmio (sd_w c) = w_mmio s0 @ tr" "covered w (txq_prod_ptr (w_txqs s0 r)) tr"
    by (simp_all add: sends_inv_def Let_def)
  with sends_inv_done [OF tr] sends_trans [OF assms(1) tx_transmit_sends] show ?thesis by blast
qed

theorem doorbell_after_publish_witness:
  "\<exists>c tr. sends null_env 0 (Bar 0) (no_senders ex_tx) c \<and> w_mmio (sd_w c) = tr \<and> covered (Bar 0) 0 tr \<and>
    mset (announced (Bar 0) tr) = {#5#} \<and> published (Bar 0) 0 tr mod 65536 = 1"
proof -
  have hw: "txq_hw_regs (w_txqs ex_tx 0) = Some (Bar 0)" and p: "txq_prod_ptr (w_txqs ex_tx 0) = 0"
    and mm: "w_mmio ex_tx = []" by (simp_all add: ex_defs)
  from ex_transmit obtain s' where s': "Txq_tx_transmit null_env 0 (replicate 50 7) 5 0 ex_tx = (Inr (), s')"
      "txq_prod_ptr (w_txqs s' 0) = 1" by blast
  let ?c = "(no_senders ex_tx)\<lparr>sd_w := s', sd_sent := 5 # sd_sent (no_senders ex_tx)\<rparr>"
  have "sends null_env 0 (Bar 0) (no_senders ex_tx) ?c"
    using doorbell_after_publish [OF sends.none hw] s'(1) by (simp add: no_senders_def)
  with doorbell_after_publish [OF this hw] show ?thesis
    by (intro exI [of _ ?c] exI [of _ "w_mmio s'"]) (auto simp: no_senders_def p mm s'(2))
qed

section \<open>Bringing the driver up\<close>

text \<open>
  C4. The bring-up. On any device and from the state in which the driver's objects are created,
  \<open>init_pcie_dev\<close> followed by \<open>open\<close> of every interface ends, and leaves the invariant of the
  running driver however it ends. If it returns normally, every interface is up and has one open
  ring for each queue of the hardware and open event queues, and every completion queue an event can
  name is attached to an open ring. Whatever senders, interrupts and the NIC do from there on, the
  invariant holds.
\<close>

theorem bring_up_correct:
  assumes "device_ok E" "bring_up E (init_world h) = (res, s)"
  shows "run_inv s \<and> res \<noteq> Inl NoFuel \<and> (\<forall>c. task_reach E s c \<longrightarrow> run_inv (tk_w c)) \<and>
    (res = Inr () \<longrightarrow> events_served s \<and> (\<forall>i \<in> set (drv_interfaces (w_drv s)). if_operational s i))"
proof -
  have "up_inv (init_world h)" "served {} (init_world h)"
    using coming_up_init [of "{}" h] by (simp_all add: coming_up_def)
  from tripleD [OF triple_bring_up [OF assms(1)] this assms(2)]
  have up: "up_inv s" "res = Inr () \<longrightarrow> served {} s" by auto
  have "run_inv (tk_w c)" if "task_reach E s c" for c
    using task_reach_ok [OF that assms(1) up_invD(1) [OF up(1)]] by (simp add: tasks_ok_def)
  moreover have "res \<noteq> Inl NoFuel"
    using stops_bring_up [OF assms(1)] assms(2) unfolding ends_def by (metis fst_conv)
  ultimately show ?thesis
    using up_invD(1) [OF up(1)] up up_served operational [OF assms(1)] assms(2) by blast
qed

theorem bring_up_correct_witness:
  "\<exists>s. bring_up boot_env (init_world 0) = (Inr (), s) \<and> drv_interfaces (w_drv s) = [0] \<and> run_inv s \<and>
    events_served s \<and> if_operational s 0"
proof -
  from boot_bring_up obtain s where s: "bring_up boot_env (init_world 0) = (Inr (), s)" "drv_interfaces (w_drv s) = [0]"
    by blast
  with bring_up_correct [OF boot_env_ok s(1)] show ?thesis by auto
qed

text \<open>
  C38. In the copy of the driver under \<open>tb/mqnic_core_pcie_us_change\<close> every packet is announced to the
  scheduler before the producer pointer that covers it is published.
\<close>

theorem change_announces_early:
  assumes "txq_hw_regs (w_txqs s r) = Some w" "Txq_tx_transmit_change E r data rank csum s = (Inr (), s')"
  shows "\<exists>tr. w_mmio s' = w_mmio s @ tr \<and> announced w tr = [rank] \<and>
    published w (txq_prod_ptr (w_txqs s r)) tr = (txq_prod_ptr (w_txqs s r) + 1) mod 65536 \<and>
    \<not> covered w (txq_prod_ptr (w_txqs s r)) tr"
  using assms by (rule Txq_tx_transmit_change_run)

theorem change_announces_early_witness:
  "\<exists>s' tr. Txq_tx_transmit_change null_env 0 (replicate 50 7) 5 0 ex_tx = (Inr (), s') \<and>
    w_mmio s' = w_mmio ex_tx @ tr \<and> \<not> covered (Bar 0) 0 tr"
proof -
  from ex_transmit_change obtain s' where
    s': "Txq_tx_transmit_change null_env 0 (replicate 50 7) 5 0 ex_tx = (Inr (), s')" by blast
  have "txq_hw_regs (w_txqs ex_tx 0) = Some (Bar 0)" "txq_prod_ptr (w_txqs ex_tx 0) = 0" by (simp_all add: ex_defs)
  with change_announces_early [OF _ s'] s' show ?thesis by auto
qed

text \<open>
  C5. Completions of sent packets. When the new entries of the completion ring name distinct
  slots that hold packets, \<open>process_tx_cq\<close> frees exactly these slots, reports the new consumer
  pointer to the NIC as its only bus access, and moves the ring's consumer pointer over free
  slots up to the first packet that is still outstanding.
\<close>

theorem process_tx_cq_correct:
  assumes "device_ok E" "cq_ring c k b s" "cq_src_ring (w_cqs s c) = Some (TxRing r)"
    and "cq_hw_regs (w_cqs s c) = Some w" "ifc_port_up (w_ifs s (cq_interface (w_cqs s c)))"
    and "txq_ring r kr n br s" "bufs_inv s"
    and "l = ring.run_length (w_mem s b) k (cq_cons_ptr (w_cqs s c))"
    and "distinct (cpl_slots (w_mem s b) k kr (cq_cons_ptr (w_cqs s c)) l)"
    and "\<forall>m \<in> set (cpl_slots (w_mem s b) k kr (cq_cons_ptr (w_cqs s c)) l). slot s (TxRing r) m \<noteq> None"
  shows "\<exists>s'. Txq_process_tx_cq E c s = (Inr (), s') \<and> txq_ring r kr n br s' \<and> bufs_inv s' \<and>
    cq_cons_ptr (w_cqs s' c) = cq_cons_ptr (w_cqs s c) + int l \<and>
    w_mmio s' = w_mmio s @ [WR w 8 (0x80900000 OR ((cq_cons_ptr (w_cqs s c) + int l) mod 65536))] \<and>
    (\<forall>m. slot s' (TxRing r) m =
       (if m \<in> set (cpl_slots (w_mem s b) k kr (cq_cons_ptr (w_cqs s c)) l) then None else slot s (TxRing r) m)) \<and>
    txq_prod_ptr (w_txqs s' r) = txq_prod_ptr (w_txqs s r) \<and>
    txq_cons_ptr (w_txqs s r) \<le> txq_cons_ptr (w_txqs s' r) \<and>
    (\<forall>p. txq_cons_ptr (w_txqs s r) \<le> p \<and> p < txq_cons_ptr (w_txqs s' r) \<longrightarrow>
       slot s' (TxRing r) (slot_of kr p) = None) \<and>
    (Txq_empty (w_txqs s' r) \<or>
     slot s' (TxRing r) (slot_of kr (txq_cons_ptr (w_txqs s' r))) \<noteq> None)"
  using assms by (rule Txq_process_tx_cq_ok)

theorem process_tx_cq_correct_witness:
  "\<exists>s'. Txq_process_tx_cq null_env 0 ex_tx1 = (Inr (), s') \<and> txq_ring 0 2 2 0 s' \<and> bufs_inv s' \<and>
    slot s' (TxRing 0) 0 = None"
proof -
  have c: "cq_cons_ptr (w_cqs ex_tx1 0) = 0" "cq_src_ring (w_cqs ex_tx1 0) = Some (TxRing 0)"
      "cq_hw_regs (w_cqs ex_tx1 0) = Some (Bar 0)" "ifc_port_up (w_ifs ex_tx1 (cq_interface (w_cqs ex_tx1 0)))"
    by (simp_all add: ex_defs)
  have l: "1 = ring.run_length (w_mem ex_tx1 1) 1 (cq_cons_ptr (w_cqs ex_tx1 0))"
    by (simp add: ex_mem c(1) ex_run_length del: One_nat_def)
  show ?thesis
    using process_tx_cq_correct [OF null_env_ok ex_cq_rings(2) c(2-4) ex_rings(2) ex_bufs_inv(2) l]
    by (auto simp: c(1) ex_mem ex_cpl_slots ex_slot simp del: One_nat_def)
qed

section \<open>Receiving\<close>



section \<open>Events and interrupts\<close>







text \<open>
  C29. Following the hardware's pointers. A queue's 16-bit hardware pointer is enough to bring
  the driver's unbounded pointer up to date: after reading it the driver's pointer is the
  hardware's, provided the hardware is ahead by less than \<open>2 ^ 16\<close>. The completion queue reads
  the producer pointer from the low half of the word, the transmit queue the consumer pointer
  from the high half.
\<close>

theorem read_pointer_exact:
  assumes "cq_hw_regs (w_cqs s c) = Some w" "txq_hw_regs (w_txqs s t) = Some w'"
    and "cq_prod_ptr (w_cqs s c) \<le> p" "p < cq_prod_ptr (w_cqs s c) + 2 ^ 16"
    and "txq_cons_ptr (w_txqs s t) \<le> x" "x < txq_cons_ptr (w_txqs s t) + 2 ^ 16"
    and "rd_val E w 0xC s mod 2 ^ 16 = p mod 2 ^ 16" "rd_val E w' 0x10 s div 2 ^ 16 = x mod 2 ^ 16"
  shows "cq_prod_ptr (w_cqs (snd (Cq_read_prod_ptr E c s)) c) = p \<and>
    txq_cons_ptr (w_txqs (snd (Txq_read_cons_ptr E t s)) t) = x"
proof -
  let ?v = "rd_val E w 0xC s" let ?u = "rd_val E w' 0x10 s"
  have v: "?v AND 65535 = p mod 65536" "drop_bit 16 ?u = x mod 65536"
    using and_mask_mod [of ?v 16] assms(7,8) by (simp_all add: drop_bit_eq_div)
  have "sync_ptr (cq_prod_ptr (w_cqs s c)) (?v AND 65535) = p"
    using assms(3,4) v(1) sync_ptr_exact [of "cq_prod_ptr (w_cqs s c)" p] by simp
  moreover have "sync_ptr (txq_cons_ptr (w_txqs s t)) (drop_bit 16 ?u) = x"
    using assms(5,6) v(2) sync_ptr_exact [of "txq_cons_ptr (w_txqs s t)" x] by simp
  ultimately show ?thesis
    using assms(1,2) by (simp add: Cq_read_prod_ptr_def Txq_read_cons_ptr_def run_simps sync_ptr_def regs)
qed

theorem read_pointer_exact_witness:
  "cq_prod_ptr (w_cqs (snd (Cq_read_prod_ptr null_env 0 ex_tx1)) 0) = 0 \<and>
   txq_cons_ptr (w_txqs (snd (Txq_read_cons_ptr null_env 0 ex_tx1)) 0) = 0"
  by (rule read_pointer_exact [where w = "Bar 0" and w' = "Bar 0"]) (simp_all add: ex_defs rd_val_def null_env_def)

section \<open>Refilling, freeing, opening\<close>

text \<open>
  C14. Refilling a receive ring. Nothing happens while less than eight entries are missing.
  Otherwise every missing entry gets a buffer of its own and a descriptor block that covers it,
  entries armed before stay armed, the invariants hold, and the doorbell is rung once, with the
  producer pointer of the full ring, after the last block is written; or the memory pool is
  exhausted and no doorbell is rung.
\<close>

theorem refill_buffers_correct:
  assumes "rxq_ring i k n b s" "bufs_inv s" "device_ok E" "packets_ok s"
    and "rxq_hw_regs (w_rxqs s i) = Some w"
    and "missing = 2 ^ k - (rxq_prod_ptr (w_rxqs s i) - rxq_cons_ptr (w_rxqs s i))"
  shows "if missing < 8 then Rxq_refill_buffers E i s = (Inr (), s)
    else \<exists>res s1. rx_refill_loop E (nat missing) i s = (res, s1) \<and> w_mmio s1 = w_mmio s \<and>
      rxq_ring i k n b s1 \<and> bufs_inv s1 \<and> packets_ok s1 \<and>
      (\<forall>p. rxq_cons_ptr (w_rxqs s i) \<le> p \<and> p < rxq_prod_ptr (w_rxqs s i) \<and> rx_armed i k n b s p \<longrightarrow>
        rx_armed i k n b s1 p) \<and>
      (res = Inr () \<and> rxq_prod_ptr (w_rxqs s1 i) = rxq_cons_ptr (w_rxqs s i) + 2 ^ k \<and>
         (\<forall>p. rxq_prod_ptr (w_rxqs s i) \<le> p \<and> p < rxq_cons_ptr (w_rxqs s i) + 2 ^ k \<longrightarrow>
            rx_armed i k n b s1 p) \<and>
         Rxq_refill_buffers E i s =
           (Inr (), wr_state E w 8 (0x80800000 OR (rxq_prod_ptr (w_rxqs s1 i) mod 65536)) s1) \<or>
       res = Inl PoolError \<and> Rxq_refill_buffers E i s = (Inl PoolError, s1))"
proof (cases "missing < 8")
  case True
  then show ?thesis using Rxq_refill_buffers_ok(1) [OF assms(1-5)] unfolding assms(6) by simp
next
  case False
  then have m: "8 \<le> 2 ^ k - (rxq_prod_ptr (w_rxqs s i) - rxq_cons_ptr (w_rxqs s i))" unfolding assms(6) by simp
  show ?thesis
    using False Rxq_refill_buffers_ok(2) [OF assms(1-5) m] unfolding assms(6) rx_fill_frame_def
    by (simp only: if_False) blast
qed

theorem refill_buffers_correct_witness:
  "\<exists>res s1. rx_refill_loop null_env 8 0 ex_rx = (res, s1) \<and> w_mmio s1 = [] \<and> rxq_ring 0 3 1 0 s1"
proof -
  have w: "rxq_hw_regs (w_rxqs ex_rx 0) = Some (Bar 0)" by (simp add: ex_defs)
  have m: "8 = 2 ^ 3 - (rxq_prod_ptr (w_rxqs ex_rx 0) - rxq_cons_ptr (w_rxqs ex_rx 0))" by (simp add: ex_defs)
  have mm: "w_mmio ex_rx = []" by (simp add: ex_defs)
  show ?thesis
    using refill_buffers_correct [OF ex_rings(3) ex_bufs_inv(3) null_env_ok ex_packets_ok(3) w m]
    by (simp add: mm) blast
qed

text \<open>
  C26. Freeing the buffers of a ring. \<open>free_buf\<close> releases the outstanding slots in order, from the
  consumer pointer on, and stops at the first one that has been completed already, if any, with
  the driver's assertion; it never runs past the producer pointer.
\<close>

theorem free_buf_correct:
  assumes "txq_ring r k n b s" "bufs_inv s"
  shows "\<exists>c s'. Txq_free_buf r s =
      (if c = txq_prod_ptr (w_txqs s r) then Inr () else Inl (AssertionError ''pkt is not None''), s') \<and>
    txq_ring r k n b s' \<and> bufs_inv s' \<and> txq_cons_ptr (w_txqs s' r) = c \<and>
    c \<le> txq_prod_ptr (w_txqs s r) \<and>
    (\<forall>p. txq_cons_ptr (w_txqs s r) \<le> p \<and> p < c \<longrightarrow>
       slot s (TxRing r) (slot_of k p) \<noteq> None \<and> slot s' (TxRing r) (slot_of k p) = None) \<and>
    (c < txq_prod_ptr (w_txqs s r) \<longrightarrow> slot s (TxRing r) (slot_of k c) = None)"
proof -
  let ?q = "w_txqs s r"
  have "txq_cons_ptr ?q \<le> txq_prod_ptr ?q" using assms(1) by (simp add: txq_ring_def Let_def slots_ok_def)
  then have "txq_prod_ptr ?q = txq_cons_ptr ?q + int (nat (txq_prod_ptr ?q - txq_cons_ptr ?q))" by simp
  from txq_free_buf_loop_spec [OF assms this] show ?thesis
    by (auto simp: Txq_free_buf_def run_bnd get_txq_def)
qed

theorem free_buf_correct_witness:
  "\<exists>c s'. Txq_free_buf 0 ex_tx1 =
      (if c = (1 :: int) then Inr () else Inl (AssertionError ''pkt is not None''), s') \<and> bufs_inv s'"
proof -
  have p: "txq_prod_ptr (w_txqs ex_tx1 0) = 1" by (simp add: ex_defs)
  from free_buf_correct [OF ex_rings(2) ex_bufs_inv(2)] show ?thesis unfolding p by blast
qed

text \<open>
  C27. Opening a transmit ring. On a closed queue, with an index and memory available, \<open>open\<close>
  programs the queue manager: disabled, base address, sizes, completion queue and both pointers,
  in this order and nothing else; the ring is then empty, consistent, known to its completion
  queue, and still disabled.
\<close>

theorem txq_open_programs:
  assumes "txq_hw_regs (w_txqs s self) = None" "i = txq_interface (w_txqs s self)"
    and "ifc_txq_res (w_ifs s i) = Some r" "res_alloc r = Inr (ix, r')" "0 < sz" "0 < dbs"
    and "cq_cqn (w_cqs s c) = Some cqn"
    and "pool_alloc E (w_hw s) (2 ^ floor_log2 sz * (16 * 2 ^ floor_log2 dbs)) = Some (a, bs, h)"
    and "int (length bs) = 2 ^ floor_log2 sz * (16 * 2 ^ floor_log2 dbs)"
    and "device_ok E" "bufs_inv s"
  shows "\<exists>s'. Txq_open E self c sz dbs s = (Inr (), s') \<and>
    w_mmio s' = w_mmio s @ program_ring (fst (res_get_window r' ix)) a
      (int (floor_log2 dbs)) (int (floor_log2 sz)) cqn \<and>
    txq_index (w_txqs s' self) = Some ix \<and> Txq_empty (w_txqs s' self) \<and>
    cq_src_ring (w_cqs s' c) = Some (TxRing self) \<and> cq_handler (w_cqs s' c) = Some ProcessTxCq \<and>
    txq_ring self (floor_log2 sz) (2 ^ floor_log2 dbs) (w_next_region s) s'"
  using Txq_open_run [OF assms] by blast

theorem txq_open_programs_witness:
  "\<exists>s'. Txq_open null_env 1 0 4 2 ex_tx = (Inr (), s') \<and> Txq_empty (w_txqs s' 1) \<and>
     txq_ring 1 2 2 4 s'"
proof -
  have "\<exists>s'. Txq_open null_env 1 0 4 2 ex_tx = (Inr (), s') \<and>
    w_mmio s' = w_mmio ex_tx @ program_ring (fst (res_get_window ((Resource_init 4 (Bar 0) 32)
      \<lparr>res_free_list := [1, 2, 3]\<rparr>) 0)) 65536 (int (floor_log2 2)) (int (floor_log2 4)) 0 \<and>
    txq_index (w_txqs s' 1) = Some 0 \<and> Txq_empty (w_txqs s' 1) \<and>
    cq_src_ring (w_cqs s' 0) = Some (TxRing 1) \<and> cq_handler (w_cqs s' 0) = Some ProcessTxCq \<and>
    txq_ring 1 (floor_log2 4) (2 ^ floor_log2 2) (w_next_region ex_tx) s'"
    by (rule txq_open_programs [where r = "Resource_init 4 (Bar 0) 32" and i = 0,
          OF _ _ _ _ _ _ _ ex_pool_alloc _ null_env_ok ex_bufs_inv(1)])
       (simp_all add: ex_defs ex_alloc_4 ex_log2)
  then show ?thesis by (auto simp: ex_log2 ex_drv)
qed

text \<open>
  C28. Opening a completion queue. On a closed queue, with an index and memory available, \<open>open\<close>
  takes the index, registers the queue with its event queue under that index, and programs the
  queue manager: disabled, base address, size, event queue, both pointers, enabled, in this order
  and nothing else. The ring has the largest power of two of entries not above the size asked for.
\<close>

theorem cq_open_programs:
  assumes "cq_hw_regs (w_cqs s self) = None" "i = cq_interface (w_cqs s self)"
    and "ifc_cq_res (w_ifs s i) = Some r" "res_alloc r = Inr (n, r')" "0 < sz"
    and "eq_eqn (w_eqs s e) = Some eqn"
    and "pool_alloc E (w_hw s) (2 ^ floor_log2 sz * 32) = Some (a, bs, h)"
    and "length bs = 2 ^ floor_log2 sz * 32"
  shows "\<exists>s'. Cq_open E self e sz s = (Inr (), s') \<and>
    w_mmio s' = w_mmio s @ program_queue (fst (res_get_window r' n)) a (int (floor_log2 sz)) eqn \<and>
    eq_cq_table (w_eqs s' e) n = Some self \<and>
    cq_size (w_cqs s' self) \<le> sz \<and> sz < 2 * cq_size (w_cqs s' self) \<and>
    cq_cqn (w_cqs s' self) = Some n \<and> cq_enabled (w_cqs s' self) \<and>
    cq_prod_ptr (w_cqs s' self) = 0 \<and> cq_cons_ptr (w_cqs s' self) = 0"
proof -
  from Cq_open_run [OF assms] obtain s' where s': "Cq_open E self e sz s = (Inr (), s')"
      "w_mmio s' = w_mmio s @ program_queue (fst (res_get_window r' n)) a (int (floor_log2 sz)) eqn"
      "eq_cq_table (w_eqs s' e) n = Some self" "cq_size (w_cqs s' self) = 2 ^ floor_log2 sz"
      "cq_cqn (w_cqs s' self) = Some n" "cq_enabled (w_cqs s' self)"
      "cq_prod_ptr (w_cqs s' self) = 0" "cq_cons_ptr (w_cqs s' self) = 0"
    unfolding Let_def by blast
  with floor_log2_bounds [OF assms(5)] show ?thesis by (intro exI [of _ s']) simp
qed

theorem cq_open_programs_witness:
  "\<exists>s'. Cq_open null_env 1 0 3 ex_tx = (Inr (), s') \<and> eq_cq_table (w_eqs s' 0) 0 = Some 1 \<and>
    w_mmio s' = [WR (SubWin (Bar 0) 0 (Some 16)) 8 0x40000100, WR (SubWin (Bar 0) 0 (Some 16)) 0 65536,
      WR (SubWin (Bar 0) 0 (Some 16)) 4 0, WR (SubWin (Bar 0) 0 (Some 16)) 8 0x80020001,
      WR (SubWin (Bar 0) 0 (Some 16)) 8 0xC0000000, WR (SubWin (Bar 0) 0 (Some 16)) 8 0x80800000,
      WR (SubWin (Bar 0) 0 (Some 16)) 8 0x80900000, WR (SubWin (Bar 0) 0 (Some 16)) 8 0x40000101]"
proof -
  let ?r = "(Resource_init 4 (Bar 0) 16)\<lparr>res_free_list := [1, 2, 3]\<rparr>"
  have "\<exists>s'. Cq_open null_env 1 0 3 ex_tx = (Inr (), s') \<and>
    w_mmio s' = w_mmio ex_tx @ program_queue (fst (res_get_window ?r 0)) 65536 (int (floor_log2 3)) 0 \<and>
    eq_cq_table (w_eqs s' 0) 0 = Some 1 \<and>
    cq_size (w_cqs s' 1) \<le> 3 \<and> 3 < 2 * cq_size (w_cqs s' 1) \<and>
    cq_cqn (w_cqs s' 1) = Some 0 \<and> cq_enabled (w_cqs s' 1) \<and>
    cq_prod_ptr (w_cqs s' 1) = 0 \<and> cq_cons_ptr (w_cqs s' 1) = 0"
    by (rule cq_open_programs [where r = "Resource_init 4 (Bar 0) 16" and i = 0 and bs = "zeros 64" and h = 65600])
       (simp_all add: ex_defs ex_alloc_4 ex_log2 ex_eq_def Eq_init_def null_env_def zeros_def)
  moreover have "w_mmio ex_tx = []" by (simp add: ex_defs)
  ultimately show ?thesis
    by (auto simp: program_queue_def ex_log2 res_get_window_def Resource_init_def create_window_def Let_def)
qed

section \<open>Bringing the device up\<close>



text \<open>
  C31. What the walk leaves behind: the old blocks, then at least one block of this window, the
  first at the offset where the walk started, all at distinct offsets, the others word-aligned.
\<close>

theorem enumerate_collects:
  assumes "enumerate_reg_blocks fuel E win offset blocks s = (Inr (blocks', e), s')"
    and "distinct (map rb_offset blocks)" "offset \<notin> rb_offset ` set blocks"
  shows "\<exists>new. blocks' = blocks @ new \<and> new \<noteq> [] \<and> rb_offset (hd new) = offset \<and>
    distinct (map rb_offset blocks') \<and> (\<forall>b \<in> set new. rb_parent b = win) \<and>
    (\<forall>b \<in> set (tl new). rb_offset b mod 4 = 0 \<and> rb_offset b \<noteq> 0)"
  using assms by (rule enumerate_blocks)

theorem enumerate_collects_witness:
  "\<exists>new blocks' e s'. enumerate_reg_blocks 1 null_env (Bar 0) 64 [] ex_tx = (Inr (blocks', e), s') \<and>
    blocks' = [] @ new \<and> rb_offset (hd new) = 64"
proof -
  have r: "enumerate_reg_blocks 1 null_env (Bar 0) 64 [] ex_tx =
      (Inr ([block_at (Bar 0) 64 0 0], None), rd_state null_env (Bar 0) 72 (rd_state null_env (Bar 0) 68
        (rd_state null_env (Bar 0) 64 ex_tx)))"
    by (simp add: run_bnd null_env_reads Let_def regs)
  from enumerate_collects [OF r] show ?thesis using r by auto
qed

text \<open>
  C32. Queue indices. \<open>alloc\<close> fails only when no index is free; the indices of successive calls
  are distinct, were free, lie in range, and the first is the least free one; an index given back
  is free again.
\<close>

theorem resource_indices:
  assumes "res_inv r"
  shows "(res_alloc r = Inl IndexError \<longleftrightarrow> res_free_list r = []) \<and>
    (\<forall>n is r'. res.alloc_many n r = Inr (is, r') \<longrightarrow> length is = n \<and> distinct is \<and>
       set is \<subseteq> set (res_free_list r) \<inter> {0..<res_count r} \<and> res_inv r' \<and>
       (n \<noteq> 0 \<longrightarrow> hd is = Min (set (res_free_list r)))) \<and>
    (\<forall>i r'. res_alloc r = Inr (i, r') \<longrightarrow> set (res_free_list (res_free r' i)) = set (res_free_list r))"
proof -
  have "res_alloc r = Inl IndexError \<longleftrightarrow> res_free_list r = []"
    using res.alloc_fails_iff [OF assms] by simp
  moreover have "hd is = Min (set (res_free_list r))"
    if "res.alloc_many n r = Inr (is, r')" "n \<noteq> 0" for n "is" r'
  proof -
    from that obtain i r1 js where a: "res_alloc r = Inr (i, r1)" "is = i # js"
      by (cases n) (auto split: sum.splits)
    then show ?thesis
      using res.alloc_avail [OF assms a(1)] res.alloc_least [OF assms a(1)]
      by (auto intro!: Min_eqI [symmetric])
  qed
  moreover have "set (res_free_list r) \<subseteq> {0..<res_count r}" using assms by (simp add: res_inv_def)
  ultimately show ?thesis
    using res.alloc_many_distinct [OF assms] res.alloc_free_avail(1) [OF assms] by fast
qed

theorem resource_indices_witness:
  "res_alloc (Resource_init 0 (Bar 0) 16) = Inl IndexError \<longleftrightarrow> res_free_list (Resource_init 0 (Bar 0) 16) = []"
  using resource_indices [OF res_inv_init] by blast

section \<open>Where the code does not do what it means to\<close>





section \<open>The PIFO test bench\<close>

text \<open>
  C33. What \<open>push_all_pop_all\<close> accepts, for any hardware: the run passes exactly if the ranks of
  the words the hardware gives are the 16-bit ranks pushed, in ascending order.
\<close>

theorem push_all_pop_all_accepts:
  assumes "tb_struct tb = RankMeta_init"
  shows "(\<exists>tb'. push_all_pop_all dpush dpop ranks tb = Inr tb') \<longleftrightarrow>
    map resp_rank (dut_pops dpop (length ranks) (tb_dut (push_from dpush 0 ranks tb))) =
      sort (map (\<lambda>r. r AND (push_bit PTW 1 - 1)) ranks)"
proof -
  let ?t = "push_from dpush 0 ranks tb"
  have "heap_ok (tb_struct tb)" using assms by (simp add: RankMeta_init_def)
  from push_from_struct [OF this, of dpush 0 ranks]
  have ok: "heap_ok (tb_struct ?t)" and
      ms: "mset (map fst (tb_struct ?t)) = mset (map (\<lambda>r. r AND (push_bit PTW 1 - 1)) ranks)"
    using assms by (simp_all add: RankMeta_init_def)
  have len: "length (tb_struct ?t) = length ranks" using arg_cong [OF ms, of size] by simp
  have "sort (map fst (tb_struct ?t)) = sort (map (\<lambda>r. r AND (push_bit PTW 1 - 1)) ranks)"
    using ms by (intro properties_for_sort) auto
  with pop_times_iff [OF ok len, of dpop] show ?thesis by (simp add: push_all_pop_all_def)
qed

theorem push_all_pop_all_accepts_witness:
  "(\<exists>tb'. push_all_pop_all ideal_push ideal_pop [9, 3] \<lparr>tb_dut = [], tb_struct = []\<rparr> = Inr tb') \<longleftrightarrow>
    map resp_rank (dut_pops ideal_pop (length [9, 3 :: int])
        (tb_dut (push_from ideal_push 0 [9, 3] \<lparr>tb_dut = [], tb_struct = []\<rparr>))) =
      sort (map (\<lambda>r. r AND (push_bit PTW 1 - 1)) [9, 3])"
  by (rule push_all_pop_all_accepts) (simp add: RankMeta_init_def)

section \<open>The queue manager test bench\<close>

text \<open>
  C34. The random test gives up dequeuing. Once \<open>op\<close> exceeds the operations outstanding by 15, that
  is, once 15 attempts to dequeue have dequeued nothing, no later round on any hardware asks for an
  entry again: it runs as it would with any other way of taking requests and answering them, and
  what has been enqueued stays where it is.
\<close>

theorem qm_bench_gives_up:
  assumes "int (length (commit_list s)) + 15 \<le> qm_op s" and "qm_rounds H rs s = (r, s')"
  shows "qm_rounds (H\<lparr>qd_req_send := f, qd_resp_recv := g\<rparr>) rs s = (r, s') \<and>
    queue_cons_ptr s' = queue_cons_ptr s \<and> current_tag s' = current_tag s \<and>
    (\<forall>q. queue_uncommit_depth s ! q \<le> queue_uncommit_depth s' ! q) \<and>
    int (length (commit_list s')) + 15 \<le> qm_op s'"
proof -
  have "qm_given_up (queue_cons_ptr s) (current_tag s) (queue_uncommit_depth s) s"
    using assms(1) by (simp add: qm_given_up_def qm_gap_def)
  from qm_rounds_given_up(1) [OF this, where H = H and f = f and g = g and rs = rs]
    qm_rounds_given_up(2) [OF this, where H = H and rs = rs] assms(2) show ?thesis
    by (simp add: qm_given_up_def qm_gap_def)
qed

theorem qm_bench_gives_up_witness:
  "\<exists>s. qm_rounds (ideal_qm (\<lambda>_. False)) (replicate 3 ([], replicate 7 (0, 0), 0)) (qm_start ex_qm) = (Inr (), s) \<and>
     queue_cons_ptr (snd (qm_rounds (ideal_qm (\<lambda>_. False)) [([(0, 5)], [(0, 0)], 1)] s)) = queue_cons_ptr s"
proof -
  obtain s where s: "qm_rounds (ideal_qm (\<lambda>_. False)) (replicate 3 ([], replicate 7 (0, 0), 0)) (qm_start ex_qm) = (Inr (), s)"
      "int (length (commit_list s)) + 15 \<le> qm_op s" using ex_qm_stuck by blast
  from qm_bench_gives_up [where H = "ideal_qm (\<lambda>_. False)" and rs = "[([(0, 5)], [(0, 0)], 1)]",
      OF s(2) prod.collapse [symmetric]]
  have "queue_cons_ptr (snd (qm_rounds (ideal_qm (\<lambda>_. False)) [([(0, 5)], [(0, 0)], 1)] s)) = queue_cons_ptr s"
    by blast
  with s(1) show ?thesis by blast
qed

text \<open>
  C35. What the queue manager test accepts. A queue manager that answers as the test expects passes
  whatever numbers are drawn, even if it answers any of the random requests, or all of them, as if
  the queue were empty; at the end at most 15 operations are outstanding, no queue holds more than
  16 packets, and the pointers are four entries apart for each packet not dequeued.
\<close>

theorem qm_bench_accepts_empty:
  assumes "\<not> e 0" "\<not> e 1" "list_all qm_draws_ok rs"
  shows "\<exists>s'. qm_run_test (ideal_qm e) rs s = (Inr (), s') \<and> length (commit_list s') \<le> 15 \<and>
    (\<forall>q < NUM_QUEUES. queue_depth s' ! q \<in> {0..16} \<and>
       (queue_prod_ptr s' ! q - queue_cons_ptr s' ! q) mod 65536 = 4 * queue_uncommit_depth s' ! q)"
proof -
  obtain s' where s': "qm_run_test (ideal_qm e) rs s = (Inr (), s')" "qm_inv s'"
    using ideal_run_test [OF assms] by blast
  moreover have "length (commit_list s') \<le> 15" using s'(2) by (simp add: qm_inv_def)
  ultimately show ?thesis using qm_outstanding(2,3) by blast
qed

theorem qm_bench_accepts_empty_witness:
  "\<exists>s'. qm_run_test (ideal_qm (\<lambda>n. 2 \<le> n)) [([(0, 5)], [(0, 0)], 1)] ex_qm = (Inr (), s') \<and>
     length (commit_list s') \<le> 15"
proof -
  have "list_all qm_draws_ok [([(0, 5)], [(0, 0)], 1)]" by (simp add: qm_draws_ok_def NUM_QUEUES_def)
  from qm_bench_accepts_empty [OF _ _ this, of "\<lambda>n. 2 \<le> n" ex_qm] show ?thesis by auto
qed

section \<open>The scheduler tests\<close>

text \<open>
  C21. Weighted fair queueing. The ranks that \<open>test_wf2q\<close> computes are a permutation of 1 to the
  number of packets, fit the rank space, and ascend within a queue. Whatever number of packets is
  served in the order of the ranks, a queue with packets left is behind no other queue by more than
  its next packet, in proportion to the weights; the rounding of the virtual times never costs a
  queue a packet.
\<close>

theorem wf2q_fair:
  assumes "wf2q_configs_ok cfgs" "wf2q_pkts_with_rank cfgs = Inr out"
  shows "mset (map (\<lambda>(p, r). (we_qid p, we_seq p)) out) = mset (sent_keys cfgs) \<and>
    mset (map snd out) = mset (map int [1..<1 + nat (total_pkts cfgs)]) \<and> total_pkts cfgs \<le> rank_max \<and>
    (\<forall>c \<in> set cfgs. \<forall>(p, r) \<in> set out. \<forall>(p', r') \<in> set out.
       we_qid p = qc_qid c \<and> we_qid p' = qc_qid c \<and> we_seq p < we_seq p' \<longrightarrow> r < r') \<and>
    (\<forall>a \<in> set cfgs. \<forall>b \<in> set cfgs. \<forall>n. qc_count a \<le> int (wf2q_served out n (qc_qid a)) \<or>
       int (wf2q_served out n (qc_qid b)) * qc_weight a \<le> (int (wf2q_served out n (qc_qid a)) + 1) * qc_weight b)"
proof -
  have "qc_count a \<le> int (wf2q_served out n (qc_qid a)) \<or>
      int (wf2q_served out n (qc_qid b)) * qc_weight a \<le> (int (wf2q_served out n (qc_qid a)) + 1) * qc_weight b"
    if "a \<in> set cfgs" "b \<in> set cfgs" for a b n
    using wf2q_fairness [OF assms that, of n] by (cases "qc_count a \<le> int (wf2q_served out n (qc_qid a))") auto
  moreover have "\<forall>c \<in> set cfgs. \<forall>(p, r) \<in> set out. \<forall>(p', r') \<in> set out.
      we_qid p = qc_qid c \<and> we_qid p' = qc_qid c \<and> we_seq p < we_seq p' \<longrightarrow> r < r'"
    using wf2q_ranks_ascend [OF assms] by blast
  ultimately show ?thesis using wf2q_ranks [OF assms] by blast
qed

theorem wf2q_fair_witness:
  "\<exists>out. wf2q_pkts_with_rank wf2q_queue_configs = Inr out \<and> mset (map snd out) = mset (map int [1..<1001]) \<and>
    (\<forall>n. 100 \<le> wf2q_served out n 9 \<or> int (wf2q_served out n 0) \<le> (int (wf2q_served out n 9) + 1) * 8)"
proof -
  obtain out where out: "wf2q_pkts_with_rank wf2q_queue_configs = Inr out"
    using wf2q_runs [OF wf2q_workload(1,2)] by (auto simp: wf2q_workload(3) rank_max_def)
  let ?c = "\<lambda>q w. \<lparr>qc_qid = q, qc_count = 100, qc_weight = w\<rparr>"
  have c: "?c 9 1 \<in> set wf2q_queue_configs" "?c 0 8 \<in> set wf2q_queue_configs"
    by (simp_all add: wf2q_queue_configs_def SCHED_TEST_PKT_COUNT_def)
  note f = wf2q_fair [OF wf2q_workload(1) out]
  then have m: "mset (map snd out) = mset (map int [1..<1001])" unfolding wf2q_workload(3) by simp
  from f c have "qc_count (?c 9 1) \<le> int (wf2q_served out n (qc_qid (?c 9 1))) \<or>
      int (wf2q_served out n (qc_qid (?c 0 8))) * qc_weight (?c 9 1) \<le>
        (int (wf2q_served out n (qc_qid (?c 9 1))) + 1) * qc_weight (?c 0 8)" for n
    by blast
  with out m show ?thesis by (intro exI [of _ out]) simp
qed

text \<open>
  C24. Shortest remaining bytes. On the workload of \<open>test_sjf_srpt_approx\<close> the rank of a packet is
  one more than the integer quotient of the scaled bytes its queue has left, although the code
  divides in floating point; it lies in the rank space, and comparing ranks is comparing the bytes
  left.
\<close>

theorem srpt_ranks_exact:
  assumes "srpt_entries srpt_queue_configs = Inr es" "(r, p) \<in> set es" "(r', p') \<in> set es"
  shows "pe_rank p = 1 + (sr_remaining r - 256) * 8190 div 409344 \<and> 1 \<le> pe_rank p \<and> pe_rank p \<le> rank_max \<and>
    (pe_rank p < pe_rank p' \<longleftrightarrow> sr_remaining r < sr_remaining r')"
  using srpt_workload_order [OF assms] srpt_workload_ranks [OF assms(1,2)]
    srpt_workload_remaining normalize_exact(1) [of 256 409600 "sr_remaining r"] by simp

theorem srpt_ranks_exact_witness:
  "\<exists>es r p. srpt_entries srpt_queue_configs = Inr es \<and> (r, p) \<in> set es \<and>
    pe_rank p = 1 + (sr_remaining r - 256) * 8190 div 409344"
proof -
  obtain es where es: "srpt_entries srpt_queue_configs = Inr es" using srpt_workload_runs by blast
  have "es \<noteq> []"
  proof
    assume "es = []"
    with es have "srpt_raw_entries srpt_queue_configs = []"
      by (auto simp: srpt_entries_def Let_def dest!: mapR_map split: if_splits)
    then show False
      by (simp add: srpt_raw_entries_def srpt_queue_configs_def py_range_def SCHED_TEST_PKT_COUNT_def upt_rec)
  qed
  then obtain r p where "(r, p) \<in> set es" by (cases es) auto
  with srpt_ranks_exact [OF es this this] es show ?thesis by blast
qed



text \<open>
  C25. The deadline test's list of violations is empty exactly if the packets came back in the order
  of their deadline ranks; the shortest-remaining test passes exactly if in addition to all packets
  having arrived no queue finishes before a queue of smaller packets.
\<close>

theorem order_checks_exact:
  assumes "configs_ok edfs" "configs_ok srpts" "edf_check edfs arrived = Inr (rp, vs)"
  shows "(vs = [] \<longleftrightarrow> sorted (map (\<lambda>p. the (edf_metric edfs (recv_key p))) (rp_data rp))) \<and>
    (srpt_check srpts arrived' = Inr rp' \<longleftrightarrow>
       receive_scheduler_packets srpts (total_pkts srpts) arrived' = Inr rp' \<and> all_arrived srpts arrived' \<and>
       finishes_by_size srpts (rp_data rp'))"
  using edf_check_iff(2) [OF assms(1,3)] srpt_check_iff [OF assms(2)] by blast

theorem order_checks_exact_witness:
  "\<exists>rp vs. edf_check [\<lparr>qc_qid = 0, qc_count = 2, qc_base_deadline = 5\<rparr>] [[0, 1, 0, 0, 0], [0, 0, 0, 0, 0]] = Inr (rp, vs) \<and>
    vs \<noteq> [] \<and> \<not> sorted (map (\<lambda>p. the (edf_metric [\<lparr>qc_qid = 0, qc_count = 2, qc_base_deadline = 5\<rparr>] (recv_key p))) (rp_data rp))"
proof -
  let ?c = "[\<lparr>qc_qid = 0, qc_count = 2, qc_base_deadline = 5\<rparr>]"
  have r2: "py_range 2 = [0, 1]" by (simp add: py_range_def upt_rec)
  have run: "edf_check ?c [[0, 1, 0, 0, 0], [0, 0, 0, 0, 0]] =
    Inr (\<lparr>rp_data = [\<lparr>rv_pos = 0, rv_qid = 0, rv_seq = 1\<rparr>, \<lparr>rv_pos = 1, rv_qid = 0, rv_seq = 0\<rparr>],
      rp_seqs = [0 \<mapsto> {0, 1}], rp_expected = [0 \<mapsto> {0, 1}], rp_all_ok = True\<rparr>, [(1, 16, 5, 0, 0)])"
    by (simp add: edf_check_def receive_scheduler_packets_def total_pkts_def recv_seqs_init_def expected_seqs_def
        sched_fields_def r2 edf_metric_def edf_rank_def edf_deadline_def deadline_step_def rank_max_def recv_key_def
        assert_all_ok_def numeral_2_eq_2 del: set_py_range)
  have ok: "configs_ok ?c" "configs_ok ([] :: srpt_config list)" by (simp_all add: configs_ok_def)
  from order_checks_exact [OF ok run] run show ?thesis by auto
qed



section \<open>The segmented RAM: writing\<close>

text \<open>
  C20. Geometry. A bus whose \<open>n\<close> segments hold \<open>l\<close> bytes each, where \<open>l * n\<close> is a power of two, is
  accepted by the write and by the read side, and both compute the same well-formed geometry:
  whole bytes per segment, all lanes covered, an address space of \<open>2^(a+j)\<close> bytes.
\<close>

theorem bus_geometry:
  assumes "0 < n" "0 < l" "l * n = 2 ^ j"
  shows "\<exists>p. write_geom \<lparr>bus_data = 8 * l * n, bus_be = l * n, bus_valid = n, bus_addr = a * n\<rparr> = Inr p \<and>
    read_geom \<lparr>bus_data = 8 * l * n, bus_be = l * n, bus_valid = n, bus_addr = a * n\<rparr> = Inr p \<and>
    psdp_ok p \<and> p_seg_count p = n \<and> p_seg_byte_lanes p = l \<and> p_address_width p = a + j"
proof -
  let ?b = "\<lparr>bus_data = 8 * l * n, bus_be = l * n, bus_valid = n, bus_addr = a * n\<rparr>"
  from write_geom_ok [OF assms refl, of a] obtain p where
    p: "write_geom ?b = Inr p" "psdp_ok p" "p_seg_count p = n" "p_seg_byte_lanes p = l" "p_address_width p = a + j"
    by blast
  have "psdp_geom (bus_be ?b) ?b = Inr p" using p(1) by (auto simp: write_geom_def split: sum.splits if_splits)
  moreover have "bus_be ?b = bus_data ?b div 8" by simp
  ultimately have "read_geom ?b = Inr p" by (simp only: read_geom_def)
  with p show ?thesis by blast
qed

theorem bus_geometry_witness: "\<exists>p. write_geom ex_bus = Inr p \<and> read_geom ex_bus = Inr p \<and> psdp_ok p \<and>
    p_seg_count p = 2 \<and> p_seg_byte_lanes p = 1 \<and> p_address_width p = 2"
  using bus_geometry [of 2 1 1 1] by (simp add: ex_bus_def numeral_2_eq_2)

text \<open>
  C18. Splitting. A write in range is split without an exception, and its operations, performed
  one after the other by the RAM, store the data at the address and leave every other byte as it
  was, whatever the alignment of the data.
\<close>

theorem split_write_stores:
  assumes "memory_ok I" "psdp_ok p" "a < 2 ^ p_address_width p" "a + length data \<le> 2 ^ p_address_width p"
    and "2 ^ p_address_width p \<le> mi_size I m"
  shows "\<exists>ops m'. split_write p a data = (ops, None) \<and> exec_ops I p ops m = Inr m' \<and>
    mi_bytes I m' = splice (mi_bytes I m) a data"
  using split_write_ok [OF assms] by blast

theorem split_write_stores_witness:
  "\<exists>ops m'. split_write ex_psdp 1 [7, 9] = (ops, None) \<and> exec_ops list_memory ex_psdp ops ex_ram = Inr m' \<and>
    m' = [1, 7, 9, 4]"
  using split_write_stores [OF list_memory_ok ex_psdp_ok _ _ ex_ram_size, of 1 "[7, 9]"]
  by (simp add: ex_psdp_def) (simp add: list_memory_def ex_ram_def splice_def)

text \<open>
  C7. Refinement. In every state of the connected write master and RAM, whatever the interleaving
  of commands, coroutine steps and clock edges, whatever the pauses on both sides and the resets,
  if the master is idle then the memory is the accepted writes applied to the initial memory in
  the order in which they were accepted.
\<close>

theorem idle_memory_is_writes:
  assumes "memory_ok I" "psdp_ok p" "2 ^ p_address_width p \<le> mi_size I m0"
    and "wreach I p m0 rst ws s" and "mw_is_idle (ws_m s)"
  shows "mi_bytes I (rw_mem (ws_r s)) = apply_writes ws (mi_bytes I m0)"
  using winv_idle [OF assms(1-3) wreach_winv [OF assms(1-4)] assms(5)] .

theorem idle_memory_is_writes_witness:
  "\<exists>s. wreach list_memory ex_psdp ex_ram False [(1, [7, 9])] s \<and> mw_is_idle (ws_m s) \<and> rw_mem (ws_r s) = [1, 7, 9, 4]"
proof -
  obtain s where s: "wreach list_memory ex_psdp ex_ram False [(1, [7, 9])] s" "mw_is_idle (ws_m s)"
    using ex_writes by blast
  from idle_memory_is_writes [OF list_memory_ok ex_psdp_ok ex_ram_size s] have "rw_mem (ws_r s) = [1, 7, 9, 4]"
    by (simp add: list_memory_def apply_writes_def ex_ram_def splice_def)
  with s show ?thesis by blast
qed

text \<open>
  C9. Completion. A write whose event has been set is in the memory together with all the writes
  accepted before it: every byte that no later write contains has the value that these writes give
  it. The events are set in the order of acceptance, each with the address and length of its write.
\<close>

theorem completed_writes_stored:
  assumes "memory_ok I" "psdp_ok p" "2 ^ p_address_width p \<le> mi_size I m0"
    and "wreach I p m0 rst ws s" and "x < mi_size I m0" and "n = length (mw_done (ws_m s))"
    and "\<forall>v\<in>set (drop n ws). \<not> (fst v \<le> x \<and> x < fst v + length (snd v))"
  shows "mi_bytes I (rw_mem (ws_r s)) ! x = apply_writes (take n ws) (mi_bytes I m0) ! x \<and>
    mw_done (ws_m s) = map (\<lambda>i. (i, fst (ws ! i), length (snd (ws ! i)))) [0..<n]"
proof -
  have w: "winv I p m0 rst ws s" by (rule wreach_winv [OF assms(1-4)])
  have "mi_bytes I (rw_mem (ws_r s)) ! x = apply_writes (take n ws) (mi_bytes I m0) ! x"
    using winv_completed [OF assms(1-3) w assms(5)] assms(7) unfolding assms(6) by blast
  with winv_done [OF w] show ?thesis unfolding assms(6) by (rule conjI [rotated])
qed

theorem completed_writes_stored_witness:
  "\<exists>s. wreach list_memory ex_psdp ex_ram False [(1, [7, 9])] s \<and> rw_mem (ws_r s) ! 2 = 9 \<and> mw_done (ws_m s) = [(0, 1, 2)]"
proof -
  obtain s where s: "wreach list_memory ex_psdp ex_ram False [(1, [7, 9])] s" "mw_is_idle (ws_m s)"
    using ex_writes by blast
  from idle_all_done [OF winv_cmds [OF wreach_winv [OF list_memory_ok ex_psdp_ok ex_ram_size s(1)]] s(2)] have n: "1 = length (mw_done (ws_m s))" by simp
  have x: "2 < mi_size list_memory ex_ram" by (simp add: list_memory_def ex_ram_def)
  have d: "\<forall>v\<in>set (drop 1 [(1 :: nat, [7 :: byte, 9])]). \<not> (fst v \<le> 2 \<and> 2 < fst v + length (snd v))" by simp
  note r = completed_writes_stored [OF list_memory_ok ex_psdp_ok ex_ram_size s(1) x n d]
  have "mi_bytes list_memory (rw_mem (ws_r s)) ! 2 = 9"
    by (rule trans [OF r [THEN conjunct1]]) (simp add: list_memory_def apply_writes_def ex_ram_def splice_def)
  moreover have "mw_done (ws_m s) = [(0, 1, 2)]"
    by (rule trans [OF r [THEN conjunct2]]) simp
  ultimately have "rw_mem (ws_r s) ! 2 = 9 \<and> mw_done (ws_m s) = [(0, 1, 2)]" by (simp add: list_memory_def)
  with s(1) show ?thesis by blast
qed

text \<open>
  C10. Progress. From every state without a reset behind it in which all commands have been split
  and neither side is paused, two edges more than the longest segment queue perform every
  operation without an exception, and then the response coroutine, running until it suspends,
  completes every write.
\<close>

theorem writes_always_complete:
  assumes "memory_ok I" "psdp_ok p" "2 ^ p_address_width p \<le> mi_size I m0"
    and "wreach I p m0 False ws s" "mw_cmds (ws_m s) = []" "unpaused s"
    and "\<forall>i < p_seg_count p. length (pending p (ws_m s) i) \<le> n"
  shows "\<exists>s' k. write_clock I p (n + 2) s = Inr s' \<and> wreach I p m0 False ws (s'\<lparr>ws_m := resp_steps p k (ws_m s')\<rparr>) \<and>
    mw_is_idle (resp_steps p k (ws_m s'))"
  by (rule writes_complete [OF assms])

theorem writes_always_complete_witness:
  "\<exists>s' k. write_clock list_memory ex_psdp (1 + 2) ex_s2 = Inr s' \<and> mw_is_idle (resp_steps ex_psdp k (ws_m s'))"
proof -
  have "list_all (\<lambda>i. length (pending ex_psdp (ws_m ex_s2) i) \<le> 1) [0, 1] \<and> p_seg_count ex_psdp = 2 \<and>
      mw_cmds (ws_m ex_s2) = [] \<and> unpaused ex_s2" by code_simp
  then have s: "\<forall>i < p_seg_count ex_psdp. length (pending ex_psdp (ws_m ex_s2) i) \<le> 1"
    "mw_cmds (ws_m ex_s2) = []" "unpaused ex_s2" by (auto simp: less_2_cases_iff)
  from writes_always_complete [OF list_memory_ok ex_psdp_ok ex_ram_size ex_s2_reach s(2,3,1)] show ?thesis by blast
qed


section \<open>The segmented RAM: reading\<close>

text \<open>
  C8. Reads. In every state of the connected read master and RAM outside reset, whatever the
  interleaving and the pauses, the reads whose events have been set are the first ones accepted,
  in order, and each has given exactly the bytes of the memory at its address.
\<close>

theorem reads_give_memory:
  assumes "memory_ok I" "psdp_ok p" "2 ^ p_address_width p \<le> mi_size I m0" "rreach I p m0 rs s"
    and "i < length (mr_done (rs_m s))"
  shows "i < length rs \<and> mr_done (rs_m s) ! i = (i, fst (rs ! i), take (snd (rs ! i)) (drop (fst (rs ! i)) (mi_bytes I m0)))"
  using rreach_done [OF assms] by (simp add: answer_def)

theorem reads_give_memory_witness:
  "\<exists>s. rreach list_memory ex_psdp ex_ram [(1, 2)] s \<and> mr_done (rs_m s) ! 0 = (0, 1, [2, 3])"
proof -
  obtain s where s: "rreach list_memory ex_psdp ex_ram [(1, 2)] s" "mr_is_idle (rs_m s)"
    using ex_reads [OF ex_ram_size] by blast
  have n: "0 < length (mr_done (rs_m s))"
    using rreach_idle_done [OF list_memory_ok ex_psdp_ok ex_ram_size s] by simp
  from reads_give_memory [OF list_memory_ok ex_psdp_ok ex_ram_size s(1) n] s(1) show ?thesis
    by (auto simp: list_memory_def ex_ram_def)
qed

text \<open>
  C16. Round trip. With both masters at work on one \<open>PsdpRam\<close>, in every interleaving: a completed
  read of exactly the range of a write that had completed when the read was issued gives back the
  data of the write, unless another write of the range was accepted after it.
\<close>

theorem written_is_read:
  assumes "memory_ok I" "psdp_ok p" "2 ^ p_address_width p \<le> mi_size I m0"
    and "preach I p m0 (ws, rs, s)" "i < length (mr_done (ps_rm s))" "rs ! i = ((a, length dat), d)"
    and "k < d" "ws ! k = (a, dat)"
    and "\<forall>v\<in>set (drop (Suc k) ws). fst v + length (snd v) \<le> a \<or> a + length dat \<le> fst v"
  shows "mr_done (ps_rm s) ! i = (i, a, dat)"
  by (rule write_then_read [OF assms])

theorem written_is_read_witness:
  "\<exists>s. preach list_memory ex_psdp ex_ram ([(1, [7, 9]), (0, [5])], [((1, 2), 1)], s) \<and>
     mr_done (ps_rm s) ! 0 = (0, 1, [7, 9])"
proof -
  obtain s where s: "preach list_memory ex_psdp ex_ram ([(1, [7, 9]), (0, [5])], [((1, 2), 1)], s)"
    "0 < length (mr_done (ps_rm s))" using ex_beside_other by fastforce
  have "mr_done (ps_rm s) ! 0 = (0, 1, [7, 9])"
    by (rule written_is_read [OF list_memory_ok ex_psdp_ok ex_ram_size s, where k = 0 and d = 1]) simp_all
  with s(1) show ?thesis by blast
qed

text \<open>
  C15. Reads beside writes. With both masters at work on one \<open>PsdpRam\<close>, in every interleaving of
  commands, coroutines, clock edges and pauses of the two sides: every byte that a completed read
  gives is the byte that the writes completed before the read was issued give its address, or the
  byte of a write that was then still under way or accepted later. No other value, no half-written
  byte, and no byte that a completed write had replaced is ever read.
\<close>

theorem concurrent_reads_regular:
  assumes "memory_ok I" "psdp_ok p" "2 ^ p_address_width p \<le> mi_size I m0"
    and "preach I p m0 (ws, rs, s)" "i < length (mr_done (ps_rm s))" "rs ! i = ((a, n), d)"
  shows "\<exists>bs. mr_done (ps_rm s) ! i = (i, a, bs) \<and> length bs = n \<and>
    (\<forall>j < n. bs ! j = apply_writes (take d ws) (mi_bytes I m0) ! (a + j) \<or>
       (\<exists>v\<in>set (drop d ws). fst v \<le> a + j \<and> a + j < fst v + length (snd v) \<and>
          bs ! j = snd v ! (a + j - fst v)))"
proof -
  from concurrent_read(2) [OF assms] obtain bs where bs: "mr_done (ps_rm s) ! i = (i, a, bs)" "length bs = n"
    "\<forall>j < n. bs ! j \<in> may_hold ws d (mi_bytes I m0) (a + j)" by blast
  then show ?thesis by (intro exI [of _ bs]) (fastforce simp: may_hold_def)
qed

theorem concurrent_reads_regular_witness:
  "\<exists>s bs. preach list_memory ex_psdp ex_ram ([(1, [7, 9]), (2, [5])], [((1, 2), 1)], s) \<and>
     mr_done (ps_rm s) ! 0 = (0, 1, bs) \<and> length bs = 2 \<and> bs ! 0 = 7 \<and> (bs ! 1 = 9 \<or> bs ! 1 = 5)"
proof -
  obtain s where s: "preach list_memory ex_psdp ex_ram ([(1, [7, 9]), (2, [5])], [((1, 2), 1)], s)"
    "0 < length (mr_done (ps_rm s))" using ex_beside_same by fastforce
  have w: "apply_writes [(1, [7, 9])] (mi_bytes list_memory ex_ram) = [1, 7, 9, 4]"
    by (simp add: list_memory_def apply_writes_def ex_ram_def splice_def)
  from concurrent_reads_regular [OF list_memory_ok ex_psdp_ok ex_ram_size s, of 1 2 1] obtain bs where
    bs: "mr_done (ps_rm s) ! 0 = (0, 1, bs)" "length bs = 2"
    "\<And>j. j < 2 \<Longrightarrow> bs ! j = [1, 7, 9, 4] ! (1 + j) \<or> (2 \<le> 1 + j \<and> 1 + j < 3 \<and> bs ! j = [5] ! (1 + j - 2))"
    by (auto simp: w [unfolded One_nat_def])
  from bs(3) [of 0] bs(3) [of 1] have "bs ! 0 = 7" "bs ! 1 = 9 \<or> bs ! 1 = 5" by simp_all
  with s(1) bs(1,2) show ?thesis by blast
qed

text \<open>
  C17. Progress of both sides. From every state of the two masters at work on one \<open>PsdpRam\<close> in
  which all commands have been split and nothing is paused, enough edges of each side, in any order,
  raise nothing, and then the two response coroutines, running until they suspend, complete every
  write and every read; the memory is then the accepted writes applied in their order.
\<close>

theorem both_sides_complete:
  assumes "memory_ok I" "psdp_ok p" "2 ^ p_address_width p \<le> mi_size I m0"
    and "preach I p m0 (ws, rs, s)" "mw_cmds (ps_wm s) = []" "mr_cmds (ps_rm s) = []"
    and "unpaused (wside s)" "runpaused (rside s)"
    and "\<forall>i < p_seg_count p. length (pending p (ps_wm s) i) + 2 \<le> count_list bs True"
    and "\<forall>i < p_seg_count p. read_left p (rside s) i < count_list bs False"
  shows "\<exists>s' j k t. both_clock I p bs s = Inr s' \<and>
    t = s'\<lparr>ps_wm := resp_steps p j (ps_wm s'), ps_rm := rresp_steps p k (ps_rm s')\<rparr> \<and> preach I p m0 (ws, rs, t) \<and>
    mw_is_idle (ps_wm t) \<and> mr_is_idle (ps_rm t) \<and>
    mi_bytes I (rw_mem (pr_write (ps_ram t))) = apply_writes ws (mi_bytes I m0)"
  by (rule both_complete [OF assms])

theorem both_sides_complete_witness:
  "\<exists>s' t. both_clock list_memory ex_psdp [True, False, False, True, True, False, False] ex_both = Inr s' \<and>
     preach list_memory ex_psdp ex_ram ([(1, [7, 9])], [((1, 2), 0)], t) \<and> mr_is_idle (ps_rm t) \<and>
     rw_mem (pr_write (ps_ram t)) = [1, 7, 9, 4]"
proof -
  let ?bs = "[True, False, False, True, True, False, False]"
  have "list_all (\<lambda>i. length (pending ex_psdp (ps_wm ex_both) i) + 2 \<le> count_list ?bs True \<and>
        read_left ex_psdp (rside ex_both) i < count_list ?bs False) [0, 1] \<and>
      p_seg_count ex_psdp = 2 \<and> mw_cmds (ps_wm ex_both) = [] \<and> mr_cmds (ps_rm ex_both) = [] \<and>
      unpaused (wside ex_both) \<and> runpaused (rside ex_both)" by code_simp
  then have h: "mw_cmds (ps_wm ex_both) = []" "mr_cmds (ps_rm ex_both) = []" "unpaused (wside ex_both)"
    "runpaused (rside ex_both)"
    "\<forall>i < p_seg_count ex_psdp. length (pending ex_psdp (ps_wm ex_both) i) + 2 \<le> count_list ?bs True"
    "\<forall>i < p_seg_count ex_psdp. read_left ex_psdp (rside ex_both) i < count_list ?bs False"
    by (auto simp: less_2_cases_iff)
  have w: "apply_writes [(1, [7, 9])] (mi_bytes list_memory ex_ram) = [1, 7, 9, 4]"
    by (simp add: list_memory_def apply_writes_def ex_ram_def splice_def)
  have m: "mi_bytes list_memory m = m" for m by (simp add: list_memory_def)
  from both_sides_complete [OF list_memory_ok ex_psdp_ok ex_ram_size ex_both_reach h, unfolded w, unfolded m]
  show ?thesis by blast
qed

text \<open>
  C19. Waiting. In every reachable state \<open>wait\<close> returns if and only if every accepted transfer has
  completed, and suspends otherwise; the event it waits for is never set while transfers are in
  flight, so its loop never spins.
\<close>

theorem wait_exact:
  assumes "memory_ok I" "psdp_ok p" "2 ^ p_address_width p \<le> mi_size I m0"
    and "wreach I p m0 rst ws s" "rreach I p m0 rs t"
  shows "mw_wait (ws_m s) = (if length (mw_done (ws_m s)) = length ws then Returned else Suspended) \<and>
    mr_wait (rs_m t) = (if length (mr_done (rs_m t)) = length rs then Returned else Suspended)"
  using wreach_winv [OF assms(1-4)] rreach_rinv [OF assms(1-3,5)]
  by (auto simp: winv_def rinv_def cmds_inv_def rcmds_inv_def mw_wait_def mr_wait_def mw_is_idle_def mr_is_idle_def)

theorem wait_exact_witness:
  "mw_wait (mw_init ex_psdp) = Returned \<and> mr_wait (mr_init ex_psdp) = Returned"
  using wait_exact [OF list_memory_ok ex_psdp_ok ex_ram_size wreach.start rreach.start]
  by (simp add: mw_init_def mr_init_def)


end
